(* ===== verification/Shf_Prelude.thy ===== *)
theory Shf_Prelude
  imports Main "HOL-Library.Word"
begin

unbundle bit_operations_syntax

text \<open>
  Shared vocabulary of the development: machine integers kept as natural numbers with the
  truncation of each C type written out, the result type of operations that may leave through
  a failed assertion, and generic lemmas on lists of array indices that several components use.
\<close>

named_theorems shf_const \<open>values of the geometry constants of shf.private.h\<close>
named_theorems shf_frame \<open>what an operation leaves unchanged\<close>

type_synonym byte = "8 word"

section \<open>Unsigned integers of the C types\<close>

definition u16 :: "nat \<Rightarrow> nat" where
  "u16 n = n mod 2 ^ 16"

definition u32 :: "nat \<Rightarrow> nat" where
  "u32 n = n mod 2 ^ 32"

definition u64 :: "nat \<Rightarrow> nat" where
  "u64 n = n mod 2 ^ 64"

text \<open>Subtraction of two \<open>uint32_t\<close> values that are in range wraps around below zero.\<close>

definition u32_sub :: "nat \<Rightarrow> nat \<Rightarrow> nat" where
  "u32_sub a b = (a + (2 ^ 32 - b mod 2 ^ 32)) mod 2 ^ 32"

lemma u16_id [simp]: "n < 65536 \<Longrightarrow> u16 n = n"
  by (simp add: u16_def)

lemma u32_id [simp]: "n < 4294967296 \<Longrightarrow> u32 n = n"
  by (simp add: u32_def)

lemma u64_id [simp]: "n < 18446744073709551616 \<Longrightarrow> u64 n = n"
  by (simp add: u64_def)

lemma u32_bound [simp]: "u32 n < 4294967296"
  by (simp add: u32_def)

lemma u32_sub_id [simp]: "b \<le> a \<Longrightarrow> a < 4294967296 \<Longrightarrow> u32_sub a b = a - b"
proof -
  assume ba: "b \<le> a" and a: "a < 4294967296"
  then have "a + (2 ^ 32 - b mod 2 ^ 32) = (a - b) + 2 ^ 32" by simp
  then have "u32_sub a b = (a - b) mod 2 ^ 32" by (simp only: u32_sub_def mod_add_self2)
  with a show ?thesis by simp
qed

lemma u32_sub_bound [simp]: "u32_sub a b < 4294967296"
  by (simp add: u32_sub_def)

section \<open>Operations that may exit\<close>

text \<open>
  Every \<open>SHF_ASSERT\<close> and \<open>SHF_ASSERT_INTERNAL\<close> that fails logs a line and calls
  \<open>exit(EXIT_FAILURE)\<close>: the operation does not return. An operation that holds one has a result
  of type \<open>shf_error + 'a\<close>; \<open>Inl\<close> names the assertion, \<open>Inr\<close> is a normal return. \<open>Out_of_fuel\<close>
  is not an exit of the program: it is the value of a bounded loop whose bound was too small, and
  the development shows that it is never the result of an operation. Three more end the model where the
  program would go on: \<open>Null_pointer\<close>, \<open>Wild_pointer\<close> and \<open>Out_of_bounds\<close> stand for undefined behaviour, and
  \<open>Reader_shrinks\<close> for a call that has begun to replace a file while it only holds the lock of a reader, so
  that it is no longer one step (\<open>Shf_Multi\<close>, \<open>Shf_ShrinkRace\<close>).
\<close>

datatype shf_error =
    Stat_failed
  | Open_failed
  | Unlink_failed
  | Bad_file_size
  | Vfs_full
  | Key_past_end
  | Val_past_end
  | Pos_past_end
  | Tab_overflow
  | Tab_redirect
  | Tab_mismatch
  | Upd_recursive
  | Reader_shrinks
  | Bad_argument
  | Queue_not_ready
  | Queue_exists
  | Queue_overflow
  | Key_missing
  | Lock_not_held
  | Out_of_bounds
  | Log_recursive
  | Put_failed
  | Race_timeout
  | Log_exists
  | Log_not_attached
  | Null_pointer
  | Wild_pointer
  | Double_free
  | Count_mismatch
  | Empty_key
  | Wrong_item
  | Out_of_fuel

fun bindE :: "'e + 'a \<Rightarrow> ('a \<Rightarrow> 'e + 'b) \<Rightarrow> 'e + 'b" where
  "bindE (Inl e) f = Inl e"
| "bindE (Inr x) f = f x"

lemma bindE_Inr_iff [simp]:
  "bindE m f = Inr y \<longleftrightarrow> (\<exists>x. m = Inr x \<and> f x = Inr y)"
  by (cases m) auto

lemma bindE_Inl_iff:
  "bindE m f = Inl e \<longleftrightarrow> m = Inl e \<or> (\<exists>x. m = Inr x \<and> f x = Inl e)"
  by (cases m) auto

definition assertE :: "bool \<Rightarrow> 'e \<Rightarrow> 'e + unit" where
  "assertE b e = (if b then Inr () else Inl e)"

lemma assertE_simps [simp]:
  "assertE b e = Inr u \<longleftrightarrow> b"
  "assertE b e = Inl e' \<longleftrightarrow> \<not> b \<and> e' = e"
  "b \<Longrightarrow> bindE (assertE b e) f = f ()"
  "\<not> b \<Longrightarrow> bindE (assertE b e) f = Inl e"
  by (auto simp: assertE_def)

end
