(* ===== verification/Shf_Murmur.thy ===== *)
theory Shf_Murmur
  imports Shf_Prelude
begin

text \<open>
  \<open>MurmurHash3_x64_128\<close> (\<open>murmurhash3.c\<close>), the hash every key is located by. The 64 bit words wrap
  around as \<open>uint64_t\<close> does. A key is the list of its bytes; its length is the C argument \<open>len\<close>.
\<close>

section \<open>The C functions\<close>

definition rotl64 :: "64 word \<Rightarrow> nat \<Rightarrow> 64 word" where
  "rotl64 x r = push_bit r x OR drop_bit (64 - r) x"

text \<open>Eight bytes in memory read as one little endian word.\<close>

fun le_word :: "byte list \<Rightarrow> 64 word" where
  "le_word [] = 0"
| "le_word (b # bs) = ucast b OR push_bit 8 (le_word bs)"

definition getblock64 :: "byte list \<Rightarrow> nat \<Rightarrow> 64 word" where
  "getblock64 p i = le_word (take 8 (drop (8 * i) p))"

definition fmix64 :: "64 word \<Rightarrow> 64 word" where
  "fmix64 k0 =
     (let k1 = k0 XOR drop_bit 33 k0;
          k2 = k1 * 0xff51afd7ed558ccd;
          k3 = k2 XOR drop_bit 33 k2;
          k4 = k3 * 0xc4ceb9fe1a85ec53
      in k4 XOR drop_bit 33 k4)"

definition mm_c1 :: "64 word" where "mm_c1 = 0x87c37b91114253d5"
definition mm_c2 :: "64 word" where "mm_c2 = 0x4cf5ad432745937f"

text \<open>The two scrambling sequences the body and the tail apply to a block's words.\<close>

definition mix_k1 :: "64 word \<Rightarrow> 64 word" where
  "mix_k1 k1 = rotl64 (k1 * mm_c1) 31 * mm_c2"

definition mix_k2 :: "64 word \<Rightarrow> 64 word" where
  "mix_k2 k2 = rotl64 (k2 * mm_c2) 33 * mm_c1"

text \<open>One iteration of the body loop.\<close>

definition murmur_round :: "64 word \<Rightarrow> 64 word \<Rightarrow> 64 word \<times> 64 word \<Rightarrow> 64 word \<times> 64 word" where
  "murmur_round k1 k2 h =
     (let h1 = fst h XOR mix_k1 k1;
          h1 = rotl64 h1 27;
          h1 = h1 + snd h;
          h1 = h1 * 5 + 0x52dce729;
          h2 = snd h XOR mix_k2 k2;
          h2 = rotl64 h2 31;
          h2 = h2 + h1;
          h2 = h2 * 5 + 0x38495ab5
      in (h1, h2))"

fun murmur_body :: "byte list \<Rightarrow> nat list \<Rightarrow> 64 word \<times> 64 word \<Rightarrow> 64 word \<times> 64 word" where
  "murmur_body blocks [] h = h"
| "murmur_body blocks (i # is) h =
     murmur_body blocks is
       (murmur_round (getblock64 blocks (i * 2 + 0)) (getblock64 blocks (i * 2 + 1)) h)"

text \<open>
  The \<open>switch(len & 15)\<close>: every case falls through to the ones below it, so the statement of
  case \<open>k\<close> runs exactly when \<open>n \<ge> k\<close>.
\<close>

definition xor_tail :: "byte list \<Rightarrow> nat \<Rightarrow> nat \<Rightarrow> nat \<Rightarrow> nat \<Rightarrow> 64 word \<Rightarrow> 64 word" where
  "xor_tail tail n c i sh k = (if c \<le> n then k XOR push_bit sh (ucast (tail ! i)) else k)"

definition murmur_tail :: "byte list \<Rightarrow> nat \<Rightarrow> 64 word \<times> 64 word \<Rightarrow> 64 word \<times> 64 word" where
  "murmur_tail tail n h =
     (let k2 = xor_tail tail n 15 14 48 0;
          k2 = xor_tail tail n 14 13 40 k2;
          k2 = xor_tail tail n 13 12 32 k2;
          k2 = xor_tail tail n 12 11 24 k2;
          k2 = xor_tail tail n 11 10 16 k2;
          k2 = xor_tail tail n 10 9 8 k2;
          k2 = xor_tail tail n 9 8 0 k2;
          h2 = (if 9 \<le> n then snd h XOR mix_k2 k2 else snd h);
          k1 = xor_tail tail n 8 7 56 0;
          k1 = xor_tail tail n 7 6 48 k1;
          k1 = xor_tail tail n 6 5 40 k1;
          k1 = xor_tail tail n 5 4 32 k1;
          k1 = xor_tail tail n 4 3 24 k1;
          k1 = xor_tail tail n 3 2 16 k1;
          k1 = xor_tail tail n 2 1 8 k1;
          k1 = xor_tail tail n 1 0 0 k1;
          h1 = (if 1 \<le> n then fst h XOR mix_k1 k1 else fst h)
      in (h1, h2))"

definition murmur_final :: "nat \<Rightarrow> 64 word \<times> 64 word \<Rightarrow> 64 word \<times> 64 word" where
  "murmur_final len h =
     (let h1 = fst h XOR of_nat len;
          h2 = snd h XOR of_nat len;
          h1 = h1 + h2;
          h2 = h2 + h1;
          h1 = fmix64 h1;
          h2 = fmix64 h2;
          h1 = h1 + h2;
          h2 = h2 + h1
      in (h1, h2))"

definition MurmurHash3_x64_128 :: "byte list \<Rightarrow> 32 word \<Rightarrow> 64 word \<times> 64 word" where
  "MurmurHash3_x64_128 key seed =
     (let len = length key;
          nblocks = len div 16;
          h = murmur_body key [0..<nblocks] (ucast seed, ucast seed);
          h = murmur_tail (drop (nblocks * 16) key) (len mod 16) h
      in murmur_final len h)"

section \<open>Every stage can be undone\<close>


lemma bit_rotl64:
  "bit (rotl64 x r) n \<longleftrightarrow> n < 64 \<and> (if r \<le> n then bit x (n - r) else bit x (n + (64 - r)))"
  if "0 < r" "r < 64"
  using that bit_imp_le_length [of x "64 - r + n"]
  by (auto simp: rotl64_def bit_simps add.commute)

lemma rotl64_inverse: "rotl64 (rotl64 x r) (64 - r) = x" if "0 < r" "r < 64"
  by (rule bit_word_eqI) (use that in \<open>auto simp: bit_rotl64\<close>)

lemma rotl64_inject: "rotl64 x r = rotl64 y r \<longleftrightarrow> x = y" if "0 < r" "r < 64"
  using that by (metis rotl64_inverse)

lemma mult_unit_inject: "(x::64 word) * c = y * c \<longleftrightarrow> x = y" if "c * d = 1"
proof
  assume "x * c = y * c"
  then have "x * (c * d) = y * (c * d)" by (simp only: mult.assoc [symmetric])
  then show "x = y" by (simp only: that mult_1_right)
qed simp

lemma xorshift33_inverse: "(x XOR drop_bit 33 x) XOR drop_bit 33 (x XOR drop_bit 33 x) = (x::64 word)"
  by (rule bit_word_eqI) (auto simp: bit_simps dest: bit_imp_le_length)

lemma xorshift33_inject: "x XOR drop_bit 33 x = y XOR drop_bit 33 y \<longleftrightarrow> x = (y::64 word)"
  by (metis xorshift33_inverse)

lemma unit_consts:
  "(0xff51afd7ed558ccd::64 word) * 5725274745694666757 = 1"
  "(0xc4ceb9fe1a85ec53::64 word) * 11291846944257947611 = 1"
  "mm_c1 * 12214898983567248765 = 1" "mm_c2 * 12114143059468233855 = 1"
  "(5::64 word) * 14757395258967641293 = 1"
  by (simp_all add: mm_c1_def mm_c2_def)

lemma fmix64_inject: "fmix64 x = fmix64 y \<longleftrightarrow> x = y"
  by (simp add: fmix64_def Let_def xorshift33_inject mult_unit_inject [OF unit_consts(1)]
      mult_unit_inject [OF unit_consts(2)] del: mult_cancel_right)

lemma mix_inject: "mix_k1 x = mix_k1 y \<longleftrightarrow> x = y" "mix_k2 x = mix_k2 y \<longleftrightarrow> x = y"
  by (simp_all add: mix_k1_def mix_k2_def rotl64_inject mult_unit_inject [OF unit_consts(3)]
      mult_unit_inject [OF unit_consts(4)])

lemma xor_cancel_left: "a XOR x = a XOR y \<longleftrightarrow> x = (y::64 word)"
proof
  assume "a XOR x = a XOR y"
  then have "a XOR (a XOR x) = a XOR (a XOR y)" by simp
  then show "x = y" by (simp only: xor.assoc [symmetric] xor_self_eq xor.left_neutral)
qed simp

lemma xor_cancel_right: "x XOR a = y XOR a \<longleftrightarrow> x = (y::64 word)"
  by (simp only: xor.commute [of _ a] xor_cancel_left)

definition step_h :: "64 word \<Rightarrow> nat \<Rightarrow> 64 word \<Rightarrow> 64 word \<Rightarrow> 64 word \<Rightarrow> 64 word" where
  "step_h k r g c x = (rotl64 (x XOR k) r + g) * 5 + c"

lemma step_h_inject:
  assumes "0 < r" "r < 64"
  shows "step_h k r g c x = step_h k r g c y \<longleftrightarrow> x = y"
    and "step_h k r g c x = step_h k' r g c x \<longleftrightarrow> k = k'"
  unfolding step_h_def add_right_cancel mult_unit_inject [OF unit_consts(5)]
  by (simp_all only: rotl64_inject [OF assms] xor_cancel_left xor_cancel_right)

lemma murmur_round_eq:
  "murmur_round k1 k2 h = (let h1 = step_h (mix_k1 k1) 27 (snd h) 0x52dce729 (fst h)
     in (h1, step_h (mix_k2 k2) 31 h1 0x38495ab5 (snd h)))"
  by (simp only: murmur_round_def step_h_def Let_def)

lemma murmur_round_inject_state: "murmur_round k1 k2 h = murmur_round k1 k2 h' \<longleftrightarrow> h = h'"
  by (auto simp: murmur_round_eq Let_def prod_eq_iff step_h_inject)

lemma murmur_round_inject_block:
  "murmur_round k1 k2 h = murmur_round k1' k2' h \<longleftrightarrow> k1 = k1' \<and> k2 = k2'"
  by (auto simp: murmur_round_eq Let_def step_h_inject mix_inject)

definition add_both :: "64 word \<times> 64 word \<Rightarrow> 64 word \<times> 64 word" where
  "add_both h = (fst h + snd h, snd h + (fst h + snd h))"

lemma add_both_inject: "add_both h = add_both h' \<longleftrightarrow> h = h'"
  by (metis (no_types, lifting) add_both_def add_right_cancel prod.collapse fst_conv snd_conv)

lemma murmur_final_eq:
  "murmur_final n h = add_both (map_prod fmix64 fmix64
     (add_both (fst h XOR of_nat n, snd h XOR of_nat n)))"
  by (simp add: murmur_final_def add_both_def Let_def)

lemma map_fmix64_inject: "map_prod fmix64 fmix64 h = map_prod fmix64 fmix64 h' \<longleftrightarrow> h = h'"
  by (cases h; cases h') (simp add: fmix64_inject)

lemma murmur_final_inject: "murmur_final n h = murmur_final n h' \<longleftrightarrow> h = h'"
  unfolding murmur_final_eq add_both_inject map_fmix64_inject
  by (cases h; cases h') (simp add: xor_cancel_right)

lemma le_word_Cons: "le_word (b # bs) = ucast b XOR push_bit 8 (le_word bs)"
  by (rule bit_word_eqI) (auto simp: bit_simps dest: bit_imp_le_length)

lemma bit_le_word:
  "bit (le_word bs) n \<longleftrightarrow> n < 64 \<and> n div 8 < length bs \<and> bit (bs ! (n div 8)) (n mod 8)"
proof (induction bs arbitrary: n)
  case (Cons b bs)
  show ?case
  proof (cases "n < 8")
    case True
    then show ?thesis by (simp add: bit_simps)
  next
    case False
    then obtain m where "n = 8 + m" using le_Suc_ex [of 8 n] by auto
    moreover from this have "n div 8 = Suc (m div 8)" "n mod 8 = m mod 8" by simp_all
    ultimately show ?thesis by (auto simp: bit_simps Cons.IH dest: bit_imp_le_length)
  qed
qed simp

lemma le_word_inject:
  assumes "length xs = length ys" "length xs \<le> 8"
  shows "le_word xs = le_word ys \<longleftrightarrow> xs = ys"
proof
  assume eq: "le_word xs = le_word ys"
  show "xs = ys"
  proof (rule nth_equalityI [OF assms(1)])
    fix k assume k: "k < length xs"
    show "xs ! k = ys ! k"
    proof (rule bit_word_eqI)
      fix j :: nat assume j: "j < LENGTH(8)"
      have "bit (le_word xs) (8 * k + j) = bit (le_word ys) (8 * k + j)" by (simp only: eq)
      with j k assms show "bit (xs ! k) j = bit (ys ! k) j" by (simp add: bit_le_word)
    qed
  qed
qed simp

lemma bit_xor_tail:
  assumes "sh = 8 * m"
  shows "bit (xor_tail tail n c i sh k) j \<longleftrightarrow>
     (c \<le> n \<and> j < 64 \<and> j div 8 = m \<and> bit (tail ! i) (j mod 8)) \<noteq> bit k j"
proof -
  have "sh \<le> j \<and> bit (tail ! i) (j - sh) \<longleftrightarrow> j div 8 = m \<and> bit (tail ! i) (j mod 8)"
  proof (cases "j div 8 = m")
    case True
    then have "j = sh + j mod 8" using assms by (metis mult_div_mod_eq)
    then show ?thesis using True by (metis add_diff_cancel_left' le_add1)
  next
    case False
    then have "sh \<le> j \<Longrightarrow> 8 \<le> j - sh" using assms by auto
    then show ?thesis using False by (auto dest: bit_imp_le_length)
  qed
  then show ?thesis by (auto simp: xor_tail_def bit_simps dest: bit_imp_le_length)
qed

lemmas bit_xor_tails = bit_xor_tail [of 0 0, simplified] bit_xor_tail [of 8 1, simplified]
  bit_xor_tail [of 16 2, simplified] bit_xor_tail [of 24 3, simplified]
  bit_xor_tail [of 32 4, simplified] bit_xor_tail [of 40 5, simplified]
  bit_xor_tail [of 48 6, simplified] bit_xor_tail [of 56 7, simplified]

lemma octet_cases: "(j::nat) < 64 \<Longrightarrow> j div 8 = 0 \<or> j div 8 = 1 \<or> j div 8 = 2 \<or> j div 8 = 3 \<or>
    j div 8 = 4 \<or> j div 8 = 5 \<or> j div 8 = 6 \<or> j div 8 = 7"
  by linarith

definition tail_k1 :: "byte list \<Rightarrow> nat \<Rightarrow> 64 word" where
  "tail_k1 tail n = xor_tail tail n 1 0 0 (xor_tail tail n 2 1 8 (xor_tail tail n 3 2 16
     (xor_tail tail n 4 3 24 (xor_tail tail n 5 4 32 (xor_tail tail n 6 5 40
     (xor_tail tail n 7 6 48 (xor_tail tail n 8 7 56 0)))))))"

definition tail_k2 :: "byte list \<Rightarrow> nat \<Rightarrow> 64 word" where
  "tail_k2 tail n = xor_tail tail n 9 8 0 (xor_tail tail n 10 9 8 (xor_tail tail n 11 10 16
     (xor_tail tail n 12 11 24 (xor_tail tail n 13 12 32 (xor_tail tail n 14 13 40
     (xor_tail tail n 15 14 48 0))))))"

lemma tail_k1_le_word: "tail_k1 t (length t) = le_word (take 8 t)"
proof (rule bit_word_eqI)
  fix j :: nat assume "j < LENGTH(64)"
  then have j: "j < 64" by simp
  show "bit (tail_k1 t (length t)) j = bit (le_word (take 8 t)) j"
    using octet_cases [OF j] j
    by (elim disjE; simp add: tail_k1_def bit_xor_tails bit_le_word Suc_le_eq; auto)
qed

lemma tail_k2_le_word:
  assumes "length t < 16"
  shows "tail_k2 t (length t) = le_word (drop 8 t)"
proof (rule bit_word_eqI)
  fix j :: nat assume "j < LENGTH(64)"
  then have j: "j < 64" by simp
  show "bit (tail_k2 t (length t)) j = bit (le_word (drop 8 t)) j"
    using octet_cases [OF j] j assms
    by (elim disjE; simp add: tail_k2_def bit_xor_tails bit_le_word; auto)
qed

lemma murmur_tail_eq:
  "murmur_tail t n h =
     (if 1 \<le> n then fst h XOR mix_k1 (tail_k1 t n) else fst h,
      if 9 \<le> n then snd h XOR mix_k2 (tail_k2 t n) else snd h)"
  by (simp add: murmur_tail_def tail_k1_def tail_k2_def Let_def)

text \<open>
  The fall-through switch over the last \<open>len & 15\<close> bytes equals reading them as two little
  endian words, missing bytes as zero, and absorbing a word only where it has a byte.
\<close>

theorem murmur_tail_little_endian:
  assumes "length t < 16"
  shows "murmur_tail t (length t) h =
     (if t = [] then fst h else fst h XOR mix_k1 (le_word (take 8 t)),
      if length t \<le> 8 then snd h else snd h XOR mix_k2 (le_word (drop 8 t)))"
proof (cases "t = []")
  case False
  then have "1 \<le> length t" by (simp add: Suc_le_eq)
  then show ?thesis using False assms by (simp add: murmur_tail_eq tail_k1_le_word tail_k2_le_word)
qed (simp add: murmur_tail_eq)


section \<open>Keys of the same length\<close>

text \<open>
  Every stage of the hash is a bijection of its state, and a bijection of the block it absorbs:
  multiplication by an odd constant, rotation, xor-shift and addition of a known word can all be
  undone. So two keys of one length that differ within a single 16 byte block cannot collide.
\<close>

lemma murmur_body_append: "murmur_body b (xs @ ys) h = murmur_body b ys (murmur_body b xs h)"
  by (induction xs arbitrary: h) auto

lemma murmur_body_inject_state: "murmur_body b is h = murmur_body b is h' \<longleftrightarrow> h = h'"
  by (induction "is" arbitrary: h h') (auto simp: murmur_round_inject_state)

text \<open>The bytes the body loop reads in iteration \<open>i\<close> (and, after the loop, the tail).\<close>

definition key_block :: "byte list \<Rightarrow> nat \<Rightarrow> byte list" where
  "key_block b i = take 16 (drop (16 * i) b)"

lemma getblock64_block:
  "getblock64 b (i * 2 + 0) = le_word (take 8 (key_block b i))"
  "getblock64 b (i * 2 + 1) = le_word (drop 8 (key_block b i))"
proof -
  have "take 8 (key_block b i) = take 8 (drop (16 * i) b)"
    and "drop 8 (key_block b i) = take 8 (drop (8 + 16 * i) b)"
    by (simp_all add: key_block_def drop_take)
  then show "getblock64 b (i * 2 + 0) = le_word (take 8 (key_block b i))"
    and "getblock64 b (i * 2 + 1) = le_word (drop 8 (key_block b i))"
    by (simp_all add: getblock64_def mult.commute)
qed

lemma murmur_body_cong:
  "(\<And>i. i \<in> set is \<Longrightarrow> key_block b i = key_block b' i) \<Longrightarrow>
     murmur_body b is h = murmur_body b' is h"
proof (induction "is" arbitrary: h)
  case (Cons i "is")
  then have "key_block b i = key_block b' i" by simp
  moreover have "murmur_body b is h' = murmur_body b' is h'" for h'
    by (rule Cons.IH) (use Cons.prems in simp)
  ultimately show ?case by (simp only: murmur_body.simps getblock64_block)
qed simp

lemma murmur_block_inject:
  assumes "length x = 16" "length y = 16"
  shows "murmur_round (le_word (take 8 x)) (le_word (drop 8 x)) h
       = murmur_round (le_word (take 8 y)) (le_word (drop 8 y)) h \<longleftrightarrow> x = y"
  using assms
  by (simp add: murmur_round_inject_block le_word_inject) (metis append_take_drop_id)

lemma murmur_tail_inject_state: "murmur_tail t n h = murmur_tail t n h' \<longleftrightarrow> h = h'"
  by (cases h; cases h') (auto simp: murmur_tail_eq xor_cancel_right)

lemma murmur_tail_inject_key:
  assumes "length t < 16" "length t' = length t"
  shows "murmur_tail t (length t) h = murmur_tail t' (length t) h \<longleftrightarrow> t = t'"
proof
  have nil: "t' = [] \<longleftrightarrow> t = []" using assms(2) by auto
  assume eq: "murmur_tail t (length t) h = murmur_tail t' (length t) h"
  have "take 8 t = take 8 t'"
    using eq assms nil by (cases "t = []")
      (auto simp: murmur_tail_little_endian [OF assms(1)]
        murmur_tail_little_endian [of t', simplified assms(2), OF assms(1)]
        xor_cancel_left mix_inject le_word_inject)
  moreover have "drop 8 t = drop 8 t'"
    using eq assms by (cases "length t \<le> 8")
      (auto simp: murmur_tail_little_endian [OF assms(1)]
        murmur_tail_little_endian [of t', simplified assms(2), OF assms(1)]
        xor_cancel_left mix_inject le_word_inject)
  ultimately show "t = t'" by (metis append_take_drop_id)
qed simp

lemma key_block_nth: "i < length b \<Longrightarrow> b ! i = key_block b (i div 16) ! (i mod 16)"
  by (simp add: key_block_def mult.commute [of 16])

lemma key_blocks_eq:
  assumes "length a = length b" "\<And>i. key_block a i = key_block b i"
  shows "a = b"
  using assms by (metis key_block_nth nth_equalityI)

lemma murmur_differs_one_block:
  assumes "length a = length b" "a \<noteq> b" "\<And>i. i \<noteq> p \<Longrightarrow> key_block a i = key_block b i"
  shows "MurmurHash3_x64_128 a seed \<noteq> MurmurHash3_x64_128 b seed"
proof -
  define n where "n = length a div 16"
  let ?s = "(ucast seed, ucast seed) :: 64 word \<times> 64 word"
  let ?ta = "drop (n * 16) a" and ?tb = "drop (n * 16) b"
  have diff: "key_block a p \<noteq> key_block b p"
    using assms key_blocks_eq by metis
  have len: "length ?ta < 16" "length ?tb = length ?ta" "length ?ta = length a mod 16"
    using assms(1) by (simp_all add: n_def minus_div_mult_eq_mod [symmetric])
  have tails: "key_block a n = ?ta" "key_block b n = ?tb"
    using len by (simp_all add: key_block_def mult.commute [of 16])
  have full: "i < n \<Longrightarrow> length (key_block a i) = 16 \<and> length (key_block b i) = 16" for i
    using assms(1) by (simp add: key_block_def n_def)
  have "murmur_tail ?ta (length ?ta) (murmur_body a [0..<n] ?s)
      \<noteq> murmur_tail ?tb (length ?ta) (murmur_body b [0..<n] ?s)"
  proof (cases "p < n")
    case True
    then have split: "[0..<n] = [0..<p] @ p # [Suc p..<n]"
      using upt_add_eq_append [of 0 p "n - p"] by (simp add: upt_conv_Cons)
    have "?ta = ?tb" using assms(3) True tails by (metis less_irrefl_nat)
    moreover have "murmur_body a [0..<p] ?s = murmur_body b [0..<p] ?s"
      by (rule murmur_body_cong) (use assms(3) in auto)
    moreover have "murmur_body a [Suc p..<n] h = murmur_body b [Suc p..<n] h" for h
      by (rule murmur_body_cong) (use assms(3) in auto)
    ultimately show ?thesis
      using full [OF True] diff
      by (simp add: split murmur_body_append murmur_tail_inject_state murmur_body_inject_state
          getblock64_block [simplified] murmur_block_inject)
  next
    case False
    have "key_block a p = []" "key_block b p = []" if "n < p"
      using that assms(1) by (simp_all add: key_block_def n_def)
    with False diff have "p = n" by fastforce
    with diff tails have ne: "?ta \<noteq> ?tb" by simp
    have "murmur_body a [0..<n] ?s = murmur_body b [0..<n] ?s"
      by (rule murmur_body_cong) (use assms(3) \<open>p = n\<close> in auto)
    with ne show ?thesis by (simp only: murmur_tail_inject_key [OF len(1,2)] simp_thms)
  qed
  moreover have "length b div 16 = n" "length a div 16 = n" "length b mod 16 = length ?ta"
    "length a mod 16 = length ?ta"
    using assms(1) len by (simp_all add: n_def)
  ultimately show ?thesis
    using assms(1) by (simp only: MurmurHash3_x64_128_def Let_def murmur_final_inject) simp
qed

text \<open>
  Two different keys of the same length whose 16 byte blocks agree in every position but one
  never have the same 128 bit hash, whatever the seed.
\<close>

theorem murmur_no_collision_one_block:
  assumes "length a = length b" "a \<noteq> b" "\<forall>i. i \<noteq> p \<longrightarrow> key_block a i = key_block b i"
  shows "MurmurHash3_x64_128 a seed \<noteq> MurmurHash3_x64_128 b seed"
  by (rule murmur_differs_one_block [where p = p]) (use assms in simp_all)

theorem murmur_no_collision_one_block_witness:
  "MurmurHash3_x64_128 (replicate 16 0 @ [1]) 12345 \<noteq> MurmurHash3_x64_128 (replicate 16 0 @ [2]) 12345"
proof (rule murmur_no_collision_one_block [where p = 1])
  show "\<forall>i. i \<noteq> 1 \<longrightarrow> key_block (replicate 16 0 @ [1]) i = key_block (replicate 16 0 @ [2]) i"
  proof (intro allI impI)
    fix i :: nat assume "i \<noteq> 1"
    then have "i = 0 \<or> 17 \<le> 16 * i" by linarith
    then show "key_block (replicate 16 0 @ [1]) i = key_block (replicate 16 0 @ [2]) i"
      by (auto simp: key_block_def)
  qed
qed simp_all

text \<open>
  C40. Keys of one length of at most 16 bytes never collide in the 128 bit hash.
\<close>

theorem murmur_short_keys_never_collide:
  assumes "length a = length b" "length a \<le> 16" "a \<noteq> b"
  shows "MurmurHash3_x64_128 a seed \<noteq> MurmurHash3_x64_128 b seed"
  by (rule murmur_differs_one_block [where p = 0]) (use assms in \<open>auto simp: key_block_def\<close>)

theorem murmur_short_keys_never_collide_witness:
  "MurmurHash3_x64_128 [104, 105] 12345 \<noteq> MurmurHash3_x64_128 [104, 111] 12345"
  by (rule murmur_short_keys_never_collide) simp_all

theorem murmur_tail_little_endian_witness:
  "murmur_tail [1, 2, 3] (length [1, 2, 3 :: byte]) (0, 0) = (mix_k1 0x030201, 0)"
  using murmur_tail_little_endian [of "[1, 2, 3]" "(0, 0)"] by simp

text \<open>A published test vector: the key \<open>hello\<close> with seed 0.\<close>

lemma murmur_hello:
  "MurmurHash3_x64_128 [104, 101, 108, 108, 111] 0 = (0xcbd8a7b341bd9b02, 0x5b1e906a48ae1d19)"
  by code_simp

end
