(* ===== verification/Shf_Bytes.thy ===== *)
theory Shf_Bytes
  imports Shf_Prelude
begin

text \<open>
  Bytes of mapped memory and the accessors of \<open>shf.defines.h\<close>: one byte, a little endian 32 bit
  word, a copied byte string and a comparison. An address is the offset from the start of a tab.
  The interface the tab code relies on (what a read returns after a write) is the locale
  \<open>byte_memory\<close>; the layout of a key,value record is proved from it.
\<close>

type_synonym mem = "nat \<Rightarrow> byte"

section \<open>Accessors\<close>

definition SHF_U08_AT :: "mem \<Rightarrow> nat \<Rightarrow> byte" where
  "SHF_U08_AT m a = m a"

definition put_U08_AT :: "nat \<Rightarrow> byte \<Rightarrow> mem \<Rightarrow> mem" where
  "put_U08_AT a b m = m(a := b)"

definition SHF_U32_AT :: "mem \<Rightarrow> nat \<Rightarrow> nat" where
  "SHF_U32_AT m a = unat (m a) + 256 * (unat (m (a + 1)) + 256 * (unat (m (a + 2)) + 256 * unat (m (a + 3))))"

definition put_U32_AT :: "nat \<Rightarrow> nat \<Rightarrow> mem \<Rightarrow> mem" where
  "put_U32_AT a v m = m(a := of_nat v, a + 1 := of_nat (v div 256),
     a + 2 := of_nat (v div 65536), a + 3 := of_nat (v div 16777216))"

definition SHF_MEM_AT :: "nat \<Rightarrow> byte list \<Rightarrow> mem \<Rightarrow> mem" where
  "SHF_MEM_AT a bs m = (\<lambda>x. if a \<le> x \<and> x < a + length bs then bs ! (x - a) else m x)"

text \<open>The bytes a pointer and a length denote.\<close>

definition mem_bytes :: "mem \<Rightarrow> nat \<Rightarrow> nat \<Rightarrow> byte list" where
  "mem_bytes m a n = map m [a..<a + n]"

text \<open>\<open>memcmp\<close>: zero exactly when the bytes are equal (the sign is never used).\<close>

definition SHF_CMP_AT :: "mem \<Rightarrow> nat \<Rightarrow> byte list \<Rightarrow> int" where
  "SHF_CMP_AT m a bs = (if mem_bytes m a (length bs) = bs then 0 else 1)"

lemma length_mem_bytes [simp]: "length (mem_bytes m a n) = n"
  by (simp add: mem_bytes_def)

lemma mem_bytes_nth [simp]: "i < n \<Longrightarrow> mem_bytes m a n ! i = m (a + i)"
  by (simp add: mem_bytes_def)

lemma mem_bytes_cong:
  "(\<And>x. a \<le> x \<Longrightarrow> x < a + n \<Longrightarrow> m x = m' x) \<Longrightarrow> mem_bytes m a n = mem_bytes m' a n"
  by (simp add: mem_bytes_def)

lemma U32_cong:
  "(\<And>x. a \<le> x \<Longrightarrow> x < a + 4 \<Longrightarrow> m x = m' x) \<Longrightarrow> SHF_U32_AT m a = SHF_U32_AT m' a"
  by (simp add: SHF_U32_AT_def)

lemma SHF_CMP_AT_eq_0 [simp]: "SHF_CMP_AT m a bs = 0 \<longleftrightarrow> mem_bytes m a (length bs) = bs"
  by (simp add: SHF_CMP_AT_def)

lemma SHF_U32_AT_bound [simp]: "SHF_U32_AT m a < 4294967296"
proof -
  have b: "unat (m x) < 256" for x using unsigned_less [of "m x"] by simp
  show ?thesis using b [of a] b [of "a + 1"] b [of "a + 2"] b [of "a + 3"]
    by (simp add: SHF_U32_AT_def)
qed

section \<open>The memory interface\<close>

text \<open>
  What the tab code needs of memory: a read sees the last write to its address range, and a write
  changes nothing outside the range it is given.
\<close>

locale byte_memory =
  fixes get32 :: "'m \<Rightarrow> nat \<Rightarrow> nat"
    and put32 :: "nat \<Rightarrow> nat \<Rightarrow> 'm \<Rightarrow> 'm"
    and getb :: "'m \<Rightarrow> nat \<Rightarrow> nat \<Rightarrow> byte list"
    and putb :: "nat \<Rightarrow> byte list \<Rightarrow> 'm \<Rightarrow> 'm"
    and put8 :: "nat \<Rightarrow> byte \<Rightarrow> 'm \<Rightarrow> 'm"
  assumes get32_put32: "v < 4294967296 \<Longrightarrow> get32 (put32 a v m) a = v"
    and get32_put32_other: "c + 4 \<le> a \<or> a + 4 \<le> c \<Longrightarrow> get32 (put32 a v m) c = get32 m c"
    and get32_putb_other: "c + 4 \<le> a \<or> a + length bs \<le> c \<Longrightarrow> get32 (putb a bs m) c = get32 m c"
    and get32_put8_other: "c + 4 \<le> a \<or> a + 1 \<le> c \<Longrightarrow> get32 (put8 a b m) c = get32 m c"
    and getb_putb: "n = length bs \<Longrightarrow> getb (putb a bs m) a n = bs"
    and getb_putb_other: "c + n \<le> a \<or> a + length bs \<le> c \<Longrightarrow> getb (putb a bs m) c n = getb m c n"
    and getb_put32_other: "c + n \<le> a \<or> a + 4 \<le> c \<Longrightarrow> getb (put32 a v m) c n = getb m c n"
    and getb_put8_other: "c + n \<le> a \<or> a + 1 \<le> c \<Longrightarrow> getb (put8 a b m) c n = getb m c n"
begin

text \<open>
  A record stored with its lengths: type byte, key length, key, value length, value. Reading the
  record back gives what was stored; with no value given, the value bytes are those found there.
\<close>

lemma sized_record_read_back:
  assumes "kl = length key" "length key < 4294967296" "vl < 4294967296"
    and m': "m' = putb (p + 5) key (put32 (p + 5 + kl) vl (put32 (p + 1) kl (put8 p b m)))"
  shows "get32 m' (p + 1) = kl" "get32 m' (p + 5 + kl) = vl"
    "getb m' (p + 5) kl = key" "getb m' (p + 9 + kl) vl = getb m (p + 9 + kl) vl"
    "n = length v \<Longrightarrow> get32 (putb (p + 9 + kl) v m') (p + 1) = kl"
    "n = length v \<Longrightarrow> get32 (putb (p + 9 + kl) v m') (p + 5 + kl) = vl"
    "n = length v \<Longrightarrow> getb (putb (p + 9 + kl) v m') (p + 5) kl = key"
    "n = length v \<Longrightarrow> getb (putb (p + 9 + kl) v m') (p + 9 + kl) n = v"
  using assms
  by (simp_all add: get32_put32 get32_put32_other get32_putb_other getb_putb getb_putb_other
      getb_put32_other getb_put8_other)

end

section \<open>The accessors implement it\<close>

lemma base256_digits:
  assumes "(v::nat) < 4294967296"
  shows "v mod 256 + 256 * (v div 256 mod 256 + 256 * (v div 65536 mod 256 + 256 * (v div 16777216 mod 256))) = v"
proof -
  have e: "v div 65536 = v div 256 div 256" "v div 16777216 = v div 256 div 256 div 256"
    by (simp_all add: div_mult2_eq [symmetric])
  have "v div 16777216 < 256" using assms by (simp add: less_mult_imp_div_less)
  then show ?thesis by (simp add: e mod_mult_div_eq)
qed

lemma U32_put_same: "v < 4294967296 \<Longrightarrow> SHF_U32_AT (put_U32_AT a v m) a = v"
  using base256_digits [of v] by (simp add: SHF_U32_AT_def put_U32_AT_def unat_of_nat)

interpretation bm: byte_memory SHF_U32_AT put_U32_AT mem_bytes SHF_MEM_AT put_U08_AT
proof unfold_locales
  show "mem_bytes (SHF_MEM_AT a bs m) a n = bs" if "n = length bs" for n bs m a
    by (rule nth_equalityI) (use that in \<open>auto simp: SHF_MEM_AT_def\<close>)
  show "SHF_U32_AT (put_U32_AT a v m) a = v" if "v < 4294967296" for v a m
    using that by (rule U32_put_same)
qed (auto simp: put_U32_AT_def SHF_MEM_AT_def put_U08_AT_def intro!: U32_cong mem_bytes_cong)

lemmas mem_read_write =
  bm.get32_put32 bm.get32_put32_other bm.get32_putb_other bm.get32_put8_other
  bm.getb_putb bm.getb_putb_other bm.getb_put32_other bm.getb_put8_other

text \<open>Writes leave every byte outside their range alone.\<close>

lemma mem_outside [shf_frame]:
  "x \<noteq> a \<Longrightarrow> put_U08_AT a b m x = m x"
  "x < a \<or> a + 4 \<le> x \<Longrightarrow> put_U32_AT a v m x = m x"
  "x < a \<or> a + length bs \<le> x \<Longrightarrow> SHF_MEM_AT a bs m x = m x"
  by (auto simp: put_U08_AT_def put_U32_AT_def SHF_MEM_AT_def)

end
