(* ===== verification/Shf_Layout.thy ===== *)
theory Shf_Layout
  imports Shf_Prelude
begin

text \<open>
  The geometry of a SharedHashFile (\<open>shf.private.h\<close>): how many windows, tabs, rows and
  references there are, how many bytes each takes, how a hash selects them, and how the four
  coordinates of a key are packed into a 32 bit UID.
\<close>

section \<open>Constants\<close>

definition SHF_SIZE_PAGE :: nat where [shf_const]: "SHF_SIZE_PAGE = 4096"
definition SHF_SIZE_CACHE_LINE :: nat where [shf_const]: "SHF_SIZE_CACHE_LINE = 64"
definition SHF_REFS_PER_ROW :: nat where [shf_const]: "SHF_REFS_PER_ROW = (SHF_SIZE_CACHE_LINE div 2) div 2"
definition SHF_REFS_PER_ROW_BITS :: nat where [shf_const]: "SHF_REFS_PER_ROW_BITS = 4"
definition SHF_SIZE_REF :: nat where [shf_const]: "SHF_SIZE_REF = 4 + 4"
definition SHF_SIZE_ROW :: nat where [shf_const]: "SHF_SIZE_ROW = SHF_SIZE_REF * SHF_REFS_PER_ROW"
definition SHF_SIZE_TAB :: nat where [shf_const]: "SHF_SIZE_TAB = 2 ^ 16"
definition SHF_ROWS_PER_TAB :: nat where [shf_const]: "SHF_ROWS_PER_TAB = SHF_SIZE_TAB div SHF_SIZE_ROW"
definition SHF_ROWS_PER_TAB_BITS :: nat where [shf_const]: "SHF_ROWS_PER_TAB_BITS = 9"
definition SHF_REFS_PER_TAB :: nat where [shf_const]: "SHF_REFS_PER_TAB = SHF_ROWS_PER_TAB * SHF_REFS_PER_ROW"
definition SHF_TABS_PER_WIN_BITS :: nat where
  [shf_const]: "SHF_TABS_PER_WIN_BITS = 24 - SHF_ROWS_PER_TAB_BITS - SHF_REFS_PER_ROW_BITS"
definition SHF_TABS_PER_WIN :: nat where [shf_const]: "SHF_TABS_PER_WIN = 2 ^ SHF_TABS_PER_WIN_BITS"
definition SHF_WINS_PER_SHF_BITS :: nat where [shf_const]: "SHF_WINS_PER_SHF_BITS = 8"
definition SHF_WINS_PER_SHF :: nat where [shf_const]: "SHF_WINS_PER_SHF = 2 ^ SHF_WINS_PER_SHF_BITS"

text \<open>
  \<open>offsetof(SHF_TAB_MMAP, data)\<close>: six 32 bit header words and the rows; the structure is packed.
  It is also \<open>sizeof(SHF_TAB_MMAP)\<close>, because \<open>data\<close> has no elements.
\<close>

definition TAB_DATA_OFFSET :: nat where
  [shf_const]: "TAB_DATA_OFFSET = 6 * 4 + SHF_ROWS_PER_TAB * SHF_SIZE_ROW"

definition SHF_MOD_PAGE :: "nat \<Rightarrow> nat" where
  "SHF_MOD_PAGE bytes = ((bytes - 1) div SHF_SIZE_PAGE + 1) * SHF_SIZE_PAGE"

definition SHF_UID_NONE :: nat where [shf_const]: "SHF_UID_NONE = 4294967295"

lemma shf_const_eq:
  "SHF_SIZE_PAGE = 4096" "SHF_REFS_PER_ROW = 16" "SHF_SIZE_ROW = 128" "SHF_ROWS_PER_TAB = 512"
  "SHF_REFS_PER_TAB = 8192" "SHF_TABS_PER_WIN = 2048" "SHF_WINS_PER_SHF = 256"
  "TAB_DATA_OFFSET = 65560" "SHF_UID_NONE = 4294967295"
  by (simp_all add: shf_const)

lemma shf_mod_page_eq: "SHF_MOD_PAGE n = (n - 1) div 4096 * 4096 + 4096"
  by (simp add: SHF_MOD_PAGE_def shf_const_eq)

lemma SHF_MOD_PAGE_ge: "n \<le> SHF_MOD_PAGE n"
proof -
  have "n - 1 = (n - 1) div 4096 * 4096 + (n - 1) mod 4096" by simp
  moreover have "(n - 1) mod 4096 < 4096" by simp
  ultimately show ?thesis by (simp add: shf_mod_page_eq)
qed

lemma SHF_MOD_PAGE_le: "0 < n \<Longrightarrow> SHF_MOD_PAGE n \<le> n + 4095"
proof -
  assume n: "0 < n"
  have "(n - 1) div 4096 * 4096 \<le> n - 1" by simp
  with n show ?thesis by (simp add: shf_mod_page_eq)
qed

lemma SHF_MOD_PAGE_idem [simp]: "SHF_MOD_PAGE (SHF_MOD_PAGE n) = SHF_MOD_PAGE n"
  by (simp add: shf_mod_page_eq)

lemma SHF_MOD_PAGE_tab: "SHF_MOD_PAGE TAB_DATA_OFFSET = 69632"
  by (simp add: shf_mod_page_eq shf_const_eq)

section \<open>Hash words\<close>

text \<open>
  \<open>union SHF_HASH\<close>: the 128 bits of the hash as two 64 bit words, read again as 16 and 32 bit
  words in little endian order.
\<close>

record shf_hash =
  hash_u64_0 :: "64 word"
  hash_u64_1 :: "64 word"

definition hash_u16 :: "shf_hash \<Rightarrow> nat \<Rightarrow> nat" where
  "hash_u16 h k = unat (take_bit 16 (drop_bit (16 * (k mod 4)) (if k < 4 then hash_u64_0 h else hash_u64_1 h)))"

definition hash_u32 :: "shf_hash \<Rightarrow> nat \<Rightarrow> nat" where
  "hash_u32 h k = unat (take_bit 32 (drop_bit (32 * (k mod 2)) (if k < 2 then hash_u64_0 h else hash_u64_1 h)))"

text \<open>The four coordinates every operation on a key starts from.\<close>

definition hash_win :: "shf_hash \<Rightarrow> nat" where
  "hash_win h = hash_u16 h 0 mod SHF_WINS_PER_SHF"

definition hash_tab2 :: "shf_hash \<Rightarrow> nat" where
  "hash_tab2 h = hash_u16 h 1 mod SHF_TABS_PER_WIN"

definition hash_row :: "shf_hash \<Rightarrow> nat" where
  "hash_row h = hash_u16 h 2 mod SHF_ROWS_PER_TAB"

definition hash_rnd :: "shf_hash \<Rightarrow> nat" where
  "hash_rnd h = hash_u32 h 2 mod 2 ^ (32 - SHF_TABS_PER_WIN_BITS)"

lemma hash_coord_bounds [simp]:
  "hash_win h < 256" "hash_tab2 h < 2048" "hash_row h < 512" "hash_rnd h < 2097152"
  by (simp_all add: hash_win_def hash_tab2_def hash_row_def hash_rnd_def shf_const)

section \<open>UIDs\<close>

text \<open>
  \<open>union SHF_UID\<close>: four packed bit fields that share their 32 bits with one unsigned integer.
  Storing into a bit field keeps the low bits of the value.
\<close>

record uid_part =
  uid_win :: nat
  uid_tab :: nat
  uid_row :: nat
  uid_ref :: nat

definition uid_as_u32 :: "uid_part \<Rightarrow> nat" where
  "uid_as_u32 p = uid_win p mod 2 ^ 8 + uid_tab p mod 2 ^ 11 * 2 ^ 8
     + uid_row p mod 2 ^ 9 * 2 ^ 19 + uid_ref p mod 2 ^ 4 * 2 ^ 28"

definition uid_as_part :: "nat \<Rightarrow> uid_part" where
  "uid_as_part u = \<lparr>uid_win = u mod 2 ^ 8, uid_tab = u div 2 ^ 8 mod 2 ^ 11,
     uid_row = u div 2 ^ 19 mod 2 ^ 9, uid_ref = u div 2 ^ 28 mod 2 ^ 4\<rparr>"

definition mk_uid :: "nat \<Rightarrow> nat \<Rightarrow> nat \<Rightarrow> nat \<Rightarrow> nat" where
  "mk_uid win tab row ref = uid_as_u32 \<lparr>uid_win = win, uid_tab = tab, uid_row = row, uid_ref = ref\<rparr>"

definition uid_in_range :: "uid_part \<Rightarrow> bool" where
  "uid_in_range p \<longleftrightarrow> uid_win p < SHF_WINS_PER_SHF \<and> uid_tab p < SHF_TABS_PER_WIN
     \<and> uid_row p < SHF_ROWS_PER_TAB \<and> uid_ref p < SHF_REFS_PER_ROW"

lemma low_digit:
  "(a::nat) < n \<Longrightarrow> (a + n * b) mod n = a" "(a::nat) < n \<Longrightarrow> (a + n * b) div n = b"
  by (simp_all add: mult.commute)

lemma uid_parts:
  assumes "uid_in_range p"
  shows "uid_as_part (uid_as_u32 p) = p \<and> uid_as_u32 p < 2 ^ 32"
proof -
  obtain w t r f where p: "p = \<lparr>uid_win = w, uid_tab = t, uid_row = r, uid_ref = f\<rparr>"
    by (cases p) simp
  with assms have b: "w < 256" "t < 2048" "r < 512" "f < 16"
    by (simp_all add: uid_in_range_def shf_const_eq)
  define z where "z = r + 512 * f"
  define y where "y = t + 2048 * z"
  define u where "u = w + 256 * y"
  have as_u: "uid_as_u32 p = u"
    using b by (simp add: uid_as_u32_def p u_def y_def z_def)
  have z: "z mod 512 = r" "z div 512 = f" and y: "y mod 2048 = t" "y div 2048 = z"
    and w: "u mod 256 = w" "u div 256 = y"
    using b unfolding z_def y_def u_def by (simp_all only: low_digit)
  have "u div 524288 = u div 256 div 2048" "u div 268435456 = u div 256 div 2048 div 512"
    by (simp_all add: div_mult2_eq [symmetric])
  then have "uid_as_part u = p" using b by (simp add: uid_as_part_def p z y w)
  moreover have "z < 8192" using b unfolding z_def by linarith
  then have "y < 16777216" using b unfolding y_def by linarith
  then have "u < 4294967296" using b unfolding u_def by linarith
  ultimately show ?thesis by (simp add: as_u)
qed

text \<open>
  Packing a key's coordinates into a UID loses nothing: the UID fits 32 bits and its bit
  fields read back as the window, table index, row and reference it was made from.
\<close>

theorem uid_round_trip:
  assumes "uid_in_range p"
  shows "uid_as_part (uid_as_u32 p) = p \<and> uid_as_u32 p < 2 ^ 32"
  using assms by (rule uid_parts)

theorem uid_round_trip_witness:
  "uid_as_part (uid_as_u32 \<lparr>uid_win = 7, uid_tab = 2047, uid_row = 300, uid_ref = 9\<rparr>)
     = \<lparr>uid_win = 7, uid_tab = 2047, uid_row = 300, uid_ref = 9\<rparr>"
  using uid_round_trip [of "\<lparr>uid_win = 7, uid_tab = 2047, uid_row = 300, uid_ref = 9\<rparr>"]
  by (simp add: uid_in_range_def shf_const_eq)

lemma uid_as_part_bounds [simp]:
  "uid_win (uid_as_part u) < 256" "uid_tab (uid_as_part u) < 2048"
  "uid_row (uid_as_part u) < 512" "uid_ref (uid_as_part u) < 16"
  by (simp_all add: uid_as_part_def)

end
