(* ===== verification/Shf_Tab.thy ===== *)
theory Shf_Tab
  imports Shf_Bytes Shf_Layout
begin

text \<open>
  One table file mapped into memory (\<open>SHF_TAB_MMAP\<close>): the header counters, the rows of references
  and the data area that key,value records are appended to. This theory holds the parts of
  \<open>SHF_TAB_APPEND\<close>, \<open>SHF_TAB_REF_MARK_AS_DELETED\<close> and \<open>SHF_TAB_REF_COPY\<close> that act on a single
  table, the well-formedness of a table, and what each of them does to the table's slots.
\<close>

section \<open>Data\<close>

record ref_mmap =
  ref_tab :: nat
  ref_rnd :: nat
  ref_pos :: nat

text \<open>Stores into the 11 and 21 bit fields keep the low bits.\<close>

definition mk_ref :: "nat \<Rightarrow> nat \<Rightarrow> nat \<Rightarrow> ref_mmap" where
  "mk_ref tab rnd pos = \<lparr>ref_tab = tab mod 2 ^ SHF_TABS_PER_WIN_BITS,
     ref_rnd = rnd mod 2 ^ (32 - SHF_TABS_PER_WIN_BITS), ref_pos = pos\<rparr>"

record tab_mmap =
  tab_size :: nat
  tab_used :: nat
  tab_refs_used :: nat
  tab_data_free_pos :: nat
  tab_data_free :: nat
  tab_data_used :: nat
  tab_row :: "nat \<Rightarrow> nat \<Rightarrow> ref_mmap"
  tab_data :: mem

text \<open>A file just created by \<open>ftruncate\<close> reads as zero bytes.\<close>

definition zero_tab :: tab_mmap where
  "zero_tab = \<lparr>tab_size = 0, tab_used = 0, tab_refs_used = 0, tab_data_free_pos = 0,
     tab_data_free = 0, tab_data_used = 0, tab_row = (\<lambda>_ _. mk_ref 0 0 0), tab_data = (\<lambda>_. 0)\<rparr>"

text \<open>
  \<open>len_len\<close> and, in the mode where all keys and all values have one length, these lengths: what an
  operation derives from the \<open>SHF\<close> it is given.
\<close>

record lens =
  len_len :: nat
  fixed_key :: nat
  fixed_val :: nat

definition SHF_KEY_TYPE_KEY_IS_STR32 :: nat where "SHF_KEY_TYPE_KEY_IS_STR32 = 6"
definition SHF_KEY_TYPE_VAL_IS_STR32 :: nat where "SHF_KEY_TYPE_VAL_IS_STR32 = 7"
definition SHF_DATA_TYPE_DELETED :: byte where "SHF_DATA_TYPE_DELETED = 0xff"

text \<open>
  \<open>union SHF_DATA_TYPE\<close>: three bit fields in a byte. The code never sets \<open>extended\<close> of its local
  variable, so its value there is indeterminate; it is an argument here.
\<close>

definition data_type_u08 :: "nat \<Rightarrow> nat \<Rightarrow> bool \<Rightarrow> byte" where
  "data_type_u08 key_type val_type extended =
     of_nat (key_type mod 2 ^ 3 + val_type mod 2 ^ 4 * 2 ^ 3 + (if extended then 2 ^ 7 else 0))"

definition record_type :: "bool \<Rightarrow> byte" where
  "record_type extended = data_type_u08 SHF_KEY_TYPE_KEY_IS_STR32 SHF_KEY_TYPE_VAL_IS_STR32 extended"

lemma record_type_not_deleted: "record_type e \<noteq> SHF_DATA_TYPE_DELETED"
  by (cases e) (simp_all add: record_type_def data_type_u08_def SHF_DATA_TYPE_DELETED_def
      SHF_KEY_TYPE_KEY_IS_STR32_def SHF_KEY_TYPE_VAL_IS_STR32_def)

section \<open>Reading a record\<close>

definition ref_key_len :: "lens \<Rightarrow> mem \<Rightarrow> nat \<Rightarrow> nat" where
  "ref_key_len L m pos = (if len_len L = 0 then fixed_key L else SHF_U32_AT m (u32 (pos + 1)))"

definition ref_val_len :: "lens \<Rightarrow> mem \<Rightarrow> nat \<Rightarrow> nat" where
  "ref_val_len L m pos = (if len_len L = 0 then fixed_val L
     else SHF_U32_AT m (u32 (pos + 1 + len_len L + ref_key_len L m pos)))"

definition ref_key_addr :: "lens \<Rightarrow> nat \<Rightarrow> nat" where
  "ref_key_addr L pos = u32 (pos + 1 + len_len L)"

definition ref_val_addr :: "lens \<Rightarrow> mem \<Rightarrow> nat \<Rightarrow> nat" where
  "ref_val_addr L m pos = u32 (pos + 1 + len_len L + ref_key_len L m pos + len_len L)"

definition ref_key :: "lens \<Rightarrow> mem \<Rightarrow> nat \<Rightarrow> byte list" where
  "ref_key L m pos = mem_bytes m (ref_key_addr L pos) (ref_key_len L m pos)"

definition ref_val :: "lens \<Rightarrow> mem \<Rightarrow> nat \<Rightarrow> byte list" where
  "ref_val L m pos = mem_bytes m (ref_val_addr L m pos) (ref_val_len L m pos)"

text \<open>\<open>data_needed\<close>, and the size of the record a reference points at.\<close>

definition data_needed :: "nat \<Rightarrow> nat \<Rightarrow> nat \<Rightarrow> nat" where
  "data_needed ll key_len val_len = 1 + ll + key_len + ll + val_len"

definition rec_size :: "lens \<Rightarrow> mem \<Rightarrow> nat \<Rightarrow> nat" where
  "rec_size L m pos = data_needed (len_len L) (ref_key_len L m pos) (ref_val_len L m pos)"

section \<open>Writing a record\<close>

text \<open>
  The append branch of \<open>SHF_TAB_APPEND\<close>, after any growth of the table. \<open>val\<close> is \<open>None\<close> when the
  caller passes NULL to reserve \<open>val_len\<close> bytes.
\<close>

definition put_val :: "nat \<Rightarrow> byte list option \<Rightarrow> nat \<Rightarrow> mem \<Rightarrow> mem" where
  "put_val a val val_len m = (case val of None \<Rightarrow> m | Some v \<Rightarrow> SHF_MEM_AT a (take val_len v) m)"

definition tab_store :: "bool \<Rightarrow> nat \<Rightarrow> byte list \<Rightarrow> byte list option \<Rightarrow> nat \<Rightarrow> tab_mmap \<Rightarrow> tab_mmap" where
  "tab_store extended ll key val val_len t =
     (let used = tab_used t;
          key_len = length key;
          d = put_U08_AT used (record_type extended) (tab_data t);
          d = (if ll = 0 then d
               else put_U32_AT (used + 1 + ll + key_len) val_len (put_U32_AT (used + 1) key_len d));
          d = SHF_MEM_AT (used + 1 + ll) key d;
          d = put_val (used + 1 + ll + key_len + ll) val val_len d
      in t\<lparr>tab_data := d, tab_used := u32 (used + data_needed ll key_len val_len)\<rparr>)"

text \<open>
  The reuse branch (fixed lengths only): the record is written over the head of the list of
  deleted records.
\<close>

definition tab_reuse :: "bool \<Rightarrow> nat \<Rightarrow> byte list \<Rightarrow> byte list option \<Rightarrow> nat \<Rightarrow> tab_mmap \<Rightarrow> tab_mmap" where
  "tab_reuse extended ll key val val_len t =
     (let pos = tab_data_free_pos t;
          key_len = length key;
          next_pos = SHF_U32_AT (tab_data t) (pos + 1 + 4);
          d = put_U08_AT pos (record_type extended) (tab_data t);
          d = SHF_MEM_AT (pos + 1 + ll) key d;
          d = put_val (pos + 1 + ll + key_len + ll) val val_len d
      in t\<lparr>tab_data_free_pos := next_pos, tab_data := d,
           tab_data_free := u32_sub (tab_data_free t) (u32 (1 + key_len + val_len))\<rparr>)"

text \<open>The common end of both branches.\<close>

definition tab_count :: "nat \<Rightarrow> tab_mmap \<Rightarrow> tab_mmap" where
  "tab_count needed t = t\<lparr>tab_refs_used := u32 (tab_refs_used t + 1),
     tab_data_used := u32 (tab_data_used t + needed)\<rparr>"

definition set_ref :: "nat \<Rightarrow> nat \<Rightarrow> ref_mmap \<Rightarrow> tab_mmap \<Rightarrow> tab_mmap" where
  "set_ref row ref r t = t\<lparr>tab_row := (tab_row t)(row := (tab_row t row)(ref := r))\<rparr>"

text \<open>\<open>SHF_TAB_REF_MARK_AS_DELETED\<close>.\<close>

definition tab_ref_mark_as_deleted :: "nat \<Rightarrow> nat \<Rightarrow> nat \<Rightarrow> nat \<Rightarrow> nat \<Rightarrow> tab_mmap \<Rightarrow> tab_mmap" where
  "tab_ref_mark_as_deleted ll row ref key_len val_len t =
     (let old_pos = tab_data_free_pos t;
          pos = ref_pos (tab_row t row ref);
          freed = u32 (1 + ll + key_len + ll + val_len);
          d = put_U08_AT pos SHF_DATA_TYPE_DELETED (tab_data t);
          d = (if ll = 0 then d else put_U32_AT (u32 (pos + 1)) (u32 (key_len + ll + val_len)) d);
          t = t\<lparr>tab_data := d\<rparr>;
          t = (if ll = 0 \<and> 4 \<le> u32 (key_len + val_len)
               then t\<lparr>tab_data := put_U32_AT (pos + 1 + 4) old_pos d, tab_data_free_pos := pos\<rparr>
               else t);
          t = t\<lparr>tab_data_used := u32_sub (tab_data_used t) freed,
                tab_data_free := u32 (tab_data_free t + freed)\<rparr>;
          t = set_ref row ref ((tab_row t row ref)\<lparr>ref_pos := 0\<rparr>) t
      in t\<lparr>tab_refs_used := u32_sub (tab_refs_used t) 1\<rparr>)"

section \<open>Slots and well-formedness\<close>

text \<open>
  A slot is a row and a place in it. What a slot that is in use stands for: the table index and hash
  bits kept in the reference, and the key and the value of the record it points at.
\<close>

definition slots :: "(nat \<times> nat) set" where
  "slots = {..<SHF_ROWS_PER_TAB} \<times> {..<SHF_REFS_PER_ROW}"

definition slot_pos :: "tab_mmap \<Rightarrow> nat \<times> nat \<Rightarrow> nat" where
  "slot_pos t rf = ref_pos (tab_row t (fst rf) (snd rf))"

definition live :: "tab_mmap \<Rightarrow> (nat \<times> nat) set" where
  "live t = {rf \<in> slots. slot_pos t rf \<noteq> 0}"

definition slot :: "lens \<Rightarrow> tab_mmap \<Rightarrow> nat \<times> nat \<Rightarrow> (nat \<times> nat \<times> byte list \<times> byte list) option" where
  "slot L t rf = (if rf \<in> live t
     then let r = tab_row t (fst rf) (snd rf) in
       Some (ref_tab r, ref_rnd r, ref_key L (tab_data t) (ref_pos r), ref_val L (tab_data t) (ref_pos r))
     else None)"

definition apart :: "nat \<Rightarrow> nat \<Rightarrow> nat \<Rightarrow> nat \<Rightarrow> bool" where
  "apart p n q k \<longleftrightarrow> p + n \<le> q \<or> q + k \<le> p"

text \<open>The list of deleted records that starts at \<open>fp\<close>, linked through the word at offset 5.\<close>

primrec free_chain :: "mem \<Rightarrow> nat \<Rightarrow> nat list \<Rightarrow> bool" where
  "free_chain m fp [] \<longleftrightarrow> fp = 0"
| "free_chain m fp (p # ps) \<longleftrightarrow> fp = p \<and> p \<noteq> 0 \<and> free_chain m (SHF_U32_AT m (p + 5)) ps"

text \<open>
  In fixed length mode a deleted record must be able to hold the link at offset 5, or be too small
  for the code to try: key and value of 8 bytes together, or fewer than 4.
\<close>

definition lens_ok :: "lens \<Rightarrow> bool" where
  "lens_ok L \<longleftrightarrow> len_len L = 4
     \<or> len_len L = 0 \<and> (fixed_key L + fixed_val L < 4 \<or> 8 \<le> fixed_key L + fixed_val L)
       \<and> fixed_key L + fixed_val L < 2 ^ 31"

text \<open>The bytes of a record of size \<open>n\<close> at \<open>p\<close> lie in the used part of the data area.\<close>

definition in_data :: "tab_mmap \<Rightarrow> nat \<Rightarrow> nat \<Rightarrow> bool" where
  "in_data t p n \<longleftrightarrow> TAB_DATA_OFFSET \<le> p \<and> p + n \<le> tab_used t"

definition slot_size :: "lens \<Rightarrow> tab_mmap \<Rightarrow> nat \<times> nat \<Rightarrow> nat" where
  "slot_size L t rf = rec_size L (tab_data t) (slot_pos t rf)"

definition live_ok :: "lens \<Rightarrow> tab_mmap \<Rightarrow> bool" where
  "live_ok L t \<longleftrightarrow> (\<forall>x \<in> live t. in_data t (slot_pos t x) (slot_size L t x))
     \<and> (\<forall>x \<in> live t. \<forall>y \<in> live t. x \<noteq> y \<longrightarrow>
          apart (slot_pos t x) (slot_size L t x) (slot_pos t y) (slot_size L t y))"

definition free_size :: "lens \<Rightarrow> nat" where
  "free_size L = 1 + fixed_key L + fixed_val L"

definition free_ok :: "lens \<Rightarrow> tab_mmap \<Rightarrow> nat list \<Rightarrow> bool" where
  "free_ok L t fs \<longleftrightarrow> free_chain (tab_data t) (tab_data_free_pos t) fs
     \<and> (len_len L \<noteq> 0 \<or> fixed_key L + fixed_val L < 4 \<longrightarrow> fs = [])
     \<and> (\<forall>p \<in> set fs. in_data t p (free_size L)
          \<and> (\<forall>x \<in> live t. apart (slot_pos t x) (slot_size L t x) p (free_size L)))
     \<and> sorted_wrt (\<lambda>p q. apart p (free_size L) q (free_size L)) fs
     \<and> length fs * free_size L \<le> tab_data_free t"

definition header_ok :: "tab_mmap \<Rightarrow> bool" where
  "header_ok t \<longleftrightarrow> TAB_DATA_OFFSET \<le> tab_used t \<and> tab_used t \<le> tab_size t \<and> tab_size t < 2 ^ 32
     \<and> (\<forall>a \<ge> tab_used t. tab_data t a = 0)"

text \<open>
  The byte counters: \<open>tab_data_used\<close> counts the records that are in use, and every byte of the data
  area before \<open>tab_used\<close> is counted as used or as free.
\<close>

definition acct_ok :: "lens \<Rightarrow> tab_mmap \<Rightarrow> bool" where
  "acct_ok L t \<longleftrightarrow> tab_data_used t = (\<Sum>x \<in> live t. slot_size L t x)
     \<and> TAB_DATA_OFFSET + tab_data_used t + tab_data_free t = tab_used t"

definition tab_ok :: "lens \<Rightarrow> tab_mmap \<Rightarrow> bool" where
  "tab_ok L t \<longleftrightarrow> header_ok t \<and> live_ok L t \<and> acct_ok L t \<and> (\<exists>fs. free_ok L t fs)"

section \<open>Records and writes elsewhere\<close>

definition same_bytes :: "nat \<Rightarrow> nat \<Rightarrow> mem \<Rightarrow> mem \<Rightarrow> bool" where
  "same_bytes p n m m' \<longleftrightarrow> (\<forall>a. p \<le> a \<and> a < p + n \<longrightarrow> m' a = m a)"

definition same_outside :: "nat \<Rightarrow> nat \<Rightarrow> mem \<Rightarrow> mem \<Rightarrow> bool" where
  "same_outside p n m m' \<longleftrightarrow> (\<forall>a. a < p \<or> p + n \<le> a \<longrightarrow> m' a = m a)"

lemma same_outside_bytes: "same_outside p n m m' \<Longrightarrow> apart q k p n \<Longrightarrow> same_bytes q k m m'"
  by (auto simp: same_outside_def same_bytes_def apart_def)

lemma lens_okD: "lens_ok L \<Longrightarrow> len_len L = 4 \<or> len_len L = 0"
  by (auto simp: lens_ok_def)

lemma same_bytes_U32: "same_bytes p n m m' \<Longrightarrow> p \<le> a \<Longrightarrow> a + 4 \<le> p + n \<Longrightarrow> SHF_U32_AT m' a = SHF_U32_AT m a"
  by (rule U32_cong) (simp add: same_bytes_def)

lemma same_bytes_mem: "same_bytes p n m m' \<Longrightarrow> p \<le> a \<Longrightarrow> a + k \<le> p + n \<Longrightarrow> mem_bytes m' a k = mem_bytes m a k"
  by (rule mem_bytes_cong) (simp add: same_bytes_def)

lemma rec_size_pos: "0 < rec_size L m pos"
  by (simp add: rec_size_def data_needed_def)

text \<open>A record is determined by the bytes it occupies.\<close>

lemma rec_frame:
  assumes L: "lens_ok L" and same: "same_bytes pos (rec_size L m pos) m m'"
    and fit: "pos + rec_size L m pos < 4294967296"
  shows "ref_key_len L m' pos = ref_key_len L m pos" "ref_val_len L m' pos = ref_val_len L m pos"
    "rec_size L m' pos = rec_size L m pos"
    "ref_key L m' pos = ref_key L m pos" "ref_val L m' pos = ref_val L m pos"
proof -
  let ?kl = "ref_key_len L m pos" and ?vl = "ref_val_len L m pos" and ?ll = "len_len L"
  have n: "rec_size L m pos = 1 + ?ll + ?kl + ?ll + ?vl" by (simp add: rec_size_def data_needed_def)
  have ll: "?ll = 4 \<or> ?ll = 0" using L by (rule lens_okD)
  have U: "SHF_U32_AT m' a = SHF_U32_AT m a" if "pos \<le> a" "a + 4 \<le> pos + rec_size L m pos" for a
    using same_bytes_U32 [OF same] that .
  have kl: "ref_key_len L m' pos = ?kl"
    using ll fit n U [of "pos + 1"] by (auto simp: ref_key_len_def)
  have vl: "ref_val_len L m' pos = ?vl"
    using ll fit n U [of "pos + 1 + ?ll + ?kl"] by (auto simp: ref_val_len_def kl)
  show "ref_key_len L m' pos = ?kl" "ref_val_len L m' pos = ?vl" by (fact kl, fact vl)
  show "rec_size L m' pos = rec_size L m pos" by (simp add: rec_size_def kl vl)
  show "ref_key L m' pos = ref_key L m pos"
    using fit n by (simp add: ref_key_def ref_key_addr_def kl) (rule same_bytes_mem [OF same], simp_all)
  show "ref_val L m' pos = ref_val L m pos"
    using fit n by (simp add: ref_val_def ref_val_addr_def kl vl) (rule same_bytes_mem [OF same], simp_all)
qed

definition fits :: "lens \<Rightarrow> byte list \<Rightarrow> byte list option \<Rightarrow> nat \<Rightarrow> bool" where
  "fits L key val val_len \<longleftrightarrow> (len_len L = 0 \<longrightarrow> length key = fixed_key L \<and> val_len = fixed_val L)
     \<and> (\<forall>v. val = Some v \<longrightarrow> val_len \<le> length v)"

text \<open>The bytes both branches of the append write at \<open>p\<close>.\<close>

definition record_mem :: "bool \<Rightarrow> nat \<Rightarrow> nat \<Rightarrow> byte list \<Rightarrow> byte list option \<Rightarrow> nat \<Rightarrow> mem \<Rightarrow> mem" where
  "record_mem extended ll p key val val_len m =
     (let key_len = length key;
          d = put_U08_AT p (record_type extended) m;
          d = (if ll = 0 then d
               else put_U32_AT (p + 1 + ll + key_len) val_len (put_U32_AT (p + 1) key_len d));
          d = SHF_MEM_AT (p + 1 + ll) key d
      in put_val (p + 1 + ll + key_len + ll) val val_len d)"

lemma tab_store_eq:
  "tab_store e ll key val vl t = t\<lparr>tab_data := record_mem e ll (tab_used t) key val vl (tab_data t),
     tab_used := u32 (tab_used t + data_needed ll (length key) vl)\<rparr>"
  by (simp add: tab_store_def record_mem_def Let_def)

lemma tab_reuse_eq:
  "tab_reuse e 0 key val vl t = t\<lparr>tab_data_free_pos := SHF_U32_AT (tab_data t) (tab_data_free_pos t + 5),
     tab_data := record_mem e 0 (tab_data_free_pos t) key val vl (tab_data t),
     tab_data_free := u32_sub (tab_data_free t) (u32 (1 + length key + vl))\<rparr>"
  by (simp add: tab_reuse_def record_mem_def Let_def add.commute)

definition stored_val :: "mem \<Rightarrow> nat \<Rightarrow> byte list option \<Rightarrow> nat \<Rightarrow> byte list" where
  "stored_val m a val val_len = (case val of None \<Rightarrow> mem_bytes m a val_len | Some v \<Rightarrow> take val_len v)"

lemma record_mem_outside:
  assumes "len_len L = 4 \<or> len_len L = 0" "fits L key val vl"
  shows "same_outside p (data_needed (len_len L) (length key) vl) m (record_mem e (len_len L) p key val vl m)"
  using assms
  by (auto simp: same_outside_def record_mem_def Let_def data_needed_def put_val_def mem_outside fits_def
      split: option.splits)

lemma record_mem_reads:
  assumes L: "lens_ok L" and f: "fits L key val vl"
    and fit: "p + data_needed (len_len L) (length key) vl < 4294967296"
    and m'_def: "m' = record_mem e (len_len L) p key val vl m"
  shows "ref_key_len L m' p = length key" "ref_val_len L m' p = vl" "ref_key L m' p = key"
    "ref_val L m' p = stored_val m (p + 1 + len_len L + length key + len_len L) val vl"
    "rec_size L m' p = data_needed (len_len L) (length key) vl"
proof -
  have b: "length key < 4294967296" "vl < 4294967296"
    using fit by (simp_all add: data_needed_def)
  have k: "ref_key_len L m' p = length key" 
    using lens_okD [OF L] f fit b unfolding m'_def
    by (auto simp: ref_key_len_def record_mem_def Let_def data_needed_def put_val_def mem_read_write fits_def
        split: option.splits)
  show "ref_key_len L m' p = length key" by (fact k)
  show v: "ref_val_len L m' p = vl"
    using lens_okD [OF L] f fit b 
    by (auto simp: ref_val_len_def k) (auto simp: m'_def record_mem_def Let_def data_needed_def put_val_def mem_read_write fits_def
        add.assoc add.commute add.left_commute split: option.splits)
  show "ref_key L m' p = key"
    using lens_okD [OF L] f fit b 
    by (auto simp: ref_key_def ref_key_addr_def k) (auto simp: m'_def record_mem_def Let_def data_needed_def put_val_def mem_read_write fits_def
        split: option.splits)
  show "ref_val L m' p = stored_val m (p + 1 + len_len L + length key + len_len L) val vl"
    using lens_okD [OF L] f fit b 
    by (auto simp: ref_val_def ref_val_addr_def k v) (auto simp: m'_def stored_val_def record_mem_def Let_def data_needed_def put_val_def mem_read_write fits_def
        split: option.splits)
  show "rec_size L m' p = data_needed (len_len L) (length key) vl"
    by (simp add: rec_size_def k v)
qed

section \<open>Inserting into and removing from a table\<close>

lemma finite_live [simp]: "finite (live t)"
  by (rule finite_subset [of _ slots]) (auto simp: live_def slots_def)

lemma slot_frame:
  assumes "lens_ok L" "in_data t (slot_pos t y) (slot_size L t y)" "tab_used t < 4294967296"
    and "same_bytes (slot_pos t y) (slot_size L t y) (tab_data t) (tab_data t')"
    and "tab_row t' (fst y) (snd y) = tab_row t (fst y) (snd y)"
  shows "slot_pos t' y = slot_pos t y" "slot_size L t' y = slot_size L t y" "slot L t' y = slot L t y"
proof -
  show p: "slot_pos t' y = slot_pos t y" using assms(5) by (simp add: slot_pos_def)
  note f = rec_frame [OF assms(1) assms(4) [unfolded slot_size_def]]
  have b: "slot_pos t y + rec_size L (tab_data t) (slot_pos t y) < 4294967296"
    using assms(2,3) by (simp add: in_data_def slot_size_def)
  show "slot_size L t' y = slot_size L t y" using f(3) [OF b] by (simp add: slot_size_def p)
  show "slot L t' y = slot L t y"
    using f(4,5) [OF b, unfolded slot_pos_def] assms(5) p by (simp add: slot_def live_def Let_def)
qed

text \<open>
  \<open>t'\<close> differs from \<open>t\<close> by a record of \<open>n\<close> bytes at the position of \<open>x\<close>, away from the records of
  the other slots, and by slot \<open>rf\<close>, which refers to it.
\<close>

definition inserted :: "lens \<Rightarrow> nat \<times> nat \<Rightarrow> ref_mmap \<Rightarrow> nat \<Rightarrow> tab_mmap \<Rightarrow> tab_mmap \<Rightarrow> bool" where
  "inserted L rf x n t t' \<longleftrightarrow> lens_ok L \<and> live_ok L t \<and> rf \<in> slots
     \<and> tab_row t' = (\<lambda>a b. if (a, b) = rf then x else tab_row t a b)
     \<and> same_outside (ref_pos x) n (tab_data t) (tab_data t')
     \<and> rec_size L (tab_data t') (ref_pos x) = n
     \<and> (\<forall>y \<in> live t. y \<noteq> rf \<longrightarrow> apart (slot_pos t y) (slot_size L t y) (ref_pos x) n)
     \<and> in_data t' (ref_pos x) n \<and> tab_used t \<le> tab_used t' \<and> tab_used t' < 4294967296"

lemma inserted_row: "inserted L rf x n t t' \<Longrightarrow> tab_row t' a b = (if (a, b) = rf then x else tab_row t a b)"
  by (simp add: inserted_def)

lemma inserted_new_slot:
  assumes "inserted L rf x n t t'"
  shows "slot_pos t' rf = ref_pos x" "slot_size L t' rf = n" "live t' = insert rf (live t)"
proof -
  show p: "slot_pos t' rf = ref_pos x" and "slot_size L t' rf = n"
    using assms by (simp_all add: slot_size_def slot_pos_def inserted_def)
  have "ref_pos x \<noteq> 0" using assms by (auto simp: inserted_def in_data_def shf_const_eq)
  then show "live t' = insert rf (live t)"
    using assms by (auto simp: live_def slot_pos_def inserted_def)
qed

lemma inserted_old_slot:
  assumes "inserted L rf x n t t'" "y \<in> live t" "y \<noteq> rf"
  shows "slot_pos t' y = slot_pos t y \<and> slot_size L t' y = slot_size L t y \<and> slot L t' y = slot L t y"
proof -
  have "in_data t (slot_pos t y) (slot_size L t y)"
    using assms by (simp add: live_ok_def inserted_def)
  moreover have "same_bytes (slot_pos t y) (slot_size L t y) (tab_data t) (tab_data t')"
    using assms by (intro same_outside_bytes [of "ref_pos x" n]) (simp_all add: inserted_def)
  moreover have "tab_row t' (fst y) (snd y) = tab_row t (fst y) (snd y)"
    using assms by (simp add: inserted_row)
  ultimately show ?thesis
    using slot_frame [of L t y t'] assms(1) by (simp add: inserted_def)
qed

lemma inserted_live_ok:
  assumes ins: "inserted L rf x n t t'"
  shows "live_ok L t'"
proof -
  note new = inserted_new_slot [OF ins]
  note old = inserted_old_slot [OF ins]
  have ok: "in_data t (slot_pos t y) (slot_size L t y)" if "y \<in> live t" for y
    using that ins by (simp add: inserted_def live_ok_def)
  have ok2: "apart (slot_pos t y) (slot_size L t y) (slot_pos t z) (slot_size L t z)"
    if "y \<in> live t" "z \<in> live t" "y \<noteq> z" for y z
    using that ins by (simp add: inserted_def live_ok_def)
  have fr: "apart (slot_pos t y) (slot_size L t y) (ref_pos x) n"
    if "y \<in> live t" "y \<noteq> rf" for y using that ins by (simp add: inserted_def)
  have u: "tab_used t \<le> tab_used t'" "in_data t' (ref_pos x) n" using ins by (simp_all add: inserted_def)
  have "in_data t' (slot_pos t' y) (slot_size L t' y)" if "y \<in> live t'" for y
  proof (cases "y = rf")
    case False
    then have "y \<in> live t" using that by (simp add: new)
    with False ok [OF this] u show ?thesis by (simp add: old in_data_def)
  qed (simp add: new u)
  moreover have "apart (slot_pos t' y) (slot_size L t' y) (slot_pos t' z) (slot_size L t' z)"
    if y: "y \<in> live t'" and z: "z \<in> live t'" and ne: "y \<noteq> z" for y z
  proof -
    consider "y = rf" "z \<noteq> rf" "z \<in> live t" | "z = rf" "y \<noteq> rf" "y \<in> live t"
      | "y \<noteq> rf" "z \<noteq> rf" "y \<in> live t" "z \<in> live t" using y z ne by (auto simp: new)
    then show ?thesis
      by cases (use fr [of y] fr [of z] ok2 ne in \<open>auto simp: new old apart_def\<close>)
  qed
  ultimately show ?thesis by (simp add: live_ok_def)
qed

lemma inserted_slot:
  assumes ins: "inserted L rf x n t t'"
  shows "slot L t' = (slot L t)(rf \<mapsto> (ref_tab x, ref_rnd x, ref_key L (tab_data t') (ref_pos x),
     ref_val L (tab_data t') (ref_pos x)))"
proof
  note new = inserted_new_slot [OF ins]
  fix y
  show "slot L t' y = ((slot L t)(rf \<mapsto> (ref_tab x, ref_rnd x, ref_key L (tab_data t') (ref_pos x),
     ref_val L (tab_data t') (ref_pos x)))) y"
  proof (cases "y = rf")
    case True
    then show ?thesis by (simp add: slot_def new inserted_row [OF ins])
  next
    case False
    then show ?thesis
      using inserted_old_slot [OF ins, of y] by (cases "y \<in> live t") (simp_all add: slot_def new)
  qed
qed

lemma inserted_sum:
  assumes ins: "inserted L rf x n t t'" and "rf \<notin> live t"
  shows "(\<Sum>y \<in> live t'. slot_size L t' y) = n + (\<Sum>y \<in> live t. slot_size L t y)"
proof -
  have "(\<Sum>y \<in> live t. slot_size L t' y) = (\<Sum>y \<in> live t. slot_size L t y)"
  proof (rule sum.cong)
    fix y assume "y \<in> live t"
    with assms(2) have "y \<noteq> rf" by auto
    with inserted_old_slot [OF ins \<open>y \<in> live t\<close>] show "slot_size L t' y = slot_size L t y" by simp
  qed simp
  then show ?thesis using assms(2) by (simp add: inserted_new_slot [OF ins])
qed

text \<open>The list of deleted records only depends on the bytes of these records.\<close>

lemma free_chain_frame:
  assumes "\<And>p. p \<in> set fs \<Longrightarrow> SHF_U32_AT m' (p + 5) = SHF_U32_AT m (p + 5)"
  shows "free_chain m' fp fs = free_chain m fp fs"
  using assms by (induction fs arbitrary: fp) auto

lemma free_chain_nonzero: "free_chain m fp fs \<Longrightarrow> fs = [] \<longleftrightarrow> fp = 0"
  by (cases fs) auto

lemma free_link_outside:
  assumes "apart p 9 q n" "same_outside q n m m'"
  shows "SHF_U32_AT m' (p + 5) = SHF_U32_AT m (p + 5)"
  using assms by (intro U32_cong) (auto simp: apart_def same_outside_def)

section \<open>The append branch\<close>

lemma set_ref_row: "tab_row (set_ref r f x t) = (\<lambda>a b. if (a, b) = (r, f) then x else tab_row t a b)"
  by (auto simp: set_ref_def fun_eq_iff)

lemma set_ref_simps [simp]:
  "tab_data (set_ref r f x t) = tab_data t" "tab_size (set_ref r f x t) = tab_size t"
  "tab_used (set_ref r f x t) = tab_used t" "tab_data_free_pos (set_ref r f x t) = tab_data_free_pos t"
  "tab_data_free (set_ref r f x t) = tab_data_free t" "tab_data_used (set_ref r f x t) = tab_data_used t"
  by (simp_all add: set_ref_def)

lemma tab_count_simps [simp]:
  "tab_data (tab_count n t) = tab_data t" "tab_size (tab_count n t) = tab_size t"
  "tab_used (tab_count n t) = tab_used t" "tab_data_free_pos (tab_count n t) = tab_data_free_pos t"
  "tab_data_free (tab_count n t) = tab_data_free t" "tab_row (tab_count n t) = tab_row t"
  "tab_data_used (tab_count n t) = u32 (tab_data_used t + n)"
  by (simp_all add: tab_count_def)

lemma mk_ref_simps [simp]:
  "tab < 2048 \<Longrightarrow> ref_tab (mk_ref tab rnd pos) = tab" "rnd < 2097152 \<Longrightarrow> ref_rnd (mk_ref tab rnd pos) = rnd"
  "ref_pos (mk_ref tab rnd pos) = pos"
  by (simp_all add: mk_ref_def shf_const)

lemma same_outside_refl: "same_outside p n m m"
  by (simp add: same_outside_def)

lemma free_size_needed: "len_len L = 0 \<Longrightarrow> fits L key val vl \<Longrightarrow> data_needed 0 (length key) vl = free_size L"
  by (simp add: free_size_def data_needed_def fits_def)

text \<open>The bytes a reserved value has: what is in memory there, which is zero past \<open>tab_used\<close>.\<close>

definition reserved_val :: "byte list option \<Rightarrow> nat \<Rightarrow> byte list" where
  "reserved_val val val_len = (case val of None \<Rightarrow> replicate val_len 0 | Some v \<Rightarrow> take val_len v)"

lemma stored_val_zero:
  "(\<And>b. a \<le> b \<Longrightarrow> m b = 0) \<Longrightarrow> stored_val m a val vl = reserved_val val vl"
  by (auto simp: stored_val_def reserved_val_def mem_bytes_def split: option.split intro!: nth_equalityI)

lemma free_okD:
  assumes "free_ok L t fs"
  shows "free_chain (tab_data t) (tab_data_free_pos t) fs" "fs \<noteq> [] \<Longrightarrow> len_len L = 0"
    "fs \<noteq> [] \<Longrightarrow> 4 \<le> fixed_key L + fixed_val L" "p \<in> set fs \<Longrightarrow> in_data t p (free_size L)"
    "p \<in> set fs \<Longrightarrow> x \<in> live t \<Longrightarrow> apart (slot_pos t x) (slot_size L t x) p (free_size L)"
    "sorted_wrt (\<lambda>p q. apart p (free_size L) q (free_size L)) fs"
    "length fs * free_size L \<le> tab_data_free t"
  using assms by (auto simp: free_ok_def not_less)

lemma no_free_chain: "tab_ok L t \<Longrightarrow> len_len L \<noteq> 0 \<Longrightarrow> tab_data_free_pos t = 0"
  by (auto simp: tab_ok_def free_ok_def)

lemma free_ok_size: "lens_ok L \<Longrightarrow> free_ok L t fs \<Longrightarrow> p \<in> set fs \<Longrightarrow> 9 \<le> free_size L"
  by (auto simp: free_ok_def lens_ok_def free_size_def)

text \<open>The list survives an insertion that keeps away from its records.\<close>

lemma inserted_free_ok:
  assumes ins: "inserted L rf x n t t'" and ok: "free_ok L t fs"
    and pos: "tab_data_free_pos t' = tab_data_free_pos t" and free: "tab_data_free t' = tab_data_free t"
    and ap: "\<And>p. p \<in> set fs \<Longrightarrow> apart p (free_size L) (ref_pos x) n"
  shows "free_ok L t' fs"
proof -
  note D = free_okD [OF ok]
  have L: "lens_ok L" and out: "same_outside (ref_pos x) n (tab_data t) (tab_data t')"
    and used: "tab_used t \<le> tab_used t'" using ins by (simp_all add: inserted_def)
  have "free_chain (tab_data t') (tab_data_free_pos t') fs = free_chain (tab_data t) (tab_data_free_pos t) fs"
    unfolding pos
  proof (rule free_chain_frame)
    fix p assume p: "p \<in> set fs"
    have "apart p 9 (ref_pos x) n" using ap [OF p] free_ok_size [OF L ok p] by (auto simp: apart_def)
    then show "SHF_U32_AT (tab_data t') (p + 5) = SHF_U32_AT (tab_data t) (p + 5)"
      using out by (rule free_link_outside)
  qed
  moreover have "apart (slot_pos t' y) (slot_size L t' y) p (free_size L)" if p: "p \<in> set fs" and y: "y \<in> live t'" for p y
  proof (cases "y = rf")
    case True
    then show ?thesis using ap [OF p] by (auto simp: inserted_new_slot [OF ins] apart_def)
  next
    case False
    then have "y \<in> live t" using y by (simp add: inserted_new_slot [OF ins])
    with False show ?thesis using D(5) [OF p] inserted_old_slot [OF ins] by simp
  qed
  moreover have "in_data t' p (free_size L)" if "p \<in> set fs" for p
    using D(4) [OF that] used by (simp add: in_data_def)
  ultimately show ?thesis using ok free by (auto simp: free_ok_def)
qed

lemma tab_okD:
  assumes "tab_ok L t"
  shows "TAB_DATA_OFFSET \<le> tab_used t" "tab_used t \<le> tab_size t" "tab_size t < 4294967296"
    "tab_used t \<le> a \<Longrightarrow> tab_data t a = 0" "live_ok L t"
    "tab_data_used t = (\<Sum>x \<in> live t. slot_size L t x)"
    "TAB_DATA_OFFSET + tab_data_used t + tab_data_free t = tab_used t"
    "x \<in> live t \<Longrightarrow> in_data t (slot_pos t x) (slot_size L t x)"
  using assms by (auto simp: tab_ok_def header_ok_def acct_ok_def live_ok_def)

lemma tab_store_inserted:
  assumes L: "lens_ok L" and ok: "tab_ok L t" and rf: "(r, f) \<in> slots" and fits: "fits L key val vl"
    and n: "n = data_needed (len_len L) (length key) vl" and room: "tab_used t + n \<le> tab_size t"
    and x: "ref_pos x = tab_used t"
    and t': "t' = set_ref r f x (tab_count n (tab_store e (len_len L) key val vl t))"
  shows "inserted L (r, f) x n t t'"
proof -
  note D = tab_okD [OF ok]
  have lt: "tab_used t + n < 4294967296" using room D(3) by simp
  then have "rec_size L (tab_data t') (tab_used t) = n"
    using record_mem_reads(5) [OF L fits _ refl, of "tab_used t" e "tab_data t"] n by (simp add: t' tab_store_eq)
  moreover have "tab_used t' = tab_used t + n" using lt n by (simp add: t' tab_store_eq)
  moreover have "same_outside (tab_used t) n (tab_data t) (tab_data t')"
    using record_mem_outside [OF lens_okD [OF L] fits, of "tab_used t"] n by (simp add: t' tab_store_eq)
  moreover have "apart (slot_pos t y) (slot_size L t y) (tab_used t) n" if "y \<in> live t" for y
    using D(8) [OF that] by (simp add: apart_def in_data_def)
  moreover have "tab_row t' = (\<lambda>a b. if (a, b) = (r, f) then x else tab_row t a b)"
    by (simp add: t' set_ref_row tab_store_eq fun_eq_iff)
  ultimately show ?thesis using L D rf lt by (simp add: inserted_def x in_data_def)
qed

lemma tab_store_ok:
  assumes L: "lens_ok L" and ok: "tab_ok L t" and rf: "(r, f) \<in> slots" "(r, f) \<notin> live t"
    and fits: "fits L key val vl"
    and n: "n = data_needed (len_len L) (length key) vl" and room: "tab_used t + n \<le> tab_size t"
    and x: "x = mk_ref tab rnd (tab_used t)" "tab < 2048" "rnd < 2097152"
    and t': "t' = set_ref r f x (tab_count n (tab_store e (len_len L) key val vl t))"
  shows "tab_ok L t'" "slot L t' = (slot L t)((r, f) \<mapsto> (tab, rnd, key, reserved_val val vl))"
    "tab_used t' = tab_used t + n" "tab_size t' = tab_size t" "tab_data_free t' = tab_data_free t"
    "tab_data_free_pos t' = tab_data_free_pos t"
proof -
  note D = tab_okD [OF ok]
  have lt: "tab_used t + n < 4294967296" using room D(3) by simp
  have ins: "inserted L (r, f) x n t t'"
    by (rule tab_store_inserted [OF L ok rf(1) fits n room _ t']) (simp add: x)
  have d: "tab_data t' = record_mem e (len_len L) (tab_used t) key val vl (tab_data t)"
    by (simp add: t' tab_store_eq)
  show u: "tab_used t' = tab_used t + n" "tab_size t' = tab_size t" "tab_data_free t' = tab_data_free t"
    "tab_data_free_pos t' = tab_data_free_pos t"
    using lt n by (simp_all add: t' tab_store_eq)
  have du: "tab_data_used t' = tab_data_used t + n" using lt D(7) by (simp add: t' tab_store_eq)
  obtain fs where fs: "free_ok L t fs" using ok by (auto simp: tab_ok_def)
  have "free_ok L t' fs"
  proof (rule inserted_free_ok [OF ins fs])
    show "apart p (free_size L) (ref_pos x) n" if "p \<in> set fs" for p
      using free_okD(4) [OF fs that] by (simp add: apart_def in_data_def x)
  qed (simp_all add: u)
  moreover have "tab_data t' a = 0" if "tab_used t' \<le> a" for a
    using ins that D(4) u by (simp add: inserted_def same_outside_def x)
  moreover have "acct_ok L t'"
    using inserted_sum [OF ins rf(2)] D(6,7) by (simp add: acct_ok_def du u)
  ultimately show "tab_ok L t'"
    using inserted_live_ok [OF ins] D(1,3) room by (auto simp: tab_ok_def header_ok_def u)
  have reads: "ref_key L (tab_data t') (tab_used t) = key"
    "ref_val L (tab_data t') (tab_used t) = stored_val (tab_data t) (tab_used t + 1 + len_len L + length key + len_len L) val vl"
    using record_mem_reads [OF L fits _ d] lt n by simp_all
  have "stored_val (tab_data t) (tab_used t + 1 + len_len L + length key + len_len L) val vl = reserved_val val vl"
    using D(4) by (intro stored_val_zero) simp
  with reads show "slot L t' = (slot L t)((r, f) \<mapsto> (tab, rnd, key, reserved_val val vl))"
    using inserted_slot [OF ins] x by simp
qed

section \<open>The reuse branch\<close>

lemma free_head:
  assumes "free_ok L t fs" "tab_data_free_pos t \<noteq> 0"
  obtains ps where "fs = tab_data_free_pos t # ps"
  using assms free_okD(1) [OF assms(1)] by (cases fs) auto

lemma tab_reuse_ok:
  assumes L: "lens_ok L" "len_len L = 0" and ok: "tab_ok L t" and rf: "(r, f) \<in> slots" "(r, f) \<notin> live t"
    and fits: "fits L key val vl" and pos: "p = tab_data_free_pos t" "p \<noteq> 0"
    and n: "n = data_needed 0 (length key) vl"
    and x: "x = mk_ref tab rnd p" "tab < 2048" "rnd < 2097152"
    and t': "t' = set_ref r f x (tab_count n (tab_reuse e 0 key val vl t))"
  shows "tab_ok L t'"
    "slot L t' = (slot L t)((r, f) \<mapsto> (tab, rnd, key, stored_val (tab_data t) (p + 1 + length key) val vl))"
    "tab_used t' = tab_used t" "tab_size t' = tab_size t" "tab_data_free t' = tab_data_free t - n"
    "n \<le> tab_data_free t"
proof -
  note D = tab_okD [OF ok]
  obtain fs where fs: "free_ok L t fs" using ok by (auto simp: tab_ok_def)
  obtain ps where ps: "fs = p # ps" using free_head [OF fs] pos by metis
  note F = free_okD [OF fs]
  have fsz: "n = free_size L" using free_size_needed [OF L(2) fits] n by simp
  have inp: "in_data t p n" using F(4) [of p] by (simp add: ps fsz)
  have lt: "p + n < 4294967296" using inp D(2,3) by (simp add: in_data_def)
  have free: "n + length ps * n \<le> tab_data_free t" using F(7) by (simp add: ps fsz)
  then show nf: "n \<le> tab_data_free t" by simp
  let ?nx = "SHF_U32_AT (tab_data t) (p + 5)"
  have d: "tab_data t' = record_mem e 0 p key val vl (tab_data t)"
    by (simp add: t' tab_reuse_eq pos)
  have n1: "Suc (length key + vl) = n" by (simp add: n data_needed_def)
  have n4: "n \<le> 4294967295" using nf D by simp
  show u: "tab_used t' = tab_used t" "tab_size t' = tab_size t" "tab_data_free t' = tab_data_free t - n"
    using nf n4 D n1 by (simp_all add: t' tab_reuse_eq)
  have fp: "tab_data_free_pos t' = ?nx" by (simp add: t' tab_reuse_eq pos)
  have du: "tab_data_used t' = tab_data_used t + n" using nf D by (simp add: t' tab_reuse_eq)
  define t0 where "t0 = t\<lparr>tab_data_free_pos := ?nx, tab_data_free := tab_data_free t - n\<rparr>"
  have t0: "tab_row t0 = tab_row t" "tab_data t0 = tab_data t" "tab_used t0 = tab_used t" "live t0 = live t"
    "slot_pos t0 = slot_pos t" "slot_size L t0 = slot_size L t" "live_ok L t0" "slot L t0 = slot L t"
    using D(5) by (simp_all add: t0_def live_def slot_pos_def slot_size_def live_ok_def in_data_def slot_def fun_eq_iff)
  have "rec_size L (tab_data t') p = n"
    using record_mem_reads(5) [OF L(1) fits, of p] lt n L(2) d by simp
  moreover have "same_outside p n (tab_data t) (tab_data t')"
    using record_mem_outside [of L key val vl p] fits n L(2) d by simp
  moreover have "apart (slot_pos t y) (slot_size L t y) p n" if "y \<in> live t" for y
    using F(5) [of p y] that by (simp add: ps fsz)
  moreover have "tab_row t' = (\<lambda>a b. if (a, b) = (r, f) then x else tab_row t a b)"
    by (simp add: t' set_ref_row tab_reuse_eq fun_eq_iff)
  moreover have "ref_pos x = p" by (simp add: x)
  moreover have "in_data t' p n" using inp by (simp add: in_data_def u)
  ultimately have ins: "inserted L (r, f) x n t0 t'"
    using L(1) D rf(1) by (simp add: inserted_def t0 u fun_eq_iff)
  have ch: "free_chain (tab_data t) ?nx ps" using F(1) by (simp add: ps)
  have "free_ok L t0 ps"
    using fs ch free unfolding free_ok_def t0 ps by (auto simp: t0_def fsz in_data_def)
  then have "free_ok L t' ps"
  proof (rule inserted_free_ok [OF ins])
    show "apart q (free_size L) (ref_pos x) n" if "q \<in> set ps" for q
      using F(6) that by (auto simp: ps x fsz apart_def)
  qed (simp_all add: t0_def fp u)
  moreover have "tab_data t' a = 0" if "tab_used t' \<le> a" for a
    using ins that D(4) u inp by (simp add: inserted_def same_outside_def x in_data_def t0)
  moreover have "acct_ok L t'"
    using inserted_sum [OF ins] rf(2) nf D(6,7) by (simp add: acct_ok_def du u t0)
  ultimately show "tab_ok L t'"
    using inserted_live_ok [OF ins] D(1-3) by (auto simp: tab_ok_def header_ok_def u)
  have reads: "ref_key L (tab_data t') p = key"
    "ref_val L (tab_data t') p = stored_val (tab_data t) (p + 1 + length key) val vl"
    using record_mem_reads [OF L(1) fits, of p] lt n L(2) d by simp_all
  then show "slot L t' = (slot L t)((r, f) \<mapsto> (tab, rnd, key, stored_val (tab_data t) (p + 1 + length key) val vl))"
    using inserted_slot [OF ins] x by (simp add: t0)
qed

section \<open>Deleting\<close>

lemma deleted_outside:
  assumes L: "lens_ok L" and pos: "p = slot_pos t (r, f)"
    and n: "n = data_needed (len_len L) kl vl" "p + n < 4294967296"
    and fixed: "len_len L = 0 \<Longrightarrow> kl = fixed_key L \<and> vl = fixed_val L"
    and t': "t' = tab_ref_mark_as_deleted (len_len L) r f kl vl t"
  shows "same_outside p n (tab_data t) (tab_data t')"
  using assms
  by (auto simp: same_outside_def tab_ref_mark_as_deleted_def Let_def set_ref_def slot_pos_def lens_ok_def
      data_needed_def mem_outside)

lemma tab_delete_fields:
  assumes L: "lens_ok L" and pos: "p = slot_pos t (r, f)"
    and n: "n = data_needed (len_len L) kl vl" "n \<le> tab_data_used t"
      "tab_data_used t + tab_data_free t < 4294967296"
    and t': "t' = tab_ref_mark_as_deleted (len_len L) r f kl vl t"
  shows "tab_used t' = tab_used t" "tab_size t' = tab_size t" "tab_data_used t' = tab_data_used t - n"
    "tab_data_free t' = tab_data_free t + n"
    "tab_row t' = (\<lambda>a b. if (a, b) = (r, f) then (tab_row t r f)\<lparr>ref_pos := 0\<rparr> else tab_row t a b)"
    "len_len L = 4 \<or> kl + vl < 4 \<Longrightarrow> tab_data_free_pos t' = tab_data_free_pos t"
    "len_len L = 0 \<Longrightarrow> 4 \<le> kl + vl \<Longrightarrow> tab_data_free_pos t' = p
      \<and> (tab_data_free_pos t < 4294967296 \<longrightarrow> SHF_U32_AT (tab_data t') (p + 5) = tab_data_free_pos t)"
proof -
  have b: "n < 4294967296" "kl + vl < 4294967296"
    using n by (simp_all add: data_needed_def)
  show "tab_used t' = tab_used t" "tab_size t' = tab_size t" "tab_data_used t' = tab_data_used t - n"
    "tab_data_free t' = tab_data_free t + n"
    using n b unfolding t' by (simp_all add: tab_ref_mark_as_deleted_def Let_def data_needed_def)
  show "tab_row t' = (\<lambda>a b. if (a, b) = (r, f) then (tab_row t r f)\<lparr>ref_pos := 0\<rparr> else tab_row t a b)"
    unfolding t' by (auto simp: tab_ref_mark_as_deleted_def Let_def set_ref_def fun_eq_iff)
  show "tab_data_free_pos t' = tab_data_free_pos t" if "len_len L = 4 \<or> kl + vl < 4"
    using that unfolding t' by (auto simp: tab_ref_mark_as_deleted_def Let_def)
  show "tab_data_free_pos t' = p
      \<and> (tab_data_free_pos t < 4294967296 \<longrightarrow> SHF_U32_AT (tab_data t') (p + 5) = tab_data_free_pos t)"
    if "len_len L = 0" "4 \<le> kl + vl"
    using that b unfolding t' 
    by (simp add: tab_ref_mark_as_deleted_def Let_def set_ref_def pos slot_pos_def mem_read_write add.commute)
qed

definition removed :: "lens \<Rightarrow> nat \<times> nat \<Rightarrow> tab_mmap \<Rightarrow> tab_mmap \<Rightarrow> bool" where
  "removed L rf t t' \<longleftrightarrow> lens_ok L \<and> tab_ok L t \<and> rf \<in> live t
     \<and> tab_row t' = (\<lambda>a b. if (a, b) = rf then (tab_row t a b)\<lparr>ref_pos := 0\<rparr> else tab_row t a b)
     \<and> same_outside (slot_pos t rf) (slot_size L t rf) (tab_data t) (tab_data t')
     \<and> tab_used t' = tab_used t"

lemma removed_live: "removed L rf t t' \<Longrightarrow> live t' = live t - {rf}"
  by (auto simp: removed_def live_def slot_pos_def)

lemma removed_old_slot:
  assumes "removed L rf t t'" and y: "y \<in> live t" "y \<noteq> rf"
  shows "slot_pos t' y = slot_pos t y \<and> slot_size L t' y = slot_size L t y \<and> slot L t' y = slot L t y"
proof -
  have ok: "tab_ok L t" "rf \<in> live t" "lens_ok L" using assms(1) by (simp_all add: removed_def)
  note D = tab_okD [OF ok(1)]
  have "apart (slot_pos t y) (slot_size L t y) (slot_pos t rf) (slot_size L t rf)"
    using D(5) y ok(2) by (simp add: live_ok_def)
  then have "same_bytes (slot_pos t y) (slot_size L t y) (tab_data t) (tab_data t')"
    using assms(1) by (intro same_outside_bytes [of "slot_pos t rf" "slot_size L t rf"]) (simp_all add: removed_def)
  moreover have "tab_row t' (fst y) (snd y) = tab_row t (fst y) (snd y)"
    using assms(1) y(2) by (cases y) (auto simp: removed_def)
  ultimately show ?thesis using slot_frame [OF ok(3) D(8) [OF y(1)], of t'] D(2,3) by simp
qed

lemma removed_slot:
  assumes "removed L rf t t'"
  shows "slot L t' = (slot L t)(rf := None)"
proof
  fix y show "slot L t' y = ((slot L t)(rf := None)) y"
    using removed_old_slot [OF assms, of y] removed_live [OF assms]
    by (cases "y \<in> live t \<and> y \<noteq> rf") (auto simp: slot_def)
qed

lemma removed_live_ok:
  assumes "removed L rf t t'"
  shows "live_ok L t'"
proof -
  have "live_ok L t" "tab_used t' = tab_used t" using assms by (simp_all add: removed_def tab_okD)
  then show ?thesis using removed_old_slot [OF assms]
    by (simp add: live_ok_def removed_live [OF assms] in_data_def)
qed

lemma removed_sum:
  assumes "removed L rf t t'"
  shows "(\<Sum>y \<in> live t'. slot_size L t' y) + slot_size L t rf = tab_data_used t"
proof -
  have "(\<Sum>y \<in> live t'. slot_size L t' y) = (\<Sum>y \<in> live t - {rf}. slot_size L t y)"
    unfolding removed_live [OF assms] using removed_old_slot [OF assms] by (intro sum.cong) auto
  moreover have "rf \<in> live t" "tab_ok L t" using assms by (simp_all add: removed_def)
  ultimately show ?thesis by (simp add: tab_okD(6) sum.remove)
qed

lemma removed_free_keep:
  assumes rem: "removed L rf t t'" and fs: "free_ok L t []"
    and pos: "tab_data_free_pos t' = tab_data_free_pos t"
  shows "free_ok L t' []"
  using fs by (simp add: free_ok_def pos)

lemma removed_free_link:
  assumes rem: "removed L rf t t'" and fs: "free_ok L t fs" and p: "p = slot_pos t rf"
    and ll: "len_len L = 0" "4 \<le> fixed_key L + fixed_val L"
    and pos: "tab_data_free_pos t' = p" "SHF_U32_AT (tab_data t') (p + 5) = tab_data_free_pos t"
    and size: "slot_size L t rf = free_size L" and free: "tab_data_free t' = tab_data_free t + free_size L"
  shows "free_ok L t' (p # fs)"
proof -
  have r: "lens_ok L" "tab_ok L t" "rf \<in> live t" and u: "tab_used t' = tab_used t"
    and out: "same_outside p (free_size L) (tab_data t) (tab_data t')"
    using rem by (simp_all add: removed_def p size)
  note D = tab_okD [OF r(2)] and F = free_okD [OF fs]
  have inp: "in_data t p (free_size L)" using D(8) [OF r(3)] by (simp add: p size)
  have ap: "apart q (free_size L) p (free_size L)" if "q \<in> set fs" for q
    using F(5) [OF that r(3)] by (auto simp: p size apart_def)
  have "free_chain (tab_data t') (tab_data_free_pos t) fs = free_chain (tab_data t) (tab_data_free_pos t) fs"
  proof (rule free_chain_frame)
    fix q assume q: "q \<in> set fs"
    have "apart q 9 p (free_size L)" using ap [OF q] free_ok_size [OF r(1) fs q] by (auto simp: apart_def)
    then show "SHF_U32_AT (tab_data t') (q + 5) = SHF_U32_AT (tab_data t) (q + 5)"
      using out by (rule free_link_outside)
  qed
  then have "free_chain (tab_data t') (tab_data_free_pos t') (p # fs)"
    using F(1) pos inp by (simp add: in_data_def shf_const_eq)
  moreover have "apart (slot_pos t' y) (slot_size L t' y) q (free_size L)" if "q \<in> set (p # fs)" "y \<in> live t'" for q y
  proof -
    have y: "y \<in> live t" "y \<noteq> rf" using that(2) removed_live [OF rem] by auto
    have "apart (slot_pos t y) (slot_size L t y) p (free_size L)" using D(5) y r(3) by (simp add: live_ok_def p flip: size)
    then show ?thesis using F(5) [of q y] y that(1) removed_old_slot [OF rem y] by auto
  qed
  moreover have "in_data t' q (free_size L)" if "q \<in> set (p # fs)" for q
    using that inp F(4) [of q] u by (auto simp: in_data_def)
  moreover have "sorted_wrt (\<lambda>p q. apart p (free_size L) q (free_size L)) (p # fs)"
    using F(6) ap by (auto simp: apart_def)
  ultimately show ?thesis using ll F(7) free by (simp add: free_ok_def)
qed

lemma tab_delete_ok:
  assumes L: "lens_ok L" and ok: "tab_ok L t" and rf: "(r, f) \<in> live t"
    and kl: "kl = ref_key_len L (tab_data t) (slot_pos t (r, f))"
    and vl: "vl = ref_val_len L (tab_data t) (slot_pos t (r, f))"
    and t': "t' = tab_ref_mark_as_deleted (len_len L) r f kl vl t"
  shows "removed L (r, f) t t'" "tab_ok L t'" "tab_size t' = tab_size t"
    "tab_data_used t' = tab_data_used t - slot_size L t (r, f)"
proof -
  note D = tab_okD [OF ok]
  let ?p = "slot_pos t (r, f)"
  define n where "n = slot_size L t (r, f)"
  have n: "n = data_needed (len_len L) kl vl" by (simp add: n_def slot_size_def rec_size_def kl vl)
  have lt: "?p + n < 4294967296" "?p + n \<le> tab_used t"
    using D(8) [OF rf] D(2,3) by (simp_all add: in_data_def n_def)
  have fx: "kl = fixed_key L \<and> vl = fixed_val L" if "len_len L = 0"
    using that by (simp add: kl vl ref_key_len_def ref_val_len_def)
  have le: "n \<le> tab_data_used t" unfolding D(6) n_def by (rule member_le_sum [OF rf]) auto
  have sm: "tab_data_used t + tab_data_free t < 4294967296" using D by linarith
  note F = tab_delete_fields [OF L refl n le sm t']
  show rem: "removed L (r, f) t t'"
    using L ok rf F(1,5) deleted_outside [OF L refl n lt(1) fx t'] by (simp add: removed_def n_def fun_eq_iff)
  show u: "tab_size t' = tab_size t" "tab_data_used t' = tab_data_used t - slot_size L t (r, f)"
    using F by (simp_all add: n_def)
  obtain fs where fs: "free_ok L t fs" using ok by (auto simp: tab_ok_def)
  have "\<exists>fs. free_ok L t' fs"
  proof (cases "len_len L = 0 \<and> 4 \<le> fixed_key L + fixed_val L")
    case True
    moreover from this have "n = free_size L" using fx by (simp add: n data_needed_def free_size_def)
    moreover have "tab_data_free_pos t < 4294967296"
      using free_okD(1) [OF fs] free_okD(4) [OF fs, of "tab_data_free_pos t"] D(2,3)
      by (cases fs) (auto simp: in_data_def)
    ultimately show ?thesis
      using removed_free_link [OF rem fs refl] F(4,7) fx by (auto simp: n_def)
  next
    case False
    then have "fs = []" "len_len L = 4 \<or> kl + vl < 4"
      using fs lens_okD [OF L] fx by (auto simp: free_ok_def)
    then show ?thesis using removed_free_keep [OF rem] fs F(6) by auto
  qed
  moreover have "tab_data t' a = 0" if "tab_used t' \<le> a" for a
    using rem D(4) that lt F(1) by (simp add: removed_def same_outside_def n_def)
  moreover have "acct_ok L t'"
    using removed_sum [OF rem] D(7) le F by (simp add: acct_ok_def n_def)
  ultimately show "tab_ok L t'"
    using removed_live_ok [OF rem] D(1-3) F(1,2) by (auto simp: tab_ok_def header_ok_def)
qed

end
