(* ===== verification/Shf_Shm.thy ===== *)
theory Shf_Shm
  imports Shf_Tab
begin

text \<open>
  The shared memory of an instance and one process that has it attached: the tab files of each
  window, the window headers (\<open>SHF_WIN_MMAP\<close>), the mappings the process holds
  (\<open>SHF.tabs\<close>) and the thread local variables of \<open>shf.c\<close>. This theory holds the opening, creating
  and (re)mapping of tab files, and the well-formedness of all of it.

  A file is an inode: unlinking a path leaves its inode to those that have it mapped. A mapping is
  the number of an inode, 0 being the NULL pointer, and a size.
\<close>

section \<open>State\<close>

record win_mmap =
  win_tabs :: "nat \<Rightarrow> nat"
  tabs_used :: nat
  tabs_mmaps :: nat
  tabs_mremaps :: nat
  tabs_shrunk :: nat
  tabs_parted :: nat
  tabs_parted_old :: nat
  tabs_parted_new :: nat
  keylen_misses :: nat
  memcmp_misses :: nat

record off =
  off_mmap :: nat
  off_size :: nat

text \<open>What all processes share: the paths and inodes of tab files and the windows.\<close>

record shm =
  tab_file :: "nat \<Rightarrow> nat \<Rightarrow> nat option"
  inode :: "nat \<Rightarrow> tab_mmap"
  fsize :: "nat \<Rightarrow> nat"
  next_inode :: nat
  vfs_available :: nat
  wins :: "nat \<Rightarrow> win_mmap"

text \<open>What a process keeps of an attached instance (\<open>SHF\<close>), and what each of its threads keeps.\<close>

record proc = shm +
  tabs :: "nat \<Rightarrow> nat \<Rightarrow> off"
  is_fixed_key_val_len :: bool
  fixed_key_len :: nat
  fixed_val_len :: nat
  is_lockable :: nat
  count_mmap :: nat

record shf = proc +
  the_hash :: shf_hash
  shf_hash_key :: "byte list"
  shf_uid :: nat
  shf_key :: "byte list"
  shf_key_size :: nat
  shf_key_addr :: "(nat \<times> nat) option"
  shf_val :: "byte list"
  shf_val_size :: nat
  shf_val_addr :: "(nat \<times> nat) option"
  shf_val_long :: "64 word"
  shf_ttl :: nat
  shf_data_needed_factor :: nat
  shf_upd_callback_failsafe :: nat
  type_extended :: bool

text \<open>
  \<open>len_len\<close> is 0 in fixed length mode and the size of a length field otherwise.
\<close>

definition lens_of :: "shf \<Rightarrow> lens" where
  "lens_of s = \<lparr>len_len = (if is_fixed_key_val_len s then 0 else 4),
     fixed_key = fixed_key_len s, fixed_val = fixed_val_len s\<rparr>"

definition upd_win :: "nat \<Rightarrow> (win_mmap \<Rightarrow> win_mmap) \<Rightarrow> shf \<Rightarrow> shf" where
  "upd_win win g s = s\<lparr>wins := (wins s)(win := g (wins s win))\<rparr>"

definition upd_inode :: "nat \<Rightarrow> (tab_mmap \<Rightarrow> tab_mmap) \<Rightarrow> shf \<Rightarrow> shf" where
  "upd_inode i g s = s\<lparr>inode := (inode s)(i := g (inode s i))\<rparr>"

definition set_off :: "nat \<Rightarrow> nat \<Rightarrow> nat \<Rightarrow> nat \<Rightarrow> shf \<Rightarrow> shf" where
  "set_off win tab i n s =
     s\<lparr>tabs := (tabs s)(win := (tabs s win)(tab := \<lparr>off_mmap = i, off_size = n\<rparr>))\<rparr>"

section \<open>Files\<close>

text \<open>\<open>open(file, O_RDWR | O_CREAT)\<close> and \<open>ftruncate\<close>; a byte past the new end is lost.\<close>

definition open_creat :: "nat \<Rightarrow> nat \<Rightarrow> shf \<Rightarrow> nat \<times> shf" where
  "open_creat win tab s = (case tab_file s win tab of
     Some i \<Rightarrow> (i, s)
   | None \<Rightarrow> (let i = next_inode s in
       (i, s\<lparr>tab_file := (tab_file s)(win := (tab_file s win)(tab := Some i)),
             inode := (inode s)(i := zero_tab), fsize := (fsize s)(i := 0), next_inode := i + 1\<rparr>)))"

definition ftruncate :: "nat \<Rightarrow> nat \<Rightarrow> shf \<Rightarrow> shf" where
  "ftruncate i n s = (upd_inode i (\<lambda>t. t\<lparr>tab_data := (\<lambda>a. if a < n then tab_data t a else 0)\<rparr>) s)
     \<lparr>fsize := (fsize s)(i := n)\<rparr>"

definition unlink :: "nat \<Rightarrow> nat \<Rightarrow> shf \<Rightarrow> shf_error + shf" where
  "unlink win tab s = (case tab_file s win tab of
     None \<Rightarrow> Inl Unlink_failed
   | Some i \<Rightarrow> Inr (s\<lparr>tab_file := (tab_file s)(win := (tab_file s win)(tab := None))\<rparr>))"

definition stat_size :: "nat \<Rightarrow> nat \<Rightarrow> shf \<Rightarrow> shf_error + nat" where
  "stat_size win tab s = (case tab_file s win tab of None \<Rightarrow> Inl Stat_failed | Some i \<Rightarrow> Inr (fsize s i))"

definition shf_tab_create :: "nat \<Rightarrow> nat \<Rightarrow> shf \<Rightarrow> shf" where
  "shf_tab_create win tab s =
     (let (i, s) = open_creat win tab s in ftruncate i (SHF_MOD_PAGE TAB_DATA_OFFSET) s)"

section \<open>Mapping a tab\<close>

text \<open>
  \<open>SHF_GET_TAB_MMAP\<close> in its three parts: map the file when the process has no mapping of it,
  initialise the header of a file that is still all zero, and follow a change of size made by
  another process. The size 1 in a header says that the file was replaced.
\<close>

definition first_mmap :: "nat \<Rightarrow> nat \<Rightarrow> shf \<Rightarrow> shf_error + shf" where
  "first_mmap win tab s =
     (if off_mmap (tabs s win tab) = 0 then
        bindE (stat_size win tab s) (\<lambda>st_size.
        bindE (assertE (st_size = SHF_MOD_PAGE st_size) Bad_file_size) (\<lambda>_.
        let (i, s) = open_creat win tab s;
            s = s\<lparr>count_mmap := u32 (count_mmap s + 1)\<rparr>;
            s = set_off win tab i (u32 st_size) s
        in Inr (upd_win win (\<lambda>w. w\<lparr>tabs_mmaps := u64 (tabs_mmaps w + 1)\<rparr>) s)))
      else Inr s)"

definition init_header :: "nat \<Rightarrow> nat \<Rightarrow> shf \<Rightarrow> shf" where
  "init_header win tab s =
     (let i = off_mmap (tabs s win tab) in
      if tab_size (inode s i) = 0
      then upd_inode i (\<lambda>t. t\<lparr>tab_size := off_size (tabs s win tab), tab_used := TAB_DATA_OFFSET\<rparr>) s
      else s)"

text \<open>
  The last byte is counted up and down again after a change of size, so that a mapping that is too short
  stops the process there.
\<close>

definition touch_last :: "nat \<Rightarrow> nat \<Rightarrow> shf \<Rightarrow> shf" where
  "touch_last i n s =
     (let s = upd_inode i (\<lambda>t. t\<lparr>tab_data := put_U08_AT (n - 1) (SHF_U08_AT (tab_data t) (n - 1) + 1) (tab_data t)\<rparr>) s
      in upd_inode i (\<lambda>t. t\<lparr>tab_data := put_U08_AT (n - 1) (SHF_U08_AT (tab_data t) (n - 1) - 1) (tab_data t)\<rparr>) s)"

lemma touch_last_id [simp]: "touch_last i n s = s"
  by (simp add: touch_last_def Let_def upd_inode_def put_U08_AT_def SHF_U08_AT_def)

definition follow_size :: "nat \<Rightarrow> nat \<Rightarrow> shf \<Rightarrow> shf_error + nat \<times> shf" where
  "follow_size win tab s =
     (let i = off_mmap (tabs s win tab); new_tab_size = tab_size (inode s i) in
      if off_size (tabs s win tab) = new_tab_size then Inr (i, s)
      else if new_tab_size = 1 then
        bindE (stat_size win tab s) (\<lambda>st_size.
        let new_tab_size = u32 st_size;
            (j, s) = open_creat win tab s;
            s = upd_win win (\<lambda>w. w\<lparr>tabs_mmaps := u64 (tabs_mmaps w + 1)\<rparr>) s
        in Inr (j, set_off win tab j new_tab_size (touch_last j new_tab_size s)))
      else Inr (i, set_off win tab i new_tab_size (touch_last i new_tab_size
        (upd_win win (\<lambda>w. w\<lparr>tabs_mremaps := u64 (tabs_mremaps w + 1)\<rparr>) s))))"

text \<open>
  \<open>shf->tabs[win]\<close> has an entry for each of the \<open>2048\<close> tables that a window can have. The code does not
  look whether the index is one of them. An index past the end is undefined behaviour, so the model goes no
  further; the assertion that the code has for it, "tab overflow", comes only after the access.
\<close>

definition get_tab_mmap :: "nat \<Rightarrow> nat \<Rightarrow> shf \<Rightarrow> shf_error + nat \<times> shf" where
  "get_tab_mmap win tab s =
     bindE (assertE (tab < SHF_TABS_PER_WIN) Tab_overflow) (\<lambda>_.
     bindE (first_mmap win tab s) (\<lambda>s. follow_size win tab (init_header win tab s)))"

section \<open>Well-formedness\<close>

text \<open>The table behind a path.\<close>

definition table :: "'a shm_scheme \<Rightarrow> nat \<Rightarrow> nat \<Rightarrow> tab_mmap" where
  "table s win tab = (case tab_file s win tab of None \<Rightarrow> zero_tab | Some i \<Rightarrow> inode s i)"

text \<open>
  A tab file has been created and not yet used by any process, or its header is initialised and
  agrees with the size of the file.
\<close>

definition inode_ok :: "lens \<Rightarrow> tab_mmap \<Rightarrow> nat \<Rightarrow> bool" where
  "inode_ok L t n \<longleftrightarrow> n = SHF_MOD_PAGE n \<and> 69632 \<le> n
     \<and> (t = zero_tab \<and> n = 69632 \<or> tab_ok L t \<and> tab_size t = n)"

text \<open>The records of a table belong to table indexes that the window directs to it.\<close>

definition routed :: "win_mmap \<Rightarrow> nat \<Rightarrow> tab_mmap \<Rightarrow> bool" where
  "routed w tab t \<longleftrightarrow> (\<forall>rf \<in> live t. ref_tab (tab_row t (fst rf) (snd rf)) < SHF_TABS_PER_WIN
     \<and> ref_rnd (tab_row t (fst rf) (snd rf)) < 2 ^ (32 - SHF_TABS_PER_WIN_BITS)
     \<and> win_tabs w (ref_tab (tab_row t (fst rf) (snd rf))) = tab)"

definition files_ok :: "lens \<Rightarrow> 'a shm_scheme \<Rightarrow> bool" where
  "files_ok L s \<longleftrightarrow> 0 < next_inode s
     \<and> (\<forall>win tab i. tab_file s win tab = Some i \<longrightarrow> 0 < i \<and> i < next_inode s \<and> inode_ok L (inode s i) (fsize s i))
     \<and> (\<forall>win tab win' tab' i. tab_file s win tab = Some i \<and> tab_file s win' tab' = Some i \<longrightarrow> win = win' \<and> tab = tab')
     \<and> (\<forall>win < SHF_WINS_PER_SHF. tabs_used (wins s win) \<le> SHF_TABS_PER_WIN
          \<and> (\<forall>tab. tab_file s win tab \<noteq> None \<longleftrightarrow> tab < tabs_used (wins s win))
          \<and> (\<forall>tab2 < SHF_TABS_PER_WIN. win_tabs (wins s win) tab2 < tabs_used (wins s win)))"

definition routes_ok :: "'a shm_scheme \<Rightarrow> bool" where
  "routes_ok s \<longleftrightarrow> (\<forall>win < SHF_WINS_PER_SHF. \<forall>tab. routed (wins s win) tab (table s win tab))"

text \<open>
  The mappings of one process against the files: a mapping is of the current file of its path, or
  of a file that was replaced and whose header says so.
\<close>

definition mapping_ok :: "'a shm_scheme \<Rightarrow> nat \<Rightarrow> nat \<Rightarrow> off \<Rightarrow> bool" where
  "mapping_ok s win tab m \<longleftrightarrow> off_mmap m = 0
     \<or> 4096 \<le> off_size m \<and> off_mmap m < next_inode s \<and> (\<exists>j. tab_file s win tab = Some j
       \<and> tab_size (inode s j) \<noteq> 0
       \<and> (off_mmap m = j \<or> tab_size (inode s (off_mmap m)) = 1 \<and> (\<forall>w t. tab_file s w t \<noteq> Some (off_mmap m))))"

definition coherent :: "'a shm_scheme \<Rightarrow> (nat \<Rightarrow> nat \<Rightarrow> off) \<Rightarrow> bool" where
  "coherent s m \<longleftrightarrow> (\<forall>win < SHF_WINS_PER_SHF. \<forall>tab. mapping_ok s win tab (m win tab))"

text \<open>
  What an instance stores: under each UID (window, table index, row and reference) the hash bits, the
  key and the value of a record.
\<close>

type_synonym coord = "nat \<times> nat \<times> nat \<times> nat"

definition kv :: "lens \<Rightarrow> 'a shm_scheme \<Rightarrow> coord \<Rightarrow> (nat \<times> byte list \<times> byte list) option" where
  "kv L s = (\<lambda>(win, tab2, row, ref).
     case slot L (table s win (win_tabs (wins s win) tab2)) (row, ref) of
       None \<Rightarrow> None
     | Some (tab, rnd, key, val) \<Rightarrow> if tab = tab2 then Some (rnd, key, val) else None)"

section \<open>What an operation leaves alone\<close>

text \<open>Only the shared memory, the mappings and their number have changed; routing has not.\<close>

definition same_thread :: "shf \<Rightarrow> shf \<Rightarrow> bool" where
  "same_thread s s' \<longleftrightarrow> s' = s\<lparr>tab_file := tab_file s', inode := inode s', fsize := fsize s',
     next_inode := next_inode s', wins := wins s', tabs := tabs s', count_mmap := count_mmap s'\<rparr>"

definition same_routes :: "shf \<Rightarrow> shf \<Rightarrow> bool" where
  "same_routes s s' \<longleftrightarrow> (\<forall>w. win_tabs (wins s' w) = win_tabs (wins s w) \<and> tabs_used (wins s' w) = tabs_used (wins s w))"

lemma same_threadD:
  assumes "same_thread s s'"
  shows "vfs_available s' = vfs_available s" "lens_of s' = lens_of s"
    "shf_data_needed_factor s' = shf_data_needed_factor s" "type_extended s' = type_extended s"
    "the_hash s' = the_hash s" "shf_hash_key s' = shf_hash_key s" "is_fixed_key_val_len s' = is_fixed_key_val_len s"
    "fixed_key_len s' = fixed_key_len s" "fixed_val_len s' = fixed_val_len s" "shf_val_long s' = shf_val_long s"
    "shf_ttl s' = shf_ttl s" "shf_upd_callback_failsafe s' = shf_upd_callback_failsafe s"
proof -
  define s'' where "s'' = s'"
  have e: "s' = s\<lparr>tab_file := tab_file s'', inode := inode s'', fsize := fsize s'',
     next_inode := next_inode s'', wins := wins s'', tabs := tabs s'', count_mmap := count_mmap s''\<rparr>"
    using assms by (simp add: same_thread_def s''_def)
  show "vfs_available s' = vfs_available s" "lens_of s' = lens_of s"
    "shf_data_needed_factor s' = shf_data_needed_factor s" "type_extended s' = type_extended s"
    "the_hash s' = the_hash s" "shf_hash_key s' = shf_hash_key s" "is_fixed_key_val_len s' = is_fixed_key_val_len s"
    "fixed_key_len s' = fixed_key_len s" "fixed_val_len s' = fixed_val_len s" "shf_val_long s' = shf_val_long s"
    "shf_ttl s' = shf_ttl s" "shf_upd_callback_failsafe s' = shf_upd_callback_failsafe s"
    by (simp_all add: e lens_of_def)
qed

lemma same_thread_refl [simp]: "same_thread s s"
  by (simp add: same_thread_def)

lemma same_thread_trans: "same_thread s s' \<Longrightarrow> same_thread s' s'' \<Longrightarrow> same_thread s s''"
  by (cases s, cases s', cases s'') (simp add: same_thread_def)

lemma same_routes_refl [simp]: "same_routes s s"
  by (simp add: same_routes_def)

lemma same_routes_trans: "same_routes s s' \<Longrightarrow> same_routes s' s'' \<Longrightarrow> same_routes s s''"
  by (simp add: same_routes_def)

lemma zero_tab_live [simp]: "live zero_tab = {}"
  by (simp add: live_def slot_pos_def zero_tab_def mk_ref_def)

lemma zero_tab_slot [simp]: "slot L zero_tab = (\<lambda>_. None)"
  by (simp add: slot_def fun_eq_iff)

definition init_tab :: "nat \<Rightarrow> tab_mmap" where
  "init_tab n = zero_tab\<lparr>tab_size := n, tab_used := TAB_DATA_OFFSET\<rparr>"

lemma init_tab_live [simp]: "live (init_tab n) = {}"
  using zero_tab_live by (simp add: live_def slot_pos_def init_tab_def)

lemma init_tab_slot [simp]: "slot L (init_tab n) = (\<lambda>_. None)"
  by (simp add: slot_def fun_eq_iff)

lemma init_tab_fields [simp]:
  "tab_size (init_tab n) = n" "tab_used (init_tab n) = 65560" "tab_data_free_pos (init_tab n) = 0"
  "tab_data_free (init_tab n) = 0" "tab_data_used (init_tab n) = 0"
  by (simp_all add: init_tab_def zero_tab_def shf_const_eq)

lemma init_tab_ok: "65560 \<le> n \<Longrightarrow> n < 4294967296 \<Longrightarrow> tab_ok L (init_tab n)"
proof -
  assume "65560 \<le> n" "n < 4294967296"
  then have "header_ok (init_tab n)" "live_ok L (init_tab n)" "acct_ok L (init_tab n)" "free_ok L (init_tab n) []"
    by (simp_all add: header_ok_def live_ok_def acct_ok_def free_ok_def shf_const_eq)
      (simp add: init_tab_def zero_tab_def)
  then show ?thesis by (auto simp: tab_ok_def)
qed

lemma inode_okD:
  assumes "inode_ok L t n" "tab_size t \<noteq> 0"
  shows "tab_ok L t" "tab_size t = n" "n = SHF_MOD_PAGE n" "69632 \<le> n" "n < 4294967296"
proof -
  show "tab_ok L t" using assms by (auto simp: inode_ok_def zero_tab_def)
  moreover show "tab_size t = n" "n = SHF_MOD_PAGE n" "69632 \<le> n"
    using assms by (auto simp: inode_ok_def zero_tab_def)
  ultimately show "n < 4294967296" using tab_okD(3) by blast
qed

lemma tab_ok_size_nonzero: "tab_ok L t \<Longrightarrow> 65560 \<le> tab_size t"
  using tab_okD(1,2) [of L t] by (simp add: shf_const_eq)

lemma inode_ok_fresh: "inode_ok L t n \<Longrightarrow> tab_size t = 0 \<Longrightarrow> t = zero_tab \<and> n = 69632"
  using tab_ok_size_nonzero by (fastforce simp: inode_ok_def)

lemma files_okD:
  assumes "files_ok L s"
  shows "tab_file s win tab = Some i \<Longrightarrow> 0 < i" "tab_file s win tab = Some i \<Longrightarrow> i < next_inode s"
    "tab_file s win tab = Some i \<Longrightarrow> inode_ok L (inode s i) (fsize s i)"
    "tab_file s win tab = Some i \<Longrightarrow> tab_file s win' tab' = Some i \<Longrightarrow> win' = win \<and> tab' = tab"
    "win < 256 \<Longrightarrow> tabs_used (wins s win) \<le> 2048"
    "win < 256 \<Longrightarrow> tab < tabs_used (wins s win) \<Longrightarrow> \<exists>i. tab_file s win tab = Some i"
    "win < 256 \<Longrightarrow> tabs_used (wins s win) \<le> tab \<Longrightarrow> tab_file s win tab = None"
    "win < 256 \<Longrightarrow> tab2 < 2048 \<Longrightarrow> win_tabs (wins s win) tab2 < tabs_used (wins s win)"
    "0 < next_inode s"
proof -
  have a: "\<forall>win tab i. tab_file s win tab = Some i \<longrightarrow> 0 < i \<and> i < next_inode s \<and> inode_ok L (inode s i) (fsize s i)"
    and b: "\<forall>win tab win' tab' i. tab_file s win tab = Some i \<and> tab_file s win' tab' = Some i \<longrightarrow> win = win' \<and> tab = tab'"
    and c: "\<forall>win < 256. tabs_used (wins s win) \<le> 2048
          \<and> (\<forall>tab. tab_file s win tab \<noteq> None \<longleftrightarrow> tab < tabs_used (wins s win))
          \<and> (\<forall>tab2 < 2048. win_tabs (wins s win) tab2 < tabs_used (wins s win))"
    and d: "0 < next_inode s"
    using assms unfolding files_ok_def shf_const_eq by (fact | blast)+
  show "0 < next_inode s" by (fact d)
  show "0 < i" "i < next_inode s" "inode_ok L (inode s i) (fsize s i)" if "tab_file s win tab = Some i"
    using a that by blast+
  show "win' = win \<and> tab' = tab" if "tab_file s win tab = Some i" "tab_file s win' tab' = Some i"
    using b that by blast
  show "tabs_used (wins s win) \<le> 2048" if "win < 256" using c that by blast
  show "\<exists>i. tab_file s win tab = Some i" if "win < 256" "tab < tabs_used (wins s win)" using c that by blast
  show "tab_file s win tab = None" if "win < 256" "tabs_used (wins s win) \<le> tab"
    using c that not_le by blast
  show "win_tabs (wins s win) tab2 < tabs_used (wins s win)" if "win < 256" "tab2 < 2048" using c that by blast
qed

lemma files_okI:
  assumes "0 < next_inode s"
    "\<And>win tab i. tab_file s win tab = Some i \<Longrightarrow> 0 < i \<and> i < next_inode s \<and> inode_ok L (inode s i) (fsize s i)"
    "\<And>win tab win' tab' i. tab_file s win tab = Some i \<Longrightarrow> tab_file s win' tab' = Some i \<Longrightarrow> win = win' \<and> tab = tab'"
    "\<And>win. win < 256 \<Longrightarrow> tabs_used (wins s win) \<le> 2048"
    "\<And>win tab. win < 256 \<Longrightarrow> tab_file s win tab \<noteq> None \<longleftrightarrow> tab < tabs_used (wins s win)"
    "\<And>win tab2. win < 256 \<Longrightarrow> tab2 < 2048 \<Longrightarrow> win_tabs (wins s win) tab2 < tabs_used (wins s win)"
  shows "files_ok L s"
  unfolding files_ok_def shf_const_eq using assms by blast

text \<open>Changing the contents of tab files keeps the rest.\<close>

lemma files_ok_contents:
  assumes ok: "files_ok L s" and same: "tab_file s' = tab_file s" "next_inode s' = next_inode s" "same_routes s s'"
    and new: "\<And>win tab i. tab_file s win tab = Some i \<Longrightarrow> inode_ok L (inode s' i) (fsize s' i)"
  shows "files_ok L s'"
proof (rule files_okI)
  note D = files_okD [OF ok]
  have w: "win_tabs (wins s' w) = win_tabs (wins s w)" "tabs_used (wins s' w) = tabs_used (wins s w)" for w
    using same(3) by (simp_all add: same_routes_def)
  show "0 < next_inode s'" using D(9) same by simp
  show "0 < i \<and> i < next_inode s' \<and> inode_ok L (inode s' i) (fsize s' i)" if "tab_file s' win tab = Some i" for win tab i
    using D(1,2) new that same by simp
  show "win = win' \<and> tab = tab'" if "tab_file s' win tab = Some i" "tab_file s' win' tab' = Some i" for win tab win' tab' i
    using D(4) [of win tab i win' tab'] that same by simp
  show "tabs_used (wins s' win) \<le> 2048" if "win < 256" for win using D(5) that by (simp add: w)
  show "tab_file s' win tab \<noteq> None \<longleftrightarrow> tab < tabs_used (wins s' win)" if "win < 256" for win tab
    using D(6,7) [OF that, of tab] same by (cases "tab < tabs_used (wins s win)") (auto simp: w)
  show "win_tabs (wins s' win) tab2 < tabs_used (wins s' win)" if "win < 256" "tab2 < 2048" for win tab2
    using D(8) that by (simp add: w)
qed

lemma coherent_contents:
  assumes m: "coherent s m" and same: "tab_file s' = tab_file s" "next_inode s' = next_inode s"
    and new: "\<And>win tab i. tab_file s win tab = Some i \<Longrightarrow> tab_size (inode s i) \<noteq> 0 \<Longrightarrow> tab_size (inode s' i) \<noteq> 0"
    and old: "\<And>i. (\<forall>w t. tab_file s w t \<noteq> Some i) \<Longrightarrow> tab_size (inode s i) = 1 \<Longrightarrow> tab_size (inode s' i) = 1"
  shows "coherent s' m"
  using m new old unfolding coherent_def mapping_ok_def same by metis

lemma routes_ok_contents:
  assumes ok: "routes_ok s" and same: "same_routes s s'"
    and new: "\<And>win tab. win < 256 \<Longrightarrow> table s' win tab = table s win tab \<or> routed (wins s win) tab (table s' win tab)"
  shows "routes_ok s'"
proof -
  have "routed (wins s' w) = routed (wins s w)" for w
    using same by (simp add: routed_def same_routes_def fun_eq_iff)
  then have "routed (wins s' win) tab (table s' win tab)" if "win < 256" for win tab
    using new [OF that, of tab] ok that by (auto simp: routes_ok_def shf_const_eq)
  then show ?thesis by (simp add: routes_ok_def shf_const_eq)
qed

text \<open>The routing of a table in terms of its slots.\<close>

lemma slot_Some_iff:
  "slot L t rf = Some (t2, rnd, k, v) \<longleftrightarrow> rf \<in> live t \<and> t2 = ref_tab (tab_row t (fst rf) (snd rf))
     \<and> rnd = ref_rnd (tab_row t (fst rf) (snd rf)) \<and> k = ref_key L (tab_data t) (slot_pos t rf)
     \<and> v = ref_val L (tab_data t) (slot_pos t rf)"
  by (auto simp: slot_def Let_def slot_pos_def)

lemma slot_None_iff: "slot L t rf = None \<longleftrightarrow> rf \<notin> live t"
  by (simp add: slot_def Let_def)

lemma live_slot: "live t = dom (slot L t)"
  by (rule set_eqI) (simp only: domIff slot_None_iff simp_thms not_not)

lemma routed_slot:
  "routed w tab t \<longleftrightarrow> (\<forall>rf t2 rnd k v. slot L t rf = Some (t2, rnd, k, v)
     \<longrightarrow> t2 < 2048 \<and> rnd < 2097152 \<and> win_tabs w t2 = tab)"
  by (auto simp: routed_def slot_Some_iff shf_const)

lemma routed_empty [simp]: "routed w tab zero_tab" "routed w tab (init_tab n)"
  by (simp_all add: routed_def)

section \<open>Getting a mapping\<close>

definition init_of :: "tab_mmap \<Rightarrow> tab_mmap" where
  "init_of t = (if tab_size t = 0 then init_tab 69632 else t)"

lemma init_of_ok:
  assumes "inode_ok L t n"
  shows "inode_ok L (init_of t) n" "tab_size (init_of t) \<noteq> 0" "slot L (init_of t) = slot L t" "live (init_of t) = live t"
    "tab_size (init_of t) = n" "tab_ok L (init_of t)"
proof -
  have "tab_size t = 0 \<longleftrightarrow> t = zero_tab \<and> n = 69632"
    using inode_ok_fresh [OF assms] by (auto simp: zero_tab_def)
  then show "inode_ok L (init_of t) n" "tab_size (init_of t) \<noteq> 0" "slot L (init_of t) = slot L t"
    "live (init_of t) = live t" "tab_size (init_of t) = n" "tab_ok L (init_of t)"
    using assms init_tab_ok inode_okD(1,2) [OF assms] by (auto simp: init_of_def inode_ok_def)
qed

text \<open>What a call of \<open>SHF_GET_TAB_MMAP\<close> comes to, whatever the process had mapped before.\<close>

definition got_tab :: "nat \<Rightarrow> nat \<Rightarrow> nat \<Rightarrow> shf \<Rightarrow> shf \<Rightarrow> bool" where
  "got_tab win tab i s s' \<longleftrightarrow> same_thread s s' \<and> same_routes s s' \<and> tab_file s' = tab_file s
     \<and> next_inode s' = next_inode s \<and> fsize s' = fsize s \<and> inode s' = (inode s)(i := init_of (inode s i))
     \<and> (\<forall>w t. (w, t) \<noteq> (win, tab) \<longrightarrow> tabs s' w t = tabs s w t)
     \<and> tabs s' win tab = \<lparr>off_mmap = i, off_size = tab_size (inode s' i)\<rparr>"

lemma upd_win_simps [simp]:
  "tab_file (upd_win w g s) = tab_file s" "inode (upd_win w g s) = inode s" "fsize (upd_win w g s) = fsize s"
  "next_inode (upd_win w g s) = next_inode s" "tabs (upd_win w g s) = tabs s"
  "wins (upd_win w g s) = (wins s)(w := g (wins s w))"
  "same_thread s (upd_win w g s)"
  by (simp_all add: upd_win_def same_thread_def)

lemma set_off_simps [simp]:
  "tab_file (set_off w t i n s) = tab_file s" "inode (set_off w t i n s) = inode s" "fsize (set_off w t i n s) = fsize s"
  "next_inode (set_off w t i n s) = next_inode s" "wins (set_off w t i n s) = wins s"
  "tabs (set_off w t i n s) = (tabs s)(w := (tabs s w)(t := \<lparr>off_mmap = i, off_size = n\<rparr>))"
  "same_thread s (set_off w t i n s)"
  by (simp_all add: set_off_def same_thread_def)

lemma upd_inode_simps [simp]:
  "tab_file (upd_inode i g s) = tab_file s" "inode (upd_inode i g s) = (inode s)(i := g (inode s i))"
  "fsize (upd_inode i g s) = fsize s" "next_inode (upd_inode i g s) = next_inode s"
  "tabs (upd_inode i g s) = tabs s" "wins (upd_inode i g s) = wins s" "same_thread s (upd_inode i g s)"
  by (simp_all add: upd_inode_def same_thread_def)

lemma open_creat_existing: "tab_file s win tab = Some i \<Longrightarrow> open_creat win tab s = (i, s)"
  by (simp add: open_creat_def)

lemma fsize_bound: "inode_ok L t n \<Longrightarrow> n < 4294967296"
  using tab_okD(3) [of L t] by (auto simp: inode_ok_def)

lemma get_tab_unmapped:
  assumes f: "tab_file s win tab = Some i" and ok: "inode_ok L (inode s i) (fsize s i)"
    and m: "off_mmap (tabs s win tab) = 0"
    and "tab < 2048"
  shows "\<exists>s'. get_tab_mmap win tab s = Inr (i, s') \<and> got_tab win tab i s s'"
proof -
  have n: "fsize s i = SHF_MOD_PAGE (fsize s i)" "u32 (fsize s i) = fsize s i"
    using ok fsize_bound [OF ok] by (auto simp: inode_ok_def)
  define s1 where "s1 = upd_win win (\<lambda>w. w\<lparr>tabs_mmaps := u64 (tabs_mmaps w + 1)\<rparr>)
    (set_off win tab i (fsize s i) (s\<lparr>count_mmap := u32 (count_mmap s + 1)\<rparr>))"
  have e: "first_mmap win tab s = Inr s1"
    using n m by (simp add: first_mmap_def stat_size_def f open_creat_existing s1_def assertE_def)
  have s1: "same_thread s s1" "same_routes s s1" "tab_file s1 = tab_file s" "next_inode s1 = next_inode s"
    "fsize s1 = fsize s" "inode s1 = inode s"
    "tabs s1 = (tabs s)(win := (tabs s win)(tab := \<lparr>off_mmap = i, off_size = fsize s i\<rparr>))"
    by (simp_all add: s1_def same_routes_def) (simp add: same_thread_def upd_win_def set_off_def)
  define s2 where "s2 = init_header win tab s1"
  have zero: "tab_size (inode s i) = 0 \<Longrightarrow> inode s i = zero_tab \<and> fsize s i = 69632"
    using inode_ok_fresh [OF ok] by blast
  have s2: "same_thread s s2" "same_routes s s2" "tab_file s2 = tab_file s" "next_inode s2 = next_inode s"
    "fsize s2 = fsize s" "inode s2 = (inode s)(i := init_of (inode s i))" "tabs s2 = tabs s1"
    using s1 zero by (auto simp: s2_def init_header_def init_of_def init_tab_def same_routes_def
        intro: same_thread_trans)
  have "tab_size (inode s2 i) = fsize s i" using init_of_ok(5) [OF ok] s2 by simp
  then have "follow_size win tab s2 = Inr (i, s2)" using s1 s2 by (simp add: follow_size_def)
  moreover have "got_tab win tab i s s2"
    using s1 s2 \<open>tab_size (inode s2 i) = fsize s i\<close> by (simp add: got_tab_def)
  ultimately show ?thesis using assms(4) by (simp add: get_tab_mmap_def e s2_def assertE_def shf_const_eq)
qed

lemma get_tab_mapped:
  assumes f: "tab_file s win tab = Some i" and ok: "inode_ok L (inode s i) (fsize s i)"
    and m: "mapping_ok s win tab (tabs s win tab)" "off_mmap (tabs s win tab) \<noteq> 0"
    and "tab < 2048"
  shows "\<exists>s'. get_tab_mmap win tab s = Inr (i, s') \<and> got_tab win tab i s s'"
proof -
  let ?k = "off_mmap (tabs s win tab)"
  have nz: "tab_size (inode s i) \<noteq> 0" and k: "?k = i \<or> tab_size (inode s ?k) = 1"
    using m f by (auto simp: mapping_ok_def)
  have big: "tab_size (inode s i) \<noteq> 1" and n: "tab_size (inode s i) = fsize s i" "u32 (fsize s i) = fsize s i"
    using inode_okD [OF ok nz] by auto
  have e: "first_mmap win tab s = Inr s" "init_header win tab s = s" "assertE (tab < SHF_TABS_PER_WIN) Tab_overflow = Inr ()"
    using m(2) k nz \<open>tab < 2048\<close> by (auto simp: first_mmap_def init_header_def shf_const_eq)
  have i: "(inode s)(i := init_of (inode s i)) = inode s" using nz by (simp add: init_of_def)
  have sr: "same_routes s (set_off win tab i n (upd_win win (\<lambda>w. w\<lparr>tabs_mmaps := c w\<rparr>) s))"
    "same_routes s (set_off win tab i n (upd_win win (\<lambda>w. w\<lparr>tabs_mremaps := c w\<rparr>) s))" for n c
    by (simp_all add: same_routes_def)
  have st: "same_thread s (set_off win tab i n (upd_win win g s))" for n g
    by (rule same_thread_trans [of _ "upd_win win g s"]) simp_all
  consider "?k = i" "off_size (tabs s win tab) = tab_size (inode s i)"
    | "?k = i" "off_size (tabs s win tab) \<noteq> tab_size (inode s i)"
    | "?k \<noteq> i" "tab_size (inode s ?k) = 1" "off_size (tabs s win tab) = 1"
    | "?k \<noteq> i" "tab_size (inode s ?k) = 1" "off_size (tabs s win tab) \<noteq> 1"
    using k by blast
  then show ?thesis
  proof cases
    case 1
    then have "got_tab win tab i s s" by (simp add: got_tab_def i)
    with 1 show ?thesis by (auto simp: get_tab_mmap_def e follow_size_def)
  next
    case 2
    then show ?thesis using big i sr st
      by (simp add: get_tab_mmap_def e follow_size_def got_tab_def nz init_of_def)
  next
    case 3
    then show ?thesis using m by (simp add: mapping_ok_def)
  next
    case 4
    then show ?thesis using i sr st
      by (simp add: get_tab_mmap_def e follow_size_def stat_size_def f open_creat_existing got_tab_def nz init_of_def n)
  qed
qed

lemma get_tab_mmap_ok:
  assumes ok: "files_ok L s" "coherent s (tabs s)" and b: "win < 256" "tab < tabs_used (wins s win)"
  shows "\<exists>i s'. tab_file s win tab = Some i \<and> get_tab_mmap win tab s = Inr (i, s') \<and> got_tab win tab i s s'"
proof -
  obtain i where i: "tab_file s win tab = Some i" using files_okD(6) [OF ok(1) b] by blast
  have io: "inode_ok L (inode s i) (fsize s i)" using files_okD(3) [OF ok(1) i] .
  have m: "mapping_ok s win tab (tabs s win tab)" using ok(2) b(1) by (simp add: coherent_def shf_const_eq)
  have t: "tab < 2048" using files_okD(5) [OF ok(1) b(1)] b(2) by simp
  show ?thesis
    using get_tab_unmapped [OF i io _ t] get_tab_mapped [OF i io m _ t] i by blast
qed

section \<open>Replacing the contents of a table\<close>

definition set_table :: "nat \<Rightarrow> nat \<Rightarrow> nat \<Rightarrow> tab_mmap \<Rightarrow> shf \<Rightarrow> shf \<Rightarrow> bool" where
  "set_table win tab i t' s s' \<longleftrightarrow> tab_file s win tab = Some i \<and> tab_file s' = tab_file s
     \<and> next_inode s' = next_inode s \<and> inode s' = (inode s)(i := t') \<and> (\<forall>j. j \<noteq> i \<longrightarrow> fsize s' j = fsize s j)
     \<and> same_routes s s'"

text \<open>The process has the table mapped, with the size its header says.\<close>

definition mapped :: "nat \<Rightarrow> nat \<Rightarrow> nat \<Rightarrow> shf \<Rightarrow> shf \<Rightarrow> bool" where
  "mapped win tab i s s' \<longleftrightarrow> (\<forall>w t. (w, t) \<noteq> (win, tab) \<longrightarrow> tabs s' w t = tabs s w t)
     \<and> tabs s' win tab = \<lparr>off_mmap = i, off_size = tab_size (inode s' i)\<rparr>"

lemma mapped_trans: "mapped win tab i s s' \<Longrightarrow> mapped win tab j s' s'' \<Longrightarrow> mapped win tab j s s''"
  by (auto simp: mapped_def)

lemma table_Some: "tab_file s win tab = Some i \<Longrightarrow> table s win tab = inode s i"
  by (simp add: table_def)

lemma set_table_table:
  assumes "set_table win tab i t' s s'" "files_ok L s"
  shows "table s' = (table s)(win := (table s win)(tab := t'))"
  using assms files_okD(4) [OF assms(2)]
  by (auto simp: fun_eq_iff table_def set_table_def split: option.split)

lemma set_table_files_ok:
  assumes st: "set_table win tab i t' s s'" and ok: "files_ok L s"
    and t': "inode_ok L t' (fsize s' i)" "tab_size t' \<noteq> 0"
  shows "files_ok L s'" "coherent s m \<Longrightarrow> coherent s' m"
proof -
  have same: "tab_file s' = tab_file s" "next_inode s' = next_inode s" "same_routes s s'"
    and i: "inode s' = (inode s)(i := t')" "\<And>j. j \<noteq> i \<Longrightarrow> fsize s' j = fsize s j" "tab_file s win tab = Some i"
    using st by (simp_all add: set_table_def)
  show "files_ok L s'"
    using files_okD(3) [OF ok] i t' by (intro files_ok_contents [OF ok same]) (metis fun_upd_apply)
  show "coherent s' m" if "coherent s m"
    using i t'(2) by (intro coherent_contents [OF that same(1,2)]) auto
qed

lemma set_table_routes_ok:
  assumes st: "set_table win tab i t' s s'" and ok: "files_ok L s" "routes_ok s" and r: "routed (wins s win) tab t'"
  shows "routes_ok s'"
proof (rule routes_ok_contents [OF ok(2)])
  show "same_routes s s'" using st by (simp add: set_table_def)
  show "table s' w t = table s w t \<or> routed (wins s w) t (table s' w t)" for w t
    using r by (simp add: set_table_table [OF st ok(1)])
qed

lemma coherent_mapped:
  assumes c: "coherent s' (tabs s)" and m: "mapped win tab i s s'" and f: "tab_file s' win tab = Some i"
    and i: "i < next_inode s'" "4096 \<le> tab_size (inode s' i)"
  shows "coherent s' (tabs s')"
proof -
  have "mapping_ok s' w t (tabs s' w t)" if "w < 256" for w t
  proof (cases "(w, t) = (win, tab)")
    case True
    then show ?thesis using m f i by (auto simp: mapping_ok_def mapped_def)
  next
    case False
    then have "tabs s' w t = tabs s w t" using m by (simp add: mapped_def)
    then show ?thesis using c that by (simp add: coherent_def shf_const_eq)
  qed
  then show ?thesis by (simp add: coherent_def shf_const_eq)
qed

lemma kv_eq:
  "kv L s (w, t2, r, f) = (case slot L (table s w (win_tabs (wins s w) t2)) (r, f) of
       None \<Rightarrow> None | Some (tab, rnd, key, val) \<Rightarrow> if tab = t2 then Some (rnd, key, val) else None)"
  by (simp add: kv_def)

lemma kv_same:
  assumes "same_routes s s'" "\<And>w t. slot L (table s' w t) = slot L (table s w t)"
  shows "kv L s' = kv L s"
  using assms by (simp add: kv_def same_routes_def)

lemma kv_insert:
  assumes r: "same_routes s s'" and t: "table s' = (table s)(win := (table s win)(tab := t'))"
    and tab: "win_tabs (wins s win) tab2 = tab"
    and slot: "slot L t' = (slot L (table s win tab))((row, ref) \<mapsto> (tab2, rnd, key, val))"
    and free: "slot L (table s win tab) (row, ref) = None \<or> kv L s (win, tab2, row, ref) \<noteq> None"
  shows "kv L s' = (kv L s)((win, tab2, row, ref) \<mapsto> (rnd, key, val))"
proof
  have e: "win_tabs (wins s' w) = win_tabs (wins s w)" for w using r by (simp add: same_routes_def)
  fix x :: coord
  obtain w t2 r f where x: "x = (w, t2, r, f)" by (cases x)
  show "kv L s' x = ((kv L s)((win, tab2, row, ref) \<mapsto> (rnd, key, val))) x"
  proof (cases "w = win \<and> win_tabs (wins s win) t2 = tab \<and> (r, f) = (row, ref)")
    case True
    then show ?thesis using tab slot free by (auto simp: x kv_eq e t split: option.splits if_splits)
  next
    case False
    then show ?thesis using tab slot by (auto simp: x kv_eq e t)
  qed
qed

lemma kv_remove:
  assumes r: "same_routes s s'" and t: "table s' = (table s)(win := (table s win)(tab := t'))"
    and tab: "win_tabs (wins s win) tab2 = tab"
    and slot: "slot L t' = (slot L (table s win tab))((row, ref) := None)"
    and there: "kv L s (win, tab2, row, ref) \<noteq> None"
  shows "kv L s' = (kv L s)((win, tab2, row, ref) := None)"
proof
  have e: "win_tabs (wins s' w) = win_tabs (wins s w)" for w using r by (simp add: same_routes_def)
  fix x :: coord
  obtain w t2 r f where x: "x = (w, t2, r, f)" by (cases x)
  show "kv L s' x = ((kv L s)((win, tab2, row, ref) := None)) x"
  proof (cases "w = win \<and> win_tabs (wins s win) t2 = tab \<and> (r, f) = (row, ref)")
    case True
    then show ?thesis using tab slot there by (auto simp: x kv_eq e t split: option.splits if_splits)
  next
    case False
    then show ?thesis using tab slot by (auto simp: x kv_eq e t)
  qed
qed

section \<open>An instance in good order\<close>

definition shf_ok :: "shf \<Rightarrow> bool" where
  "shf_ok s \<longleftrightarrow> lens_ok (lens_of s) \<and> files_ok (lens_of s) s \<and> routes_ok s \<and> coherent s (tabs s)"

lemma shf_okD:
  assumes "shf_ok s"
  shows "lens_ok (lens_of s)" "files_ok (lens_of s) s" "routes_ok s" "coherent s (tabs s)"
  using assms by (simp_all add: shf_ok_def)

text \<open>
  An operation that leaves the stored data alone: the instance stays in good order, every other
  process' mappings stay coherent and every UID denotes what it did.
\<close>

definition quiet :: "shf \<Rightarrow> shf \<Rightarrow> bool" where
  "quiet s s' \<longleftrightarrow> same_thread s s' \<and> shf_ok s' \<and> (\<forall>m. coherent s m \<longrightarrow> coherent s' m)
     \<and> kv (lens_of s') s' = kv (lens_of s) s"

lemma quiet_trans: "quiet s s' \<Longrightarrow> quiet s' s'' \<Longrightarrow> quiet s s''"
  by (auto simp: quiet_def intro: same_thread_trans)

lemma got_tab_quiet:
  assumes ok: "shf_ok s" and g: "got_tab win tab i s s'" and f: "tab_file s win tab = Some i"
  shows "quiet s s'" "set_table win tab i (init_of (inode s i)) s s'" "mapped win tab i s s'"
    "tab_ok (lens_of s) (inode s' i)" "tab_size (inode s' i) = fsize s' i" "inode_ok (lens_of s) (inode s' i) (fsize s' i)"
    "slot (lens_of s) (inode s' i) = slot (lens_of s) (inode s i)"
proof -
  note D = shf_okD [OF ok]
  show st: "set_table win tab i (init_of (inode s i)) s s'"
    using g f by (simp add: got_tab_def set_table_def)
  show m: "mapped win tab i s s'" using g by (simp add: got_tab_def mapped_def)
  note I = init_of_ok [OF files_okD(3) [OF D(2) f]]
  have fs: "fsize s' = fsize s" "same_thread s s'" "same_routes s s'" "inode s' i = init_of (inode s i)"
    "tab_file s' = tab_file s" "next_inode s' = next_inode s"
    using g by (simp_all add: got_tab_def)
  show t: "tab_ok (lens_of s) (inode s' i)" "tab_size (inode s' i) = fsize s' i"
    "inode_ok (lens_of s) (inode s' i) (fsize s' i)"
    "slot (lens_of s) (inode s' i) = slot (lens_of s) (inode s i)"
    using I fs by simp_all
  have L: "lens_of s' = lens_of s" using same_threadD(2) fs(2) by blast
  have F: "files_ok (lens_of s) s'" "\<And>m. coherent s m \<Longrightarrow> coherent s' m"
    using set_table_files_ok [OF st D(2)] I(1,2) fs by auto
  have tb: "table s' = (table s)(win := (table s win)(tab := init_of (inode s i)))"
    using set_table_table [OF st D(2)] .
  have sl: "slot (lens_of s) (table s' w t') = slot (lens_of s) (table s w t')" for w t'
    using I(3) by (simp add: tb table_Some [OF f])
  have "routed (wins s' w) t' (table s' w t')" if "w < 256" for w t'
    using D(3) that fs(3) sl by (simp add: routes_ok_def shf_const_eq routed_slot [of _ _ _ "lens_of s"] same_routes_def)
  then have "routes_ok s'" by (simp add: routes_ok_def shf_const_eq)
  moreover have "coherent s' (tabs s')"
    using files_okD(2) [OF D(2) f] tab_ok_size_nonzero [OF t(1)] f fs
    by (intro coherent_mapped [OF F(2) [OF D(4)] m]) auto
  moreover have "kv (lens_of s) s' = kv (lens_of s) s" by (rule kv_same [OF fs(3) sl])
  ultimately show "quiet s s'" using D(1) F fs(2) by (simp add: quiet_def shf_ok_def L)
qed

end
