(* ===== verification/Shf_Append.thy ===== *)
theory Shf_Append
  imports Shf_Shm
begin

text \<open>
  \<open>SHF_TAB_APPEND\<close>: adding a record to a table, which may reuse a deleted record, and may have to
  grow the tab file first. The table the caller passes is the one it has mapped.
\<close>

section \<open>Growing a tab file\<close>

definition tab_grow :: "nat \<Rightarrow> nat \<Rightarrow> nat \<Rightarrow> nat \<Rightarrow> shf \<Rightarrow> shf_error + nat \<times> shf" where
  "tab_grow win tab i needed s =
     (let t_size = tab_size (inode s i);
          new_tab_size = SHF_MOD_PAGE (u64 (t_size + needed * shf_data_needed_factor s))
      in bindE (assertE (new_tab_size - t_size \<le> vfs_available s) Vfs_full) (\<lambda>_.
         let (j, s) = open_creat win tab s;
             s = ftruncate j new_tab_size s;
             s = upd_inode j (\<lambda>t. t\<lparr>tab_size := u32 new_tab_size\<rparr>) s
         in Inr (j, set_off win tab j (u32 new_tab_size) s)))"

definition tab_append :: "nat \<Rightarrow> nat \<Rightarrow> nat \<Rightarrow> nat \<Rightarrow> byte list \<Rightarrow> byte list option \<Rightarrow> nat \<Rightarrow> shf
    \<Rightarrow> shf_error + nat \<times> nat \<times> shf" where
  "tab_append win tab i ll key val val_len s =
     (let t = inode s i;
          needed = data_needed ll (length key) val_len;
          available = u32_sub (tab_size t) (tab_used t)
      in if ll = 0 \<and> tab_data_free_pos t \<noteq> 0 then
           Inr (i, tab_data_free_pos t,
             upd_inode i (\<lambda>t. tab_count needed (tab_reuse (type_extended s) ll key val val_len t)) s)
         else
           bindE (if available < needed then tab_grow win tab i needed s else Inr (i, s)) (\<lambda>(i, s).
           let t = inode s i in
           bindE (assertE (u32 (tab_used t + 1 + ll + length key) \<le> tab_size t) Key_past_end) (\<lambda>_.
           bindE (assertE (u32 (tab_used t + 1 + ll + length key + ll + val_len) \<le> tab_size t) Val_past_end) (\<lambda>_.
           Inr (i, tab_used t,
             upd_inode i (\<lambda>t. tab_count needed (tab_store (type_extended s) ll key val val_len t)) s)))))"

section \<open>Room\<close>

text \<open>
  There is room for \<open>n\<close> more bytes in a table: even if the file has to grow by the configured
  factor, its size stays below \<open>2^32\<close>, and the file system can hold it.
\<close>

definition room :: "shf \<Rightarrow> nat \<Rightarrow> tab_mmap \<Rightarrow> bool" where
  "room s n t \<longleftrightarrow> 1 \<le> shf_data_needed_factor s \<and> 2 ^ 32 \<le> vfs_available s
     \<and> (shf_data_needed_factor s + 1) * (tab_used t + n) + 4096 < 2 ^ 32"

lemma room_mono: "room s n t \<Longrightarrow> tab_used t' + n' \<le> tab_used t + n \<Longrightarrow> room s n' t'"
proof -
  assume r: "room s n t" and le: "tab_used t' + n' \<le> tab_used t + n"
  have "(shf_data_needed_factor s + 1) * (tab_used t' + n') \<le> (shf_data_needed_factor s + 1) * (tab_used t + n)"
    using le by (rule mult_le_mono2)
  with r show ?thesis unfolding room_def by linarith
qed

lemma room_thread: "same_thread s s' \<Longrightarrow> room s' n t = room s n t"
  by (simp add: room_def same_threadD)

lemma room_new_size:
  assumes "room s n t" "tab_ok L t" "tab_size t - tab_used t < n"
  defines "m \<equiv> SHF_MOD_PAGE (u64 (tab_size t + n * shf_data_needed_factor s))"
  shows "tab_used t + n \<le> m" "m < 4294967296" "tab_size t \<le> m" "m - tab_size t \<le> vfs_available s"
    "m = SHF_MOD_PAGE m"
proof -
  let ?f = "shf_data_needed_factor s"
  have f: "1 \<le> ?f" and b: "(?f + 1) * (tab_used t + n) + 4096 < 4294967296" and v: "4294967296 \<le> vfs_available s"
    using assms(1) by (simp_all add: room_def)
  have us: "tab_used t \<le> tab_size t" using tab_okD(2) [OF assms(2)] .
  have sz: "tab_size t < tab_used t + n" using assms(3) us by linarith
  have e: "(?f + 1) * (tab_used t + n) = tab_used t + n + (tab_used t * ?f + n * ?f)"
    by (simp add: algebra_simps)
  have nf: "n \<le> n * ?f" using f by (cases ?f) auto
  have lt: "tab_size t + n * ?f < 4294967296 - 4096" using b sz e by linarith
  then have m: "m = SHF_MOD_PAGE (tab_size t + n * ?f)" by (simp add: m_def)
  have pos: "0 < tab_size t + n * ?f" using tab_ok_size_nonzero [OF assms(2)] by simp
  have "tab_size t + n * ?f \<le> m" "m \<le> tab_size t + n * ?f + 4095"
    unfolding m by (rule SHF_MOD_PAGE_ge, rule SHF_MOD_PAGE_le [OF pos])
  then show "tab_used t + n \<le> m" "m < 4294967296" "tab_size t \<le> m" "m - tab_size t \<le> vfs_available s"
    using nf us lt v by linarith+
  show "m = SHF_MOD_PAGE m" by (simp add: m)
qed

lemma tab_grow_ok:
  assumes ok: "tab_ok L (inode s i)" and f: "tab_file s win tab = Some i"
    and big: "tab_size (inode s i) - tab_used (inode s i) < n" and room: "room s n (inode s i)"
  shows "\<exists>m s'. tab_grow win tab i n s = Inr (i, s') \<and> same_thread s s'
     \<and> set_table win tab i ((inode s i)\<lparr>tab_size := m\<rparr>) s s' \<and> mapped win tab i s s'
     \<and> fsize s' i = m \<and> m = SHF_MOD_PAGE m \<and> tab_used (inode s i) + n \<le> m
     \<and> tab_size (inode s i) \<le> m \<and> m < 4294967296"
proof -
  define m where "m = SHF_MOD_PAGE (u64 (tab_size (inode s i) + n * shf_data_needed_factor s))"
  note M = room_new_size [OF room ok big, folded m_def]
  define s' where "s' = set_off win tab i m (upd_inode i (\<lambda>t. t\<lparr>tab_size := m\<rparr>) (ftruncate i m s))"
  have e: "tab_grow win tab i n s = Inr (i, s')"
    using M by (simp add: tab_grow_def Let_def m_def [symmetric] assertE_def open_creat_existing [OF f] s'_def)
  have t: "(inode s i)\<lparr>tab_data := \<lambda>a. if a < m then tab_data (inode s i) a else 0\<rparr> = inode s i"
  proof -
    have "(\<lambda>a. if a < m then tab_data (inode s i) a else 0) = tab_data (inode s i)"
      using tab_okD(2,4) [OF ok] M(3) by fastforce
    then show ?thesis by simp
  qed
  have s': "tab_file s' = tab_file s" "next_inode s' = next_inode s" "wins s' = wins s"
    "inode s' = (inode s)(i := (inode s i)\<lparr>tab_size := m\<rparr>)" "fsize s' = (fsize s)(i := m)"
    "tabs s' = (tabs s)(win := (tabs s win)(tab := \<lparr>off_mmap = i, off_size = m\<rparr>))"
    by (simp_all add: s'_def ftruncate_def t)
  have "same_thread s s'"
    by (simp add: s'_def same_thread_def ftruncate_def upd_inode_def set_off_def)
  moreover have "set_table win tab i ((inode s i)\<lparr>tab_size := m\<rparr>) s s'"
    by (simp add: set_table_def s' f same_routes_def)
  moreover have "mapped win tab i s s'" by (simp add: mapped_def s')
  ultimately show ?thesis using e M s' by auto
qed

section \<open>Appending\<close>

lemma resize_simps [simp]:
  "live (t\<lparr>tab_size := m\<rparr>) = live t" "slot L (t\<lparr>tab_size := m\<rparr>) = slot L t"
  "slot_size L (t\<lparr>tab_size := m\<rparr>) = slot_size L t" "slot_pos (t\<lparr>tab_size := m\<rparr>) = slot_pos t"
  by (simp_all add: live_def slot_def slot_size_def slot_pos_def fun_eq_iff)

lemma resize_ok: "tab_ok L t \<Longrightarrow> tab_used t \<le> m \<Longrightarrow> m < 4294967296 \<Longrightarrow> tab_ok L (t\<lparr>tab_size := m\<rparr>)"
  by (auto simp: tab_ok_def header_ok_def live_ok_def acct_ok_def free_ok_def in_data_def)

text \<open>
  What an append promises of the table, once the caller has stored the reference in slot \<open>rf\<close>: the
  slot now holds the key and the value, every other slot holds what it held.
\<close>

definition appended :: "lens \<Rightarrow> nat \<times> nat \<Rightarrow> nat \<Rightarrow> nat \<Rightarrow> byte list \<Rightarrow> byte list option \<Rightarrow> nat
    \<Rightarrow> tab_mmap \<Rightarrow> tab_mmap \<Rightarrow> bool" where
  "appended L rf tab2 rnd key val val_len t t' \<longleftrightarrow> tab_ok L t'
     \<and> (\<exists>v. length v = val_len \<and> (\<forall>w. val = Some w \<longrightarrow> v = take val_len w)
          \<and> (val = None \<and> tab_data_free_pos t = 0 \<longrightarrow> v = replicate val_len 0)
          \<and> slot L t' = (slot L t)(rf \<mapsto> (tab2, rnd, key, v)))
     \<and> tab_used t' \<le> tab_used t + data_needed (len_len L) (length key) val_len
     \<and> (tab_data_free_pos t = 0 \<longrightarrow> tab_data_free_pos t' = 0 \<and> tab_data_free t' = tab_data_free t
          \<and> tab_used t' = tab_used t + data_needed (len_len L) (length key) val_len)
     \<and> tab_data_free t' \<le> tab_data_free t"

lemma reserved_val_props:
  "fits L key val vl \<Longrightarrow> length (reserved_val val vl) = vl"
  "val = Some w \<Longrightarrow> reserved_val val vl = take vl w"
  "val = None \<Longrightarrow> reserved_val val vl = replicate vl 0"
  "fits L key val vl \<Longrightarrow> length (stored_val m a val vl) = vl"
  "val = Some w \<Longrightarrow> stored_val m a val vl = take vl w"
  by (auto simp: reserved_val_def stored_val_def fits_def split: option.splits)

lemma tab_store_appended:
  assumes L: "lens_ok L" and ok: "tab_ok L t" and rf: "(r, f) \<in> slots" "(r, f) \<notin> live t"
    and fits: "fits L key val vl" and size: "tab_used t + data_needed (len_len L) (length key) vl \<le> tab_size t"
    and b: "tab2 < 2048" "rnd < 2097152"
    and t': "t' = set_ref r f (mk_ref tab2 rnd (tab_used t)) (tab_count (data_needed (len_len L) (length key) vl)
      (tab_store e (len_len L) key val vl t))"
  shows "appended L (r, f) tab2 rnd key val vl t t'"
  using tab_store_ok [OF L ok rf fits refl size refl b t'] reserved_val_props(1,2,3) fits
  by (auto simp: appended_def intro!: exI [of _ "reserved_val val vl"])

lemma tab_reuse_appended:
  assumes L: "lens_ok L" "len_len L = 0" and ok: "tab_ok L t" and rf: "(r, f) \<in> slots" "(r, f) \<notin> live t"
    and fits: "fits L key val vl" and pos: "tab_data_free_pos t \<noteq> 0" and b: "tab2 < 2048" "rnd < 2097152"
    and t': "t' = set_ref r f (mk_ref tab2 rnd (tab_data_free_pos t)) (tab_count (data_needed 0 (length key) vl)
      (tab_reuse e 0 key val vl t))"
  shows "appended L (r, f) tab2 rnd key val vl t t'"
  using tab_reuse_ok [OF L ok rf fits refl pos refl refl b t'] reserved_val_props(4,5) fits L(2) pos
  by (auto simp: appended_def
      intro!: exI [of _ "stored_val (tab_data t) (tab_data_free_pos t + 1 + length key) val vl"])

text \<open>
  An append with room for it returns: the position it gives makes the slot hold the record.
\<close>

lemma tab_append_ok:
  assumes L: "lens_ok L" and ok: "inode_ok L (inode s i) (fsize s i)" "tab_size (inode s i) \<noteq> 0"
    and f: "tab_file s win tab = Some i" and fits: "fits L key val vl"
    and map: "tabs s win tab = \<lparr>off_mmap = i, off_size = tab_size (inode s i)\<rparr>"
    and room: "room s (data_needed (len_len L) (length key) vl) (inode s i)"
  shows "\<exists>pos t1 s1. tab_append win tab i (len_len L) key val vl s = Inr (i, pos, s1) \<and> same_thread s s1
     \<and> set_table win tab i t1 s s1 \<and> mapped win tab i s s1 \<and> fsize s1 i = tab_size t1
     \<and> tab_size t1 = SHF_MOD_PAGE (tab_size t1) \<and> 69632 \<le> tab_size t1 \<and> tab_row t1 = tab_row (inode s i)
     \<and> (\<forall>r f tab2 rnd. (r, f) \<in> slots \<and> (r, f) \<notin> live (inode s i) \<and> tab2 < 2048 \<and> rnd < 2097152
          \<longrightarrow> appended L (r, f) tab2 rnd key val vl (inode s i) (set_ref r f (mk_ref tab2 rnd pos) t1))"
    (is "\<exists>pos t1 s1. ?P pos t1 s1")
proof -
  let ?t = "inode s i" and ?ll = "len_len L" and ?n = "data_needed (len_len L) (length key) vl"
  note I = inode_okD [OF ok]
  note D = tab_okD [OF I(1)]
  consider (reuse) "?ll = 0" "tab_data_free_pos ?t \<noteq> 0"
    | (fit) "\<not> (?ll = 0 \<and> tab_data_free_pos ?t \<noteq> 0)" "tab_used ?t + ?n \<le> tab_size ?t"
    | (grow) "\<not> (?ll = 0 \<and> tab_data_free_pos ?t \<noteq> 0)" "tab_size ?t - tab_used ?t < ?n"
    using less_diff_conv2 [OF D(2)] by (metis add.commute not_le)
  then show ?thesis
  proof cases
    case reuse
    define s1 where "s1 = upd_inode i (\<lambda>t. tab_count ?n (tab_reuse (type_extended s) ?ll key val vl t)) s"
    have "?P (tab_data_free_pos ?t) (tab_count ?n (tab_reuse (type_extended s) ?ll key val vl ?t)) s1"
      using reuse I f map tab_reuse_appended [OF L reuse(1) I(1) _ _ fits reuse(2) _ _ refl]
      by (simp add: tab_append_def Let_def s1_def set_table_def mapped_def same_routes_def tab_reuse_eq)
    then show ?thesis by blast
  next
    case fit
    define s1 where "s1 = upd_inode i (\<lambda>t. tab_count ?n (tab_store (type_extended s) ?ll key val vl t)) s"
    have lt: "tab_used ?t + ?n < 4294967296" using fit(2) D(3) by simp
    then have a: "u32 (tab_used ?t + 1 + ?ll + length key) \<le> tab_size ?t"
      "u32 (tab_used ?t + 1 + ?ll + length key + ?ll + vl) \<le> tab_size ?t"
      using fit(2) by (simp_all add: data_needed_def)
    have "\<not> u32_sub (tab_size ?t) (tab_used ?t) < ?n" using fit(2) D(2,3) by simp
    then have "tab_append win tab i ?ll key val vl s = Inr (i, tab_used ?t, s1)"
      unfolding tab_append_def Let_def if_not_P [OF fit(1)] using a by (simp add: s1_def assertE_def)
    then have "?P (tab_used ?t) (tab_count ?n (tab_store (type_extended s) ?ll key val vl ?t)) s1"
      using I f map tab_store_appended [OF L I(1) _ _ fits fit(2) _ _ refl]
      by (simp add: s1_def set_table_def mapped_def same_routes_def tab_store_eq)
    then show ?thesis by blast
  next
    case grow
    obtain m s2 where g: "tab_grow win tab i ?n s = Inr (i, s2)" "same_thread s s2"
      "set_table win tab i (?t\<lparr>tab_size := m\<rparr>) s s2" "mapped win tab i s s2" "fsize s2 i = m"
      "m = SHF_MOD_PAGE m" "tab_used ?t + ?n \<le> m" "tab_size ?t \<le> m" "m < 4294967296"
      using tab_grow_ok [OF I(1) f grow(2) room] by blast
    let ?t2 = "?t\<lparr>tab_size := m\<rparr>"
    have t2: "tab_ok L ?t2" by (rule resize_ok [OF I(1)]) (use g D in simp_all)
    define t1 where "t1 = tab_count ?n (tab_store (type_extended s) ?ll key val vl ?t2)"
    define s1 where "s1 = upd_inode i (\<lambda>t. tab_count ?n (tab_store (type_extended s) ?ll key val vl t)) s2"
    have i2: "inode s2 i = ?t2" using g(3) by (simp add: set_table_def)
    have a: "u32 (tab_used ?t + 1 + ?ll + length key) \<le> m" "u32 (tab_used ?t + 1 + ?ll + length key + ?ll + vl) \<le> m"
      using g(7,9) by (simp_all add: data_needed_def)
    have "tab_append win tab i ?ll key val vl s = Inr (i, tab_used ?t, s1)"
      using grow g(1) a D(2,3) same_threadD(4) [OF g(2)]
      by (auto simp: tab_append_def Let_def i2 s1_def assertE_def)
    moreover have "set_table win tab i t1 s s1" "same_thread s s1"
      using g(2,3) by (auto simp: set_table_def s1_def t1_def same_routes_def intro: same_thread_trans)
    moreover have "tab_size t1 = m" "tab_row t1 = tab_row ?t" by (simp_all add: t1_def tab_store_eq)
    moreover have "mapped win tab i s s1" using g(4) by (simp add: mapped_def s1_def i2 tab_store_eq)
    moreover have "appended L (r, f) tab2 rnd key val vl ?t (set_ref r f (mk_ref tab2 rnd (tab_used ?t)) t1)"
      if "(r, f) \<in> slots" "(r, f) \<notin> live ?t" "tab2 < 2048" "rnd < 2097152" for r f tab2 rnd
      using tab_store_appended [OF L t2, of r f key val vl tab2 rnd _ "type_extended s"] that fits g(7)
      by (simp add: appended_def t1_def)
    ultimately have "?P (tab_used ?t) t1 s1" using g I by (simp add: s1_def)
    then show ?thesis by blast
  qed
qed

end
