(* ===== verification/Shf_Part.thy ===== *)
theory Shf_Part
  imports Shf_Append
begin

text \<open>
  Moving records between tab files: \<open>SHF_TAB_REF_COPY\<close> moves one record, \<open>shf_tab_shrink\<close> replaces a
  tab file by one without garbage, \<open>shf_tab_part\<close> splits the table indexes of a tab file between it
  and a new one. All keys stay where their UIDs say they are.
\<close>

section \<open>Moving one record\<close>

text \<open>
  \<open>SHF_TAB_REF_COPY\<close>. \<open>tab_refs_used\<close> of the new tab is incremented here and, once more, by the
  append.
\<close>

definition tab_ref_copy :: "nat \<Rightarrow> nat \<Rightarrow> nat \<Rightarrow> nat \<Rightarrow> nat \<times> nat \<Rightarrow> shf \<Rightarrow> shf_error + nat \<times> shf" where
  "tab_ref_copy win tab old new rf s =
     (let L = lens_of s; (row, ref) = rf; t_old = inode s old;
          r = tab_row t_old row ref;
          key_len = ref_key_len L (tab_data t_old) (ref_pos r);
          val_len = ref_val_len L (tab_data t_old) (ref_pos r);
          key = ref_key L (tab_data t_old) (ref_pos r);
          val = ref_val L (tab_data t_old) (ref_pos r)
      in bindE (tab_append win tab new (len_len L) key (Some val) val_len s) (\<lambda>(new, pos, s).
         let s = upd_inode old (tab_ref_mark_as_deleted (len_len L) row ref key_len val_len) s;
             r = tab_row (inode s old) row ref
         in Inr (new, upd_inode new (\<lambda>t. (set_ref row ref (mk_ref (ref_tab r) (ref_rnd r) pos) t)
              \<lparr>tab_refs_used := u32 (tab_refs_used t + 1)\<rparr>) s)))"

text \<open>The slots of a table in the order the two nested loops visit them.\<close>

definition slot_list :: "(nat \<times> nat) list" where
  "slot_list = List.product [0..<SHF_ROWS_PER_TAB] [0..<SHF_REFS_PER_ROW]"

section \<open>shf_tab_shrink\<close>

primrec shrink_refs :: "nat \<Rightarrow> nat \<Rightarrow> nat \<Rightarrow> (nat \<times> nat) list \<Rightarrow> nat \<Rightarrow> shf \<Rightarrow> shf_error + nat \<times> shf" where
  "shrink_refs win tab old [] new s = Inr (new, s)"
| "shrink_refs win tab old (rf # rfs) new s =
     (if slot_pos (inode s old) rf \<noteq> 0
      then bindE (tab_ref_copy win tab old new rf s) (\<lambda>(new, s). shrink_refs win tab old rfs new s)
      else shrink_refs win tab old rfs new s)"

definition shf_tab_shrink :: "nat \<Rightarrow> nat \<Rightarrow> shf \<Rightarrow> shf_error + shf" where
  "shf_tab_shrink win tab s =
     (let s = upd_win win (\<lambda>w. w\<lparr>tabs_shrunk := u64 (tabs_shrunk w + 1)\<rparr>) s in
      bindE (get_tab_mmap win tab s) (\<lambda>(old, s).
      bindE (unlink win tab s) (\<lambda>s.
      let s = set_off win tab 0 (off_size (tabs s win tab)) s;
          s = shf_tab_create win tab s
      in bindE (get_tab_mmap win tab s) (\<lambda>(new, s).
         bindE (shrink_refs win tab old slot_list new s) (\<lambda>(new, s).
         let s = upd_inode old (\<lambda>t. t\<lparr>tab_size := 1\<rparr>) s
         in Inr (s\<lparr>count_mmap := u32_sub (count_mmap s) 1\<rparr>))))))"

text \<open>Its two parts: the table is found, and it is replaced.\<close>

definition shrink_begin :: "nat \<Rightarrow> nat \<Rightarrow> shf \<Rightarrow> shf_error + nat \<times> shf" where
  "shrink_begin win tab s =
     (let s = upd_win win (\<lambda>w. w\<lparr>tabs_shrunk := u64 (tabs_shrunk w + 1)\<rparr>) s in get_tab_mmap win tab s)"

definition shrink_end :: "nat \<Rightarrow> nat \<Rightarrow> nat \<Rightarrow> shf \<Rightarrow> shf_error + shf" where
  "shrink_end win tab old s =
     bindE (unlink win tab s) (\<lambda>s.
      let s = set_off win tab 0 (off_size (tabs s win tab)) s;
          s = shf_tab_create win tab s
      in bindE (get_tab_mmap win tab s) (\<lambda>(new, s).
         bindE (shrink_refs win tab old slot_list new s) (\<lambda>(new, s).
         let s = upd_inode old (\<lambda>t. t\<lparr>tab_size := 1\<rparr>) s
         in Inr (s\<lparr>count_mmap := u32_sub (count_mmap s) 1\<rparr>))))"

lemma shf_tab_shrink_parts:
  "shf_tab_shrink win tab s = bindE (shrink_begin win tab s) (\<lambda>(old, s). shrink_end win tab old s)"
  by (simp only: shf_tab_shrink_def shrink_begin_def shrink_end_def Let_def)

section \<open>shf_tab_part\<close>

text \<open>
  The loop that redirects every other table index of the old tab to the new one; \<open>tab_switch\<close>
  remembers whether the next one is redirected.
\<close>

primrec part_redirect :: "nat \<Rightarrow> nat \<Rightarrow> nat list \<Rightarrow> bool \<Rightarrow> (nat \<Rightarrow> nat) \<Rightarrow> shf_error + (nat \<Rightarrow> nat)" where
  "part_redirect tab_old tab_new [] tab_switch m = Inr m"
| "part_redirect tab_old tab_new (tab2 # tab2s) tab_switch m =
     bindE (assertE (m tab2 < tab_new) Tab_redirect) (\<lambda>_.
     if m tab2 = tab_old
     then part_redirect tab_old tab_new tab2s (\<not> tab_switch) (m(tab2 := if tab_switch then tab_new else tab_old))
     else part_redirect tab_old tab_new tab2s tab_switch m)"

primrec part_refs :: "nat \<Rightarrow> nat \<Rightarrow> nat \<Rightarrow> nat \<Rightarrow> (nat \<times> nat) list \<Rightarrow> nat \<Rightarrow> shf \<Rightarrow> shf_error + nat \<times> shf" where
  "part_refs win tab_old tab_new old [] new s = Inr (new, s)"
| "part_refs win tab_old tab_new old (rf # rfs) new s =
     (if slot_pos (inode s old) rf \<noteq> 0 then
        let tab2 = ref_tab (tab_row (inode s old) (fst rf) (snd rf));
            tab = win_tabs (wins s win) tab2
        in bindE (assertE (tab < SHF_TABS_PER_WIN) Tab_overflow) (\<lambda>_.
           bindE (assertE (tab = tab_old \<or> tab = tab_new) Tab_mismatch) (\<lambda>_.
           if tab = tab_new then
             let s = upd_win win (\<lambda>w. w\<lparr>tabs_parted_new := u64 (tabs_parted_new w + 1)\<rparr>) s
             in bindE (tab_ref_copy win tab old new rf s) (\<lambda>(new, s). part_refs win tab_old tab_new old rfs new s)
           else
             part_refs win tab_old tab_new old rfs new
               (upd_win win (\<lambda>w. w\<lparr>tabs_parted_old := u64 (tabs_parted_old w + 1)\<rparr>) s)))
      else part_refs win tab_old tab_new old rfs new s)"

definition shf_tab_part :: "nat \<Rightarrow> nat \<Rightarrow> shf \<Rightarrow> shf_error + shf" where
  "shf_tab_part win tab_old s =
     (let tab_new = u16 (tabs_used (wins s win));
          s = shf_tab_create win tab_new s
      in bindE (get_tab_mmap win tab_new s) (\<lambda>(_, s).
         let s = upd_win win (\<lambda>w. w\<lparr>tabs_parted := u64 (tabs_parted w + 1), tabs_used := u32 (tabs_used w + 1)\<rparr>) s
         in bindE (assertE (tab_new < SHF_TABS_PER_WIN) Tab_overflow) (\<lambda>_.
         bindE (part_redirect tab_old tab_new [0..<SHF_TABS_PER_WIN] False (win_tabs (wins s win))) (\<lambda>m.
         let s = upd_win win (\<lambda>w. w\<lparr>win_tabs := m\<rparr>) s;
             old = off_mmap (tabs s win tab_old);
             new = off_mmap (tabs s win tab_new)
         in bindE (part_refs win tab_old tab_new old slot_list new s) (\<lambda>(new, s).
            shf_tab_shrink win tab_old s)))))"

section \<open>What moving records does\<close>

lemma refs_used_simps [simp]:
  "live (t\<lparr>tab_refs_used := m\<rparr>) = live t" "slot L (t\<lparr>tab_refs_used := m\<rparr>) = slot L t"
  "tab_ok L (t\<lparr>tab_refs_used := m\<rparr>) = tab_ok L t"
proof -
  have *: "live (t\<lparr>tab_refs_used := m\<rparr>) = live t" "slot_size L (t\<lparr>tab_refs_used := m\<rparr>) = slot_size L t"
    "slot_pos (t\<lparr>tab_refs_used := m\<rparr>) = slot_pos t"
    by (simp_all add: live_def slot_size_def slot_pos_def fun_eq_iff)
  then show "live (t\<lparr>tab_refs_used := m\<rparr>) = live t" "slot L (t\<lparr>tab_refs_used := m\<rparr>) = slot L t"
    by (simp_all add: slot_def fun_eq_iff)
  show "tab_ok L (t\<lparr>tab_refs_used := m\<rparr>) = tab_ok L t"
    by (simp add: tab_ok_def header_ok_def live_ok_def acct_ok_def free_ok_def in_data_def *)
qed

definition bounded :: "lens \<Rightarrow> tab_mmap \<Rightarrow> bool" where
  "bounded L t \<longleftrightarrow> (\<forall>rf t2 rnd k v. slot L t rf = Some (t2, rnd, k, v) \<longrightarrow> t2 < 2048 \<and> rnd < 2097152)"

lemma routed_bounded: "routed w tab t \<Longrightarrow> bounded L t"
  by (auto simp: bounded_def routed_slot [of _ _ _ L])

text \<open>The slots in \<open>M\<close> have moved from the old to the new table, which holds no garbage.\<close>

definition copied :: "lens \<Rightarrow> (nat \<times> nat) set \<Rightarrow> tab_mmap \<Rightarrow> tab_mmap \<Rightarrow> tab_mmap \<Rightarrow> tab_mmap \<Rightarrow> bool" where
  "copied L M old new old' new' \<longleftrightarrow> tab_ok L old' \<and> tab_size old' = tab_size old \<and> tab_ok L new'
     \<and> tab_used old' = tab_used old
     \<and> slot L old' = (\<lambda>x. if x \<in> M then None else slot L old x)
     \<and> slot L new' = (\<lambda>x. if x \<in> M then slot L old x else slot L new x)
     \<and> tab_data_free_pos new' = 0 \<and> tab_data_free new' = 0
     \<and> tab_used new' + tab_data_used old' = tab_used new + tab_data_used old"

definition moved :: "nat \<Rightarrow> nat \<Rightarrow> nat \<Rightarrow> nat \<Rightarrow> (nat \<times> nat) set \<Rightarrow> shf \<Rightarrow> shf \<Rightarrow> bool" where
  "moved win tab old new M s s' \<longleftrightarrow> same_thread s s' \<and> same_routes s s' \<and> tab_file s' = tab_file s
     \<and> next_inode s' = next_inode s \<and> (\<forall>j. j \<noteq> old \<and> j \<noteq> new \<longrightarrow> inode s' j = inode s j)
     \<and> (\<forall>j. j \<noteq> new \<longrightarrow> fsize s' j = fsize s j)
     \<and> copied (lens_of s) M (inode s old) (inode s new) (inode s' old) (inode s' new)
     \<and> inode_ok (lens_of s) (inode s' new) (fsize s' new) \<and> mapped win tab new s s'"

text \<open>The states in which records can be moved from the inode \<open>old\<close> to the table \<open>new\<close>.\<close>

definition movable :: "nat \<Rightarrow> nat \<Rightarrow> nat \<Rightarrow> nat \<Rightarrow> shf \<Rightarrow> bool" where
  "movable win tab old new s \<longleftrightarrow> lens_ok (lens_of s) \<and> old \<noteq> new \<and> tab_file s win tab = Some new
     \<and> inode_ok (lens_of s) (inode s new) (fsize s new) \<and> tab_size (inode s new) \<noteq> 0
     \<and> tabs s win tab = \<lparr>off_mmap = new, off_size = tab_size (inode s new)\<rparr>
     \<and> tab_ok (lens_of s) (inode s old) \<and> bounded (lens_of s) (inode s old)
     \<and> tab_data_free_pos (inode s new) = 0 \<and> tab_data_free (inode s new) = 0
     \<and> room s (tab_data_used (inode s old)) (inode s new)"

lemma copied_trans:
  "copied L M a b a' b' \<Longrightarrow> copied L N a' b' a'' b'' \<Longrightarrow> M \<inter> N = {} \<Longrightarrow> copied L (M \<union> N) a b a'' b''"
  by (auto simp: copied_def fun_eq_iff)

lemma moved_trans:
  assumes "moved win tab old new M s s'" "moved win tab old new N s' s''" "M \<inter> N = {}"
  shows "moved win tab old new (M \<union> N) s s''"
proof -
  have "lens_of s' = lens_of s" using assms(1) same_threadD(2) by (simp add: moved_def)
  then have c: "copied (lens_of s) (M \<union> N) (inode s old) (inode s new) (inode s'' old) (inode s'' new)"
    using assms copied_trans [of "lens_of s" M _ _ "inode s' old" "inode s' new" N] by (simp add: moved_def)
  have "same_thread s s''" "same_routes s s''" "mapped win tab new s s''"
    using assms by (auto simp: moved_def intro: same_thread_trans same_routes_trans mapped_trans)
  with c show ?thesis using assms \<open>lens_of s' = lens_of s\<close> by (simp add: moved_def)
qed

lemma moved_movable:
  assumes m: "moved win tab old new M s s'" and s: "movable win tab old new s"
  shows "movable win tab old new s'"
proof -
  have st: "same_thread s s'" using m by (simp add: moved_def)
  have c: "copied (lens_of s) M (inode s old) (inode s new) (inode s' old) (inode s' new)"
    using m by (simp add: moved_def)
  have "tab_used (inode s' new) + tab_data_used (inode s' old) = tab_used (inode s new) + tab_data_used (inode s old)"
    using c unfolding copied_def by blast
  moreover have "room s (tab_data_used (inode s old)) (inode s new)" using s by (simp add: movable_def)
  ultimately have "room s (tab_data_used (inode s' old)) (inode s' new)" by (simp add: room_mono)
  moreover have "slot (lens_of s) (inode s' old) = (\<lambda>x. if x \<in> M then None else slot (lens_of s) (inode s old) x)"
    using c unfolding copied_def by blast
  then have "bounded (lens_of s) (inode s' old)"
    using s by (simp add: movable_def bounded_def)
  moreover have "tab_size (inode s' new) \<noteq> 0"
    using c tab_ok_size_nonzero [of "lens_of s" "inode s' new"] by (auto simp: copied_def)
  ultimately show ?thesis using m s c same_threadD(2) [OF st] room_thread [OF st]
    by (simp add: movable_def moved_def mapped_def copied_def)
qed

lemma moved_refl:
  assumes "movable win tab old new s"
  shows "moved win tab old new {} s s"
  using assms inode_okD(1) by (auto simp: moved_def movable_def copied_def mapped_def)

lemma tab_ref_copy_ok:
  assumes mv: "movable win tab old new s" and rf: "rf \<in> live (inode s old)" "rf \<notin> live (inode s new)"
  shows "\<exists>s'. tab_ref_copy win tab old new rf s = Inr (new, s') \<and> moved win tab old new {rf} s s'"
proof -
  define L where "L = lens_of s"
  obtain r f where rf_eq: "rf = (r, f)" by (cases rf)
  let ?t = "inode s old" and ?u = "inode s new"
  define p where "p = ref_pos (tab_row ?t r f)"
  have p: "slot_pos ?t (r, f) = p" by (simp add: slot_pos_def p_def)
  define kl vl key val where d: "kl = ref_key_len L (tab_data ?t) p" "vl = ref_val_len L (tab_data ?t) p"
    "key = ref_key L (tab_data ?t) p" "val = ref_val L (tab_data ?t) p"
  have len: "length key = kl" "length val = vl" by (simp_all add: d ref_key_def ref_val_def)
  have M: "lens_ok L" "old \<noteq> new" "tab_file s win tab = Some new" "inode_ok L ?u (fsize s new)" "tab_size ?u \<noteq> 0"
    "tabs s win tab = \<lparr>off_mmap = new, off_size = tab_size ?u\<rparr>" "tab_ok L ?t" "bounded L ?t"
    "tab_data_free_pos ?u = 0" "tab_data_free ?u = 0" "room s (tab_data_used ?t) ?u"
    using mv by (simp_all add: movable_def L_def)
  have fits: "fits L key (Some val) vl"
    by (auto simp: fits_def len) (simp_all add: d ref_key_len_def ref_val_len_def)
  have n: "slot_size L ?t (r, f) = data_needed (len_len L) (length key) vl"
    by (simp add: slot_size_def rec_size_def p len) (simp add: d)
  have le: "slot_size L ?t (r, f) \<le> tab_data_used ?t"
    unfolding tab_okD(6) [OF M(7)] using rf by (intro member_le_sum) (auto simp: rf_eq)
  then have room: "room s (data_needed (len_len L) (length key) vl) ?u"
    using M(11) by (intro room_mono [OF M(11)]) (simp flip: n)
  have sl: "slot L ?t (r, f) = Some (ref_tab (tab_row ?t r f), ref_rnd (tab_row ?t r f), key, val)"
    using rf by (simp add: slot_Some_iff rf_eq p d)
  then have b: "ref_tab (tab_row ?t r f) < 2048" "ref_rnd (tab_row ?t r f) < 2097152"
    using M(8) unfolding bounded_def by blast+
  have "(r, f) \<in> slots" using rf by (simp add: live_def rf_eq)
  with rf b tab_append_ok [OF M(1,4,5,3) fits M(6) room] obtain pos u1 s1 where
    ap: "tab_append win tab new (len_len L) key (Some val) vl s = Inr (new, pos, s1)" "same_thread s s1"
      "set_table win tab new u1 s s1" "mapped win tab new s s1" "fsize s1 new = tab_size u1"
      "tab_size u1 = SHF_MOD_PAGE (tab_size u1)" "69632 \<le> tab_size u1" and
    app: "appended L (r, f) (ref_tab (tab_row ?t r f)) (ref_rnd (tab_row ?t r f)) key (Some val) vl ?u
      (set_ref r f (mk_ref (ref_tab (tab_row ?t r f)) (ref_rnd (tab_row ?t r f)) pos) u1)"
    unfolding rf_eq by blast
  define t2 where "t2 = tab_ref_mark_as_deleted (len_len L) r f kl vl ?t"
  note del = tab_delete_ok [OF M(1,7) _ _ _ t2_def, unfolded p, OF rf(1) [unfolded rf_eq] d(1,2)]
  have row: "ref_tab (tab_row t2 r f) = ref_tab (tab_row ?t r f)" "ref_rnd (tab_row t2 r f) = ref_rnd (tab_row ?t r f)"
    using del(1) by (simp_all add: removed_def)
  define u2 where "u2 = (set_ref r f (mk_ref (ref_tab (tab_row ?t r f)) (ref_rnd (tab_row ?t r f)) pos) u1)
    \<lparr>tab_refs_used := u32 (tab_refs_used u1 + 1)\<rparr>"
  have i1: "inode s1 = (inode s)(new := u1)" "tab_file s1 = tab_file s" "next_inode s1 = next_inode s"
    "same_routes s s1" "\<And>j. j \<noteq> new \<Longrightarrow> fsize s1 j = fsize s j"
    using ap(3) by (simp_all add: set_table_def)
  define s2 where "s2 = upd_inode new (\<lambda>t. (set_ref r f (mk_ref (ref_tab (tab_row t2 r f)) (ref_rnd (tab_row t2 r f)) pos) t)
      \<lparr>tab_refs_used := u32 (tab_refs_used t + 1)\<rparr>) (upd_inode old (tab_ref_mark_as_deleted (len_len L) r f kl vl) s1)"
  have run: "tab_ref_copy win tab old new rf s = Inr (new, s2)"
    using ap(1) M(2) by (simp add: tab_ref_copy_def Let_def rf_eq L_def [symmetric] p_def [symmetric]
        d [symmetric] s2_def t2_def i1)
  have i2: "inode s2 = (inode s)(old := t2, new := u2)" "tab_file s2 = tab_file s" "next_inode s2 = next_inode s"
    "fsize s2 = fsize s1" "tabs s2 = tabs s1" "wins s2 = wins s1"
    using M(2) by (simp_all add: s2_def i1 t2_def u2_def row [unfolded t2_def] fun_upd_twist)
  have st: "same_thread s s2" unfolding s2_def by (intro same_thread_trans [OF ap(2)] same_thread_trans [OF _ upd_inode_simps(7)]) simp
  have "tab_used t2 = tab_used ?t" using del(1) by (simp add: removed_def)
  then have cp: "copied L {rf} ?t ?u t2 u2"
    using app del removed_slot [OF del(1)] M(9,10) sl le n len
    by (auto simp: copied_def appended_def u2_def rf_eq fun_eq_iff)
  have "inode_ok L u2 (fsize s2 new)"
    using app ap by (simp add: inode_ok_def appended_def u2_def i2)
  moreover have "mapped win tab new s s2" using ap(4) by (simp add: mapped_def i2 i1 u2_def)
  moreover have "same_routes s s2" using i1(4) by (simp add: same_routes_def i2)
  ultimately have "moved win tab old new {rf} s s2"
    using st cp i1(5) M(2) by (simp add: moved_def i2 L_def [symmetric])
  with run show ?thesis by blast
qed

section \<open>The copying loop of shf_tab_shrink\<close>

lemma slot_list_props: "distinct slot_list" "set slot_list = slots"
  by (auto simp: slot_list_def slots_def distinct_product)

lemma copied_live:
  assumes "copied L M old new old' new'"
  shows "live old' = live old - M" "live new' = (live old \<inter> M) \<union> (live new - M)"
  using assms by (auto simp: live_slot [of _ L] copied_def dom_def split: if_splits)

lemma moved_live:
  assumes "moved win tab old new M s s'"
  shows "live (inode s' old) = live (inode s old) - M"
    "live (inode s' new) = (live (inode s old) \<inter> M) \<union> (live (inode s new) - M)"
  using assms copied_live by (auto simp: moved_def)

lemma shrink_refs_ok:
  assumes "movable win tab old new s" "distinct rfs" "set rfs \<subseteq> slots" "set rfs \<inter> live (inode s new) = {}"
  shows "\<exists>s'. shrink_refs win tab old rfs new s = Inr (new, s')
     \<and> moved win tab old new (set rfs \<inter> live (inode s old)) s s'"
  using assms
proof (induction rfs arbitrary: s)
  case Nil
  then show ?case by (simp add: moved_refl)
next
  case (Cons rf rfs)
  show ?case
  proof (cases "slot_pos (inode s old) rf = 0")
    case True
    then have "rf \<notin> live (inode s old)" by (simp add: live_def)
    then have "set (rf # rfs) \<inter> live (inode s old) = set rfs \<inter> live (inode s old)" by auto
    then show ?thesis using Cons.IH [OF Cons.prems(1)] Cons.prems True by auto
  next
    case False
    then have lv: "rf \<in> live (inode s old)" using Cons.prems(3) by (simp add: live_def)
    obtain s1 where s1: "tab_ref_copy win tab old new rf s = Inr (new, s1)" "moved win tab old new {rf} s s1"
      using tab_ref_copy_ok [OF Cons.prems(1) lv] Cons.prems(4) by auto
    have mv: "movable win tab old new s1" by (rule moved_movable [OF s1(2) Cons.prems(1)])
    have "set rfs \<inter> live (inode s1 new) = {}"
      using Cons.prems(2,4) by (auto simp: moved_live [OF s1(2)])
    then obtain s2 where s2: "shrink_refs win tab old rfs new s1 = Inr (new, s2)"
      "moved win tab old new (set rfs \<inter> live (inode s1 old)) s1 s2"
      using Cons.IH [OF mv] Cons.prems by auto
    have e: "set (rf # rfs) \<inter> live (inode s old) = {rf} \<union> set rfs \<inter> live (inode s1 old)"
      using lv Cons.prems(2) by (auto simp: moved_live [OF s1(2)])
    have "{rf} \<inter> (set rfs \<inter> live (inode s1 old)) = {}" using Cons.prems(2) by auto
    from moved_trans [OF s1(2) s2(2) this] s1(1) s2(1) False show ?thesis unfolding e by simp
  qed
qed

section \<open>Replacing a tab file\<close>

text \<open>The path of a table now names a new file, and the header of the old one says so.\<close>

definition replaced :: "nat \<Rightarrow> nat \<Rightarrow> nat \<Rightarrow> nat \<Rightarrow> shf \<Rightarrow> shf \<Rightarrow> bool" where
  "replaced win tab old new s s' \<longleftrightarrow> tab_file s win tab = Some old \<and> new = next_inode s
     \<and> tab_file s' = (tab_file s)(win := (tab_file s win)(tab := Some new)) \<and> next_inode s' = new + 1
     \<and> (\<forall>j. j \<noteq> old \<and> j \<noteq> new \<longrightarrow> inode s' j = inode s j) \<and> (\<forall>j. j \<noteq> new \<longrightarrow> fsize s' j = fsize s j)
     \<and> tab_size (inode s' old) = 1 \<and> same_routes s s'"

lemma replaced_table:
  assumes r: "replaced win tab old new s s'" and ok: "files_ok L s"
  shows "table s' = (table s)(win := (table s win)(tab := inode s' new))"
proof -
  have "table s' w t = ((table s)(win := (table s win)(tab := inode s' new))) w t" for w t
  proof (cases "w = win \<and> t = tab")
    case False
    then have "tab_file s' w t = tab_file s w t" using r by (auto simp: replaced_def)
    moreover have "inode s' j = inode s j" if "tab_file s w t = Some j" for j
    proof -
      have "tab_file s win tab = Some old" "new = next_inode s" using r by (simp_all add: replaced_def)
      then have "j \<noteq> old" "j \<noteq> new" using files_okD(2,4) [OF ok that] False by auto
      then show ?thesis using r by (simp add: replaced_def)
    qed
    ultimately show ?thesis using False by (auto simp: table_def split: option.split)
  qed (use r in \<open>auto simp: table_def replaced_def\<close>)
  then show ?thesis by (simp add: fun_eq_iff)
qed

lemma replaced_files_ok:
  assumes r: "replaced win tab old new s s'" and ok: "files_ok L s"
    and new: "inode_ok L (inode s' new) (fsize s' new)" and win: "win < 256"
  shows "files_ok L s'"
proof (rule files_okI)
  note D = files_okD [OF ok]
  have old: "tab_file s win tab = Some old" and n: "new = next_inode s" "next_inode s' = new + 1"
    and f: "tab_file s' = (tab_file s)(win := (tab_file s win)(tab := Some new))"
    and same: "\<And>j. j \<noteq> old \<Longrightarrow> j \<noteq> new \<Longrightarrow> inode s' j = inode s j" "\<And>j. j \<noteq> new \<Longrightarrow> fsize s' j = fsize s j"
    and w: "\<And>w. win_tabs (wins s' w) = win_tabs (wins s w)" "\<And>w. tabs_used (wins s' w) = tabs_used (wins s w)"
    using r by (simp_all add: replaced_def same_routes_def)
  show "0 < next_inode s'" using n by simp
  have lt: "i < new \<and> 0 < i \<and> i \<noteq> old" if "tab_file s x t = Some i" "(x, t) \<noteq> (win, tab)" for x t i
    using D(1,2,4) [OF that(1)] old that n by blast
  show "0 < i \<and> i < next_inode s' \<and> inode_ok L (inode s' i) (fsize s' i)" if "tab_file s' x t = Some i" for x t i
  proof (cases "(x, t) = (win, tab)")
    case True
    then show ?thesis using that new n D(9) by (simp add: f)
  next
    case False
    then have "tab_file s x t = Some i" using that by (auto simp: f split: if_splits)
    then show ?thesis using lt [OF _ False] D(3) same n by fastforce
  qed
  show "x = x' \<and> t = t'" if "tab_file s' x t = Some i" "tab_file s' x' t' = Some i" for x t x' t' i
    using that lt [of x t i] lt [of x' t' i] D(4) [of x t i x' t']
    by (cases "(x, t) = (win, tab)"; cases "(x', t') = (win, tab)") (auto simp: f split: if_splits)
  show "tabs_used (wins s' x) \<le> 2048" if "x < 256" for x using D(5) that by (simp add: w)
  have tu: "tab < tabs_used (wins s win)" using D(7) [OF win, of tab] old by (cases "tab < tabs_used (wins s win)") auto
  show "tab_file s' x t \<noteq> None \<longleftrightarrow> t < tabs_used (wins s' x)" if "x < 256" for x t
    using D(6,7) [OF that, of t] tu
    by (cases "t < tabs_used (wins s x)") (auto simp: f w)
  show "win_tabs (wins s' x) t < tabs_used (wins s' x)" if "x < 256" "t < 2048" for x t
    using D(8) that by (simp add: w)
qed

lemma replaced_coherent:
  assumes r: "replaced win tab old new s s'" and ok: "files_ok L s" and m: "coherent s m"
    and new: "tab_size (inode s' new) \<noteq> 0"
  shows "coherent s' m"
proof -
  note D = files_okD [OF ok]
  have old: "tab_file s win tab = Some old" and n: "new = next_inode s" "next_inode s' = new + 1"
    and f: "tab_file s' = (tab_file s)(win := (tab_file s win)(tab := Some new))"
    and same: "\<And>j. j \<noteq> old \<Longrightarrow> j \<noteq> new \<Longrightarrow> inode s' j = inode s j" and one: "tab_size (inode s' old) = 1"
    using r by (simp_all add: replaced_def)
  have "mapping_ok s' w t (m w t)" if w: "w < 256" for w t
  proof (cases "off_mmap (m w t) = 0")
    case False
    let ?k = "off_mmap (m w t)"
    have "mapping_ok s w t (m w t)" using m w by (simp add: coherent_def shf_const_eq)
    then obtain j where j: "tab_file s w t = Some j" "tab_size (inode s j) \<noteq> 0" "4096 \<le> off_size (m w t)" "?k < new"
      "?k = j \<or> tab_size (inode s ?k) = 1 \<and> (\<forall>w t. tab_file s w t \<noteq> Some ?k)"
      using False unfolding mapping_ok_def n by blast
    have old_gone: "\<forall>x y. tab_file s' x y \<noteq> Some old"
    proof (intro allI notI)
      fix x y assume o: "tab_file s' x y = Some old"
      show False
      proof (cases "(x, y) = (win, tab)")
        case True
        then show False using o D(2) [OF old] n by (auto simp: f)
      next
        case False
        then have "tab_file s x y = Some old" using o by (auto simp: f split: if_splits)
        then show False using D(4) [OF old] False by blast
      qed
    qed
    have gone: "tab_size (inode s' ?k) = 1 \<and> (\<forall>x y. tab_file s' x y \<noteq> Some ?k)"
      if k: "tab_size (inode s ?k) = 1" "\<forall>w t. tab_file s w t \<noteq> Some ?k"
    proof -
      have "?k \<noteq> old" "?k \<noteq> new" using k(2) old j(4) by auto
      then show ?thesis using same k by (simp add: f)
    qed
    have lt: "?k < next_inode s'" using j(4) n by simp
    show ?thesis
    proof (cases "(w, t) = (win, tab)")
      case True
      then have "j = old" using j(1) old by simp
      then have "tab_size (inode s' ?k) = 1 \<and> (\<forall>x y. tab_file s' x y \<noteq> Some ?k)"
        using j(5) one old_gone gone by metis
      then show ?thesis using True j(3) new lt by (auto simp: mapping_ok_def f)
    next
      case False
      have "j \<noteq> old" using D(4) [OF old, of w t] j(1) False by auto
      moreover have "j \<noteq> new" using D(2) [OF j(1)] n by simp
      ultimately have "inode s' j = inode s j" by (rule same)
      moreover have "tab_file s' w t = Some j" using False j(1) by (auto simp: f)
      ultimately show ?thesis using j(2,3,5) lt gone unfolding mapping_ok_def by metis
    qed
  qed (simp add: mapping_ok_def)
  then show ?thesis by (simp add: coherent_def shf_const_eq)
qed

section \<open>shf_tab_shrink\<close>

definition shf_room :: "nat \<Rightarrow> shf \<Rightarrow> bool" where
  "shf_room n s \<longleftrightarrow> room s n (init_tab 69632) \<and> (\<forall>win < SHF_WINS_PER_SHF. \<forall>tab. room s n (table s win tab))"

lemma quiet_counters:
  assumes ok: "shf_ok s" and st: "same_thread s s'" and r: "same_routes s s'"
    and e: "tab_file s' = tab_file s" "inode s' = inode s" "fsize s' = fsize s" "next_inode s' = next_inode s"
      "tabs s' = tabs s"
  shows "quiet s s'"
proof -
  note D = shf_okD [OF ok]
  have t: "table s' = table s" by (simp add: table_def e fun_eq_iff split: option.split)
  have c: "coherent s' m" if "coherent s m" for m using coherent_contents [OF that e(1,4)] by (simp add: e)
  have f: "files_ok (lens_of s) s'"
    using files_okD(3) [OF D(2)] by (intro files_ok_contents [OF D(2) e(1,4) r]) (simp add: e)
  have "routes_ok s'" by (rule routes_ok_contents [OF D(3) r]) (simp add: t)
  then show ?thesis using D(1,4) f c st same_threadD(2) [OF st] kv_same [OF r, of "lens_of s"]
    by (simp add: quiet_def shf_ok_def e t)
qed

lemma quietD:
  assumes "quiet s s'"
  shows "same_thread s s'" "shf_ok s'" "coherent s m \<Longrightarrow> coherent s' m" "kv (lens_of s) s' = kv (lens_of s) s"
    "lens_of s' = lens_of s"
  using assms same_threadD(2) [of s s'] by (auto simp: quiet_def)

lemma shf_room_less: "shf_room n s \<Longrightarrow> m \<le> n \<Longrightarrow> shf_room m s"
proof -
  assume r: "shf_room n s" and le: "m \<le> n"
  have "room s m t" if "room s n t" for t by (rule room_mono [OF that]) (simp add: le)
  then show ?thesis using r unfolding shf_room_def by blast
qed

lemma shf_room_mono:
  assumes "shf_room n s" "same_thread s s'"
    and le: "\<And>w t. w < 256 \<Longrightarrow> tab_used (table s' w t) \<le> 65560
      \<or> tab_used (table s' w t) \<le> tab_used (table s w t)
      \<or> (\<exists>t'. tab_used (table s' w t) \<le> tab_used (table s w t'))"
  shows "shf_room n s'"
proof -
  have "room s n (table s' w t)" if w: "w < 256" for w t
  proof -
    have "room s n (init_tab 69632)" "\<And>t'. room s n (table s w t')"
      using assms(1) w by (simp_all add: shf_room_def shf_const_eq)
    then show ?thesis using le [OF w, of t] room_mono [of s n _ "table s' w t" n] by (metis add_le_cancel_right init_tab_fields(2))
  qed
  then show ?thesis using assms(1) by (simp add: shf_room_def room_thread [OF assms(2)] shf_const_eq)
qed

lemma shf_tab_create_new:
  assumes "tab_file s win tab = None"
  shows "\<exists>s'. shf_tab_create win tab s = s' \<and> same_thread s s' \<and> wins s' = wins s \<and> tabs s' = tabs s
     \<and> tab_file s' = (tab_file s)(win := (tab_file s win)(tab := Some (next_inode s)))
     \<and> next_inode s' = next_inode s + 1 \<and> inode s' = (inode s)(next_inode s := zero_tab)
     \<and> fsize s' = (fsize s)(next_inode s := 69632)"
proof -
  have "(\<lambda>a. if a < n then tab_data zero_tab a else 0) = tab_data zero_tab" for n
    by (auto simp: zero_tab_def)
  then have "zero_tab\<lparr>tab_data := \<lambda>a. if a < n then tab_data zero_tab a else 0\<rparr> = zero_tab" for n by simp
  then show ?thesis
    using assms
    by (simp add: shf_tab_create_def open_creat_def Let_def ftruncate_def upd_inode_def same_thread_def SHF_MOD_PAGE_tab
        cong: if_cong)
qed

lemma zero_tab_inode_ok: "inode_ok L zero_tab 69632"
  using SHF_MOD_PAGE_idem [of TAB_DATA_OFFSET] by (simp add: inode_ok_def SHF_MOD_PAGE_tab)

text \<open>The part of the operation that makes the new file and leaves the process ready to copy.\<close>

lemma shrink_prepare:
  assumes ok: "shf_ok s" and f: "tab_file s win tab = Some old" and win: "win < 256"
    and t: "tab_ok (lens_of s) (inode s old)" and room: "room s 0 (inode s old)" "room s 0 (init_tab 69632)"
  shows "\<exists>s2 s3. unlink win tab s = Inr s2
     \<and> get_tab_mmap win tab (shf_tab_create win tab (set_off win tab 0 (off_size (tabs s2 win tab)) s2)) = Inr (next_inode s, s3)
     \<and> movable win tab old (next_inode s) s3 \<and> same_thread s s3 \<and> same_routes s s3
     \<and> tab_file s3 = (tab_file s)(win := (tab_file s win)(tab := Some (next_inode s)))
     \<and> next_inode s3 = next_inode s + 1 \<and> (\<forall>j. j \<noteq> next_inode s \<longrightarrow> inode s3 j = inode s j \<and> fsize s3 j = fsize s j)
     \<and> inode s3 (next_inode s) = init_tab 69632
     \<and> (\<forall>w x. (w, x) \<noteq> (win, tab) \<longrightarrow> tabs s3 w x = tabs s w x)"
proof -
  note D = shf_okD [OF ok]
  let ?n = "next_inode s"
  define s2 where "s2 = s\<lparr>tab_file := (tab_file s)(win := (tab_file s win)(tab := None))\<rparr>"
  define s4 where "s4 = set_off win tab 0 (off_size (tabs s2 win tab)) s2"
  have s4: "tab_file s4 win tab = None" "same_thread s s4" "wins s4 = wins s" "inode s4 = inode s"
    "fsize s4 = fsize s" "next_inode s4 = ?n" "tab_file s4 = (tab_file s)(win := (tab_file s win)(tab := None))"
    by (simp_all add: s4_def s2_def) (simp add: same_thread_def set_off_def)
  have m4: "off_mmap (tabs s4 win tab) = 0" "\<And>w x. (w, x) \<noteq> (win, tab) \<Longrightarrow> tabs s4 w x = tabs s w x"
    by (auto simp: s4_def s2_def)
  obtain s5 where s5: "shf_tab_create win tab s4 = s5" "same_thread s4 s5" "wins s5 = wins s" "tabs s5 = tabs s4"
     "tab_file s5 = (tab_file s)(win := (tab_file s win)(tab := Some ?n))"
     "next_inode s5 = ?n + 1" "inode s5 = (inode s)(?n := zero_tab)" "fsize s5 = (fsize s)(?n := 69632)"
    using shf_tab_create_new [OF s4(1)] by (auto simp: s4)
  have lt: "tab < 2048" using files_okD(5) [OF D(2) win] files_okD(7) [OF D(2) win, of tab] f by (cases "tab < 2048") auto
  have "tab_file s5 win tab = Some ?n" "inode_ok (lens_of s) (inode s5 ?n) (fsize s5 ?n)" "off_mmap (tabs s5 win tab) = 0"
    using zero_tab_inode_ok m4 by (simp_all add: s5)
  then obtain s3 where g: "get_tab_mmap win tab s5 = Inr (?n, s3)" "got_tab win tab ?n s5 s3"
    using get_tab_unmapped lt by blast
  have z: "tab_size zero_tab = 0" by (simp add: zero_tab_def)
  have s3: "same_thread s s3" "same_routes s s3" "tab_file s3 = tab_file s5" "next_inode s3 = ?n + 1"
    "fsize s3 = fsize s5" "inode s3 = (inode s)(?n := init_tab 69632)"
    "tabs s3 win tab = \<lparr>off_mmap = ?n, off_size = 69632\<rparr>" "\<And>w x. (w, x) \<noteq> (win, tab) \<Longrightarrow> tabs s3 w x = tabs s w x"
    using g(2) same_thread_trans [OF same_thread_trans [OF s4(2) s5(2)]] s5 m4
    by (auto simp: got_tab_def init_of_def z same_routes_def)
  have lt: "old < ?n" using files_okD(2) [OF D(2) f] .
  have "routed (wins s win) tab (inode s old)"
    using D(3) win table_Some [OF f] by (simp add: routes_ok_def shf_const_eq) metis
  then have b: "bounded (lens_of s) (inode s old)" by (rule routed_bounded)
  have "tab_data_used (inode s old) + 65560 \<le> tab_used (inode s old)"
    using tab_okD(7) [OF t] by (simp add: shf_const_eq)
  then have "room s3 (tab_data_used (inode s old)) (init_tab 69632)"
    unfolding room_thread [OF s3(1)] by (intro room_mono [OF room(1)]) simp
  then have "movable win tab old ?n s3"
    using D(1) lt t b init_of_ok(1) [OF zero_tab_inode_ok] same_threadD(2) [OF s3(1)]
    by (simp add: movable_def s3 s5 init_of_def z)
  moreover have "unlink win tab s = Inr s2" by (simp add: unlink_def f s2_def)
  ultimately show ?thesis using g(1) s3 s5 s4_def by auto
qed


lemma shf_roomD:
  assumes "shf_room n s" "win < 256"
  shows "room s n (table s win tab)" "room s n (init_tab 69632)"
  using assms by (auto simp: shf_room_def shf_const_eq)

lemma room_less: "room s n t \<Longrightarrow> room s 0 t"
  by (erule room_mono) simp

text \<open>The whole replacement, for a table the process has just mapped.\<close>

lemma shrink_replace:
  assumes ok: "shf_ok s" and f: "tab_file s win tab = Some old" and win: "win < 256"
    and t: "tab_ok (lens_of s) (inode s old)" and room: "room s 0 (inode s old)" "room s 0 (init_tab 69632)"
  shows "\<exists>s'. shrink_end win tab old s = Inr s'
     \<and> same_thread s s' \<and> replaced win tab old (next_inode s) s s' \<and> mapped win tab (next_inode s) s s'
     \<and> inode_ok (lens_of s) (inode s' (next_inode s)) (fsize s' (next_inode s))
     \<and> tab_ok (lens_of s) (inode s' (next_inode s))
     \<and> slot (lens_of s) (inode s' (next_inode s)) = slot (lens_of s) (inode s old)
     \<and> tab_data_free (inode s' (next_inode s)) = 0 \<and> tab_used (inode s' (next_inode s)) \<le> tab_used (inode s old)
     \<and> live (inode s' old) = {}"
proof -
  let ?n = "next_inode s"
  obtain s2 s3 where p: "unlink win tab s = Inr s2"
     "get_tab_mmap win tab (shf_tab_create win tab (set_off win tab 0 (off_size (tabs s2 win tab)) s2)) = Inr (?n, s3)"
     "movable win tab old ?n s3" "same_thread s s3" "same_routes s s3"
     "tab_file s3 = (tab_file s)(win := (tab_file s win)(tab := Some ?n))"
     "next_inode s3 = ?n + 1" "\<And>j. j \<noteq> ?n \<Longrightarrow> inode s3 j = inode s j \<and> fsize s3 j = fsize s j"
     "inode s3 ?n = init_tab 69632" "\<And>w x. (w, x) \<noteq> (win, tab) \<Longrightarrow> tabs s3 w x = tabs s w x"
    using shrink_prepare [OF ok f win t room] by metis
  have oln: "old \<noteq> ?n" using p(3) by (simp add: movable_def)
  let ?M = "slots \<inter> live (inode s old)"
  obtain s4 where run: "shrink_refs win tab old slot_list ?n s3 = Inr (?n, s4)" and m: "moved win tab old ?n ?M s3 s4"
    using shrink_refs_ok [OF p(3) slot_list_props(1)] p(8) [OF oln] p(9) by (auto simp: slot_list_props)
  define s' where "s' = (upd_inode old (\<lambda>t. t\<lparr>tab_size := 1\<rparr>) s4)\<lparr>count_mmap := u32_sub (count_mmap s4) 1\<rparr>"
  have s': "tab_file s' = tab_file s4" "next_inode s' = next_inode s4" "fsize s' = fsize s4" "tabs s' = tabs s4"
    "wins s' = wins s4" "inode s' = (inode s4)(old := (inode s4 old)\<lparr>tab_size := 1\<rparr>)" "same_thread s4 s'"
    by (simp_all add: s'_def upd_inode_def same_thread_def)
  have L: "lens_of s3 = lens_of s" using same_threadD(2) [OF p(4)] .
  have c: "copied (lens_of s) ?M (inode s old) (init_tab 69632) (inode s4 old) (inode s4 ?n)"
    and i: "inode_ok (lens_of s) (inode s4 ?n) (fsize s4 ?n)"
    using m p(8) [OF oln] by (simp_all add: moved_def L p(9))
  have st: "same_thread s s'"
    using m by (intro same_thread_trans [OF p(4) same_thread_trans [OF _ s'(7)]]) (simp add: moved_def)
  have "replaced win tab old ?n s s'"
    using m p f oln unfolding replaced_def moved_def s' same_routes_def by simp
  moreover have "mapped win tab ?n s s'"
    using m p(10) oln by (simp add: mapped_def moved_def s')
  moreover have "slot (lens_of s) (inode s4 ?n) = slot (lens_of s) (inode s old)"
  proof
    fix x show "slot (lens_of s) (inode s4 ?n) x = slot (lens_of s) (inode s old) x"
      using c slot_None_iff [of "lens_of s" "inode s old" x] by (auto simp: copied_def live_def)
  qed
  moreover have "tab_used (inode s4 ?n) \<le> tab_used (inode s old)"
  proof -
    have "tab_used (inode s4 ?n) + tab_data_used (inode s4 old) = 65560 + tab_data_used (inode s old)"
      using c unfolding copied_def by simp
    then show ?thesis using tab_okD(7) [OF t] by (simp add: shf_const_eq)
  qed
  moreover have "tab_ok (lens_of s) (inode s4 ?n)" "tab_data_free (inode s4 ?n) = 0"
    using c unfolding copied_def by blast+
  moreover have "live (inode s4 old) = {}"
  proof -
    have "slot (lens_of s) (inode s4 old) x = None" for x
      using c slot_None_iff [of "lens_of s" "inode s old" x] by (auto simp: copied_def live_def)
    then show ?thesis using slot_None_iff [of "lens_of s" "inode s4 old"] by blast
  qed
  then have "live (inode s' old) = {}" by (simp add: s'(6) live_def slot_pos_def)
  moreover have "shrink_end win tab old s = Inr s'" using p(1,2) run by (simp add: shrink_end_def Let_def s'_def upd_inode_def)
  ultimately show ?thesis using i oln st by (intro exI [of _ s']) (simp add: s'(3,6))
qed

text \<open>Finding the table: the process maps the current file, and nothing that is stored changes.\<close>

lemma shrink_begin_ok:
  assumes ok: "shf_ok s" and win: "win < 256" and tab: "tab < tabs_used (wins s win)" and room: "shf_room n s"
  shows "\<exists>old s1. shrink_begin win tab s = Inr (old, s1) \<and> tab_file s win tab = Some old \<and> tab_file s1 win tab = Some old
     \<and> quiet s s1 \<and> same_routes s s1 \<and> shf_room n s1 \<and> tab_ok (lens_of s1) (inode s1 old)
     \<and> (\<forall>w x. slot (lens_of s) (table s1 w x) = slot (lens_of s) (table s w x))"
proof -
  define s0 where "s0 = upd_win win (\<lambda>w. w\<lparr>tabs_shrunk := u64 (tabs_shrunk w + 1)\<rparr>) s"
  have st0: "same_thread s s0" and r0: "same_routes s s0" by (simp_all add: s0_def same_routes_def)
  have q0: "quiet s s0" by (rule quiet_counters [OF ok st0 r0]) (simp_all add: s0_def)
  note D0 = shf_okD [OF quietD(2) [OF q0]]
  have t0: "table s0 = table s" by (simp add: table_def s0_def fun_eq_iff split: option.split)
  have "tab < tabs_used (wins s0 win)" using tab r0 by (simp add: same_routes_def)
  then obtain old s1 where old: "tab_file s0 win tab = Some old" and g: "get_tab_mmap win tab s0 = Inr (old, s1)"
    "got_tab win tab old s0 s1" using get_tab_mmap_ok [OF D0(2,4) win] by blast
  note G = got_tab_quiet [OF quietD(2) [OF q0] g(2) old]
  have q1: "quiet s s1" by (rule quiet_trans [OF q0 G(1)])
  note Q1 = quietD [OF q1]
  have f1: "tab_file s1 win tab = Some old" and r1: "same_routes s s1"
    using g(2) old same_routes_trans [OF r0] by (simp_all add: got_tab_def)
  have t1: "table s1 = (table s)(win := (table s win)(tab := init_of (table s win tab)))"
    using set_table_table [OF G(2) D0(2)] table_Some [OF old] by (simp add: t0)
  have room1: "shf_room n s1"
    by (rule shf_room_mono [OF room Q1(1)]) (auto simp: t1 init_of_def)
  have e1: "table s win tab = inode s0 old" "inode s1 old = init_of (inode s0 old)"
    using table_Some [OF old] g(2) by (simp_all add: t0 got_tab_def)
  have sl1: "slot (lens_of s) (table s1 w x) = slot (lens_of s) (table s w x)" for w x
    using G(7) by (simp add: t1 e1 quietD(5) [OF q0])
  have "tab_ok (lens_of s1) (inode s1 old)" using G(4) by (simp add: Q1(5) quietD(5) [OF q0])
  moreover have "shrink_begin win tab s = Inr (old, s1)" using g(1) by (simp add: shrink_begin_def s0_def)
  moreover have "tab_file s win tab = Some old" using old by (simp add: s0_def)
  ultimately show ?thesis using f1 q1 r1 room1 sl1 by blast
qed

text \<open>
  Replacing the file changes nothing of what the instance stores and leaves the table without garbage.
  The process has the new file mapped; in the old one no record is left.
\<close>

lemma shrink_end_ok:
  assumes ok: "shf_ok s" and win: "win < 256" and f: "tab_file s win tab = Some old" and room: "shf_room n s"
    and t: "tab_ok (lens_of s) (inode s old)"
  shows "\<exists>s'. shrink_end win tab old s = Inr s' \<and> quiet s s' \<and> same_routes s s' \<and> shf_room n s'
     \<and> tab_data_free (table s' win tab) = 0 \<and> (\<forall>w x. slot (lens_of s) (table s' w x) = slot (lens_of s) (table s w x))
     \<and> replaced win tab old (next_inode s) s s' \<and> mapped win tab (next_inode s) s s' \<and> live (inode s' old) = {}
     \<and> tab_ok (lens_of s) (inode s' (next_inode s))"
proof -
  note D = shf_okD [OF ok]
  have tb: "table s win tab = inode s old" by (rule table_Some [OF f])
  note R = shf_roomD [OF room win]
  have rm: "room s 0 (inode s old)" "room s 0 (init_tab 69632)" using R(1) [of tab] R(2) by (simp_all add: tb room_less)
  let ?n = "next_inode s"
  obtain s2 where s2: "shrink_end win tab old s = Inr s2" "same_thread s s2" "replaced win tab old ?n s s2"
    "mapped win tab ?n s s2" "inode_ok (lens_of s) (inode s2 ?n) (fsize s2 ?n)" "tab_ok (lens_of s) (inode s2 ?n)"
    "slot (lens_of s) (inode s2 ?n) = slot (lens_of s) (inode s old)" "tab_data_free (inode s2 ?n) = 0"
    "tab_used (inode s2 ?n) \<le> tab_used (inode s old)" "live (inode s2 old) = {}"
    using shrink_replace [OF ok f win t rm] by metis
  have nz: "tab_size (inode s2 ?n) \<noteq> 0" "4096 \<le> tab_size (inode s2 ?n)"
    using tab_ok_size_nonzero [OF s2(6)] by auto
  have rr: "same_routes s s2" using s2(3) by (simp add: replaced_def)
  have L: "lens_of s2 = lens_of s" using same_threadD(2) [OF s2(2)] .
  have t2: "table s2 = (table s)(win := (table s win)(tab := inode s2 ?n))"
    by (rule replaced_table [OF s2(3) D(2)])
  have sl: "slot (lens_of s) (table s2 w x) = slot (lens_of s) (table s w x)" for w x
    using s2(7) by (auto simp: t2 tb)
  have co: "coherent s2 m" if "coherent s m" for m
    using replaced_coherent [OF s2(3) D(2) that nz(1)] .
  have "files_ok (lens_of s) s2" using replaced_files_ok [OF s2(3) D(2) s2(5) win] .
  moreover have "routed (wins s2 w) x (table s2 w x)" if "w < 256" for w x
    using D(3) that rr sl
    by (simp add: routes_ok_def shf_const_eq routed_slot [of _ _ _ "lens_of s"] same_routes_def)
  then have "routes_ok s2" by (simp add: routes_ok_def shf_const_eq)
  moreover have "coherent s2 (tabs s2)"
    using replaced_coherent [OF s2(3) D(2,4) nz(1)] s2(3) nz
    by (intro coherent_mapped [OF _ s2(4)]) (auto simp: replaced_def)
  moreover have "kv (lens_of s) s2 = kv (lens_of s) s" by (rule kv_same [OF rr sl])
  ultimately have "quiet s s2" using D(1) s2(2) co by (simp add: quiet_def shf_ok_def L)
  moreover have "shf_room n s2"
    using s2(9) by (intro shf_room_mono [OF room s2(2)]) (auto simp: t2 simp flip: tb)
  ultimately show ?thesis using s2 rr sl by (auto simp: t2)
qed

text \<open>
  Replacing a tab file returns, changes nothing of what the instance stores, and leaves the table
  without garbage.
\<close>

lemma shf_tab_shrink_ok:
  assumes ok: "shf_ok s" and win: "win < 256" and tab: "tab < tabs_used (wins s win)" and room: "shf_room n s"
  shows "\<exists>s'. shf_tab_shrink win tab s = Inr s' \<and> quiet s s' \<and> same_routes s s' \<and> shf_room n s'
     \<and> tab_data_free (table s' win tab) = 0 \<and> (\<forall>w x. slot (lens_of s) (table s' w x) = slot (lens_of s) (table s w x))"
proof -
  obtain old s1 where s1: "shrink_begin win tab s = Inr (old, s1)" "tab_file s1 win tab = Some old" "quiet s s1"
    "same_routes s s1" "shf_room n s1" "tab_ok (lens_of s1) (inode s1 old)"
    "\<forall>w x. slot (lens_of s) (table s1 w x) = slot (lens_of s) (table s w x)"
    using shrink_begin_ok [OF ok win tab room] by blast
  note L = quietD(5) [OF s1(3)]
  obtain s2 where s2: "shrink_end win tab old s1 = Inr s2" "quiet s1 s2" "same_routes s1 s2" "shf_room n s2"
    "tab_data_free (table s2 win tab) = 0" "\<forall>w x. slot (lens_of s) (table s2 w x) = slot (lens_of s) (table s1 w x)"
    using shrink_end_ok [OF quietD(2) [OF s1(3)] win s1(2,5,6)] by (auto simp: L)
  have "shf_tab_shrink win tab s = Inr s2" using s1(1) s2(1) by (simp add: shf_tab_shrink_parts)
  then show ?thesis using quiet_trans [OF s1(3) s2(2)] same_routes_trans [OF s1(4) s2(3)] s1(7) s2(4-6) by auto
qed

section \<open>The redirecting loop\<close>

text \<open>The elements the switch is on for.\<close>

fun every_other :: "bool \<Rightarrow> 'a list \<Rightarrow> 'a list" where
  "every_other sw [] = []"
| "every_other sw (x # xs) = (if sw then [x] else []) @ every_other (\<not> sw) xs"

lemma every_other_subset: "set (every_other sw xs) \<subseteq> set xs"
  by (induction sw xs rule: every_other.induct) auto

lemma every_other_split:
  "distinct (x # y # xs) \<Longrightarrow> x \<notin> set (every_other False (x # y # xs)) \<and> y \<in> set (every_other False (x # y # xs))"
  using every_other_subset [of False xs] by auto

text \<open>The table indexes that a window directs to a table, in the order of the loop.\<close>

definition tab2s_of :: "(nat \<Rightarrow> nat) \<Rightarrow> nat \<Rightarrow> nat list" where
  "tab2s_of m tab = filter (\<lambda>tab2. m tab2 = tab) [0..<SHF_TABS_PER_WIN]"

lemma part_redirect_ok:
  assumes "distinct xs" "\<And>x. x \<in> set xs \<Longrightarrow> m x < tab_new"
  shows "part_redirect tab_old tab_new xs sw m = Inr (\<lambda>t. if t \<in> set (every_other sw (filter (\<lambda>t. m t = tab_old) xs))
    then tab_new else m t)"
  using assms
proof (induction xs arbitrary: sw m)
  case (Cons x xs)
  show ?case
  proof (cases "m x = tab_old")
    case True
    let ?m = "m(x := if sw then tab_new else tab_old)"
    have f: "filter (\<lambda>t. ?m t = tab_old) xs = filter (\<lambda>t. m t = tab_old) xs"
      using Cons.prems(1) by (intro filter_cong) auto
    have "part_redirect tab_old tab_new xs (\<not> sw) ?m
        = Inr (\<lambda>t. if t \<in> set (every_other (\<not> sw) (filter (\<lambda>t. ?m t = tab_old) xs)) then tab_new else ?m t)"
      using Cons.prems by (intro Cons.IH) (auto split: if_splits)
    also have "(\<lambda>t. if t \<in> set (every_other (\<not> sw) (filter (\<lambda>t. ?m t = tab_old) xs)) then tab_new else ?m t)
        = (\<lambda>t. if t \<in> set (every_other sw (filter (\<lambda>t. m t = tab_old) (x # xs))) then tab_new else m t)"
      unfolding f using True Cons.prems(1) every_other_subset [of "\<not> sw" "filter (\<lambda>t. m t = tab_old) xs"]
      by (auto simp: fun_eq_iff)
    finally show ?thesis using True Cons.prems(2) [of x] by (cases sw) (simp_all add: assertE_def fun_upd_def)
  next
    case False
    then show ?thesis using Cons by (simp add: assertE_def)
  qed
qed simp

text \<open>The routes of a window after a split of \<open>tab_old\<close>.\<close>

definition split_routes :: "(nat \<Rightarrow> nat) \<Rightarrow> nat \<Rightarrow> nat \<Rightarrow> nat \<Rightarrow> nat" where
  "split_routes m tab_old tab_new t =
     (if t \<in> set (every_other False (tab2s_of m tab_old)) then tab_new else m t)"

lemma split_routes_cases:
  "split_routes m tab_old tab_new t = m t \<or> m t = tab_old \<and> split_routes m tab_old tab_new t = tab_new"
  using every_other_subset [of False "tab2s_of m tab_old"] by (auto simp: split_routes_def tab2s_of_def)

section \<open>The moving loop\<close>

lemma moved_counters:
  assumes mv: "movable win tab old new s" and g: "\<And>w. win_tabs (g w) = win_tabs w" "\<And>w. tabs_used (g w) = tabs_used w"
  shows "moved win tab old new {} s (upd_win win g s)"
  using moved_refl [OF mv] g by (simp add: moved_def mapped_def same_routes_def)

text \<open>The slots of the old table whose table index is now directed to the new one.\<close>

definition leaving :: "(nat \<Rightarrow> nat) \<Rightarrow> nat \<Rightarrow> tab_mmap \<Rightarrow> (nat \<times> nat) set" where
  "leaving m tab_new t = {rf \<in> live t. m (ref_tab (tab_row t (fst rf) (snd rf))) = tab_new}"

lemma copied_ref_tab:
  assumes "copied L M old new old' new'" "rf \<in> live old'"
  shows "ref_tab (tab_row old' (fst rf) (snd rf)) = ref_tab (tab_row old (fst rf) (snd rf))"
proof -
  have "slot L old' rf = slot L old rf"
    using assms copied_live(1) [OF assms(1)] by (auto simp: copied_def)
  then show ?thesis using assms(2) copied_live(1) [OF assms(1)] by (simp add: slot_def Let_def)
qed

lemma copied_leaving:
  assumes "copied L M old new old' new'"
  shows "leaving m tab_new old' = leaving m tab_new old - M"
  using copied_ref_tab [OF assms] copied_live(1) [OF assms] by (auto simp: leaving_def)

lemma part_refs_ok:
  assumes "movable win tab_new old new s" "distinct rfs" "set rfs \<subseteq> slots" "set rfs \<inter> live (inode s new) = {}"
    "tab_old \<noteq> tab_new" "tab_new < 2048" "tab_old < 2048" "m = win_tabs (wins s win)"
    "\<And>rf. rf \<in> live (inode s old) \<Longrightarrow> m (ref_tab (tab_row (inode s old) (fst rf) (snd rf))) \<in> {tab_old, tab_new}"
  shows "\<exists>s'. part_refs win tab_old tab_new old rfs new s = Inr (new, s')
     \<and> moved win tab_new old new (set rfs \<inter> leaving m tab_new (inode s old)) s s'"
  using assms
proof (induction rfs arbitrary: s)
  case Nil
  then show ?case by (simp add: moved_refl)
next
  case (Cons rf rfs)
  note mv = Cons.prems(1) and ne = Cons.prems(5-7)
  let ?tab = "m (ref_tab (tab_row (inode s old) (fst rf) (snd rf)))"
  have step: "\<exists>s'. part_refs win tab_old tab_new old rfs new s1 = Inr (new, s')
      \<and> moved win tab_new old new (M \<union> (set rfs \<inter> leaving m tab_new (inode s old))) s s'"
    if s1: "moved win tab_new old new M s s1" and M: "M \<inter> set rfs = {}" for s1 M
  proof -
    have c: "copied (lens_of s) M (inode s old) (inode s new) (inode s1 old) (inode s1 new)"
      and w: "win_tabs (wins s1 win) = win_tabs (wins s win)" using s1 by (simp_all add: moved_def same_routes_def)
    have "set rfs \<inter> live (inode s1 new) = {}" using Cons.prems(4) M by (auto simp: copied_live(2) [OF c])
    moreover have "m (ref_tab (tab_row (inode s1 old) (fst x) (snd x))) \<in> {tab_old, tab_new}"
      if "x \<in> live (inode s1 old)" for x
      using copied_ref_tab [OF c that] Cons.prems(9) [of x] that copied_live(1) [OF c] by simp
    ultimately obtain s2 where s2: "part_refs win tab_old tab_new old rfs new s1 = Inr (new, s2)"
      "moved win tab_new old new (set rfs \<inter> leaving m tab_new (inode s1 old)) s1 s2"
      using Cons.IH [OF moved_movable [OF s1 mv]] Cons.prems ne w by auto
    have "set rfs \<inter> leaving m tab_new (inode s1 old) = set rfs \<inter> leaving m tab_new (inode s old)"
      using copied_leaving [OF c] M by blast
    with s2 M moved_trans [OF s1] show ?thesis by (metis Int_assoc inf_bot_left)
  qed
  consider "slot_pos (inode s old) rf = 0" | "slot_pos (inode s old) rf \<noteq> 0" "?tab = tab_old"
    | "slot_pos (inode s old) rf \<noteq> 0" "?tab = tab_new"
    using Cons.prems(3,9) by (fastforce simp: live_def)
  then show ?case
  proof cases
    case 1
    then have "set (rf # rfs) \<inter> leaving m tab_new (inode s old) = {} \<union> (set rfs \<inter> leaving m tab_new (inode s old))"
      by (auto simp: leaving_def live_def)
    then show ?thesis using step [OF moved_refl [OF mv]] 1 by auto
  next
    case 2
    let ?g = "\<lambda>w. w\<lparr>tabs_parted_old := u64 (tabs_parted_old w + 1)\<rparr>"
    have "set (rf # rfs) \<inter> leaving m tab_new (inode s old) = {} \<union> (set rfs \<inter> leaving m tab_new (inode s old))"
      using 2 ne by (auto simp: leaving_def)
    then show ?thesis using step [OF moved_counters [OF mv, of ?g]] 2 ne Cons.prems(8)
      by (simp add: assertE_def shf_const_eq)
  next
    case 3
    let ?s = "upd_win win (\<lambda>w. w\<lparr>tabs_parted_new := u64 (tabs_parted_new w + 1)\<rparr>) s"
    have c: "moved win tab_new old new {} s ?s" by (rule moved_counters [OF mv]) simp_all
    have lv: "rf \<in> live (inode s old)" using 3 Cons.prems(3) by (simp add: live_def)
    obtain s1 where s1: "tab_ref_copy win tab_new old new rf ?s = Inr (new, s1)" "moved win tab_new old new {rf} ?s s1"
      using tab_ref_copy_ok [OF moved_movable [OF c mv], of rf] lv Cons.prems(4) by auto
    have "set (rf # rfs) \<inter> leaving m tab_new (inode s old) = {rf} \<union> (set rfs \<inter> leaving m tab_new (inode s old))"
      using 3 lv by (auto simp: leaving_def)
    moreover have "{rf} \<inter> set rfs = {}" using Cons.prems(2) by simp
    ultimately show ?thesis using step [of "{rf}" s1] moved_trans [OF c s1(2)] s1(1) 3 ne Cons.prems(8)
      by (auto simp: assertE_def shf_const_eq)
  qed
qed

section \<open>Adding a tab file\<close>

definition added :: "nat \<Rightarrow> shf \<Rightarrow> shf \<Rightarrow> bool" where
  "added win s s' \<longleftrightarrow> (let n = next_inode s; tab = tabs_used (wins s win) in
     tab_file s' = (tab_file s)(win := (tab_file s win)(tab := Some n)) \<and> next_inode s' = n + 1
     \<and> inode s' = (inode s)(n := init_tab 69632) \<and> fsize s' = (fsize s)(n := 69632)
     \<and> mapped win tab n s s')"

lemma part_prepare:
  assumes ok: "shf_ok s" and win: "win < 256" and u: "tabs_used (wins s win) < 2048"
  shows "\<exists>s'. get_tab_mmap win (tabs_used (wins s win)) (shf_tab_create win (tabs_used (wins s win)) s)
      = Inr (next_inode s, s')
     \<and> same_thread s s' \<and> same_routes s s' \<and> added win s s'"
proof -
  note D = shf_okD [OF ok]
  let ?n = "next_inode s" and ?u = "tabs_used (wins s win)"
  have none: "tab_file s win ?u = None" using files_okD(7) [OF D(2) win, of ?u] by simp
  have "mapping_ok s win ?u (tabs s win ?u)" using D(4) win by (simp add: coherent_def shf_const_eq)
  then have m: "off_mmap (tabs s win ?u) = 0" using none by (simp add: mapping_ok_def)
  obtain s5 where s5: "shf_tab_create win ?u s = s5" "same_thread s s5" "wins s5 = wins s" "tabs s5 = tabs s"
     "tab_file s5 = (tab_file s)(win := (tab_file s win)(?u := Some ?n))"
     "next_inode s5 = ?n + 1" "inode s5 = (inode s)(?n := zero_tab)" "fsize s5 = (fsize s)(?n := 69632)"
    using shf_tab_create_new [OF none] by auto
  have "tab_file s5 win ?u = Some ?n" "inode_ok (lens_of s) (inode s5 ?n) (fsize s5 ?n)" "off_mmap (tabs s5 win ?u) = 0"
    using zero_tab_inode_ok m by (simp_all add: s5)
  then obtain s3 where g: "get_tab_mmap win ?u s5 = Inr (?n, s3)" "got_tab win ?u ?n s5 s3"
    using get_tab_unmapped u by blast
  have z: "tab_size zero_tab = 0" by (simp add: zero_tab_def)
  have "same_thread s s3" "same_routes s s3" "added win s s3"
    using g(2) same_thread_trans [OF s5(2)] s5(3-8)
    by (auto simp: got_tab_def added_def Let_def mapped_def init_of_def z same_routes_def)
  with g(1) s5(1) show ?thesis by auto
qed

lemma added_files_ok:
  assumes a: "added win s s'" and ok: "files_ok L s" and win: "win < 256" and u: "tabs_used (wins s win) < 2048"
    and used: "\<And>w. tabs_used (wins s' w) = (if w = win then tabs_used (wins s win) + 1 else tabs_used (wins s w))"
    and route: "\<And>w t. w < 256 \<Longrightarrow> t < 2048 \<Longrightarrow> win_tabs (wins s' w) t < tabs_used (wins s' w)"
  shows "files_ok L s'"
proof (rule files_okI)
  note D = files_okD [OF ok]
  let ?n = "next_inode s" and ?u = "tabs_used (wins s win)"
  have f: "tab_file s' = (tab_file s)(win := (tab_file s win)(?u := Some ?n))" and n: "next_inode s' = ?n + 1"
    and i: "inode s' = (inode s)(?n := init_tab 69632)" "fsize s' = (fsize s)(?n := 69632)"
    using a by (simp_all add: added_def Let_def)
  show "0 < next_inode s'" using n by simp
  have old: "i < ?n \<and> 0 < i \<and> inode_ok L (inode s i) (fsize s i)" if "tab_file s x t = Some i" for x t i
    using D(1-3) [OF that] by blast
  have init: "inode_ok L (init_tab 69632) 69632"
    using init_of_ok(1) [OF zero_tab_inode_ok] by (simp add: init_of_def zero_tab_def)
  show "0 < i \<and> i < next_inode s' \<and> inode_ok L (inode s' i) (fsize s' i)" if "tab_file s' x t = Some i" for x t i
    using that old [of x t i] D(9) init by (cases "(x, t) = (win, ?u)") (auto simp: f n i split: if_splits)
  show "x = x' \<and> t = t'" if "tab_file s' x t = Some i" "tab_file s' x' t' = Some i" for x t x' t' i
    using that old [of x t i] old [of x' t' i] D(4) [of x t i x' t']
    by (cases "(x, t) = (win, ?u)"; cases "(x', t') = (win, ?u)") (auto simp: f split: if_splits)
  show "tabs_used (wins s' x) \<le> 2048" if "x < 256" for x using D(5) [OF that] u by (simp add: used)
  show "tab_file s' x t \<noteq> None \<longleftrightarrow> t < tabs_used (wins s' x)" if "x < 256" for x t
    using D(6,7) [OF that, of t]
    by (cases "t < tabs_used (wins s x)") (auto simp: f used less_Suc_eq)
qed (fact route)

lemma added_coherent:
  assumes a: "added win s s'" and ok: "files_ok L s" and m: "coherent s m" and win: "win < 256"
  shows "coherent s' m"
proof -
  note D = files_okD [OF ok]
  let ?n = "next_inode s" and ?u = "tabs_used (wins s win)"
  have f: "tab_file s' = (tab_file s)(win := (tab_file s win)(?u := Some ?n))" and n: "next_inode s' = ?n + 1"
    and i: "inode s' = (inode s)(?n := init_tab 69632)"
    using a by (simp_all add: added_def Let_def)
  have none: "tab_file s win ?u = None" using D(7) [OF win, of ?u] by simp
  have "mapping_ok s' w t (m w t)" if w: "w < 256" for w t
  proof (cases "off_mmap (m w t) = 0")
    case False
    let ?k = "off_mmap (m w t)"
    have "mapping_ok s w t (m w t)" using m w by (simp add: coherent_def shf_const_eq)
    then obtain j where j: "tab_file s w t = Some j" "tab_size (inode s j) \<noteq> 0" "4096 \<le> off_size (m w t)" "?k < ?n"
      "?k = j \<or> tab_size (inode s ?k) = 1 \<and> (\<forall>w t. tab_file s w t \<noteq> Some ?k)"
      using False unfolding mapping_ok_def by blast
    have "(w, t) \<noteq> (win, ?u)" using none j(1) by auto
    then have "tab_file s' w t = Some j" using j(1) by (auto simp: f)
    moreover have "inode s' j = inode s j" "inode s' ?k = inode s ?k" using D(2) [OF j(1)] j(4) by (simp_all add: i)
    moreover have "\<forall>x y. tab_file s' x y \<noteq> Some ?k" if "\<forall>x y. tab_file s x y \<noteq> Some ?k"
      using that j(4) by (simp add: f)
    moreover have "?k < next_inode s'" using j(4) n by simp
    ultimately show ?thesis using j(2,3,5) unfolding mapping_ok_def by metis
  qed (simp add: mapping_ok_def)
  then show ?thesis by (simp add: coherent_def shf_const_eq)
qed

text \<open>Moving records keeps the files and the mappings of others in order.\<close>

lemma moved_files_ok:
  assumes m: "moved win tab old new M s s'" and ok: "files_ok (lens_of s) s" and f: "tab_file s win' tab' = Some old"
    and fn: "tab_file s win tab = Some new" and nz: "tab_size (inode s old) \<noteq> 0" and on: "old \<noteq> new"
  shows "files_ok (lens_of s) s'" "coherent s c \<Longrightarrow> tab_size (inode s new) \<noteq> 0 \<Longrightarrow> coherent s' c"
proof -
  note I = inode_okD [OF files_okD(3) [OF ok f] nz]
  have c: "copied (lens_of s) M (inode s old) (inode s new) (inode s' old) (inode s' new)"
    and same: "tab_file s' = tab_file s" "next_inode s' = next_inode s" "same_routes s s'"
      "\<And>j. j \<noteq> old \<Longrightarrow> j \<noteq> new \<Longrightarrow> inode s' j = inode s j" "\<And>j. j \<noteq> new \<Longrightarrow> fsize s' j = fsize s j"
    and new: "inode_ok (lens_of s) (inode s' new) (fsize s' new)"
    using m by (simp_all add: moved_def)
  have o: "tab_ok (lens_of s) (inode s' old)" "tab_size (inode s' old) = tab_size (inode s old)"
    "tab_ok (lens_of s) (inode s' new)" using c unfolding copied_def by blast+
  have "inode_ok (lens_of s) (inode s' old) (fsize s' old)"
    using o I same(5) [OF on] by (simp add: inode_ok_def)
  then have "inode_ok (lens_of s) (inode s' i) (fsize s' i)" if "tab_file s x t = Some i" for x t i
    using files_okD(3) [OF ok that] new same(4,5) by (cases "i = old"; cases "i = new") auto
  then show "files_ok (lens_of s) s'" by (rule files_ok_contents [OF ok same(1-3)])
  show "coherent s' c" if "coherent s c" "tab_size (inode s new) \<noteq> 0"
  proof (rule coherent_contents [OF that(1) same(1,2)])
    fix x t i assume "tab_size (inode s i) \<noteq> 0"
    then show "tab_size (inode s' i) \<noteq> 0"
      using o tab_ok_size_nonzero [OF o(3)] same(4) [of i] nz by (cases "i = old"; cases "i = new") auto
  next
    fix i assume i: "\<forall>w t. tab_file s w t \<noteq> Some i" "tab_size (inode s i) = 1"
    have "i \<noteq> old" using i(1) f by auto
    moreover have "i \<noteq> new" using i(1) fn by auto
    ultimately show "tab_size (inode s' i) = 1" using same(4) i(2) by auto
  qed
qed

section \<open>shf_tab_part\<close>

text \<open>
  The window after the redirecting and the moving: the records of \<open>tab_old\<close> whose table index is
  directed to the new table are there.
\<close>

definition parted :: "nat \<Rightarrow> nat \<Rightarrow> nat \<Rightarrow> shf \<Rightarrow> shf \<Rightarrow> bool" where
  "parted win tab_old old s s' \<longleftrightarrow>
     (let n = next_inode s; u = tabs_used (wins s win); m = split_routes (win_tabs (wins s win)) tab_old u in
      same_thread s s' \<and> tab_file s' = (tab_file s)(win := (tab_file s win)(u := Some n))
      \<and> (\<forall>j. j \<noteq> old \<and> j \<noteq> n \<longrightarrow> inode s' j = inode s j)
      \<and> copied (lens_of s) (leaving m u (inode s old)) (inode s old) (init_tab 69632) (inode s' old) (inode s' n)
      \<and> (\<forall>w. win_tabs (wins s' w) = (if w = win then m else win_tabs (wins s w)))
      \<and> (\<forall>w. tabs_used (wins s' w) = (if w = win then u + 1 else tabs_used (wins s w)))
      \<and> files_ok (lens_of s) s' \<and> coherent s' (tabs s') \<and> (\<forall>c. coherent s c \<longrightarrow> coherent s' c))"

lemma parted_table:
  assumes p: "parted win tab_old old s s'" and ok: "files_ok (lens_of s) s" and f: "tab_file s win tab_old = Some old"
    and win: "win < 256"
  shows "table s' = (table s)(win := (table s win)(tab_old := inode s' old,
    tabs_used (wins s win) := inode s' (next_inode s)))"
proof -
  note D = files_okD [OF ok]
  let ?n = "next_inode s" and ?u = "tabs_used (wins s win)"
  have P: "tab_file s' = (tab_file s)(win := (tab_file s win)(?u := Some ?n))"
    "\<And>j. j \<noteq> old \<Longrightarrow> j \<noteq> ?n \<Longrightarrow> inode s' j = inode s j"
    using p by (simp_all add: parted_def Let_def)
  have ne: "tab_old \<noteq> ?u" using D(7) [OF win, of ?u] f by auto
  have "table s' w t = table s w t" if o: "(w, t) \<noteq> (win, tab_old)" "(w, t) \<noteq> (win, ?u)" for w t
  proof -
    have e: "tab_file s' w t = tab_file s w t" using o by (auto simp: P)
    have "inode s' j = inode s j" if "tab_file s w t = Some j" for j
    proof (rule P(2))
      show "j \<noteq> ?n" using D(2) [OF that] by simp
      show "j \<noteq> old" using D(4) [OF f, of w t] that o by auto
    qed
    then show ?thesis by (simp add: table_def e split: option.split)
  qed
  moreover have "table s' win tab_old = inode s' old" using ne f by (simp add: table_def P)
  moreover have "table s' win ?u = inode s' ?n" by (simp add: table_def P)
  ultimately show ?thesis using ne by (auto simp: fun_eq_iff)
qed

text \<open>Every UID denotes after the split what it denoted before.\<close>

lemma parted_kv:
  assumes p: "parted win tab_old old s s'" and ok: "files_ok (lens_of s) s" "routes_ok s"
    and f: "tab_file s win tab_old = Some old" and win: "win < 256"
  shows "kv (lens_of s) s' = kv (lens_of s) s"
proof
  let ?n = "next_inode s" and ?u = "tabs_used (wins s win)" and ?L = "lens_of s"
  let ?m = "win_tabs (wins s win)"
  let ?m' = "split_routes ?m tab_old ?u"
  note T = parted_table [OF p ok(1) f win]
  have c: "copied ?L (leaving ?m' ?u (inode s old)) (inode s old) (init_tab 69632) (inode s' old) (inode s' ?n)"
    and w: "\<And>w. win_tabs (wins s' w) = (if w = win then ?m' else win_tabs (wins s w))"
    using p by (simp_all add: parted_def Let_def)
  have c1: "slot ?L (inode s' old) x = (if x \<in> leaving ?m' ?u (inode s old) then None else slot ?L (inode s old) x)"
    "slot ?L (inode s' ?n) x = (if x \<in> leaving ?m' ?u (inode s old) then slot ?L (inode s old) x else None)" for x
    using c unfolding copied_def by simp_all
  have none: "tab_file s win ?u = None" using files_okD(7) [OF ok(1) win, of ?u] by simp
  have ne: "tab_old \<noteq> ?u" using none f by auto
  have tz: "table s win ?u = zero_tab" by (simp add: table_def none)
  have to: "table s win tab_old = inode s old" by (rule table_Some [OF f])
  have rt: "routed (wins s win) tab_old (inode s old)"
    using ok(2) win to by (simp add: routes_ok_def shf_const_eq) metis
  have lv: "x \<in> leaving ?m' ?u (inode s old) \<longleftrightarrow> ?m' t2 = ?u" if "slot ?L (inode s old) x = Some (t2, rnd, k, v)" for x t2 rnd k v
    using that by (simp add: slot_Some_iff leaving_def)
  fix x :: coord
  obtain w t2 r g where x: "x = (w, t2, r, g)" by (cases x)
  show "kv ?L s' x = kv ?L s x"
  proof (cases "w = win")
    case False
    then show ?thesis by (simp add: x kv_eq w T)
  next
    case True
    consider "?m t2 = tab_old" "?m' t2 = tab_old" | "?m t2 = tab_old" "?m' t2 = ?u" | "?m t2 \<noteq> tab_old" "?m' t2 = ?m t2"
      using split_routes_cases [of ?m tab_old ?u t2] by auto
    then show ?thesis
    proof cases
      case 1
      then show ?thesis using lv [of "(r, g)"] ne
        by (auto simp: x True kv_eq w T to c1 split: option.split)
    next
      case 2
      then show ?thesis using lv [of "(r, g)"] ne
        by (auto simp: x True kv_eq w T to c1 split: option.split)
    next
      case 3
      then show ?thesis
      proof (cases "?m t2 = ?u")
        case True
        have "t2 \<noteq> t3" if "slot ?L (inode s old) (r, g) = Some (t3, rnd, k, v)" for t3 rnd k v
        proof -
          have "?m t3 = tab_old" using rt that unfolding routed_slot [of _ _ _ ?L] by blast
          then show ?thesis using True ne by auto
        qed
        then show ?thesis using 3 True \<open>w = win\<close>
          by (auto simp: x kv_eq w T tz c1 split: option.split)
      qed (simp add: x True kv_eq w T)
    qed
  qed
qed


lemma parted_routes_ok:
  assumes p: "parted win tab_old old s s'" and ok: "files_ok (lens_of s) s" "routes_ok s"
    and f: "tab_file s win tab_old = Some old" and win: "win < 256"
  shows "routes_ok s'"
proof -
  let ?n = "next_inode s" and ?u = "tabs_used (wins s win)" and ?L = "lens_of s"
  let ?m = "win_tabs (wins s win)"
  let ?m' = "split_routes ?m tab_old ?u"
  note T = parted_table [OF p ok(1) f win]
  have c: "copied ?L (leaving ?m' ?u (inode s old)) (inode s old) (init_tab 69632) (inode s' old) (inode s' ?n)"
    and w: "\<And>w. win_tabs (wins s' w) = (if w = win then ?m' else win_tabs (wins s w))"
    using p by (simp_all add: parted_def Let_def)
  have c1: "slot ?L (inode s' old) x = (if x \<in> leaving ?m' ?u (inode s old) then None else slot ?L (inode s old) x)"
    "slot ?L (inode s' ?n) x = (if x \<in> leaving ?m' ?u (inode s old) then slot ?L (inode s old) x else None)" for x
    using c unfolding copied_def by simp_all
  have ne: "tab_old \<noteq> ?u" using files_okD(7) [OF ok(1) win, of ?u] f by auto
  have R: "routed (wins s x) t (table s x t)" if "x < 256" for x t
    using ok(2) that by (simp add: routes_ok_def shf_const_eq)
  have Ro: "t2 < 2048 \<and> rnd < 2097152 \<and> ?m t2 = tab_old \<and> (rf \<in> leaving ?m' ?u (inode s old) \<longleftrightarrow> ?m' t2 = ?u)"
    if "slot ?L (inode s old) rf = Some (t2, rnd, k, v)" for rf t2 rnd k v
    using R [OF win, of tab_old] that slot_Some_iff [of ?L "inode s old" rf t2 rnd k v]
    unfolding routed_slot [of _ _ _ ?L] table_Some [OF f] leaving_def by blast
  have "routed (wins s' x) t (table s' x t)" if x: "x < 256" for x t
  proof -
    consider "x \<noteq> win" | "x = win" "t = tab_old" | "x = win" "t = ?u" | "x = win" "t \<noteq> tab_old" "t \<noteq> ?u" by blast
    then show ?thesis
    proof cases
      case 1
      then show ?thesis using R [OF x, of t] by (simp add: T routed_def w)
    next
      case 2
      then show ?thesis unfolding routed_slot [of _ _ _ ?L]
        using Ro split_routes_cases [of ?m tab_old ?u] ne by (auto simp: T c1 w split: if_splits) metis
    next
      case 3
      then show ?thesis unfolding routed_slot [of _ _ _ ?L]
        using Ro ne by (auto simp: T c1 w split: if_splits)
    next
      case 4
      have "?m' t2 = t" if "?m t2 = t" for t2 using split_routes_cases [of ?m tab_old ?u t2] that 4 by auto
      then show ?thesis using R [OF win, of t] 4 unfolding routed_slot [of _ _ _ ?L] by (simp add: T w)
    qed
  qed
  then show ?thesis by (simp add: routes_ok_def shf_const_eq)
qed


lemma parted_quiet:
  assumes p: "parted win tab_old old s s'" and ok: "shf_ok s" and f: "tab_file s win tab_old = Some old"
    and win: "win < 256" and nz: "tab_size (inode s old) \<noteq> 0"
  shows "quiet s s'" "shf_room n s \<Longrightarrow> shf_room n s'"
proof -
  note D = shf_okD [OF ok]
  have P: "same_thread s s'" "files_ok (lens_of s) s'" "coherent s' (tabs s')" "\<And>c. coherent s c \<Longrightarrow> coherent s' c"
    using p by (simp_all add: parted_def Let_def)
  show "quiet s s'" using P D(1) parted_routes_ok [OF p D(2,3) f win] parted_kv [OF p D(2,3) f win]
    by (simp add: quiet_def shf_ok_def same_threadD(2) [OF P(1)])
  have to: "tab_ok (lens_of s) (inode s old)" using inode_okD(1) [OF files_okD(3) [OF D(2) f] nz] .
  have c: "tab_used (inode s' old) = tab_used (inode s old)"
    "tab_used (inode s' (next_inode s)) + tab_data_used (inode s' old) = 65560 + tab_data_used (inode s old)"
    using p by (simp_all add: parted_def Let_def copied_def)
  then have "tab_used (inode s' (next_inode s)) \<le> tab_used (inode s old)"
    using tab_okD(7) [OF to] by (simp add: shf_const_eq)
  then show "shf_room n s'" if "shf_room n s"
    using c(1) by (intro shf_room_mono [OF that P(1)])
      (auto simp: parted_table [OF p D(2) f win] table_Some [OF f, symmetric])
qed

text \<open>The operation up to the final shrink.\<close>

lemma part_run:
  assumes ok: "shf_ok s" and win: "win < 256" and f: "tab_file s win tab_old = Some old"
    and m: "off_mmap (tabs s win tab_old) = old" and nz: "tab_size (inode s old) \<noteq> 0" and room: "shf_room n s"
    and u: "tabs_used (wins s win) < 2048"
  shows "\<exists>s'. parted win tab_old old s s' \<and> shf_tab_part win tab_old s = shf_tab_shrink win tab_old s'"
proof -
  note D = shf_okD [OF ok]
  let ?n = "next_inode s" and ?u = "tabs_used (wins s win)" and ?L = "lens_of s"
  let ?m = "win_tabs (wins s win)"
  let ?m' = "split_routes ?m tab_old ?u"
  note I = inode_okD [OF files_okD(3) [OF D(2) f] nz]
  have ne: "tab_old < ?u" using files_okD(7) [OF D(2) win, of tab_old] f by (cases "tab_old < ?u") auto
  have oln: "old \<noteq> ?n" using files_okD(2) [OF D(2) f] by simp
  obtain s2 where g: "get_tab_mmap win ?u (shf_tab_create win ?u s) = Inr (?n, s2)" and s2: "same_thread s s2"
    "same_routes s s2" "added win s s2" using part_prepare [OF ok win u] by blast
  define s3 where "s3 = upd_win win (\<lambda>w. w\<lparr>tabs_parted := u64 (tabs_parted w + 1), tabs_used := u32 (tabs_used w + 1)\<rparr>) s2"
  define s4 where "s4 = upd_win win (\<lambda>w. w\<lparr>win_tabs := ?m'\<rparr>) s3"
  have a4: "added win s s4" using s2(3) by (simp add: added_def mapped_def Let_def s4_def s3_def)
  have st4: "same_thread s s4" unfolding s4_def s3_def
    by (rule same_thread_trans [OF same_thread_trans [OF s2(1) upd_win_simps(7)] upd_win_simps(7)])
  have w4: "win_tabs (wins s4 w) = (if w = win then ?m' else win_tabs (wins s w))"
    "tabs_used (wins s4 w) = (if w = win then ?u + 1 else tabs_used (wins s w))" for w
    using s2(2) u by (auto simp: s4_def s3_def same_routes_def)
  have A: "tab_file s4 = (tab_file s)(win := (tab_file s win)(?u := Some ?n))" "next_inode s4 = ?n + 1"
    "inode s4 = (inode s)(?n := init_tab 69632)" "fsize s4 = (fsize s)(?n := 69632)" "mapped win ?u ?n s s4"
    using a4 by (simp_all add: added_def Let_def)
  have lt: "?m' t < ?u + 1" if "t < 2048" for t
    using split_routes_cases [of ?m tab_old ?u t] files_okD(8) [OF D(2) win that] by auto
  have files4: "files_ok ?L s4"
    using lt files_okD(8) [OF D(2)] by (intro added_files_ok [OF a4 D(2) win u]) (simp_all add: w4)
  have co4: "coherent s4 c" if "coherent s c" for c using added_coherent [OF a4 D(2) that win] .
  have own4: "coherent s4 (tabs s4)"
    by (rule coherent_mapped [OF co4 [OF D(4)] A(5)]) (simp_all add: A)
  have rt: "routed (wins s win) tab_old (inode s old)"
    using D(3) win table_Some [OF f] by (simp add: routes_ok_def shf_const_eq) metis
  have mv: "movable win ?u old ?n s4"
  proof -
    have "room s (tab_data_used (inode s old)) (init_tab 69632)"
      using shf_roomD(1) [OF room win, of tab_old] tab_okD(7) [OF I(1)]
      by (auto simp: table_Some [OF f] shf_const_eq elim!: room_mono)
    then show ?thesis using D(1) oln I(1) routed_bounded [OF rt, of ?L] init_of_ok(1) [OF zero_tab_inode_ok, of ?L] A
      by (simp add: movable_def same_threadD(2) [OF st4] room_thread [OF st4] init_of_def mapped_def)
        (simp add: zero_tab_def)
  qed
  have dest: "?m' (ref_tab (tab_row (inode s4 old) (fst rf) (snd rf))) \<in> {tab_old, ?u}" if "rf \<in> live (inode s4 old)" for rf
    using that rt oln split_routes_cases [of ?m tab_old ?u "ref_tab (tab_row (inode s old) (fst rf) (snd rf))"]
    by (auto simp: routed_def A)
  have lv: "slots \<inter> leaving ?m' ?u (inode s4 old) = leaving ?m' ?u (inode s old)"
    using oln by (auto simp: leaving_def live_def A)
  have ne4: "tab_old \<noteq> ?u" and old2: "tab_old < 2048" and m4: "?m' = win_tabs (wins s4 win)"
    using ne u by (simp_all add: w4)
  obtain s5 where s5: "part_refs win tab_old ?u old slot_list ?n s4 = Inr (?n, s5)"
    "moved win ?u old ?n (leaving ?m' ?u (inode s old)) s4 s5"
    using part_refs_ok [OF mv slot_list_props(1) _ _ ne4 u old2 m4 dest] unfolding slot_list_props(2) lv
    by (auto simp: A)
  have L: "lens_of s4 = ?L" using same_threadD(2) [OF st4] .
  have f4: "tab_file s4 win tab_old = Some old" "tab_file s4 win ?u = Some ?n" using f ne by (simp_all add: A)
  have nz4: "tab_size (inode s4 old) \<noteq> 0" "tab_size (inode s4 ?n) \<noteq> 0" using nz oln by (simp_all add: A)
  note M = moved_files_ok [OF s5(2) _ f4 nz4(1) oln, unfolded L, OF files4]
  have c5: "coherent s5 c" if "coherent s4 c" for c by (rule M(2) [OF that nz4(2)])
  have t5: "tab_ok ?L (inode s5 ?n)" "tab_file s5 = tab_file s4" "next_inode s5 = next_inode s4" "mapped win ?u ?n s4 s5"
    "same_routes s4 s5" "same_thread s4 s5"
    "copied ?L (leaving ?m' ?u (inode s old)) (inode s old) (init_tab 69632) (inode s5 old) (inode s5 ?n)"
    using s5(2) oln by (simp_all add: moved_def L A copied_def)
  have "parted win tab_old old s s5"
    using t5 s5(2) M(1) c5 co4 same_thread_trans [OF st4 t5(6)] w4 oln A(1,3)
      coherent_mapped [OF c5 [OF own4] t5(4)] f4 A(2) tab_ok_size_nonzero [OF t5(1)]
    by (simp add: parted_def Let_def same_routes_def moved_def)
  moreover have "shf_tab_part win tab_old s = shf_tab_shrink win tab_old s5"
  proof -
    have u16: "u16 ?u = ?u" using u by simp
    have m3: "win_tabs (wins s3 win) = ?m" using s2(2) by (simp add: s3_def same_routes_def)
    have "part_redirect tab_old ?u [0..<2048] False ?m
        = Inr (\<lambda>t. if t \<in> set (every_other False (filter (\<lambda>t. ?m t = tab_old) [0..<2048])) then ?u else ?m t)"
      by (rule part_redirect_ok) (use files_okD(8) [OF D(2) win] in auto)
    also have "(\<lambda>t. if t \<in> set (every_other False (filter (\<lambda>t. ?m t = tab_old) [0..<2048])) then ?u else ?m t) = ?m'"
      by (simp only: split_routes_def tab2s_of_def shf_const_eq fun_eq_iff) simp
    finally have R: "part_redirect tab_old ?u [0..<2048] False ?m = Inr ?m'" .
    have maps: "off_mmap (tabs s4 win tab_old) = old" "off_mmap (tabs s4 win ?u) = ?n"
      using A(5) m ne by (auto simp: mapped_def)
    show ?thesis
      unfolding shf_tab_part_def Let_def u16 g bindE.simps prod.case s3_def [symmetric] m3 shf_const_eq R
        s4_def [symmetric] maps s5(1)
      using u by (simp add: assertE_def)
  qed
  ultimately show ?thesis by blast
qed


text \<open>
  Splitting a table returns and changes nothing of what the instance stores; every other table
  index of the old table is now directed to the new one. When all 2048 tables are in use the
  program creates one file too many, reads past the end of its array of mappings and then exits.
\<close>

lemma shf_tab_part_ok:
  assumes ok: "shf_ok s" and win: "win < 256" and f: "tab_file s win tab_old = Some old"
    and m: "off_mmap (tabs s win tab_old) = old" and nz: "tab_size (inode s old) \<noteq> 0" and room: "shf_room n s"
    and u: "tabs_used (wins s win) < 2048"
  shows "\<exists>s'. shf_tab_part win tab_old s = Inr s' \<and> quiet s s' \<and> shf_room n s'
     \<and> tabs_used (wins s' win) = tabs_used (wins s win) + 1
     \<and> win_tabs (wins s' win) = split_routes (win_tabs (wins s win)) tab_old (tabs_used (wins s win))"
proof -
  obtain s1 where p: "parted win tab_old old s s1" and run: "shf_tab_part win tab_old s = shf_tab_shrink win tab_old s1"
    using part_run [OF assms] by blast
  note Q = parted_quiet [OF p ok f win nz]
  have w: "win_tabs (wins s1 win) = split_routes (win_tabs (wins s win)) tab_old (tabs_used (wins s win))"
    "tabs_used (wins s1 win) = tabs_used (wins s win) + 1"
    using p by (simp_all add: parted_def Let_def)
  have "tab_old < tabs_used (wins s win)"
    using files_okD(7) [OF shf_okD(2) [OF ok] win, of tab_old] f by (cases "tab_old < tabs_used (wins s win)") auto
  then have "tab_old < tabs_used (wins s1 win)" by (simp add: w)
  from shf_tab_shrink_ok [OF quietD(2) [OF Q(1)] win this Q(2) [OF room]]
  obtain s2 where "shf_tab_shrink win tab_old s1 = Inr s2" "quiet s1 s2" "same_routes s1 s2" "shf_room n s2" by blast
  with run quiet_trans [OF Q(1)] w show ?thesis by (auto simp: same_routes_def)
qed

lemma shf_tab_part_full:
  assumes ok: "shf_ok s" and win: "win < 256" and u: "tabs_used (wins s win) = 2048"
  shows "shf_tab_part win tab_old s = Inl Tab_overflow"
  using u by (simp add: shf_tab_part_def get_tab_mmap_def Let_def shf_const_eq assertE_def)

text \<open>By then the file of a table that the window has no entry for has been created.\<close>

lemma full_leaves_file: "tab_file (shf_tab_create win tab s) win tab \<noteq> None"
  by (simp add: shf_tab_create_def open_creat_def ftruncate_def upd_inode_def Let_def split: option.split)

end
