(* ===== verification/Shf_Kv.thy ===== *)
theory Shf_Kv
  imports Shf_Part Shf_Murmur
begin

text \<open>
  The operations of the key,value store: \<open>shf_make_hash\<close>, \<open>shf_put_key_val\<close>,
  \<open>shf_find_key_internal\<close> and the twelve entry points built on it, and the counting operations
  \<open>shf_add_key_val\<close> and \<open>shf_add_uid_val\<close>. What runs under the lock of a window is one step; the counting operations take
  it twice, which \<open>Shf_Multi\<close> looks at.
\<close>

section \<open>Results\<close>

definition SHF_RET_OK :: nat where "SHF_RET_OK = 0"
definition SHF_RET_KEY_FOUND :: nat where "SHF_RET_KEY_FOUND = 1"
definition SHF_RET_BAD_VAL :: nat where "SHF_RET_BAD_VAL = 2"
definition SHF_RET_BAD_CB :: nat where "SHF_RET_BAD_CB = 4"
definition SHF_RET_KEY_PUT :: nat where "SHF_RET_KEY_PUT = 8"
definition SHF_RET_NOT_TTL :: nat where "SHF_RET_NOT_TTL = 16"
definition SHF_RET_KEY_NONE :: nat where "SHF_RET_KEY_NONE = 128"

lemmas shf_ret = SHF_RET_OK_def SHF_RET_KEY_FOUND_def SHF_RET_BAD_VAL_def SHF_RET_BAD_CB_def
  SHF_RET_KEY_PUT_def SHF_RET_NOT_TTL_def SHF_RET_KEY_NONE_def

section \<open>shf_make_hash\<close>

text \<open>
  Without a key (NULL) the hash stays as it is, so that a caller can set its own, and \<open>shf_hash_key\<close> becomes
  NULL. Its length is then taken to be 0, so that nothing is read through it: with another length the
  first operation that reads the key would do so through a NULL pointer.
\<close>

definition shf_make_hash :: "byte list option \<Rightarrow> shf \<Rightarrow> shf" where
  "shf_make_hash key s = (case key of
     Some key \<Rightarrow> (let (h1, h2) = MurmurHash3_x64_128 key 12345
       in s\<lparr>the_hash := \<lparr>hash_u64_0 = h1, hash_u64_1 = h2\<rparr>, shf_hash_key := key\<rparr>)
   | None \<Rightarrow> s\<lparr>shf_hash_key := []\<rparr>)"

section \<open>shf_put_key_val\<close>

text \<open>The first unused reference of a row.\<close>

definition free_ref :: "nat \<Rightarrow> tab_mmap \<Rightarrow> nat option" where
  "free_ref row t = find (\<lambda>ref. ref_pos (tab_row t row ref) = 0) [0..<SHF_REFS_PER_ROW]"

text \<open>
  The operation is a loop: while the row is full the table is split and everything starts again.
  A split takes a new table of the window, so \<open>2048\<close> rounds and one more are enough.
\<close>

primrec put_loop :: "nat \<Rightarrow> byte list option \<Rightarrow> nat \<Rightarrow> shf \<Rightarrow> shf_error + nat \<times> shf" where
  "put_loop 0 val val_len s = Inl Out_of_fuel"
| "put_loop (Suc n) val val_len s =
     (let ll = len_len (lens_of s);
          win = hash_win (the_hash s); tab2 = hash_tab2 (the_hash s);
          row = hash_row (the_hash s); rnd = hash_rnd (the_hash s);
          tab = win_tabs (wins s win) tab2
      in bindE (get_tab_mmap win tab s) (\<lambda>(i, s).
         case free_ref row (inode s i) of
           None \<Rightarrow> bindE (shf_tab_part win tab s) (\<lambda>s. put_loop n val val_len s)
         | Some ref \<Rightarrow>
             bindE (tab_append win tab i ll (shf_hash_key s) val val_len s) (\<lambda>(i, pos, s).
             let s = upd_inode i (set_ref row ref (mk_ref tab2 rnd pos)) s;
                 t = inode s i
             in bindE (if u32 (tab_data_used t * 20) div 100 < tab_data_free t then shf_tab_shrink win tab s else Inr s)
                (\<lambda>s. Inr (SHF_RET_KEY_PUT, s\<lparr>shf_uid := mk_uid win tab2 row ref\<rparr>)))))"

definition put_fuel :: nat where "put_fuel = SHF_TABS_PER_WIN + 1"

definition shf_put_key_val :: "byte list option \<Rightarrow> nat \<Rightarrow> shf \<Rightarrow> shf_error + nat \<times> shf" where
  "shf_put_key_val val val_len s = put_loop put_fuel val val_len s"

section \<open>Putting a record\<close>

lemma free_ref_Some:
  assumes "free_ref row t = Some ref" "row < 512"
  shows "ref < 16" "(row, ref) \<in> slots" "(row, ref) \<notin> live t"
  using assms by (auto simp: free_ref_def find_Some_iff slots_def live_def slot_pos_def shf_const_eq)

lemma free_ref_None: "free_ref row t = None \<longleftrightarrow> (\<forall>ref < 16. ref_pos (tab_row t row ref) \<noteq> 0)"
  by (auto simp: free_ref_def find_None_iff shf_const_eq)

text \<open>Thread local variables play no part in what is stored.\<close>

definition same_store :: "shf \<Rightarrow> shf \<Rightarrow> bool" where
  "same_store s s' \<longleftrightarrow> tab_file s' = tab_file s \<and> inode s' = inode s \<and> fsize s' = fsize s
     \<and> next_inode s' = next_inode s \<and> wins s' = wins s \<and> tabs s' = tabs s \<and> vfs_available s' = vfs_available s
     \<and> is_fixed_key_val_len s' = is_fixed_key_val_len s \<and> fixed_key_len s' = fixed_key_len s
     \<and> fixed_val_len s' = fixed_val_len s \<and> shf_data_needed_factor s' = shf_data_needed_factor s"

lemma same_storeD:
  assumes "same_store s s'"
  shows "shf_ok s' = shf_ok s" "kv L s' = kv L s" "coherent s' m = coherent s m" "table s' = table s"
    "lens_of s' = lens_of s" "shf_room n s' = shf_room n s" "wins s' = wins s"
proof -
  have e: "tab_file s' = tab_file s" "inode s' = inode s" "fsize s' = fsize s" "next_inode s' = next_inode s"
    "wins s' = wins s" "tabs s' = tabs s" "lens_of s' = lens_of s" "vfs_available s' = vfs_available s"
    "shf_data_needed_factor s' = shf_data_needed_factor s"
    using assms by (simp_all add: same_store_def lens_of_def)
  show t: "table s' = table s" by (simp add: table_def e fun_eq_iff split: option.split)
  show "kv L s' = kv L s" by (simp add: kv_def e t)
  show c: "coherent s' m = coherent s m" for m by (simp add: coherent_def mapping_ok_def e)
  have "files_ok L s' = files_ok L s" for L by (simp add: files_ok_def e)
  moreover have "routes_ok s' = routes_ok s" by (simp add: routes_ok_def e t)
  ultimately show "shf_ok s' = shf_ok s" using c [of "tabs s"] by (simp add: shf_ok_def e)
  have "room s' n t = room s n t" for t by (simp add: room_def e)
  then show "shf_room n s' = shf_room n s" by (simp add: shf_room_def t)
qed (use assms in \<open>simp_all add: same_store_def lens_of_def\<close>)

text \<open>One record is appended to a table the process has mapped and its reference is stored.\<close>

lemma put_append_ok:
  assumes ok: "shf_ok s" and win: "win < 256" and f: "tab_file s win tab = Some i"
    and map: "tabs s win tab = \<lparr>off_mmap = i, off_size = tab_size (inode s i)\<rparr>"
    and nz: "tab_size (inode s i) \<noteq> 0" and tab2: "tab2 < 2048" "win_tabs (wins s win) tab2 = tab"
    and rnd: "rnd < 2097152" and rf: "(row, ref) \<in> slots" "(row, ref) \<notin> live (inode s i)"
    and fits: "fits (lens_of s) key val vl"
    and n: "n = data_needed (len_len (lens_of s)) (length key) vl" and room: "shf_room (n + extra) s"
  shows "\<exists>pos s1 s2. tab_append win tab i (len_len (lens_of s)) key val vl s = Inr (i, pos, s1)
     \<and> s2 = upd_inode i (set_ref row ref (mk_ref tab2 rnd pos)) s1
     \<and> same_thread s s2 \<and> same_routes s s2 \<and> shf_ok s2 \<and> (\<forall>m. coherent s m \<longrightarrow> coherent s2 m)
     \<and> tab_file s2 = tab_file s \<and> shf_room extra s2
     \<and> (\<exists>v. length v = vl \<and> (\<forall>w. val = Some w \<longrightarrow> v = take vl w) \<and> (val = None \<and> len_len (lens_of s) \<noteq> 0 \<longrightarrow> v = replicate vl 0)
          \<and> kv (lens_of s) s2 = (kv (lens_of s) s)((win, tab2, row, ref) \<mapsto> (rnd, key, v)))"
proof -
  let ?L = "lens_of s" and ?t = "inode s i"
  note D = shf_okD [OF ok]
  have io: "inode_ok ?L ?t (fsize s i)" by (rule files_okD(3) [OF D(2) f])
  have tb: "table s win tab = ?t" by (rule table_Some [OF f])
  have rx: "room s (n + extra) ?t" using shf_roomD(1) [OF room win, of tab] by (simp add: tb)
  then have rm: "room s n ?t" by (rule room_mono) simp
  obtain pos t1 s1 where a: "tab_append win tab i (len_len ?L) key val vl s = Inr (i, pos, s1)" "same_thread s s1"
    "set_table win tab i t1 s s1" "mapped win tab i s s1" "fsize s1 i = tab_size t1"
    "tab_size t1 = SHF_MOD_PAGE (tab_size t1)" "69632 \<le> tab_size t1" and
    app: "appended ?L (row, ref) tab2 rnd key val vl ?t (set_ref row ref (mk_ref tab2 rnd pos) t1)"
    using tab_append_ok [OF D(1) io nz f fits map rm [unfolded n]] rf tab2(1) rnd by blast
  define t2 where "t2 = set_ref row ref (mk_ref tab2 rnd pos) t1"
  define s2 where "s2 = upd_inode i (set_ref row ref (mk_ref tab2 rnd pos)) s1"
  have i1: "inode s1 i = t1" "inode s1 = (inode s)(i := t1)" using a(3) by (simp_all add: set_table_def)
  have st: "set_table win tab i t2 s s2"
    using a(3) by (simp add: set_table_def s2_def t2_def same_routes_def)
  have th: "same_thread s s2" unfolding s2_def by (rule same_thread_trans [OF a(2) upd_inode_simps(7)])
  have t2: "tab_ok ?L t2" "tab_used t2 \<le> tab_used ?t + n" using app by (simp_all add: appended_def t2_def n)
  have io2: "inode_ok ?L t2 (fsize s2 i)" using a(5-7) t2(1) by (simp add: inode_ok_def s2_def t2_def)
  have nz2: "tab_size t2 \<noteq> 0" "4096 \<le> tab_size t2" using a(7) by (simp_all add: t2_def)
  have rr: "same_routes s s2" and fs: "tab_file s2 = tab_file s" "next_inode s2 = next_inode s" "inode s2 i = t2"
    using st by (simp_all add: set_table_def)
  obtain v where v: "length v = vl" "\<forall>w. val = Some w \<longrightarrow> v = take vl w"
    "slot ?L t2 = (slot ?L ?t)((row, ref) \<mapsto> (tab2, rnd, key, v))"
    "val = None \<and> tab_data_free_pos ?t = 0 \<longrightarrow> v = replicate vl 0"
    using app unfolding appended_def t2_def by blast
  have v0: "val = None \<and> len_len ?L \<noteq> 0 \<longrightarrow> v = replicate vl 0"
    using v(4) no_free_chain [OF inode_okD(1) [OF io nz]] by simp
  have R: "routed (wins s win) tab ?t" using D(3) win tb by (simp add: routes_ok_def shf_const_eq) metis
  have "routed (wins s win) tab t2"
    using R tab2 rnd unfolding routed_slot [of _ _ _ ?L] v(3) by auto
  then have "routes_ok s2" by (rule set_table_routes_ok [OF st D(2,3)])
  moreover note F = set_table_files_ok [OF st D(2) io2 nz2(1)]
  moreover have "mapped win tab i s s2" using a(4) by (simp add: mapped_def s2_def i1)
  then have "coherent s2 (tabs s2)"
    using F(2) [OF D(4)] fs f nz2 files_okD(2) [OF D(2) f] by (intro coherent_mapped [where s = s]) auto
  ultimately have "shf_ok s2" using D(1) by (simp add: shf_ok_def same_threadD(2) [OF th])
  moreover have tb2: "table s2 = (table s)(win := (table s win)(tab := t2))" by (rule set_table_table [OF st D(2)])
  have "kv ?L s2 = (kv ?L s)((win, tab2, row, ref) \<mapsto> (rnd, key, v))"
    using v(3) slot_None_iff [of ?L ?t "(row, ref)"] rf(2)
    by (intro kv_insert [OF rr tb2 tab2(2)]) (simp_all add: tb)
  moreover have "shf_room extra s2"
  proof -
    have less: "room s extra t" if "room s (n + extra) t" for t by (rule room_mono [OF that]) simp
    have "room s extra (table s2 w x)" if "w < 256" for w x
      using less [OF shf_roomD(1) [OF room that, of x]] room_mono [OF rx, of t2 extra] t2(2)
      by (auto simp: tb2)
    then show ?thesis using less [OF shf_roomD(2) [OF room win]]
      by (simp add: shf_room_def shf_const_eq room_thread [OF th])
  qed
  ultimately show ?thesis using a(1) th rr F(2) fs v(1,2) v0 s2_def by blast
qed

text \<open>
  What a put that returns has done: the key and the value stand under the UID it reports, which
  stood for nothing before; everything else is as it was. A value that is reserved only, without data, is zero,
  unless the lengths are fixed and the bytes of a deleted record are used again.
\<close>

definition put_done :: "byte list option \<Rightarrow> nat \<Rightarrow> shf \<Rightarrow> shf \<Rightarrow> bool" where
  "put_done val vl s s' \<longleftrightarrow> same_thread s (s'\<lparr>shf_uid := shf_uid s\<rparr>) \<and> shf_ok s'
     \<and> (\<forall>m. coherent s m \<longrightarrow> coherent s' m) \<and> shf_room 0 s'
     \<and> (\<exists>ref v. ref < 16 \<and> length v = vl \<and> (\<forall>w. val = Some w \<longrightarrow> v = take vl w)
          \<and> (val = None \<and> len_len (lens_of s) \<noteq> 0 \<longrightarrow> v = replicate vl 0)
          \<and> shf_uid s' = mk_uid (hash_win (the_hash s)) (hash_tab2 (the_hash s)) (hash_row (the_hash s)) ref
          \<and> kv (lens_of s) s (hash_win (the_hash s), hash_tab2 (the_hash s), hash_row (the_hash s), ref) = None
          \<and> kv (lens_of s) s' = (kv (lens_of s) s)((hash_win (the_hash s), hash_tab2 (the_hash s),
               hash_row (the_hash s), ref) \<mapsto> (hash_rnd (the_hash s), shf_hash_key s, v)))"

lemma same_thread_uid: "same_thread s s' \<Longrightarrow> same_thread s (s'\<lparr>shf_uid := shf_uid s\<rparr>)"
  by (cases s, cases s') (simp add: same_thread_def)

lemma put_done_quiet:
  assumes q: "quiet s s1" and p: "put_done val vl s1 s'"
  shows "put_done val vl s s'"
proof -
  have th: "same_thread s s1" using q by (simp add: quiet_def)
  have e: "the_hash s1 = the_hash s" "shf_hash_key s1 = shf_hash_key s" "lens_of s1 = lens_of s"
    using same_threadD [OF th] by simp_all
  have k: "kv (lens_of s) s1 = kv (lens_of s) s" using quietD(4) [OF q] by (simp add: e)
  have "same_thread s (s'\<lparr>shf_uid := shf_uid s\<rparr>)"
    using same_thread_trans [OF th, of "s'\<lparr>shf_uid := shf_uid s1\<rparr>"] same_thread_uid p
    by (fastforce simp: put_done_def)
  then show ?thesis using p quietD(3) [OF q] unfolding put_done_def e k by blast
qed

text \<open>The record of a table and a row in its reference slots, in terms of stored keys.\<close>

lemma got_tab_row:
  assumes "shf_ok s" "tab_file s win tab = Some i" "got_tab win tab i s s'"
  shows "tab_row (inode s' i) = tab_row (table s win tab)"
proof -
  have io: "inode_ok (lens_of s) (inode s i) (fsize s i)"
    using files_okD(3) [OF shf_okD(2) [OF assms(1)] assms(2)] .
  have "tab_row (init_of (inode s i)) = tab_row (inode s i)"
    using inode_ok_fresh [OF io] by (auto simp: init_of_def init_tab_def)
  then show ?thesis using assms(3) by (simp add: got_tab_def table_Some [OF assms(2)])
qed

lemma put_free_ok:
  assumes ok: "shf_ok s" and fits: "fits (lens_of s) (shf_hash_key s) val vl"
    and room: "shf_room (data_needed (len_len (lens_of s)) (length (shf_hash_key s)) vl + extra) s"
    and h: "win = hash_win (the_hash s)" "tab2 = hash_tab2 (the_hash s)" "row = hash_row (the_hash s)"
    and free: "free_ref row (table s win (win_tabs (wins s win) tab2)) = Some ref"
  shows "\<exists>s'. put_loop (Suc k) val vl s = Inr (SHF_RET_KEY_PUT, s') \<and> put_done val vl s s' \<and> shf_room extra s'
     \<and> shf_uid s' = mk_uid win tab2 row ref"
proof -
  note D = shf_okD [OF ok]
  let ?L = "lens_of s" and ?rnd = "hash_rnd (the_hash s)"
  have b: "win < 256" "tab2 < 2048" "row < 512" "?rnd < 2097152" by (simp_all add: h)
  define tab where "tab = win_tabs (wins s win) tab2"
  have tab: "tab < tabs_used (wins s win)" using files_okD(8) [OF D(2) b(1,2)] by (simp add: tab_def)
  obtain i s1 where g: "tab_file s win tab = Some i" "get_tab_mmap win tab s = Inr (i, s1)" "got_tab win tab i s s1"
    using get_tab_mmap_ok [OF D(2,4) b(1) tab] by blast
  note G = got_tab_quiet [OF ok g(3,1)]
  note Q = quietD [OF G(1)]
  have th: "same_thread s s1" by (fact Q(1))
  have e: "the_hash s1 = the_hash s" "shf_hash_key s1 = shf_hash_key s" "type_extended s1 = type_extended s"
    using same_threadD [OF th] by simp_all
  have f1: "tab_file s1 win tab = Some i" "win_tabs (wins s1 win) tab2 = tab"
    using g(1,3) by (simp_all add: got_tab_def same_routes_def tab_def)
  have "free_ref row (inode s1 i) = Some ref"
    using free by (simp add: free_ref_def got_tab_row [OF ok g(1,3)] tab_def)
  note F = free_ref_Some [OF this b(3)] this
  have map: "tabs s1 win tab = \<lparr>off_mmap = i, off_size = tab_size (inode s1 i)\<rparr>"
    using g(3) by (simp add: got_tab_def)
  have nz: "tab_size (inode s1 i) \<noteq> 0" using tab_ok_size_nonzero [OF G(4)] by simp
  have room1: "shf_room (data_needed (len_len (lens_of s)) (length (shf_hash_key s)) vl + extra) s1"
    using set_table_table [OF G(2) D(2)] by (intro shf_room_mono [OF room th]) (auto simp: init_of_def table_Some [OF g(1)])
  obtain pos s2 s3 v where a: "tab_append win tab i (len_len ?L) (shf_hash_key s) val vl s1 = Inr (i, pos, s2)"
    "s3 = upd_inode i (set_ref row ref (mk_ref tab2 ?rnd pos)) s2" "same_thread s1 s3" "same_routes s1 s3" "shf_ok s3"
    "\<And>m. coherent s1 m \<Longrightarrow> coherent s3 m" "shf_room extra s3" "length v = vl" "\<And>w. val = Some w \<Longrightarrow> v = take vl w"
    "kv ?L s3 = (kv ?L s1)((win, tab2, row, ref) \<mapsto> (?rnd, shf_hash_key s, v))"
    "val = None \<and> len_len ?L \<noteq> 0 \<longrightarrow> v = replicate vl 0"
    using put_append_ok [OF Q(2) b(1) f1(1) map nz b(2) f1(2) b(4) F(2,3)
        fits [folded Q(5)] refl room1 [folded Q(5)]] unfolding Q(5) by metis
  have s3: "win_tabs (wins s3 win) tab2 = tab" "lens_of s3 = ?L" using a(4) f1(2) same_threadD(2) [OF a(3)] Q(5)
    by (simp_all add: same_routes_def)
  obtain s4 where s4: "(if u32 (tab_data_used (inode s3 i) * 20) div 100 < tab_data_free (inode s3 i)
      then shf_tab_shrink win tab s3 else Inr s3) = Inr s4" "quiet s3 s4" "shf_room extra s4"
  proof (cases "u32 (tab_data_used (inode s3 i) * 20) div 100 < tab_data_free (inode s3 i)")
    case True
    have "tab < tabs_used (wins s3 win)" using files_okD(8) [OF shf_okD(2) [OF a(5)] b(1,2)] s3(1) by simp
    from shf_tab_shrink_ok [OF a(5) b(1) this a(7)] show ?thesis using True that by auto
  next
    case False
    have "quiet s3 s3" using a(5) by (simp add: quiet_def)
    with False show ?thesis using that a(7) by auto
  qed
  note Q4 = quietD [OF s4(2)]
  define s5 where "s5 = s4\<lparr>shf_uid := mk_uid win tab2 row ref\<rparr>"
  have ss: "same_store s4 s5" by (simp add: s5_def same_store_def)
  note S = same_storeD [OF ss]
  have run: "put_loop (Suc k) val vl s = Inr (SHF_RET_KEY_PUT, s5)"
    unfolding put_loop.simps Let_def h [symmetric] tab_def [symmetric] g(2) bindE.simps prod.case Q(5) e F(4)
      option.case a(1) a(2) [symmetric] s4(1) s5_def ..
  have "same_thread s (s5\<lparr>shf_uid := shf_uid s\<rparr>)"
    using same_thread_uid [OF same_thread_trans [OF th same_thread_trans [OF a(3) Q4(1)]]] by (simp add: s5_def)
  moreover have "kv ?L s5 = (kv ?L s)((win, tab2, row, ref) \<mapsto> (?rnd, shf_hash_key s, v))"
    using Q4(4) a(10) Q(4) by (simp add: S Q4(5) s3(2) Q(5))
  moreover have "kv ?L s (win, tab2, row, ref) = None"
    using F(3) G(7) slot_None_iff [of ?L "inode s1 i" "(row, ref)"]
    by (simp add: kv_eq tab_def [symmetric] table_Some [OF g(1)])
  moreover have "shf_ok s5" "\<forall>m. coherent s m \<longrightarrow> coherent s5 m" "shf_room extra s5"
    using Q(3) Q4(2,3) a(6) s4(3) by (auto simp: S)
  moreover have "shf_uid s5 = mk_uid win tab2 row ref" by (simp add: s5_def)
  moreover from s4(3) have "shf_room 0 s5" unfolding S by (rule shf_room_less) simp
  ultimately have "put_done val vl s s5" using F(1) a(8,9,11) unfolding put_done_def h [symmetric] by blast
  moreover have "shf_room extra s5" using s4(3) by (simp only: S)
  moreover have "shf_uid s5 = mk_uid win tab2 row ref" by (simp add: s5_def)
  ultimately show ?thesis using run by (intro exI [of _ s5] conjI)
qed

section \<open>Putting into a full row\<close>

lemma put_full_ok:
  assumes ok: "shf_ok s" and room: "shf_room n s"
    and h: "win = hash_win (the_hash s)" "tab2 = hash_tab2 (the_hash s)" "row = hash_row (the_hash s)"
    and full: "free_ref row (table s win (win_tabs (wins s win) tab2)) = None"
  shows "tabs_used (wins s win) < 2048 \<Longrightarrow> \<exists>s'. put_loop (Suc k) val vl s = put_loop k val vl s' \<and> quiet s s'
      \<and> shf_room n s' \<and> tabs_used (wins s' win) = tabs_used (wins s win) + 1
      \<and> win_tabs (wins s' win) = split_routes (win_tabs (wins s win)) (win_tabs (wins s win) tab2) (tabs_used (wins s win))"
    "tabs_used (wins s win) = 2048 \<Longrightarrow> put_loop (Suc k) val vl s = Inl Tab_overflow"
proof -
  note D = shf_okD [OF ok]
  have b: "win < 256" "tab2 < 2048" by (simp_all add: h)
  define tab where "tab = win_tabs (wins s win) tab2"
  have tab: "tab < tabs_used (wins s win)" using files_okD(8) [OF D(2) b] by (simp add: tab_def)
  obtain i s1 where g: "tab_file s win tab = Some i" "get_tab_mmap win tab s = Inr (i, s1)" "got_tab win tab i s s1"
    using get_tab_mmap_ok [OF D(2,4) b(1) tab] by blast
  note G = got_tab_quiet [OF ok g(3,1)]
  note Q = quietD [OF G(1)]
  have "free_ref row (inode s1 i) = None"
    using full by (simp add: free_ref_def got_tab_row [OF ok g(1,3)] tab_def)
  then have run: "put_loop (Suc k) val vl s = bindE (shf_tab_part win tab s1) (\<lambda>s. put_loop k val vl s)"
    using g(2) by (simp add: Let_def h [symmetric] tab_def [symmetric])
  have w1: "win_tabs (wins s1 win) = win_tabs (wins s win)" "tabs_used (wins s1 win) = tabs_used (wins s win)"
    "tab_file s1 win tab = Some i" "off_mmap (tabs s1 win tab) = i"
    using g(1,3) by (simp_all add: got_tab_def same_routes_def)
  have nz: "tab_size (inode s1 i) \<noteq> 0" using tab_ok_size_nonzero [OF G(4)] by simp
  have room1: "shf_room n s1"
    using set_table_table [OF G(2) D(2)] by (intro shf_room_mono [OF room Q(1)]) (auto simp: init_of_def table_Some [OF g(1)])
  show "\<exists>s'. put_loop (Suc k) val vl s = put_loop k val vl s' \<and> quiet s s' \<and> shf_room n s'
      \<and> tabs_used (wins s' win) = tabs_used (wins s win) + 1
      \<and> win_tabs (wins s' win) = split_routes (win_tabs (wins s win)) (win_tabs (wins s win) tab2) (tabs_used (wins s win))"
    if "tabs_used (wins s win) < 2048"
  proof -
    have "tabs_used (wins s1 win) < 2048" using that by (simp add: w1)
    from shf_tab_part_ok [OF Q(2) b(1) w1(3,4) nz room1 this] obtain s2 where
      "shf_tab_part win tab s1 = Inr s2" "quiet s1 s2" "shf_room n s2"
      "tabs_used (wins s2 win) = tabs_used (wins s win) + 1"
      "win_tabs (wins s2 win) = split_routes (win_tabs (wins s win)) tab (tabs_used (wins s win))"
      unfolding w1 by blast
    then show ?thesis using run quiet_trans [OF G(1)] by (auto simp: tab_def)
  qed
  show "put_loop (Suc k) val vl s = Inl Tab_overflow" if "tabs_used (wins s win) = 2048"
    unfolding run using shf_tab_part_full [OF Q(2) b(1)] that w1(2) by simp
qed

text \<open>
  With enough fuel the loop ends: it has put the record, or all tables of the window are in use.
\<close>

lemma put_loop_room:
  assumes "shf_ok s" "fits (lens_of s) (shf_hash_key s) val vl"
    "shf_room (data_needed (len_len (lens_of s)) (length (shf_hash_key s)) vl + extra) s"
    "2048 < k + tabs_used (wins s (hash_win (the_hash s)))"
  shows "put_loop k val vl s = Inl Tab_overflow
     \<or> (\<exists>s'. put_loop k val vl s = Inr (SHF_RET_KEY_PUT, s') \<and> put_done val vl s s' \<and> shf_room extra s')"
  using assms
proof (induction k arbitrary: s)
  case 0
  then show ?case using files_okD(5) [OF shf_okD(2), of s "hash_win (the_hash s)"] by simp
next
  case (Suc k)
  let ?w = "hash_win (the_hash s)"
  let ?n = "data_needed (len_len (lens_of s)) (length (shf_hash_key s)) vl + extra"
  show ?case
  proof (cases "free_ref (hash_row (the_hash s)) (table s ?w (win_tabs (wins s ?w) (hash_tab2 (the_hash s))))")
    case (Some ref)
    then show ?thesis using put_free_ok [where extra = extra, OF Suc.prems(1,2) _ refl refl refl Some] Suc.prems(3) by (simp del: put_loop.simps) blast
  next
    case None
    note P = put_full_ok [OF Suc.prems(1,3) refl refl refl None]
    have "tabs_used (wins s ?w) < 2048 \<or> tabs_used (wins s ?w) = 2048"
      using files_okD(5) [OF shf_okD(2) [OF Suc.prems(1)], of ?w] by auto
    then show ?thesis
    proof
      assume "tabs_used (wins s ?w) < 2048"
      from P(1) [OF this] obtain s1 where s1: "put_loop (Suc k) val vl s = put_loop k val vl s1" "quiet s s1"
        "shf_room ?n s1" "tabs_used (wins s1 ?w) = tabs_used (wins s ?w) + 1" by blast
      note e = same_threadD [OF quietD(1) [OF s1(2)]]
      have "put_loop k val vl s1 = Inl Tab_overflow
        \<or> (\<exists>s'. put_loop k val vl s1 = Inr (SHF_RET_KEY_PUT, s') \<and> put_done val vl s1 s' \<and> shf_room extra s')"
        using Suc.prems(2,4) s1(3,4) by (intro Suc.IH) (simp_all add: e quietD(2) [OF s1(2)])
      then show ?thesis using s1(1) put_done_quiet [OF s1(2)] by auto
    next
      assume "tabs_used (wins s ?w) = 2048"
      then show ?thesis using P(2) by blast
    qed
  qed
qed

lemma put_loop_total:
  assumes "shf_ok s" "fits (lens_of s) (shf_hash_key s) val vl"
    "shf_room (data_needed (len_len (lens_of s)) (length (shf_hash_key s)) vl) s"
    "2048 < k + tabs_used (wins s (hash_win (the_hash s)))"
  shows "put_loop k val vl s = Inl Tab_overflow
     \<or> (\<exists>s'. put_loop k val vl s = Inr (SHF_RET_KEY_PUT, s') \<and> put_done val vl s s')"
  using put_loop_room [OF assms(1,2) _ assms(4), of 0] assms(3) by auto

section \<open>When a put succeeds\<close>

text \<open>Every table of a window is the one of some table index.\<close>

definition no_spare_tab :: "win_mmap \<Rightarrow> bool" where
  "no_spare_tab w \<longleftrightarrow> {..<tabs_used w} \<subseteq> win_tabs w ` {..<SHF_TABS_PER_WIN}"

lemma split_routes_surj:
  assumes surj: "{..<u} \<subseteq> m ` {..<2048}" and old: "old < u"
    and two: "t1 < 2048" "t2 < 2048" "t1 \<noteq> t2" "m t1 = old" "m t2 = old"
  shows "{..<u + 1} \<subseteq> split_routes m old u ` {..<2048}"
proof
  have d: "distinct (tab2s_of m old)" by (simp add: tab2s_of_def)
  have mem: "t \<in> set (tab2s_of m old) \<longleftrightarrow> t < 2048 \<and> m t = old" for t
    by (auto simp: tab2s_of_def shf_const_eq)
  obtain x y xs where xy: "tab2s_of m old = x # y # xs"
    using two mem [of t1] mem [of t2] by (cases "tab2s_of m old" rule: remdups_adj.cases) auto
  have x: "x < 2048" "m x = old" "split_routes m old u x = old" and y: "y < 2048" "split_routes m old u y = u"
    using mem [of x] mem [of y] every_other_split [of x y xs] d unfolding split_routes_def xy by auto
  fix z assume "z \<in> {..<u + 1}"
  then consider "z = u" | "z = old" | "z < u" "z \<noteq> old" by (fastforce simp: less_Suc_eq)
  then show "z \<in> split_routes m old u ` {..<2048}"
  proof cases
    case 3
    then obtain t where "t < 2048" "m t = z" using surj by blast
    moreover from this have "split_routes m old u t = z" using 3 split_routes_cases [of m old u t] by auto
    ultimately show ?thesis by (metis imageI lessThan_iff)
  qed (use x y in \<open>auto intro: rev_image_eqI\<close>)
qed

text \<open>The references of a row that hold a record of one table index.\<close>

definition taken :: "shf \<Rightarrow> nat \<Rightarrow> nat \<Rightarrow> nat \<Rightarrow> nat set" where
  "taken s win tab2 row = {ref. ref < SHF_REFS_PER_ROW \<and> kv (lens_of s) s (win, tab2, row, ref) \<noteq> None}"

text \<open>In a full row, a table index with fewer than 16 records shares its table with another one.\<close>

lemma full_row_shared:
  assumes ok: "shf_ok s" and b: "win < 256" "tab2 < 2048" "row < 512"
    and full: "free_ref row (table s win (win_tabs (wins s win) tab2)) = None"
    and few: "card (taken s win tab2 row) < 16"
  shows "\<exists>t < 2048. t \<noteq> tab2 \<and> win_tabs (wins s win) t = win_tabs (wins s win) tab2"
proof -
  let ?L = "lens_of s" and ?tab = "win_tabs (wins s win) tab2"
  have "\<not> {..<16} \<subseteq> taken s win tab2 row"
    using few card_mono [of "taken s win tab2 row" "{..<16}"] by (auto simp: taken_def shf_const_eq)
  then obtain ref where ref: "ref < 16" "kv ?L s (win, tab2, row, ref) = None"
    unfolding subset_eq taken_def shf_const_eq by blast
  have "(row, ref) \<in> live (table s win ?tab)"
    using full ref(1) b(3) by (simp add: free_ref_None live_def slots_def slot_pos_def shf_const_eq)
  then obtain t rnd k v where sl: "slot ?L (table s win ?tab) (row, ref) = Some (t, rnd, k, v)"
    using slot_None_iff [of ?L "table s win ?tab" "(row, ref)"] by auto
  have "routed (wins s win) ?tab (table s win ?tab)"
    using shf_okD(3) [OF ok] b(1) by (simp add: routes_ok_def shf_const_eq)
  then have "t < 2048 \<and> win_tabs (wins s win) t = ?tab" using sl unfolding routed_slot [of _ _ _ ?L] by blast
  moreover have "t \<noteq> tab2" using ref(2) sl by (auto simp: kv_eq)
  ultimately show ?thesis by blast
qed

lemma put_loop_succeeds:
  assumes "shf_ok s" "fits (lens_of s) (shf_hash_key s) val vl"
    "shf_room (data_needed (len_len (lens_of s)) (length (shf_hash_key s)) vl) s"
    "2048 < k + tabs_used (wins s (hash_win (the_hash s)))"
    "no_spare_tab (wins s (hash_win (the_hash s)))"
    "card (taken s (hash_win (the_hash s)) (hash_tab2 (the_hash s)) (hash_row (the_hash s))) < 16"
  shows "put_loop k val vl s \<noteq> Inl Tab_overflow"
  using assms
proof (induction k arbitrary: s)
  case (Suc k)
  let ?w = "hash_win (the_hash s)" and ?t = "hash_tab2 (the_hash s)" and ?r = "hash_row (the_hash s)"
  let ?n = "data_needed (len_len (lens_of s)) (length (shf_hash_key s)) vl"
  note D = shf_okD [OF Suc.prems(1)]
  show ?case
  proof (cases "free_ref ?r (table s ?w (win_tabs (wins s ?w) ?t))")
    case (Some ref)
    obtain s' where "put_loop (Suc k) val vl s = Inr (SHF_RET_KEY_PUT, s')"
      using put_free_ok [where extra = 0, OF Suc.prems(1,2) _ refl refl refl Some] Suc.prems(3) by (simp del: put_loop.simps) blast
    then show ?thesis by (simp del: put_loop.simps)
  next
    case None
    note P = put_full_ok [OF Suc.prems(1,3) refl refl refl None]
    obtain t where t: "t < 2048" "t \<noteq> ?t" "win_tabs (wins s ?w) t = win_tabs (wins s ?w) ?t"
      using full_row_shared [OF Suc.prems(1) _ _ _ None Suc.prems(6)] by auto
    have surj: "{..<tabs_used (wins s ?w)} \<subseteq> win_tabs (wins s ?w) ` {..<2048}"
      using Suc.prems(5) by (simp add: no_spare_tab_def shf_const_eq)
    have "tabs_used (wins s ?w) \<noteq> 2048"
    proof
      assume u: "tabs_used (wins s ?w) = 2048"
      have "win_tabs (wins s ?w) ` {..<2048} \<subseteq> {..<2048}" using files_okD(8) [OF D(2), of ?w] u by auto
      then have im: "win_tabs (wins s ?w) ` {..<2048} = {..<2048}" using surj u by (intro equalityI) simp_all
      have "inj_on (win_tabs (wins s ?w)) {..<2048}" by (intro eq_card_imp_inj_on) (simp_all add: im)
      then show False using t by (auto dest: inj_onD)
    qed
    then have "tabs_used (wins s ?w) < 2048" using files_okD(5) [OF D(2), of ?w] by simp
    from P(1) [OF this] obtain s1 where s1: "put_loop (Suc k) val vl s = put_loop k val vl s1" "quiet s s1"
      "shf_room ?n s1" "tabs_used (wins s1 ?w) = tabs_used (wins s ?w) + 1"
      "win_tabs (wins s1 ?w) = split_routes (win_tabs (wins s ?w)) (win_tabs (wins s ?w) ?t) (tabs_used (wins s ?w))"
      by blast
    note e = same_threadD [OF quietD(1) [OF s1(2)]]
    have "{..<tabs_used (wins s ?w) + 1} \<subseteq> win_tabs (wins s1 ?w) ` {..<2048}"
      unfolding s1(5) using t files_okD(8) [OF D(2)] by (intro split_routes_surj [OF surj _ t(1)]) auto
    then have "no_spare_tab (wins s1 ?w)" by (simp add: no_spare_tab_def s1(4) shf_const_eq)
    moreover have "taken s1 ?w ?t ?r = taken s ?w ?t ?r" using quietD(4) [OF s1(2)] by (simp add: taken_def e)
    ultimately have "put_loop k val vl s1 \<noteq> Inl Tab_overflow"
      using Suc.prems(2,4,6) s1(3,4) by (intro Suc.IH) (simp_all add: e quietD(2) [OF s1(2)])
    then show ?thesis unfolding s1(1) .
  qed
qed simp

section \<open>shf_find_key_internal\<close>

datatype find_and =
    SHF_FIND_KEY_OR_UID_ADDR
  | SHF_FIND_KEY_OR_UID_AND_COPY_KEY
  | SHF_FIND_KEY_OR_UID_AND_COPY_VAL
  | SHF_FIND_KEY_OR_UID_AND_ATOM_ADD
  | SHF_FIND_KEY_OR_UID_AND_DELETE
  | SHF_FIND_KEY_OR_UID_AND_UPDATE

text \<open>A \<open>long\<close> in memory, and \<open>__sync_add_and_fetch\<close> on it.\<close>

definition long_at :: "mem \<Rightarrow> nat \<Rightarrow> 64 word" where
  "long_at m a = of_nat (SHF_U32_AT m a + 2 ^ 32 * SHF_U32_AT m (a + 4))"

definition put_long :: "nat \<Rightarrow> 64 word \<Rightarrow> mem \<Rightarrow> mem" where
  "put_long a w m = put_U32_AT (a + 4) (unat w div 2 ^ 32) (put_U32_AT a (unat w mod 2 ^ 32) m)"

text \<open>\<open>shf_copy_key\<close> and \<open>shf_copy_val\<close>: the buffer grows by whole pages when it is too small.\<close>

definition shf_copy_key :: "nat \<Rightarrow> shf \<Rightarrow> shf" where
  "shf_copy_key key_len s = (case shf_key_addr s of None \<Rightarrow> s | Some (i, a) \<Rightarrow>
     s\<lparr>shf_key_size := (if shf_key_size s < key_len then SHF_MOD_PAGE key_len else shf_key_size s),
       shf_key := mem_bytes (tab_data (inode s i)) a key_len\<rparr>)"

definition shf_copy_val :: "nat \<Rightarrow> shf \<Rightarrow> shf" where
  "shf_copy_val val_len s = (case shf_val_addr s of None \<Rightarrow> s | Some (i, a) \<Rightarrow>
     s\<lparr>shf_val_size := (if shf_val_size s < val_len then SHF_MOD_PAGE val_len else shf_val_size s),
       shf_val := mem_bytes (tab_data (inode s i)) a val_len\<rparr>)"

text \<open>
  What both searches do with a reference that looks right: read the lengths, assert that the record
  lies in the table, and point \<open>shf_key_addr\<close> and \<open>shf_val_addr\<close> at it.
\<close>

definition ref_locate :: "nat \<Rightarrow> nat \<Rightarrow> nat \<Rightarrow> shf \<Rightarrow> shf_error + nat \<times> nat \<times> shf" where
  "ref_locate i row ref s =
     (let L = lens_of s; t = inode s i; ll = len_len L;
          pos = ref_pos (tab_row t row ref)
      in bindE (assertE (pos < tab_size t) Pos_past_end) (\<lambda>_.
         let key_len = ref_key_len L (tab_data t) pos;
             val_len = ref_val_len L (tab_data t) pos
         in bindE (assertE (u32 (pos + 1 + ll + key_len) \<le> tab_size t) Key_past_end) (\<lambda>_.
            bindE (assertE (u32 (pos + 1 + ll + key_len + ll + val_len) \<le> tab_size t) Val_past_end) (\<lambda>_.
            Inr (key_len, val_len, s\<lparr>shf_key_addr := Some (i, ref_key_addr L pos),
              shf_val_addr := Some (i, ref_val_addr L (tab_data t) pos)\<rparr>)))))"

text \<open>The search of a row for the current key.\<close>

primrec search_row :: "nat \<Rightarrow> nat \<Rightarrow> nat \<Rightarrow> nat \<Rightarrow> nat \<Rightarrow> nat list \<Rightarrow> shf
    \<Rightarrow> shf_error + (nat \<times> nat \<times> nat) option \<times> shf" where
  "search_row win tab2 i row rnd [] s = Inr (None, s)"
| "search_row win tab2 i row rnd (ref # refs) s =
     (let r = tab_row (inode s i) row ref in
      if ref_pos r \<noteq> 0 \<and> ref_rnd r = rnd \<and> ref_tab r = tab2 then
        bindE (ref_locate i row ref s) (\<lambda>(key_len, val_len, s).
        if key_len \<noteq> length (shf_hash_key s) then
          search_row win tab2 i row rnd refs (upd_win win (\<lambda>w. w\<lparr>keylen_misses := u64 (keylen_misses w + 1)\<rparr>) s)
        else if SHF_CMP_AT (tab_data (inode s i)) (ref_key_addr (lens_of s) (ref_pos r)) (shf_hash_key s) \<noteq> 0 then
          search_row win tab2 i row rnd refs (upd_win win (\<lambda>w. w\<lparr>memcmp_misses := u64 (memcmp_misses w + 1)\<rparr>) s)
        else Inr (Some (ref, key_len, val_len), s))
      else search_row win tab2 i row rnd refs s)"

text \<open>
  The switch at \<open>SHF_FOUND_KEY\<close>. \<open>upd\<close> is the update callback the user has set: it gets the bytes
  of the value and returns its result and the bytes it leaves there.
\<close>

definition consider_tab_shrink :: "nat \<Rightarrow> nat \<Rightarrow> nat \<Rightarrow> shf \<Rightarrow> shf_error + shf" where
  "consider_tab_shrink win tab i s =
     (if tab_data_used (inode s i) div 4 < tab_data_free (inode s i) then shf_tab_shrink win tab s else Inr s)"

definition found_delete :: "nat \<Rightarrow> nat \<Rightarrow> nat \<Rightarrow> nat \<Rightarrow> nat \<Rightarrow> shf \<Rightarrow> nat \<times> shf" where
  "found_delete i row ref key_len val_len s =
     (let (j, a) = the (shf_val_addr s) in
      if shf_ttl s \<noteq> 0 \<and> shf_ttl s \<noteq> SHF_U32_AT (tab_data (inode s j)) a
      then (SHF_RET_KEY_FOUND OR SHF_RET_NOT_TTL, s\<lparr>shf_ttl := 0\<rparr>)
      else let s = (if shf_ttl s \<noteq> 0 then shf_copy_val val_len s else s);
               s = upd_inode i (tab_ref_mark_as_deleted (len_len (lens_of s)) row ref key_len val_len) s
           in (SHF_RET_KEY_FOUND, s\<lparr>shf_uid := SHF_UID_NONE, shf_ttl := 0\<rparr>))"

definition found_key :: "find_and \<Rightarrow> (byte list \<Rightarrow> nat \<times> byte list) \<Rightarrow> nat \<Rightarrow> nat \<Rightarrow> nat \<Rightarrow> nat \<Rightarrow> nat \<Rightarrow> nat \<Rightarrow> nat
    \<Rightarrow> shf \<Rightarrow> shf_error + nat \<times> shf" where
  "found_key what upd win tab i row ref key_len val_len s =
     (let (j, a) = the (shf_val_addr s) in
      case what of
        SHF_FIND_KEY_OR_UID_ADDR \<Rightarrow> Inr (SHF_RET_KEY_FOUND, s)
      | SHF_FIND_KEY_OR_UID_AND_COPY_KEY \<Rightarrow>
          bindE (consider_tab_shrink win tab i (shf_copy_key key_len s)) (\<lambda>s. Inr (SHF_RET_KEY_FOUND, s))
      | SHF_FIND_KEY_OR_UID_AND_COPY_VAL \<Rightarrow>
          bindE (consider_tab_shrink win tab i (shf_copy_val val_len s)) (\<lambda>s. Inr (SHF_RET_KEY_FOUND, s))
      | SHF_FIND_KEY_OR_UID_AND_ATOM_ADD \<Rightarrow>
          (if 8 \<le> val_len then
             let new = long_at (tab_data (inode s j)) a + shf_val_long s
             in Inr (SHF_RET_KEY_FOUND,
                  (upd_inode j (\<lambda>t. t\<lparr>tab_data := put_long a new (tab_data t)\<rparr>) s)\<lparr>shf_val_long := new\<rparr>)
           else Inr (SHF_RET_KEY_FOUND OR SHF_RET_BAD_VAL, s))
      | SHF_FIND_KEY_OR_UID_AND_DELETE \<Rightarrow> Inr (found_delete i row ref key_len val_len s)
      | SHF_FIND_KEY_OR_UID_AND_UPDATE \<Rightarrow>
          (let failsafe = u32 (shf_upd_callback_failsafe s + 1) in
           bindE (assertE (failsafe = 1) Upd_recursive) (\<lambda>_.
           let (res, bs) = upd (mem_bytes (tab_data (inode s j)) a val_len);
               s = upd_inode j (\<lambda>t. t\<lparr>tab_data := SHF_MEM_AT a bs (tab_data t)\<rparr>) s
           in Inr (SHF_RET_KEY_FOUND OR res, s\<lparr>shf_upd_callback_failsafe := u32_sub failsafe 1\<rparr>))))"

definition shf_find_key_internal :: "nat \<Rightarrow> find_and \<Rightarrow> (byte list \<Rightarrow> nat \<times> byte list) \<Rightarrow> shf
    \<Rightarrow> shf_error + nat \<times> shf" where
  "shf_find_key_internal uid what upd s =
     (let by_key = (uid = SHF_UID_NONE); part = uid_as_part uid;
          win = (if by_key then hash_win (the_hash s) else uid_win part);
          tab2 = (if by_key then hash_tab2 (the_hash s) else uid_tab part);
          row = (if by_key then hash_row (the_hash s) else uid_row part);
          tab = win_tabs (wins s win) tab2
      in bindE (get_tab_mmap win tab s) (\<lambda>(i, s).
         bindE (if by_key then
             bindE (search_row win tab2 i row (hash_rnd (the_hash s)) [0..<SHF_REFS_PER_ROW] (s\<lparr>shf_uid := SHF_UID_NONE\<rparr>))
               (\<lambda>(found, s). Inr (found, case found of None \<Rightarrow> s
                  | Some (ref, _) \<Rightarrow> s\<lparr>shf_uid := mk_uid win tab2 row ref\<rparr>))
           else
             let ref = uid_ref part; r = tab_row (inode s i) row ref
             in if ref_pos r \<noteq> 0 \<and> ref_tab r = tab2
                then bindE (ref_locate i row ref s) (\<lambda>(key_len, val_len, s). Inr (Some (ref, key_len, val_len), s))
                else Inr (None, s)) (\<lambda>(found, s).
         case found of
           None \<Rightarrow> Inr (SHF_RET_KEY_NONE, s\<lparr>shf_val_addr := None\<rparr>)
         | Some (ref, key_len, val_len) \<Rightarrow> found_key what upd win tab i row ref key_len val_len s)))"

section \<open>The entry points\<close>

definition no_upd :: "byte list \<Rightarrow> nat \<times> byte list" where "no_upd bs = (SHF_RET_OK, bs)"

definition shf_get_key_val_addr :: "shf \<Rightarrow> shf_error + nat \<times> shf" where
  "shf_get_key_val_addr = shf_find_key_internal SHF_UID_NONE SHF_FIND_KEY_OR_UID_ADDR no_upd"
definition shf_get_uid_val_addr :: "nat \<Rightarrow> shf \<Rightarrow> shf_error + nat \<times> shf" where
  "shf_get_uid_val_addr uid = shf_find_key_internal uid SHF_FIND_KEY_OR_UID_ADDR no_upd"
definition shf_get_key_key_copy :: "shf \<Rightarrow> shf_error + nat \<times> shf" where
  "shf_get_key_key_copy = shf_find_key_internal SHF_UID_NONE SHF_FIND_KEY_OR_UID_AND_COPY_KEY no_upd"
definition shf_get_uid_key_copy :: "nat \<Rightarrow> shf \<Rightarrow> shf_error + nat \<times> shf" where
  "shf_get_uid_key_copy uid = shf_find_key_internal uid SHF_FIND_KEY_OR_UID_AND_COPY_KEY no_upd"
definition shf_get_key_val_copy :: "shf \<Rightarrow> shf_error + nat \<times> shf" where
  "shf_get_key_val_copy = shf_find_key_internal SHF_UID_NONE SHF_FIND_KEY_OR_UID_AND_COPY_VAL no_upd"
definition shf_get_uid_val_copy :: "nat \<Rightarrow> shf \<Rightarrow> shf_error + nat \<times> shf" where
  "shf_get_uid_val_copy uid = shf_find_key_internal uid SHF_FIND_KEY_OR_UID_AND_COPY_VAL no_upd"
definition shf_add_key_val_atom :: "64 word \<Rightarrow> shf \<Rightarrow> shf_error + nat \<times> shf" where
  "shf_add_key_val_atom add s = shf_find_key_internal SHF_UID_NONE SHF_FIND_KEY_OR_UID_AND_ATOM_ADD no_upd
     (s\<lparr>shf_val_long := add\<rparr>)"
definition shf_add_uid_val_atom :: "nat \<Rightarrow> 64 word \<Rightarrow> shf \<Rightarrow> shf_error + nat \<times> shf" where
  "shf_add_uid_val_atom uid add s = shf_find_key_internal uid SHF_FIND_KEY_OR_UID_AND_ATOM_ADD no_upd
     (s\<lparr>shf_val_long := add\<rparr>)"
definition shf_del_key_val :: "shf \<Rightarrow> shf_error + nat \<times> shf" where
  "shf_del_key_val = shf_find_key_internal SHF_UID_NONE SHF_FIND_KEY_OR_UID_AND_DELETE no_upd"
definition shf_del_uid_val :: "nat \<Rightarrow> shf \<Rightarrow> shf_error + nat \<times> shf" where
  "shf_del_uid_val uid = shf_find_key_internal uid SHF_FIND_KEY_OR_UID_AND_DELETE no_upd"
definition shf_upd_key_val :: "(byte list \<Rightarrow> nat \<times> byte list) \<Rightarrow> shf \<Rightarrow> shf_error + nat \<times> shf" where
  "shf_upd_key_val upd = shf_find_key_internal SHF_UID_NONE SHF_FIND_KEY_OR_UID_AND_UPDATE upd"
definition shf_upd_uid_val :: "nat \<Rightarrow> (byte list \<Rightarrow> nat \<times> byte list) \<Rightarrow> shf \<Rightarrow> shf_error + nat \<times> shf" where
  "shf_upd_uid_val uid upd = shf_find_key_internal uid SHF_FIND_KEY_OR_UID_AND_UPDATE upd"

text \<open>
  The default callback once the user has preset a value to copy: the value is replaced when the
  lengths agree.
\<close>

definition shf_upd_callback_copy :: "byte list \<Rightarrow> byte list \<Rightarrow> nat \<times> byte list" where
  "shf_upd_callback_copy preset bs =
     (if length bs = length preset then (SHF_RET_OK, preset) else (SHF_RET_BAD_CB, bs))"

text \<open>Reference counting: the key goes when its count reaches zero, and comes with the first add.\<close>

definition long_bytes :: "64 word \<Rightarrow> byte list" where
  "long_bytes w = mem_bytes (put_long 0 w (\<lambda>_. 0)) 0 8"

definition shf_add_key_val :: "64 word \<Rightarrow> shf \<Rightarrow> shf_error + nat \<times> shf" where
  "shf_add_key_val add s =
     bindE (shf_add_key_val_atom add s) (\<lambda>(result, s).
     if result = SHF_RET_KEY_FOUND then
       if shf_val_long s = 0 then bindE (shf_del_key_val s) (\<lambda>(_, s). Inr (result, s)) else Inr (result, s)
     else if result = SHF_RET_KEY_NONE then
       bindE (shf_put_key_val (Some (long_bytes add)) 8 s) (\<lambda>(_, s).
       Inr (SHF_RET_KEY_FOUND, s\<lparr>shf_val_long := add\<rparr>))
     else Inr (result, s))"

definition shf_add_uid_val :: "nat \<Rightarrow> 64 word \<Rightarrow> shf \<Rightarrow> shf_error + nat \<times> shf" where
  "shf_add_uid_val uid add s =
     bindE (shf_add_uid_val_atom uid add s) (\<lambda>(result, s).
     if result = SHF_RET_KEY_FOUND \<and> shf_val_long s = 0
     then bindE (shf_del_uid_val uid s) (\<lambda>(_, s). Inr (result, s))
     else Inr (result, s))"

section \<open>Finding\<close>

text \<open>A search only counts its misses and points the address variables at records.\<close>

definition counted :: "shf \<Rightarrow> shf \<Rightarrow> bool" where
  "counted s s' \<longleftrightarrow> s' = s\<lparr>wins := wins s', shf_key_addr := shf_key_addr s', shf_val_addr := shf_val_addr s'\<rparr>
     \<and> same_routes s s'"

lemma counted_refl [simp]: "counted s s"
  by (simp add: counted_def)

lemma counted_trans: "counted s s' \<Longrightarrow> counted s' s'' \<Longrightarrow> counted s s''"
  by (cases s, cases s', cases s'') (auto simp: counted_def same_routes_def)

lemma countedD:
  assumes "counted s s'"
  shows "tab_file s' = tab_file s" "inode s' = inode s" "fsize s' = fsize s" "next_inode s' = next_inode s"
    "tabs s' = tabs s" "lens_of s' = lens_of s" "the_hash s' = the_hash s" "shf_hash_key s' = shf_hash_key s"
    "shf_uid s' = shf_uid s" "shf_ttl s' = shf_ttl s" "shf_val_long s' = shf_val_long s"
    "shf_upd_callback_failsafe s' = shf_upd_callback_failsafe s" "vfs_available s' = vfs_available s"
    "shf_data_needed_factor s' = shf_data_needed_factor s" "same_routes s s'" "type_extended s' = type_extended s"
    "shf_val s' = shf_val s" "shf_key s' = shf_key s"
proof -
  define s'' where "s'' = s'"
  have e: "s' = s\<lparr>wins := wins s'', shf_key_addr := shf_key_addr s'', shf_val_addr := shf_val_addr s''\<rparr>"
    using assms by (simp add: counted_def s''_def)
  show "tab_file s' = tab_file s" "inode s' = inode s" "fsize s' = fsize s" "next_inode s' = next_inode s"
    "tabs s' = tabs s" "lens_of s' = lens_of s" "the_hash s' = the_hash s" "shf_hash_key s' = shf_hash_key s"
    "shf_uid s' = shf_uid s" "shf_ttl s' = shf_ttl s" "shf_val_long s' = shf_val_long s"
    "shf_upd_callback_failsafe s' = shf_upd_callback_failsafe s" "vfs_available s' = vfs_available s"
    "shf_data_needed_factor s' = shf_data_needed_factor s" "type_extended s' = type_extended s"
    "shf_val s' = shf_val s" "shf_key s' = shf_key s"
    unfolding e by (simp_all add: lens_of_def)
  show "same_routes s s'" using assms by (simp add: counted_def)
qed

lemma counted_upd_win:
  "(\<And>w. win_tabs (g w) = win_tabs w) \<Longrightarrow> (\<And>w. tabs_used (g w) = tabs_used w) \<Longrightarrow> counted s (upd_win win g s)"
  by (simp add: counted_def upd_win_def same_routes_def)

lemma ref_locate_ok:
  assumes ok: "tab_ok (lens_of s) (inode s i)" and lv: "(row, ref) \<in> live (inode s i)"
    and sl: "slot (lens_of s) (inode s i) (row, ref) = Some (t2, rnd, k, v)"
  shows "\<exists>s'. ref_locate i row ref s = Inr (length k, length v, s') \<and> counted s s' \<and> shf_uid s' = shf_uid s
     \<and> shf_key_addr s' = Some (i, ref_key_addr (lens_of s) (slot_pos (inode s i) (row, ref)))
     \<and> shf_val_addr s' = Some (i, ref_val_addr (lens_of s) (tab_data (inode s i)) (slot_pos (inode s i) (row, ref)))"
proof -
  let ?L = "lens_of s" and ?t = "inode s i" and ?p = "slot_pos (inode s i) (row, ref)"
  have k: "length k = ref_key_len ?L (tab_data ?t) ?p" "length v = ref_val_len ?L (tab_data ?t) ?p"
    using sl by (simp_all add: slot_Some_iff ref_key_def ref_val_def)
  have "in_data ?t ?p (slot_size ?L ?t (row, ref))" by (rule tab_okD(8) [OF ok lv])
  then have b: "?p + data_needed (len_len ?L) (length k) (length v) \<le> tab_size ?t" "tab_size ?t < 4294967296"
    using tab_okD(2,3) [OF ok] by (auto simp: in_data_def slot_size_def rec_size_def k)
  then have "?p < tab_size ?t" "u32 (?p + 1 + len_len ?L + length k) \<le> tab_size ?t"
    "u32 (?p + 1 + len_len ?L + length k + len_len ?L + length v) \<le> tab_size ?t"
    by (simp_all add: data_needed_def)
  then show ?thesis
    by (simp add: ref_locate_def Let_def slot_pos_def k assertE_def counted_def same_routes_def)
qed

text \<open>The reference of a row that holds the current key, if there is one.\<close>

definition hit :: "lens \<Rightarrow> tab_mmap \<Rightarrow> nat \<Rightarrow> nat \<Rightarrow> nat \<Rightarrow> byte list \<Rightarrow> nat \<Rightarrow> bool" where
  "hit L t tab2 row rnd key ref \<longleftrightarrow> (case slot L t (row, ref) of
     Some (t2, r, k, v) \<Rightarrow> t2 = tab2 \<and> r = rnd \<and> k = key | None \<Rightarrow> False)"

lemma search_row_ok:
  assumes "tab_ok (lens_of s) (inode s i)" "row < 512" "\<And>ref. ref \<in> set refs \<Longrightarrow> ref < 16"
  shows "\<exists>s'. counted s s' \<and>
    (case find (hit (lens_of s) (inode s i) tab2 row rnd (shf_hash_key s)) refs of
       None \<Rightarrow> search_row win tab2 i row rnd refs s = Inr (None, s')
     | Some ref \<Rightarrow> \<exists>v. slot (lens_of s) (inode s i) (row, ref) = Some (tab2, rnd, shf_hash_key s, v)
         \<and> search_row win tab2 i row rnd refs s = Inr (Some (ref, length (shf_hash_key s), length v), s')
         \<and> shf_key_addr s' = Some (i, ref_key_addr (lens_of s) (slot_pos (inode s i) (row, ref)))
         \<and> shf_val_addr s' = Some (i, ref_val_addr (lens_of s) (tab_data (inode s i)) (slot_pos (inode s i) (row, ref))))"
  using assms
proof (induction refs arbitrary: s)
  case Nil
  then show ?case by (auto intro: exI [of _ s])
next
  case (Cons ref refs)
  let ?L = "lens_of s" and ?t = "inode s i"
  let ?r = "tab_row ?t row ref"
  have step: ?case if c: "counted s s1" and miss: "\<not> hit ?L ?t tab2 row rnd (shf_hash_key s) ref"
    and run: "search_row win tab2 i row rnd (ref # refs) s = search_row win tab2 i row rnd refs s1" for s1
  proof -
    note e = countedD [OF c]
    have "\<exists>s'. counted s1 s' \<and>
      (case find (hit ?L ?t tab2 row rnd (shf_hash_key s)) refs of
         None \<Rightarrow> search_row win tab2 i row rnd refs s1 = Inr (None, s')
       | Some ref \<Rightarrow> \<exists>v. slot ?L ?t (row, ref) = Some (tab2, rnd, shf_hash_key s, v)
         \<and> search_row win tab2 i row rnd refs s1 = Inr (Some (ref, length (shf_hash_key s), length v), s')
         \<and> shf_key_addr s' = Some (i, ref_key_addr ?L (slot_pos ?t (row, ref)))
         \<and> shf_val_addr s' = Some (i, ref_val_addr ?L (tab_data ?t) (slot_pos ?t (row, ref))))"
      using Cons.IH [of s1] Cons.prems unfolding e by auto
    then show ?thesis unfolding run find.simps if_not_P [OF miss] using counted_trans [OF c] by blast
  qed
  show ?case
  proof (cases "ref_pos ?r \<noteq> 0 \<and> ref_rnd ?r = rnd \<and> ref_tab ?r = tab2")
    case False
    then show ?thesis
      by (intro step [of s]) (auto simp: hit_def slot_def Let_def live_def slot_pos_def split: option.split)
  next
    case True
    then have lv: "(row, ref) \<in> live ?t"
      using Cons.prems(2,3) by (simp add: live_def slots_def slot_pos_def shf_const_eq)
    obtain k v where sl: "slot ?L ?t (row, ref) = Some (tab2, rnd, k, v)"
      using lv True by (simp add: slot_def Let_def)
    obtain s1 where l: "ref_locate i row ref s = Inr (length k, length v, s1)" "counted s s1"
      "shf_key_addr s1 = Some (i, ref_key_addr ?L (slot_pos ?t (row, ref)))"
      "shf_val_addr s1 = Some (i, ref_val_addr ?L (tab_data ?t) (slot_pos ?t (row, ref)))"
      using ref_locate_ok [OF Cons.prems(1) lv sl] by blast
    note e = countedD [OF l(2)]
    have cmp: "SHF_CMP_AT (tab_data ?t) (ref_key_addr ?L (ref_pos ?r)) (shf_hash_key s) = 0 \<longleftrightarrow> k = shf_hash_key s"
      if "length k = length (shf_hash_key s)"
      using sl that by (auto simp: slot_Some_iff ref_key_def slot_pos_def)
    consider "length k \<noteq> length (shf_hash_key s)" | "length k = length (shf_hash_key s)" "k \<noteq> shf_hash_key s"
      | "k = shf_hash_key s" by blast
    then show ?thesis
    proof cases
      case 1
      let ?s = "upd_win win (\<lambda>w. w\<lparr>keylen_misses := u64 (keylen_misses w + 1)\<rparr>) s1"
      have "counted s ?s" by (rule counted_trans [OF l(2)]) (rule counted_upd_win, simp_all)
      then show ?thesis using 1 True l(1) sl by (intro step [of ?s]) (auto simp: hit_def Let_def e)
    next
      case 2
      let ?s = "upd_win win (\<lambda>w. w\<lparr>memcmp_misses := u64 (memcmp_misses w + 1)\<rparr>) s1"
      have "counted s ?s" by (rule counted_trans [OF l(2)]) (rule counted_upd_win, simp_all)
      then show ?thesis using 2 True l(1) sl cmp by (intro step [of ?s]) (auto simp: hit_def Let_def e)
    next
      case 3
      then have "hit ?L ?t tab2 row rnd (shf_hash_key s) ref" using sl by (simp add: hit_def)
      moreover have "search_row win tab2 i row rnd (ref # refs) s = Inr (Some (ref, length k, length v), s1)"
        using 3 True l(1) cmp by (simp add: Let_def e)
      ultimately show ?thesis using l 3 sl by (auto intro!: exI [of _ s1] simp del: search_row.simps)
    qed
  qed
qed

text \<open>No file has been replaced and no table that is in use has changed.\<close>

definition steady :: "shf \<Rightarrow> shf \<Rightarrow> bool" where
  "steady s s' \<longleftrightarrow> tab_file s' = tab_file s \<and> (\<forall>i. tab_size (inode s i) \<noteq> 0 \<longrightarrow> inode s' i = inode s i)"

lemma steady_trans: "steady s s' \<Longrightarrow> steady s' s'' \<Longrightarrow> steady s s''"
  by (simp add: steady_def)

lemma got_tab_steady: "got_tab win tab i s s' \<Longrightarrow> steady s s'"
  by (auto simp: got_tab_def steady_def init_of_def)

text \<open>The part of an instance that looking for a key or a UID leaves alone.\<close>

definition looked :: "shf \<Rightarrow> shf \<Rightarrow> bool" where
  "looked s s' \<longleftrightarrow> shf_ok s' \<and> steady s s' \<and> (\<forall>m. coherent s m \<longrightarrow> coherent s' m) \<and> kv (lens_of s) s' = kv (lens_of s) s
     \<and> (\<forall>n. shf_room n s \<longrightarrow> shf_room n s') \<and> same_routes s s' \<and> lens_of s' = lens_of s
     \<and> the_hash s' = the_hash s \<and> shf_hash_key s' = shf_hash_key s \<and> shf_ttl s' = shf_ttl s
     \<and> shf_val_long s' = shf_val_long s \<and> shf_upd_callback_failsafe s' = shf_upd_callback_failsafe s
     \<and> shf_val s' = shf_val s \<and> shf_key s' = shf_key s"

lemma looked_trans: "looked s s' \<Longrightarrow> looked s' s'' \<Longrightarrow> looked s s''"
  by (auto simp: looked_def intro: same_routes_trans steady_trans)

lemma same_thread_outputs:
  assumes "same_thread s s'"
  shows "shf_val s' = shf_val s" "shf_key s' = shf_key s" "shf_uid s' = shf_uid s"
    "shf_val_addr s' = shf_val_addr s" "shf_key_addr s' = shf_key_addr s"
proof -
  have "s' = s\<lparr>tab_file := tab_file s', inode := inode s', fsize := fsize s',
      next_inode := next_inode s', wins := wins s', tabs := tabs s', count_mmap := count_mmap s'\<rparr>"
    using assms by (simp add: same_thread_def)
  then show "shf_val s' = shf_val s" "shf_key s' = shf_key s" "shf_uid s' = shf_uid s"
    "shf_val_addr s' = shf_val_addr s" "shf_key_addr s' = shf_key_addr s"
    by (cases s; cases s'; simp)+
qed

lemma quiet_looked:
  assumes "quiet s s'" "same_routes s s'" "\<And>n. shf_room n s \<Longrightarrow> shf_room n s'" "steady s s'"
  shows "looked s s'"
  using assms same_threadD [of s s'] same_thread_outputs [of s s'] by (simp add: looked_def quiet_def)

lemma counted_looked:
  assumes c: "counted s s'" and ok: "shf_ok s"
  shows "looked s s'"
proof -
  note e = countedD [OF c] and D = shf_okD [OF ok]
  have t: "table s' = table s" by (simp add: table_def e fun_eq_iff split: option.split)
  have co: "coherent s' m" if "coherent s m" for m using coherent_contents [OF that e(1,4)] by (simp add: e)
  have "files_ok (lens_of s) s'"
    using files_okD(3) [OF D(2)] by (intro files_ok_contents [OF D(2) e(1,4,15)]) (simp add: e)
  moreover have "routes_ok s'" by (rule routes_ok_contents [OF D(3) e(15)]) (simp add: t)
  moreover have "shf_room n s'" if "shf_room n s" for n
    using that by (simp add: shf_room_def t room_def e)
  ultimately show ?thesis using D(1,4) co kv_same [OF e(15), of "lens_of s"]
    by (simp add: looked_def shf_ok_def e t steady_def)
qed

lemma same_store_looked:
  assumes "same_store s s'" "shf_ok s" "the_hash s' = the_hash s" "shf_hash_key s' = shf_hash_key s" "shf_ttl s' = shf_ttl s"
    "shf_val_long s' = shf_val_long s" "shf_upd_callback_failsafe s' = shf_upd_callback_failsafe s"
    "shf_val s' = shf_val s" "shf_key s' = shf_key s"
  shows "looked s s'"
  using assms same_storeD [OF assms(1)] by (simp add: looked_def same_routes_def steady_def same_store_def)

text \<open>The record of the reference \<open>ref\<close> has been found and the address variables point at it.\<close>

definition located :: "nat \<Rightarrow> nat \<Rightarrow> nat \<Rightarrow> nat \<Rightarrow> nat \<Rightarrow> nat \<Rightarrow> byte list \<Rightarrow> byte list \<Rightarrow> shf \<Rightarrow> bool" where
  "located win tab2 i row ref rnd k v s \<longleftrightarrow> shf_ok s \<and> win < 256 \<and> tab2 < 2048
     \<and> (let tab = win_tabs (wins s win) tab2 in tab_file s win tab = Some i
          \<and> tabs s win tab = \<lparr>off_mmap = i, off_size = tab_size (inode s i)\<rparr>)
     \<and> tab_size (inode s i) \<noteq> 0
     \<and> slot (lens_of s) (inode s i) (row, ref) = Some (tab2, rnd, k, v)
     \<and> shf_key_addr s = Some (i, ref_key_addr (lens_of s) (slot_pos (inode s i) (row, ref)))
     \<and> shf_val_addr s = Some (i, ref_val_addr (lens_of s) (tab_data (inode s i)) (slot_pos (inode s i) (row, ref)))"

text \<open>Where the current key is: the reference of its row that holds it.\<close>

definition key_ref :: "shf \<Rightarrow> nat option" where
  "key_ref s = find (\<lambda>ref. case kv (lens_of s) s (hash_win (the_hash s), hash_tab2 (the_hash s), hash_row (the_hash s), ref) of
       None \<Rightarrow> False
     | Some (rnd, k, v) \<Rightarrow> rnd = hash_rnd (the_hash s) \<and> k = shf_hash_key s) [0..<SHF_REFS_PER_ROW]"

text \<open>The common start of both searches.\<close>

lemma find_start:
  assumes ok: "shf_ok s" and b: "win < 256" "tab2 < 2048"
  shows "\<exists>i s1. get_tab_mmap win (win_tabs (wins s win) tab2) s = Inr (i, s1) \<and> looked s s1 \<and> shf_uid s1 = shf_uid s
     \<and> tab_file s1 win (win_tabs (wins s1 win) tab2) = Some i
     \<and> tabs s1 win (win_tabs (wins s1 win) tab2) = \<lparr>off_mmap = i, off_size = tab_size (inode s1 i)\<rparr>
     \<and> tab_ok (lens_of s1) (inode s1 i) \<and> table s1 win (win_tabs (wins s1 win) tab2) = inode s1 i"
proof -
  note D = shf_okD [OF ok]
  define tab where "tab = win_tabs (wins s win) tab2"
  have tab: "tab < tabs_used (wins s win)" using files_okD(8) [OF D(2) b] by (simp add: tab_def)
  obtain i s1 where g: "tab_file s win tab = Some i" "get_tab_mmap win tab s = Inr (i, s1)" "got_tab win tab i s s1"
    using get_tab_mmap_ok [OF D(2,4) b(1) tab] by blast
  note G = got_tab_quiet [OF ok g(3,1)]
  note Q = quietD [OF G(1)]
  have r: "same_routes s s1" using g(3) by (simp add: got_tab_def)
  have "shf_room n s1" if "shf_room n s" for n
    using set_table_table [OF G(2) D(2)] by (intro shf_room_mono [OF that Q(1)]) (auto simp: init_of_def table_Some [OF g(1)])
  then have "looked s s1" using got_tab_steady [OF g(3)] by (rule quiet_looked [OF G(1) r])
  moreover have "win_tabs (wins s1 win) tab2 = tab" using r by (simp add: same_routes_def tab_def)
  moreover have "tab_file s1 win tab = Some i" using g(1,3) by (simp add: got_tab_def)
  moreover have "shf_uid s1 = shf_uid s"
  proof -
    have "s1 = s\<lparr>tab_file := tab_file s1, inode := inode s1, fsize := fsize s1,
      next_inode := next_inode s1, wins := wins s1, tabs := tabs s1, count_mmap := count_mmap s1\<rparr>"
      using Q(1) by (simp add: same_thread_def)
    then show ?thesis by (cases s, cases s1) simp
  qed
  ultimately show ?thesis using g(2,3) G(4) table_Some [of s1 win tab i]
    by (auto simp: tab_def [symmetric] got_tab_def Q(5))
qed

lemma find_by_key:
  assumes ok: "shf_ok s"
  defines "win \<equiv> hash_win (the_hash s)" and "tab2 \<equiv> hash_tab2 (the_hash s)" and "row \<equiv> hash_row (the_hash s)"
  shows "case key_ref s of
       None \<Rightarrow> \<exists>s'. shf_find_key_internal SHF_UID_NONE what upd s = Inr (SHF_RET_KEY_NONE, s') \<and> looked s s'
         \<and> shf_uid s' = SHF_UID_NONE \<and> shf_val_addr s' = None
     | Some ref \<Rightarrow> \<exists>i v s'. kv (lens_of s) s (win, tab2, row, ref) = Some (hash_rnd (the_hash s), shf_hash_key s, v)
         \<and> shf_find_key_internal SHF_UID_NONE what upd s
             = found_key what upd win (win_tabs (wins s win) tab2) i row ref (length (shf_hash_key s)) (length v) s'
         \<and> looked s s' \<and> located win tab2 i row ref (hash_rnd (the_hash s)) (shf_hash_key s) v s'
         \<and> shf_uid s' = mk_uid win tab2 row ref"
proof -
  let ?L = "lens_of s" and ?rnd = "hash_rnd (the_hash s)"
  have b: "win < 256" "tab2 < 2048" "row < 512" by (simp_all add: win_def tab2_def row_def)
  obtain i s1 where g: "get_tab_mmap win (win_tabs (wins s win) tab2) s = Inr (i, s1)" "looked s s1"
     "tab_file s1 win (win_tabs (wins s1 win) tab2) = Some i"
     "tabs s1 win (win_tabs (wins s1 win) tab2) = \<lparr>off_mmap = i, off_size = tab_size (inode s1 i)\<rparr>"
     "tab_ok (lens_of s1) (inode s1 i)" "table s1 win (win_tabs (wins s1 win) tab2) = inode s1 i"
    using find_start [OF ok b(1,2)] by blast
  define s2 where "s2 = s1\<lparr>shf_uid := SHF_UID_NONE\<rparr>"
  have ss: "same_store s1 s2" by (simp add: s2_def same_store_def)
  have ok1: "shf_ok s1" using g(2) by (simp add: looked_def)
  have l2: "looked s s2"
    by (rule looked_trans [OF g(2)], rule same_store_looked [OF ss ok1]) (simp_all add: s2_def)
  have e: "lens_of s1 = ?L" "lens_of s2 = ?L" "the_hash s1 = the_hash s" "shf_hash_key s2 = shf_hash_key s"
    "inode s2 = inode s1"
    using g(2) l2 by (simp_all add: looked_def s2_def)
  have kv: "kv ?L s = kv ?L s1" using g(2) by (simp add: looked_def)
  have "hit ?L (inode s1 i) tab2 row ?rnd (shf_hash_key s)
     = (\<lambda>ref. case kv ?L s (win, tab2, row, ref) of None \<Rightarrow> False | Some (rnd, k, v) \<Rightarrow> rnd = ?rnd \<and> k = shf_hash_key s)"
    by (auto simp: fun_eq_iff hit_def kv kv_eq g(6) split: option.split)
  then have find: "find (hit ?L (inode s1 i) tab2 row ?rnd (shf_hash_key s)) [0..<SHF_REFS_PER_ROW] = key_ref s"
    by (simp add: key_ref_def win_def tab2_def row_def)
  have p: "tab_ok ?L (inode s1 i)" "row < 512" "\<And>ref. ref \<in> set [0..<SHF_REFS_PER_ROW] \<Longrightarrow> ref < 16"
    using g(5) b(3) by (simp_all add: e shf_const_eq)
  obtain s3 where c: "counted s2 s3" and
    S: "case key_ref s of None \<Rightarrow> search_row win tab2 i row ?rnd [0..<SHF_REFS_PER_ROW] s2 = Inr (None, s3)
     | Some ref \<Rightarrow> \<exists>v. slot ?L (inode s1 i) (row, ref) = Some (tab2, ?rnd, shf_hash_key s, v)
         \<and> search_row win tab2 i row ?rnd [0..<SHF_REFS_PER_ROW] s2 = Inr (Some (ref, length (shf_hash_key s), length v), s3)
         \<and> shf_key_addr s3 = Some (i, ref_key_addr ?L (slot_pos (inode s1 i) (row, ref)))
         \<and> shf_val_addr s3 = Some (i, ref_val_addr ?L (tab_data (inode s1 i)) (slot_pos (inode s1 i) (row, ref)))"
    using search_row_ok [where s = s2 and i = i and row = row and refs = "[0..<SHF_REFS_PER_ROW]" and ?tab2.0 = tab2
      and rnd = ?rnd and win = win, unfolded e find] p by blast
  note ce = countedD [OF c]
  have ok2: "shf_ok s2" using l2 by (simp add: looked_def)
  have l3: "looked s s3" by (rule looked_trans [OF l2 counted_looked [OF c ok2]])
  have ok3: "shf_ok s3" using l3 by (simp add: looked_def)
  show ?thesis
  proof (cases "key_ref s")
    case None
    define s4 where "s4 = s3\<lparr>shf_val_addr := None\<rparr>"
    have "same_store s3 s4" by (simp add: s4_def same_store_def)
    then have "looked s s4" by (intro looked_trans [OF l3] same_store_looked [OF _ ok3]) (simp_all add: s4_def)
    moreover have "shf_find_key_internal SHF_UID_NONE what upd s = Inr (SHF_RET_KEY_NONE, s4)"
      using S None g(1) by (simp add: shf_find_key_internal_def Let_def win_def [symmetric] tab2_def [symmetric]
          row_def [symmetric] s2_def [symmetric] s4_def e)
    ultimately show ?thesis using None ce(9) by (auto simp: s4_def s2_def)
  next
    case (Some ref)
    then obtain v where v: "slot ?L (inode s1 i) (row, ref) = Some (tab2, ?rnd, shf_hash_key s, v)"
      "search_row win tab2 i row ?rnd [0..<SHF_REFS_PER_ROW] s2 = Inr (Some (ref, length (shf_hash_key s), length v), s3)"
      "shf_key_addr s3 = Some (i, ref_key_addr ?L (slot_pos (inode s1 i) (row, ref)))"
      "shf_val_addr s3 = Some (i, ref_val_addr ?L (tab_data (inode s1 i)) (slot_pos (inode s1 i) (row, ref)))"
      using S by auto
    define s4 where "s4 = s3\<lparr>shf_uid := mk_uid win tab2 row ref\<rparr>"
    have ss4: "same_store s3 s4" by (simp add: s4_def same_store_def)
    then have l4: "looked s s4" by (intro looked_trans [OF l3] same_store_looked [OF _ ok3]) (simp_all add: s4_def)
    have run: "shf_find_key_internal SHF_UID_NONE what upd s
        = found_key what upd win (win_tabs (wins s win) tab2) i row ref (length (shf_hash_key s)) (length v) s4"
      using v(2) g(1) by (simp add: shf_find_key_internal_def Let_def win_def [symmetric] tab2_def [symmetric]
          row_def [symmetric] s2_def [symmetric] s4_def e)
    have w: "win_tabs (wins s4 win) tab2 = win_tabs (wins s1 win) tab2"
      using l4 g(2) by (simp add: looked_def same_routes_def)
    have "located win tab2 i row ref ?rnd (shf_hash_key s) v s4"
      using v b g(3,4) l4 w tab_ok_size_nonzero [OF g(5)]
      by (auto simp: located_def Let_def looked_def s4_def ce s2_def)
    moreover have "kv ?L s (win, tab2, row, ref) = Some (?rnd, shf_hash_key s, v)"
      using v(1) by (simp add: kv kv_eq g(6))
    moreover have "shf_uid s4 = mk_uid win tab2 row ref" by (simp add: s4_def)
    ultimately show ?thesis unfolding Some option.case using run l4 by blast
  qed
qed


text \<open>The UID search: the reference must hold a record of the table index the UID names.\<close>

definition uid_coord :: "nat \<Rightarrow> coord" where
  "uid_coord uid = (let p = uid_as_part uid in (uid_win p, uid_tab p, uid_row p, uid_ref p))"

lemma find_by_uid:
  assumes ok: "shf_ok s" and uid: "uid \<noteq> SHF_UID_NONE" and c: "uid_coord uid = (win, tab2, row, ref)"
  shows "case kv (lens_of s) s (win, tab2, row, ref) of
       None \<Rightarrow> \<exists>s'. shf_find_key_internal uid what upd s = Inr (SHF_RET_KEY_NONE, s') \<and> looked s s'
         \<and> shf_uid s' = shf_uid s \<and> shf_val_addr s' = None
     | Some (rnd, k, v) \<Rightarrow> \<exists>i s'. shf_find_key_internal uid what upd s
             = found_key what upd win (win_tabs (wins s win) tab2) i row ref (length k) (length v) s'
         \<and> looked s s' \<and> located win tab2 i row ref rnd k v s' \<and> shf_uid s' = shf_uid s"
proof -
  let ?L = "lens_of s"
  have p: "uid_win (uid_as_part uid) = win" "uid_tab (uid_as_part uid) = tab2" "uid_row (uid_as_part uid) = row"
    "uid_ref (uid_as_part uid) = ref" using c by (simp_all add: uid_coord_def Let_def)
  have b: "win < 256" "tab2 < 2048" "row < 512" "ref < 16"
    using uid_as_part_bounds [of uid] by (simp_all add: p)
  obtain i s1 where g: "get_tab_mmap win (win_tabs (wins s win) tab2) s = Inr (i, s1)" "looked s s1" "shf_uid s1 = shf_uid s"
     "tab_file s1 win (win_tabs (wins s1 win) tab2) = Some i"
     "tabs s1 win (win_tabs (wins s1 win) tab2) = \<lparr>off_mmap = i, off_size = tab_size (inode s1 i)\<rparr>"
     "tab_ok (lens_of s1) (inode s1 i)" "table s1 win (win_tabs (wins s1 win) tab2) = inode s1 i"
    using find_start [OF ok b(1,2)] by blast
  have ok1: "shf_ok s1" and L1: "lens_of s1 = ?L" and kv: "kv ?L s = kv ?L s1" using g(2) by (simp_all add: looked_def)
  let ?r = "tab_row (inode s1 i) row ref"
  have start: "shf_find_key_internal uid what upd s =
      bindE (if ref_pos ?r \<noteq> 0 \<and> ref_tab ?r = tab2
        then bindE (ref_locate i row ref s1) (\<lambda>(key_len, val_len, s). Inr (Some (ref, key_len, val_len), s))
        else Inr (None, s1)) (\<lambda>(found, s).
      case found of None \<Rightarrow> Inr (SHF_RET_KEY_NONE, s\<lparr>shf_val_addr := None\<rparr>)
      | Some (ref, key_len, val_len) \<Rightarrow> found_key what upd win (win_tabs (wins s1 win) tab2) i row ref key_len val_len s)"
  proof -
    have "win_tabs (wins s1 win) tab2 = win_tabs (wins s win) tab2" using g(2) by (simp add: looked_def same_routes_def)
    note w = this
    show ?thesis
      unfolding shf_find_key_internal_def Let_def p if_not_P [OF uid] g(1) bindE.simps prod.case w ..
  qed
  have sl: "kv ?L s (win, tab2, row, ref) = (case slot ?L (inode s1 i) (row, ref) of None \<Rightarrow> None
     | Some (t, rnd, k, v) \<Rightarrow> if t = tab2 then Some (rnd, k, v) else None)" by (simp add: kv kv_eq g(7))
  show ?thesis
  proof (cases "ref_pos ?r \<noteq> 0 \<and> ref_tab ?r = tab2")
    case False
    then have "kv ?L s (win, tab2, row, ref) = None"
      by (auto simp: sl slot_def Let_def live_def slot_pos_def)
    moreover define s4 where "s4 = s1\<lparr>shf_val_addr := None\<rparr>"
    have "same_store s1 s4" by (simp add: s4_def same_store_def)
    then have "looked s s4" by (intro looked_trans [OF g(2)] same_store_looked [OF _ ok1]) (simp_all add: s4_def)
    moreover have "shf_find_key_internal uid what upd s = Inr (SHF_RET_KEY_NONE, s4)"
      unfolding start if_not_P [OF False] by (simp add: s4_def)
    ultimately show ?thesis using g(3) by (auto simp: s4_def)
  next
    case True
    then have lv: "(row, ref) \<in> live (inode s1 i)"
      using b by (simp add: live_def slots_def slot_pos_def shf_const_eq)
    obtain rnd k v where v: "slot ?L (inode s1 i) (row, ref) = Some (tab2, rnd, k, v)"
      using lv True by (simp add: slot_def Let_def)
    obtain s2 where l: "ref_locate i row ref s1 = Inr (length k, length v, s2)" "counted s1 s2" "shf_uid s2 = shf_uid s1"
      "shf_key_addr s2 = Some (i, ref_key_addr ?L (slot_pos (inode s1 i) (row, ref)))"
      "shf_val_addr s2 = Some (i, ref_val_addr ?L (tab_data (inode s1 i)) (slot_pos (inode s1 i) (row, ref)))"
      using ref_locate_ok [OF g(6) lv, unfolded L1, OF v] by blast
    note ce = countedD [OF l(2)]
    have l2: "looked s s2" by (rule looked_trans [OF g(2) counted_looked [OF l(2) ok1]])
    have w: "win_tabs (wins s2 win) tab2 = win_tabs (wins s win) tab2" "win_tabs (wins s1 win) tab2 = win_tabs (wins s win) tab2"
      using l2 g(2) by (simp_all add: looked_def same_routes_def)
    have "located win tab2 i row ref rnd k v s2"
      using v b g(4,5) l l2 w tab_ok_size_nonzero [OF g(6)]
      by (auto simp: located_def Let_def looked_def ce)
    moreover have "shf_find_key_internal uid what upd s
        = found_key what upd win (win_tabs (wins s win) tab2) i row ref (length k) (length v) s2"
      unfolding start if_P [OF True] l(1) w by simp
    moreover have "kv ?L s (win, tab2, row, ref) = Some (rnd, k, v)" by (simp add: sl v)
    ultimately show ?thesis using l2 l(3) g(3) by auto
  qed
qed

section \<open>Changing a value in place\<close>

text \<open>The bytes of a value are overwritten by as many bytes.\<close>

lemma overwrite_val:
  assumes L: "lens_ok L" and ok: "tab_ok L t" and lv: "rf \<in> live t"
    and bs: "length bs = ref_val_len L (tab_data t) (slot_pos t rf)"
    and t': "t' = t\<lparr>tab_data := SHF_MEM_AT (ref_val_addr L (tab_data t) (slot_pos t rf)) bs (tab_data t)\<rparr>"
  shows "inserted L rf (tab_row t (fst rf) (snd rf)) (slot_size L t rf) t t'"
    "ref_key L (tab_data t') (slot_pos t rf) = ref_key L (tab_data t) (slot_pos t rf)"
    "ref_val L (tab_data t') (slot_pos t rf) = bs"
proof -
  note D = tab_okD [OF ok]
  let ?p = "slot_pos t rf" and ?m = "tab_data t" and ?ll = "len_len L"
  let ?kl = "ref_key_len L ?m ?p" and ?vl = "ref_val_len L ?m ?p" and ?m' = "tab_data t'"
  have n: "slot_size L t rf = 1 + ?ll + ?kl + ?ll + ?vl" by (simp add: slot_size_def rec_size_def data_needed_def)
  have in_d: "in_data t ?p (slot_size L t rf)" using D(8) [OF lv] .
  then have lt: "?p + (1 + ?ll + ?kl + ?ll + ?vl) < 4294967296" using D(2,3) n by (simp add: in_data_def)
  have a: "ref_val_addr L ?m ?p = ?p + 1 + ?ll + ?kl + ?ll" using lt by (simp add: ref_val_addr_def)
  have m': "?m' = SHF_MEM_AT (?p + 1 + ?ll + ?kl + ?ll) bs ?m" by (simp add: t' a)
  have ll: "?ll = 4 \<or> ?ll = 0" by (rule lens_okD [OF L])
  have kl: "ref_key_len L ?m' ?p = ?kl" using ll lt by (auto simp: ref_key_len_def m' mem_read_write)
  have vl: "ref_val_len L ?m' ?p = ?vl"
    using ll lt by (auto simp: ref_val_len_def kl) (auto simp: m' mem_read_write)
  show "ref_key L ?m' ?p = ref_key L ?m ?p"
    using lt by (simp add: ref_key_def ref_key_addr_def kl) (simp add: m' mem_read_write)
  show "ref_val L ?m' ?p = bs"
    using lt bs by (simp add: ref_val_def ref_val_addr_def kl vl) (simp add: m' mem_read_write)
  have "same_outside ?p (slot_size L t rf) ?m ?m'" using bs n by (auto simp: same_outside_def m' mem_outside)
  moreover have "apart (slot_pos t y) (slot_size L t y) ?p (slot_size L t rf)" if "y \<in> live t" "y \<noteq> rf" for y
    using D(5) lv that by (simp add: live_ok_def)
  moreover have "rec_size L ?m' ?p = slot_size L t rf" by (simp add: rec_size_def slot_size_def kl vl)
  moreover have "rf \<in> slots" using lv by (simp add: live_def)
  ultimately show "inserted L rf (tab_row t (fst rf) (snd rf)) (slot_size L t rf) t t'"
    using L D(2,3,5) in_d by (auto simp: inserted_def t' slot_pos_def in_data_def fun_eq_iff)
qed

lemma overwrite_ok:
  assumes L: "lens_ok L" and ok: "tab_ok L t" and sl: "slot L t rf = Some (t2, rnd, k, v)"
    and bs: "length bs = length v"
    and t': "t' = t\<lparr>tab_data := SHF_MEM_AT (ref_val_addr L (tab_data t) (slot_pos t rf)) bs (tab_data t)\<rparr>"
  shows "tab_ok L t'" "slot L t' = (slot L t)(rf \<mapsto> (t2, rnd, k, bs))" "tab_size t' = tab_size t"
    "tab_used t' = tab_used t"
proof -
  have lv: "rf \<in> live t" and s: "t2 = ref_tab (tab_row t (fst rf) (snd rf))" "rnd = ref_rnd (tab_row t (fst rf) (snd rf))"
    "k = ref_key L (tab_data t) (slot_pos t rf)" "v = ref_val L (tab_data t) (slot_pos t rf)"
    using sl by (simp_all add: slot_Some_iff)
  have lb: "length bs = ref_val_len L (tab_data t) (slot_pos t rf)" using bs by (simp add: s ref_val_def)
  note O = overwrite_val [OF L ok lv lb t']
  note D = tab_okD [OF ok]
  have p: "ref_pos (tab_row t (fst rf) (snd rf)) = slot_pos t rf" by (simp add: slot_pos_def)
  show "slot L t' = (slot L t)(rf \<mapsto> (t2, rnd, k, bs))"
    using inserted_slot [OF O(1)] O(2,3) by (simp add: s p)
  have h: "tab_size t' = tab_size t" "tab_used t' = tab_used t" "tab_data_used t' = tab_data_used t"
    "tab_data_free t' = tab_data_free t" "tab_data_free_pos t' = tab_data_free_pos t" by (simp_all add: t')
  show "tab_size t' = tab_size t" "tab_used t' = tab_used t" by (simp_all add: t')
  have lv': "live t' = live t" using inserted_new_slot(3) [OF O(1)] lv by auto
  have sz: "slot_size L t' y = slot_size L t y" if "y \<in> live t" for y
    using inserted_new_slot(2) [OF O(1)] inserted_old_slot [OF O(1) that] by (cases "y = rf") auto
  have "acct_ok L t'" using D(6,7) sz by (simp add: acct_ok_def h lv')
  moreover obtain fs where fs: "free_ok L t fs" using ok by (auto simp: tab_ok_def)
  have "free_ok L t' fs"
  proof (rule inserted_free_ok [OF O(1) fs])
    show "apart q (free_size L) (ref_pos (tab_row t (fst rf) (snd rf))) (slot_size L t rf)" if "q \<in> set fs" for q
      using free_okD(5) [OF fs that lv] by (auto simp: apart_def p)
  qed (simp_all add: h)
  moreover have "tab_data t' a = 0" if "tab_used t' \<le> a" for a
    using O(1) that D(4) by (auto simp: inserted_def same_outside_def in_data_def h p)
  ultimately show "tab_ok L t'" using inserted_live_ok [OF O(1)] D(1-3)
    by (auto simp: tab_ok_def header_ok_def h)
qed

text \<open>The value of a record is at the offset \<open>a\<close> of the current file of its table, whoever has that mapped.\<close>

definition placed :: "nat \<Rightarrow> nat \<Rightarrow> nat \<Rightarrow> nat \<Rightarrow> nat \<Rightarrow> nat \<Rightarrow> byte list \<Rightarrow> byte list \<Rightarrow> nat \<Rightarrow> shf \<Rightarrow> bool" where
  "placed win tab2 i row ref rnd k v a s \<longleftrightarrow> shf_ok s \<and> win < 256 \<and> tab2 < 2048
     \<and> tab_file s win (win_tabs (wins s win) tab2) = Some i \<and> tab_size (inode s i) \<noteq> 0
     \<and> slot (lens_of s) (inode s i) (row, ref) = Some (tab2, rnd, k, v)
     \<and> a = ref_val_addr (lens_of s) (tab_data (inode s i)) (slot_pos (inode s i) (row, ref))"

lemma located_placed:
  "located win tab2 i row ref rnd k v s \<Longrightarrow> shf_val_addr s = Some (i, a) \<Longrightarrow> placed win tab2 i row ref rnd k v a s"
  by (simp add: located_def placed_def Let_def)

lemma placed_in_place:
  assumes loc: "placed win tab2 i row ref rnd k v a s" and bs: "length bs = length v"
    and s': "s' = upd_inode i (\<lambda>t. t\<lparr>tab_data := SHF_MEM_AT a bs (tab_data t)\<rparr>) s"
  shows "shf_ok s'" "coherent s m \<Longrightarrow> coherent s' m"
    "kv (lens_of s) s' = (kv (lens_of s) s)((win, tab2, row, ref) \<mapsto> (rnd, k, bs))"
    "same_routes s s'" "same_thread s s'" "shf_room n s \<Longrightarrow> shf_room n s'"
proof -
  let ?L = "lens_of s" and ?t = "inode s i"
  define tab where "tab = win_tabs (wins s win) tab2"
  have l: "shf_ok s" "win < 256" "tab2 < 2048" "tab_file s win tab = Some i" "tab_size ?t \<noteq> 0"
    "slot ?L ?t (row, ref) = Some (tab2, rnd, k, v)"
    "a = ref_val_addr ?L (tab_data ?t) (slot_pos ?t (row, ref))"
    using loc by (simp_all add: placed_def tab_def)
  note D = shf_okD [OF l(1)]
  note I = inode_okD [OF files_okD(3) [OF D(2) l(4)] l(5)]
  define t' where "t' = ?t\<lparr>tab_data := SHF_MEM_AT a bs (tab_data ?t)\<rparr>"
  note O = overwrite_ok [OF D(1) I(1) l(6) bs t'_def [unfolded l(7)]]
  have st: "set_table win tab i t' s s'" using l(4) by (simp add: set_table_def s' t'_def same_routes_def)
  show th: "same_thread s s'" by (simp add: s')
  show rr: "same_routes s s'" by (simp add: s' same_routes_def)
  have io: "inode_ok ?L t' (fsize s' i)" using O(1,3) I by (simp add: inode_ok_def s')
  have nz: "tab_size t' \<noteq> 0" "tab_size t' \<noteq> 1" using O(3) I by auto
  note F = set_table_files_ok [OF st D(2) io nz(1)]
  show "coherent s' m" if "coherent s m" using F(2) [OF that] .
  have tb: "table s win tab = ?t" by (rule table_Some [OF l(4)])
  have R: "routed (wins s win) tab ?t" using D(3) l(2) tb by (simp add: routes_ok_def shf_const_eq) metis
  have "tab2 < 2048 \<and> rnd < 2097152 \<and> win_tabs (wins s win) tab2 = tab"
    using R l(6) unfolding routed_slot [of _ _ _ ?L] by blast
  then have "routed (wins s win) tab t'" using R unfolding routed_slot [of _ _ _ ?L] O(2) by auto
  then have "routes_ok s'" by (rule set_table_routes_ok [OF st D(2,3)])
  moreover have "coherent s' (tabs s')" using F(2) [OF D(4)] by (simp add: s')
  ultimately show "shf_ok s'" using D(1) F(1) by (simp add: shf_ok_def same_threadD(2) [OF th])
  note T = set_table_table [OF st D(2)]
  show "kv ?L s' = (kv ?L s)((win, tab2, row, ref) \<mapsto> (rnd, k, bs))"
    using O(2) l(6) by (intro kv_insert [OF rr T tab_def [symmetric]]) (simp_all add: tb kv_eq tab_def [symmetric])
  show "shf_room n s'" if "shf_room n s"
    using O(4) by (intro shf_room_mono [OF that th]) (auto simp: T tb [symmetric])
qed

lemmas located_in_place = placed_in_place [OF located_placed]

lemma located_kv: "located win tab2 i row ref rnd k v s \<Longrightarrow> kv (lens_of s) s (win, tab2, row, ref) = Some (rnd, k, v)"
  by (simp add: located_def Let_def kv_eq table_Some)

text \<open>The bytes the value address points at.\<close>

lemma located_val:
  assumes "located win tab2 i row ref rnd k v s"
  obtains a where "shf_val_addr s = Some (i, a)" "mem_bytes (tab_data (inode s i)) a (length v) = v"
proof -
  have "slot (lens_of s) (inode s i) (row, ref) = Some (tab2, rnd, k, v)"
    "shf_val_addr s = Some (i, ref_val_addr (lens_of s) (tab_data (inode s i)) (slot_pos (inode s i) (row, ref)))"
    using assms by (simp_all add: located_def Let_def)
  then show ?thesis using that by (simp add: slot_Some_iff ref_val_def)
qed

lemma located_key:
  assumes "located win tab2 i row ref rnd k v s"
  obtains a where "shf_key_addr s = Some (i, a)" "mem_bytes (tab_data (inode s i)) a (length k) = k"
proof -
  have "slot (lens_of s) (inode s i) (row, ref) = Some (tab2, rnd, k, v)"
    "shf_key_addr s = Some (i, ref_key_addr (lens_of s) (slot_pos (inode s i) (row, ref)))"
    using assms by (simp_all add: located_def Let_def)
  then show ?thesis using that by (simp add: slot_Some_iff ref_key_def)
qed

section \<open>What is done with a record that was found\<close>

lemma consider_tab_shrink_ok:
  assumes ok: "shf_ok s" and win: "win < 256" and tab: "tab < tabs_used (wins s win)" and room: "shf_room n s"
  shows "\<exists>s'. consider_tab_shrink win tab i s = Inr s' \<and> quiet s s' \<and> same_routes s s' \<and> shf_room n s'"
proof (cases "tab_data_used (inode s i) div 4 < tab_data_free (inode s i)")
  case True
  then show ?thesis using shf_tab_shrink_ok [OF ok win tab room] by (auto simp: consider_tab_shrink_def)
next
  case False
  then show ?thesis using ok room by (auto simp: consider_tab_shrink_def quiet_def)
qed

lemma located_tab:
  assumes "located win tab2 i row ref rnd k v s"
  shows "shf_ok s" "win < 256" "tab2 < 2048" "win_tabs (wins s win) tab2 < tabs_used (wins s win)"
  using assms files_okD(8) [OF shf_okD(2)] by (auto simp: located_def Let_def)

text \<open>Both copying operations return, with the bytes in the thread's buffer.\<close>

definition copied_out :: "shf \<Rightarrow> shf \<Rightarrow> bool" where
  "copied_out s s' \<longleftrightarrow> shf_ok s' \<and> (\<forall>m. coherent s m \<longrightarrow> coherent s' m) \<and> kv (lens_of s) s' = kv (lens_of s) s
     \<and> lens_of s' = lens_of s \<and> shf_uid s' = shf_uid s
     \<and> the_hash s' = the_hash s \<and> shf_hash_key s' = shf_hash_key s \<and> shf_upd_callback_failsafe s' = shf_upd_callback_failsafe s"

lemma found_copy_val:
  assumes loc: "located win tab2 i row ref rnd k v s" and room: "shf_room n s" and tab: "tab = win_tabs (wins s win) tab2"
  shows "\<exists>s'. found_key SHF_FIND_KEY_OR_UID_AND_COPY_VAL upd win tab i row ref (length k) (length v) s = Inr (SHF_RET_KEY_FOUND, s')
     \<and> copied_out s s' \<and> shf_val s' = v \<and> shf_room n s' \<and> shf_ttl s' = shf_ttl s"
proof -
  note T = located_tab [OF loc]
  obtain a where a: "shf_val_addr s = Some (i, a)" "mem_bytes (tab_data (inode s i)) a (length v) = v"
    using located_val [OF loc] .
  define s1 where "s1 = shf_copy_val (length v) s"
  have s1: "shf_val s1 = v" "shf_uid s1 = shf_uid s" "same_store s s1" "the_hash s1 = the_hash s" "shf_hash_key s1 = shf_hash_key s"
    "shf_upd_callback_failsafe s1 = shf_upd_callback_failsafe s"
    using a by (simp_all add: s1_def shf_copy_val_def same_store_def)
  note S = same_storeD [OF s1(3)]
  obtain s2 where s2: "consider_tab_shrink win tab i s1 = Inr s2" "quiet s1 s2" "shf_room n s2"
    using consider_tab_shrink_ok [of s1 win tab n i] T room by (auto simp: S tab)
  note Q = quietD [OF s2(2)]
  have "shf_val s2 = v" "shf_uid s2 = shf_uid s" using same_thread_outputs [OF Q(1)] s1 by simp_all
  moreover have "copied_out s s2"
    using Q S \<open>shf_uid s2 = shf_uid s\<close> s1(4-6) same_threadD(5,6,12) [OF Q(1)] by (simp add: copied_out_def)
  moreover have "found_key SHF_FIND_KEY_OR_UID_AND_COPY_VAL upd win tab i row ref (length k) (length v) s
      = Inr (SHF_RET_KEY_FOUND, s2)"
    using s2(1) by (simp add: found_key_def Let_def a s1_def [symmetric])
  moreover have "shf_ttl s2 = shf_ttl s" using same_threadD(11) [OF Q(1)] a by (simp add: s1_def shf_copy_val_def)
  ultimately show ?thesis using s2(3) by blast
qed

lemma found_copy_key:
  assumes loc: "located win tab2 i row ref rnd k v s" and room: "shf_room n s" and tab: "tab = win_tabs (wins s win) tab2"
  shows "\<exists>s'. found_key SHF_FIND_KEY_OR_UID_AND_COPY_KEY upd win tab i row ref (length k) (length v) s = Inr (SHF_RET_KEY_FOUND, s')
     \<and> copied_out s s' \<and> shf_key s' = k \<and> shf_room n s' \<and> shf_ttl s' = shf_ttl s"
proof -
  note T = located_tab [OF loc]
  obtain a b where a: "shf_key_addr s = Some (i, a)" "mem_bytes (tab_data (inode s i)) a (length k) = k"
    "shf_val_addr s = Some (i, b)"
    using located_key [OF loc] located_val [OF loc] by metis
  define s1 where "s1 = shf_copy_key (length k) s"
  have s1: "shf_key s1 = k" "shf_uid s1 = shf_uid s" "same_store s s1" "the_hash s1 = the_hash s" "shf_hash_key s1 = shf_hash_key s"
    "shf_upd_callback_failsafe s1 = shf_upd_callback_failsafe s"
    using a by (simp_all add: s1_def shf_copy_key_def same_store_def)
  note S = same_storeD [OF s1(3)]
  obtain s2 where s2: "consider_tab_shrink win tab i s1 = Inr s2" "quiet s1 s2" "shf_room n s2"
    using consider_tab_shrink_ok [of s1 win tab n i] T room by (auto simp: S tab)
  note Q = quietD [OF s2(2)]
  have "shf_key s2 = k" "shf_uid s2 = shf_uid s" using same_thread_outputs [OF Q(1)] s1 by simp_all
  moreover have "copied_out s s2"
    using Q S \<open>shf_uid s2 = shf_uid s\<close> s1(4-6) same_threadD(5,6,12) [OF Q(1)] by (simp add: copied_out_def)
  moreover have "found_key SHF_FIND_KEY_OR_UID_AND_COPY_KEY upd win tab i row ref (length k) (length v) s
      = Inr (SHF_RET_KEY_FOUND, s2)"
    using s2(1) by (simp add: found_key_def Let_def a s1_def [symmetric])
  moreover have "shf_ttl s2 = shf_ttl s" using same_threadD(11) [OF Q(1)] a by (simp add: s1_def shf_copy_key_def)
  ultimately show ?thesis using s2(3) by blast
qed

text \<open>Deleting removes the record, unless a TTL is set that the value does not start with.\<close>

lemma located_delete:
  assumes loc: "located win tab2 i row ref rnd k v s"
    and s': "s' = upd_inode i (tab_ref_mark_as_deleted (len_len (lens_of s)) row ref (length k) (length v)) s"
  shows "shf_ok s'" "coherent s m \<Longrightarrow> coherent s' m"
    "kv (lens_of s) s' = (kv (lens_of s) s)((win, tab2, row, ref) := None)"
    "same_thread s s'" "same_routes s s'" "shf_room n s \<Longrightarrow> shf_room n s'"
proof -
  let ?L = "lens_of s" and ?t = "inode s i"
  define tab where "tab = win_tabs (wins s win) tab2"
  have l: "shf_ok s" "win < 256" "tab2 < 2048" "tab_file s win tab = Some i" "tab_size ?t \<noteq> 0"
    "slot ?L ?t (row, ref) = Some (tab2, rnd, k, v)"
    using loc by (simp_all add: located_def Let_def tab_def)
  note D = shf_okD [OF l(1)]
  note I = inode_okD [OF files_okD(3) [OF D(2) l(4)] l(5)]
  have lv: "(row, ref) \<in> live ?t" and kl: "length k = ref_key_len ?L (tab_data ?t) (slot_pos ?t (row, ref))"
    and vl: "length v = ref_val_len ?L (tab_data ?t) (slot_pos ?t (row, ref))"
    using l(6) by (auto simp: slot_Some_iff ref_key_def ref_val_def)
  define t' where "t' = tab_ref_mark_as_deleted (len_len ?L) row ref (length k) (length v) ?t"
  note X = tab_delete_ok [OF D(1) I(1) lv kl vl t'_def]
  note sl = removed_slot [OF X(1)]
  have st: "set_table win tab i t' s s'" using l(4) by (simp add: set_table_def s' t'_def same_routes_def)
  show th: "same_thread s s'" by (simp add: s')
  show rr: "same_routes s s'" by (simp add: s' same_routes_def)
  have io: "inode_ok ?L t' (fsize s' i)" using X(2,3) I by (simp add: inode_ok_def s')
  have nz: "tab_size t' \<noteq> 0" using X(3) I by simp
  note F = set_table_files_ok [OF st D(2) io nz]
  show "coherent s' m" if "coherent s m" using F(2) [OF that] .
  have tb: "table s win tab = ?t" by (rule table_Some [OF l(4)])
  have R: "routed (wins s win) tab ?t" using D(3) l(2) tb by (simp add: routes_ok_def shf_const_eq) metis
  then have "routed (wins s win) tab t'" unfolding routed_slot [of _ _ _ ?L] sl by (auto split: if_splits)
  then have "routes_ok s'" by (rule set_table_routes_ok [OF st D(2,3)])
  moreover have "coherent s' (tabs s')" using F(2) [OF D(4)] by (simp add: s')
  ultimately show "shf_ok s'" using D(1) F(1) by (simp add: shf_ok_def same_threadD(2) [OF th])
  note T = set_table_table [OF st D(2)]
  show "kv ?L s' = (kv ?L s)((win, tab2, row, ref) := None)"
    using sl l(6) by (intro kv_remove [OF rr T tab_def [symmetric]]) (simp_all add: tb kv_eq tab_def [symmetric])
  have "tab_used t' = tab_used ?t" using X(1) by (simp add: removed_def)
  then show "shf_room n s'" if "shf_room n s"
    by (intro shf_room_mono [OF that th]) (auto simp: T tb [symmetric])
qed

text \<open>The first four bytes of a value as a TTL.\<close>

definition ttl_of :: "byte list \<Rightarrow> nat" where
  "ttl_of v = SHF_U32_AT (\<lambda>a. if a < length v then v ! a else 0) 0"

lemma ttl_of_mem: "mem_bytes m a (length v) = v \<Longrightarrow> 4 \<le> length v \<Longrightarrow> SHF_U32_AT m a = ttl_of v"
proof -
  assume v: "mem_bytes m a (length v) = v" and l: "4 \<le> length v"
  have "m (a + i) = v ! i" if "i < length v" for i using mem_bytes_nth [OF that, of m a] v by simp
  from this [of 0] this [of 1] this [of 2] this [of 3] l show ?thesis
    by (cases "v = []") (simp_all add: ttl_of_def SHF_U32_AT_def numeral_2_eq_2)
qed

lemma found_delete_go:
  assumes loc: "located win tab2 i row ref rnd k v s"
    and ttl: "\<And>j a. shf_val_addr s = Some (j, a) \<Longrightarrow> \<not> (shf_ttl s \<noteq> 0 \<and> shf_ttl s \<noteq> SHF_U32_AT (tab_data (inode s j)) a)"
  shows "\<exists>s'. found_key SHF_FIND_KEY_OR_UID_AND_DELETE upd win tab i row ref (length k) (length v) s = Inr (SHF_RET_KEY_FOUND, s')
     \<and> shf_ok s' \<and> (\<forall>m. coherent s m \<longrightarrow> coherent s' m) \<and> lens_of s' = lens_of s
     \<and> kv (lens_of s) s' = (kv (lens_of s) s)((win, tab2, row, ref) := None)
     \<and> shf_uid s' = SHF_UID_NONE \<and> shf_ttl s' = 0 \<and> (shf_ttl s \<noteq> 0 \<longrightarrow> shf_val s' = v)
     \<and> the_hash s' = the_hash s \<and> shf_hash_key s' = shf_hash_key s \<and> shf_val_long s' = shf_val_long s
     \<and> (\<forall>n. shf_room n s \<longrightarrow> shf_room n s')
     \<and> shf_upd_callback_failsafe s' = shf_upd_callback_failsafe s"
proof -
  obtain a where a: "shf_val_addr s = Some (i, a)" "mem_bytes (tab_data (inode s i)) a (length v) = v"
    using located_val [OF loc] .
  define s1 where "s1 = (if shf_ttl s \<noteq> 0 then shf_copy_val (length v) s else s)"
  have s1: "shf_ttl s \<noteq> 0 \<longrightarrow> shf_val s1 = v" "same_store s s1" "shf_val_addr s1 = shf_val_addr s"
    "shf_key_addr s1 = shf_key_addr s"
    using a by (simp_all add: s1_def shf_copy_val_def same_store_def)
  note S = same_storeD [OF s1(2)]
  have loc1: "located win tab2 i row ref rnd k v s1"
    using loc s1 S by (simp add: located_def Let_def same_store_def)
  define s2 where "s2 = upd_inode i (tab_ref_mark_as_deleted (len_len (lens_of s1)) row ref (length k) (length v)) s1"
  note X = located_delete [OF loc1 s2_def]
  define s3 where "s3 = s2\<lparr>shf_uid := SHF_UID_NONE, shf_ttl := 0\<rparr>"
  have ss: "same_store s2 s3" by (simp add: s3_def same_store_def)
  note S3 = same_storeD [OF ss]
  have go: "\<not> (shf_ttl s \<noteq> 0 \<and> shf_ttl s \<noteq> SHF_U32_AT (tab_data (inode s i)) a)"
    by (rule ttl [OF a(1)])
  have "found_key SHF_FIND_KEY_OR_UID_AND_DELETE upd win tab i row ref (length k) (length v) s = Inr (SHF_RET_KEY_FOUND, s3)"
    unfolding found_key_def Let_def a option.sel prod.case find_and.case found_delete_def if_not_P [OF go]
    by (simp add: s3_def s2_def s1_def)
  moreover have "shf_val s3 = v" if "shf_ttl s \<noteq> 0"
    using s1(1) that same_thread_outputs(1) [OF X(4)] by (simp add: s3_def)
  moreover have "the_hash s3 = the_hash s" "shf_hash_key s3 = shf_hash_key s" "shf_val_long s3 = shf_val_long s"
    "shf_upd_callback_failsafe s3 = shf_upd_callback_failsafe s"
    using same_threadD [OF X(4)] by (simp_all add: s3_def s1_def shf_copy_val_def split: option.split prod.split)
  ultimately show ?thesis using X S S3 same_threadD(2) [OF X(4)] by (simp add: s3_def)
qed

lemma found_delete_ok:
  assumes loc: "located win tab2 i row ref rnd k v s"
    and ttl: "shf_ttl s = 0 \<or> 4 \<le> length v \<and> shf_ttl s = ttl_of v"
  shows "\<exists>s'. found_key SHF_FIND_KEY_OR_UID_AND_DELETE upd win tab i row ref (length k) (length v) s = Inr (SHF_RET_KEY_FOUND, s')
     \<and> shf_ok s' \<and> (\<forall>m. coherent s m \<longrightarrow> coherent s' m) \<and> lens_of s' = lens_of s
     \<and> kv (lens_of s) s' = (kv (lens_of s) s)((win, tab2, row, ref) := None)
     \<and> shf_uid s' = SHF_UID_NONE \<and> shf_ttl s' = 0 \<and> (shf_ttl s \<noteq> 0 \<longrightarrow> shf_val s' = v)
     \<and> the_hash s' = the_hash s \<and> shf_hash_key s' = shf_hash_key s \<and> shf_val_long s' = shf_val_long s
     \<and> (\<forall>n. shf_room n s \<longrightarrow> shf_room n s')
     \<and> shf_upd_callback_failsafe s' = shf_upd_callback_failsafe s"
proof (rule found_delete_go [OF loc])
  fix j a assume a: "shf_val_addr s = Some (j, a)"
  obtain b where b: "shf_val_addr s = Some (i, b)" "mem_bytes (tab_data (inode s i)) b (length v) = v"
    using located_val [OF loc] .
  then show "\<not> (shf_ttl s \<noteq> 0 \<and> shf_ttl s \<noteq> SHF_U32_AT (tab_data (inode s j)) a)"
    using ttl ttl_of_mem [OF b(2)] a by auto
qed

lemma found_delete_ttl:
  assumes loc: "located win tab2 i row ref rnd k v s" and ttl: "shf_ttl s \<noteq> 0" "4 \<le> length v" "shf_ttl s \<noteq> ttl_of v"
  shows "found_key SHF_FIND_KEY_OR_UID_AND_DELETE upd win tab i row ref (length k) (length v) s
     = Inr (SHF_RET_KEY_FOUND OR SHF_RET_NOT_TTL, s\<lparr>shf_ttl := 0\<rparr>)"
proof -
  obtain a where a: "shf_val_addr s = Some (i, a)" "mem_bytes (tab_data (inode s i)) a (length v) = v"
    using located_val [OF loc] .
  show ?thesis using ttl ttl_of_mem [OF a(2)] by (simp add: found_key_def Let_def a found_delete_def)
qed

section \<open>Adding to a number and updating\<close>

lemma long_read_back: "long_at (put_long a w m) a = w"
proof -
  have "unat w < 18446744073709551616" using unsigned_less [of w] by simp
  then have "unat w div 2 ^ 32 < 4294967296" by (simp add: less_mult_imp_div_less)
  moreover have "unat w mod 2 ^ 32 < 4294967296" by simp
  ultimately have "SHF_U32_AT (put_long a w m) a = unat w mod 2 ^ 32" "SHF_U32_AT (put_long a w m) (a + 4) = unat w div 2 ^ 32"
    by (simp_all add: put_long_def bm.get32_put32 bm.get32_put32_other)
  then have "long_at (put_long a w m) a = of_nat (unat w mod 2 ^ 32 + 2 ^ 32 * (unat w div 2 ^ 32))"
    by (simp add: long_at_def)
  also have "\<dots> = of_nat (unat w)" by (simp only: mod_mult_div_eq)
  finally show ?thesis by simp
qed

lemma long_at_cong: "(\<And>i. i < 8 \<Longrightarrow> m' (b + i) = m (a + i)) \<Longrightarrow> long_at m' b = long_at m a"
proof -
  assume e: "\<And>i. i < 8 \<Longrightarrow> m' (b + i) = m (a + i)"
  show ?thesis
    using e [of 0] e [of 1] e [of 2] e [of 3] e [of 4] e [of 5] e [of 6] e [of 7]
    by (simp add: long_at_def SHF_U32_AT_def numeral_2_eq_2 ac_simps)
qed

text \<open>A value as a number, and a value with another number in it.\<close>

definition long_of :: "byte list \<Rightarrow> 64 word" where
  "long_of v = long_at (\<lambda>a. if a < length v then v ! a else 0) 0"

lemma long_of_mem: "mem_bytes m a (length v) = v \<Longrightarrow> 8 \<le> length v \<Longrightarrow> long_at m a = long_of v"
proof -
  assume v: "mem_bytes m a (length v) = v" and l: "8 \<le> length v"
  have "m (a + i) = v ! i" if "i < length v" for i using mem_bytes_nth [OF that, of m a] v by simp
  then show ?thesis using l unfolding long_of_def by (intro long_at_cong) simp
qed

lemma length_long_bytes [simp]: "length (long_bytes w) = 8"
  by (simp add: long_bytes_def)

lemma long_of_bytes: "long_of (long_bytes w @ bs) = w"
proof -
  have "long_of (long_bytes w @ bs) = long_at (put_long 0 w (\<lambda>_. 0)) 0"
    unfolding long_of_def by (rule long_at_cong) (simp add: nth_append long_bytes_def)
  then show ?thesis by (simp add: long_read_back)
qed

lemma put_long_at: "i < 8 \<Longrightarrow> put_long a w m (a + i) = put_long 0 w (\<lambda>_. 0) i"
proof -
  assume "i < 8"
  then have "i \<in> {0, 1, 2, 3, 4, 5, 6, 7}" by auto
  then show ?thesis by (auto simp: put_long_def put_U32_AT_def numeral_2_eq_2)
qed

lemma put_long_outside: "x < a \<or> a + 8 \<le> x \<Longrightarrow> put_long a w m x = m x"
  by (auto simp: put_long_def mem_outside)

lemma put_long_bytes:
  assumes "mem_bytes m a (length v) = v" "8 \<le> length v"
  shows "put_long a w m = SHF_MEM_AT a (long_bytes w @ drop 8 v) m"
proof
  fix x
  consider "x < a \<or> a + length v \<le> x" | i where "x = a + i" "i < 8" | i where "x = a + i" "8 \<le> i" "i < length v"
    by (metis le_add_diff_inverse nat_add_left_cancel_less not_le)
  then show "put_long a w m x = SHF_MEM_AT a (long_bytes w @ drop 8 v) m x"
  proof cases
    case 1
    then show ?thesis using assms(2) by (auto simp: put_long_outside mem_outside)
  next
    case 2
    then show ?thesis using assms(2) put_long_at [of i a w m]
      by (simp add: SHF_MEM_AT_def nth_append) (simp add: long_bytes_def)
  next
    case 3
    then show ?thesis using assms mem_bytes_nth [of i "length v" m a]
      by (simp add: SHF_MEM_AT_def nth_append put_long_outside)
  qed
qed

lemma found_add_ok:
  assumes loc: "located win tab2 i row ref rnd k v s" and len: "8 \<le> length v"
  shows "\<exists>s'. found_key SHF_FIND_KEY_OR_UID_AND_ATOM_ADD upd win tab i row ref (length k) (length v) s
        = Inr (SHF_RET_KEY_FOUND, s')
     \<and> shf_ok s' \<and> (\<forall>m. coherent s m \<longrightarrow> coherent s' m) \<and> lens_of s' = lens_of s \<and> same_routes s s'
     \<and> shf_val_long s' = long_of v + shf_val_long s \<and> shf_uid s' = shf_uid s
     \<and> the_hash s' = the_hash s \<and> shf_hash_key s' = shf_hash_key s \<and> shf_ttl s' = shf_ttl s
     \<and> kv (lens_of s) s' = (kv (lens_of s) s)((win, tab2, row, ref) \<mapsto>
          (rnd, k, long_bytes (long_of v + shf_val_long s) @ drop 8 v))
     \<and> (\<forall>n. shf_room n s \<longrightarrow> shf_room n s') \<and> shf_upd_callback_failsafe s' = shf_upd_callback_failsafe s"
proof -
  obtain a where a: "shf_val_addr s = Some (i, a)" "mem_bytes (tab_data (inode s i)) a (length v) = v"
    using located_val [OF loc] .
  let ?new = "long_of v + shf_val_long s"
  let ?bs = "long_bytes ?new @ drop 8 v"
  have lb: "length ?bs = length v" using len by simp
  define s1 where "s1 = upd_inode i (\<lambda>t. t\<lparr>tab_data := SHF_MEM_AT a ?bs (tab_data t)\<rparr>) s"
  note X = located_in_place [OF loc a(1) lb s1_def]
  define s2 where "s2 = s1\<lparr>shf_val_long := ?new\<rparr>"
  have ss: "same_store s1 s2" by (simp add: s2_def same_store_def)
  note S = same_storeD [OF ss]
  note e = same_threadD [OF X(5)] same_thread_outputs [OF X(5)]
  have "upd_inode i (\<lambda>t. t\<lparr>tab_data := put_long a ?new (tab_data t)\<rparr>) s = s1"
    using put_long_bytes [OF a(2) len] by (simp add: s1_def upd_inode_def)
  then have "found_key SHF_FIND_KEY_OR_UID_AND_ATOM_ADD upd win tab i row ref (length k) (length v) s
      = Inr (SHF_RET_KEY_FOUND, s2)"
    using len by (simp add: found_key_def Let_def a long_of_mem [OF a(2) len] s2_def)
  then show ?thesis using X S e by (simp add: s2_def same_routes_def)
qed

lemma found_add_short:
  assumes loc: "located win tab2 i row ref rnd k v s" and len: "length v < 8"
  shows "found_key SHF_FIND_KEY_OR_UID_AND_ATOM_ADD upd win tab i row ref (length k) (length v) s
    = Inr (SHF_RET_KEY_FOUND OR SHF_RET_BAD_VAL, s)"
  using len by (simp add: found_key_def split: prod.split)

lemma found_update_ok:
  assumes loc: "located win tab2 i row ref rnd k v s" and fs: "shf_upd_callback_failsafe s = 0"
    and upd: "upd v = (res, bs)" "length bs = length v"
  shows "\<exists>s'. found_key SHF_FIND_KEY_OR_UID_AND_UPDATE upd win tab i row ref (length k) (length v) s
        = Inr (SHF_RET_KEY_FOUND OR res, s')
     \<and> shf_ok s' \<and> (\<forall>m. coherent s m \<longrightarrow> coherent s' m) \<and> lens_of s' = lens_of s
     \<and> shf_upd_callback_failsafe s' = 0 \<and> shf_uid s' = shf_uid s
     \<and> kv (lens_of s) s' = (kv (lens_of s) s)((win, tab2, row, ref) \<mapsto> (rnd, k, bs))
     \<and> the_hash s' = the_hash s \<and> shf_hash_key s' = shf_hash_key s \<and> (\<forall>n. shf_room n s \<longrightarrow> shf_room n s')
     \<and> shf_ttl s' = shf_ttl s"
proof -
  obtain a where a: "shf_val_addr s = Some (i, a)" "mem_bytes (tab_data (inode s i)) a (length v) = v"
    using located_val [OF loc] .
  define s1 where "s1 = upd_inode i (\<lambda>t. t\<lparr>tab_data := SHF_MEM_AT a bs (tab_data t)\<rparr>) s"
  note X = located_in_place [OF loc a(1) upd(2) s1_def]
  define s2 where "s2 = s1\<lparr>shf_upd_callback_failsafe := 0\<rparr>"
  have ss: "same_store s1 s2" by (simp add: s2_def same_store_def)
  note S = same_storeD [OF ss]
  note e = same_threadD [OF X(5)] same_thread_outputs [OF X(5)]
  have "found_key SHF_FIND_KEY_OR_UID_AND_UPDATE upd win tab i row ref (length k) (length v) s
      = Inr (SHF_RET_KEY_FOUND OR res, s2)"
    using fs upd(1) by (simp add: found_key_def Let_def a s2_def s1_def assertE_def)
  then show ?thesis using X S e by (simp add: s2_def)
qed

lemma found_update_recursive:
  assumes "shf_upd_callback_failsafe s = 1"
  shows "found_key SHF_FIND_KEY_OR_UID_AND_UPDATE upd win tab i row ref kl vl s = Inl Upd_recursive"
  using assms by (simp add: found_key_def assertE_def split: prod.split)

end
