(* ===== verification/Shf_Store.thy ===== *)
theory Shf_Store
  imports Shf_Kv
begin

text \<open>
  The key,value store as its callers see it: what each entry point returns and does to what is
  stored (\<open>kv\<close>), for one process and for the others that have the instance attached, and the
  reference counting that \<open>shf_add_key_val\<close> builds on top.
\<close>

section \<open>A fresh instance\<close>

text \<open>
  The creating branch of \<open>shf_attach\<close>: a tab file is created for each window, then, in
  \<open>shf_attach_existing\<close>, the process gets an \<open>SHF\<close> with nothing mapped, and last the table indexes
  of every window are directed to its one table. \<open>vfs\<close> is what the file system has room for.
\<close>

definition shf_attach_existing :: "shf \<Rightarrow> shf" where
  "shf_attach_existing s = s\<lparr>tabs := (\<lambda>_ _. \<lparr>off_mmap = 0, off_size = 0\<rparr>), is_lockable := 1,
     is_fixed_key_val_len := False, fixed_key_len := 0, fixed_val_len := 0, count_mmap := 1\<rparr>"

primrec attach_routes :: "nat \<Rightarrow> nat list \<Rightarrow> nat \<Rightarrow> (nat \<Rightarrow> nat) \<Rightarrow> nat \<Rightarrow> nat" where
  "attach_routes n_tabs [] next_tab m = m"
| "attach_routes n_tabs (tab # ts) next_tab m =
     (let m = m(tab := next_tab); next_tab = u16 (next_tab + 1)
      in attach_routes n_tabs ts (if n_tabs = next_tab then 0 else next_tab) m)"

definition zero_win :: win_mmap where
  "zero_win = \<lparr>win_tabs = (\<lambda>_. 0), tabs_used = 0, tabs_mmaps = 0, tabs_mremaps = 0, tabs_shrunk = 0,
     tabs_parted = 0, tabs_parted_old = 0, tabs_parted_new = 0, keylen_misses = 0, memcmp_misses = 0\<rparr>"

text \<open>The thread local variables of a process after \<open>shf_init\<close>, before any file exists.\<close>

definition shf_init :: "nat \<Rightarrow> shf" where
  "shf_init vfs =
     \<lparr>tab_file = (\<lambda>_ _. None), inode = (\<lambda>_. zero_tab), fsize = (\<lambda>_. 0), next_inode = 1, vfs_available = vfs,
      wins = (\<lambda>_. zero_win), tabs = (\<lambda>_ _. \<lparr>off_mmap = 0, off_size = 0\<rparr>),
      is_fixed_key_val_len = False, fixed_key_len = 0, fixed_val_len = 0, is_lockable = 0, count_mmap = 0,
      the_hash = \<lparr>hash_u64_0 = 0, hash_u64_1 = 0\<rparr>, shf_hash_key = [], shf_uid = 0,
      shf_key = [], shf_key_size = 4096, shf_key_addr = None,
      shf_val = [], shf_val_size = 4096, shf_val_addr = None, shf_val_long = 0,
      shf_ttl = 0, shf_data_needed_factor = 1, shf_upd_callback_failsafe = 0, type_extended = False\<rparr>"

definition shf_attach :: "nat \<Rightarrow> shf" where
  "shf_attach vfs =
     (let n_tabs = 1;
          s = fold (\<lambda>win s. fold (shf_tab_create win) [0..<n_tabs] s) [0..<SHF_WINS_PER_SHF] (shf_init vfs);
          s = shf_attach_existing s
      in s\<lparr>wins := (\<lambda>win. if win < SHF_WINS_PER_SHF
             then (wins s win)\<lparr>win_tabs := attach_routes n_tabs [0..<SHF_TABS_PER_WIN] 0 (win_tabs (wins s win)), tabs_used := n_tabs\<rparr>
             else wins s win)\<rparr>)"

lemma attach_routes_one: "attach_routes 1 ts 0 (\<lambda>_. 0) = (\<lambda>_. 0)"
  by (induction ts) (simp_all add: fun_upd_idem)

lemma attach_files:
  "fold (\<lambda>win s. fold (shf_tab_create win) [0..<1] s) [0..<n] (shf_init v)
   = (shf_init v)\<lparr>tab_file := (\<lambda>win tab. if win < n \<and> tab = 0 then Some (win + 1) else None),
       fsize := (\<lambda>i. if 0 < i \<and> i \<le> n then 69632 else 0), next_inode := n + 1\<rparr>"
proof (induction n)
  case 0
  then show ?case by (auto simp: shf_init_def fun_eq_iff)
next
  case (Suc n)
  let ?s = "(shf_init v)\<lparr>tab_file := (\<lambda>win tab. if win < n \<and> tab = 0 then Some (win + 1) else None),
       fsize := (\<lambda>i. if 0 < i \<and> i \<le> n then 69632 else 0), next_inode := n + 1\<rparr>"
  have z: "zero_tab\<lparr>tab_data := \<lambda>a. if a < m then tab_data zero_tab a else 0\<rparr> = zero_tab" for m
  proof -
    have "(\<lambda>a. if a < m then tab_data zero_tab a else 0) = tab_data zero_tab" by (auto simp: zero_tab_def)
    then show ?thesis by simp
  qed
  have "shf_tab_create n 0 ?s = ?s\<lparr>tab_file := (tab_file ?s)(n := (tab_file ?s n)(0 := Some (n + 1))),
      fsize := (fsize ?s)(n + 1 := 69632), next_inode := n + 2\<rparr>"
    using z by (simp add: shf_tab_create_def open_creat_def Let_def ftruncate_def upd_inode_def SHF_MOD_PAGE_tab
        shf_init_def fun_upd_idem cong: if_cong)
  also have "\<dots> = (shf_init v)\<lparr>tab_file := (\<lambda>win tab. if win < Suc n \<and> tab = 0 then Some (win + 1) else None),
       fsize := (\<lambda>i. if 0 < i \<and> i \<le> Suc n then 69632 else 0), next_inode := Suc n + 1\<rparr>"
    by (auto simp: shf_init_def fun_eq_iff)
  finally show ?case using Suc by simp
qed

lemma attach_simps [simp]:
  "win < 256 \<Longrightarrow> tabs_used (wins (shf_attach v) win) = 1" "win_tabs (wins (shf_attach v) win) t = 0"
  "inode (shf_attach v) i = zero_tab" "0 < i \<Longrightarrow> i \<le> 256 \<Longrightarrow> fsize (shf_attach v) i = 69632"
  "next_inode (shf_attach v) = 257" "tab_file (shf_attach v) win tab = (if win < 256 \<and> tab = 0 then Some (win + 1) else None)"
  "off_mmap (tabs (shf_attach v) win tab) = 0" "lens_of (shf_attach v) = \<lparr>len_len = 4, fixed_key = 0, fixed_val = 0\<rparr>"
  "vfs_available (shf_attach v) = v" "shf_data_needed_factor (shf_attach v) = 1" "shf_ttl (shf_attach v) = 0"
  "shf_upd_callback_failsafe (shf_attach v) = 0"
  unfolding shf_attach_def Let_def attach_files shf_const_eq
  using attach_routes_one by (simp_all add: shf_init_def shf_attach_existing_def lens_of_def zero_win_def)

lemma attach_table [simp]: "table (shf_attach v) win tab = zero_tab"
  by (simp add: table_def)

lemma attach_ok: "shf_ok (shf_attach v)"
proof -
  have "files_ok L (shf_attach v)" for L
    by (rule files_okI) (auto simp: zero_tab_inode_ok split: if_splits)
  moreover have "routes_ok (shf_attach v)" by (simp add: routes_ok_def)
  moreover have "coherent (shf_attach v) (tabs (shf_attach v))" by (simp add: coherent_def mapping_ok_def)
  moreover have "lens_ok (lens_of (shf_attach v))" by (simp add: lens_ok_def)
  ultimately show ?thesis by (simp add: shf_ok_def)
qed

lemma attach_kv: "kv L (shf_attach v) = (\<lambda>_. None)"
  by (simp add: kv_def fun_eq_iff)

lemma attach_room: "2 ^ 32 \<le> v \<Longrightarrow> n < 2147000000 \<Longrightarrow> shf_room n (shf_attach v)"
  by (simp add: shf_room_def room_def zero_tab_def)

lemma make_hash_ok [simp]:
  "shf_ok (shf_make_hash (Some key) s) = shf_ok s" "kv L (shf_make_hash (Some key) s) = kv L s"
  "shf_room n (shf_make_hash (Some key) s) = shf_room n s" "lens_of (shf_make_hash (Some key) s) = lens_of s"
  "wins (shf_make_hash (Some key) s) = wins s" "coherent (shf_make_hash (Some key) s) m = coherent s m"
  "shf_hash_key (shf_make_hash (Some key) s) = key" "shf_ttl (shf_make_hash (Some key) s) = shf_ttl s"
  "shf_upd_callback_failsafe (shf_make_hash (Some key) s) = shf_upd_callback_failsafe s"
proof -
  have "same_store s (shf_make_hash (Some key) s)" by (simp add: shf_make_hash_def same_store_def split: prod.split)
  from same_storeD [OF this] show
    "shf_ok (shf_make_hash (Some key) s) = shf_ok s" "kv L (shf_make_hash (Some key) s) = kv L s"
    "shf_room n (shf_make_hash (Some key) s) = shf_room n s" "lens_of (shf_make_hash (Some key) s) = lens_of s"
    "wins (shf_make_hash (Some key) s) = wins s" "coherent (shf_make_hash (Some key) s) m = coherent s m" by simp_all
qed (simp_all add: shf_make_hash_def split: prod.split)

text \<open>The key \<open>a\<close> hashed in a fresh instance: the concrete state the witnesses start from.\<close>

definition demo :: shf where
  "demo = shf_make_hash (Some [97]) (shf_attach (2 ^ 32))"

lemma demo_ok: "shf_ok demo" "shf_room 1000 demo" "kv L demo = (\<lambda>_. None)"
  "lens_of demo = \<lparr>len_len = 4, fixed_key = 0, fixed_val = 0\<rparr>" "shf_hash_key demo = [97]" "shf_ttl demo = 0"
  "win_tabs (wins demo w) t = 0" "w < 256 \<Longrightarrow> tabs_used (wins demo w) = 1" "shf_upd_callback_failsafe demo = 0"
  by (simp_all add: demo_def attach_ok attach_room attach_kv)

lemma demo_fits: "fits (lens_of demo) (shf_hash_key demo) (Some [1, 2, 3, 4, 5, 6, 7, 8]) 8"
  by (simp add: demo_ok fits_def)

lemma demo_room: "shf_room (data_needed (len_len (lens_of demo)) (length (shf_hash_key demo)) 8) demo"
proof -
  have "shf_room 18 demo" by (simp add: demo_def attach_room)
  then show ?thesis by (simp add: demo_ok data_needed_def)
qed

lemma demo_no_spare: "w < 256 \<Longrightarrow> no_spare_tab (wins demo w)"
  by (auto simp: demo_ok no_spare_tab_def shf_const_eq intro!: image_eqI [of _ _ 0])

lemma demo_taken: "taken demo w t r = {}"
  by (simp add: taken_def demo_ok)

section \<open>Putting\<close>

text \<open>
  C3. A put with room in memory for its record never runs forever: it returns
  \<open>SHF_RET_KEY_PUT\<close>, having stored the key and the value under the UID it reports and nothing
  else, or it exits because all 2048 tables of the window are in use. Rows that are full are split
  in between, any number of times.
\<close>

theorem put_returns_or_overflows:
  assumes "shf_ok s" "fits (lens_of s) (shf_hash_key s) val val_len"
    "shf_room (data_needed (len_len (lens_of s)) (length (shf_hash_key s)) val_len) s"
  shows "shf_put_key_val val val_len s = Inl Tab_overflow
     \<or> (\<exists>s'. shf_put_key_val val val_len s = Inr (SHF_RET_KEY_PUT, s') \<and> put_done val val_len s s')"
proof -
  have "2048 < put_fuel + tabs_used (wins s (hash_win (the_hash s)))" by (simp add: put_fuel_def shf_const_eq)
  then show ?thesis unfolding shf_put_key_val_def by (rule put_loop_total [OF assms])
qed

theorem put_returns_or_overflows_witness:
  "shf_put_key_val (Some [1, 2, 3, 4, 5, 6, 7, 8]) 8 demo = Inl Tab_overflow
   \<or> (\<exists>s'. shf_put_key_val (Some [1, 2, 3, 4, 5, 6, 7, 8]) 8 demo = Inr (SHF_RET_KEY_PUT, s')
        \<and> put_done (Some [1, 2, 3, 4, 5, 6, 7, 8]) 8 demo s')"
  by (rule put_returns_or_overflows [OF demo_ok(1) demo_fits demo_room])

text \<open>The loop returns when fewer than 16 records share the place of the key.\<close>

lemma put_key_ok:
  assumes "shf_ok s" "fits (lens_of s) (shf_hash_key s) val val_len"
    "shf_room (data_needed (len_len (lens_of s)) (length (shf_hash_key s)) val_len) s"
    "no_spare_tab (wins s (hash_win (the_hash s)))"
    "card (taken s (hash_win (the_hash s)) (hash_tab2 (the_hash s)) (hash_row (the_hash s))) < 16"
  shows "\<exists>s'. shf_put_key_val val val_len s = Inr (SHF_RET_KEY_PUT, s') \<and> put_done val val_len s s'"
proof -
  have f: "2048 < put_fuel + tabs_used (wins s (hash_win (the_hash s)))" by (simp add: put_fuel_def shf_const_eq)
  show ?thesis
    using put_loop_total [OF assms(1-3) f] put_loop_succeeds [OF assms(1-3) f assms(4,5)]
    unfolding shf_put_key_val_def by blast
qed

text \<open>
  C2. A put succeeds whenever there is room in memory, every table of the window is in use by some
  table index and fewer than 16 stored records share window, table index and row with the key:
  splitting full tables always frees a place before the 2048 tables of the window run out.
\<close>

theorem put_succeeds:
  assumes "shf_ok s" "fits (lens_of s) (shf_hash_key s) val val_len"
    "shf_room (data_needed (len_len (lens_of s)) (length (shf_hash_key s)) val_len) s"
    "no_spare_tab (wins s (hash_win (the_hash s)))"
    "card (taken s (hash_win (the_hash s)) (hash_tab2 (the_hash s)) (hash_row (the_hash s))) < 16"
  shows "\<exists>s' ref v. shf_put_key_val val val_len s = Inr (SHF_RET_KEY_PUT, s') \<and> ref < 16
     \<and> shf_uid s' = mk_uid (hash_win (the_hash s)) (hash_tab2 (the_hash s)) (hash_row (the_hash s)) ref
     \<and> length v = val_len \<and> (\<forall>w. val = Some w \<longrightarrow> v = take val_len w)
     \<and> kv (lens_of s) s' = (kv (lens_of s) s)((hash_win (the_hash s), hash_tab2 (the_hash s),
          hash_row (the_hash s), ref) \<mapsto> (hash_rnd (the_hash s), shf_hash_key s, v))"
  using put_key_ok [OF assms] unfolding put_done_def by blast

theorem put_succeeds_witness:
  "\<exists>s' ref v. shf_put_key_val (Some [1, 2, 3, 4, 5, 6, 7, 8]) 8 demo = Inr (SHF_RET_KEY_PUT, s') \<and> ref < 16
     \<and> shf_uid s' = mk_uid (hash_win (the_hash demo)) (hash_tab2 (the_hash demo)) (hash_row (the_hash demo)) ref
     \<and> length v = 8 \<and> (\<forall>w. Some [1, 2, 3, 4, 5, 6, 7, 8] = Some w \<longrightarrow> v = take 8 w)
     \<and> kv (lens_of demo) s' = (kv (lens_of demo) demo)((hash_win (the_hash demo), hash_tab2 (the_hash demo),
          hash_row (the_hash demo), ref) \<mapsto> (hash_rnd (the_hash demo), shf_hash_key demo, v))"
  by (rule put_succeeds [OF demo_ok(1) demo_fits demo_room]) (simp_all add: demo_no_spare demo_taken)

section \<open>Getting\<close>

lemma uid_coord_mk:
  assumes "win < 256" "tab2 < 2048" "row < 512" "ref < 16"
  shows "uid_coord (mk_uid win tab2 row ref) = (win, tab2, row, ref)"
proof -
  let ?p = "\<lparr>uid_win = win, uid_tab = tab2, uid_row = row, uid_ref = ref\<rparr>"
  have "uid_as_part (uid_as_u32 ?p) = ?p"
    using uid_parts [of ?p] assms by (simp add: uid_in_range_def shf_const_eq)
  then show ?thesis by (simp add: uid_coord_def mk_uid_def Let_def)
qed

text \<open>
  C7. Reading the value of the current key returns the value stored under the first reference of
  its row that holds the key, with \<open>shf_uid\<close> naming that reference; with no such reference it
  returns \<open>SHF_RET_KEY_NONE\<close>. Nothing stored changes, even when the read replaces the tab file by
  one without garbage.
\<close>

theorem get_key_val_copy_result:
  assumes "shf_ok s" "shf_room n s"
  shows "\<exists>res s'. shf_get_key_val_copy s = Inr (res, s') \<and> shf_ok s' \<and> kv (lens_of s) s' = kv (lens_of s) s
     \<and> (case key_ref s of
          None \<Rightarrow> res = SHF_RET_KEY_NONE \<and> shf_uid s' = SHF_UID_NONE
        | Some ref \<Rightarrow> res = SHF_RET_KEY_FOUND
            \<and> shf_uid s' = mk_uid (hash_win (the_hash s)) (hash_tab2 (the_hash s)) (hash_row (the_hash s)) ref
            \<and> kv (lens_of s) s (hash_win (the_hash s), hash_tab2 (the_hash s), hash_row (the_hash s), ref)
                = Some (hash_rnd (the_hash s), shf_hash_key s, shf_val s'))"
proof (cases "key_ref s")
  case None
  then show ?thesis using find_by_key [OF assms(1), of SHF_FIND_KEY_OR_UID_AND_COPY_VAL no_upd]
    by (auto simp: shf_get_key_val_copy_def looked_def)
next
  case (Some ref)
  let ?w = "hash_win (the_hash s)" and ?t = "hash_tab2 (the_hash s)" and ?r = "hash_row (the_hash s)"
  obtain i v s1 where f: "kv (lens_of s) s (?w, ?t, ?r, ref) = Some (hash_rnd (the_hash s), shf_hash_key s, v)"
    "shf_get_key_val_copy s = found_key SHF_FIND_KEY_OR_UID_AND_COPY_VAL no_upd ?w (win_tabs (wins s ?w) ?t) i ?r ref
       (length (shf_hash_key s)) (length v) s1"
    "looked s s1" "located ?w ?t i ?r ref (hash_rnd (the_hash s)) (shf_hash_key s) v s1" "shf_uid s1 = mk_uid ?w ?t ?r ref"
    using find_by_key [OF assms(1), of SHF_FIND_KEY_OR_UID_AND_COPY_VAL no_upd] Some
    by (auto simp: shf_get_key_val_copy_def)
  have w: "win_tabs (wins s ?w) ?t = win_tabs (wins s1 ?w) ?t" "shf_room n s1"
    using f(3) assms(2) by (simp_all add: looked_def same_routes_def)
  show ?thesis using found_copy_val [OF f(4) w(2) w(1)] f Some by (auto simp: copied_out_def looked_def)
qed

theorem get_key_val_copy_result_witness:
  "\<exists>res s'. shf_get_key_val_copy demo = Inr (res, s') \<and> shf_ok s' \<and> res = SHF_RET_KEY_NONE"
proof -
  have "key_ref demo = None" by (simp add: key_ref_def demo_ok find_None_iff)
  then show ?thesis using get_key_val_copy_result [OF demo_ok(1,2)] by auto
qed

section \<open>An instance with one record\<close>

lemma demo_hash:
  "hash_win (the_hash demo) = 120" "hash_tab2 (the_hash demo) = 1414" "hash_row (the_hash demo) = 247"
  "hash_rnd (the_hash demo) = 137628"
proof -
  have "MurmurHash3_x64_128 [97] 12345 = (10161487414812899448, 9770637618309110172)" by code_simp
  then have h: "the_hash demo = \<lparr>hash_u64_0 = 10161487414812899448, hash_u64_1 = 9770637618309110172\<rparr>"
    by (simp add: demo_def shf_make_hash_def)
  show "hash_win (the_hash demo) = 120" "hash_tab2 (the_hash demo) = 1414" "hash_row (the_hash demo) = 247"
    "hash_rnd (the_hash demo) = 137628"
    by (simp_all add: h hash_win_def hash_tab2_def hash_row_def hash_rnd_def hash_u16_def hash_u32_def shf_const)
qed

text \<open>The key \<open>a\<close> with the value \<open>1, ..., 8\<close> put into the instance of the witnesses.\<close>

definition demo1 :: shf where
  "demo1 = (case shf_put_key_val (Some [1, 2, 3, 4, 5, 6, 7, 8]) 8 demo of Inl _ \<Rightarrow> demo | Inr (_, s) \<Rightarrow> s)"

lemma demo1_put:
  "shf_put_key_val (Some [1, 2, 3, 4, 5, 6, 7, 8]) 8 demo = Inr (SHF_RET_KEY_PUT, demo1)
   \<and> put_done (Some [1, 2, 3, 4, 5, 6, 7, 8]) 8 demo demo1"
  using put_key_ok [OF demo_ok(1) demo_fits demo_room] by (auto simp: demo_no_spare demo_taken demo1_def)

lemma demo1_ok:
  "shf_ok demo1" "shf_room 0 demo1" "lens_of demo1 = lens_of demo" "shf_uid demo1 \<noteq> SHF_UID_NONE"
  "the_hash demo1 = the_hash demo" "shf_hash_key demo1 = [97]" "shf_ttl demo1 = 0" "shf_upd_callback_failsafe demo1 = 0"
  "\<exists>ref < 16. uid_coord (shf_uid demo1) = (120, 1414, 247, ref)
     \<and> kv (lens_of demo1) demo1 = [(120, 1414, 247, ref) \<mapsto> (137628, [97], [1, 2, 3, 4, 5, 6, 7, 8])]"
  "kv (lens_of demo1) demo1 (uid_coord (shf_uid demo1)) = Some (137628, [97], [1, 2, 3, 4, 5, 6, 7, 8])"
proof -
  obtain ref where p: "same_thread demo (demo1\<lparr>shf_uid := shf_uid demo\<rparr>)" "shf_ok demo1" "shf_room 0 demo1" "ref < 16"
    "shf_uid demo1 = mk_uid 120 1414 247 ref"
    "kv (lens_of demo) demo1 = [(120, 1414, 247, ref) \<mapsto> (137628, [97], [1, 2, 3, 4, 5, 6, 7, 8])]"
    using demo1_put by (auto simp: put_done_def demo_hash demo_ok)
  note T = same_threadD [OF p(1)]
  show "shf_ok demo1" "shf_room 0 demo1" by (fact p)+
  show L: "lens_of demo1 = lens_of demo" using T(2) by (simp add: lens_of_def)
  show "the_hash demo1 = the_hash demo" "shf_hash_key demo1 = [97]" "shf_ttl demo1 = 0" "shf_upd_callback_failsafe demo1 = 0"
    using T by (simp_all add: demo_ok)
  have c: "uid_coord (shf_uid demo1) = (120, 1414, 247, ref)"
    unfolding p(5) by (rule uid_coord_mk) (simp_all add: p(4))
  then show "\<exists>ref < 16. uid_coord (shf_uid demo1) = (120, 1414, 247, ref)
     \<and> kv (lens_of demo1) demo1 = [(120, 1414, 247, ref) \<mapsto> (137628, [97], [1, 2, 3, 4, 5, 6, 7, 8])]"
    using p(4,6) L by auto
  show "kv (lens_of demo1) demo1 (uid_coord (shf_uid demo1)) = Some (137628, [97], [1, 2, 3, 4, 5, 6, 7, 8])"
    by (simp add: c L p(6))
  show "shf_uid demo1 \<noteq> SHF_UID_NONE"
  proof
    assume "shf_uid demo1 = SHF_UID_NONE"
    then have "uid_coord (shf_uid demo1) = (255, 2047, 511, 15)"
      by (simp add: uid_coord_def uid_as_part_def shf_const_eq Let_def)
    with c show False by simp
  qed
qed

lemma demo1_key_ref: "\<exists>ref < 16. key_ref demo1 = Some ref"
proof -
  obtain ref where "ref < 16" "kv (lens_of demo1) demo1 = [(120, 1414, 247, ref) \<mapsto> (137628, [97], [1, 2, 3, 4, 5, 6, 7, 8])]"
    using demo1_ok(9) by blast
  then have "\<exists>x \<in> set [0..<16]. case kv (lens_of demo1) demo1 (120, 1414, 247, x) of None \<Rightarrow> False
     | Some (rnd, k, v) \<Rightarrow> rnd = 137628 \<and> k = [97]" by (intro bexI [of _ ref]) auto
  then have "key_ref demo1 \<noteq> None"
    unfolding key_ref_def demo1_ok(5,6) demo_hash shf_const_eq find_None_iff by blast
  then obtain ref where "key_ref demo1 = Some ref" by blast
  moreover from this have "ref \<in> set [0..<SHF_REFS_PER_ROW]" unfolding key_ref_def find_Some_iff
    by (metis nth_mem)
  ultimately show ?thesis by (auto simp: shf_const_eq)
qed

lemma demo1_key_ref_kv:
  "\<exists>ref. kv (lens_of demo1) demo1 = [(120, 1414, 247, ref) \<mapsto> (137628, [97], [1, 2, 3, 4, 5, 6, 7, 8])] \<and> key_ref demo1 = Some ref"
proof -
  obtain ref where "kv (lens_of demo1) demo1 = [(120, 1414, 247, ref) \<mapsto> (137628, [97], [1, 2, 3, 4, 5, 6, 7, 8])]"
    using demo1_ok(9) by blast
  moreover obtain ref' where "key_ref demo1 = Some ref'" using demo1_key_ref by blast
  moreover from this have "kv (lens_of demo1) demo1 (120, 1414, 247, ref') \<noteq> None"
    unfolding key_ref_def find_Some_iff demo1_ok(5,6) demo_hash by (auto split: option.splits)
  ultimately show ?thesis by (auto split: if_splits)
qed



lemma get_uid_copy:
  assumes ok: "shf_ok s" and room: "shf_room n s" and uid: "uid \<noteq> SHF_UID_NONE"
    and there: "kv (lens_of s) s (uid_coord uid) = Some (rnd, k, v)"
  shows "\<exists>s'. shf_get_uid_val_copy uid s = Inr (SHF_RET_KEY_FOUND, s') \<and> copied_out s s' \<and> shf_val s' = v"
    "\<exists>s'. shf_get_uid_key_copy uid s = Inr (SHF_RET_KEY_FOUND, s') \<and> copied_out s s' \<and> shf_key s' = k"
proof -
  obtain win tab2 row ref where c: "uid_coord uid = (win, tab2, row, ref)" by (cases "uid_coord uid")
  have copied: "copied_out s s2" if "looked s s1" "copied_out s1 s2" "shf_uid s1 = shf_uid s" for s1 s2
    using that by (simp add: copied_out_def looked_def)
  have F: "\<exists>i s1. shf_find_key_internal uid what upd s
        = found_key what upd win (win_tabs (wins s1 win) tab2) i row ref (length k) (length v) s1
      \<and> looked s s1 \<and> located win tab2 i row ref rnd k v s1 \<and> shf_uid s1 = shf_uid s \<and> shf_room n s1" for what upd
  proof -
    obtain i s1 where s1: "shf_find_key_internal uid what upd s
        = found_key what upd win (win_tabs (wins s win) tab2) i row ref (length k) (length v) s1"
      "looked s s1" "located win tab2 i row ref rnd k v s1" "shf_uid s1 = shf_uid s"
      using find_by_uid [OF ok uid c, of what upd] there by (auto simp: c)
    have "win_tabs (wins s1 win) tab2 = win_tabs (wins s win) tab2" "shf_room n s1"
      using s1(2) room by (simp_all add: looked_def same_routes_def)
    with s1 show ?thesis by metis
  qed
  show "\<exists>s'. shf_get_uid_val_copy uid s = Inr (SHF_RET_KEY_FOUND, s') \<and> copied_out s s' \<and> shf_val s' = v"
    using F [of SHF_FIND_KEY_OR_UID_AND_COPY_VAL no_upd] found_copy_val copied
    unfolding shf_get_uid_val_copy_def by metis
  show "\<exists>s'. shf_get_uid_key_copy uid s = Inr (SHF_RET_KEY_FOUND, s') \<and> copied_out s s' \<and> shf_key s' = k"
    using F [of SHF_FIND_KEY_OR_UID_AND_COPY_KEY no_upd] found_copy_key copied
    unfolding shf_get_uid_key_copy_def by metis
qed

text \<open>
  A UID finds its record: the read by UID returns the stored value in \<open>shf_val\<close> and changes
  nothing that is stored.
\<close>

theorem get_uid_val_copy_finds:
  assumes "shf_ok s" "shf_room n s" "uid \<noteq> SHF_UID_NONE" "kv (lens_of s) s (uid_coord uid) = Some (rnd, k, v)"
  shows "\<exists>s'. shf_get_uid_val_copy uid s = Inr (SHF_RET_KEY_FOUND, s') \<and> shf_val s' = v \<and> shf_ok s'
     \<and> kv (lens_of s) s' = kv (lens_of s) s"
  using get_uid_copy(1) [OF assms] by (auto simp: copied_out_def)

theorem get_uid_val_copy_finds_witness:
  "\<exists>s'. shf_get_uid_val_copy (shf_uid demo1) demo1 = Inr (SHF_RET_KEY_FOUND, s') \<and> shf_val s' = [1, 2, 3, 4, 5, 6, 7, 8]"
  using get_uid_val_copy_finds [OF demo1_ok(1,2,4,10)] by blast

text \<open>Another process, or thread, that has the same instance attached.\<close>

definition attached_to :: "shf \<Rightarrow> shf \<Rightarrow> bool" where
  "attached_to s p \<longleftrightarrow> tab_file p = tab_file s \<and> inode p = inode s \<and> fsize p = fsize s \<and> next_inode p = next_inode s
     \<and> wins p = wins s \<and> vfs_available p = vfs_available s \<and> lens_of p = lens_of s"

lemma attached_ok:
  assumes a: "attached_to s p" and ok: "shf_ok s" and m: "coherent s (tabs p)"
  shows "shf_ok p" "kv L p = kv L s" "lens_of p = lens_of s"
proof -
  have e: "tab_file p = tab_file s" "inode p = inode s" "fsize p = fsize s" "next_inode p = next_inode s"
    "wins p = wins s" and L: "lens_of p = lens_of s" using a by (simp_all add: attached_to_def)
  have t: "table p = table s" by (simp add: table_def e fun_eq_iff split: option.split)
  have "files_ok L p = files_ok L s" for L by (simp add: files_ok_def e)
  moreover have "routes_ok p = routes_ok s" by (simp add: routes_ok_def e t)
  moreover have "coherent p (tabs p) = coherent s (tabs p)" by (simp add: coherent_def mapping_ok_def e)
  ultimately show "shf_ok p" using ok m by (simp add: shf_ok_def L)
  show "kv L p = kv L s" by (simp add: kv_def e t)
  show "lens_of p = lens_of s" by (fact L)
qed

text \<open>
  C1. What one process puts, every other process reads back by the UID, whatever tab files that
  process had mapped before: files that have since grown or been replaced are mapped again.
\<close>

theorem put_then_get_in_other_process:
  assumes "shf_ok s" "fits (lens_of s) (shf_hash_key s) (Some w) val_len"
    "shf_room (data_needed (len_len (lens_of s)) (length (shf_hash_key s)) val_len) s"
    and put: "shf_put_key_val (Some w) val_len s = Inr (res, s')"
    and other: "coherent s (tabs p)" "attached_to s' p" "shf_room n p" and uid: "shf_uid s' \<noteq> SHF_UID_NONE"
  shows "\<exists>p'. shf_get_uid_val_copy (shf_uid s') p = Inr (SHF_RET_KEY_FOUND, p') \<and> shf_val p' = take val_len w"
proof -
  have "2048 < put_fuel + tabs_used (wins s (hash_win (the_hash s)))" by (simp add: put_fuel_def shf_const_eq)
  then have d: "put_done (Some w) val_len s s'"
    using put_loop_total [OF assms(1-3)] put unfolding shf_put_key_val_def by fastforce
  then obtain ref where r: "ref < 16"
    "shf_uid s' = mk_uid (hash_win (the_hash s)) (hash_tab2 (the_hash s)) (hash_row (the_hash s)) ref"
    "kv (lens_of s) s' = (kv (lens_of s) s)((hash_win (the_hash s), hash_tab2 (the_hash s), hash_row (the_hash s), ref)
       \<mapsto> (hash_rnd (the_hash s), shf_hash_key s, take val_len w))" "shf_ok s'" "coherent s' (tabs p)"
    using other(1) by (auto simp: put_done_def)
  have "lens_of (s'\<lparr>shf_uid := shf_uid s\<rparr>) = lens_of s" using d same_threadD(2) by (simp add: put_done_def)
  then have L: "lens_of s' = lens_of s" by (simp add: lens_of_def)
  note P = attached_ok [OF other(2) r(4,5)]
  have "uid_coord (shf_uid s') = (hash_win (the_hash s), hash_tab2 (the_hash s), hash_row (the_hash s), ref)"
    unfolding r(2) by (rule uid_coord_mk) (simp_all add: r(1))
  then have "kv (lens_of p) p (uid_coord (shf_uid s')) = Some (hash_rnd (the_hash s), shf_hash_key s, take val_len w)"
    by (simp add: P L r(3))
  then show ?thesis using get_uid_copy(1) [OF P(1) other(3) uid] by blast
qed

theorem put_then_get_in_other_process_witness:
  "\<exists>p'. shf_get_uid_val_copy (shf_uid demo1) (demo1\<lparr>tabs := tabs demo\<rparr>) = Inr (SHF_RET_KEY_FOUND, p')
     \<and> shf_val p' = [1, 2, 3, 4, 5, 6, 7, 8]"
proof -
  let ?p = "demo1\<lparr>tabs := tabs demo\<rparr>"
  have a: "attached_to demo1 ?p" by (simp add: attached_to_def lens_of_def)
  have "coherent demo (tabs ?p)" using shf_okD(4) [OF demo_ok(1)] by simp
  moreover have "table ?p = table demo1" by (simp add: table_def fun_eq_iff split: option.split)
  then have "shf_room 0 ?p" using demo1_ok(2) by (simp add: shf_room_def room_def)
  ultimately show ?thesis
    using put_then_get_in_other_process [OF demo_ok(1) demo_fits demo_room conjunct1 [OF demo1_put] _ a _ demo1_ok(4)]
    by simp
qed

section \<open>Deleting\<close>

lemma del_key_ok:
  assumes ok: "shf_ok s" and ttl: "shf_ttl s = 0" and ref: "key_ref s = Some ref"
  shows "\<exists>s'. shf_del_key_val s = Inr (SHF_RET_KEY_FOUND, s') \<and> shf_ok s' \<and> (\<forall>m. coherent s m \<longrightarrow> coherent s' m)
     \<and> lens_of s' = lens_of s \<and> shf_uid s' = SHF_UID_NONE \<and> shf_ttl s' = 0
     \<and> the_hash s' = the_hash s \<and> shf_hash_key s' = shf_hash_key s \<and> shf_val_long s' = shf_val_long s
     \<and> kv (lens_of s) s' = (kv (lens_of s) s)
         ((hash_win (the_hash s), hash_tab2 (the_hash s), hash_row (the_hash s), ref) := None)
     \<and> (\<forall>n. shf_room n s \<longrightarrow> shf_room n s')"
proof -
  let ?w = "hash_win (the_hash s)" and ?t = "hash_tab2 (the_hash s)" and ?r = "hash_row (the_hash s)"
  obtain i v s1 where f: "shf_del_key_val s = found_key SHF_FIND_KEY_OR_UID_AND_DELETE no_upd ?w (win_tabs (wins s ?w) ?t) i ?r ref
       (length (shf_hash_key s)) (length v) s1"
    "looked s s1" "located ?w ?t i ?r ref (hash_rnd (the_hash s)) (shf_hash_key s) v s1"
    using find_by_key [OF ok, of SHF_FIND_KEY_OR_UID_AND_DELETE no_upd] ref by (auto simp: shf_del_key_val_def)
  have "shf_ttl s1 = 0" using f(2) ttl by (simp add: looked_def)
  then obtain s2 where s2: "shf_del_key_val s = Inr (SHF_RET_KEY_FOUND, s2)" "shf_ok s2" "\<And>m. coherent s1 m \<Longrightarrow> coherent s2 m"
    "lens_of s2 = lens_of s1" "shf_uid s2 = SHF_UID_NONE" "shf_ttl s2 = 0"
    "the_hash s2 = the_hash s1" "shf_hash_key s2 = shf_hash_key s1" "shf_val_long s2 = shf_val_long s1" "kv (lens_of s1) s2 = (kv (lens_of s1) s1)((?w, ?t, ?r, ref) := None)"
    "\<And>n. shf_room n s1 \<Longrightarrow> shf_room n s2"
    using found_delete_ok [OF f(3), where tab = "win_tabs (wins s ?w) ?t" and upd = no_upd] unfolding f(1) by blast
  have "lens_of s1 = lens_of s" "kv (lens_of s) s1 = kv (lens_of s) s" "\<And>m. coherent s m \<Longrightarrow> coherent s1 m"
    "the_hash s1 = the_hash s" "shf_hash_key s1 = shf_hash_key s" "shf_val_long s1 = shf_val_long s"
    "\<And>n. shf_room n s \<Longrightarrow> shf_room n s1"
    using f(2) by (simp_all add: looked_def)
  with s2 show ?thesis by simp
qed

text \<open>
  C8. Deleting the current key. Without a reference that holds it nothing stored changes, the result is
  \<open>SHF_RET_KEY_NONE\<close> and \<open>shf_ttl\<close> stays set. Otherwise the first such reference is the one that counts. With
  \<open>shf_ttl\<close> 0, or when the value starts with the TTL that \<open>shf_ttl\<close> says, its record goes and no other one, and
  \<open>shf_uid\<close> is cleared; a conditional delete also copies the value to \<open>shf_val\<close>. With another TTL the record
  stays, \<open>shf_uid\<close> is its UID and the result says so. Either way the condition is used up. For a condition the
  value must have the four bytes of a TTL.
\<close>

theorem del_key_val_removes:
  assumes "shf_ok s"
  shows "case key_ref s of
       None \<Rightarrow> \<exists>s'. shf_del_key_val s = Inr (SHF_RET_KEY_NONE, s') \<and> shf_ok s' \<and> shf_uid s' = SHF_UID_NONE
         \<and> shf_ttl s' = shf_ttl s \<and> kv (lens_of s) s' = kv (lens_of s) s
     | Some ref \<Rightarrow> \<exists>v. kv (lens_of s) s (hash_win (the_hash s), hash_tab2 (the_hash s), hash_row (the_hash s), ref)
           = Some (hash_rnd (the_hash s), shf_hash_key s, v)
         \<and> (shf_ttl s = 0 \<or> 4 \<le> length v \<longrightarrow> (\<exists>res s'. shf_del_key_val s = Inr (res, s') \<and> shf_ok s' \<and> shf_ttl s' = 0
           \<and> (if shf_ttl s = 0 \<or> shf_ttl s = ttl_of v
              then res = SHF_RET_KEY_FOUND \<and> shf_uid s' = SHF_UID_NONE \<and> (shf_ttl s \<noteq> 0 \<longrightarrow> shf_val s' = v)
                 \<and> kv (lens_of s) s' = (kv (lens_of s) s)
                   ((hash_win (the_hash s), hash_tab2 (the_hash s), hash_row (the_hash s), ref) := None)
              else res = SHF_RET_KEY_FOUND OR SHF_RET_NOT_TTL \<and> kv (lens_of s) s' = kv (lens_of s) s
                 \<and> shf_uid s' = mk_uid (hash_win (the_hash s)) (hash_tab2 (the_hash s)) (hash_row (the_hash s)) ref)))"
proof (cases "key_ref s")
  case None
  then show ?thesis using find_by_key [OF assms(1), of SHF_FIND_KEY_OR_UID_AND_DELETE no_upd]
    by (auto simp: shf_del_key_val_def looked_def)
next
  case (Some ref)
  let ?w = "hash_win (the_hash s)" and ?t = "hash_tab2 (the_hash s)" and ?r = "hash_row (the_hash s)"
  obtain i v s1 where f: "kv (lens_of s) s (?w, ?t, ?r, ref) = Some (hash_rnd (the_hash s), shf_hash_key s, v)"
    "shf_del_key_val s = found_key SHF_FIND_KEY_OR_UID_AND_DELETE no_upd ?w (win_tabs (wins s ?w) ?t) i ?r ref
       (length (shf_hash_key s)) (length v) s1"
    "looked s s1" "located ?w ?t i ?r ref (hash_rnd (the_hash s)) (shf_hash_key s) v s1" "shf_uid s1 = mk_uid ?w ?t ?r ref"
    using find_by_key [OF assms, of SHF_FIND_KEY_OR_UID_AND_DELETE no_upd] Some by (auto simp: shf_del_key_val_def)
  have e: "shf_ttl s1 = shf_ttl s" "lens_of s1 = lens_of s" "kv (lens_of s) s1 = kv (lens_of s) s" "shf_ok s1"
    using f(3) by (simp_all add: looked_def)
  have "\<exists>res s'. shf_del_key_val s = Inr (res, s') \<and> shf_ok s' \<and> shf_ttl s' = 0
       \<and> (if shf_ttl s = 0 \<or> shf_ttl s = ttl_of v
          then res = SHF_RET_KEY_FOUND \<and> shf_uid s' = SHF_UID_NONE \<and> (shf_ttl s \<noteq> 0 \<longrightarrow> shf_val s' = v)
             \<and> kv (lens_of s) s' = (kv (lens_of s) s)((?w, ?t, ?r, ref) := None)
          else res = SHF_RET_KEY_FOUND OR SHF_RET_NOT_TTL \<and> kv (lens_of s) s' = kv (lens_of s) s \<and> shf_uid s' = mk_uid ?w ?t ?r ref)"
    if len: "shf_ttl s = 0 \<or> 4 \<le> length v"
  proof (cases "shf_ttl s = 0 \<or> shf_ttl s = ttl_of v")
    case True
    then have "shf_ttl s1 = 0 \<or> 4 \<le> length v \<and> shf_ttl s1 = ttl_of v" using len e(1) by auto
    from found_delete_ok [OF f(4) this, where tab = "win_tabs (wins s ?w) ?t" and upd = no_upd]
    show ?thesis using True e unfolding f(2) by auto
  next
    case False
    define s2 where "s2 = s1\<lparr>shf_ttl := 0\<rparr>"
    have "same_store s1 s2" by (simp add: s2_def same_store_def)
    note S = same_storeD [OF this]
    have "shf_del_key_val s = Inr (SHF_RET_KEY_FOUND OR SHF_RET_NOT_TTL, s2)"
      unfolding f(2) s2_def using len False e by (intro found_delete_ttl [OF f(4)]) simp_all
    then show ?thesis using False e S f(5) by (auto simp: s2_def)
  qed
  then show ?thesis using f(1) Some by auto
qed

theorem del_key_val_removes_witness:
  "(\<exists>s'. shf_del_key_val demo1 = Inr (SHF_RET_KEY_FOUND, s') \<and> kv (lens_of demo1) s' = Map.empty)
   \<and> (\<exists>s'. shf_del_key_val (demo1\<lparr>shf_ttl := 7\<rparr>) = Inr (SHF_RET_KEY_FOUND OR SHF_RET_NOT_TTL, s')
     \<and> kv (lens_of demo1) s' = kv (lens_of demo1) demo1)"
proof -
  obtain ref where ref: "kv (lens_of demo1) demo1 = [(120, 1414, 247, ref) \<mapsto> (137628, [97], [1, 2, 3, 4, 5, 6, 7, 8])]"
    "key_ref demo1 = Some ref" using demo1_key_ref_kv by blast
  have "\<exists>s'. shf_del_key_val demo1 = Inr (SHF_RET_KEY_FOUND, s') \<and> kv (lens_of demo1) s' = Map.empty"
    using del_key_val_removes [OF demo1_ok(1)] ref by (auto simp: demo1_ok demo_hash)
  moreover
  let ?s = "demo1\<lparr>shf_ttl := 7\<rparr>"
  have ss: "same_store demo1 ?s" by (simp add: same_store_def)
  note S = same_storeD [OF ss]
  have h: "the_hash ?s = the_hash demo1" "shf_hash_key ?s = shf_hash_key demo1" by simp_all
  have "key_ref ?s = key_ref demo1" by (simp only: key_ref_def S h)
  moreover have "ttl_of [1, 2, 3, 4, 5, 6, 7, 8] = 67305985" by (simp add: ttl_of_def SHF_U32_AT_def)
  moreover have "shf_ok ?s" using demo1_ok(1) S(1) by simp
  ultimately show ?thesis using del_key_val_removes [of ?s] ref S by (auto simp: demo1_ok demo_hash)
qed

lemma del_uid_find:
  assumes ok: "shf_ok s" and uid: "uid \<noteq> SHF_UID_NONE" and there: "kv (lens_of s) s (uid_coord uid) = Some (rnd, k, v)"
  shows "\<exists>win tab2 row ref tab i s1. uid_coord uid = (win, tab2, row, ref)
     \<and> shf_find_key_internal uid what upd s = found_key what upd win tab i row ref (length k) (length v) s1
     \<and> looked s s1 \<and> located win tab2 i row ref rnd k v s1 \<and> shf_uid s1 = shf_uid s"
proof -
  obtain win tab2 row ref where c: "uid_coord uid = (win, tab2, row, ref)" by (cases "uid_coord uid")
  show ?thesis using find_by_uid [OF ok uid c, of what upd] there unfolding c by auto
qed

text \<open>
  A conditional delete by UID, with \<open>shf_ttl\<close> set: the record goes exactly when its value
  starts with that TTL, and then the value is copied to \<open>shf_val\<close>; otherwise nothing stored
  changes and the result says so. Either way the condition is used up.
\<close>

theorem del_uid_val_ttl:
  assumes "shf_ok s" "shf_ttl s \<noteq> 0" "uid \<noteq> SHF_UID_NONE"
    "kv (lens_of s) s (uid_coord uid) = Some (rnd, k, v)" "4 \<le> length v"
  shows "\<exists>res s'. shf_del_uid_val uid s = Inr (res, s') \<and> shf_ok s' \<and> shf_ttl s' = 0
     \<and> (if shf_ttl s = ttl_of v
        then res = SHF_RET_KEY_FOUND \<and> shf_val s' = v \<and> kv (lens_of s) s' = (kv (lens_of s) s)(uid_coord uid := None)
        else res = SHF_RET_KEY_FOUND OR SHF_RET_NOT_TTL \<and> kv (lens_of s) s' = kv (lens_of s) s)"
proof -
  obtain win tab2 row ref tab i s1 where f: "uid_coord uid = (win, tab2, row, ref)"
    "shf_del_uid_val uid s = found_key SHF_FIND_KEY_OR_UID_AND_DELETE no_upd win tab i row ref (length k) (length v) s1"
    "looked s s1" "located win tab2 i row ref rnd k v s1"
    using del_uid_find [OF assms(1,3,4), of SHF_FIND_KEY_OR_UID_AND_DELETE no_upd] unfolding shf_del_uid_val_def by metis
  have e: "shf_ttl s1 = shf_ttl s" "lens_of s1 = lens_of s" "kv (lens_of s) s1 = kv (lens_of s) s" "shf_ok s1"
    using f(3) by (simp_all add: looked_def)
  show ?thesis
  proof (cases "shf_ttl s = ttl_of v")
    case True
    then show ?thesis using found_delete_ok [OF f(4), where tab = tab and upd = no_upd] assms(2,5) e by (auto simp: f(1,2))
  next
    case False
    define s2 where "s2 = s1\<lparr>shf_ttl := 0\<rparr>"
    have "same_store s1 s2" by (simp add: s2_def same_store_def)
    note S = same_storeD [OF this]
    have "shf_del_uid_val uid s = Inr (SHF_RET_KEY_FOUND OR SHF_RET_NOT_TTL, s2)"
      unfolding f(2) s2_def using assms(2,5) False e by (intro found_delete_ttl [OF f(4)]) simp_all
    then show ?thesis using False e S by (auto simp: s2_def)
  qed
qed

theorem del_uid_val_ttl_witness:
  "\<exists>s'. shf_del_uid_val (shf_uid demo1) (demo1\<lparr>shf_ttl := 67305985\<rparr>) = Inr (SHF_RET_KEY_FOUND, s')
     \<and> shf_val s' = [1, 2, 3, 4, 5, 6, 7, 8] \<and> kv (lens_of demo1) s' (uid_coord (shf_uid demo1)) = None"
proof -
  let ?s = "demo1\<lparr>shf_ttl := 67305985\<rparr>"
  have ss: "same_store demo1 ?s" by (simp add: same_store_def)
  note S = same_storeD [OF ss]
  have ttl: "ttl_of [1, 2, 3, 4, 5, 6, 7, 8] = 67305985" by (simp add: ttl_of_def SHF_U32_AT_def)
  have "shf_ok ?s" "shf_ttl ?s \<noteq> 0"
    "kv (lens_of ?s) ?s (uid_coord (shf_uid demo1)) = Some (137628, [97], [1, 2, 3, 4, 5, 6, 7, 8])"
    using demo1_ok(1,10) S by simp_all
  from del_uid_val_ttl [OF this(1,2) demo1_ok(4) this(3)] ttl S show ?thesis by auto
qed

section \<open>Reference counting\<close>

lemma key_ref_Some:
  "key_ref s = Some ref \<Longrightarrow> ref < 16 \<and> (\<exists>v. kv (lens_of s) s (hash_win (the_hash s), hash_tab2 (the_hash s),
     hash_row (the_hash s), ref) = Some (hash_rnd (the_hash s), shf_hash_key s, v))"
  by (auto simp: key_ref_def find_Some_iff shf_const_eq split: option.splits)

lemma key_ref_cong:
  assumes "\<And>ref. ref < 16 \<Longrightarrow>
      map_option (\<lambda>(rnd, k, v). (rnd, k)) (kv (lens_of s') s' (hash_win (the_hash s), hash_tab2 (the_hash s), hash_row (the_hash s), ref))
    = map_option (\<lambda>(rnd, k, v). (rnd, k)) (kv (lens_of s) s (hash_win (the_hash s), hash_tab2 (the_hash s), hash_row (the_hash s), ref))"
    "the_hash s' = the_hash s" "shf_hash_key s' = shf_hash_key s"
  shows "key_ref s' = key_ref s"
proof -
  have "(case o1 of None \<Rightarrow> False | Some (rnd, k, v) \<Rightarrow> rnd = r \<and> k = y)
     = (case o2 of None \<Rightarrow> False | Some (rnd, k, v) \<Rightarrow> rnd = r \<and> k = y)"
    if "map_option (\<lambda>(rnd, k, v). (rnd, k)) o1 = map_option (\<lambda>(rnd, k, v). (rnd, k)) o2"
    for o1 o2 :: "(nat \<times> byte list \<times> byte list) option" and r y
    using that by (cases o1; cases o2; auto)
  note e = this [OF assms(1)]
  show ?thesis unfolding key_ref_def assms(2,3) by (rule find_cong) (simp_all add: e shf_const_eq)
qed

lemma find_unique:
  assumes "x \<in> set xs" "P x" "\<And>y. y \<in> set xs \<Longrightarrow> P y \<Longrightarrow> y = x"
  shows "find P xs = Some x"
proof (cases "find P xs")
  case None
  then show ?thesis using assms(1,2) by (simp add: find_None_iff)
next
  case (Some y)
  then have "y \<in> set xs" "P y" by (auto simp: find_Some_iff)
  then show ?thesis using assms(3) [of y] Some by simp
qed

lemma key_ref_insert:
  assumes none: "key_ref s = None" and ref: "ref < 16" and e: "the_hash s' = the_hash s" "shf_hash_key s' = shf_hash_key s"
    and kv: "kv (lens_of s) s' = (kv (lens_of s) s)((hash_win (the_hash s), hash_tab2 (the_hash s), hash_row (the_hash s), ref)
       \<mapsto> (hash_rnd (the_hash s), shf_hash_key s, v))" and L: "lens_of s' = lens_of s"
  shows "key_ref s' = Some ref"
proof -
  have no: "\<not> (case kv (lens_of s) s (hash_win (the_hash s), hash_tab2 (the_hash s), hash_row (the_hash s), y) of
      None \<Rightarrow> False | Some (rnd, k, v) \<Rightarrow> rnd = hash_rnd (the_hash s) \<and> k = shf_hash_key s)" if "y < 16" for y
    using none that by (simp add: key_ref_def find_None_iff shf_const_eq)
  have "find (\<lambda>ref. case kv (lens_of s) s' (hash_win (the_hash s), hash_tab2 (the_hash s), hash_row (the_hash s), ref) of
      None \<Rightarrow> False | Some (rnd, k, v) \<Rightarrow> rnd = hash_rnd (the_hash s) \<and> k = shf_hash_key s) [0..<SHF_REFS_PER_ROW] = Some ref"
  proof (rule find_unique)
    fix y assume y: "y \<in> set [0..<SHF_REFS_PER_ROW]" and "case kv (lens_of s) s' (hash_win (the_hash s), hash_tab2 (the_hash s), hash_row (the_hash s), y) of
      None \<Rightarrow> False | Some (rnd, k, v) \<Rightarrow> rnd = hash_rnd (the_hash s) \<and> k = shf_hash_key s"
    then show "y = ref" using no [of y] by (cases "y = ref") (simp_all add: kv shf_const_eq)
  qed (simp_all add: ref shf_const_eq kv)
  then show ?thesis by (simp only: key_ref_def e L)
qed

text \<open>What an atomic add does to the record it finds.\<close>

lemma atom_add_key:
  assumes ok: "shf_ok s" and ref: "key_ref s = Some ref"
    and v: "kv (lens_of s) s (hash_win (the_hash s), hash_tab2 (the_hash s), hash_row (the_hash s), ref)
      = Some (hash_rnd (the_hash s), shf_hash_key s, v)" and len: "8 \<le> length v"
  shows "\<exists>s'. shf_add_key_val_atom add s = Inr (SHF_RET_KEY_FOUND, s') \<and> shf_ok s' \<and> lens_of s' = lens_of s
     \<and> the_hash s' = the_hash s \<and> shf_hash_key s' = shf_hash_key s \<and> shf_ttl s' = shf_ttl s
     \<and> key_ref s' = Some ref \<and> shf_val_long s' = long_of v + add
     \<and> kv (lens_of s) s' = (kv (lens_of s) s)((hash_win (the_hash s), hash_tab2 (the_hash s), hash_row (the_hash s), ref)
         \<mapsto> (hash_rnd (the_hash s), shf_hash_key s, long_bytes (long_of v + add) @ drop 8 v))"
proof -
  define s0 where "s0 = s\<lparr>shf_val_long := add\<rparr>"
  have ss: "same_store s s0" "the_hash s0 = the_hash s" "shf_hash_key s0 = shf_hash_key s" "shf_ttl s0 = shf_ttl s"
    by (simp_all add: s0_def same_store_def)
  note S = same_storeD [OF ss(1)]
  let ?w = "hash_win (the_hash s)" and ?t = "hash_tab2 (the_hash s)" and ?r = "hash_row (the_hash s)"
  have kr: "key_ref s0 = Some ref" using key_ref_cong [of s0 s] ref by (simp add: S ss)
  obtain i s1 where f: "shf_add_key_val_atom add s = found_key SHF_FIND_KEY_OR_UID_AND_ATOM_ADD no_upd ?w (win_tabs (wins s0 ?w) ?t)
       i ?r ref (length (shf_hash_key s)) (length v) s1"
    "looked s0 s1" "located ?w ?t i ?r ref (hash_rnd (the_hash s)) (shf_hash_key s) v s1"
    using find_by_key [of s0 SHF_FIND_KEY_OR_UID_AND_ATOM_ADD no_upd] ok v kr
    by (auto simp: shf_add_key_val_atom_def s0_def [symmetric] S ss)
  have l: "shf_val_long s1 = add" "lens_of s1 = lens_of s" "kv (lens_of s) s1 = kv (lens_of s) s" "the_hash s1 = the_hash s"
    "shf_hash_key s1 = shf_hash_key s" "shf_ttl s1 = shf_ttl s"
    using f(2) S ss by (simp_all add: looked_def s0_def)
  obtain s2 where s2: "shf_add_key_val_atom add s = Inr (SHF_RET_KEY_FOUND, s2)" "shf_ok s2" "lens_of s2 = lens_of s"
    "the_hash s2 = the_hash s" "shf_hash_key s2 = shf_hash_key s" "shf_ttl s2 = shf_ttl s" "shf_val_long s2 = long_of v + add"
    "kv (lens_of s) s2 = (kv (lens_of s) s)((?w, ?t, ?r, ref) \<mapsto>
       (hash_rnd (the_hash s), shf_hash_key s, long_bytes (long_of v + add) @ drop 8 v))"
    using found_add_ok [OF f(3) len, of no_upd "win_tabs (wins s0 ?w) ?t"] unfolding f(1) l by blast
  have "key_ref s2 = key_ref s" by (rule key_ref_cong) (auto simp: s2 v)
  with s2 ref show ?thesis by auto
qed


text \<open>
  Adding to a key that exists: the number at the start of its value grows by the argument modulo
  \<open>2 ^ 64\<close>, the new number is left in \<open>shf_val_long\<close>, and the record is deleted exactly when the
  number becomes zero. No other record changes.
\<close>

theorem add_key_val_existing:
  assumes "shf_ok s" "shf_ttl s = 0" "key_ref s = Some ref"
    "kv (lens_of s) s (hash_win (the_hash s), hash_tab2 (the_hash s), hash_row (the_hash s), ref)
      = Some (hash_rnd (the_hash s), shf_hash_key s, v)" "8 \<le> length v"
  shows "\<exists>s'. shf_add_key_val add s = Inr (SHF_RET_KEY_FOUND, s') \<and> shf_ok s' \<and> shf_val_long s' = long_of v + add
     \<and> kv (lens_of s) s' = (kv (lens_of s) s)((hash_win (the_hash s), hash_tab2 (the_hash s), hash_row (the_hash s), ref) :=
         if long_of v + add = 0 then None
         else Some (hash_rnd (the_hash s), shf_hash_key s, long_bytes (long_of v + add) @ drop 8 v))"
proof -
  obtain s1 where s1: "shf_add_key_val_atom add s = Inr (SHF_RET_KEY_FOUND, s1)" "shf_ok s1" "lens_of s1 = lens_of s"
    "the_hash s1 = the_hash s" "shf_hash_key s1 = shf_hash_key s" "shf_ttl s1 = 0"
    "key_ref s1 = Some ref" "shf_val_long s1 = long_of v + add"
    "kv (lens_of s) s1 = (kv (lens_of s) s)((hash_win (the_hash s), hash_tab2 (the_hash s), hash_row (the_hash s), ref)
         \<mapsto> (hash_rnd (the_hash s), shf_hash_key s, long_bytes (long_of v + add) @ drop 8 v))"
    using atom_add_key [OF assms(1,3,4,5)] assms(2) by metis
  obtain s2 where s2: "shf_del_key_val s1 = Inr (SHF_RET_KEY_FOUND, s2)" "shf_ok s2" "shf_val_long s2 = shf_val_long s1"
    "kv (lens_of s1) s2 = (kv (lens_of s1) s1)
         ((hash_win (the_hash s1), hash_tab2 (the_hash s1), hash_row (the_hash s1), ref) := None)"
    using del_key_ok [OF s1(2,6,7)] by blast
  show ?thesis using s1 s2 by (auto simp: shf_add_key_val_def)
qed

theorem add_key_val_existing_witness:
  "\<exists>s'. shf_add_key_val (- long_of [1, 2, 3, 4, 5, 6, 7, 8]) demo1 = Inr (SHF_RET_KEY_FOUND, s')
     \<and> kv (lens_of demo1) s' (uid_coord (shf_uid demo1)) = None"
proof -
  obtain ref where r: "uid_coord (shf_uid demo1) = (120, 1414, 247, ref)"
    "kv (lens_of demo1) demo1 = [(120, 1414, 247, ref) \<mapsto> (137628, [97], [1, 2, 3, 4, 5, 6, 7, 8])]"
    using demo1_ok(9) by blast
  obtain ref' where "key_ref demo1 = Some ref'" using demo1_key_ref by blast
  with key_ref_Some [OF this] r(2) have k: "key_ref demo1 = Some ref" by (auto simp: demo1_ok demo_hash split: if_splits)
  have "kv (lens_of demo1) demo1 (hash_win (the_hash demo1), hash_tab2 (the_hash demo1), hash_row (the_hash demo1), ref)
      = Some (hash_rnd (the_hash demo1), shf_hash_key demo1, [1, 2, 3, 4, 5, 6, 7, 8])"
    unfolding r(2) demo1_ok(5,6) demo_hash by simp
  from add_key_val_existing [OF demo1_ok(1,7) k this, of "- long_of [1, 2, 3, 4, 5, 6, 7, 8]"] show ?thesis by (auto simp: r demo1_ok demo_hash)
qed

text \<open>
  Adding to a key that does not exist stores it with the argument, eight bytes, as its value.
\<close>

theorem add_key_val_new:
  assumes "shf_ok s" "key_ref s = None" "fits (lens_of s) (shf_hash_key s) (Some (long_bytes add)) 8"
    "shf_room (data_needed (len_len (lens_of s)) (length (shf_hash_key s)) 8) s"
    "no_spare_tab (wins s (hash_win (the_hash s)))"
    "card (taken s (hash_win (the_hash s)) (hash_tab2 (the_hash s)) (hash_row (the_hash s))) < 16"
  shows "\<exists>s' ref. shf_add_key_val add s = Inr (SHF_RET_KEY_FOUND, s') \<and> shf_ok s' \<and> shf_val_long s' = add
     \<and> key_ref s' = Some ref
     \<and> kv (lens_of s) s' = (kv (lens_of s) s)((hash_win (the_hash s), hash_tab2 (the_hash s), hash_row (the_hash s), ref)
          \<mapsto> (hash_rnd (the_hash s), shf_hash_key s, long_bytes add))"
proof -
  define s0 where "s0 = s\<lparr>shf_val_long := add\<rparr>"
  have ss: "same_store s s0" "the_hash s0 = the_hash s" "shf_hash_key s0 = shf_hash_key s" by (simp_all add: s0_def same_store_def)
  note S = same_storeD [OF ss(1)]
  let ?w = "hash_win (the_hash s)" and ?t = "hash_tab2 (the_hash s)" and ?r = "hash_row (the_hash s)"
  have kr: "key_ref s0 = None" using key_ref_cong [of s0 s] assms(2) by (simp add: S ss)
  obtain s1 where f: "shf_add_key_val_atom add s = Inr (SHF_RET_KEY_NONE, s1)" "looked s0 s1"
    using find_by_key [of s0 SHF_FIND_KEY_OR_UID_AND_ATOM_ADD no_upd] assms(1) kr
    by (auto simp: shf_add_key_val_atom_def s0_def [symmetric] S ss)
  have l: "shf_ok s1" "lens_of s1 = lens_of s" "the_hash s1 = the_hash s" "shf_hash_key s1 = shf_hash_key s"
    "kv (lens_of s) s1 = kv (lens_of s) s" "shf_room n s \<Longrightarrow> shf_room n s1"
    "win_tabs (wins s1 w) = win_tabs (wins s w)" "tabs_used (wins s1 w) = tabs_used (wins s w)" for n w
    using f(2) S ss by (simp_all add: looked_def same_routes_def)
  have "taken s1 ?w ?t ?r = taken s ?w ?t ?r" "no_spare_tab (wins s1 ?w)"
    using assms(5) by (simp_all add: taken_def l no_spare_tab_def)
  then obtain s2 where s2: "shf_put_key_val (Some (long_bytes add)) 8 s1 = Inr (SHF_RET_KEY_PUT, s2)"
    "put_done (Some (long_bytes add)) 8 s1 s2"
    using put_key_ok [OF l(1), of "Some (long_bytes add)" 8] assms(3,4,6) by (auto simp: l)
  then obtain ref where r: "ref < 16" "shf_ok s2" "kv (lens_of s) s2 = (kv (lens_of s) s)((?w, ?t, ?r, ref)
          \<mapsto> (hash_rnd (the_hash s), shf_hash_key s, long_bytes add))" "same_thread s1 (s2\<lparr>shf_uid := shf_uid s1\<rparr>)"
    by (auto simp: put_done_def l)
  have e: "lens_of s2 = lens_of s" "the_hash s2 = the_hash s" "shf_hash_key s2 = shf_hash_key s"
    using same_threadD [OF r(4)] l by (simp_all add: lens_of_def)
  define s' where "s' = s2\<lparr>shf_val_long := add\<rparr>"
  have ss': "same_store s2 s'" "the_hash s' = the_hash s" "shf_hash_key s' = shf_hash_key s"
    using e by (simp_all add: s'_def same_store_def)
  note S' = same_storeD [OF ss'(1)]
  have run: "shf_add_key_val add s = Inr (SHF_RET_KEY_FOUND, s')"
    by (simp add: shf_add_key_val_def f(1) s2(1) s'_def shf_ret)
  have "kv (lens_of s) s' = (kv (lens_of s) s)((?w, ?t, ?r, ref) \<mapsto> (hash_rnd (the_hash s), shf_hash_key s, long_bytes add))"
    "lens_of s' = lens_of s" using r S' e by simp_all
  moreover from this have "key_ref s' = Some ref" using ss' by (intro key_ref_insert [OF assms(2) r(1)])
  ultimately show ?thesis using run r(2) S' by (auto simp: s'_def)
qed

theorem add_key_val_new_witness:
  "\<exists>s' ref. shf_add_key_val 5 demo = Inr (SHF_RET_KEY_FOUND, s') \<and> shf_val_long s' = 5 \<and> key_ref s' = Some ref"
proof -
  have "key_ref demo = None" by (simp add: key_ref_def demo_ok find_None_iff)
  moreover have "fits (lens_of demo) (shf_hash_key demo) (Some (long_bytes 5)) 8"
    by (simp add: demo_ok fits_def)
  ultimately show ?thesis using add_key_val_new [OF demo_ok(1) _ _ demo_room] demo_no_spare demo_taken by fastforce
qed


text \<open>
  The contract of a reference count: each add changes the count by its argument, and the count is
  gone when it becomes zero. Every sequence of adds then leaves the sum.
\<close>

primrec run_adds :: "('n \<Rightarrow> 's \<Rightarrow> 'e + 'r \<times> 's) \<Rightarrow> 'n list \<Rightarrow> 's \<Rightarrow> 'e + 's" where
  "run_adds add [] s = Inr s"
| "run_adds add (n # ns) s = bindE (add n s) (\<lambda>(r, s). run_adds add ns s)"

locale counter =
  fixes ok :: "'s \<Rightarrow> bool" and count :: "'s \<Rightarrow> 'n :: comm_monoid_add option" and add :: "'n \<Rightarrow> 's \<Rightarrow> 'e + 'r \<times> 's"
  assumes add_count: "ok s \<Longrightarrow> count s = Some c \<Longrightarrow>
    \<exists>r s'. add n s = Inr (r, s') \<and> ok s' \<and> count s' = (if c + n = 0 then None else Some (c + n))"
begin

lemma run_adds_sum:
  assumes "ok s" "count s = Some c" "ns \<noteq> []"
    "\<forall>k. 0 < k \<and> k < length ns \<longrightarrow> c + sum_list (take k ns) \<noteq> 0"
  shows "\<exists>s'. run_adds add ns s = Inr s' \<and> ok s'
     \<and> count s' = (if c + sum_list ns = 0 then None else Some (c + sum_list ns))"
  using assms
proof (induction ns arbitrary: s c)
  case (Cons n ns)
  obtain r s1 where s1: "add n s = Inr (r, s1)" "ok s1" "count s1 = (if c + n = 0 then None else Some (c + n))"
    using add_count [OF Cons.prems(1,2)] by blast
  show ?case
  proof (cases "ns = []")
    case True
    then show ?thesis using s1 by simp
  next
    case False
    have nz: "c + n \<noteq> 0" using Cons.prems(4) [rule_format, of 1] False by simp
    have c1: "count s1 = Some (c + n)" using s1(3) nz by simp
    have "\<forall>k. 0 < k \<and> k < length ns \<longrightarrow> c + n + sum_list (take k ns) \<noteq> 0"
    proof (intro allI impI)
      fix k assume "0 < k \<and> k < length ns"
      then show "c + n + sum_list (take k ns) \<noteq> 0" using Cons.prems(4) [rule_format, of "Suc k"] by (simp add: add.assoc)
    qed
    then obtain s' where "run_adds add ns s1 = Inr s'" "ok s'"
      "count s' = (if c + n + sum_list ns = 0 then None else Some (c + n + sum_list ns))"
      using Cons.IH [OF s1(2) c1 False] by blast
    then show ?thesis using s1(1) by (simp add: add.assoc)
  qed
qed simp

end

text \<open>
  The model keeps the contract for the current key while one reference only holds it and its value
  is a number.
\<close>

definition key_at :: "shf \<Rightarrow> nat \<Rightarrow> byte list option" where
  "key_at s ref = (case kv (lens_of s) s (hash_win (the_hash s), hash_tab2 (the_hash s), hash_row (the_hash s), ref) of
     None \<Rightarrow> None | Some (rnd, k, v) \<Rightarrow> if rnd = hash_rnd (the_hash s) \<and> k = shf_hash_key s then Some v else None)"

definition key_count :: "shf \<Rightarrow> 64 word option" where
  "key_count s = (case key_ref s of None \<Rightarrow> None | Some ref \<Rightarrow> map_option long_of (key_at s ref))"

definition count_ok :: "shf \<Rightarrow> bool" where
  "count_ok s \<longleftrightarrow> shf_ok s \<and> shf_ttl s = 0
     \<and> (\<forall>ref v. key_at s ref = Some v \<longrightarrow> 8 \<le> length v \<and> key_ref s = Some ref)"

lemma key_at_ref: "key_ref s = Some ref \<Longrightarrow> \<exists>v. key_at s ref = Some v \<and>
    kv (lens_of s) s (hash_win (the_hash s), hash_tab2 (the_hash s), hash_row (the_hash s), ref)
      = Some (hash_rnd (the_hash s), shf_hash_key s, v)"
  using key_ref_Some [of s ref] by (auto simp: key_at_def)

lemma key_ref_None: "key_ref s = None \<longleftrightarrow> (\<forall>ref < 16. key_at s ref = None)"
  by (auto simp: key_ref_def key_at_def find_None_iff shf_const_eq split: option.split)

definition same_key :: "shf \<Rightarrow> shf \<Rightarrow> bool" where
  "same_key s t \<longleftrightarrow> the_hash t = the_hash s \<and> shf_hash_key t = shf_hash_key s \<and> shf_ttl t = shf_ttl s \<and> lens_of t = lens_of s"

text \<open>One reference, and no other, holds the key of a counter.\<close>

lemma count_okE:
  assumes "count_ok s" "key_count s = Some c"
  obtains ref v where "key_ref s = Some ref" "key_at s ref = Some v" "c = long_of v" "8 \<le> length v" "shf_ok s" "shf_ttl s = 0"
    "kv (lens_of s) s (hash_win (the_hash s), hash_tab2 (the_hash s), hash_row (the_hash s), ref)
      = Some (hash_rnd (the_hash s), shf_hash_key s, v)" "\<forall>r. r \<noteq> ref \<longrightarrow> key_at s r = None"
proof -
  obtain ref v where k: "key_ref s = Some ref" "key_at s ref = Some v" "c = long_of v"
    "kv (lens_of s) s (hash_win (the_hash s), hash_tab2 (the_hash s), hash_row (the_hash s), ref)
      = Some (hash_rnd (the_hash s), shf_hash_key s, v)"
    using assms(2) key_at_ref by (fastforce simp: key_count_def split: option.splits)
  have o: "8 \<le> length v" "shf_ok s" "shf_ttl s = 0" using assms(1) k(2) by (simp_all add: count_ok_def)
  have "key_at s r = None" if "r \<noteq> ref" for r
    using assms(1) k(1) that unfolding count_ok_def by (cases "key_at s r") (blast, metis option.inject)
  then have "\<forall>r. r \<noteq> ref \<longrightarrow> key_at s r = None" by blast
  then show ?thesis by (rule that [OF k(1-3) o k(4)])
qed

text \<open>Adding goes in two sections: the first one adds, and the second one deletes a key whose count is zero.\<close>

lemma atom_count:
  assumes "count_ok s" "key_count s = Some c"
  shows "\<exists>s'. shf_add_key_val_atom n s = Inr (SHF_RET_KEY_FOUND, s') \<and> shf_val_long s' = c + n \<and> count_ok s'
     \<and> key_count s' = Some (c + n) \<and> same_key s s'"
proof -
  obtain ref v where k: "key_ref s = Some ref" "key_at s ref = Some v" "c = long_of v" "8 \<le> length v" "shf_ok s" "shf_ttl s = 0"
    "kv (lens_of s) s (hash_win (the_hash s), hash_tab2 (the_hash s), hash_row (the_hash s), ref)
      = Some (hash_rnd (the_hash s), shf_hash_key s, v)" and one: "\<forall>r. r \<noteq> ref \<longrightarrow> key_at s r = None"
    by (rule count_okE [OF assms])
  obtain s1 where s1: "shf_add_key_val_atom n s = Inr (SHF_RET_KEY_FOUND, s1)" "shf_ok s1" "lens_of s1 = lens_of s"
    "the_hash s1 = the_hash s" "shf_hash_key s1 = shf_hash_key s" "shf_ttl s1 = 0"
    "key_ref s1 = Some ref" "shf_val_long s1 = c + n"
    "kv (lens_of s) s1 = (kv (lens_of s) s)((hash_win (the_hash s), hash_tab2 (the_hash s), hash_row (the_hash s), ref)
         \<mapsto> (hash_rnd (the_hash s), shf_hash_key s, long_bytes (c + n) @ drop 8 v))"
    using atom_add_key [OF k(5,1,7,4)] k(3,6) by metis
  have at1: "key_at s1 r = (if r = ref then Some (long_bytes (c + n) @ drop 8 v) else key_at s r)" for r
    unfolding key_at_def s1(3-5,9) by simp
  have "count_ok s1" using s1(2,6,7) one k(4) by (simp add: count_ok_def at1)
  moreover have "key_count s1 = Some (c + n)" by (simp add: key_count_def s1(7) at1 long_of_bytes)
  ultimately show ?thesis using s1(1,3-6,8) k(6) by (simp add: same_key_def)
qed

lemma del_count:
  assumes "count_ok s" "key_count s = Some c"
  shows "\<exists>s'. shf_del_key_val s = Inr (SHF_RET_KEY_FOUND, s') \<and> count_ok s' \<and> key_count s' = None \<and> same_key s s'"
proof -
  obtain ref v where k: "key_ref s = Some ref" "key_at s ref = Some v" "c = long_of v" "8 \<le> length v" "shf_ok s" "shf_ttl s = 0"
    "kv (lens_of s) s (hash_win (the_hash s), hash_tab2 (the_hash s), hash_row (the_hash s), ref)
      = Some (hash_rnd (the_hash s), shf_hash_key s, v)" and one: "\<forall>r. r \<noteq> ref \<longrightarrow> key_at s r = None"
    by (rule count_okE [OF assms])
  obtain s2 where s2: "shf_del_key_val s = Inr (SHF_RET_KEY_FOUND, s2)" "shf_ok s2" "lens_of s2 = lens_of s" "shf_ttl s2 = 0"
    "the_hash s2 = the_hash s" "shf_hash_key s2 = shf_hash_key s"
    "kv (lens_of s) s2 = (kv (lens_of s) s)((hash_win (the_hash s), hash_tab2 (the_hash s), hash_row (the_hash s), ref) := None)"
    using del_key_ok [OF k(5,6,1)] by blast
  have "key_at s2 r = None" for r
    using one [rule_format, of r] unfolding key_at_def s2(3,5,6,7) by (cases "r = ref") simp_all
  then have "key_count s2 = None" "count_ok s2" using key_ref_None [of s2] s2(2,4) by (simp_all add: key_count_def count_ok_def)
  then show ?thesis using s2(1,3-6) k(6) by (simp add: same_key_def)
qed

lemma add_key_count:
  assumes "count_ok s" "key_count s = Some c"
  shows "\<exists>r s'. shf_add_key_val n s = Inr (r, s') \<and> count_ok s' \<and> key_count s' = (if c + n = 0 then None else Some (c + n))"
proof -
  obtain s1 where s1: "shf_add_key_val_atom n s = Inr (SHF_RET_KEY_FOUND, s1)" "shf_val_long s1 = c + n" "count_ok s1"
    "key_count s1 = Some (c + n)" using atom_count [OF assms] by blast
  show ?thesis
  proof (cases "c + n = 0")
    case False
    then show ?thesis using s1 by (simp add: shf_add_key_val_def)
  next
    case True
    obtain s2 where "shf_del_key_val s1 = Inr (SHF_RET_KEY_FOUND, s2)" "count_ok s2" "key_count s2 = None"
      using del_count [OF s1(3,4)] by blast
    then show ?thesis using s1 True by (auto simp: shf_add_key_val_def)
  qed
qed

interpretation ref_count: counter count_ok key_count shf_add_key_val
  by unfold_locales (rule add_key_count)

lemma demo1_count: "count_ok demo1" "key_count demo1 = Some 578437695752307201"
proof -
  obtain ref where r: "kv (lens_of demo1) demo1 = [(120, 1414, 247, ref) \<mapsto> (137628, [97], [1, 2, 3, 4, 5, 6, 7, 8])]"
    using demo1_ok(9) by blast
  have at: "key_at demo1 x = (if x = ref then Some [1, 2, 3, 4, 5, 6, 7, 8] else None)" for x
    unfolding key_at_def r demo1_ok(5,6) demo_hash by simp
  obtain ref' where k': "key_ref demo1 = Some ref'" using demo1_key_ref by blast
  then have "key_at demo1 ref' \<noteq> None" using key_at_ref by blast
  then have k: "key_ref demo1 = Some ref" using k' by (simp add: at split: if_splits)
  have "long_of [1, 2, 3, 4, 5, 6, 7, 8] = 578437695752307201"
    by (simp add: long_of_def long_at_def SHF_U32_AT_def)
  then show "key_count demo1 = Some 578437695752307201" by (simp add: key_count_def k at)
  show "count_ok demo1" using demo1_ok(1,7) by (simp add: count_ok_def k at split: if_splits)
qed



section \<open>Addresses, updates and UIDs that name nothing\<close>

text \<open>
  The address form of a read points into the mapped tab file: the bytes there are the stored
  value, until the table is next changed.
\<close>

theorem get_uid_val_addr_points:
  assumes "shf_ok s" "uid \<noteq> SHF_UID_NONE" "kv (lens_of s) s (uid_coord uid) = Some (rnd, k, v)"
  shows "\<exists>s' i a b. shf_get_uid_val_addr uid s = Inr (SHF_RET_KEY_FOUND, s') \<and> shf_ok s'
     \<and> kv (lens_of s) s' = kv (lens_of s) s
     \<and> shf_val_addr s' = Some (i, a) \<and> mem_bytes (tab_data (inode s' i)) a (length v) = v
     \<and> shf_key_addr s' = Some (i, b) \<and> mem_bytes (tab_data (inode s' i)) b (length k) = k"
proof -
  obtain win tab2 row ref tab i s1 where f:
    "shf_get_uid_val_addr uid s = found_key SHF_FIND_KEY_OR_UID_ADDR no_upd win tab i row ref (length k) (length v) s1"
    "looked s s1" "located win tab2 i row ref rnd k v s1"
    using del_uid_find [OF assms, of SHF_FIND_KEY_OR_UID_ADDR no_upd] unfolding shf_get_uid_val_addr_def by metis
  obtain a where a: "shf_val_addr s1 = Some (i, a)" "mem_bytes (tab_data (inode s1 i)) a (length v) = v"
    using located_val [OF f(3)] .
  obtain b where b: "shf_key_addr s1 = Some (i, b)" "mem_bytes (tab_data (inode s1 i)) b (length k) = k"
    using located_key [OF f(3)] .
  have "shf_get_uid_val_addr uid s = Inr (SHF_RET_KEY_FOUND, s1)"
    unfolding f(1) by (simp add: found_key_def a split: prod.split)
  then show ?thesis using a b f(2) by (auto simp: looked_def)
qed

theorem get_uid_val_addr_points_witness:
  "\<exists>s' i a. shf_get_uid_val_addr (shf_uid demo1) demo1 = Inr (SHF_RET_KEY_FOUND, s') \<and> shf_val_addr s' = Some (i, a)
     \<and> mem_bytes (tab_data (inode s' i)) a 8 = [1, 2, 3, 4, 5, 6, 7, 8]"
proof -
  have "length [1 :: byte, 2, 3, 4, 5, 6, 7, 8] = 8" by simp
  then show ?thesis using get_uid_val_addr_points [OF demo1_ok(1,4,10)] by metis
qed

text \<open>
  An update by UID with the copying callback: a preset value of the same length replaces the
  stored value in place; one of another length leaves it, and the result has
  \<open>SHF_RET_BAD_CB\<close> set. Nothing else that is stored changes.
\<close>

theorem upd_uid_val_copies:
  assumes "shf_ok s" "shf_upd_callback_failsafe s = 0" "uid \<noteq> SHF_UID_NONE"
    "kv (lens_of s) s (uid_coord uid) = Some (rnd, k, v)"
  shows "\<exists>res s'. shf_upd_uid_val uid (shf_upd_callback_copy preset) s = Inr (res, s') \<and> shf_ok s'
     \<and> shf_upd_callback_failsafe s' = 0
     \<and> (if length preset = length v
        then res = SHF_RET_KEY_FOUND \<and> kv (lens_of s) s' = (kv (lens_of s) s)(uid_coord uid \<mapsto> (rnd, k, preset))
        else res = SHF_RET_KEY_FOUND OR SHF_RET_BAD_CB \<and> kv (lens_of s) s' = kv (lens_of s) s)"
proof -
  obtain win tab2 row ref tab i s1 where f: "uid_coord uid = (win, tab2, row, ref)"
    "shf_upd_uid_val uid (shf_upd_callback_copy preset) s
      = found_key SHF_FIND_KEY_OR_UID_AND_UPDATE (shf_upd_callback_copy preset) win tab i row ref (length k) (length v) s1"
    "looked s s1" "located win tab2 i row ref rnd k v s1"
    using del_uid_find [OF assms(1,3,4)] unfolding shf_upd_uid_val_def by metis
  have l: "shf_upd_callback_failsafe s1 = 0" "lens_of s1 = lens_of s" "kv (lens_of s) s1 = kv (lens_of s) s"
    using f(3) assms(2) by (simp_all add: looked_def)
  obtain res bs where u: "shf_upd_callback_copy preset v = (res, bs)" "length bs = length v"
    "res = (if length preset = length v then SHF_RET_OK else SHF_RET_BAD_CB)" "bs = (if length preset = length v then preset else v)"
    by (auto simp: shf_upd_callback_copy_def)
  obtain s' where "shf_upd_uid_val uid (shf_upd_callback_copy preset) s = Inr (SHF_RET_KEY_FOUND OR res, s')" "shf_ok s'"
    "shf_upd_callback_failsafe s' = 0" "kv (lens_of s) s' = (kv (lens_of s) s)(uid_coord uid \<mapsto> (rnd, k, bs))"
    using found_update_ok [where upd = "shf_upd_callback_copy preset" and tab = tab, OF f(4) l(1) u(1,2)]
    unfolding f(1,2) l(2,3) by blast
  then show ?thesis using assms(4) by (cases "length preset = length v") (simp_all add: u(3,4) SHF_RET_OK_def fun_upd_idem)
qed

theorem upd_uid_val_copies_witness:
  "\<exists>s'. shf_upd_uid_val (shf_uid demo1) (shf_upd_callback_copy [9, 9, 9, 9, 9, 9, 9, 9]) demo1 = Inr (SHF_RET_KEY_FOUND, s')
     \<and> kv (lens_of demo1) s' (uid_coord (shf_uid demo1)) = Some (137628, [97], [9, 9, 9, 9, 9, 9, 9, 9])"
  using upd_uid_val_copies [OF demo1_ok(1,8,4,10), of "[9, 9, 9, 9, 9, 9, 9, 9]"] by auto

text \<open>
  An update of a record that is there, asked for while an update callback runs in the same
  thread, is refused by the failsafe before anything is changed.
\<close>

theorem upd_uid_val_not_recursive:
  assumes "shf_ok s" "shf_upd_callback_failsafe s = 1" "uid \<noteq> SHF_UID_NONE" "kv (lens_of s) s (uid_coord uid) \<noteq> None"
  shows "shf_upd_uid_val uid upd s = Inl Upd_recursive"
proof -
  obtain rnd k v where "kv (lens_of s) s (uid_coord uid) = Some (rnd, k, v)" using assms(4) by auto
  then obtain win tab2 row ref tab i s1 where f: "shf_upd_uid_val uid upd s
      = found_key SHF_FIND_KEY_OR_UID_AND_UPDATE upd win tab i row ref (length k) (length v) s1" "looked s s1"
    using del_uid_find [OF assms(1,3)] unfolding shf_upd_uid_val_def by metis
  show ?thesis unfolding f(1) by (rule found_update_recursive) (use f(2) assms(2) in \<open>simp add: looked_def\<close>)
qed

theorem upd_uid_val_not_recursive_witness:
  "shf_upd_uid_val (shf_uid demo1) no_upd (demo1\<lparr>shf_upd_callback_failsafe := 1\<rparr>) = Inl Upd_recursive"
proof -
  let ?s = "demo1\<lparr>shf_upd_callback_failsafe := 1\<rparr>"
  have "same_store demo1 ?s" by (simp add: same_store_def)
  note S = same_storeD [OF this]
  have "shf_ok ?s" "shf_upd_callback_failsafe ?s = 1" "kv (lens_of ?s) ?s (uid_coord (shf_uid demo1)) \<noteq> None"
    using demo1_ok(1,10) by (simp_all only: S) simp_all
  then show ?thesis using upd_uid_val_not_recursive demo1_ok(4) by blast
qed

text \<open>
  A UID whose record has been deleted, or that never had one, is found by no operation: every one
  of them returns \<open>SHF_RET_KEY_NONE\<close> and changes nothing that is stored.
\<close>

theorem missing_uid_is_none:
  assumes "shf_ok s" "uid \<noteq> SHF_UID_NONE" "kv (lens_of s) s (uid_coord uid) = None"
    "f \<in> {shf_get_uid_val_addr uid, shf_get_uid_key_copy uid, shf_get_uid_val_copy uid, shf_del_uid_val uid,
       shf_upd_uid_val uid upd, shf_add_uid_val uid add}"
  shows "\<exists>s'. f s = Inr (SHF_RET_KEY_NONE, s') \<and> shf_ok s' \<and> shf_val_addr s' = None \<and> kv (lens_of s) s' = kv (lens_of s) s"
proof -
  have find: "\<exists>s'. shf_find_key_internal uid what upd s = Inr (SHF_RET_KEY_NONE, s') \<and> shf_ok s' \<and> shf_val_addr s' = None
      \<and> kv (lens_of s) s' = kv (lens_of s) s" if "shf_ok s" "kv (lens_of s) s (uid_coord uid) = None" for what upd s
    using find_by_uid [OF that(1) assms(2), of _ _ _ _ what upd] that(2) by (cases "uid_coord uid") (auto simp: looked_def)
  have "same_store s (s\<lparr>shf_val_long := add\<rparr>)" by (simp add: same_store_def)
  note S = same_storeD [OF this]
  have "\<exists>s'. shf_add_uid_val uid add s = Inr (SHF_RET_KEY_NONE, s') \<and> shf_ok s' \<and> shf_val_addr s' = None
      \<and> kv (lens_of s) s' = kv (lens_of s) s"
    using find [of "s\<lparr>shf_val_long := add\<rparr>" SHF_FIND_KEY_OR_UID_AND_ATOM_ADD no_upd] assms(1,3)
    by (fastforce simp: S shf_add_uid_val_def shf_add_uid_val_atom_def SHF_RET_KEY_FOUND_def SHF_RET_KEY_NONE_def)
  then show ?thesis using assms(4) find [OF assms(1,3)]
    by (auto simp: shf_get_uid_val_addr_def shf_get_uid_key_copy_def shf_get_uid_val_copy_def shf_del_uid_val_def shf_upd_uid_val_def)
qed

theorem missing_uid_is_none_witness:
  "\<exists>s'. shf_del_uid_val 7 demo = Inr (SHF_RET_KEY_NONE, s') \<and> shf_ok s'"
proof -
  have "7 \<noteq> SHF_UID_NONE" by (simp add: shf_const_eq)
  moreover have "kv (lens_of demo) demo (uid_coord 7) = None" by (simp add: demo_ok)
  ultimately show ?thesis
    using missing_uid_is_none [OF demo_ok(1), of 7 "shf_del_uid_val 7" no_upd 0] by auto
qed

section \<open>Shrinking and splitting tables\<close>

text \<open>
  C6. Shrinking a table replaces its file by one without garbage: every record of the instance keeps
  its place and its bytes, no table index is redirected, and no byte of the table is free. A process
  that had the old file mapped notices at its next access (\<open>coherent\<close>).
\<close>

theorem shrink_preserves_store:
  assumes "shf_ok s" "win < 256" "tab < tabs_used (wins s win)" "shf_room n s"
  shows "\<exists>s'. shf_tab_shrink win tab s = Inr s' \<and> shf_ok s' \<and> kv (lens_of s) s' = kv (lens_of s) s
     \<and> (\<forall>m. coherent s m \<longrightarrow> coherent s' m)
     \<and> win_tabs (wins s' win) = win_tabs (wins s win) \<and> tab_data_free (table s' win tab) = 0"
proof -
  obtain s' where s': "shf_tab_shrink win tab s = Inr s'" "quiet s s'" "same_routes s s'" "tab_data_free (table s' win tab) = 0"
    using shf_tab_shrink_ok [OF assms] by blast
  have "lens_of s' = lens_of s" using s'(2) same_threadD(2) by (simp add: quiet_def)
  then show ?thesis using s' by (auto simp: quiet_def same_routes_def)
qed

theorem shrink_preserves_store_witness:
  "\<exists>s'. shf_tab_shrink 120 (win_tabs (wins demo1 120) 1414) demo1 = Inr s'
     \<and> kv (lens_of demo1) s' (uid_coord (shf_uid demo1)) = Some (137628, [97], [1, 2, 3, 4, 5, 6, 7, 8])"
proof -
  have "win_tabs (wins demo1 120) 1414 < tabs_used (wins demo1 120)"
    using files_okD(8) [OF shf_okD(2) [OF demo1_ok(1)]] by simp
  from shrink_preserves_store [OF demo1_ok(1) _ this demo1_ok(2)] show ?thesis using demo1_ok(10) by auto
qed

lemma every_other_length: "length (every_other sw xs) = (if sw then length xs - length xs div 2 else length xs div 2)"
  by (induction sw xs rule: every_other.induct) auto

text \<open>
  C5. Splitting a table that a put has found full: while the window has fewer than 2048 tables, a new
  table gets every second of the table indexes of the old one with their records, and what is
  stored is unchanged. A window that has them all comes too late to its assertion "tab overflow": the file of
  table 2048 has already been created, and \<open>shf->tabs[win]\<close> has no entry for it. The model ends there with the
  error of that assertion; what the program does with the memory past the array is outside of it.
\<close>

theorem part_splits_table:
  assumes "shf_ok s" "win < 256" "tab < tabs_used (wins s win)" "shf_room n s" "get_tab_mmap win tab s = Inr (i, s1)"
  shows "if tabs_used (wins s win) < 2048
     then \<exists>s'. shf_tab_part win tab s1 = Inr s' \<and> shf_ok s' \<and> kv (lens_of s) s' = kv (lens_of s) s
        \<and> (\<forall>m. coherent s m \<longrightarrow> coherent s' m) \<and> tabs_used (wins s' win) = tabs_used (wins s win) + 1
        \<and> (\<forall>t < 2048. win_tabs (wins s' win) t = (if t \<in> set (every_other False (tab2s_of (win_tabs (wins s win)) tab))
             then tabs_used (wins s win) else win_tabs (wins s win) t))
     else shf_tab_part win tab s1 = Inl Tab_overflow \<and> tab_file (shf_tab_create win 2048 s1) win 2048 \<noteq> None
        \<and> get_tab_mmap win 2048 (shf_tab_create win 2048 s1) = Inl Tab_overflow"
proof -
  note D = shf_okD [OF assms(1)]
  obtain i' s1' where g: "tab_file s win tab = Some i'" "get_tab_mmap win tab s = Inr (i', s1')" "got_tab win tab i' s s1'"
    using get_tab_mmap_ok [OF D(2,4) assms(2,3)] by blast
  then have g: "tab_file s win tab = Some i" "got_tab win tab i s s1" using assms(5) by simp_all
  note G = got_tab_quiet [OF assms(1) g(2,1)]
  note Q = quietD [OF G(1)]
  have r: "same_routes s s1" "tab_file s1 win tab = Some i" using g by (simp_all add: got_tab_def)
  have w: "tabs_used (wins s1 win) = tabs_used (wins s win)" "win_tabs (wins s1 win) = win_tabs (wins s win)"
    using r by (simp_all add: same_routes_def)
  have room: "shf_room n s1"
    using set_table_table [OF G(2) D(2)] by (intro shf_room_mono [OF assms(4) Q(1)]) (auto simp: init_of_def table_Some [OF g(1)])
  show ?thesis
  proof (cases "tabs_used (wins s win) < 2048")
    case True
    have "off_mmap (tabs s1 win tab) = i" using G(3) by (simp add: mapped_def)
    moreover have "tab_size (inode s1 i) \<noteq> 0" using tab_ok_size_nonzero [OF G(4)] by simp
    ultimately obtain s' where s': "shf_tab_part win tab s1 = Inr s'" "quiet s1 s'"
      "tabs_used (wins s' win) = tabs_used (wins s win) + 1"
      "win_tabs (wins s' win) = split_routes (win_tabs (wins s win)) tab (tabs_used (wins s win))"
      using shf_tab_part_ok [OF Q(2) assms(2) r(2) _ _ room] True w by auto
    note Q' = quiet_trans [OF G(1) s'(2)]
    have "lens_of s' = lens_of s" using Q' same_threadD(2) by (simp add: quiet_def)
    then show ?thesis using s' Q' True by (auto simp: quiet_def split_routes_def)
  next
    case False
    then have "tabs_used (wins s1 win) = 2048" using files_okD(5) [OF D(2) assms(2)] w by simp
    moreover have "get_tab_mmap win 2048 (shf_tab_create win 2048 s1) = Inl Tab_overflow"
      by (simp add: get_tab_mmap_def shf_const_eq assertE_def)
    ultimately show ?thesis using shf_tab_part_full [OF Q(2) assms(2)] full_leaves_file False by simp
  qed
qed

theorem part_splits_table_witness:
  "\<exists>i s1 s'. get_tab_mmap 0 0 demo = Inr (i, s1) \<and> shf_tab_part 0 0 s1 = Inr s' \<and> tabs_used (wins s' 0) = 2"
proof -
  obtain i s1 where g: "get_tab_mmap 0 0 demo = Inr (i, s1)"
    using get_tab_mmap_ok [OF shf_okD(2,4) [OF demo_ok(1)], of 0 0] demo_ok(8) [of 0] by auto
  show ?thesis using part_splits_table [OF demo_ok(1) _ _ demo_ok(2) g] g by (auto simp: demo_ok)
qed

end
