(* ===== verification/Shf_Dict.thy ===== *)
theory Shf_Dict
  imports Shf_Store
begin

text \<open>
  The store as a dictionary: what the callers inside the program (queues, races, the log) rely on when
  they keep their own data under keys. A key is looked up by its hash; the interface below says what
  putting, reading and deleting a key do to the dictionary, and the model implements it while no key is
  stored twice and no row of references is about to be full.
\<close>

section \<open>The dictionary\<close>

definition key_hash :: "byte list \<Rightarrow> shf_hash" where
  "key_hash key = (let (h1, h2) = MurmurHash3_x64_128 key 12345 in \<lparr>hash_u64_0 = h1, hash_u64_1 = h2\<rparr>)"

definition place :: "byte list \<Rightarrow> nat \<Rightarrow> coord" where
  "place key ref = (hash_win (key_hash key), hash_tab2 (key_hash key), hash_row (key_hash key), ref)"

text \<open>The value that the reference \<open>ref\<close> of the row of a key holds for the key.\<close>

definition entry :: "shf \<Rightarrow> byte list \<Rightarrow> nat \<Rightarrow> byte list option" where
  "entry s key ref = (case kv (lens_of s) s (place key ref) of
     None \<Rightarrow> None | Some (rnd, k, v) \<Rightarrow> if rnd = hash_rnd (key_hash key) \<and> k = key then Some v else None)"

definition holds_key :: "shf \<Rightarrow> byte list \<Rightarrow> nat \<Rightarrow> bool" where
  "holds_key s key ref \<longleftrightarrow> entry s key ref \<noteq> None"

definition ref_of :: "shf \<Rightarrow> byte list \<Rightarrow> nat option" where
  "ref_of s key = find (holds_key s key) [0..<16]"

definition dict :: "shf \<Rightarrow> byte list \<Rightarrow> byte list option" where
  "dict s key = Option.bind (ref_of s key) (entry s key)"

definition unique_keys :: "shf \<Rightarrow> bool" where
  "unique_keys s \<longleftrightarrow> (\<forall>key r r'. r < 16 \<and> r' < 16 \<and> holds_key s key r \<and> holds_key s key r' \<longrightarrow> r = r')"

text \<open>The references in use in one row of all tables of a window.\<close>

definition row_refs :: "shf \<Rightarrow> nat \<Rightarrow> nat \<Rightarrow> (nat \<times> nat) set" where
  "row_refs s win row = {(t, ref). t < 2048 \<and> ref < 16 \<and> kv (lens_of s) s (win, t, row, ref) \<noteq> None}"

text \<open>Memory for records of \<open>n\<close> bytes and, in every row, references for \<open>r\<close> of them and one to spare.\<close>

definition dict_ok :: "nat \<Rightarrow> nat \<Rightarrow> shf \<Rightarrow> bool" where
  "dict_ok n r s \<longleftrightarrow> shf_ok s \<and> shf_room n s \<and> \<not> is_fixed_key_val_len s \<and> shf_ttl s = 0 \<and> unique_keys s
     \<and> (\<forall>win < 256. \<forall>row < 512. card (row_refs s win row) + r \<le> 15)"

lemma make_hash_key:
  "the_hash (shf_make_hash (Some key) s) = key_hash key"
  "is_fixed_key_val_len (shf_make_hash (Some key) s) = is_fixed_key_val_len s"
  "tab_file (shf_make_hash (Some key) s) = tab_file s" "inode (shf_make_hash (Some key) s) = inode s"
  by (simp_all add: shf_make_hash_def key_hash_def split: prod.split)

lemma key_ref_entry: "key_ref (shf_make_hash (Some key) s) = ref_of s key"
proof -
  have "(\<lambda>ref. case kv (lens_of s) s (hash_win (key_hash key), hash_tab2 (key_hash key), hash_row (key_hash key), ref) of None \<Rightarrow> False
      | Some (rnd, k, v) \<Rightarrow> rnd = hash_rnd (key_hash key) \<and> k = key) = holds_key s key"
    by (auto simp: entry_def holds_key_def place_def fun_eq_iff split: option.split)
  then show ?thesis unfolding key_ref_def make_hash_key make_hash_ok shf_const_eq ref_of_def by simp
qed

lemma ref_of_Some: "ref_of s key = Some ref \<Longrightarrow> ref < 16 \<and> holds_key s key ref"
  by (auto simp: ref_of_def find_Some_iff)

lemma ref_of_None: "ref_of s key = None \<longleftrightarrow> (\<forall>ref < 16. \<not> holds_key s key ref)"
  by (auto simp: ref_of_def find_None_iff)

lemma dict_None: "dict s key = None \<longleftrightarrow> ref_of s key = None"
  using ref_of_Some [of s key] by (cases "ref_of s key") (auto simp: dict_def holds_key_def)

lemma dict_Some:
  assumes "ref_of s key = Some ref"
  obtains v where "dict s key = Some v" "entry s key ref = Some v"
    "kv (lens_of s) s (place key ref) = Some (hash_rnd (key_hash key), key, v)"
proof -
  obtain v where v: "entry s key ref = Some v" using ref_of_Some [OF assms] by (auto simp: holds_key_def)
  moreover have "kv (lens_of s) s (place key ref) = Some (hash_rnd (key_hash key), key, v)"
    using v by (auto simp: entry_def split: option.splits if_splits)
  moreover have "dict s key = Some v" by (simp add: dict_def assms v)
  ultimately show ?thesis using that by blast
qed

lemma dict_eqI:
  assumes "entry s' key = entry s key"
  shows "dict s' key = dict s key"
  by (simp add: dict_def ref_of_def holds_key_def [abs_def] assms)

lemma dict_only:
  assumes "ref < 16" "entry s key ref = Some v" "\<And>r. r < 16 \<Longrightarrow> holds_key s key r \<Longrightarrow> r = ref"
  shows "dict s key = Some v"
proof -
  have "ref_of s key = Some ref" unfolding ref_of_def
  proof (rule find_unique)
    show "holds_key s key ref" by (simp add: holds_key_def assms(2))
    show "r = ref" if "r \<in> set [0..<16]" "holds_key s key r" for r using that by (intro assms(3)) simp_all
  qed (simp add: assms(1))
  then show ?thesis by (simp add: dict_def assms(2))
qed

lemma unique_keysD: "unique_keys s \<Longrightarrow> r < 16 \<Longrightarrow> r' < 16 \<Longrightarrow> holds_key s key r \<Longrightarrow> holds_key s key r' \<Longrightarrow> r = r'"
  unfolding unique_keys_def by blast

text \<open>Operations that leave what is stored alone.\<close>

lemma dict_same:
  assumes "kv (lens_of s) s' = kv (lens_of s) s" "lens_of s' = lens_of s"
  shows "dict s' = dict s" "unique_keys s' = unique_keys s" "row_refs s' = row_refs s"
proof -
  have e: "entry s' = entry s" by (intro ext) (simp only: entry_def assms)
  show "dict s' = dict s" by (intro ext dict_eqI) (simp only: e)
  show "unique_keys s' = unique_keys s" by (simp add: unique_keys_def holds_key_def e)
  show "row_refs s' = row_refs s" by (intro ext) (simp only: row_refs_def assms)
qed

text \<open>Changing the record of one reference.\<close>

lemma place_inj: "place k r = place k r' \<longleftrightarrow> r = r'"
  by (simp add: place_def)

lemma entry_insert:
  assumes kv: "kv (lens_of s) s' = (kv (lens_of s) s)(place key ref \<mapsto> (hash_rnd (key_hash key), key, v))"
    and L: "lens_of s' = lens_of s"
    and old: "kv (lens_of s) s (place key ref) = None \<or> holds_key s key ref"
  shows "entry s' key = (entry s key)(ref \<mapsto> v)" "k \<noteq> key \<Longrightarrow> entry s' k = entry s k"
proof -
  have E: "entry s' k r = (if place k r = place key ref then if k = key then Some v else None else entry s k r)" for k r
    by (simp add: entry_def kv L)
  show "entry s' key = (entry s key)(ref \<mapsto> v)" by (simp add: fun_eq_iff E place_inj)
  assume k: "k \<noteq> key"
  have "entry s k r = None" if "place k r = place key ref" for r
    using old k that by (auto simp: entry_def holds_key_def split: option.splits if_splits)
  then show "entry s' k = entry s k" using k by (auto simp: fun_eq_iff E)
qed

lemma entry_remove:
  assumes kv: "kv (lens_of s) s' = (kv (lens_of s) s)(place key ref := None)"
    and L: "lens_of s' = lens_of s" and old: "holds_key s key ref"
  shows "entry s' key = (entry s key)(ref := None)" "k \<noteq> key \<Longrightarrow> entry s' k = entry s k"
proof -
  have E: "entry s' k r = (if place k r = place key ref then None else entry s k r)" for k r
    by (simp add: entry_def kv L)
  show "entry s' key = (entry s key)(ref := None)" by (simp add: fun_eq_iff E place_inj)
  assume k: "k \<noteq> key"
  have "entry s k r = None" if "place k r = place key ref" for r
    using old k that by (auto simp: entry_def holds_key_def split: option.splits if_splits)
  then show "entry s' k = entry s k" using k by (auto simp: fun_eq_iff E)
qed

lemma unique_keysI:
  assumes u: "unique_keys s" and oth: "\<And>k. k \<noteq> key \<Longrightarrow> entry s' k = entry s k"
    and own: "\<And>r. r < 16 \<Longrightarrow> holds_key s' key r \<Longrightarrow> r = ref"
  shows "unique_keys s'"
  unfolding unique_keys_def
proof (intro allI impI)
  fix k r r' assume a: "r < 16 \<and> r' < 16 \<and> holds_key s' k r \<and> holds_key s' k r'"
  show "r = r'"
  proof (cases "k = key")
    case True
    then have "r = ref" "r' = ref" using own a by blast+
    then show ?thesis by simp
  next
    case False
    then have "holds_key s' k = holds_key s k" by (simp add: holds_key_def fun_eq_iff oth)
    then show ?thesis using unique_keysD [OF u, of r r' k] a by simp
  qed
qed

lemma dict_insert:
  assumes kv: "kv (lens_of s) s' = (kv (lens_of s) s)(place key ref \<mapsto> (hash_rnd (key_hash key), key, v))"
    and L: "lens_of s' = lens_of s" and ref: "ref < 16" and u: "unique_keys s"
    and old: "kv (lens_of s) s (place key ref) = None \<and> dict s key = None \<or> holds_key s key ref"
  shows "dict s' = (dict s)(key \<mapsto> v)" "unique_keys s'"
proof -
  have "kv (lens_of s) s (place key ref) = None \<or> holds_key s key ref" using old by blast
  note E = entry_insert [OF kv L this]
  have one: "r = ref" if r: "r < 16" "holds_key s' key r" for r
  proof (rule ccontr)
    assume n: "r \<noteq> ref"
    then have h: "holds_key s key r" using r(2) by (simp add: holds_key_def E)
    from old show False
    proof
      assume "kv (lens_of s) s (place key ref) = None \<and> dict s key = None"
      then have "ref_of s key = None" by (simp add: dict_None)
      then show False using h r(1) unfolding ref_of_None by blast
    next
      assume "holds_key s key ref"
      then show False using unique_keysD [OF u r(1) ref h] n by blast
    qed
  qed
  have "dict s' key = Some v" by (rule dict_only [OF ref]) (simp_all add: E one)
  then show "dict s' = (dict s)(key \<mapsto> v)" using dict_eqI [OF E(2)] by (simp add: fun_eq_iff)
  show "unique_keys s'" by (rule unique_keysI [OF u E(2) one])
qed

lemma dict_remove:
  assumes kv: "kv (lens_of s) s' = (kv (lens_of s) s)(place key ref := None)"
    and L: "lens_of s' = lens_of s" and ref: "ref < 16" and u: "unique_keys s" and old: "holds_key s key ref"
  shows "dict s' = (dict s)(key := None)" "unique_keys s'"
proof -
  note E = entry_remove [OF kv L old]
  have none: "\<not> holds_key s' key r" if r: "r < 16" for r
  proof (cases "r = ref")
    case False
    then have "\<not> holds_key s key r" using unique_keysD [OF u r ref _ old] by blast
    then show ?thesis using False by (simp add: holds_key_def E)
  qed (simp add: holds_key_def E)
  then have "dict s' key = None" by (simp add: dict_None ref_of_None)
  then show "dict s' = (dict s)(key := None)" using dict_eqI [OF E(2)] by (simp add: fun_eq_iff)
  show "unique_keys s'" by (rule unique_keysI [where ref = ref, OF u E(2)]) (use none in blast)+
qed

section \<open>What the operations do to the dictionary\<close>

lemma dict_okD:
  assumes "dict_ok n r s"
  shows "shf_ok s" "shf_room n s" "\<not> is_fixed_key_val_len s" "shf_ttl s = 0" "unique_keys s" "len_len (lens_of s) = 4"
    "win < 256 \<Longrightarrow> row < 512 \<Longrightarrow> card (row_refs s win row) + r \<le> 15"
  using assms by (simp_all add: dict_ok_def lens_of_def)

lemma finite_row_refs [simp]: "finite (row_refs s win row)"
  by (rule finite_subset [of _ "{..<2048} \<times> {..<16}"]) (auto simp: row_refs_def)

text \<open>In a full row all 16 references of a table count, so a row with fewer in use has a free one below.\<close>

lemma row_has_free:
  assumes ok: "shf_ok s" and b: "win < 256" "row < 512" and few: "card (row_refs s win row) \<le> 14"
  shows "\<exists>ref < 15. free_ref row (table s win tab) = Some ref"
proof -
  let ?L = "lens_of s" and ?t = "table s win tab"
  have R: "routed (wins s win) tab ?t" using shf_okD(3) [OF ok] b(1) by (simp add: routes_ok_def shf_const_eq)
  have used: "\<exists>t. (t, ref) \<in> row_refs s win row" if u: "ref < 16" "(row, ref) \<in> live ?t" for ref
  proof -
    obtain t rnd k v where sl: "slot ?L ?t (row, ref) = Some (t, rnd, k, v)"
      using u(2) slot_None_iff [of ?L ?t "(row, ref)"] by (cases "slot ?L ?t (row, ref)") auto
    then have "t < 2048" "win_tabs (wins s win) t = tab" using R unfolding routed_slot [of _ _ _ ?L] by blast+
    then have "(t, ref) \<in> row_refs s win row" using u(1) sl by (simp add: row_refs_def kv_eq)
    then show ?thesis by blast
  qed
  have "\<not> (\<forall>ref < 15. (row, ref) \<in> live ?t)"
  proof
    assume all: "\<forall>ref < 15. (row, ref) \<in> live ?t"
    have "{..<15} \<subseteq> snd ` row_refs s win row"
    proof
      fix ref :: nat assume "ref \<in> {..<15}"
      then obtain t where "(t, ref) \<in> row_refs s win row" using used [of ref] all by auto
      then show "ref \<in> snd ` row_refs s win row" by (metis image_eqI snd_conv)
    qed
    then have "card {..<15 :: nat} \<le> card (row_refs s win row)"
      by (meson card_image_le card_mono finite_imageI finite_row_refs le_trans)
    then show False using few by simp
  qed
  then obtain r0 where r0: "r0 < 15" "(row, r0) \<notin> live ?t" by blast
  have nl: "(row, ref) \<in> live ?t \<longleftrightarrow> ref_pos (tab_row ?t row ref) \<noteq> 0" if "ref < 16" for ref
    using b(2) that by (simp add: live_def slots_def slot_pos_def shf_const_eq)
  have z: "ref_pos (tab_row ?t row r0) = 0" using r0 nl [of r0] by simp
  moreover have "r0 < 16" using r0(1) by simp
  ultimately have "free_ref row ?t \<noteq> None" unfolding free_ref_None by blast
  then obtain ref where f: "free_ref row ?t = Some ref" by blast
  have "ref \<le> r0"
  proof (rule ccontr)
    assume "\<not> ref \<le> r0"
    then have "r0 < ref" by simp
    then show False using f z by (auto simp: free_ref_def find_Some_iff shf_const_eq)
  qed
  then show ?thesis using f r0(1) by auto
qed

lemma uid_mk_some: "win < 256 \<Longrightarrow> tab2 < 2048 \<Longrightarrow> row < 512 \<Longrightarrow> ref < 15 \<Longrightarrow> mk_uid win tab2 row ref \<noteq> SHF_UID_NONE"
proof
  assume b: "win < 256" "tab2 < 2048" "row < 512" "ref < 15" and "mk_uid win tab2 row ref = SHF_UID_NONE"
  then have "uid_coord SHF_UID_NONE = (win, tab2, row, ref)" using uid_coord_mk [of win tab2 row ref] by simp
  then show False using b(4) by (simp add: uid_coord_def uid_as_part_def shf_const_eq Let_def)
qed

text \<open>A UID that names the reference under which a key is stored.\<close>

definition refers :: "shf \<Rightarrow> nat \<Rightarrow> byte list \<Rightarrow> bool" where
  "refers s uid key \<longleftrightarrow> uid \<noteq> SHF_UID_NONE \<and> (\<exists>ref < 16. uid_coord uid = place key ref \<and> holds_key s key ref)"

lemma refers_keep:
  assumes "refers s uid k" "\<And>r. holds_key s k r \<Longrightarrow> holds_key s' k r"
  shows "refers s' uid k"
  using assms unfolding refers_def by blast

lemma refers_kv:
  assumes "refers s uid key" "unique_keys s"
  obtains v where "dict s key = Some v" "kv (lens_of s) s (uid_coord uid) = Some (hash_rnd (key_hash key), key, v)"
proof -
  obtain ref where r: "ref < 16" "uid_coord uid = place key ref" "holds_key s key ref"
    using assms(1) by (auto simp: refers_def)
  then obtain v where v: "entry s key ref = Some v" by (auto simp: holds_key_def)
  have "dict s key = Some v"
    by (rule dict_only [OF r(1) v]) (use unique_keysD [OF assms(2) _ r(1) _ r(3)] in blast)
  moreover have "kv (lens_of s) s (place key ref) = Some (hash_rnd (key_hash key), key, v)"
    using v by (auto simp: entry_def split: option.splits if_splits)
  ultimately show ?thesis using that r(2) by simp
qed

text \<open>Storing data under a new key.\<close>

definition put_at :: "byte list \<Rightarrow> byte list option \<times> nat \<Rightarrow> shf \<Rightarrow> shf_error + nat \<times> shf" where
  "put_at key = (\<lambda>(val, val_len) s. bindE (shf_put_key_val val val_len (shf_make_hash (Some key) s)) (\<lambda>(_, s). Inr (shf_uid s, s)))"

definition meets :: "byte list option \<times> nat \<Rightarrow> byte list \<Rightarrow> bool" where
  "meets d v \<longleftrightarrow> length v = snd d \<and> (\<forall>w. fst d = Some w \<longrightarrow> v = take (snd d) w)
     \<and> (fst d = None \<longrightarrow> v = replicate (snd d) 0)"

definition cost :: "byte list \<Rightarrow> byte list option \<times> nat \<Rightarrow> nat" where
  "cost key d = data_needed 4 (length key) (snd d)"

definition given :: "byte list option \<times> nat \<Rightarrow> bool" where
  "given d \<longleftrightarrow> (\<forall>w. fst d = Some w \<longrightarrow> snd d \<le> length w)"

definition maps_kept :: "shf \<Rightarrow> shf \<Rightarrow> bool" where
  "maps_kept s s' \<longleftrightarrow> (\<forall>m. coherent s m \<longrightarrow> coherent s' m)"

lemma row_refs_insert:
  assumes "kv (lens_of s) s' = (kv (lens_of s) s)((win, t, row, ref) \<mapsto> x)" "lens_of s' = lens_of s"
  shows "card (row_refs s' w r) \<le> Suc (card (row_refs s w r))"
proof -
  have "row_refs s' w r \<subseteq> insert (t, ref) (row_refs s w r)"
    unfolding row_refs_def assms by (auto split: if_splits)
  then have "card (row_refs s' w r) \<le> card (insert (t, ref) (row_refs s w r))" by (rule card_mono [rotated]) simp
  also have "\<dots> \<le> Suc (card (row_refs s w r))" by (rule card_insert_le_m1) simp_all
  finally show ?thesis .
qed

lemma put_at_ok:
  assumes ok: "dict_ok (cost key d + n) (Suc r) s" and new: "dict s key = None" and d: "given d"
  shows "\<exists>v uid s'. put_at key d s = Inr (uid, s') \<and> dict_ok n r s' \<and> dict s' = (dict s)(key \<mapsto> v) \<and> meets d v
     \<and> refers s' uid key \<and> (\<forall>u k. refers s u k \<longrightarrow> refers s' u k) \<and> maps_kept s s'"
proof -
  obtain val vl where dd: "d = (val, vl)" by (cases d)
  note D = dict_okD [OF ok]
  define s1 where "s1 = shf_make_hash (Some key) s"
  let ?w = "hash_win (key_hash key)" and ?t = "hash_tab2 (key_hash key)" and ?r = "hash_row (key_hash key)"
  have s1: "shf_ok s1" "the_hash s1 = key_hash key" "lens_of s1 = lens_of s" "kv L s1 = kv L s" "shf_hash_key s1 = key" for L
    using D(1) by (simp_all add: s1_def make_hash_key)
  have nofix: "\<not> is_fixed_key_val_len s1" "shf_ttl s1 = 0" using D(3,4) by (simp_all add: s1_def make_hash_key)
  have R: "row_refs s1 = row_refs s" "unique_keys s1 = unique_keys s" "dict s1 = dict s" by (rule dict_same [OF s1(4,3)])+
  have "card (row_refs s1 ?w ?r) \<le> 14" using D(7) [of ?w ?r] by (simp add: R)
  then obtain ref where ref: "ref < 15" "free_ref ?r (table s1 ?w (win_tabs (wins s1 ?w) ?t)) = Some ref"
    using row_has_free [OF s1(1), of ?w ?r "win_tabs (wins s1 ?w) ?t"] by auto
  have fits: "fits (lens_of s1) (shf_hash_key s1) val vl" using D(6) d by (simp add: fits_def s1 given_def dd)
  have room: "shf_room (data_needed (len_len (lens_of s1)) (length (shf_hash_key s1)) vl + n) s1"
    using D(2,6) by (simp add: s1 cost_def dd) (simp add: s1_def)
  have pf: "put_fuel = Suc (put_fuel - 1)" by (simp add: put_fuel_def shf_const_eq)
  obtain s2 where s2: "shf_put_key_val val vl s1 = Inr (SHF_RET_KEY_PUT, s2)" "put_done val vl s1 s2" "shf_room n s2"
    "shf_uid s2 = mk_uid ?w ?t ?r ref"
    using put_free_ok [OF s1(1) fits room, of ?w ?t ?r ref "put_fuel - 1"] ref(2) pf
    unfolding shf_put_key_val_def by (auto simp: s1 simp del: put_loop.simps)
  obtain ref' v where p: "ref' < 16" "length v = vl" "\<forall>w. val = Some w \<longrightarrow> v = take vl w" "shf_uid s2 = mk_uid ?w ?t ?r ref'"
    "kv (lens_of s) s (?w, ?t, ?r, ref') = None"
    "kv (lens_of s) s2 = (kv (lens_of s) s)((?w, ?t, ?r, ref') \<mapsto> (hash_rnd (key_hash key), key, v))"
    "shf_ok s2" "\<forall>m. coherent s1 m \<longrightarrow> coherent s2 m" "same_thread s1 (s2\<lparr>shf_uid := shf_uid s1\<rparr>)"
    "val = None \<and> len_len (lens_of s) \<noteq> 0 \<longrightarrow> v = replicate vl 0"
    using s2(2) unfolding put_done_def s1 by blast
  have c: "uid_coord (shf_uid s2) = (?w, ?t, ?r, ref')" unfolding p(4) by (rule uid_coord_mk) (simp_all add: p(1))
  have "uid_coord (shf_uid s2) = (?w, ?t, ?r, ref)" unfolding s2(4) by (rule uid_coord_mk) (use ref(1) in simp_all)
  then have rr: "ref' = ref" using c by simp
  have th: "is_fixed_key_val_len s2 = is_fixed_key_val_len s1" "lens_of s2 = lens_of s1" "shf_ttl s2 = shf_ttl s1"
    using same_threadD(7,2,11) [OF p(9)] by (simp_all add: lens_of_def)
  have L: "lens_of s2 = lens_of s" by (simp add: th s1)
  have kv2: "kv (lens_of s) s2 = (kv (lens_of s) s)(place key ref \<mapsto> (hash_rnd (key_hash key), key, v))"
    "kv (lens_of s) s (place key ref) = None" using p(5,6) by (simp_all add: place_def rr)
  have old: "kv (lens_of s) s (place key ref) = None \<and> dict s key = None \<or> holds_key s key ref" using kv2(2) new by blast
  have ref16: "ref < 16" using ref(1) by simp
  note I = dict_insert [OF kv2(1) L ref16 D(5) old]
  have "card (row_refs s2 w x) + r \<le> 15" if "w < 256" "x < 512" for w x
    using row_refs_insert [OF p(6) L, of w x] D(7) [OF that] by simp
  then have ok2: "dict_ok n r s2" using p(7) s2(3) I(2) th nofix by (simp add: dict_ok_def)
  have E: "holds_key s2 k x" if "holds_key s k x" for k x
  proof -
    have "entry s2 key = (entry s key)(ref \<mapsto> v)" "k \<noteq> key \<Longrightarrow> entry s2 k = entry s k"
      using entry_insert [OF kv2(1) L disjI1, OF kv2(2)] by simp_all
    then show ?thesis using that by (cases "k = key") (auto simp: holds_key_def)
  qed
  have "shf_uid s2 \<noteq> SHF_UID_NONE" unfolding s2(4) by (rule uid_mk_some) (use ref(1) in simp_all)
  moreover have "holds_key s2 key ref"
    using entry_insert(1) [OF kv2(1) L disjI1, OF kv2(2)] by (simp add: holds_key_def)
  ultimately have "refers s2 (shf_uid s2) key" using c ref16 unfolding refers_def rr place_def by blast
  moreover have "refers s2 u k" if "refers s u k" for u k by (rule refers_keep [OF that E])
  moreover have "maps_kept s s2" using p(8) by (simp add: maps_kept_def s1_def)
  moreover have "put_at key d s = Inr (shf_uid s2, s2)" using s2(1) by (simp add: put_at_def dd s1_def)
  moreover have "meets d v" using p(2,3,10) D(6) by (simp add: meets_def dd)
  ultimately show ?thesis using ok2 I(1) by blast
qed

text \<open>Reading the value of a key into the thread's buffer, and deleting a key.\<close>

definition get_at :: "byte list \<Rightarrow> shf \<Rightarrow> shf_error + byte list option \<times> shf" where
  "get_at key s = bindE (shf_get_key_val_copy (shf_make_hash (Some key) s)) (\<lambda>(res, s).
     Inr (if res = SHF_RET_KEY_FOUND then Some (shf_val s) else None, s))"

definition del_at :: "byte list \<Rightarrow> shf \<Rightarrow> shf_error + nat \<times> shf" where
  "del_at key s = shf_del_key_val (shf_make_hash (Some key) s)"

lemma dict_ok_same:
  assumes "dict_ok n r s" "shf_ok s'" "shf_room n s'" "kv (lens_of s) s' = kv (lens_of s) s" "lens_of s' = lens_of s" "shf_ttl s' = 0"
  shows "dict_ok n r s'" "dict s' = dict s" "refers s u k \<Longrightarrow> refers s' u k"
proof -
  note S = dict_same [OF assms(4,5)]
  show "dict s' = dict s" by (fact S(1))
  have "is_fixed_key_val_len s' = is_fixed_key_val_len s" using assms(5) by (auto simp: lens_of_def split: if_splits)
  then show "dict_ok n r s'" using assms(1-3,6) by (simp add: dict_ok_def S)
  have "entry s' = entry s" by (intro ext) (simp only: entry_def assms(4,5))
  then show "refers s' u k" if "refers s u k" using that by (simp add: refers_def holds_key_def)
qed

lemma hashed_ok:
  assumes ok: "dict_ok n r s"
  shows "shf_ok (shf_make_hash (Some key) s)" "lens_of (shf_make_hash (Some key) s) = lens_of s" "kv L (shf_make_hash (Some key) s) = kv L s"
    "shf_room n (shf_make_hash (Some key) s)" "shf_ttl (shf_make_hash (Some key) s) = 0" "maps_kept s (shf_make_hash (Some key) s)"
  using dict_okD [OF ok] by (simp_all add: maps_kept_def)

text \<open>What both searches for a key find.\<close>

lemma find_key:
  assumes ok: "dict_ok n r s"
  shows "case dict s key of
       None \<Rightarrow> \<exists>s'. shf_find_key_internal SHF_UID_NONE what upd (shf_make_hash (Some key) s) = Inr (SHF_RET_KEY_NONE, s')
         \<and> looked (shf_make_hash (Some key) s) s' \<and> shf_uid s' = SHF_UID_NONE \<and> shf_val_addr s' = None
     | Some v \<Rightarrow> \<exists>i ref s'. shf_find_key_internal SHF_UID_NONE what upd (shf_make_hash (Some key) s)
             = found_key what upd (hash_win (key_hash key)) (win_tabs (wins s' (hash_win (key_hash key))) (hash_tab2 (key_hash key))) i
                 (hash_row (key_hash key)) ref (length key) (length v) s'
         \<and> looked (shf_make_hash (Some key) s) s' \<and> ref < 16 \<and> holds_key s key ref
         \<and> located (hash_win (key_hash key)) (hash_tab2 (key_hash key)) i (hash_row (key_hash key)) ref (hash_rnd (key_hash key)) key v s'
         \<and> shf_uid s' = mk_uid (hash_win (key_hash key)) (hash_tab2 (key_hash key)) (hash_row (key_hash key)) ref"
proof (cases "ref_of s key")
  case None
  then have d: "dict s key = None" by (simp add: dict_None)
  have "key_ref (shf_make_hash (Some key) s) = None" by (simp add: key_ref_entry None)
  then show ?thesis using find_by_key [OF hashed_ok(1) [OF ok, where key = key], of what upd] by (simp add: d)
next
  case (Some ref)
  obtain v where v: "dict s key = Some v" "kv (lens_of s) s (place key ref) = Some (hash_rnd (key_hash key), key, v)"
    using dict_Some [OF Some] .
  have kr: "key_ref (shf_make_hash (Some key) s) = Some ref" by (simp add: key_ref_entry Some)
  obtain i v' s' where f: "kv (lens_of s) s (place key ref) = Some (hash_rnd (key_hash key), key, v')"
    "shf_find_key_internal SHF_UID_NONE what upd (shf_make_hash (Some key) s)
       = found_key what upd (hash_win (key_hash key)) (win_tabs (wins (shf_make_hash (Some key) s) (hash_win (key_hash key))) (hash_tab2 (key_hash key))) i
                 (hash_row (key_hash key)) ref (length key) (length v') s'"
    "looked (shf_make_hash (Some key) s) s'"
    "located (hash_win (key_hash key)) (hash_tab2 (key_hash key)) i (hash_row (key_hash key)) ref (hash_rnd (key_hash key)) key v' s'"
    "shf_uid s' = mk_uid (hash_win (key_hash key)) (hash_tab2 (key_hash key)) (hash_row (key_hash key)) ref"
    using find_by_key [OF hashed_ok(1) [OF ok, where key = key], of what upd]
    unfolding kr option.case make_hash_key make_hash_ok place_def by blast
  have "v' = v" using f(1) v(2) by simp
  moreover have "win_tabs (wins (shf_make_hash (Some key) s) (hash_win (key_hash key))) (hash_tab2 (key_hash key))
      = win_tabs (wins s' (hash_win (key_hash key))) (hash_tab2 (key_hash key))"
    using f(3) by (simp add: looked_def same_routes_def)
  ultimately show ?thesis using f(2-5) ref_of_Some [OF Some] unfolding v(1) option.case by metis
qed

lemma looked_dict:
  assumes ok: "dict_ok n r s" and l: "looked (shf_make_hash (Some key) s) s'"
  shows "dict_ok n r s'" "dict s' = dict s" "refers s u k \<Longrightarrow> refers s' u k" "maps_kept s s'" "lens_of s' = lens_of s"
    "kv (lens_of s) s' = kv (lens_of s) s"
proof -
  note H = hashed_ok [OF ok, where key = key]
  have e: "shf_ok s'" "shf_room n s'" "kv (lens_of s) s' = kv (lens_of s) s" "lens_of s' = lens_of s" "shf_ttl s' = 0"
    using l H by (simp_all add: looked_def)
  note S = dict_ok_same [OF ok e]
  show "dict_ok n r s'" "dict s' = dict s" "refers s u k \<Longrightarrow> refers s' u k" by (fact S)+
  show "maps_kept s s'" using l H(6) by (simp add: maps_kept_def looked_def)
  show "lens_of s' = lens_of s" "kv (lens_of s) s' = kv (lens_of s) s" by (fact e)+
qed

lemma get_at_ok:
  assumes ok: "dict_ok n r s"
  shows "\<exists>s'. get_at key s = Inr (dict s key, s') \<and> dict_ok n r s' \<and> dict s' = dict s
     \<and> (\<forall>u k. refers s u k \<longrightarrow> refers s' u k) \<and> maps_kept s s'"
proof (cases "dict s key")
  case None
  obtain s' where "shf_get_key_val_copy (shf_make_hash (Some key) s) = Inr (SHF_RET_KEY_NONE, s')" "looked (shf_make_hash (Some key) s) s'"
    using find_key [OF ok, where key = key and what = SHF_FIND_KEY_OR_UID_AND_COPY_VAL and upd = no_upd] None
    unfolding shf_get_key_val_copy_def by auto
  then show ?thesis using looked_dict [OF ok] None
    by (auto simp: get_at_def SHF_RET_KEY_NONE_def SHF_RET_KEY_FOUND_def)
next
  case (Some v)
  let ?w = "hash_win (key_hash key)" and ?t = "hash_tab2 (key_hash key)" and ?r = "hash_row (key_hash key)"
  obtain i ref s1 where f: "shf_get_key_val_copy (shf_make_hash (Some key) s)
      = found_key SHF_FIND_KEY_OR_UID_AND_COPY_VAL no_upd ?w (win_tabs (wins s1 ?w) ?t) i ?r ref (length key) (length v) s1"
    "looked (shf_make_hash (Some key) s) s1" "located ?w ?t i ?r ref (hash_rnd (key_hash key)) key v s1"
    using find_key [OF ok, where key = key and what = SHF_FIND_KEY_OR_UID_AND_COPY_VAL and upd = no_upd]
    unfolding Some option.case shf_get_key_val_copy_def by blast
  note K = looked_dict [OF ok f(2)]
  obtain s2 where s2: "shf_get_key_val_copy (shf_make_hash (Some key) s) = Inr (SHF_RET_KEY_FOUND, s2)" "copied_out s1 s2"
    "shf_val s2 = v" "shf_room n s2" "shf_ttl s2 = shf_ttl s1"
    using found_copy_val [OF f(3) dict_okD(2) [OF K(1)] refl, of no_upd] unfolding f(1) by blast
  have "shf_ttl s2 = 0" using dict_okD(4) [OF K(1)] s2(5) by simp
  then have "dict_ok n r s2" "dict s2 = dict s1" "\<And>u k. refers s1 u k \<Longrightarrow> refers s2 u k"
    using dict_ok_same [OF K(1), of s2] s2(2,4) by (auto simp: copied_out_def)
  moreover have "maps_kept s s2" using K(4) s2(2) by (simp add: maps_kept_def copied_out_def)
  moreover have "get_at key s = Inr (Some v, s2)" using s2(1,3) by (simp add: get_at_def)
  ultimately show ?thesis using K Some by auto
qed

lemma del_at_ok:
  assumes ok: "dict_ok n r s"
  shows "\<exists>res s'. del_at key s = Inr (res, s') \<and> dict_ok n r s' \<and> dict s' = (dict s)(key := None) \<and> maps_kept s s'
     \<and> res = (if dict s key = None then SHF_RET_KEY_NONE else SHF_RET_KEY_FOUND)"
proof (cases "ref_of s key")
  case None
  then have d: "dict s key = None" by (simp add: dict_None)
  obtain s' where "shf_del_key_val (shf_make_hash (Some key) s) = Inr (SHF_RET_KEY_NONE, s')" "looked (shf_make_hash (Some key) s) s'"
    using find_key [OF ok, where key = key and what = SHF_FIND_KEY_OR_UID_AND_DELETE and upd = no_upd] d
    unfolding shf_del_key_val_def by auto
  then show ?thesis using looked_dict [OF ok] d by (auto simp: del_at_def fun_eq_iff)
next
  case (Some ref)
  note H = hashed_ok [OF ok, where key = key] and D = dict_okD [OF ok]
  have kr: "key_ref (shf_make_hash (Some key) s) = Some ref" by (simp add: key_ref_entry Some)
  have d: "dict s key \<noteq> None" using dict_Some [OF Some] by blast
  obtain s2 where s2: "shf_del_key_val (shf_make_hash (Some key) s) = Inr (SHF_RET_KEY_FOUND, s2)" "shf_ok s2" "maps_kept s s2"
    "lens_of s2 = lens_of s" "shf_ttl s2 = 0" "kv (lens_of s) s2 = (kv (lens_of s) s)(place key ref := None)" "shf_room n s2"
    using del_key_ok [OF H(1,5) kr] H(4,6) unfolding make_hash_key make_hash_ok place_def maps_kept_def by blast
  note R = dict_remove [OF s2(6,4) _ D(5)] ref_of_Some [OF Some]
  have I: "dict s2 = (dict s)(key := None)" "unique_keys s2" using R by blast+
  have "row_refs s2 w x \<subseteq> row_refs s w x" for w x
    unfolding row_refs_def s2(4,6) by (auto split: if_splits)
  then have "card (row_refs s2 w x) \<le> card (row_refs s w x)" for w x by (rule card_mono [rotated]) simp
  then have "card (row_refs s2 w x) + r \<le> 15" if "w < 256" "x < 512" for w x
    using D(7) [OF that] by (meson add_le_mono1 le_trans)
  moreover have "is_fixed_key_val_len s2 = is_fixed_key_val_len s" using s2(4) by (auto simp: lens_of_def split: if_splits)
  ultimately have "dict_ok n r s2" using s2(2,5,7) I(2) D(3) by (simp add: dict_ok_def)
  then show ?thesis unfolding if_not_P [OF d] del_at_def using s2(1,3) I(1) by blast
qed

section \<open>The interface for those who keep data under keys\<close>

text \<open>
  Several keys stored one after the other, with the handles of the values, and several keys deleted.
\<close>

primrec put_list :: "('k \<Rightarrow> 'd \<Rightarrow> 's \<Rightarrow> 'e + 'u \<times> 's) \<Rightarrow> ('k \<times> 'd) list \<Rightarrow> 's \<Rightarrow> 'e + 'u list \<times> 's" where
  "put_list put [] s = Inr ([], s)"
| "put_list put (x # xs) s = bindE (put (fst x) (snd x) s) (\<lambda>(u, s). bindE (put_list put xs s) (\<lambda>(us, s). Inr (u # us, s)))"

primrec del_list :: "('k \<Rightarrow> 's \<Rightarrow> 'e + 'r \<times> 's) \<Rightarrow> 'k list \<Rightarrow> 's \<Rightarrow> 'e + 's" where
  "del_list del [] s = Inr s"
| "del_list del (k # ks) s = bindE (del k s) (\<lambda>(_, s). del_list del ks s)"

text \<open>
  \<open>ok n r\<close>: the store has room for \<open>n\<close> bytes in \<open>r\<close> records. Putting data under a new key stores a value
  that meets the data and gives a handle for it; older handles stay good until their key is deleted;
  and what other processes hold of the store is kept.
\<close>

locale key_store =
  fixes ok :: "nat \<Rightarrow> nat \<Rightarrow> 's \<Rightarrow> bool" and dict :: "'s \<Rightarrow> 'k \<Rightarrow> 'v option" and cost :: "'k \<Rightarrow> 'd \<Rightarrow> nat"
    and given :: "'d \<Rightarrow> bool" and meets :: "'d \<Rightarrow> 'v \<Rightarrow> bool" and refers :: "'s \<Rightarrow> 'u \<Rightarrow> 'k \<Rightarrow> bool"
    and kept :: "'s \<Rightarrow> 's \<Rightarrow> bool" and put :: "'k \<Rightarrow> 'd \<Rightarrow> 's \<Rightarrow> 'e + 'u \<times> 's"
    and get :: "'k \<Rightarrow> 's \<Rightarrow> 'e + 'v option \<times> 's" and del :: "'k \<Rightarrow> 's \<Rightarrow> 'e + 'r \<times> 's"
  assumes put_new: "ok (cost k d + n) (Suc r) s \<Longrightarrow> dict s k = None \<Longrightarrow> given d \<Longrightarrow>
      \<exists>v u s'. put k d s = Inr (u, s') \<and> ok n r s' \<and> dict s' = (dict s)(k \<mapsto> v) \<and> meets d v
        \<and> refers s' u k \<and> (\<forall>u' k'. refers s u' k' \<longrightarrow> refers s' u' k') \<and> kept s s'"
    and get_val: "ok n r s \<Longrightarrow> \<exists>s'. get k s = Inr (dict s k, s') \<and> ok n r s' \<and> dict s' = dict s
        \<and> (\<forall>u' k'. refers s u' k' \<longrightarrow> refers s' u' k') \<and> kept s s'"
    and del_key: "ok n r s \<Longrightarrow> \<exists>x s'. del k s = Inr (x, s') \<and> ok n r s' \<and> dict s' = (dict s)(k := None) \<and> kept s s'"
    and kept_refl: "kept s s"
    and kept_trans: "kept s s' \<Longrightarrow> kept s' s'' \<Longrightarrow> kept s s''"
begin

lemma put_list_ok:
  assumes "ok (sum_list (map (\<lambda>x. cost (fst x) (snd x)) xs) + n) (length xs + r) s"
    "distinct (map fst xs)" "\<forall>x \<in> set xs. dict s (fst x) = None \<and> given (snd x)"
  shows "\<exists>us s'. put_list put xs s = Inr (us, s') \<and> ok n r s' \<and> kept s s'
     \<and> (\<forall>k. k \<notin> fst ` set xs \<longrightarrow> dict s' k = dict s k) \<and> (\<forall>u k. refers s u k \<longrightarrow> refers s' u k)
     \<and> list_all2 (\<lambda>x u. refers s' u (fst x) \<and> (\<exists>v. dict s' (fst x) = Some v \<and> meets (snd x) v)) xs us"
  using assms
proof (induction xs arbitrary: s)
  case Nil
  then show ?case by (simp add: kept_refl)
next
  case (Cons x xs)
  let ?N = "sum_list (map (\<lambda>x. cost (fst x) (snd x)) xs) + n"
  have k: "fst x \<notin> fst ` set xs" using Cons.prems(2) by simp
  have "ok (cost (fst x) (snd x) + ?N) (Suc (length xs + r)) s" using Cons.prems(1) by (simp add: add.assoc)
  then obtain v u s1 where s1: "put (fst x) (snd x) s = Inr (u, s1)" "ok ?N (length xs + r) s1"
    "dict s1 = (dict s)(fst x \<mapsto> v)" "meets (snd x) v" "refers s1 u (fst x)" "\<forall>u k. refers s u k \<longrightarrow> refers s1 u k" "kept s s1"
    using put_new [of "fst x" "snd x" ?N "length xs + r" s] Cons.prems(3) by auto
  have "\<forall>y \<in> set xs. dict s1 (fst y) = None \<and> given (snd y)" using Cons.prems(3) k s1(3) by (auto simp: image_iff)
  then obtain us s' where s': "put_list put xs s1 = Inr (us, s')" "ok n r s'" "kept s1 s'"
    "\<forall>k. k \<notin> fst ` set xs \<longrightarrow> dict s' k = dict s1 k" "\<forall>u k. refers s1 u k \<longrightarrow> refers s' u k"
    "list_all2 (\<lambda>x u. refers s' u (fst x) \<and> (\<exists>v. dict s' (fst x) = Some v \<and> meets (snd x) v)) xs us"
    using Cons.IH [OF s1(2)] Cons.prems(2) by auto
  have "dict s' (fst x) = Some v" using s'(4) k s1(3) by simp
  moreover have "kept s s'" by (rule kept_trans [OF s1(7) s'(3)])
  ultimately show ?case using s1 s' by (intro exI [of _ "u # us"] exI [of _ s']) auto
qed

lemma del_list_ok:
  assumes "ok n r s"
  shows "\<exists>s'. del_list del ks s = Inr s' \<and> ok n r s' \<and> kept s s'
     \<and> dict s' = (\<lambda>k. if k \<in> set ks then None else dict s k)"
  using assms
proof (induction ks arbitrary: s)
  case Nil
  then show ?case by (simp add: kept_refl)
next
  case (Cons k ks)
  obtain x s1 where s1: "del k s = Inr (x, s1)" "ok n r s1" "dict s1 = (dict s)(k := None)" "kept s s1"
    using del_key [OF Cons.prems] by blast
  obtain s' where "del_list del ks s1 = Inr s'" "ok n r s'" "kept s1 s'"
    "dict s' = (\<lambda>k. if k \<in> set ks then None else dict s1 k)"
    using Cons.IH [OF s1(2)] by blast
  moreover from this have "kept s s'" using kept_trans [OF s1(4)] by blast
  ultimately show ?case using s1 by (intro exI [of _ s']) (auto simp: fun_eq_iff)
qed

end

interpretation ks: key_store dict_ok dict cost given meets refers maps_kept put_at get_at del_at
proof
  fix n r s k
  assume "dict_ok n r s"
  from del_at_ok [OF this, of k]
  show "\<exists>x s'. del_at k s = Inr (x, s') \<and> dict_ok n r s' \<and> dict s' = (dict s)(k := None) \<and> maps_kept s s'" by blast
qed (use put_at_ok get_at_ok in \<open>auto simp: maps_kept_def\<close>)

end
