(* ===== verification/Shf_Queue.thy ===== *)
theory Shf_Queue
  imports Shf_Prelude
begin

text \<open>
  The queues of \<open>shf.c\<close>: \<open>q_items\<close> queue items (qiids) that move between \<open>qs\<close> queues (qids). A
  queue is a chain of items through \<open>next\<close>; it is pushed at its head and pulled at its tail. Each
  process has, besides the shared queues, a private push and a private pull queue per qid that it
  uses without taking the lock; \<open>shf_q_flush\<close> moves their items under the lock.
\<close>

section \<open>State\<close>

definition SHF_QID_NONE :: nat where "SHF_QID_NONE = 4294967295"
definition SHF_QIID_NONE :: nat where "SHF_QIID_NONE = 4294967295"

lemmas q_none = SHF_QID_NONE_def SHF_QIID_NONE_def

text \<open>\<open>SHF_QID_MMAP\<close> and \<open>SHF_QIID_MMAP\<close>, the two arrays of them in shared memory and, last, the
  memory of the items.\<close>

record qid_mmap =
  qid_head :: nat
  qid_tail :: nat
  qid_size :: nat

record qiid_mmap =
  qiid_last :: nat
  qiid_next :: nat

record q_shm =
  qids :: "nat \<Rightarrow> qid_mmap"
  qiids :: "nat \<Rightarrow> qiid_mmap"
  q_item_mem :: "nat \<Rightarrow> byte"

text \<open>
  \<open>SHF_Q\<close> of one process and the thread local variables its operations set. \<open>shf_qiid_addr\<close> is an
  offset into the array of items, \<open>None\<close> for NULL.
\<close>

record q_proc =
  qs :: nat
  q_next :: nat
  q_items :: nat
  q_item_size :: nat
  qids_nolock_max :: nat
  qids_nolock_push :: "nat \<Rightarrow> qid_mmap"
  qids_nolock_pull :: "nat \<Rightarrow> qid_mmap"
  q_is_ready :: nat
  shf_qiid :: nat
  shf_qiid_addr :: "nat option"
  shf_qiid_addr_len :: nat

type_synonym q_st = "q_shm \<times> q_proc"

definition empty_qid :: qid_mmap where
  "empty_qid = \<lparr>qid_head = SHF_QID_NONE, qid_tail = SHF_QID_NONE, qid_size = 0\<rparr>"

section \<open>Operations\<close>

text \<open>
  The chain of items from \<open>a\<close> to \<open>b\<close> is linked behind the item at the head of a queue. The code
  does this in the same words when it pushes an item (\<open>a = b\<close>), when it moves a private push queue
  to a shared queue and when it moves a part of a shared queue to a private pull queue.
\<close>

definition q_splice :: "nat \<Rightarrow> nat \<Rightarrow> (nat \<Rightarrow> qiid_mmap) \<times> qid_mmap \<Rightarrow> (nat \<Rightarrow> qiid_mmap) \<times> qid_mmap" where
  "q_splice a b = (\<lambda>(items, h).
     let l = qid_head h;
         items = items(a := (items a)\<lparr>qiid_last := l\<rparr>);
         items = items(b := (items b)\<lparr>qiid_next := SHF_QIID_NONE\<rparr>);
         h = h\<lparr>qid_head := b\<rparr>
     in if l = SHF_QIID_NONE then (items, h\<lparr>qid_tail := a\<rparr>)
        else (items(l := (items l)\<lparr>qiid_next := a\<rparr>), h))"

text \<open>The private part of a push.\<close>

definition q_push_nolock :: "nat \<Rightarrow> nat \<Rightarrow> q_st \<Rightarrow> q_st" where
  "q_push_nolock push_qid push_qiid = (\<lambda>(m, p).
     let h = qids_nolock_push p push_qid;
         h = h\<lparr>qid_size := u32 (qid_size h + 1)\<rparr>;
         (items, h) = q_splice push_qiid push_qiid (qiids m, h)
     in (m\<lparr>qiids := items\<rparr>, p\<lparr>qids_nolock_push := (qids_nolock_push p)(push_qid := h)\<rparr>))"

text \<open>The two halves of \<open>shf_q_flush\<close>.\<close>

definition q_flush_push :: "nat \<Rightarrow> q_st \<Rightarrow> q_st" where
  "q_flush_push push_qid = (\<lambda>(m, p).
     let n = qids_nolock_push p push_qid in
     if qid_size n > 0 then
       let (items, h) = q_splice (qid_tail n) (qid_head n) (qiids m, qids m push_qid);
           h = h\<lparr>qid_size := u32 (qid_size h + qid_size n)\<rparr>
       in (m\<lparr>qids := (qids m)(push_qid := h), qiids := items\<rparr>,
           p\<lparr>qids_nolock_push := (qids_nolock_push p)(push_qid := empty_qid)\<rparr>)
     else (m, p))"

definition q_pull_count :: "nat \<Rightarrow> q_shm \<Rightarrow> q_proc \<Rightarrow> nat" where
  "q_pull_count pull_qid m p =
     (let n = qids_nolock_pull p pull_qid; h = qids m pull_qid;
          pull_max = (if qid_size n < qids_nolock_max p then u32_sub (qids_nolock_max p) (qid_size n) else 0)
      in if qid_size h < pull_max then qid_size h else pull_max)"

definition q_pull_items :: "nat \<Rightarrow> nat \<Rightarrow> q_st \<Rightarrow> q_st" where
  "q_pull_items pull_qid pull = (\<lambda>(m, p).
     let n = qids_nolock_pull p pull_qid; h = qids m pull_qid;
         this_tail = qid_tail h;
         this_head = ((\<lambda>x. qiid_next (qiids m x)) ^^ (pull - 1)) this_tail;
         next_locked = qiid_next (qiids m this_head);
         (items, n) = q_splice this_tail this_head (qiids m, n);
         n = n\<lparr>qid_size := u32 (qid_size n + pull)\<rparr>;
         h = h\<lparr>qid_size := u32_sub (qid_size h) pull\<rparr>;
         h = (if qid_size h \<noteq> 0 then h\<lparr>qid_tail := next_locked\<rparr>
              else h\<lparr>qid_tail := SHF_QIID_NONE, qid_head := SHF_QIID_NONE\<rparr>)
     in (m\<lparr>qids := (qids m)(pull_qid := h), qiids := items\<rparr>,
         p\<lparr>qids_nolock_pull := (qids_nolock_pull p)(pull_qid := n)\<rparr>))"

definition q_flush_pull :: "nat \<Rightarrow> q_st \<Rightarrow> q_st" where
  "q_flush_pull pull_qid = (\<lambda>(m, p).
     let pull = q_pull_count pull_qid m p
     in if pull > 0 then q_pull_items pull_qid pull (m, p) else (m, p))"

definition q_flush :: "nat \<Rightarrow> q_st \<Rightarrow> q_st" where
  "q_flush pull_qid st =
     (let st = fold q_flush_push [0..<qs (snd st)] st
      in if pull_qid \<noteq> SHF_QID_NONE then q_flush_pull pull_qid st else st)"

definition shf_q_flush :: "nat \<Rightarrow> q_st \<Rightarrow> shf_error + q_st" where
  "shf_q_flush pull_qid st = bindE (assertE (q_is_ready (snd st) \<noteq> 0) Queue_not_ready) (\<lambda>_. Inr (q_flush pull_qid st))"

text \<open>The private part of a pull.\<close>

definition q_pull_nolock :: "nat \<Rightarrow> q_st \<Rightarrow> nat \<times> q_st" where
  "q_pull_nolock pull_qid = (\<lambda>(m, p).
     let n = qids_nolock_pull p pull_qid in
     if qid_size n = 0 then
       (SHF_QIID_NONE, m, p\<lparr>shf_qiid := SHF_QIID_NONE, shf_qiid_addr := None, shf_qiid_addr_len := 0\<rparr>)
     else
       let n = n\<lparr>qid_size := u32_sub (qid_size n) 1\<rparr>;
           pull_qiid = qid_tail n;
           qiid_next = qiid_next (qiids m pull_qiid);
           n = n\<lparr>qid_tail := qiid_next\<rparr>;
           (items, n) = (if qiid_next = SHF_QIID_NONE then (qiids m, n\<lparr>qid_head := SHF_QIID_NONE\<rparr>)
              else ((qiids m)(qiid_next := (qiids m qiid_next)\<lparr>qiid_last := SHF_QIID_NONE\<rparr>), n))
       in (pull_qiid, m\<lparr>qiids := items\<rparr>,
           p\<lparr>qids_nolock_pull := (qids_nolock_pull p)(pull_qid := n), shf_qiid := pull_qiid,
             shf_qiid_addr := Some (u32 (pull_qiid * q_item_size p)), shf_qiid_addr_len := q_item_size p\<rparr>))"

definition shf_q_pull_tail :: "nat \<Rightarrow> q_st \<Rightarrow> shf_error + nat \<times> q_st" where
  "shf_q_pull_tail pull_qid st =
     bindE (assertE (q_is_ready (snd st) \<noteq> 0) Queue_not_ready) (\<lambda>_.
     bindE (if qid_size (qids_nolock_pull (snd st) pull_qid) = 0 then shf_q_flush pull_qid st else Inr st) (\<lambda>st.
     Inr (q_pull_nolock pull_qid st)))"

definition shf_q_push_head :: "nat \<Rightarrow> nat \<Rightarrow> q_st \<Rightarrow> shf_error + q_st" where
  "shf_q_push_head push_qid push_qiid st =
     bindE (assertE (q_is_ready (snd st) \<noteq> 0) Queue_not_ready) (\<lambda>_.
     if push_qiid \<noteq> SHF_QIID_NONE then
       let st = q_push_nolock push_qid push_qiid st
       in if qids_nolock_max (snd st) \<le> qid_size (qids_nolock_push (snd st) push_qid)
          then shf_q_flush SHF_QID_NONE st else Inr st
     else Inr st)"

definition shf_q_push_head_pull_tail :: "nat \<Rightarrow> nat \<Rightarrow> nat \<Rightarrow> q_st \<Rightarrow> shf_error + nat \<times> q_st" where
  "shf_q_push_head_pull_tail push_qid push_qiid pull_qid st =
     bindE (assertE (q_is_ready (snd st) \<noteq> 0) Queue_not_ready) (\<lambda>_.
     let st = (if push_qiid \<noteq> SHF_QIID_NONE then q_push_nolock push_qid push_qiid st else st)
     in bindE (if qids_nolock_max (snd st) \<le> qid_size (qids_nolock_push (snd st) push_qid)
                  \<or> qid_size (qids_nolock_pull (snd st) pull_qid) = 0
               then shf_q_flush pull_qid st else Inr st) (\<lambda>st.
        Inr (q_pull_nolock pull_qid st)))"

section \<open>Chains of items\<close>

fun chain :: "(nat \<Rightarrow> nat) \<Rightarrow> nat list \<Rightarrow> bool" where
  "chain nx [] \<longleftrightarrow> True"
| "chain nx [x] \<longleftrightarrow> True"
| "chain nx (x # y # xs) \<longleftrightarrow> nx x = y \<and> chain nx (y # xs)"

lemma chain_cong:
  assumes "distinct xs" "\<And>x. x \<in> set xs \<Longrightarrow> x \<noteq> last xs \<Longrightarrow> nx' x = nx x"
  shows "chain nx' xs = chain nx xs"
  using assms
proof (induction nx xs rule: chain.induct)
  case (3 nx x y xs)
  have "last (y # xs) \<in> set (y # xs)" by (rule last_in_set) simp
  then have "x \<noteq> last (y # xs)" using 3(2) by (metis distinct.simps(2))
  then have "nx' x = nx x" using 3(3) [of x] by simp
  moreover have "chain nx' (y # xs) = chain nx (y # xs)" using 3(2) by (intro 3(1)) (simp_all add: 3(3))
  ultimately show ?case by simp
qed simp_all

lemma chain_append:
  "xs \<noteq> [] \<Longrightarrow> ys \<noteq> [] \<Longrightarrow> chain nx (xs @ ys) \<longleftrightarrow> chain nx xs \<and> chain nx ys \<and> nx (last xs) = hd ys"
  by (induction nx xs rule: chain.induct) (auto simp: neq_Nil_conv)

lemma chain_walk: "chain nx xs \<Longrightarrow> n < length xs \<Longrightarrow> (nx ^^ n) (hd xs) = xs ! n"
proof (induction n)
  case 0
  then show ?case by (simp add: hd_conv_nth)
next
  case (Suc n)
  have "nx (xs ! n) = xs ! Suc n" using Suc.prems
    by (induction nx xs arbitrary: n rule: chain.induct) (auto simp: nth_Cons split: nat.splits)
  with Suc show ?case by simp
qed

abbreviation nexts :: "(nat \<Rightarrow> qiid_mmap) \<Rightarrow> nat \<Rightarrow> nat" where
  "nexts items \<equiv> \<lambda>x. qiid_next (items x)"

text \<open>The queue with header \<open>h\<close> holds the items \<open>xs\<close>, the next one to be pulled first.\<close>

definition ends :: "qid_mmap \<Rightarrow> nat list \<Rightarrow> bool" where
  "ends h xs \<longleftrightarrow> qid_tail h = (if xs = [] then SHF_QIID_NONE else hd xs)
     \<and> qid_head h = (if xs = [] then SHF_QIID_NONE else last xs)"

definition holds :: "(nat \<Rightarrow> qiid_mmap) \<Rightarrow> qid_mmap \<Rightarrow> nat list \<Rightarrow> bool" where
  "holds items h xs \<longleftrightarrow> ends h xs \<and> qid_size h = length xs \<and> chain (nexts items) xs
     \<and> (xs \<noteq> [] \<longrightarrow> nexts items (last xs) = SHF_QIID_NONE)"

lemma holds_cong:
  assumes "\<And>x. x \<in> set xs \<Longrightarrow> nexts items' x = nexts items x" "distinct xs"
  shows "holds items' h xs = holds items h xs"
proof -
  have "chain (nexts items') xs = chain (nexts items) xs" by (rule chain_cong [OF assms(2)]) (rule assms(1))
  moreover have "xs \<noteq> [] \<Longrightarrow> nexts items' (last xs) = nexts items (last xs)" using assms by simp
  ultimately show ?thesis by (auto simp: holds_def)
qed

lemma holds_empty [simp]: "holds items h [] \<longleftrightarrow> h = empty_qid"
  by (cases h) (auto simp: holds_def ends_def empty_qid_def q_none)

text \<open>Linking a chain behind a queue makes the chain its last items.\<close>

lemma q_splice_ok:
  assumes r: "q_splice (hd xs) (last xs) (items, h) = (items', h')"
    and ys: "ends h ys" "chain (nexts items) ys"
    and xs: "xs \<noteq> []" "chain (nexts items) xs" and d: "distinct (ys @ xs)" "SHF_QIID_NONE \<notin> set ys"
  shows "ends h' (ys @ xs)" "chain (nexts items') (ys @ xs)" "nexts items' (last xs) = SHF_QIID_NONE"
    "qid_size h' = qid_size h" "z \<notin> set ys \<Longrightarrow> z \<noteq> last xs \<Longrightarrow> nexts items' z = nexts items z"
proof -
  show sz: "qid_size h' = qid_size h" using r by (auto simp: q_splice_def Let_def split: if_splits)
  let ?i = "items(hd xs := (items (hd xs))\<lparr>qiid_last := qid_head h\<rparr>)"
  let ?j = "?i(last xs := (?i (last xs))\<lparr>qiid_next := SHF_QIID_NONE\<rparr>)"
  have j: "nexts ?j = (nexts items)(last xs := SHF_QIID_NONE)" by (auto simp: fun_eq_iff)
  have dd: "distinct xs" "distinct ys" using d(1) by simp_all
  have cx: "chain (nexts ?j) xs" using xs(2) chain_cong [OF dd(1), of "nexts ?j" "nexts items"] unfolding j by simp
  show "ends h' (ys @ xs)" "chain (nexts items') (ys @ xs)" "nexts items' (last xs) = SHF_QIID_NONE"
    "z \<notin> set ys \<Longrightarrow> z \<noteq> last xs \<Longrightarrow> nexts items' z = nexts items z"
  proof -
    consider (empty) "ys = []" "items' = ?j" "h' = h\<lparr>qid_head := last xs, qid_tail := hd xs\<rparr>"
      | (more) "ys \<noteq> []" "items' = ?j(last ys := (?j (last ys))\<lparr>qiid_next := hd xs\<rparr>)" "h' = h\<lparr>qid_head := last xs\<rparr>"
    proof (cases "ys = []")
      case True
      then show ?thesis using r ys(1) by (intro empty) (auto simp: q_splice_def Let_def ends_def)
    next
      case False
      then have "qid_head h = last ys" "last ys \<noteq> SHF_QIID_NONE" using ys(1) d(2) False by (simp_all add: ends_def) (metis last_in_set)
      then show ?thesis using r False by (intro more) (auto simp: q_splice_def Let_def)
    qed
    note cases = this
    show "ends h' (ys @ xs)" using cases ys(1) xs(1) by cases (auto simp: ends_def)
    show "chain (nexts items') (ys @ xs)"
    proof (cases rule: cases)
      case empty
      then show ?thesis using cx by simp
    next
      case more
      have n: "nexts items' = (nexts items)(last xs := SHF_QIID_NONE, last ys := hd xs)"
        unfolding more(2) using j by (auto simp: fun_eq_iff)
      have "last ys \<in> set ys" "last xs \<in> set xs" using more(1) xs(1) by simp_all
      then have ne: "last xs \<notin> set ys" "last ys \<notin> set xs" using d(1) by auto
      have "chain (nexts items') ys = chain (nexts items) ys" "chain (nexts items') xs = chain (nexts items) xs"
        unfolding n using ne by (auto intro!: chain_cong dd)
      then show ?thesis using ys(2) xs more(1) by (simp add: chain_append n)
    qed
    show "nexts items' (last xs) = SHF_QIID_NONE"
    proof (cases rule: cases)
      case more
      have "last ys \<in> set ys" "last xs \<in> set xs" using more(1) xs(1) by simp_all
      then have "last ys \<noteq> last xs" using d(1) by auto
      then show ?thesis using more by simp
    qed simp
    show "z \<notin> set ys \<Longrightarrow> z \<noteq> last xs \<Longrightarrow> nexts items' z = nexts items z"
      using cases by cases auto
  qed
qed


section \<open>All processes\<close>

text \<open>
  The queues of a set \<open>I\<close> of processes that share \<open>n\<close> queues of \<open>N\<close> items: the shared queues, and
  two private ones of each process. \<open>C\<close> lists the items of each.
\<close>

datatype place = Locked nat | Push nat nat | Pull nat nat

record q_sys =
  sys_shm :: q_shm
  sys_proc :: "nat \<Rightarrow> q_proc"

definition at_proc :: "nat \<Rightarrow> (q_st \<Rightarrow> q_st) \<Rightarrow> q_sys \<Rightarrow> q_sys" where
  "at_proc i f s = (let (m, p) = f (sys_shm s, sys_proc s i) in s\<lparr>sys_shm := m, sys_proc := (sys_proc s)(i := p)\<rparr>)"

fun header :: "q_sys \<Rightarrow> place \<Rightarrow> qid_mmap" where
  "header s (Locked q) = qids (sys_shm s) q"
| "header s (Push i q) = qids_nolock_push (sys_proc s i) q"
| "header s (Pull i q) = qids_nolock_pull (sys_proc s i) q"

definition places :: "nat set \<Rightarrow> nat \<Rightarrow> place set" where
  "places I n = Locked ` {..<n} \<union> (\<lambda>(i, q). Push i q) ` (I \<times> {..<n}) \<union> (\<lambda>(i, q). Pull i q) ` (I \<times> {..<n})"

lemma places_simps [simp]:
  "Locked q \<in> places I n \<longleftrightarrow> q < n" "Push i q \<in> places I n \<longleftrightarrow> i \<in> I \<and> q < n" "Pull i q \<in> places I n \<longleftrightarrow> i \<in> I \<and> q < n"
  by (auto simp: places_def)

type_synonym contents = "place \<Rightarrow> nat list"

definition apart_in :: "place set \<Rightarrow> nat \<Rightarrow> contents \<Rightarrow> bool" where
  "apart_in A N C \<longleftrightarrow> (\<forall>a \<in> A. distinct (C a) \<and> set (C a) \<subseteq> {..<N})
     \<and> (\<forall>a \<in> A. \<forall>b \<in> A. a \<noteq> b \<longrightarrow> set (C a) \<inter> set (C b) = {})"

definition attached_q :: "nat \<Rightarrow> nat \<Rightarrow> nat \<Rightarrow> q_proc \<Rightarrow> bool" where
  "attached_q n N k p \<longleftrightarrow> qs p = n \<and> q_items p = N \<and> qids_nolock_max p = k \<and> q_is_ready p \<noteq> 0"

definition q_rep :: "nat set \<Rightarrow> nat \<Rightarrow> nat \<Rightarrow> nat \<Rightarrow> contents \<Rightarrow> q_sys \<Rightarrow> bool" where
  "q_rep I n N k C s \<longleftrightarrow> n < 4294967296 \<and> N < 4294967296 \<and> 0 < k \<and> k < N \<and> (\<forall>i \<in> I. attached_q n N k (sys_proc s i))
     \<and> apart_in (places I n) N C \<and> (\<forall>a \<in> places I n. holds (qiids (sys_shm s)) (header s a) (C a))"

lemma q_repD:
  assumes "q_rep I n N k C s"
  shows "N < 4294967296" "i \<in> I \<Longrightarrow> attached_q n N k (sys_proc s i)" "apart_in (places I n) N C"
    "a \<in> places I n \<Longrightarrow> holds (qiids (sys_shm s)) (header s a) (C a)" "0 < k" "k < N" "n < 4294967296"
  using assms by (auto simp: q_rep_def)

lemma apart_inD:
  assumes "apart_in A N C" "a \<in> A"
  shows "distinct (C a)" "x \<in> set (C a) \<Longrightarrow> x < N" "b \<in> A \<Longrightarrow> a \<noteq> b \<Longrightarrow> x \<in> set (C a) \<Longrightarrow> x \<notin> set (C b)"
    "length (C a) \<le> N"
proof -
  show "distinct (C a)" "x \<in> set (C a) \<Longrightarrow> x < N" "b \<in> A \<Longrightarrow> a \<noteq> b \<Longrightarrow> x \<in> set (C a) \<Longrightarrow> x \<notin> set (C b)"
    using assms unfolding apart_in_def by blast+
  have "card (set (C a)) \<le> card {..<N}" using assms by (intro card_mono) (auto simp: apart_in_def)
  then show "length (C a) \<le> N" using \<open>distinct (C a)\<close> by (simp add: distinct_card)
qed

text \<open>
  An operation that only touches the headers of the places \<open>A\<close> and the links of items that were, or
  were nowhere, in these leaves all other queues alone.
\<close>

lemma q_rep_update:
  assumes r: "q_rep I n N k C s" and B: "B \<subseteq> places I n"
    and frame: "\<And>z. (\<And>a. a \<in> B \<Longrightarrow> z \<notin> set (C a)) \<Longrightarrow> (\<exists>a \<in> places I n. z \<in> set (C a)) \<Longrightarrow>
        nexts (qiids (sys_shm s')) z = nexts (qiids (sys_shm s)) z"
    and hdr: "\<And>a. a \<in> places I n - B \<Longrightarrow> header s' a = header s a \<and> C' a = C a"
    and att: "\<And>i. i \<in> I \<Longrightarrow> attached_q n N k (sys_proc s i) \<Longrightarrow> attached_q n N k (sys_proc s' i)"
    and new: "apart_in (places I n) N C'" "\<And>a. a \<in> B \<Longrightarrow> holds (qiids (sys_shm s')) (header s' a) (C' a)"
  shows "q_rep I n N k C' s'"
proof -
  have "holds (qiids (sys_shm s')) (header s' a) (C' a)" if a: "a \<in> places I n" "a \<notin> B" for a
  proof -
    have "nexts (qiids (sys_shm s')) z = nexts (qiids (sys_shm s)) z" if z: "z \<in> set (C a)" for z
    proof (rule frame)
      show "\<exists>a \<in> places I n. z \<in> set (C a)" using a(1) z by blast
      fix b assume b: "b \<in> B"
      then have "b \<in> places I n" "a \<noteq> b" using B a(2) by auto
      then show "z \<notin> set (C b)" using apart_inD(3) [OF q_repD(3) [OF r] a(1)] z by blast
    qed
    then have "holds (qiids (sys_shm s')) (header s a) (C a) = holds (qiids (sys_shm s)) (header s a) (C a)"
      by (intro holds_cong apart_inD(1) [OF q_repD(3) [OF r] a(1)])
    then show ?thesis using q_repD(4) [OF r a(1)] hdr [of a] a by simp
  qed
  then have "\<forall>a \<in> places I n. holds (qiids (sys_shm s')) (header s' a) (C' a)" using new(2) by blast
  moreover have "\<forall>i \<in> I. attached_q n N k (sys_proc s' i)" using att q_repD(2) [OF r] by blast
  ultimately show ?thesis using q_repD(1,5-7) [OF r] new(1) by (simp add: q_rep_def)
qed

lemma apart_none: "apart_in A N C \<Longrightarrow> a \<in> A \<Longrightarrow> N < 4294967296 \<Longrightarrow> SHF_QIID_NONE \<notin> set (C a)"
  using apart_inD(2) by (fastforce simp: q_none)

lemma push_rep:
  assumes r: "q_rep I n N k C s" and i: "i \<in> I" "q < n" and x: "x < N" "\<And>a. a \<in> places I n \<Longrightarrow> x \<notin> set (C a)"
  shows "q_rep I n N k (C(Push i q := C (Push i q) @ [x])) (at_proc i (q_push_nolock q x) s)"
    (is "q_rep I n N k ?C' ?s'")
proof -
  let ?a = "Push i q" and ?m = "sys_shm s" and ?p = "sys_proc s i"
  note R = q_repD [OF r]
  have a: "?a \<in> places I n" using i by simp
  note A = apart_inD [OF R(3) a]
  obtain items h where sp: "q_splice x x (qiids ?m, qids_nolock_push ?p q\<lparr>qid_size := u32 (qid_size (qids_nolock_push ?p q) + 1)\<rparr>) = (items, h)"
    by (cases "q_splice x x (qiids ?m, qids_nolock_push ?p q\<lparr>qid_size := u32 (qid_size (qids_nolock_push ?p q) + 1)\<rparr>)")
  have s': "sys_shm ?s' = ?m\<lparr>qiids := items\<rparr>"
    "sys_proc ?s' = (sys_proc s)(i := ?p\<lparr>qids_nolock_push := (qids_nolock_push ?p)(q := h)\<rparr>)"
    using sp by (simp_all add: at_proc_def q_push_nolock_def Let_def)
  have h: "holds (qiids ?m) (qids_nolock_push ?p q) (C ?a)" using R(4) [OF a] by simp
  have d: "distinct (C ?a @ [x])" using A(1) x(2) [OF a] by simp
  have none: "SHF_QIID_NONE \<notin> set (C ?a)" by (rule apart_none [OF R(3) a R(1)])
  have e: "ends (qids_nolock_push ?p q\<lparr>qid_size := u32 (qid_size (qids_nolock_push ?p q) + 1)\<rparr>) (C ?a)" "chain (nexts (qiids ?m)) (C ?a)"
    using h by (simp_all add: holds_def ends_def)
  note S = q_splice_ok [of "[x]" "qiids ?m" _ items h "C ?a", simplified, OF sp e _ none]
  have ap: "apart_in (places I n) N ?C'" using R(3) x d i unfolding apart_in_def by auto
  have "length (C ?a @ [x]) \<le> N" using apart_inD(4) [OF ap a] by simp
  then have sz: "length (C ?a) + 1 < 4294967296" using R(1) by simp
  show ?thesis
  proof (rule q_rep_update [OF r, where B = "{?a}"])
    show "{?a} \<subseteq> places I n" using a by simp
    show "apart_in (places I n) N ?C'" by (fact ap)
    show "attached_q n N k (sys_proc ?s' j)" if "attached_q n N k (sys_proc s j)" for j
      using that by (auto simp: s' attached_q_def)
    show "header ?s' b = header s b \<and> ?C' b = C b" if "b \<in> places I n - {?a}" for b
      using that by (cases b) (auto simp: s')
    show "nexts (qiids (sys_shm ?s')) z = nexts (qiids ?m) z"
      if "\<And>a. a \<in> {?a} \<Longrightarrow> z \<notin> set (C a)" "\<exists>a \<in> places I n. z \<in> set (C a)" for z
    proof -
      have "z \<noteq> x" using that(2) x(2) by blast
      then show ?thesis using S(5) [of z] that(1) A(1) x(2) [OF a] by (simp add: s')
    qed
    show "holds (qiids (sys_shm ?s')) (header ?s' b) (?C' b)" if "b \<in> {?a}" for b
      using S(1-4) that d h sz x(2) [OF a] by (simp add: s' holds_def)
  qed
qed


text \<open>A private push queue moves to the shared queue.\<close>

definition move_push :: "nat \<Rightarrow> nat \<Rightarrow> contents \<Rightarrow> contents" where
  "move_push i q C = C(Locked q := C (Locked q) @ C (Push i q), Push i q := [])"

lemma apart_in_move:
  assumes A: "apart_in A N C" and ab: "a \<in> A" "b \<in> A" "a \<noteq> b" and new: "set xs \<union> set ys = set (C a) \<union> set (C b)"
    "distinct (xs @ ys)"
  shows "apart_in A N (C(a := xs, b := ys))"
proof -
  let ?C = "C(a := xs, b := ys)"
  have sub: "set (?C c) \<subseteq> (if c = a \<or> c = b then set (C a) \<union> set (C b) else set (C c))" for c using new by auto
  have "distinct (?C c) \<and> set (?C c) \<subseteq> {..<N}" if "c \<in> A" for c
  proof -
    have "set (C a) \<subseteq> {..<N}" "set (C b) \<subseteq> {..<N}" "set (C c) \<subseteq> {..<N}" "distinct (C c)"
      using A ab that by (auto simp: apart_in_def)
    then show ?thesis using sub [of c] new(2) ab(3) by (auto split: if_splits)
  qed
  moreover have "set (?C c) \<inter> set (?C d) = {}" if cd: "c \<in> A" "d \<in> A" "c \<noteq> d" for c d
  proof -
    have dis: "set (C c) \<inter> set (C d) = {}" if "c \<in> A" "d \<in> A" "c \<noteq> d" for c d
      using A that by (simp add: apart_in_def)
    consider "c \<in> {a, b}" "d \<in> {a, b}" | "c \<in> {a, b}" "d \<notin> {a, b}" | "c \<notin> {a, b}" "d \<in> {a, b}" | "c \<notin> {a, b}" "d \<notin> {a, b}"
      by blast
    then show ?thesis
    proof cases
      case 1
      then show ?thesis using cd(3) new(2) ab(3) by auto
    next
      case 2
      then have "set (C a) \<inter> set (C d) = {}" "set (C b) \<inter> set (C d) = {}" "set (?C c) \<subseteq> set (C a) \<union> set (C b)"
        "set (?C d) \<subseteq> set (C d)" using dis [of a d] dis [of b d] ab(1,2) cd sub [of c] sub [of d] by auto
      then show ?thesis by blast
    next
      case 3
      then have "set (C c) \<inter> set (C a) = {}" "set (C c) \<inter> set (C b) = {}" "set (?C d) \<subseteq> set (C a) \<union> set (C b)"
        "set (?C c) \<subseteq> set (C c)" using dis [of c a] dis [of c b] ab(1,2) cd sub [of c] sub [of d] by auto
      then show ?thesis by blast
    qed (use dis cd in auto)
  qed
  ultimately show ?thesis by (simp add: apart_in_def)
qed

lemma flush_push_rep:
  assumes r: "q_rep I n N k C s" and i: "i \<in> I" "q < n"
  shows "q_rep I n N k (move_push i q C) (at_proc i (q_flush_push q) s)"
proof (cases "C (Push i q) = []")
  case True
  let ?p = "sys_proc s i"
  have "holds (qiids (sys_shm s)) (qids_nolock_push ?p q) []" using q_repD(4) [OF r, of "Push i q"] i True by simp
  then have "at_proc i (q_flush_push q) s = s"
    by (simp add: at_proc_def q_flush_push_def Let_def empty_qid_def)
  moreover have "move_push i q C = C" using True by (auto simp: move_push_def fun_eq_iff)
  ultimately show ?thesis using r by simp
next
  case False
  let ?a = "Push i q" and ?b = "Locked q" and ?m = "sys_shm s" and ?p = "sys_proc s i"
  let ?s' = "at_proc i (q_flush_push q) s"
  note R = q_repD [OF r]
  have ab: "?a \<in> places I n" "?b \<in> places I n" using i by simp_all
  have ha: "holds (qiids ?m) (qids_nolock_push ?p q) (C ?a)" and hb: "holds (qiids ?m) (qids ?m q) (C ?b)"
    using R(4) [OF ab(1)] R(4) [OF ab(2)] by simp_all
  have th: "qid_tail (qids_nolock_push ?p q) = hd (C ?a)" "qid_head (qids_nolock_push ?p q) = last (C ?a)"
    "qid_size (qids_nolock_push ?p q) = length (C ?a)" using ha False by (simp_all add: holds_def ends_def)
  obtain items h where sp: "q_splice (hd (C ?a)) (last (C ?a)) (qiids ?m, qids ?m q) = (items, h)"
    by (cases "q_splice (hd (C ?a)) (last (C ?a)) (qiids ?m, qids ?m q)")
  have s': "sys_shm ?s' = ?m\<lparr>qids := (qids ?m)(q := h\<lparr>qid_size := u32 (qid_size h + length (C ?a))\<rparr>), qiids := items\<rparr>"
    "sys_proc ?s' = (sys_proc s)(i := ?p\<lparr>qids_nolock_push := (qids_nolock_push ?p)(q := empty_qid)\<rparr>)"
    using sp False by (simp_all add: at_proc_def q_flush_push_def Let_def th)
  have d: "distinct (C ?b @ C ?a)"
    using apart_inD(1) [OF R(3) ab(1)] apart_inD(1) [OF R(3) ab(2)] apart_inD(3) [OF R(3) ab(1,2)] by auto
  have e: "ends (qids ?m q) (C ?b)" "chain (nexts (qiids ?m)) (C ?b)" "chain (nexts (qiids ?m)) (C ?a)"
    using ha hb by (simp_all add: holds_def)
  note S = q_splice_ok [OF sp e(1,2) False e(3) d apart_none [OF R(3) ab(2) R(1)]]
  have ap: "apart_in (places I n) N (move_push i q C)"
    unfolding move_push_def using d by (intro apart_in_move [OF R(3) ab(2,1)]) auto
  have "length (C ?b @ C ?a) \<le> N" using apart_inD(4) [OF ap ab(2)] by (simp add: move_push_def)
  then have sz: "length (C ?b) + length (C ?a) < 4294967296" using R(1) by simp
  show ?thesis
  proof (rule q_rep_update [OF r, where B = "{?a, ?b}"])
    show "{?a, ?b} \<subseteq> places I n" using ab by simp
    show "apart_in (places I n) N (move_push i q C)" by (fact ap)
    show "attached_q n N k (sys_proc ?s' j)" if "attached_q n N k (sys_proc s j)" for j
      using that by (auto simp: s' attached_q_def)
    show "header ?s' c = header s c \<and> move_push i q C c = C c" if "c \<in> places I n - {?a, ?b}" for c
      using that by (cases c) (auto simp: s' move_push_def)
    show "nexts (qiids (sys_shm ?s')) z = nexts (qiids ?m) z" if "\<And>c. c \<in> {?a, ?b} \<Longrightarrow> z \<notin> set (C c)" for z
      using S(5) [of z] that [of ?a] that [of ?b] last_in_set [OF False] by (auto simp: s')
    show "holds (qiids (sys_shm ?s')) (header ?s' c) (move_push i q C c)" if "c \<in> {?a, ?b}" for c
      using that S(1-4) hb sz False by (auto simp: s' move_push_def holds_def ends_def empty_qid_def q_none)
  qed
qed

text \<open>Items move from the shared queue to a private pull queue.\<close>

definition move_pull :: "nat \<Rightarrow> nat \<Rightarrow> nat \<Rightarrow> contents \<Rightarrow> contents" where
  "move_pull j i q C = C(Pull i q := C (Pull i q) @ take j (C (Locked q)), Locked q := drop j (C (Locked q)))"

lemma take_last: "0 < j \<Longrightarrow> j \<le> length xs \<Longrightarrow> last (take j xs) = xs ! (j - 1)"
  by (subst last_conv_nth) (auto simp: min_def)

lemma pull_items_rep:
  assumes r: "q_rep I n N k C s" and i: "i \<in> I" "q < n" and j: "0 < j" "j \<le> length (C (Locked q))"
  shows "q_rep I n N k (move_pull j i q C) (at_proc i (q_pull_items q j) s)"
proof -
  let ?a = "Pull i q" and ?b = "Locked q" and ?m = "sys_shm s" and ?p = "sys_proc s i"
  let ?s' = "at_proc i (q_pull_items q j) s" and ?L = "C (Locked q)" and ?U = "C (Pull i q)"
  define xs where "xs = take j ?L"
  note R = q_repD [OF r]
  have ab: "?a \<in> places I n" "?b \<in> places I n" using i by simp_all
  have ha: "holds (qiids ?m) (qids_nolock_pull ?p q) ?U" and hb: "holds (qiids ?m) (qids ?m q) ?L"
    using R(4) [OF ab(1)] R(4) [OF ab(2)] by simp_all
  have sz: "qid_size (qids_nolock_pull ?p q) = length ?U" "qid_size (qids ?m q) = length ?L"
    using ha hb by (simp_all add: holds_def)
  have xs: "xs \<noteq> []" "length xs = j" "last xs = ?L ! (j - 1)" and L: "?L \<noteq> []" "?L = xs @ drop j ?L"
    using j take_last [OF j] by (auto simp: xs_def)
  have th: "qid_tail (qids ?m q) = hd xs" using hb j(1) L(1) by (simp add: xs_def holds_def ends_def)
  have "(nexts (qiids ?m) ^^ (j - 1)) (hd ?L) = ?L ! (j - 1)"
    using hb j by (intro chain_walk) (auto simp: holds_def)
  then have walk: "(nexts (qiids ?m) ^^ (j - 1)) (hd xs) = last xs"
    using hb L(1) by (simp add: xs(3) holds_def ends_def th [symmetric])
  obtain items h where sp: "q_splice (hd xs) (last xs) (qiids ?m, qids_nolock_pull ?p q) = (items, h)"
    by (cases "q_splice (hd xs) (last xs) (qiids ?m, qids_nolock_pull ?p q)")
  define h' where "h' = (if length ?L - j \<noteq> 0 then (qids ?m q)\<lparr>qid_size := length ?L - j, qid_tail := nexts (qiids ?m) (last xs)\<rparr>
    else (qids ?m q)\<lparr>qid_size := length ?L - j, qid_tail := SHF_QIID_NONE, qid_head := SHF_QIID_NONE\<rparr>)"
  have lj: "u32_sub (length ?L) j = length ?L - j" using j apart_inD(4) [OF R(3) ab(2)] R(1) by simp
  have s': "sys_shm ?s' = ?m\<lparr>qids := (qids ?m)(q := h'), qiids := items\<rparr>"
    "sys_proc ?s' = (sys_proc s)(i := ?p\<lparr>qids_nolock_pull := (qids_nolock_pull ?p)(q := h\<lparr>qid_size := u32 (qid_size h + j)\<rparr>)\<rparr>)"
    using sp by (simp_all add: at_proc_def q_pull_items_def Let_def th walk lj h'_def sz del: One_nat_def)
  have dL: "distinct ?L" "distinct ?U" "set ?U \<inter> set ?L = {}"
    using apart_inD(1) [OF R(3) ab(1)] apart_inD(1) [OF R(3) ab(2)] apart_inD(3) [OF R(3) ab(1,2)] by auto
  have ds: "distinct (xs @ drop j ?L)" "distinct (?U @ xs)" using dL set_take_subset [of j ?L] by (auto simp: xs_def)
  have c: "chain (nexts (qiids ?m)) (xs @ drop j ?L)" using hb by (simp add: holds_def xs_def)
  have cL: "chain (nexts (qiids ?m)) xs" using c chain_append [OF xs(1)] by (cases "drop j ?L = []"; simp)
  have e: "ends (qids_nolock_pull ?p q) ?U" "chain (nexts (qiids ?m)) ?U" using ha by (simp_all add: holds_def)
  note S = q_splice_ok [OF sp e xs(1) cL ds(2) apart_none [OF R(3) ab(1) R(1)]]
  have C': "move_pull j i q C = C(?a := ?U @ xs, ?b := drop j ?L)" by (simp add: move_pull_def xs_def)
  have ap: "apart_in (places I n) N (move_pull j i q C)"
    unfolding C'
  proof (rule apart_in_move [OF R(3) ab])
    have "set ?L = set xs \<union> set (drop j ?L)" using L(2) by (metis set_append)
    then show "set (?U @ xs) \<union> set (drop j ?L) = set ?U \<union> set ?L" by auto
    show "distinct ((?U @ xs) @ drop j ?L)" using dL by (simp add: xs_def)
  qed simp
  have "length (?U @ xs) \<le> N" using apart_inD(4) [OF ap ab(1)] by (simp add: C')
  then have sj: "length ?U + j < 4294967296" using R(1) xs(2) by simp
  have keep: "nexts items z = nexts (qiids ?m) z" if "z \<notin> set ?U" "z \<noteq> last xs" for z using S(5) that by blast
  have rest: "holds items h' (drop j ?L)"
  proof (cases "drop j ?L = []")
    case True
    then show ?thesis using j by (simp add: h'_def empty_qid_def q_none)
  next
    case ne: False
    have "nexts items z = nexts (qiids ?m) z" if "z \<in> set (drop j ?L)" for z
      using that dL(3) set_drop_subset [of j ?L] ds(1) last_in_set [OF xs(1)] by (intro keep) auto
    then have "holds items h' (drop j ?L) = holds (qiids ?m) h' (drop j ?L)" using ds by (intro holds_cong) auto
    moreover have "nexts (qiids ?m) (last xs) = hd (drop j ?L)" "chain (nexts (qiids ?m)) (drop j ?L)"
      using c chain_append [OF xs(1) ne, of "nexts (qiids ?m)"] by simp_all
    moreover have "qid_head (qids ?m q) = last (drop j ?L)" "nexts (qiids ?m) (last (drop j ?L)) = SHF_QIID_NONE"
      using hb ne L(1) by (simp_all add: holds_def ends_def)
    moreover have "length ?L - j \<noteq> 0" using ne by simp
    ultimately show ?thesis using ne unfolding holds_def ends_def h'_def by (simp del: last_drop)
  qed
  show ?thesis
  proof (rule q_rep_update [OF r, where B = "{?a, ?b}"])
    show "{?a, ?b} \<subseteq> places I n" using ab by simp
    show "apart_in (places I n) N (move_pull j i q C)" by (fact ap)
    show "attached_q n N k (sys_proc ?s' x)" if "attached_q n N k (sys_proc s x)" for x
      using that by (auto simp: s' attached_q_def)
    show "header ?s' c = header s c \<and> move_pull j i q C c = C c" if "c \<in> places I n - {?a, ?b}" for c
      using that by (cases c) (auto simp: s' C')
    show "nexts (qiids (sys_shm ?s')) z = nexts (qiids ?m) z" if "\<And>c. c \<in> {?a, ?b} \<Longrightarrow> z \<notin> set (C c)" for z
    proof -
      have "last xs \<in> set ?L" using last_in_set [OF xs(1)] set_take_subset [of j ?L] by (auto simp: xs_def)
      then have "z \<noteq> last xs" using that [of ?b] by auto
      then show ?thesis using keep that [of ?a] by (simp add: s')
    qed
    show "holds (qiids (sys_shm ?s')) (header ?s' c) (move_pull j i q C c)" if "c \<in> {?a, ?b}" for c
      using that S(1-4) rest sz sj xs(1,2) by (auto simp: s' C' holds_def ends_def)
  qed
qed

definition pull_amount :: "nat \<Rightarrow> nat \<Rightarrow> nat \<Rightarrow> contents \<Rightarrow> nat" where
  "pull_amount k i q C = min (k - length (C (Pull i q))) (length (C (Locked q)))"

lemma flush_pull_rep:
  assumes r: "q_rep I n N k C s" and i: "i \<in> I" "q < n"
  shows "q_rep I n N k (move_pull (pull_amount k i q C) i q C) (at_proc i (q_flush_pull q) s)"
proof -
  let ?m = "sys_shm s" and ?p = "sys_proc s i" and ?j = "pull_amount k i q C"
  note R = q_repD [OF r]
  have "holds (qiids ?m) (qids_nolock_pull ?p q) (C (Pull i q))" "holds (qiids ?m) (qids ?m q) (C (Locked q))"
    using R(4) [of "Pull i q"] R(4) [of "Locked q"] i by simp_all
  then have sz: "qid_size (qids_nolock_pull ?p q) = length (C (Pull i q))" "qid_size (qids ?m q) = length (C (Locked q))"
    by (simp_all add: holds_def)
  have "qids_nolock_max ?p = k" "k < 4294967296" using R(1,6) R(2) [OF i(1)] by (simp_all add: attached_q_def)
  then have j: "q_pull_count q ?m ?p = ?j" by (simp add: q_pull_count_def Let_def sz pull_amount_def min_def)
  show ?thesis
  proof (cases "?j = 0")
    case True
    then have "at_proc i (q_flush_pull q) s = s" by (simp add: at_proc_def q_flush_pull_def j)
    moreover have "move_pull 0 i q C = C" by (auto simp: move_pull_def fun_eq_iff)
    ultimately show ?thesis using r True by simp
  next
    case False
    then have "at_proc i (q_flush_pull q) s = at_proc i (q_pull_items q ?j) s"
      by (simp add: at_proc_def q_flush_pull_def j)
    then show ?thesis using False by (simp add: pull_items_rep [OF r i] pull_amount_def)
  qed
qed


lemma apart_in_less:
  assumes A: "apart_in A N C" and "a \<in> A" "set ys \<subseteq> set (C a)" "distinct ys"
  shows "apart_in A N (C(a := ys))"
proof -
  have sub: "set ((C(a := ys)) c) \<subseteq> set (C c)" for c using assms(3) by simp
  have "distinct ((C(a := ys)) c)" if "c \<in> A" for c using A assms(4) that by (simp add: apart_in_def)
  moreover have "set ((C(a := ys)) c) \<subseteq> {..<N}" if "c \<in> A" for c using A sub [of c] that unfolding apart_in_def by blast
  moreover have "set ((C(a := ys)) c) \<inter> set ((C(a := ys)) d) = {}" if "c \<in> A" "d \<in> A" "c \<noteq> d" for c d
    using A sub [of c] sub [of d] that unfolding apart_in_def by blast
  ultimately show ?thesis unfolding apart_in_def by blast
qed

lemma pull_rep:
  assumes r: "q_rep I n N k C s" and i: "i \<in> I" "q < n"
  shows "fst (q_pull_nolock q (sys_shm s, sys_proc s i)) = (if C (Pull i q) = [] then SHF_QIID_NONE else hd (C (Pull i q)))"
    "q_rep I n N k (C(Pull i q := tl (C (Pull i q)))) (at_proc i (\<lambda>st. snd (q_pull_nolock q st)) s)"
proof -
  let ?a = "Pull i q" and ?m = "sys_shm s" and ?p = "sys_proc s i" and ?U = "C (Pull i q)"
  let ?s' = "at_proc i (\<lambda>st. snd (q_pull_nolock q st)) s" and ?C' = "C(?a := tl ?U)"
  note R = q_repD [OF r]
  have a: "?a \<in> places I n" using i by simp
  have h: "holds (qiids ?m) (qids_nolock_pull ?p q) ?U" using R(4) [OF a] by simp
  have sz: "qid_size (qids_nolock_pull ?p q) = length ?U" using h by (simp add: holds_def)
  have d: "distinct ?U" by (rule apart_inD(1) [OF R(3) a])
  have lN: "length ?U < 4294967296" using apart_inD(4) [OF R(3) a] R(1) by simp
  show "fst (q_pull_nolock q (?m, ?p)) = (if ?U = [] then SHF_QIID_NONE else hd ?U)"
    using h by (simp add: q_pull_nolock_def Let_def sz holds_def ends_def split: prod.split)
  have ap: "apart_in (places I n) N ?C'"
    using d by (cases ?U) (auto intro!: apart_in_less [OF R(3) a])
  define nd where "nd = sys_proc ?s' i"
  have n: "nexts (qiids (sys_shm ?s')) = nexts (qiids ?m)" "qids (sys_shm ?s') = qids ?m" "sys_proc ?s' = (sys_proc s)(i := nd)"
    "qs nd = qs ?p" "q_items nd = q_items ?p" "qids_nolock_max nd = qids_nolock_max ?p" "q_is_ready nd = q_is_ready ?p"
    "qids_nolock_push nd = qids_nolock_push ?p"
    by (auto simp: nd_def at_proc_def q_pull_nolock_def Let_def fun_eq_iff split: prod.split)
  have other: "qids_nolock_pull nd q' = qids_nolock_pull ?p q'" if "q' \<noteq> q" for q'
    using that by (auto simp: nd_def at_proc_def q_pull_nolock_def Let_def split: prod.split)
  have new: "holds (qiids ?m) (qids_nolock_pull nd q) (tl ?U)"
  proof (cases ?U)
    case Nil
    then show ?thesis using h sz by (simp add: nd_def at_proc_def q_pull_nolock_def Let_def)
  next
    case (Cons x xs)
    have x: "qid_tail (qids_nolock_pull ?p q) = x" "nexts (qiids ?m) x = (if xs = [] then SHF_QIID_NONE else hd xs)"
      using h Cons by (cases xs; simp add: holds_def ends_def)+
    have "SHF_QIID_NONE \<notin> set ?U" by (rule apart_none [OF R(3) a R(1)])
    then have ne: "xs \<noteq> [] \<Longrightarrow> hd xs \<noteq> SHF_QIID_NONE" using Cons by (metis hd_in_set list.set_intros(2))
    show ?thesis using h lN x Cons ne
      by (cases xs) (auto simp: nd_def at_proc_def q_pull_nolock_def Let_def sz holds_def ends_def empty_qid_def q_none split: prod.split)
  qed
  show "q_rep I n N k ?C' ?s'"
  proof (rule q_rep_update [OF r, where B = "{?a}"])
    show "{?a} \<subseteq> places I n" using a by simp
    show "apart_in (places I n) N ?C'" by (fact ap)
    show "attached_q n N k (sys_proc ?s' x)" if "attached_q n N k (sys_proc s x)" for x
      using that n by (auto simp: attached_q_def)
    show "header ?s' c = header s c \<and> ?C' c = C c" if "c \<in> places I n - {?a}" for c
      using that n other by (cases c) auto
    show "nexts (qiids (sys_shm ?s')) z = nexts (qiids ?m) z" for z by (rule fun_cong [OF n(1)])
    show "holds (qiids (sys_shm ?s')) (header ?s' c) (?C' c)" if "c \<in> {?a}" for c
    proof -
      have "holds (qiids (sys_shm ?s')) (qids_nolock_pull nd q) (tl ?U) = holds (qiids ?m) (qids_nolock_pull nd q) (tl ?U)"
        using fun_cong [OF n(1)] by (rule holds_cong) (rule distinct_tl [OF d])
      then show ?thesis using that new by (simp add: n(3))
    qed
  qed
qed

section \<open>Flushing\<close>

definition publish :: "nat \<Rightarrow> nat \<Rightarrow> contents \<Rightarrow> contents" where
  "publish n i C = (\<lambda>a. case a of
     Locked q \<Rightarrow> if q < n then C (Locked q) @ C (Push i q) else C (Locked q)
   | Push j q \<Rightarrow> if j = i \<and> q < n then [] else C (Push j q)
   | Pull j q \<Rightarrow> C (Pull j q))"

lemma fold_move_push: "fold (move_push i) [0..<n] C = publish n i C"
proof (induction n)
  case 0
  show ?case by (simp add: publish_def fun_eq_iff split: place.split)
next
  case (Suc n)
  then show ?case by (auto simp: publish_def move_push_def fun_eq_iff split: place.split)
qed

lemma at_proc_comp: "at_proc i g (at_proc i f s) = at_proc i (\<lambda>st. g (f st)) s"
  by (simp add: at_proc_def Let_def split: prod.split)

lemma at_proc_id: "at_proc i (\<lambda>st. st) s = s"
  by (simp add: at_proc_def)

lemma flush_pushes_rep:
  assumes r: "q_rep I n N k C s" and i: "i \<in> I" and xs: "set xs \<subseteq> {..<n}"
  shows "q_rep I n N k (fold (move_push i) xs C) (at_proc i (fold q_flush_push xs) s)"
  using r xs
proof (induction xs arbitrary: C s)
  case Nil
  then show ?case by (simp add: at_proc_id id_def)
next
  case (Cons q qs)
  have "q_rep I n N k (fold (move_push i) qs (move_push i q C)) (at_proc i (fold q_flush_push qs) (at_proc i (q_flush_push q) s))"
    using Cons.prems by (intro Cons.IH flush_push_rep i) simp_all
  then show ?case by (simp add: at_proc_comp comp_def)
qed

definition flushed :: "nat \<Rightarrow> nat \<Rightarrow> nat \<Rightarrow> nat \<Rightarrow> contents \<Rightarrow> contents" where
  "flushed n k i q C = (let C = publish n i C in if q \<noteq> SHF_QID_NONE then move_pull (pull_amount k i q C) i q C else C)"

lemma flush_rep:
  assumes r: "q_rep I n N k C s" and i: "i \<in> I" and q: "q = SHF_QID_NONE \<or> q < n"
  shows "q_rep I n N k (flushed n k i q C) (at_proc i (q_flush q) s)"
proof -
  let ?s1 = "at_proc i (fold q_flush_push [0..<n]) s" and ?C1 = "publish n i C"
  have n: "qs (sys_proc s i) = n" using q_repD(2) [OF r i] by (simp add: attached_q_def)
  have s1: "q_rep I n N k ?C1 ?s1"
    using flush_pushes_rep [OF r i, of "[0..<n]"] by (simp add: fold_move_push lessThan_atLeast0)
  have e: "at_proc i (q_flush q) s = (if q \<noteq> SHF_QID_NONE then at_proc i (q_flush_pull q) ?s1 else ?s1)"
    by (simp add: at_proc_comp) (simp add: at_proc_def q_flush_def Let_def n)
  show ?thesis using s1 flush_pull_rep [OF s1 i, of q] q unfolding e flushed_def Let_def by (cases "q = SHF_QID_NONE") simp_all
qed


section \<open>A process sees a FIFO queue\<close>

text \<open>
  The operations of process \<open>i\<close>, and the items of a queue it can reach: first what it has pulled
  already, then the shared queue, then what it has not published yet.
\<close>

definition q_run :: "nat \<Rightarrow> (q_st \<Rightarrow> shf_error + 'r \<times> q_st) \<Rightarrow> q_sys \<Rightarrow> shf_error + 'r \<times> q_sys" where
  "q_run i f s = bindE (f (sys_shm s, sys_proc s i)) (\<lambda>(r, m, p).
     Inr (r, s\<lparr>sys_shm := m, sys_proc := (sys_proc s)(i := p)\<rparr>))"

definition push_op :: "nat \<Rightarrow> nat \<Rightarrow> q_st \<Rightarrow> shf_error + unit \<times> q_st" where
  "push_op q x st = bindE (shf_q_push_head q x st) (\<lambda>st. Inr ((), st))"

definition view :: "nat \<Rightarrow> nat \<Rightarrow> contents \<Rightarrow> nat list" where
  "view i q C = C (Pull i q) @ C (Locked q) @ C (Push i q)"

definition others_same :: "nat \<Rightarrow> contents \<Rightarrow> contents \<Rightarrow> bool" where
  "others_same i C C' \<longleftrightarrow> (\<forall>j q. j \<noteq> i \<longrightarrow> C' (Push j q) = C (Push j q) \<and> C' (Pull j q) = C (Pull j q))"

lemma others_same_trans: "others_same i C C' \<Longrightarrow> others_same i C' C'' \<Longrightarrow> others_same i C C''"
  by (simp add: others_same_def)

lemma view_publish [simp]: "view i q (publish n i C) = view i q C"
  by (simp add: view_def publish_def)

lemma view_move_pull [simp]: "view i q (move_pull j i q' C) = view i q C"
  by (cases "q = q'") (simp_all add: view_def move_pull_def)

lemma view_flushed [simp]: "view i q (flushed n k i q' C) = view i q C"
  by (simp add: flushed_def Let_def)

lemma others_flushed: "others_same i C (flushed n k i q C)"
  by (auto simp: others_same_def flushed_def Let_def publish_def move_pull_def)

lemma flushed_pulls:
  assumes "view i q C \<noteq> []" "0 < k" "q < n" "n < 4294967296"
  shows "flushed n k i q C (Pull i q) \<noteq> []"
proof -
  have "q \<noteq> SHF_QID_NONE" using assms(3,4) by (simp add: q_none)
  then have e: "flushed n k i q C (Pull i q) = C (Pull i q) @ take (min (k - length (C (Pull i q)))
      (length (C (Locked q)) + length (C (Push i q)))) (C (Locked q) @ C (Push i q))"
    using assms(3) by (simp add: flushed_def Let_def move_pull_def pull_amount_def publish_def)
  show ?thesis using assms(1,2) by (cases "C (Pull i q) = []") (auto simp: e view_def)
qed

text \<open>After any flush, the private part of a pull takes the first item of the view.\<close>

definition pull_ready :: "nat \<Rightarrow> nat \<Rightarrow> contents \<Rightarrow> bool" where
  "pull_ready i q C \<longleftrightarrow> C (Pull i q) \<noteq> [] \<or> view i q C = []"

definition pulled :: "nat \<Rightarrow> nat \<Rightarrow> contents \<Rightarrow> contents" where
  "pulled i q C = C(Pull i q := tl (C (Pull i q)))"

definition first_item :: "nat list \<Rightarrow> nat" where
  "first_item xs = (case xs of [] \<Rightarrow> SHF_QIID_NONE | x # _ \<Rightarrow> x)"

lemma pulled_view:
  assumes "pull_ready i q C"
  shows "view i q (pulled i q C) = tl (view i q C)" "q' \<noteq> q \<Longrightarrow> view i q' (pulled i q C) = view i q' C"
    "(if C (Pull i q) = [] then SHF_QIID_NONE else hd (C (Pull i q))) = first_item (view i q C)"
    "others_same i C (pulled i q C)"
  using assms by (cases "C (Pull i q)"; auto simp: pull_ready_def view_def pulled_def first_item_def others_same_def split: list.split)+

lemma size_of:
  assumes "q_rep I n N k C s" "i \<in> I" "q < n"
  shows "qid_size (qids_nolock_pull (sys_proc s i) q) = length (C (Pull i q))"
    "qid_size (qids_nolock_push (sys_proc s i) q) = length (C (Push i q))"
    "qids_nolock_max (sys_proc s i) = k" "q_is_ready (sys_proc s i) \<noteq> 0"
  using q_repD(4) [OF assms(1), of "Pull i q"] q_repD(4) [OF assms(1), of "Push i q"] q_repD(2) [OF assms(1,2)] assms(2,3)
  by (simp_all add: holds_def attached_q_def)

lemma run_at:
  "f (sys_shm s, sys_proc s i) = Inr (r, g (sys_shm s, sys_proc s i)) \<Longrightarrow> q_run i f s = Inr (r, at_proc i g s)"
  by (simp add: q_run_def at_proc_def Let_def split: prod.split)

text \<open>Both operations that pull end in the same way.\<close>

lemma pull_end:
  assumes r: "q_rep I n N k C s" and i: "i \<in> I" "q < n"
    and go: "b \<or> C (Pull i q) \<noteq> []"
  defines "C' \<equiv> (if b then flushed n k i q C else C)"
  shows "q_rep I n N k (pulled i q C') (at_proc i (\<lambda>st. snd (q_pull_nolock q (if b then q_flush q st else st))) s)"
    "fst (q_pull_nolock q (if b then q_flush q (sys_shm s, sys_proc s i) else (sys_shm s, sys_proc s i))) = first_item (view i q C)"
    "view i q (pulled i q C') = tl (view i q C)" "q' \<noteq> q \<Longrightarrow> view i q' (pulled i q C') = view i q' C"
    "others_same i C (pulled i q C')"
proof -
  define s' where "s' = (if b then at_proc i (q_flush q) s else s)"
  have r': "q_rep I n N k C' s'" using r flush_rep [OF r i(1), of q] i(2) by (simp add: C'_def s'_def)
  have ready: "pull_ready i q C'"
    using go flushed_pulls [OF _ q_repD(5) [OF r] i(2) q_repD(7) [OF r]]
    by (cases "view i q C = []"; cases b) (auto simp: pull_ready_def C'_def)
  have e: "(sys_shm s', sys_proc s' i) = (if b then q_flush q (sys_shm s, sys_proc s i) else (sys_shm s, sys_proc s i))"
    by (simp add: s'_def at_proc_def Let_def split: prod.split)
  have "at_proc i (\<lambda>st. snd (q_pull_nolock q st)) s' = at_proc i (\<lambda>st. snd (q_pull_nolock q (if b then q_flush q st else st))) s"
    by (simp add: s'_def at_proc_comp)
  then show "q_rep I n N k (pulled i q C') (at_proc i (\<lambda>st. snd (q_pull_nolock q (if b then q_flush q st else st))) s)"
    using pull_rep(2) [OF r' i] by (simp add: pulled_def)
  note P = pulled_view [OF ready]
  have v: "view i x C' = view i x C" for x by (simp add: C'_def)
  show "fst (q_pull_nolock q (if b then q_flush q (sys_shm s, sys_proc s i) else (sys_shm s, sys_proc s i))) = first_item (view i q C)"
    unfolding e [symmetric] pull_rep(1) [OF r' i] P(3) v ..
  show "view i q (pulled i q C') = tl (view i q C)" "q' \<noteq> q \<Longrightarrow> view i q' (pulled i q C') = view i q' C"
    using P(1,2) v by simp_all
  have "others_same i C C'" using others_flushed by (simp add: C'_def others_same_def)
  then show "others_same i C (pulled i q C')" using P(4) others_same_trans by blast
qed

lemma pull_tail_at:
  assumes r: "q_rep I n N k C s" and i: "i \<in> I" "q < n"
  defines "C' \<equiv> pulled i q (if C (Pull i q) = [] then flushed n k i q C else C)"
  shows "\<exists>s'. q_run i (shf_q_pull_tail q) s = Inr (first_item (view i q C), s') \<and> q_rep I n N k C' s'"
    "view i q C' = tl (view i q C)" "q' \<noteq> q \<Longrightarrow> view i q' C' = view i q' C" "others_same i C C'"
proof -
  let ?st = "(sys_shm s, sys_proc s i)"
  define b where "b = (C (Pull i q) = [])"
  note Z = size_of [OF r i]
  note P = pull_end [OF r i, of b, folded C'_def [folded b_def]]
  have go: "b \<or> C (Pull i q) \<noteq> []" by (simp add: b_def)
  have "shf_q_pull_tail q ?st = Inr (q_pull_nolock q (if b then q_flush q ?st else ?st))"
    using Z by (simp add: shf_q_pull_tail_def shf_q_flush_def b_def del: bindE_Inr_iff)
  then have "shf_q_pull_tail q ?st = Inr (first_item (view i q C), snd (q_pull_nolock q (if b then q_flush q ?st else ?st)))"
    using P(2) [OF go] by (metis prod.collapse)
  from run_at [where f = "shf_q_pull_tail q" and g = "\<lambda>st. snd (q_pull_nolock q (if b then q_flush q st else st))", OF this]
  show "\<exists>s'. q_run i (shf_q_pull_tail q) s = Inr (first_item (view i q C), s') \<and> q_rep I n N k C' s'"
    using P(1) [OF go] by blast
  show "view i q C' = tl (view i q C)" "q' \<noteq> q \<Longrightarrow> view i q' C' = view i q' C" "others_same i C C'"
    using P(3-5) [OF go] by blast+
qed

lemma pull_tail_ok:
  assumes r: "q_rep I n N k C s" and i: "i \<in> I" "q < n"
  shows "\<exists>s' C'. q_run i (shf_q_pull_tail q) s = Inr (first_item (view i q C), s') \<and> q_rep I n N k C' s'
     \<and> view i q C' = tl (view i q C) \<and> (\<forall>q'. q' \<noteq> q \<longrightarrow> view i q' C' = view i q' C) \<and> others_same i C C'"
  using pull_tail_at [OF assms] by blast

text \<open>Pushing adds an item behind all that the process can reach.\<close>

definition unused :: "nat set \<Rightarrow> nat \<Rightarrow> nat \<Rightarrow> contents \<Rightarrow> nat \<Rightarrow> bool" where
  "unused I n N C x \<longleftrightarrow> x < N \<and> (\<forall>a \<in> places I n. x \<notin> set (C a))"

definition pushed :: "nat \<Rightarrow> nat \<Rightarrow> nat \<Rightarrow> contents \<Rightarrow> contents" where
  "pushed i q x C = C(Push i q := C (Push i q) @ [x])"

lemma pushed_view [simp]:
  "view i q (pushed i q x C) = view i q C @ [x]" "q' \<noteq> q \<Longrightarrow> view i q' (pushed i q x C) = view i q' C"
  "others_same i C (pushed i q x C)"
  by (simp_all add: view_def pushed_def others_same_def)

lemma push_head_at:
  assumes r: "q_rep I n N k C s" and i: "i \<in> I" "q < n" and x: "unused I n N C x"
  defines "C' \<equiv> (if k \<le> length (pushed i q x C (Push i q)) then flushed n k i SHF_QID_NONE (pushed i q x C) else pushed i q x C)"
  shows "\<exists>s'. q_run i (push_op q x) s = Inr ((), s') \<and> q_rep I n N k C' s'"
proof -
  let ?st = "(sys_shm s, sys_proc s i)" and ?C1 = "pushed i q x C"
  let ?s1 = "at_proc i (q_push_nolock q x) s"
  have r1: "q_rep I n N k ?C1 ?s1"
    unfolding pushed_def by (rule push_rep [OF r i]) (use x in \<open>simp_all add: unused_def\<close>)
  have ne: "x \<noteq> SHF_QIID_NONE" using x q_repD(1) [OF r] by (auto simp: unused_def q_none)
  define b where "b = (k \<le> length (?C1 (Push i q)))"
  have e1: "(sys_shm ?s1, sys_proc ?s1 i) = q_push_nolock q x ?st" by (simp add: at_proc_def Let_def split: prod.split)
  note Z1 = size_of [OF r1 i] and Z = size_of [OF r i]
  have snd1: "snd (q_push_nolock q x ?st) = sys_proc ?s1 i" by (simp add: e1 [symmetric])
  let ?g = "\<lambda>st. if b then q_flush SHF_QID_NONE (q_push_nolock q x st) else q_push_nolock q x st"
  have "push_op q x ?st = Inr ((), ?g ?st)"
    using Z(4) Z1(4) ne
    by (simp add: push_op_def shf_q_push_head_def shf_q_flush_def Let_def snd1 Z1(2,3) b_def del: bindE_Inr_iff)
  note run = run_at [where f = "push_op q x" and g = ?g, OF this]
  have C': "C' = (if b then flushed n k i SHF_QID_NONE ?C1 else ?C1)" by (simp add: C'_def b_def)
  have "q_rep I n N k C' (at_proc i ?g s)"
    using r1 flush_rep [OF r1 i(1), of SHF_QID_NONE] by (cases b) (simp_all add: C' at_proc_comp)
  with run show ?thesis by blast
qed

lemma push_head_ok:
  assumes r: "q_rep I n N k C s" and i: "i \<in> I" "q < n" and x: "unused I n N C x"
  shows "\<exists>s' C'. q_run i (push_op q x) s = Inr ((), s') \<and> q_rep I n N k C' s'
     \<and> view i q C' = view i q C @ [x] \<and> (\<forall>q'. q' \<noteq> q \<longrightarrow> view i q' C' = view i q' C) \<and> others_same i C C'
     \<and> length (C' (Push i q)) < k"
proof -
  let ?C1 = "pushed i q x C"
  define C' where "C' = (if k \<le> length (?C1 (Push i q)) then flushed n k i SHF_QID_NONE ?C1 else ?C1)"
  have "view i q C' = view i q C @ [x]" "\<forall>q'. q' \<noteq> q \<longrightarrow> view i q' C' = view i q' C" "others_same i C C'"
    using others_same_trans [OF pushed_view(3) others_flushed] by (simp_all add: C'_def)
  moreover have "length (C' (Push i q)) < k"
    using i(2) q_repD(5) [OF r] by (auto simp: C'_def flushed_def publish_def)
  ultimately show ?thesis using push_head_at [OF assms, folded C'_def] by blast
qed

text \<open>The combined operation is a push, when there is an item to push, and a pull.\<close>

lemma push_pull_at:
  assumes r: "q_rep I n N k C s" and i: "i \<in> I" "q < n" "q2 < n" and x: "x \<noteq> SHF_QIID_NONE \<longrightarrow> unused I n N C x"
  defines "C1 \<equiv> (if x \<noteq> SHF_QIID_NONE then pushed i q x C else C)"
  defines "C' \<equiv> pulled i q2 (if k \<le> length (C1 (Push i q)) \<or> C1 (Pull i q2) = [] then flushed n k i q2 C1 else C1)"
  shows "\<exists>s1. q_rep I n N k C1 s1"
    "\<exists>s'. q_run i (shf_q_push_head_pull_tail q x q2) s = Inr (first_item (view i q2 C1), s') \<and> q_rep I n N k C' s'"
    "view i q2 C' = tl (view i q2 C1)" "q' \<noteq> q2 \<Longrightarrow> view i q' C' = view i q' C1" "others_same i C1 C'"
proof -
  let ?st = "(sys_shm s, sys_proc s i)"
  let ?f = "\<lambda>st. if x \<noteq> SHF_QIID_NONE then q_push_nolock q x st else st"
  define s1 where "s1 = at_proc i ?f s"
  have r1: "q_rep I n N k C1 s1"
  proof (cases "x = SHF_QIID_NONE")
    case True
    then show ?thesis using r by (simp add: s1_def C1_def at_proc_id)
  next
    case False
    then have "q_rep I n N k (pushed i q x C) (at_proc i (q_push_nolock q x) s)"
      unfolding pushed_def using x by (intro push_rep [OF r i(1,2)]) (simp_all add: unused_def)
    then show ?thesis using False by (simp add: s1_def C1_def)
  qed
  have e1: "(sys_shm s1, sys_proc s1 i) = ?f ?st" by (simp add: s1_def at_proc_def Let_def split: prod.split)
  define b where "b = (k \<le> length (C1 (Push i q)) \<or> C1 (Pull i q2) = [])"
  note Z = size_of [OF r i(1,2)] and Z1 = size_of [OF r1 i(1,2)] and Z2 = size_of [OF r1 i(1,3)]
  have snd1: "snd (?f ?st) = sys_proc s1 i" by (simp only: e1 [symmetric] snd_conv)
  have go: "b \<or> C1 (Pull i q2) \<noteq> []" by (auto simp: b_def)
  note P = pull_end [OF r1 i(1,3) go]
  let ?h = "\<lambda>st. q_pull_nolock q2 (if b then q_flush q2 st else st)"
  have "q_is_ready (snd (?f ?st)) \<noteq> 0" unfolding snd1 by (fact Z1(4))
  then have fl: "shf_q_flush q2 (?f ?st) = Inr (q_flush q2 (?f ?st))"
    unfolding shf_q_flush_def by (rule assertE_simps(3))
  have rdy: "q_is_ready (snd ?st) \<noteq> 0" using Z(4) by simp
  have "(k \<le> length (C1 (Push i q)) \<or> length (C1 (Pull i q2)) = 0) = b" by (simp add: b_def)
  then have "shf_q_push_head_pull_tail q x q2 ?st = Inr (?h (?f ?st))"
    unfolding shf_q_push_head_pull_tail_def Let_def snd1 Z1(2,3) Z2(1) fl assertE_simps(3) [OF rdy]
    by (cases b) (simp_all only: if_True if_False bindE.simps)
  moreover have "fst (?h (?f ?st)) = first_item (view i q2 C1)" using P(2) unfolding e1 .
  ultimately have "shf_q_push_head_pull_tail q x q2 ?st = Inr (first_item (view i q2 C1), snd (?h (?f ?st)))"
    by (metis prod.collapse)
  note run = run_at [where f = "shf_q_push_head_pull_tail q x q2" and g = "\<lambda>st. snd (?h (?f st))", OF this]
  have "at_proc i (\<lambda>st. snd (?h st)) s1 = at_proc i (\<lambda>st. snd (?h (?f st))) s" by (simp add: s1_def at_proc_comp)
  then have rep: "q_rep I n N k (pulled i q2 (if b then flushed n k i q2 C1 else C1)) (at_proc i (\<lambda>st. snd (?h (?f st))) s)"
    using P(1) by simp
  show "\<exists>s1. q_rep I n N k C1 s1" using r1 by blast
  show "\<exists>s'. q_run i (shf_q_push_head_pull_tail q x q2) s = Inr (first_item (view i q2 C1), s') \<and> q_rep I n N k C' s'"
    using run rep by (auto simp: C'_def b_def)
  show "view i q2 C' = tl (view i q2 C1)" "q' \<noteq> q2 \<Longrightarrow> view i q' C' = view i q' C1" "others_same i C1 C'"
    using P(3-5) by (simp_all add: C'_def b_def)
qed

lemma push_pull_ok:
  assumes r: "q_rep I n N k C s" and i: "i \<in> I" "q < n" "q2 < n" and x: "x \<noteq> SHF_QIID_NONE \<longrightarrow> unused I n N C x"
  defines "C1 \<equiv> (if x \<noteq> SHF_QIID_NONE then pushed i q x C else C)"
  shows "\<exists>s' C'. q_run i (shf_q_push_head_pull_tail q x q2) s = Inr (first_item (view i q2 C1), s') \<and> q_rep I n N k C' s'
     \<and> view i q2 C' = tl (view i q2 C1) \<and> (\<forall>q'. q' \<noteq> q2 \<longrightarrow> view i q' C' = view i q' C1) \<and> others_same i C C'"
proof -
  have "others_same i C C1" using pushed_view(3) by (simp add: C1_def others_same_def)
  then show ?thesis using push_pull_at [OF r i x, folded C1_def] others_same_trans by blast
qed

end
