(* ===== verification/Shf_QueueSys.thy ===== *)
theory Shf_QueueSys
  imports Shf_Queue
begin

text \<open>
  What the queue operations promise together: the arrays a creator sets up, the hand-over of items
  that one process sees, and the conservation of items when any number of processes work on the
  same queues in any order.
\<close>

section \<open>The items in all queues\<close>

definition items_in :: "nat set \<Rightarrow> nat \<Rightarrow> contents \<Rightarrow> nat set" where
  "items_in I n C = (\<Union>a \<in> places I n. set (C a))"

lemma unused_items: "unused I n N C x \<longleftrightarrow> x < N \<and> x \<notin> items_in I n C"
  by (auto simp: unused_def items_in_def)

lemma items_in_view:
  assumes "i \<in> I"
  shows "items_in I n C = (\<Union>q < n. set (view i q C)) \<union> (\<Union>j \<in> I - {i}. \<Union>q < n. set (C (Push j q)) \<union> set (C (Pull j q)))"
    (is "_ = ?r")
proof
  show "items_in I n C \<subseteq> ?r"
  proof
    fix x assume "x \<in> items_in I n C"
    then obtain a where a: "a \<in> places I n" "x \<in> set (C a)" by (auto simp: items_in_def)
    show "x \<in> ?r"
    proof (cases a)
      case (Locked q)
      then show ?thesis using a by (auto simp: view_def)
    next
      case (Push j q)
      then show ?thesis using a by (cases "j = i") (auto simp: view_def)
    next
      case (Pull j q)
      then show ?thesis using a by (cases "j = i") (auto simp: view_def)
    qed
  qed
  show "?r \<subseteq> items_in I n C"
  proof
    fix x assume "x \<in> ?r"
    then consider q where "q < n" "x \<in> set (view i q C)" | j q where "j \<in> I" "q < n" "x \<in> set (C (Push j q)) \<union> set (C (Pull j q))"
      by blast
    then show "x \<in> items_in I n C"
    proof cases
      case 1
      then have "x \<in> set (C (Pull i q)) \<or> x \<in> set (C (Locked q)) \<or> x \<in> set (C (Push i q))" by (simp add: view_def)
      moreover have "Pull i q \<in> places I n" "Locked q \<in> places I n" "Push i q \<in> places I n" using 1(1) assms by simp_all
      ultimately show ?thesis unfolding items_in_def by blast
    next
      case 2
      then have "Pull j q \<in> places I n" "Push j q \<in> places I n" by simp_all
      then show ?thesis using 2(3) unfolding items_in_def by blast
    qed
  qed
qed

lemma view_apart:
  assumes A: "apart_in (places I n) N C" and i: "i \<in> I" "q < n"
  shows "distinct (view i q C)" "q' < n \<Longrightarrow> q' \<noteq> q \<Longrightarrow> x \<in> set (view i q C) \<Longrightarrow> x \<notin> set (view i q' C)"
    "j \<in> I \<Longrightarrow> j \<noteq> i \<Longrightarrow> q' < n \<Longrightarrow> x \<in> set (view i q C) \<Longrightarrow> x \<notin> set (C (Push j q')) \<union> set (C (Pull j q'))"
proof -
  have p: "Pull i q \<in> places I n" "Locked q \<in> places I n" "Push i q \<in> places I n" using i by simp_all
  note D = apart_inD(3) [OF A]
  have "x \<in> set (C (Pull i q)) \<Longrightarrow> x \<notin> set (C (Locked q)) \<and> x \<notin> set (C (Push i q))"
    "x \<in> set (C (Locked q)) \<Longrightarrow> x \<notin> set (C (Push i q))" for x
    using D [OF p(1,2)] D [OF p(1,3)] D [OF p(2,3)] by blast+
  then show "distinct (view i q C)"
    using apart_inD(1) [OF A p(1)] apart_inD(1) [OF A p(2)] apart_inD(1) [OF A p(3)] by (auto simp: view_def)
  show "x \<notin> set (view i q' C)" if q': "q' < n" "q' \<noteq> q" "x \<in> set (view i q C)"
  proof -
    have "Pull i q' \<in> places I n" "Locked q' \<in> places I n" "Push i q' \<in> places I n" using i q' by simp_all
    then show ?thesis using q' D p unfolding view_def set_append by blast
  qed
  show "x \<notin> set (C (Push j q')) \<union> set (C (Pull j q'))" if j: "j \<in> I" "j \<noteq> i" "q' < n" "x \<in> set (view i q C)"
  proof -
    have "Pull j q' \<in> places I n" "Push j q' \<in> places I n" using j by simp_all
    then show ?thesis using j D p unfolding view_def set_append by blast
  qed
qed

lemma items_others:
  assumes "i \<in> I" "others_same i C C'" "\<And>q. q < n \<Longrightarrow> set (view i q C') = set (view i q C)"
  shows "items_in I n C' = items_in I n C"
  using assms by (simp add: items_in_view others_same_def)

text \<open>What a pull and a push do to the items in the queues.\<close>

lemma items_pull:
  assumes r: "q_rep I n N k C s" and i: "i \<in> I" "q < n" and v: "view i q C' = tl (view i q C)"
    "\<forall>q'. q' \<noteq> q \<longrightarrow> view i q' C' = view i q' C" "others_same i C C'"
  shows "items_in I n C' = items_in I n C - {first_item (view i q C)}"
proof (cases "view i q C")
  case Nil
  then have "view i q' C' = view i q' C" for q' using v by (cases "q' = q") auto
  then have "items_in I n C' = items_in I n C" using v(3) i(1) by (intro items_others) auto
  moreover have "SHF_QIID_NONE \<notin> items_in I n C"
    using apart_none [OF q_repD(3) [OF r] _ q_repD(1) [OF r]] by (auto simp: items_in_def)
  ultimately show ?thesis by (simp add: Nil first_item_def)
next
  case (Cons x xs)
  note A = view_apart [OF q_repD(3) [OF r] i]
  have o: "(\<Union>j \<in> I - {i}. \<Union>q < n. set (C' (Push j q)) \<union> set (C' (Pull j q))) = (\<Union>j \<in> I - {i}. \<Union>q < n. set (C (Push j q)) \<union> set (C (Pull j q)))"
    using v(3) by (simp add: others_same_def)
  have vs: "set (view i q' C') = set (view i q' C) - {x}" if "q' < n" for q'
  proof (cases "q' = q")
    case True
    then show ?thesis using A(1) Cons v(1) by auto
  next
    case False
    then show ?thesis using A(2) [OF that False, of x] Cons v(2) by simp
  qed
  have "x \<notin> (\<Union>j \<in> I - {i}. \<Union>q < n. set (C (Push j q)) \<union> set (C (Pull j q)))"
    using A(3) [where x = x] Cons by auto
  then show ?thesis unfolding items_in_view [OF i(1)] o Cons first_item_def using vs by auto
qed

lemma items_push:
  assumes i: "i \<in> I" "q < n" and v: "view i q C' = view i q C @ [x]"
    "\<forall>q'. q' \<noteq> q \<longrightarrow> view i q' C' = view i q' C" "others_same i C C'"
  shows "items_in I n C' = insert x (items_in I n C)"
proof -
  have vs: "set (view i q' C') = (if q' = q then insert x (set (view i q' C)) else set (view i q' C))" for q'
    using v(1,2) by simp
  have o: "(\<Union>j \<in> I - {i}. \<Union>q < n. set (C' (Push j q)) \<union> set (C' (Pull j q))) = (\<Union>j \<in> I - {i}. \<Union>q < n. set (C (Push j q)) \<union> set (C (Pull j q)))"
    using v(3) by (simp add: others_same_def)
  show ?thesis unfolding items_in_view [OF i(1)] o using vs i(2) by auto
qed

section \<open>The contract of one process\<close>

text \<open>
  A queue hands items over: the client may push what it holds, and holds what it has pulled. \<open>rep\<close>
  relates a state to the items in the queue and to those the client holds.
\<close>

primrec push_list :: "('x \<Rightarrow> 's \<Rightarrow> 'e + unit \<times> 's) \<Rightarrow> 'x list \<Rightarrow> 's \<Rightarrow> 'e + 's" where
  "push_list push [] s = Inr s"
| "push_list push (x # xs) s = bindE (push x s) (\<lambda>(_, s). push_list push xs s)"

primrec pull_list :: "('s \<Rightarrow> 'e + 'x \<times> 's) \<Rightarrow> nat \<Rightarrow> 's \<Rightarrow> 'e + 'x list \<times> 's" where
  "pull_list pull 0 s = Inr ([], s)"
| "pull_list pull (Suc j) s = bindE (pull s) (\<lambda>(x, s). bindE (pull_list pull j s) (\<lambda>(xs, s). Inr (x # xs, s)))"

locale handover_queue =
  fixes rep :: "'s \<Rightarrow> 'x list \<Rightarrow> 'x set \<Rightarrow> bool" and push :: "'x \<Rightarrow> 's \<Rightarrow> 'e + unit \<times> 's"
    and pull :: "'s \<Rightarrow> 'e + 'x \<times> 's" and none :: 'x
  assumes push_law: "rep s xs H \<Longrightarrow> x \<in> H \<Longrightarrow> \<exists>s'. push x s = Inr ((), s') \<and> rep s' (xs @ [x]) (H - {x})"
    and pull_law: "rep s (x # xs) H \<Longrightarrow> \<exists>s'. pull s = Inr (x, s') \<and> rep s' xs (insert x H)"
    and pull_none: "rep s [] H \<Longrightarrow> \<exists>s'. pull s = Inr (none, s') \<and> rep s' [] H"
begin

lemma push_list_ok:
  "rep s xs H \<Longrightarrow> distinct ys \<Longrightarrow> set ys \<subseteq> H \<Longrightarrow> \<exists>s'. push_list push ys s = Inr s' \<and> rep s' (xs @ ys) (H - set ys)"
proof (induction ys arbitrary: s xs H)
  case (Cons y ys)
  obtain s1 where s1: "push y s = Inr ((), s1)" "rep s1 (xs @ [y]) (H - {y})"
    using push_law [OF Cons.prems(1), of y] Cons.prems(3) by auto
  have "distinct ys" "set ys \<subseteq> H - {y}" using Cons.prems(2,3) by auto
  then obtain s' where "push_list push ys s1 = Inr s'" "rep s' ((xs @ [y]) @ ys) (H - {y} - set ys)"
    using Cons.IH [OF s1(2)] by blast
  moreover have "H - {y} - set ys = H - set (y # ys)" by auto
  ultimately show ?case using s1(1) by simp
qed simp

lemma pull_list_ok:
  "rep s (xs @ ys) H \<Longrightarrow> \<exists>s'. pull_list pull (length xs) s = Inr (xs, s') \<and> rep s' ys (H \<union> set xs)"
proof (induction xs arbitrary: s H)
  case (Cons x xs)
  obtain s1 where s1: "pull s = Inr (x, s1)" "rep s1 (xs @ ys) (insert x H)"
    using pull_law [of s x "xs @ ys" H] Cons.prems by auto
  obtain s' where "pull_list pull (length xs) s1 = Inr (xs, s')" "rep s' ys (insert x H \<union> set xs)"
    using Cons.IH [OF s1(2)] by blast
  then show ?case using s1(1) by simp
qed simp

lemma fifo_order:
  assumes "rep s xs H" "distinct ys" "set ys \<subseteq> H"
  shows "\<exists>s1 s2 s3. push_list push ys s = Inr s1 \<and> pull_list pull (length xs + length ys) s1 = Inr (xs @ ys, s2)
     \<and> pull s2 = Inr (none, s3) \<and> rep s3 [] (H \<union> set xs)"
proof -
  obtain s1 where s1: "push_list push ys s = Inr s1" "rep s1 ((xs @ ys) @ []) (H - set ys)"
    using push_list_ok [OF assms] by auto
  obtain s2 where s2: "pull_list pull (length (xs @ ys)) s1 = Inr (xs @ ys, s2)" "rep s2 [] (H - set ys \<union> set (xs @ ys))"
    using pull_list_ok [OF s1(2)] by blast
  have "H - set ys \<union> set (xs @ ys) = H \<union> set xs" using assms(3) by auto
  then obtain s3 where "pull s2 = Inr (none, s3)" "rep s3 [] (H \<union> set xs)" using pull_none [OF s2(2)] by auto
  then show ?thesis using s1(1) s2(1) by auto
qed

end

definition hands :: "nat set \<Rightarrow> nat \<Rightarrow> nat \<Rightarrow> nat \<Rightarrow> nat \<Rightarrow> nat \<Rightarrow> q_sys \<Rightarrow> nat list \<Rightarrow> nat set \<Rightarrow> bool" where
  "hands I n N k i q s xs H \<longleftrightarrow> i \<in> I \<and> q < n \<and> (\<exists>C. q_rep I n N k C s \<and> view i q C = xs \<and> (\<forall>x \<in> H. unused I n N C x))"

lemma hands_push:
  assumes "hands I n N k i q s xs H" "x \<in> H"
  shows "\<exists>s'. q_run i (push_op q x) s = Inr ((), s') \<and> hands I n N k i q s' (xs @ [x]) (H - {x})"
proof -
  obtain C where C: "i \<in> I" "q < n" "q_rep I n N k C s" "view i q C = xs" "\<forall>x \<in> H. unused I n N C x"
    using assms(1) by (auto simp: hands_def)
  obtain s' C' where s': "q_run i (push_op q x) s = Inr ((), s')" "q_rep I n N k C' s'" "view i q C' = view i q C @ [x]"
    "\<forall>q'. q' \<noteq> q \<longrightarrow> view i q' C' = view i q' C" "others_same i C C'"
    using push_head_ok [OF C(3,1,2)] C(5) assms(2) by blast
  have "items_in I n C' = insert x (items_in I n C)" using items_push [OF C(1,2) s'(3,4,5)] .
  then have "\<forall>y \<in> H - {x}. unused I n N C' y" using C(5) by (auto simp: unused_items)
  then show ?thesis using s' C(1,2,4) by (auto simp: hands_def)
qed

lemma hands_pull:
  assumes "hands I n N k i q s xs H"
  shows "\<exists>s'. q_run i (shf_q_pull_tail q) s = Inr (first_item xs, s')
     \<and> hands I n N k i q s' (tl xs) (if xs = [] then H else insert (hd xs) H)"
proof -
  obtain C where C: "i \<in> I" "q < n" "q_rep I n N k C s" "view i q C = xs" "\<forall>x \<in> H. unused I n N C x"
    using assms by (auto simp: hands_def)
  obtain s' C' where s': "q_run i (shf_q_pull_tail q) s = Inr (first_item xs, s')" "q_rep I n N k C' s'" "view i q C' = tl (view i q C)"
    "\<forall>q'. q' \<noteq> q \<longrightarrow> view i q' C' = view i q' C" "others_same i C C'"
    using pull_tail_ok [OF C(3,1,2)] C(4) by blast
  have it: "items_in I n C' = items_in I n C - {first_item xs}" using items_pull [OF C(3,1,2) s'(3,4,5)] C(4) by simp
  have "unused I n N C' (hd xs)" if "xs \<noteq> []"
  proof -
    have "hd xs \<in> set (view i q C)" using C(4) that by simp
    then have "hd xs \<in> items_in I n C" unfolding items_in_view [OF C(1)] using C(2) by blast
    then have "hd xs < N" using apart_inD(2) [OF q_repD(3) [OF C(3)]] by (auto simp: items_in_def)
    then show ?thesis using it that by (cases xs) (simp_all add: unused_items first_item_def)
  qed
  then have "\<forall>y \<in> (if xs = [] then H else insert (hd xs) H). unused I n N C' y"
    using C(5) it by (auto simp: unused_items)
  then show ?thesis using s' C(1,2,4) by (auto simp: hands_def)
qed

interpretation hq: handover_queue "hands I n N k i q" "\<lambda>x. q_run i (push_op q x)" "q_run i (shf_q_pull_tail q)" SHF_QIID_NONE
  for I n N k i q
proof
  show "\<exists>s'. q_run i (push_op q x) s = Inr ((), s') \<and> hands I n N k i q s' (xs @ [x]) (H - {x})"
    if "hands I n N k i q s xs H" "x \<in> H" for s xs H x using hands_push [OF that] .
  show "\<exists>s'. q_run i (shf_q_pull_tail q) s = Inr (x, s') \<and> hands I n N k i q s' xs (insert x H)"
    if "hands I n N k i q s (x # xs) H" for s x xs H using hands_pull [OF that] by (simp add: first_item_def)
  show "\<exists>s'. q_run i (shf_q_pull_tail q) s = Inr (SHF_QIID_NONE, s') \<and> hands I n N k i q s' [] H"
    if "hands I n N k i q s [] H" for s H using hands_pull [OF that] by (simp add: first_item_def)
qed


section \<open>Creating the queues\<close>

text \<open>
  The loops of \<open>shf_q_new\<close> over the arrays, once the memory for them has been reserved: every queue
  is emptied, the items are chained and labelled with their number, and queue 0 gets them all.
\<close>

definition hex_digit :: "nat \<Rightarrow> byte" where
  "hex_digit d = of_nat (if d < 10 then 48 + d else 87 + d)"

text \<open>\<open>snprintf(..., 9, "%08x", i)\<close>.\<close>

definition hex8 :: "nat \<Rightarrow> byte list" where
  "hex8 i = map (\<lambda>j. hex_digit (i div 16 ^ (7 - j) mod 16)) [0..<8] @ [0]"

text \<open>The private queues of a process, as \<open>shf_q_new\<close> and \<open>shf_q_get\<close> empty them.\<close>

definition q_get_qid :: "nat \<Rightarrow> q_proc \<Rightarrow> q_proc" where
  "q_get_qid i p = p\<lparr>qids_nolock_push := (qids_nolock_push p)(i := empty_qid),
     qids_nolock_pull := (qids_nolock_pull p)(i := empty_qid)\<rparr>"

definition q_new_qid :: "nat \<Rightarrow> q_st \<Rightarrow> q_st" where
  "q_new_qid i = (\<lambda>(m, p). (m\<lparr>qids := (qids m)(i := empty_qid)\<rparr>, q_get_qid i p))"

definition q_new_qiid :: "nat \<Rightarrow> nat \<Rightarrow> q_shm \<Rightarrow> shf_error + q_shm" where
  "q_new_qiid item_size i m =
     (let m = m\<lparr>qiids := (qiids m)(i := \<lparr>qiid_last = u32_sub i 1, qiid_next = u32 (i + 1)\<rparr>)\<rparr>
      in bindE (assertE (9 \<le> item_size) Bad_argument) (\<lambda>_.
         Inr (m\<lparr>q_item_mem := (\<lambda>a. if u32 (i * item_size) \<le> a \<and> a < u32 (i * item_size) + 9
                 then hex8 i ! (a - u32 (i * item_size)) else q_item_mem m a)\<rparr>)))"

primrec q_new_qiids :: "nat \<Rightarrow> nat list \<Rightarrow> q_shm \<Rightarrow> shf_error + q_shm" where
  "q_new_qiids item_size [] m = Inr m"
| "q_new_qiids item_size (i # is) m = bindE (q_new_qiid item_size i m) (q_new_qiids item_size is)"

definition q_new_arrays :: "q_st \<Rightarrow> shf_error + q_st" where
  "q_new_arrays st =
     (let (m, p) = fold q_new_qid [0..<qs (snd st)] st; n = q_items p
      in bindE (q_new_qiids (q_item_size p) [0..<n] m) (\<lambda>m.
         let m = m\<lparr>qiids := (qiids m)(0 := (qiids m 0)\<lparr>qiid_last := SHF_QID_NONE\<rparr>)\<rparr>;
             m = m\<lparr>qiids := (qiids m)(n - 1 := (qiids m (n - 1))\<lparr>qiid_next := SHF_QID_NONE\<rparr>)\<rparr>;
             m = m\<lparr>qids := (qids m)(0 := \<lparr>qid_head = n - 1, qid_tail = 0, qid_size = n\<rparr>)\<rparr>
         in Inr (m, p\<lparr>q_is_ready := 1\<rparr>)))"

definition q_get_arrays :: "q_proc \<Rightarrow> q_proc" where
  "q_get_arrays p = (fold q_get_qid [0..<qs p] p)\<lparr>q_is_ready := 1\<rparr>"

lemma fold_get_qid:
  "fold q_get_qid is p = p\<lparr>qids_nolock_push := (\<lambda>i. if i \<in> set is then empty_qid else qids_nolock_push p i),
     qids_nolock_pull := (\<lambda>i. if i \<in> set is then empty_qid else qids_nolock_pull p i)\<rparr>"
proof (induction "is" arbitrary: p)
  case (Cons i "is")
  then show ?case by (simp add: q_get_qid_def fun_eq_iff)
qed simp

lemma fold_new_qid:
  "fold q_new_qid is (m, p) = (m\<lparr>qids := (\<lambda>i. if i \<in> set is then empty_qid else qids m i)\<rparr>, fold q_get_qid is p)"
proof (induction "is" arbitrary: m p)
  case (Cons i "is")
  then show ?case by (simp add: q_new_qid_def fun_eq_iff)
qed simp

text \<open>The links and the labels of all items.\<close>

lemma new_qiids_ok:
  assumes "9 \<le> sz" "\<And>i. i \<in> set is \<Longrightarrow> i * sz + 9 < 4294967296" "distinct is"
  shows "\<exists>mem. q_new_qiids sz is m = Inr (m\<lparr>qiids := (\<lambda>x. if x \<in> set is then \<lparr>qiid_last = u32_sub x 1, qiid_next = u32 (x + 1)\<rparr>
        else qiids m x), q_item_mem := mem\<rparr>)
     \<and> (\<forall>i \<in> set is. \<forall>j < 9. mem (i * sz + j) = hex8 i ! j)
     \<and> (\<forall>a. (\<forall>i \<in> set is. a < i * sz \<or> i * sz + 9 \<le> a) \<longrightarrow> mem a = q_item_mem m a)"
  using assms(2,3)
proof (induction "is" arbitrary: m)
  case (Cons i "is")
  define m1 where "m1 = m\<lparr>qiids := (qiids m)(i := \<lparr>qiid_last = u32_sub i 1, qiid_next = u32 (i + 1)\<rparr>),
    q_item_mem := (\<lambda>a. if i * sz \<le> a \<and> a < i * sz + 9 then hex8 i ! (a - i * sz) else q_item_mem m a)\<rparr>"
  have run: "q_new_qiids sz (i # is) m = q_new_qiids sz is m1"
    using assms(1) Cons.prems(1) [of i] by (simp add: q_new_qiid_def m1_def Let_def cong: if_cong)
  obtain mem where mem: "q_new_qiids sz is m1 = Inr (m1\<lparr>qiids := (\<lambda>x. if x \<in> set is then \<lparr>qiid_last = u32_sub x 1, qiid_next = u32 (x + 1)\<rparr>
        else qiids m1 x), q_item_mem := mem\<rparr>)"
    "\<forall>i \<in> set is. \<forall>j < 9. mem (i * sz + j) = hex8 i ! j"
    "\<forall>a. (\<forall>i \<in> set is. a < i * sz \<or> i * sz + 9 \<le> a) \<longrightarrow> mem a = q_item_mem m1 a"
    using Cons.IH [of m1] Cons.prems by auto
  have far: "i * sz + j < x * sz \<or> x * sz + 9 \<le> i * sz + j" if "x \<in> set is" "j < 9" for x j
  proof (cases "i < x")
    case True
    then have "(i + 1) * sz \<le> x * sz" by (intro mult_le_mono1) simp
    then show ?thesis using assms(1) that by simp
  next
    case False
    then have "x < i" using Cons.prems(2) that(1) by (cases "x = i") auto
    then have "(x + 1) * sz \<le> i * sz" by (intro mult_le_mono1) simp
    then show ?thesis using assms(1) by simp
  qed
  have "mem (i * sz + j) = hex8 i ! j" if "j < 9" for j
    using mem(3) [rule_format, of "i * sz + j"] far that by (simp add: m1_def)
  moreover have "mem a = q_item_mem m a" if "\<forall>x \<in> set (i # is). a < x * sz \<or> x * sz + 9 \<le> a" for a
    using mem(3) that by (auto simp: m1_def)
  moreover have "m1\<lparr>qiids := (\<lambda>x. if x \<in> set is then \<lparr>qiid_last = u32_sub x 1, qiid_next = u32 (x + 1)\<rparr> else qiids m1 x), q_item_mem := mem\<rparr>
      = m\<lparr>qiids := (\<lambda>x. if x \<in> set (i # is) then \<lparr>qiid_last = u32_sub x 1, qiid_next = u32 (x + 1)\<rparr> else qiids m x), q_item_mem := mem\<rparr>"
    by (auto simp: m1_def fun_eq_iff)
  ultimately show ?case using mem(1,2) unfolding run by (intro exI [of _ mem]) auto
next
  case Nil
  show ?case by (intro exI [of _ "q_item_mem m"]) simp
qed

definition all_free :: "nat \<Rightarrow> contents" where
  "all_free N = (\<lambda>a. if a = Locked 0 then [0..<N] else [])"

lemma chain_upt: "\<lbrakk>\<And>x. a \<le> x \<Longrightarrow> x < b - 1 \<Longrightarrow> nx x = Suc x\<rbrakk> \<Longrightarrow> chain nx [a..<b]"
proof (induction "b - a" arbitrary: a)
  case (Suc d)
  then have ab: "a < b" by simp
  show ?case
  proof (cases "Suc a < b")
    case True
    have "chain nx [Suc a..<b]" using Suc by (intro Suc(1)) auto
    then show ?thesis using Suc(3) [of a] True by (simp add: upt_rec [of a] upt_rec [of "Suc a"])
  next
    case False
    then show ?thesis using ab by (simp add: upt_rec [of a])
  qed
qed simp

lemma new_arrays_ok:
  assumes p: "0 < qs p" "qs p < 4294967296" "0 < qids_nolock_max p" "qids_nolock_max p < q_items p" "9 \<le> q_item_size p"
    "q_items p * q_item_size p < 4294967296"
  shows "\<exists>m' p'. q_new_arrays (m, p) = Inr (m', p')
     \<and> q_rep {i} (qs p) (q_items p) (qids_nolock_max p) (all_free (q_items p)) \<lparr>sys_shm = m', sys_proc = ps(i := p')\<rparr>
     \<and> q_item_size p' = q_item_size p
     \<and> (\<forall>x < q_items p. \<forall>j < 9. q_item_mem m' (x * q_item_size p + j) = hex8 x ! j)"
proof -
  let ?n = "qs p" and ?N = "q_items p" and ?sz = "q_item_size p"
  let ?m1 = "m\<lparr>qids := (\<lambda>i. if i < ?n then empty_qid else qids m i)\<rparr>" and ?p1 = "fold q_get_qid [0..<?n] p"
  have N: "1 < ?N" using p by simp
  have fits: "x * ?sz + 9 < 4294967296" if "x < ?N" for x
  proof -
    have "(x + 1) * ?sz \<le> ?N * ?sz" using that by (intro mult_le_mono1) simp
    then show ?thesis using p(5,6) by simp
  qed
  have NN: "?N < 4294967296" using mult_le_mono2 [of 1 ?sz ?N] p(5,6) by linarith
  obtain mem where mem: "q_new_qiids ?sz [0..<?N] ?m1 = Inr (?m1\<lparr>qiids := (\<lambda>x. if x < ?N then \<lparr>qiid_last = u32_sub x 1, qiid_next = u32 (x + 1)\<rparr>
        else qiids ?m1 x), q_item_mem := mem\<rparr>)" "\<forall>x < ?N. \<forall>j < 9. mem (x * ?sz + j) = hex8 x ! j"
    using new_qiids_ok [OF p(5), of "[0..<?N]" ?m1] fits by auto
  have pr: "q_items ?p1 = ?N" "q_item_size ?p1 = ?sz" "qs ?p1 = ?n" "qids_nolock_max ?p1 = qids_nolock_max p"
    "\<And>q. q < ?n \<Longrightarrow> qids_nolock_push ?p1 q = empty_qid" "\<And>q. q < ?n \<Longrightarrow> qids_nolock_pull ?p1 q = empty_qid"
    by (simp_all add: fold_get_qid)
  obtain m' where run: "q_new_arrays (m, p) = Inr (m', ?p1\<lparr>q_is_ready := 1\<rparr>)"
    and m': "qids m' = (qids ?m1)(0 := \<lparr>qid_head = ?N - 1, qid_tail = 0, qid_size = ?N\<rparr>)" "q_item_mem m' = mem"
    "\<And>x. x < ?N \<Longrightarrow> nexts (qiids m') x = (if x = ?N - 1 then SHF_QIID_NONE else x + 1)"
  proof
    let ?q = "\<lambda>x. if x < ?N then \<lparr>qiid_last = u32_sub x 1, qiid_next = u32 (x + 1)\<rparr> else qiids ?m1 x"
    let ?q0 = "?q(0 := (?q 0)\<lparr>qiid_last := SHF_QID_NONE\<rparr>)"
    let ?q1 = "?q0(?N - 1 := (?q0 (?N - 1))\<lparr>qiid_next := SHF_QID_NONE\<rparr>)"
    let ?m' = "?m1\<lparr>qiids := ?q1, q_item_mem := mem, qids := (qids ?m1)(0 := \<lparr>qid_head = ?N - 1, qid_tail = 0, qid_size = ?N\<rparr>)\<rparr>"
    show "q_new_arrays (m, p) = Inr (?m', ?p1\<lparr>q_is_ready := 1\<rparr>)"
      using mem(1) by (simp add: q_new_arrays_def fold_new_qid pr Let_def atLeast0LessThan del: bindE_Inr_iff)
    show "qids ?m' = (qids ?m1)(0 := \<lparr>qid_head = ?N - 1, qid_tail = 0, qid_size = ?N\<rparr>)" "q_item_mem ?m' = mem" by simp_all
    show "nexts (qiids ?m') x = (if x = ?N - 1 then SHF_QIID_NONE else x + 1)" if "x < ?N" for x
      using that NN by (auto simp: q_none)
  qed
  let ?s = "\<lparr>sys_shm = m', sys_proc = ps(i := ?p1\<lparr>q_is_ready := 1\<rparr>)\<rparr>"
  have free: "holds (qiids m') (qids m' 0) [0..<?N]"
    using N m'(3) chain_upt [of 0 ?N "nexts (qiids m')"] by (simp add: holds_def ends_def m'(1))
  have "holds (qiids m') (header ?s a) (all_free ?N a)" if "a \<in> places {i} ?n" for a
    using that free by (cases a) (auto simp: all_free_def pr m'(1))
  moreover have "apart_in (places {i} ?n) ?N (all_free ?N)" by (auto simp: apart_in_def all_free_def)
  moreover have "attached_q ?n ?N (qids_nolock_max p) (?p1\<lparr>q_is_ready := 1\<rparr>)" by (simp add: attached_q_def pr)
  ultimately have "q_rep {i} ?n ?N (qids_nolock_max p) (all_free ?N) ?s" using p NN by (simp add: q_rep_def)
  moreover have "q_item_size (?p1\<lparr>q_is_ready := 1\<rparr>) = ?sz" by (simp add: pr)
  moreover have "\<forall>x < ?N. \<forall>j < 9. q_item_mem m' (x * ?sz + j) = hex8 x ! j" using mem(2) by (simp add: m'(2))
  ultimately show ?thesis using run by blast
qed

text \<open>A process that joins has nothing pulled and nothing to publish.\<close>

lemma q_rep_join:
  assumes r: "q_rep I n N k C s" and j: "j \<notin> I" and p: "qs p = n" "q_items p = N" "qids_nolock_max p = k"
  shows "\<exists>C'. q_rep (insert j I) n N k C' (s\<lparr>sys_proc := (sys_proc s)(j := q_get_arrays p)\<rparr>)
     \<and> (\<forall>a \<in> places I n. C' a = C a) \<and> items_in (insert j I) n C' = items_in I n C"
proof -
  define C' where "C' = (\<lambda>a. if a \<in> places I n then C a else [])"
  let ?s = "s\<lparr>sys_proc := (sys_proc s)(j := q_get_arrays p)\<rparr>"
  note R = q_repD [OF r]
  have sub: "places I n \<subseteq> places (insert j I) n" by (auto simp: places_def)
  have "holds (qiids (sys_shm ?s)) (header ?s a) (C' a)" if a: "a \<in> places (insert j I) n" for a
    using R(4) [of a] a j by (cases a) (auto simp: C'_def q_get_arrays_def fold_get_qid p)
  moreover have "apart_in (places (insert j I) n) N C'"
  proof -
    have "set (C' a) \<inter> set (C' b) = {}" if "a \<noteq> b" for a b
      using R(3) that unfolding apart_in_def C'_def by (cases "a \<in> places I n"; cases "b \<in> places I n") simp_all
    then show ?thesis using R(3) by (auto simp: apart_in_def C'_def)
  qed
  moreover have "\<forall>i \<in> insert j I. attached_q n N k (sys_proc ?s i)"
    using R(2) p by (auto simp: attached_q_def q_get_arrays_def fold_get_qid)
  ultimately have "q_rep (insert j I) n N k C' ?s" using R(1,5-7) by (simp add: q_rep_def)
  moreover have "items_in (insert j I) n C' = items_in I n C"
    using sub by (auto simp: items_in_def C'_def)
  moreover have "\<forall>a \<in> places I n. C' a = C a" by (simp add: C'_def)
  ultimately show ?thesis by blast
qed

section \<open>Any number of processes\<close>

text \<open>
  The steps of the processes \<open>I\<close>: the part of a push, or of a pull, that is done without the lock, and
  a flush, which is done under it. \<open>H\<close> is what each process holds: items it has pulled and not
  pushed since.
\<close>

type_synonym q_conf = "(nat \<Rightarrow> nat set) \<times> q_sys"

inductive q_step :: "nat set \<Rightarrow> nat \<Rightarrow> q_conf \<Rightarrow> q_conf \<Rightarrow> bool" for I n where
  push_step: "i \<in> I \<Longrightarrow> q < n \<Longrightarrow> x \<in> H i \<Longrightarrow>
    q_step I n (H, s) (H(i := H i - {x}), at_proc i (q_push_nolock q x) s)"
| flush_step: "i \<in> I \<Longrightarrow> q = SHF_QID_NONE \<or> q < n \<Longrightarrow> q_step I n (H, s) (H, at_proc i (q_flush q) s)"
| pull_step: "i \<in> I \<Longrightarrow> q < n \<Longrightarrow> r = fst (q_pull_nolock q (sys_shm s, sys_proc s i)) \<Longrightarrow>
    q_step I n (H, s) (H(i := if r = SHF_QIID_NONE then H i else insert r (H i)),
      at_proc i (\<lambda>st. snd (q_pull_nolock q st)) s)"

inductive_cases q_stepE: "q_step I n (H, s) c"

text \<open>Every operation is a sequence of these steps, with which those of other processes may interleave.\<close>

lemma q_run_state: "q_run i f s = Inr (r, s') \<Longrightarrow> f (sys_shm s, sys_proc s i) = Inr (r, sys_shm s', sys_proc s' i)
    \<and> s' = s\<lparr>sys_shm := sys_shm s', sys_proc := (sys_proc s)(i := sys_proc s' i)\<rparr>"
  by (auto simp: q_run_def)

lemma at_proc_state: "f (sys_shm s, sys_proc s i) = (m, p) \<Longrightarrow> at_proc i f s = s\<lparr>sys_shm := m, sys_proc := (sys_proc s)(i := p)\<rparr>"
  by (simp add: at_proc_def)

lemma at_proc_eq:
  assumes "s' = s\<lparr>sys_shm := sys_shm s', sys_proc := (sys_proc s)(i := sys_proc s' i)\<rparr>"
    "f (sys_shm s, sys_proc s i) = (sys_shm s', sys_proc s' i)"
  shows "at_proc i f s = s'"
  using at_proc_state [where f = f and s = s and i = i, OF assms(2)] assms(1) by simp

lemma pull_tail_steps:
  assumes i: "i \<in> I" "q < n" and run: "q_run i (shf_q_pull_tail q) s = Inr (r, s')"
  shows "(q_step I n)\<^sup>*\<^sup>* (H, s) (H(i := if r = SHF_QIID_NONE then H i else insert r (H i)), s')"
proof -
  let ?st = "(sys_shm s, sys_proc s i)"
  note R = q_run_state [OF run]
  define b where "b = (qid_size (qids_nolock_pull (sys_proc s i) q) = 0)"
  define s1 where "s1 = (if b then at_proc i (q_flush q) s else s)"
  have "q_pull_nolock q (if b then q_flush q ?st else ?st) = (r, sys_shm s', sys_proc s' i)"
    using R by (auto simp: shf_q_pull_tail_def shf_q_flush_def b_def assertE_def split: if_splits)
  moreover have "(sys_shm s1, sys_proc s1 i) = (if b then q_flush q ?st else ?st)"
    by (simp add: s1_def at_proc_def Let_def split: prod.split)
  ultimately have p: "r = fst (q_pull_nolock q (sys_shm s1, sys_proc s1 i))"
    "snd (q_pull_nolock q (if b then q_flush q ?st else ?st)) = (sys_shm s', sys_proc s' i)"
    by simp_all
  have "at_proc i (\<lambda>st. snd (q_pull_nolock q st)) s1 = at_proc i (\<lambda>st. snd (q_pull_nolock q (if b then q_flush q st else st))) s"
    by (simp add: s1_def at_proc_comp)
  also have "\<dots> = s'"
    by (rule at_proc_eq [where f = "\<lambda>st. snd (q_pull_nolock q (if b then q_flush q st else st))", OF conjunct2 [OF R] p(2)])
  finally have "q_step I n (H, s1) (H(i := if r = SHF_QIID_NONE then H i else insert r (H i)), s')"
    using pull_step [OF i p(1), of H] by simp
  moreover have "(q_step I n)\<^sup>*\<^sup>* (H, s) (H, s1)" using flush_step [OF i(1), of q n H s] i(2) by (simp add: s1_def r_into_rtranclp)
  ultimately show ?thesis by (rule rtranclp.rtrancl_into_rtrancl [rotated])
qed

lemma push_head_steps:
  assumes i: "i \<in> I" "q < n" and x: "x \<in> H i" "x \<noteq> SHF_QIID_NONE" and run: "q_run i (push_op q x) s = Inr (u, s')"
  shows "(q_step I n)\<^sup>*\<^sup>* (H, s) (H(i := H i - {x}), s')"
proof -
  let ?st = "(sys_shm s, sys_proc s i)"
  note R = q_run_state [OF run]
  define s1 where "s1 = at_proc i (q_push_nolock q x) s"
  have e1: "(sys_shm s1, sys_proc s1 i) = q_push_nolock q x ?st" by (simp add: s1_def at_proc_def Let_def split: prod.split)
  define b where "b = (qids_nolock_max (snd (q_push_nolock q x ?st)) \<le> qid_size (qids_nolock_push (snd (q_push_nolock q x ?st)) q))"
  let ?g = "\<lambda>st. if b then q_flush SHF_QID_NONE (q_push_nolock q x st) else q_push_nolock q x st"
  have p: "?g ?st = (sys_shm s', sys_proc s' i)"
    using R x(2) by (auto simp: push_op_def shf_q_push_head_def shf_q_flush_def Let_def b_def assertE_def split: if_splits)
  have "(if b then at_proc i (q_flush SHF_QID_NONE) s1 else s1)
      = at_proc i (\<lambda>st. if b then q_flush SHF_QID_NONE (q_push_nolock q x st) else q_push_nolock q x st) s"
    by (simp add: s1_def at_proc_comp)
  also have "\<dots> = s'" by (rule at_proc_eq [where f = ?g, OF conjunct2 [OF R] p])
  finally have s': "s' = (if b then at_proc i (q_flush SHF_QID_NONE) s1 else s1)" by simp
  have "q_step I n (H, s) (H(i := H i - {x}), s1)" unfolding s1_def by (rule push_step) (use i x in simp_all)
  moreover have "(q_step I n)\<^sup>*\<^sup>* (H(i := H i - {x}), s1) (H(i := H i - {x}), s')"
    using flush_step [OF i(1), of SHF_QID_NONE n "H(i := H i - {x})" s1] by (simp add: s' r_into_rtranclp)
  ultimately show ?thesis by (rule converse_rtranclp_into_rtranclp)
qed

section \<open>Conservation\<close>

definition shared_ok :: "nat set \<Rightarrow> nat \<Rightarrow> nat \<Rightarrow> nat \<Rightarrow> q_conf \<Rightarrow> bool" where
  "shared_ok I n N k = (\<lambda>(H, s). \<exists>C. q_rep I n N k C s
     \<and> (\<forall>i \<in> I. H i \<inter> items_in I n C = {} \<and> H i \<subseteq> {..<N})
     \<and> (\<forall>i \<in> I. \<forall>j \<in> I. i \<noteq> j \<longrightarrow> H i \<inter> H j = {})
     \<and> {..<N} \<subseteq> items_in I n C \<union> (\<Union>i \<in> I. H i))"

lemma shared_okI:
  assumes "q_rep I n N k C s" "\<And>i. i \<in> I \<Longrightarrow> H i \<inter> items_in I n C = {} \<and> H i \<subseteq> {..<N}"
    "\<And>i j. i \<in> I \<Longrightarrow> j \<in> I \<Longrightarrow> i \<noteq> j \<Longrightarrow> H i \<inter> H j = {}" "{..<N} \<subseteq> items_in I n C \<union> (\<Union>i \<in> I. H i)"
  shows "shared_ok I n N k (H, s)"
  using assms unfolding shared_ok_def prod.case by blast

lemma cover_push: "N \<subseteq> A \<union> U \<Longrightarrow> U \<subseteq> insert x U' \<Longrightarrow> A' = insert x A \<Longrightarrow> N \<subseteq> A' \<union> U'"
  by blast

lemma cover_pull: "N \<subseteq> A \<union> U \<Longrightarrow> U \<union> {r} \<subseteq> U' \<Longrightarrow> A' = A - {r} \<Longrightarrow> N \<subseteq> A' \<union> U'"
  by blast

lemma step_shared_ok:
  assumes "q_step I n c c'" "shared_ok I n N k c"
  shows "shared_ok I n N k c'"
  using assms
proof (induction rule: q_step.induct)
  case (push_step i q x H s)
  from push_step.prems obtain C where C: "q_rep I n N k C s" "\<forall>i \<in> I. H i \<inter> items_in I n C = {} \<and> H i \<subseteq> {..<N}"
    "\<forall>i \<in> I. \<forall>j \<in> I. i \<noteq> j \<longrightarrow> H i \<inter> H j = {}" "{..<N} \<subseteq> items_in I n C \<union> (\<Union>i \<in> I. H i)"
    unfolding shared_ok_def prod.case by blast
  have x: "unused I n N C x" using C(2) push_step.hyps by (auto simp: unused_items)
  have r: "q_rep I n N k (pushed i q x C) (at_proc i (q_push_nolock q x) s)"
    unfolding pushed_def using x by (intro push_rep [OF C(1)] push_step.hyps) (simp_all add: unused_def)
  have it: "items_in I n (pushed i q x C) = insert x (items_in I n C)"
    using push_step.hyps by (intro items_push [where q = q]) auto
  show ?case
  proof (rule shared_okI [OF r])
    show "(H(i := H i - {x})) j \<inter> items_in I n (pushed i q x C) = {} \<and> (H(i := H i - {x})) j \<subseteq> {..<N}" if "j \<in> I" for j
    proof (cases "j = i")
      case True
      then show ?thesis using C(2) that it by auto
    next
      case False
      then have "x \<notin> H j" using C(3) that push_step.hyps by blast
      then show ?thesis using C(2) that it False by auto
    qed
    show "(H(i := H i - {x})) a \<inter> (H(i := H i - {x})) b = {}" if "a \<in> I" "b \<in> I" "a \<noteq> b" for a b
    proof -
      have "H a \<inter> H b = {}" using C(3) that by blast
      then show ?thesis by auto
    qed
    have "(\<Union>j \<in> I. H j) \<subseteq> insert x (\<Union>j \<in> I. (H(i := H i - {x})) j)" by auto
    then show "{..<N} \<subseteq> items_in I n (pushed i q x C) \<union> (\<Union>j \<in> I. (H(i := H i - {x})) j)"
      by (rule cover_push [OF C(4) _ it])
  qed
next
  case (flush_step i q H s)
  from flush_step.prems obtain C where C: "q_rep I n N k C s" "\<forall>i \<in> I. H i \<inter> items_in I n C = {} \<and> H i \<subseteq> {..<N}"
    "\<forall>i \<in> I. \<forall>j \<in> I. i \<noteq> j \<longrightarrow> H i \<inter> H j = {}" "{..<N} \<subseteq> items_in I n C \<union> (\<Union>i \<in> I. H i)"
    unfolding shared_ok_def prod.case by blast
  have "items_in I n (flushed n k i q C) = items_in I n C"
    using flush_step.hyps(1) others_flushed by (rule items_others) simp
  then show ?case using shared_okI [OF flush_rep [OF C(1) flush_step.hyps]] C(2-4) by simp
next
  case (pull_step i q r s H)
  from pull_step.prems obtain C where C: "q_rep I n N k C s" "\<forall>i \<in> I. H i \<inter> items_in I n C = {} \<and> H i \<subseteq> {..<N}"
    "\<forall>i \<in> I. \<forall>j \<in> I. i \<noteq> j \<longrightarrow> H i \<inter> H j = {}" "{..<N} \<subseteq> items_in I n C \<union> (\<Union>i \<in> I. H i)"
    unfolding shared_ok_def prod.case by blast
  note P = pull_rep [OF C(1) pull_step.hyps(1,2)]
  show ?case
  proof (cases "C (Pull i q) = []")
    case True
    then have "r = SHF_QIID_NONE" using P(1) pull_step.hyps(3) by simp
    moreover have "C(Pull i q := tl (C (Pull i q))) = C" using True by auto
    ultimately show ?thesis using C P(2) by (intro shared_okI) simp_all
  next
    case False
    let ?C = "pulled i q C"
    have rdy: "pull_ready i q C" using False by (simp add: pull_ready_def)
    have r: "r = hd (C (Pull i q))" "r = first_item (view i q C)" using P(1) pull_step.hyps(3) False pulled_view(3) [OF rdy] by simp_all
    have pl: "Pull i q \<in> places I n" using pull_step.hyps by simp
    have rN: "r < N" "r \<in> items_in I n C"
      using apart_inD(2) [OF q_repD(3) [OF C(1)] pl] False pl
      by (auto simp: r(1) items_in_def intro!: bexI [of _ "Pull i q"])
    have ne: "r \<noteq> SHF_QIID_NONE" using rN(1) q_repD(1) [OF C(1)] by (simp add: q_none)
    have it: "items_in I n ?C = items_in I n C - {r}"
      using items_pull [OF C(1) pull_step.hyps(1,2), of ?C] pulled_view [OF rdy] r(2) by simp
    show ?thesis
    proof (rule shared_okI [where C = ?C])
      show "q_rep I n N k ?C (at_proc i (\<lambda>st. snd (q_pull_nolock q st)) s)" using P(2) by (simp add: pulled_def)
      show "(H(i := if r = SHF_QIID_NONE then H i else insert r (H i))) j \<inter> items_in I n ?C = {}
          \<and> (H(i := if r = SHF_QIID_NONE then H i else insert r (H i))) j \<subseteq> {..<N}" if "j \<in> I" for j
        using C(2) that it rN by auto
      show "(H(i := if r = SHF_QIID_NONE then H i else insert r (H i))) a \<inter> (H(i := if r = SHF_QIID_NONE then H i else insert r (H i))) b = {}"
        if "a \<in> I" "b \<in> I" "a \<noteq> b" for a b
      proof -
        have "H a \<inter> H b = {}" "r \<notin> H a" "r \<notin> H b" using C(2,3) that rN(2) by blast+
        then show ?thesis using that(3) by auto
      qed
      have "(\<Union>j \<in> I. H j) \<union> {r} \<subseteq> (\<Union>j \<in> I. (H(i := if r = SHF_QIID_NONE then H i else insert r (H i))) j)"
        using ne pull_step.hyps(1) by auto
      then show "{..<N} \<subseteq> items_in I n ?C \<union> (\<Union>j \<in> I. (H(i := if r = SHF_QIID_NONE then H i else insert r (H i))) j)"
        by (rule cover_pull [OF C(4) _ it])
    qed
  qed
qed

lemma steps_shared_ok: "(q_step I n)\<^sup>*\<^sup>* c c' \<Longrightarrow> shared_ok I n N k c \<Longrightarrow> shared_ok I n N k c'"
  by (induction rule: rtranclp_induct) (auto intro: step_shared_ok)

section \<open>Reachable states\<close>

text \<open>
  What the creator \<open>i\<close> leaves after \<open>q_new_arrays\<close>, and every other process with the private queues
  of \<open>q_get_arrays\<close>; no process holds an item yet.
\<close>

definition q_start :: "nat \<Rightarrow> q_st \<Rightarrow> q_sys" where
  "q_start i st = \<lparr>sys_shm = fst st, sys_proc = (\<lambda>j. if j = i then snd st else q_get_arrays (snd st))\<rparr>"

definition q_params :: "q_proc \<Rightarrow> bool" where
  "q_params p \<longleftrightarrow> 0 < qs p \<and> qs p < 4294967296 \<and> 0 < qids_nolock_max p \<and> qids_nolock_max p < q_items p
     \<and> 9 \<le> q_item_size p \<and> q_items p * q_item_size p < 4294967296"

definition q_reach :: "nat set \<Rightarrow> nat \<Rightarrow> q_shm \<Rightarrow> q_proc \<Rightarrow> q_conf \<Rightarrow> bool" where
  "q_reach I i m p c \<longleftrightarrow> (\<exists>st. q_new_arrays (m, p) = Inr st \<and> (q_step I (qs p))\<^sup>*\<^sup>* (\<lambda>_. {}, q_start i st) c)"

text \<open>The items of a queue, read off its header and the links.\<close>

definition queue_list :: "q_sys \<Rightarrow> place \<Rightarrow> nat list" where
  "queue_list s a = map (\<lambda>j. (nexts (qiids (sys_shm s)) ^^ j) (qid_tail (header s a))) [0..<qid_size (header s a)]"

definition reachable_items :: "q_sys \<Rightarrow> nat \<Rightarrow> nat \<Rightarrow> nat list" where
  "reachable_items s i q = queue_list s (Pull i q) @ queue_list s (Locked q) @ queue_list s (Push i q)"

lemma queue_list_holds:
  assumes "holds (qiids (sys_shm s)) (header s a) xs"
  shows "queue_list s a = xs"
proof (rule nth_equalityI)
  show "length (queue_list s a) = length xs" using assms by (simp add: queue_list_def holds_def)
  show "queue_list s a ! j = xs ! j" if "j < length (queue_list s a)" for j
  proof -
    have j: "j < length xs" "xs \<noteq> []" using that assms by (auto simp: queue_list_def holds_def)
    have "qid_tail (header s a) = hd xs" using assms j(2) by (simp add: holds_def ends_def)
    then show ?thesis using chain_walk [of "nexts (qiids (sys_shm s))" xs j] assms j(1) by (simp add: queue_list_def holds_def)
  qed
qed

lemma queue_list_rep: "q_rep I n N k C s \<Longrightarrow> a \<in> places I n \<Longrightarrow> queue_list s a = C a"
  by (rule queue_list_holds) (simp add: q_repD(4))

lemma reachable_items_view: "q_rep I n N k C s \<Longrightarrow> i \<in> I \<Longrightarrow> q < n \<Longrightarrow> reachable_items s i q = view i q C"
  by (simp add: reachable_items_def view_def queue_list_rep)

lemma start_rep:
  assumes "q_params p" "q_new_arrays (m, p) = Inr st"
  shows "q_rep I (qs p) (q_items p) (qids_nolock_max p) (all_free (q_items p)) (q_start i st)"
    "\<And>x j. x < q_items p \<Longrightarrow> j < 9 \<Longrightarrow> q_item_mem (fst st) (x * q_item_size p + j) = hex8 x ! j"
proof -
  obtain m' p' where st: "st = (m', p')" by (cases st)
  let ?n = "qs p" and ?N = "q_items p" and ?k = "qids_nolock_max p"
  have P: "0 < qs p" "qs p < 4294967296" "0 < qids_nolock_max p" "qids_nolock_max p < q_items p" "9 \<le> q_item_size p"
    "q_items p * q_item_size p < 4294967296" using assms(1) by (simp_all add: q_params_def)
  have r: "q_rep {i} ?n ?N ?k (all_free ?N) \<lparr>sys_shm = m', sys_proc = (\<lambda>_. p)(i := p')\<rparr>"
    and lab: "\<forall>x < ?N. \<forall>j < 9. q_item_mem m' (x * q_item_size p + j) = hex8 x ! j"
    using new_arrays_ok [OF P, of m i "\<lambda>_. p"] assms(2) by (auto simp: st)
  show "\<And>x j. x < q_items p \<Longrightarrow> j < 9 \<Longrightarrow> q_item_mem (fst st) (x * q_item_size p + j) = hex8 x ! j"
    using lab by (simp add: st)
  note R = q_repD [OF r]
  have at: "attached_q ?n ?N ?k p'" using R(2) [of i] by simp
  have at': "\<forall>j \<in> I. attached_q ?n ?N ?k (sys_proc (q_start i st) j)"
    using at by (auto simp: q_start_def st attached_q_def q_get_arrays_def fold_get_qid)
  have emp: "j = i \<Longrightarrow> q < ?n \<Longrightarrow> qids_nolock_push p' q = empty_qid \<and> qids_nolock_pull p' q = empty_qid" for j q
    using R(4) [of "Push i q"] R(4) [of "Pull i q"] by (simp add: all_free_def)
  have lock: "holds (qiids m') (qids m' q) (all_free ?N (Locked q))" if "q < ?n" for q
    using R(4) [of "Locked q"] that by simp
  have "holds (qiids (sys_shm (q_start i st))) (header (q_start i st) a) (all_free ?N a)" if "a \<in> places I ?n" for a
    using that lock emp at by (cases a) (auto simp: q_start_def st all_free_def q_get_arrays_def fold_get_qid attached_q_def)
  moreover have "apart_in (places I ?n) ?N (all_free ?N)" by (auto simp: apart_in_def all_free_def)
  ultimately show "q_rep I ?n ?N ?k (all_free ?N) (q_start i st)"
    using at' R(1,5-7) by (simp add: q_rep_def)
qed

lemma start_shared_ok:
  assumes "q_params p" "q_new_arrays (m, p) = Inr st"
  shows "shared_ok I (qs p) (q_items p) (qids_nolock_max p) (\<lambda>_. {}, q_start i st)"
proof (rule shared_okI [OF start_rep(1) [OF assms]])
  have "Locked 0 \<in> places I (qs p)" using assms(1) by (simp add: q_params_def)
  moreover have "set (all_free (q_items p) (Locked 0)) = {..<q_items p}" by (auto simp: all_free_def)
  ultimately show "{..<q_items p} \<subseteq> items_in I (qs p) (all_free (q_items p)) \<union> (\<Union>j \<in> I. {})"
    unfolding items_in_def by blast
qed simp_all

lemma reach_shared_ok:
  assumes "q_params p" "q_reach I i m p c"
  shows "shared_ok I (qs p) (q_items p) (qids_nolock_max p) c"
proof -
  obtain st where st: "q_new_arrays (m, p) = Inr st" "(q_step I (qs p))\<^sup>*\<^sup>* (\<lambda>_. {}, q_start i st) c"
    using assms(2) by (auto simp: q_reach_def)
  show ?thesis by (rule steps_shared_ok [OF st(2) start_shared_ok [OF assms(1) st(1)]])
qed

text \<open>A reachable state seen by one process.\<close>

lemma reach_obtains:
  assumes "q_params p" "q_reach I i0 m p (H, s)"
  obtains C where "q_rep I (qs p) (q_items p) (qids_nolock_max p) C s"
    "\<And>j. j \<in> I \<Longrightarrow> H j \<inter> items_in I (qs p) C = {} \<and> H j \<subseteq> {..<q_items p}"
    "\<And>i j. i \<in> I \<Longrightarrow> j \<in> I \<Longrightarrow> i \<noteq> j \<Longrightarrow> H i \<inter> H j = {}"
    "{..<q_items p} \<subseteq> items_in I (qs p) C \<union> (\<Union>j \<in> I. H j)"
  using reach_shared_ok [OF assms] unfolding shared_ok_def prod.case
proof (elim exE conjE, goal_cases)
  case (1 C)
  show ?case
  proof (rule 1(1) [OF 1(2)])
    show "H j \<inter> items_in I (qs p) C = {} \<and> H j \<subseteq> {..<q_items p}" if "j \<in> I" for j using 1(3) that by (rule bspec)
    show "H i \<inter> H j = {}" if "i \<in> I" "j \<in> I" "i \<noteq> j" for i j using 1(4) that by simp
    show "{..<q_items p} \<subseteq> items_in I (qs p) C \<union> (\<Union>j \<in> I. H j)" by (fact 1(5))
  qed
qed

lemma reach_hands:
  assumes "q_params p" "q_reach I i0 m p (H, s)" "i \<in> I" "q < qs p"
  shows "hands I (qs p) (q_items p) (qids_nolock_max p) i q s (reachable_items s i q) (H i)"
proof -
  obtain C where C: "q_rep I (qs p) (q_items p) (qids_nolock_max p) C s"
    "\<And>j. j \<in> I \<Longrightarrow> H j \<inter> items_in I (qs p) C = {} \<and> H j \<subseteq> {..<q_items p}"
    by (rule reach_obtains [OF assms(1,2)]) blast
  have "\<forall>x \<in> H i. unused I (qs p) (q_items p) C x" using C(2) [OF assms(3)] by (auto simp: unused_items)
  then show ?thesis using C(1) assms(3,4) reachable_items_view [OF C(1) assms(3,4)] by (auto simp: hands_def)
qed


section \<open>Properties of the queues\<close>

text \<open>A small instance: three queues, four items of nine bytes, at most two items without the lock.\<close>

definition demo_params :: q_proc where
  "demo_params = \<lparr>qs = 3, q_next = 0, q_items = 4, q_item_size = 9, qids_nolock_max = 2,
     qids_nolock_push = (\<lambda>_. empty_qid), qids_nolock_pull = (\<lambda>_. empty_qid), q_is_ready = 0,
     shf_qiid = 0, shf_qiid_addr = None, shf_qiid_addr_len = 0\<rparr>"

definition demo_shm :: q_shm where
  "demo_shm = \<lparr>qids = (\<lambda>_. empty_qid), qiids = (\<lambda>_. \<lparr>qiid_last = 0, qiid_next = 0\<rparr>), q_item_mem = (\<lambda>_. 0)\<rparr>"

lemma demo_params_simps [simp]:
  "qs demo_params = 3" "q_items demo_params = 4" "q_item_size demo_params = 9" "qids_nolock_max demo_params = 2"
  "q_params demo_params"
  by (simp_all add: demo_params_def q_params_def)

lemma demo_new: "\<exists>st. q_new_arrays (demo_shm, demo_params) = Inr st"
  using new_arrays_ok [of demo_params demo_shm 0 "\<lambda>_. demo_params"] by auto

lemma demo_start:
  obtains s where "q_reach I i demo_shm demo_params (\<lambda>_. {}, s)" "queue_list s (Locked 0) = [0, 1, 2, 3]"
    "\<And>a. a \<in> places I 3 \<Longrightarrow> a \<noteq> Locked 0 \<Longrightarrow> queue_list s a = []"
proof -
  obtain st where st: "q_new_arrays (demo_shm, demo_params) = Inr st" using demo_new by blast
  note r = start_rep(1) [OF demo_params_simps(5) st, of I i]
  have four: "[0..<4] = [0, 1, 2, 3]" by (simp add: upt_rec)
  show thesis
  proof (rule that [of "q_start i st"])
    show "q_reach I i demo_shm demo_params (\<lambda>_. {}, q_start i st)" using st by (auto simp: q_reach_def)
    show "queue_list (q_start i st) (Locked 0) = [0, 1, 2, 3]"
      using queue_list_rep [OF r, of "Locked 0"] by (simp add: all_free_def four)
    show "queue_list (q_start i st) a = []" if "a \<in> places I 3" "a \<noteq> Locked 0" for a
      using queue_list_rep [OF r, of a] that by (simp add: all_free_def)
  qed
qed

text \<open>Process 0 has pulled item 0.\<close>

lemma demo_pulled:
  obtains s where "q_reach {0, 1} 0 demo_shm demo_params ((\<lambda>_. {})(0 := {0}), s)" "reachable_items s 0 0 = [1, 2, 3]"
    "reachable_items s 0 1 = []"
proof -
  obtain s where s: "q_reach {0, 1} 0 demo_shm demo_params (\<lambda>_. {}, s)" "queue_list s (Locked 0) = [0, 1, 2, 3]"
    "\<And>a. a \<in> places {0, 1} 3 \<Longrightarrow> a \<noteq> Locked 0 \<Longrightarrow> queue_list s a = []"
    by (rule demo_start [of "{0, 1}" 0]) blast
  obtain C where C: "q_rep {0, 1} 3 4 2 C s" using reach_obtains [OF demo_params_simps(5) s(1)] by auto
  have v: "view 0 0 C = [0, 1, 2, 3]" "view 0 1 C = []"
    using reachable_items_view [OF C, of 0 0] reachable_items_view [OF C, of 0 1] s(2) s(3)
    by (simp_all add: reachable_items_def)
  obtain s' C' where s': "q_run 0 (shf_q_pull_tail 0) s = Inr (first_item (view 0 0 C), s')" "q_rep {0, 1} 3 4 2 C' s'"
    "view 0 0 C' = tl (view 0 0 C)" "\<forall>q'. q' \<noteq> 0 \<longrightarrow> view 0 q' C' = view 0 q' C"
    using pull_tail_ok [OF C, of 0 0] by auto
  have r: "q_run 0 (shf_q_pull_tail 0) s = Inr (0, s')" using s'(1) v(1) by (simp add: first_item_def)
  have "(q_step {0, 1} 3)\<^sup>*\<^sup>* (\<lambda>_. {}, s) ((\<lambda>_. {})(0 := {0}), s')"
    using pull_tail_steps [where I = "{0, 1}" and n = 3 and H = "\<lambda>_. {}", OF _ _ r] by (simp add: q_none)
  then have "q_reach {0, 1} 0 demo_shm demo_params ((\<lambda>_. {})(0 := {0}), s')"
    using s(1) by (auto simp: q_reach_def)
  moreover have "reachable_items s' 0 0 = [1, 2, 3]" "reachable_items s' 0 1 = []"
    using reachable_items_view [OF s'(2), of 0 0] reachable_items_view [OF s'(2), of 0 1] s'(3,4) v by simp_all
  ultimately show thesis by (rule that)
qed

text \<open>
  C26. From the arrays that \<open>shf_q_new\<close> sets up on, whatever the processes do in whatever order, every
  queue item is in exactly one place: in one queue, shared or private to a process, or in the hands
  of one process that has pulled it and not pushed it since. No item is lost or doubled.
\<close>

theorem queue_conserves_items:
  assumes "finite I" "q_params p" "q_reach I i0 m p (H, s)" "x < q_items p"
  shows "card {a \<in> places I (qs p). x \<in> set (queue_list s a)} + card {j \<in> I. x \<in> H j} = 1"
    (is "card ?Q + card ?P = 1")
proof -
  obtain C where C: "q_rep I (qs p) (q_items p) (qids_nolock_max p) C s"
    "\<And>j. j \<in> I \<Longrightarrow> H j \<inter> items_in I (qs p) C = {} \<and> H j \<subseteq> {..<q_items p}"
    "\<And>i j. i \<in> I \<Longrightarrow> j \<in> I \<Longrightarrow> i \<noteq> j \<Longrightarrow> H i \<inter> H j = {}"
    "{..<q_items p} \<subseteq> items_in I (qs p) C \<union> (\<Union>j \<in> I. H j)"
    by (rule reach_obtains [OF assms(2,3)]) blast
  have Q: "?Q = {a \<in> places I (qs p). x \<in> set (C a)}" using queue_list_rep [OF C(1)] by auto
  have x: "x \<in> items_in I (qs p) C \<or> (\<exists>j \<in> I. x \<in> H j)" using C(4) assms(4) by auto
  then show ?thesis
  proof
    assume in_queue: "x \<in> items_in I (qs p) C"
    then obtain a where a: "a \<in> places I (qs p)" "x \<in> set (C a)" by (auto simp: items_in_def)
    have "?Q = {a}" using a apart_inD(3) [OF q_repD(3) [OF C(1)] a(1)] unfolding Q by blast
    then have "card ?Q = 1" by (simp only:) simp
    moreover have "?P = {}" using C(2) in_queue by blast
    then have "card ?P = 0" by (simp only:) simp
    ultimately show ?thesis by (simp only:)
  next
    assume "\<exists>j \<in> I. x \<in> H j"
    then obtain j where j: "j \<in> I" "x \<in> H j" by blast
    have "?P = {j}" using j C(3) by blast
    then have "card ?P = 1" by (simp only:) simp
    moreover have "x \<notin> items_in I (qs p) C" using C(2) [OF j(1)] j(2) by blast
    then have "?Q = {}" unfolding Q items_in_def by blast
    then have "card ?Q = 0" by (simp only:) simp
    ultimately show ?thesis by (simp only:)
  qed
qed

theorem queue_conserves_items_witness:
  "\<exists>s. q_reach {0, 1} 0 demo_shm demo_params ((\<lambda>_. {})(0 := {0}), s)
     \<and> card {a \<in> places {0, 1} 3. 0 \<in> set (queue_list s a)} + card {j \<in> {0, 1::nat}. 0 \<in> ((\<lambda>_. {}) (0 := {0::nat})) j} = 1"
proof -
  obtain s where s: "q_reach {0, 1} 0 demo_shm demo_params ((\<lambda>_. {})(0 := {0}), s)" by (rule demo_pulled)
  have "finite {0, 1::nat}" "(0::nat) < q_items demo_params" by simp_all
  from queue_conserves_items [OF this(1) demo_params_simps(5) s this(2)] s
  show ?thesis unfolding demo_params_simps(1) by (intro exI [of _ s] conjI)
qed

text \<open>
  C27. In every reachable state each process sees FIFO queues: it pushes the items \<open>ys\<close> it holds,
  pulls until the queue gives \<open>SHF_QIID_NONE\<close>, and gets first the items that were in the queue, then
  \<open>ys\<close>, each in the order they were pushed. Batching without the lock does not change this.
\<close>

theorem queue_is_fifo:
  assumes "q_params p" "q_reach I i0 m p (H, s)" "i \<in> I" "q < qs p" "distinct ys" "set ys \<subseteq> H i"
  shows "\<exists>s1 s2 s3. push_list (\<lambda>x. q_run i (push_op q x)) ys s = Inr s1
     \<and> pull_list (q_run i (shf_q_pull_tail q)) (length (reachable_items s i q) + length ys) s1 = Inr (reachable_items s i q @ ys, s2)
     \<and> q_run i (shf_q_pull_tail q) s2 = Inr (SHF_QIID_NONE, s3)"
  using hq.fifo_order [OF reach_hands [OF assms(1-4)] assms(5,6)] by blast

theorem queue_is_fifo_witness:
  "\<exists>s s1 s2 s3. q_reach {0, 1} 0 demo_shm demo_params ((\<lambda>_. {})(0 := {0}), s)
     \<and> push_list (\<lambda>x. q_run 0 (push_op 0 x)) [0] s = Inr s1
     \<and> pull_list (q_run 0 (shf_q_pull_tail 0)) 4 s1 = Inr ([1, 2, 3, 0], s2) \<and> q_run 0 (shf_q_pull_tail 0) s2 = Inr (SHF_QIID_NONE, s3)"
proof -
  obtain s where s: "q_reach {0, 1} 0 demo_shm demo_params ((\<lambda>_. {})(0 := {0}), s)" "reachable_items s 0 0 = [1, 2, 3]"
    by (rule demo_pulled)
  have "length (reachable_items s 0 0) + length [0::nat] = 4" "reachable_items s 0 0 @ [0] = [1, 2, 3, 0]" by (simp_all add: s(2))
  then show ?thesis using queue_is_fifo [OF demo_params_simps(5) s(1), of 0 0 "[0]"] s(1) unfolding demo_params_simps(1)
    by (simp only: insert_iff fun_upd_same zero_less_numeral) (simp only: distinct.simps list.set simp_thms subset_refl empty_iff, blast)
qed

text \<open>
  The combined operation pushes the item, when there is one, and pulls the first item of the
  other queue, as a push followed by a pull would: its result is the first item the process can
  reach in \<open>q2\<close> after the push, and \<open>SHF_QIID_NONE\<close> when there is none.
\<close>

theorem push_head_pull_tail_result:
  assumes "q_params p" "q_reach I i0 m p (H, s)" "i \<in> I" "q < qs p" "q2 < qs p" "x \<in> H i \<or> x = SHF_QIID_NONE"
  shows "\<exists>s'. q_run i (shf_q_push_head_pull_tail q x q2) s
       = Inr (first_item (reachable_items s i q2 @ (if q2 = q \<and> x \<noteq> SHF_QIID_NONE then [x] else [])), s')
     \<and> reachable_items s' i q2 = tl (reachable_items s i q2 @ (if q2 = q \<and> x \<noteq> SHF_QIID_NONE then [x] else []))
     \<and> (q2 \<noteq> q \<longrightarrow> reachable_items s' i q = reachable_items s i q @ (if x \<noteq> SHF_QIID_NONE then [x] else []))"
proof -
  obtain C where C: "q_rep I (qs p) (q_items p) (qids_nolock_max p) C s"
    "\<And>j. j \<in> I \<Longrightarrow> H j \<inter> items_in I (qs p) C = {} \<and> H j \<subseteq> {..<q_items p}"
    by (rule reach_obtains [OF assms(1,2)]) blast
  have u: "x \<noteq> SHF_QIID_NONE \<longrightarrow> unused I (qs p) (q_items p) C x" using assms(6) C(2) [OF assms(3)] by (auto simp: unused_items)
  define C1 where "C1 = (if x \<noteq> SHF_QIID_NONE then pushed i q x C else C)"
  obtain s' C' where s': "q_run i (shf_q_push_head_pull_tail q x q2) s = Inr (first_item (view i q2 C1), s')"
    "q_rep I (qs p) (q_items p) (qids_nolock_max p) C' s'" "view i q2 C' = tl (view i q2 C1)"
    "\<forall>q'. q' \<noteq> q2 \<longrightarrow> view i q' C' = view i q' C1"
    using push_pull_ok [OF C(1) assms(3-5) u] unfolding C1_def by blast
  have v: "view i q' C1 = view i q' C @ (if q' = q \<and> x \<noteq> SHF_QIID_NONE then [x] else [])" for q'
    by (cases "q' = q") (simp_all add: C1_def)
  show ?thesis
    using s' v assms(4,5) by (intro exI [of _ s']) (simp add: reachable_items_view [OF C(1) assms(3)] reachable_items_view [OF s'(2) assms(3)])
qed

theorem push_head_pull_tail_result_witness:
  "\<exists>s s'. q_reach {0, 1} 0 demo_shm demo_params ((\<lambda>_. {})(0 := {0}), s)
     \<and> q_run 0 (shf_q_push_head_pull_tail 1 0 0) s = Inr (1, s') \<and> reachable_items s' 0 0 = [2, 3] \<and> reachable_items s' 0 1 = [0]"
proof -
  obtain s where s: "q_reach {0, 1} 0 demo_shm demo_params ((\<lambda>_. {})(0 := {0}), s)" "reachable_items s 0 0 = [1, 2, 3]"
    "reachable_items s 0 1 = []" by (rule demo_pulled)
  have "(0::nat) \<noteq> SHF_QIID_NONE" by (simp add: q_none)
  then show ?thesis using push_head_pull_tail_result [OF demo_params_simps(5) s(1), of 0 1 0 0] s
    by (simp add: first_item_def) blast
qed

text \<open>
  A process never keeps back more than it may: after \<open>shf_q_push_head\<close> fewer than
  \<open>qids_nolock_max\<close> items of the queue wait in the private push queue of the process, the others are
  published to all processes.
\<close>

theorem unpublished_below_max:
  assumes "q_params p" "q_reach I i0 m p (H, s)" "i \<in> I" "q < qs p" "x \<in> H i"
  shows "\<exists>s'. q_run i (push_op q x) s = Inr ((), s') \<and> length (queue_list s' (Push i q)) < qids_nolock_max p
     \<and> qid_size (qids_nolock_push (sys_proc s' i) q) < qids_nolock_max p"
proof -
  obtain C where C: "q_rep I (qs p) (q_items p) (qids_nolock_max p) C s"
    "\<And>j. j \<in> I \<Longrightarrow> H j \<inter> items_in I (qs p) C = {} \<and> H j \<subseteq> {..<q_items p}"
    by (rule reach_obtains [OF assms(1,2)]) blast
  have u: "unused I (qs p) (q_items p) C x" using assms(5) C(2) [OF assms(3)] by (auto simp: unused_items)
  obtain s' C' where s': "q_run i (push_op q x) s = Inr ((), s')" "q_rep I (qs p) (q_items p) (qids_nolock_max p) C' s'"
    "length (C' (Push i q)) < qids_nolock_max p"
    using push_head_ok [OF C(1) assms(3,4) u] by blast
  have "queue_list s' (Push i q) = C' (Push i q)" using queue_list_rep [OF s'(2)] assms(3,4) by simp
  then show ?thesis using s' size_of(2) [OF s'(2) assms(3,4)] by auto
qed

theorem unpublished_below_max_witness:
  "\<exists>s s'. q_reach {0, 1} 0 demo_shm demo_params ((\<lambda>_. {})(0 := {0}), s)
     \<and> q_run 0 (push_op 1 0) s = Inr ((), s') \<and> length (queue_list s' (Push 0 1)) < 2"
proof -
  obtain s where s: "q_reach {0, 1} 0 demo_shm demo_params ((\<lambda>_. {})(0 := {0}), s)" by (rule demo_pulled)
  show ?thesis using unpublished_below_max [OF demo_params_simps(5) s, of 0 1 0] s by simp blast
qed

text \<open>
  The arrays that a creator sets up: all items are on queue 0 in their order, every other queue is
  empty, and the first nine bytes of item \<open>x\<close> are the eight hexadecimal digits of \<open>x\<close> and a zero byte.
\<close>

theorem new_arrays_contents:
  assumes "q_params p"
  shows "\<exists>st. q_new_arrays (m, p) = Inr st
     \<and> (\<forall>q < qs p. queue_list (q_start i st) (Locked q) = (if q = 0 then [0..<q_items p] else []))
     \<and> (\<forall>x < q_items p. map (\<lambda>j. q_item_mem (fst st) (x * q_item_size p + j)) [0..<9] = hex8 x)"
proof -
  obtain st where st: "q_new_arrays (m, p) = Inr st"
    using new_arrays_ok [of p m i "\<lambda>_. p"] assms by (auto simp: q_params_def)
  note r = start_rep(1) [where I = "{i}" and i = i, OF assms st] start_rep(2) [OF assms st]
  have "queue_list (q_start i st) (Locked q) = (if q = 0 then [0..<q_items p] else [])" if "q < qs p" for q
    using queue_list_rep [OF r(1), of "Locked q"] that by (simp add: all_free_def)
  moreover have "map (\<lambda>j. q_item_mem (fst st) (x * q_item_size p + j)) [0..<9] = hex8 x" if "x < q_items p" for x
    using r(2) [OF that] by (intro nth_equalityI) (simp_all add: hex8_def)
  ultimately show ?thesis using st by blast
qed

theorem new_arrays_contents_witness:
  "\<exists>st. q_new_arrays (demo_shm, demo_params) = Inr st \<and> queue_list (q_start 0 st) (Locked 0) = [0..<4]
     \<and> map (\<lambda>j. q_item_mem (fst st) (3 * 9 + j)) [0..<9] = hex8 3"
proof -
  obtain st where st: "q_new_arrays (demo_shm, demo_params) = Inr st"
    "\<forall>q < 3. queue_list (q_start 0 st) (Locked q) = (if q = 0 then [0..<4] else [])"
    "\<forall>x < 4. map (\<lambda>j. q_item_mem (fst st) (x * 9 + j)) [0..<9] = hex8 x"
    using new_arrays_contents [OF demo_params_simps(5), of demo_shm 0] by auto
  show ?thesis using st(1) st(2) [rule_format, of 0] st(3) [rule_format, of 3] by (intro exI [of _ st]) simp
qed

end
