(* ===== verification/Shf_LogLine.thy ===== *)
theory Shf_LogLine
  imports Shf_Prelude
begin

text \<open>
  How a thread makes log lines: the bounded text buffers of \<open>shf_log\<close>, the output functions it hands a
  line to, and the buffer of \<open>shf_log_vfprintf\<close> that collects a line from several pieces. What
  \<open>printf\<close> makes of a format and its arguments is the text argument of these definitions.
\<close>

section \<open>Bounded buffers\<close>

definition NUL :: char where "NUL = CHR 0x00"
definition newline :: char where "newline = CHR 0x0A"

definition SHF_LOG_BUFFER_SIZE :: nat where
  "SHF_LOG_BUFFER_SIZE = 4096"

text \<open>What \<open>%.*s\<close> prints of a buffer: at most \<open>n\<close> characters, up to the first NUL.\<close>

definition c_string :: "nat \<Rightarrow> string \<Rightarrow> string" where
  "c_string n buf = takeWhile (\<lambda>c. c \<noteq> NUL) (take n buf)"

text \<open>\<open>snprintf(&buf[i], sizeof(buf) - i, ...)\<close>: the text and a NUL, cut off at the end of the buffer.\<close>

definition snprintf_at :: "string \<Rightarrow> nat \<Rightarrow> string \<Rightarrow> string" where
  "snprintf_at buf i text =
     (if i < length buf
      then take i buf @ take (length buf - i - 1) text @ [NUL] @ drop (i + min (length buf - i - 1) (length text) + 1) buf
      else buf)"

definition shf_log_safe_append :: "string \<Rightarrow> nat \<Rightarrow> nat \<Rightarrow> int \<Rightarrow> bool \<times> string \<times> nat" where
  "shf_log_safe_append log_buffer log_buffer_size index appended =
     (if appended < 0 \<or> u32_sub log_buffer_size index \<le> nat appended then
        (False, log_buffer[log_buffer_size - 4 := CHR ''.'', log_buffer_size - 3 := CHR ''.'',
           log_buffer_size - 2 := newline, log_buffer_size - 1 := NUL], index)
      else (True, log_buffer, index + nat appended))"

definition append_text :: "string \<Rightarrow> nat \<Rightarrow> string \<Rightarrow> bool \<times> string \<times> nat" where
  "append_text buf i text = shf_log_safe_append (snprintf_at buf i text) (length buf) i (int (length text))"

section \<open>The state of a thread\<close>

text \<open>
  \<open>shf_log_output_indirect\<close> is one of two functions. \<open>log_out\<close> records the calls of it and \<open>syslog_out\<close>
  those of \<open>syslog\<close>.
\<close>

datatype log_output = Output_stdout | Output_shf_log

record log_thread =
  log_output_indirect :: log_output
  log_failsafe :: nat
  fprintf_buffer :: string
  fprintf_i :: nat
  log_out :: "(log_output \<times> string) list"
  syslog_out :: "string list"

definition shf_log_output_set :: "log_output \<Rightarrow> log_thread \<Rightarrow> log_thread" where
  "shf_log_output_set f t = t\<lparr>log_output_indirect := f, log_failsafe := 0\<rparr>"

text \<open>The mark of the output function replaces a question mark at the start of the line.\<close>

definition mark_line :: "char \<Rightarrow> string \<Rightarrow> string" where
  "mark_line c line = line[0 := if line ! 0 = CHR ''?'' then c else line ! 0]"

definition shf_log_output_stdout :: "string \<Rightarrow> nat \<Rightarrow> string" where
  "shf_log_output_stdout log_line log_line_len = c_string log_line_len (mark_line (CHR ''='') log_line)"

definition shf_log_output_shf_log :: "string \<Rightarrow> nat \<Rightarrow> string" where
  "shf_log_output_shf_log log_line log_line_len = take log_line_len (mark_line (CHR ''#'') log_line)"

definition output_line :: "log_output \<Rightarrow> string \<Rightarrow> nat \<Rightarrow> string" where
  "output_line f log_line log_line_len = (case f of
     Output_stdout \<Rightarrow> shf_log_output_stdout log_line log_line_len
   | Output_shf_log \<Rightarrow> shf_log_output_shf_log log_line log_line_len)"

section \<open>A line\<close>

text \<open>
  The four pieces of a line are appended one after the other until one does not fit. \<open>buf\<close> is what
  the buffer on the stack holds before.
\<close>

fun append_all :: "string \<Rightarrow> nat \<Rightarrow> string list \<Rightarrow> string \<times> nat" where
  "append_all buf i [] = (buf, i)"
| "append_all buf i (s # ss) = (case append_text buf i s of
     (True, buf, i) \<Rightarrow> append_all buf i ss
   | (False, buf, i) \<Rightarrow> (buf, i))"

definition opt_text :: "string option \<Rightarrow> string" where
  "opt_text s = (case s of None \<Rightarrow> [] | Some s \<Rightarrow> s)"

definition shf_log :: "string \<Rightarrow> string \<Rightarrow> string option \<Rightarrow> string option \<Rightarrow> bool \<Rightarrow> string \<Rightarrow> log_thread \<Rightarrow> shf_error + log_thread" where
  "shf_log buf prefix str_error eol log_info user t =
     (let (log_buffer, i) = append_all buf 0 [prefix, user, opt_text str_error, opt_text eol] in
      if log_info then
        let t = t\<lparr>log_failsafe := u32 (log_failsafe t + 1)\<rparr> in
        bindE (assertE (log_failsafe t = 1) Log_recursive) (\<lambda>_.
        let t = t\<lparr>log_out := log_out t @ [(log_output_indirect t, output_line (log_output_indirect t) log_buffer i)]\<rparr>
        in Inr (t\<lparr>log_failsafe := u32_sub (log_failsafe t) 1\<rparr>))
      else Inr (t\<lparr>syslog_out := syslog_out t @ [c_string i log_buffer]\<rparr>))"

text \<open>\<open>SHF_PLAIN\<close>.\<close>

definition SHF_PLAIN :: "string \<Rightarrow> string \<Rightarrow> log_thread \<Rightarrow> shf_error + log_thread" where
  "SHF_PLAIN buf text t = shf_log buf [] None None True text t"

section \<open>Lines from pieces\<close>

text \<open>
  The result is the length of the text that was appended. With an empty buffer the code reads the
  character before it.
\<close>

definition shf_log_vfprintf :: "string \<Rightarrow> string \<Rightarrow> log_thread \<Rightarrow> shf_error + nat \<times> log_thread" where
  "shf_log_vfprintf stack text t =
     (let (_, buf, i) = append_text (fprintf_buffer t) (fprintf_i t) text;
          len = i - fprintf_i t;
          t = t\<lparr>fprintf_buffer := buf, fprintf_i := i\<rparr>
      in bindE (assertE (0 < i) Out_of_bounds) (\<lambda>_.
         if buf ! (i - 1) = newline then
           bindE (SHF_PLAIN stack (c_string i buf) t) (\<lambda>t. Inr (len, t\<lparr>fprintf_i := 0\<rparr>))
         else Inr (len, t)))"

definition shf_log_fprintf :: "string \<Rightarrow> string \<Rightarrow> log_thread \<Rightarrow> shf_error + log_thread" where
  "shf_log_fprintf stack text t = bindE (shf_log_vfprintf stack text t) (\<lambda>(_, t). Inr t)"

definition shf_log_fputs :: "string \<Rightarrow> string \<Rightarrow> log_thread \<Rightarrow> shf_error + log_thread" where
  "shf_log_fputs stack text t = shf_log_fprintf stack (c_string (length text) text) t"

definition shf_log_fputc :: "string \<Rightarrow> char \<Rightarrow> log_thread \<Rightarrow> shf_error + log_thread" where
  "shf_log_fputc stack c t = shf_log_fprintf stack [c] t"

primrec print_pieces :: "string \<Rightarrow> string list \<Rightarrow> log_thread \<Rightarrow> shf_error + log_thread" where
  "print_pieces stack [] t = Inr t"
| "print_pieces stack (s # ss) t = bindE (shf_log_fprintf stack s t) (print_pieces stack ss)"

section \<open>What the buffers hold\<close>

lemma length_snprintf_at [simp]: "length (snprintf_at buf i text) = length buf"
  by (auto simp: snprintf_at_def min_def)

lemma snprintf_at_fits:
  assumes "i + length text < length buf"
  shows "take (i + length text) (snprintf_at buf i text) = take i buf @ text"
  using assms by (simp add: snprintf_at_def)

lemma append_text_fits:
  assumes "i + length text < length buf" "length buf < 4294967296"
  shows "append_text buf i text = (True, snprintf_at buf i text, i + length text)"
  using assms by (simp add: append_text_def shf_log_safe_append_def)

lemma append_all_fits:
  assumes "i + length (concat ss) < length buf" "length buf < 4294967296"
  shows "\<exists>buf'. append_all buf i ss = (buf', i + length (concat ss)) \<and> length buf' = length buf
     \<and> take (i + length (concat ss)) buf' = take i buf @ concat ss"
  using assms
proof (induction ss arbitrary: buf i)
  case (Cons s ss)
  have l: "i + length s < length buf" using Cons.prems by simp
  note A = append_text_fits [OF l Cons.prems(2)] snprintf_at_fits [OF l]
  then show ?case using Cons.IH [of "i + length s" "snprintf_at buf i s"] Cons.prems A by (simp add: add.assoc)
qed simp

text \<open>A line is printed as it is, but for the mark.\<close>

definition marked :: "log_output \<Rightarrow> string \<Rightarrow> string" where
  "marked f line = (case line of [] \<Rightarrow> []
     | c # cs \<Rightarrow> (if c = CHR ''?'' then (case f of Output_stdout \<Rightarrow> CHR ''='' | Output_shf_log \<Rightarrow> CHR ''#'') else c) # cs)"

lemma c_string_no_nul: "NUL \<notin> set (take n buf) \<Longrightarrow> c_string n buf = take n buf"
  unfolding c_string_def by (rule takeWhile_eq_all_conv [THEN iffD2]) auto

lemma output_line_marked:
  assumes "take (length line) buf = line" "length line < length buf" "NUL \<notin> set line"
  shows "output_line f buf (length line) = marked f line"
proof (cases line)
  case Nil
  then show ?thesis by (cases f) (simp_all add: output_line_def marked_def shf_log_output_stdout_def shf_log_output_shf_log_def c_string_def)
next
  case (Cons c cs)
  then obtain ds where buf: "buf = c # cs @ ds" using assms(1) by (metis append_Cons append_take_drop_id)
  have t: "take (length line) (mark_line m buf) = (if c = CHR ''?'' then m else c) # cs" for m
    by (simp add: Cons buf mark_line_def)
  have m: "marked f line = (if c = CHR ''?'' then (case f of Output_stdout \<Rightarrow> CHR ''='' | Output_shf_log \<Rightarrow> CHR ''#'') else c) # cs"
    by (simp add: marked_def Cons)
  have "NUL \<notin> set (take (length line) (mark_line (CHR ''='') buf))" using assms(3) unfolding t by (auto simp: Cons NUL_def)
  then have "c_string (length line) (mark_line (CHR ''='') buf) = take (length line) (mark_line (CHR ''='') buf)"
    by (rule c_string_no_nul)
  then show ?thesis unfolding m by (cases f) (simp_all only: output_line_def shf_log_output_stdout_def shf_log_output_shf_log_def t log_output.case)
qed

definition printed :: "string \<Rightarrow> log_thread \<Rightarrow> log_thread" where
  "printed line t = t\<lparr>log_out := log_out t @ [(log_output_indirect t, marked (log_output_indirect t) line)]\<rparr>"

lemma SHF_PLAIN_prints:
  assumes "length stack = SHF_LOG_BUFFER_SIZE" "length line < SHF_LOG_BUFFER_SIZE" "NUL \<notin> set line" "log_failsafe t = 0"
  shows "SHF_PLAIN stack line t = Inr (printed line t)"
proof -
  obtain buf where buf: "append_all stack 0 [[], line, [], []] = (buf, length line)" "length buf = length stack" "take (length line) buf = line"
    using append_all_fits [of 0 "[[], line, [], []]" stack] assms(1,2) by (auto simp: SHF_LOG_BUFFER_SIZE_def)
  have "output_line f buf (length line) = marked f line" for f
    by (rule output_line_marked) (use assms buf in simp_all)
  then show ?thesis using assms(4)
    by (simp add: SHF_PLAIN_def shf_log_def buf(1) opt_text_def printed_def Let_def del: append_all.simps)
qed

text \<open>A piece that does not end the line is kept, one that does makes the line.\<close>

definition log_ready :: "string \<Rightarrow> string \<Rightarrow> log_thread \<Rightarrow> bool" where
  "log_ready stack done t \<longleftrightarrow> length stack = SHF_LOG_BUFFER_SIZE \<and> length (fprintf_buffer t) = SHF_LOG_BUFFER_SIZE
     \<and> log_failsafe t = 0 \<and> fprintf_i t = length done \<and> take (length done) (fprintf_buffer t) = done"

definition same_output :: "log_thread \<Rightarrow> log_thread \<Rightarrow> bool" where
  "same_output t t' \<longleftrightarrow> log_out t' = log_out t \<and> log_output_indirect t' = log_output_indirect t \<and> syslog_out t' = syslog_out t"

lemma last_of_take: "take n buf = xs \<Longrightarrow> n = length xs \<Longrightarrow> xs \<noteq> [] \<Longrightarrow> buf ! (n - 1) = last xs"
  by (auto simp: last_conv_nth) (metis One_nat_def diff_less length_greater_0_conv nth_take zero_less_one)

lemma fprintf_piece:
  assumes r: "log_ready stack done t" and s: "s \<noteq> []" "length (done @ s) < SHF_LOG_BUFFER_SIZE" "last s \<noteq> newline"
  shows "\<exists>t'. shf_log_fprintf stack s t = Inr t' \<and> log_ready stack (done @ s) t' \<and> same_output t t'"
proof -
  let ?buf = "snprintf_at (fprintf_buffer t) (length done) s" and ?i = "length done + length s"
  have R: "fprintf_i t = length done" "length (fprintf_buffer t) = 4096" "take (length done) (fprintf_buffer t) = done"
    using r by (simp_all add: log_ready_def SHF_LOG_BUFFER_SIZE_def)
  have l: "length done + length s < length (fprintf_buffer t)" "length (fprintf_buffer t) < 4294967296"
    using s(2) R by (simp_all add: SHF_LOG_BUFFER_SIZE_def)
  note A = append_text_fits [OF l] and B = snprintf_at_fits [OF l(1)]
  have tk: "take ?i ?buf = done @ s" using B by (simp only: R(1,3))
  have "?buf ! (?i - 1) = last s" by (subst last_of_take [OF tk]) (simp_all add: s(1))
  then have nl: "?buf ! (?i - 1) \<noteq> newline" using s(3) by simp
  have i: "0 < ?i" using s(1) by simp
  let ?t = "t\<lparr>fprintf_buffer := ?buf, fprintf_i := ?i\<rparr>"
  have "shf_log_fprintf stack s t = Inr ?t"
    unfolding shf_log_fprintf_def shf_log_vfprintf_def R(1) A Let_def prod.case
    using nl i by (simp del: bindE_Inr_iff)
  moreover have "log_ready stack (done @ s) ?t" using r tk by (simp add: log_ready_def)
  moreover have "same_output t ?t" by (simp add: same_output_def)
  ultimately show ?thesis by blast
qed

lemma fprintf_newline:
  assumes r: "log_ready stack done t" and s: "s \<noteq> []" "length (done @ s) < SHF_LOG_BUFFER_SIZE" "last s = newline" "NUL \<notin> set (done @ s)"
  shows "\<exists>t'. shf_log_fprintf stack s t = Inr t' \<and> log_ready stack [] t' \<and> same_output (printed (done @ s) t) t'"
proof -
  let ?buf = "snprintf_at (fprintf_buffer t) (length done) s" and ?i = "length done + length s"
  have R: "fprintf_i t = length done" "length (fprintf_buffer t) = 4096" "take (length done) (fprintf_buffer t) = done"
    "length stack = SHF_LOG_BUFFER_SIZE" "log_failsafe t = 0"
    using r by (simp_all add: log_ready_def SHF_LOG_BUFFER_SIZE_def)
  have l: "length done + length s < length (fprintf_buffer t)" "length (fprintf_buffer t) < 4294967296"
    using s(2) R by (simp_all add: SHF_LOG_BUFFER_SIZE_def)
  note A = append_text_fits [OF l] and B = snprintf_at_fits [OF l(1)]
  have tk: "take ?i ?buf = done @ s" using B by (simp only: R(1,3))
  have nl: "?buf ! (?i - 1) = newline" by (subst last_of_take [OF tk]) (simp_all add: s(1,3))
  have c: "c_string ?i ?buf = done @ s" using c_string_no_nul [of ?i ?buf] s(4) tk by simp
  let ?t = "t\<lparr>fprintf_buffer := ?buf, fprintf_i := ?i\<rparr>"
  have P: "SHF_PLAIN stack (done @ s) ?t = Inr (printed (done @ s) ?t)"
    using s R by (intro SHF_PLAIN_prints) (simp_all add: SHF_LOG_BUFFER_SIZE_def)
  have i: "0 < ?i" using s(1) by simp
  let ?t' = "printed (done @ s) ?t\<lparr>fprintf_i := 0\<rparr>"
  have "shf_log_fprintf stack s t = Inr ?t'"
    unfolding shf_log_fprintf_def shf_log_vfprintf_def R(1) A Let_def prod.case
    using nl i c P by (simp del: bindE_Inr_iff)
  moreover have "log_ready stack [] ?t'" using r by (simp add: log_ready_def printed_def)
  moreover have "same_output (printed (done @ s) t) ?t'" by (simp add: same_output_def printed_def)
  ultimately show ?thesis by blast
qed


section \<open>Lines from pieces, in the buffer\<close>

definition line_pieces :: "string list \<Rightarrow> bool" where
  "line_pieces ps \<longleftrightarrow> ps \<noteq> [] \<and> (\<forall>q \<in> set (butlast ps). q \<noteq> [] \<and> last q \<noteq> newline)
     \<and> last ps \<noteq> [] \<and> last (last ps) = newline \<and> length (concat ps) < SHF_LOG_BUFFER_SIZE \<and> NUL \<notin> set (concat ps)"

lemma print_pieces_append:
  "print_pieces stack (ps @ qs) t = bindE (print_pieces stack ps t) (print_pieces stack qs)"
proof (induction ps arbitrary: t)
  case (Cons p ps)
  show ?case by (cases "shf_log_fprintf stack p t") (simp_all add: Cons.IH)
qed simp

lemma print_kept:
  assumes "log_ready stack done t" "\<And>q. q \<in> set qs \<Longrightarrow> q \<noteq> [] \<and> last q \<noteq> newline" "length (done @ concat qs) < SHF_LOG_BUFFER_SIZE"
  shows "\<exists>t'. print_pieces stack qs t = Inr t' \<and> log_ready stack (done @ concat qs) t' \<and> same_output t t'"
  using assms
proof (induction qs arbitrary: "done" t)
  case Nil
  then show ?case by (simp add: same_output_def)
next
  case (Cons q qs)
  obtain t1 where t1: "shf_log_fprintf stack q t = Inr t1" "log_ready stack (done @ q) t1" "same_output t t1"
    using fprintf_piece [OF Cons.prems(1), of q] Cons.prems(2) [of q] Cons.prems(3) by auto
  obtain t' where "print_pieces stack qs t1 = Inr t'" "log_ready stack ((done @ q) @ concat qs) t'" "same_output t1 t'"
    using Cons.IH [OF t1(2)] Cons.prems(2,3) by auto
  then show ?case using t1 by (simp add: same_output_def)
qed

lemma print_line:
  assumes r: "log_ready stack [] t" and ps: "line_pieces ps"
  shows "\<exists>t'. print_pieces stack ps t = Inr t' \<and> log_ready stack [] t' \<and> same_output (printed (concat ps) t) t'"
proof -
  obtain qs p where p: "ps = qs @ [p]" using ps by (metis append_butlast_last_id line_pieces_def)
  have P: "\<And>q. q \<in> set qs \<Longrightarrow> q \<noteq> [] \<and> last q \<noteq> newline" "p \<noteq> []" "last p = newline"
    "length (concat qs @ p) < SHF_LOG_BUFFER_SIZE" "NUL \<notin> set (concat qs @ p)"
    using ps by (auto simp: line_pieces_def p)
  obtain t1 where t1: "print_pieces stack qs t = Inr t1" "log_ready stack (concat qs) t1" "same_output t t1"
    using print_kept [OF r, of qs, OF P(1)] P(4) by auto
  obtain t' where "shf_log_fprintf stack p t1 = Inr t'" "log_ready stack [] t'" "same_output (printed (concat qs @ p) t1) t'"
    using fprintf_newline [OF t1(2) P(2,4,3,5)] by auto
  then show ?thesis using t1 by (auto simp: p print_pieces_append same_output_def printed_def)
qed

text \<open>Several lines, each from its pieces.\<close>

lemma print_lines:
  assumes "log_ready stack [] t" "\<And>ps. ps \<in> set pss \<Longrightarrow> line_pieces ps"
  shows "\<exists>t'. print_pieces stack (concat pss) t = Inr t' \<and> log_ready stack [] t' \<and> log_output_indirect t' = log_output_indirect t
     \<and> log_out t' = log_out t @ map (\<lambda>ps. (log_output_indirect t, marked (log_output_indirect t) (concat ps))) pss"
  using assms
proof (induction pss arbitrary: t)
  case (Cons ps pss)
  obtain t1 where t1: "print_pieces stack ps t = Inr t1" "log_ready stack [] t1" "same_output (printed (concat ps) t) t1"
    using print_line [OF Cons.prems(1)] Cons.prems(2) [of ps] by auto
  obtain t' where t': "print_pieces stack (concat pss) t1 = Inr t'" "log_ready stack [] t'" "log_output_indirect t' = log_output_indirect t1"
    "log_out t' = log_out t1 @ map (\<lambda>ps. (log_output_indirect t1, marked (log_output_indirect t1) (concat ps))) pss"
    using Cons.IH [OF t1(2)] Cons.prems(2) by auto
  have "print_pieces stack (concat (ps # pss)) t = Inr t'" using t1(1) t'(1) by (simp add: print_pieces_append)
  then show ?case using t1 t' by (simp add: same_output_def printed_def)
qed simp

section \<open>Properties of the line buffer\<close>

definition fresh_thread :: log_thread where
  "fresh_thread = \<lparr>log_output_indirect = Output_stdout, log_failsafe = 0, fprintf_buffer = replicate SHF_LOG_BUFFER_SIZE NUL,
     fprintf_i = 0, log_out = [], syslog_out = []\<rparr>"

lemma fresh_ready: "log_ready (replicate SHF_LOG_BUFFER_SIZE NUL) [] fresh_thread"
  by (simp add: log_ready_def fresh_thread_def)

text \<open>
  A line that is printed in pieces through \<open>shf_log_fprintf\<close> reaches the output function in one
  call and unchanged, but for a question mark at its start, when it is shorter than the buffer; the
  buffer is then empty again.
\<close>

theorem pieces_make_one_line:
  assumes "log_ready stack [] t" "line_pieces ps"
  shows "\<exists>t'. print_pieces stack ps t = Inr t' \<and> log_ready stack [] t'
     \<and> log_out t' = log_out t @ [(log_output_indirect t, marked (log_output_indirect t) (concat ps))]"
  using print_lines [of stack t "[ps]"] assms by auto

theorem pieces_make_one_line_witness:
  "\<exists>t'. print_pieces (replicate SHF_LOG_BUFFER_SIZE NUL) [''ok '', ''1'', [newline]] fresh_thread = Inr t'
     \<and> log_out t' = [(Output_stdout, ''ok 1'' @ [newline])]"
proof -
  have "line_pieces [''ok '', ''1'', [newline]]" by (simp add: line_pieces_def newline_def NUL_def SHF_LOG_BUFFER_SIZE_def)
  from pieces_make_one_line [OF fresh_ready this] show ?thesis by (auto simp: marked_def fresh_thread_def)
qed

text \<open>
  A piece that does not fit is not cut off but lost: the index does not move, so what
  \<open>shf_log_safe_append\<close> keeps of the text, dots included, is overwritten. A comment of 4,094 characters
  or more is printed as an empty one.
\<close>

theorem long_piece_is_lost:
  assumes r: "log_ready stack [] t" and l: "SHF_LOG_BUFFER_SIZE \<le> length text + 2"
  shows "\<exists>t'. print_pieces stack [''# '', text, [newline]] t = Inr t'
     \<and> log_out t' = log_out t @ [(log_output_indirect t, ''# '' @ [newline])]"
proof -
  obtain t1 where t1: "shf_log_fprintf stack ''# '' t = Inr t1" "log_ready stack ''# '' t1" "same_output t t1"
    using fprintf_piece [OF r, of "''# ''"] by (auto simp: newline_def SHF_LOG_BUFFER_SIZE_def)
  let ?b = "snprintf_at (fprintf_buffer t1) 2 text"
  let ?c = "?b[4092 := CHR ''.'', 4093 := CHR ''.'', 4094 := newline, 4095 := NUL]"
  have R: "fprintf_i t1 = 2" "length (fprintf_buffer t1) = 4096" "take 2 (fprintf_buffer t1) = ''# ''"
    using t1(2) by (simp_all add: log_ready_def SHF_LOG_BUFFER_SIZE_def numeral_eq_Suc [of "num.Bit0 num.One"])
  have a: "append_text (fprintf_buffer t1) 2 text = (False, ?c, 2)"
    using l R(2) by (simp add: append_text_def shf_log_safe_append_def SHF_LOG_BUFFER_SIZE_def)
  have tb: "take 2 ?c = ''# ''" using R by (simp add: snprintf_at_def)
  have "?c ! (2 - 1) = last ''# ''" by (rule last_of_take [OF tb]) simp_all
  then have c: "?c ! (2 - 1) \<noteq> newline" by (simp add: newline_def)
  let ?t2 = "t1\<lparr>fprintf_buffer := ?c, fprintf_i := 2\<rparr>"
  have s2: "shf_log_fprintf stack text t1 = Inr ?t2"
    unfolding shf_log_fprintf_def shf_log_vfprintf_def R(1) a Let_def prod.case
    using c by (simp del: bindE_Inr_iff)
  have "take (Suc (Suc 0)) ?c = ''# ''" using tb by (simp only: numeral_2_eq_2)
  then have r2: "log_ready stack ''# '' ?t2" using t1(2) R(2)
    by (simp add: log_ready_def SHF_LOG_BUFFER_SIZE_def del: One_nat_def)
  obtain t3 where "shf_log_fprintf stack [newline] ?t2 = Inr t3" "same_output (printed (''# '' @ [newline]) ?t2) t3"
    using fprintf_newline [OF r2, of "[newline]"] by (auto simp: newline_def NUL_def SHF_LOG_BUFFER_SIZE_def)
  then show ?thesis using t1 s2 by (auto simp: same_output_def printed_def marked_def)
qed

theorem long_piece_is_lost_witness:
  "\<exists>t'. print_pieces (replicate SHF_LOG_BUFFER_SIZE NUL) [''# '', replicate 5000 CHR ''x'', [newline]] fresh_thread = Inr t'
     \<and> log_out t' = [(Output_stdout, ''# '' @ [newline])]"
  using long_piece_is_lost [OF fresh_ready, of "replicate 5000 CHR ''x''"]
  by (simp add: fresh_thread_def SHF_LOG_BUFFER_SIZE_def del: print_pieces.simps)

end
