(* ===== verification/Shf_LogShm.thy ===== *)
theory Shf_LogShm
  imports Shf_LogLine
begin

text \<open>
  The log in shared memory: any thread of any process appends lines under the lock, one thread writes
  them to a file descriptor. The writer copies nothing: it takes the number of bytes that are there,
  writes them while others append behind them, and moves what is left to the front.
\<close>

section \<open>State\<close>

definition SHF_LOG_WRITE_THRESHOLD :: nat where
  "SHF_LOG_WRITE_THRESHOLD = 65536"

definition SHF_LOG_DEFAULT_SIZE :: nat where
  "SHF_LOG_DEFAULT_SIZE = 655360"

definition SHF_PID_MAX :: nat where
  "SHF_PID_MAX = 131072"

text \<open>
  \<open>SHF_LOG_MMAP\<close> without its bytes: the file descriptor, the lock of 16 bytes, the double, nine numbers,
  the thread numbers and the last thread number.
\<close>

definition sizeof_log_mmap :: nat where
  "sizeof_log_mmap = 4 + 16 + 8 + 9 * 4 + SHF_PID_MAX + 1"

text \<open>
  \<open>SHF_LOG_MMAP\<close>. Times are counted in seconds; the lock is the one of \<open>Shf_RwLock\<close>. \<open>log_room\<close> is not a field of
  the code: it is the number of bytes that the value in the store has behind the header. The code goes by
  \<open>size\<close> alone.
\<close>

record log_mmap =
  log_fd :: int
  log_second :: nat
  log_write_fail :: nat
  log_writing :: nat
  log_used_hi :: nat
  log_used_hi_new :: nat
  log_used :: nat
  log_size :: nat
  log_running :: nat
  log_stopped :: nat
  log_tids :: "nat \<Rightarrow> nat"
  log_tid_id :: nat
  log_bytes :: "nat \<Rightarrow> char"
  log_room :: nat

definition log_text :: "log_mmap \<Rightarrow> string" where
  "log_text m = map (log_bytes m) [0..<log_used m]"

section \<open>Appending\<close>

text \<open>
  One turn of the loop of \<open>shf_log_append\<close>, under the lock: \<open>False\<close> when there is no room and the
  thread waits for the next turn. The code copies the line without looking where the value ends; past its
  end are other records, or nothing, and the model ends with \<open>Out_of_bounds\<close>.
\<close>

definition log_append_turn :: "nat \<Rightarrow> string \<Rightarrow> log_mmap \<Rightarrow> shf_error + bool \<times> log_mmap" where
  "log_append_turn prefix_len line m =
     (if u32_sub (log_size m) (log_used m) < u32 (prefix_len + length line) then Inr (False, m)
      else bindE (assertE (log_used m + length line \<le> log_room m) Out_of_bounds) (\<lambda>_.
           Inr (True, m\<lparr>log_bytes := (\<lambda>a. if log_used m \<le> a \<and> a < log_used m + length line then line ! (a - log_used m) else log_bytes m a),
                         log_used := u32 (log_used m + length line)\<rparr>)))"

text \<open>Lines as long as the log are dropped with a warning.\<close>

definition log_takes :: "string \<Rightarrow> log_mmap \<Rightarrow> bool" where
  "log_takes line m \<longleftrightarrow> length line < log_size m"

section \<open>Writing\<close>

datatype write_result = Written nat | Would_block | Interrupted | Write_error

datatype worker_pc = Top | Taken | Writing | Moving | Closing | Closed | Ended

record log_worker =
  w_pc :: worker_pc
  w_did_not_block :: bool
  w_second :: nat
  w_used :: nat
  w_left :: nat
  w_work :: nat

text \<open>
  The steps of \<open>shf_log_thread\<close>: the part under the first lock, at the second \<open>now\<close>; what is decided
  from the number of bytes found; one \<open>write\<close>; the part under the second lock and the statistics.
\<close>

definition log_take :: "nat \<Rightarrow> log_mmap \<Rightarrow> log_worker \<Rightarrow> log_worker" where
  "log_take now m w = w\<lparr>w_pc := Taken, w_did_not_block := True, w_second := now, w_used := log_used m, w_left := log_used m, w_work := 0\<rparr>"

definition log_decide :: "log_mmap \<Rightarrow> log_worker \<Rightarrow> log_mmap \<times> log_worker" where
  "log_decide m w =
     (if 0 < w_used w \<and> log_write_fail m \<noteq> w_second w then
        let m = (if log_used_hi m < w_used w then m\<lparr>log_used_hi := w_used w, log_used_hi_new := 1\<rparr> else m) in
        if log_second m \<noteq> w_second w then (m, w\<lparr>w_pc := Writing\<rparr>)
        else if w_used w < SHF_LOG_WRITE_THRESHOLD then (m, w\<lparr>w_pc := Top\<rparr>)
        else (m, w\<lparr>w_pc := Writing\<rparr>)
      else (m, w\<lparr>w_pc := Top\<rparr>))"

definition log_write_end :: "log_worker \<Rightarrow> worker_pc" where
  "log_write_end w = (if w_pc w = Closing then Closed else Moving)"

definition log_write :: "write_result \<Rightarrow> log_mmap \<Rightarrow> log_worker \<Rightarrow> string \<times> log_mmap \<times> log_worker" where
  "log_write r m w =
     (let m = m\<lparr>log_writing := 1\<rparr> in
      case r of
        Written n \<Rightarrow> (map (log_bytes m) [w_work w..<w_work w + n], m, w\<lparr>w_left := u32_sub (w_left w) n, w_work := w_work w + n\<rparr>)
      | Would_block \<Rightarrow> ([], m, w\<lparr>w_did_not_block := False, w_pc := log_write_end w\<rparr>)
      | Interrupted \<Rightarrow> ([], m, w\<lparr>w_pc := log_write_end w\<rparr>)
      | Write_error \<Rightarrow> ([], m\<lparr>log_write_fail := w_second w\<rparr>, w\<lparr>w_pc := log_write_end w\<rparr>))"

definition log_move :: "log_mmap \<Rightarrow> log_worker \<Rightarrow> log_mmap \<times> log_worker" where
  "log_move m w =
     (let m = (if w_used w \<noteq> w_left w then
                 let left_during_write = u32_sub (log_used m) (w_used w); used = u32 (w_left w + left_during_write)
                 in m\<lparr>log_used := used, log_bytes := (\<lambda>a. if a < used then log_bytes m (w_work w + a) else log_bytes m a)\<rparr>
               else m);
          m = m\<lparr>log_writing := 0\<rparr>;
          m = (if log_second m \<noteq> w_second w then m\<lparr>log_used_hi_new := 0, log_second := w_second w\<rparr> else m)
      in (m, w\<lparr>w_pc := Top, w_work := 0, w_used := 0, w_left := 0\<rparr>))"

text \<open>When \<open>running\<close> has been cleared the rest is written once, without the lock.\<close>

definition log_close :: "log_mmap \<Rightarrow> log_worker \<Rightarrow> log_worker" where
  "log_close m w = w\<lparr>w_pc := Closing, w_second := 0, w_used := log_used m, w_left := log_used m, w_work := 0\<rparr>"

text \<open>Last the thread says that it has stopped; \<open>shf_log_thread_del\<close> waits for that.\<close>

definition log_end :: "log_mmap \<Rightarrow> log_mmap" where
  "log_end m = m\<lparr>log_stopped := u32 (log_stopped m + 1)\<rparr>"

section \<open>All threads\<close>

text \<open>
  The log, the writer, what it has written to the file, and all that was appended. \<open>appended\<close> is
  not part of the program.
\<close>

record log_sys =
  ls_mmap :: log_mmap
  ls_worker :: log_worker
  ls_file :: string
  ls_appended :: string

inductive log_step :: "log_sys \<Rightarrow> log_sys \<Rightarrow> bool" where
  append: "prefix_len < 128 \<Longrightarrow> log_takes line (ls_mmap s) \<Longrightarrow> log_append_turn prefix_len line (ls_mmap s) = Inr (True, m) \<Longrightarrow>
    log_step s (s\<lparr>ls_mmap := m, ls_appended := ls_appended s @ line\<rparr>)"
| append_wait: "prefix_len < 128 \<Longrightarrow> log_takes line (ls_mmap s) \<Longrightarrow> log_append_turn prefix_len line (ls_mmap s) = Inr (False, m) \<Longrightarrow>
    log_step s (s\<lparr>ls_mmap := m\<rparr>)"
| stop: "log_step s (s\<lparr>ls_mmap := (ls_mmap s)\<lparr>log_running := 0\<rparr>\<rparr>)"
| take_used: "w_pc (ls_worker s) = Top \<Longrightarrow> log_running (ls_mmap s) \<noteq> 0 \<Longrightarrow>
    log_step s (s\<lparr>ls_worker := log_take now (ls_mmap s) (ls_worker s)\<rparr>)"
| decide: "w_pc (ls_worker s) = Taken \<Longrightarrow> log_decide (ls_mmap s) (ls_worker s) = (m, w) \<Longrightarrow>
    log_step s (s\<lparr>ls_mmap := m, ls_worker := w\<rparr>)"
| write_some: "w_pc (ls_worker s) = Writing \<or> w_pc (ls_worker s) = Closing \<Longrightarrow> 0 < w_left (ls_worker s) \<Longrightarrow>
    (case r of Written n \<Rightarrow> 0 < n \<and> n \<le> w_left (ls_worker s) | _ \<Rightarrow> True) \<Longrightarrow>
    log_write r (ls_mmap s) (ls_worker s) = (text, m, w) \<Longrightarrow>
    log_step s (s\<lparr>ls_mmap := m, ls_worker := w, ls_file := ls_file s @ text\<rparr>)"
| write_all: "w_pc (ls_worker s) = Writing \<or> w_pc (ls_worker s) = Closing \<Longrightarrow> w_left (ls_worker s) = 0 \<Longrightarrow>
    log_step s (s\<lparr>ls_worker := (ls_worker s)\<lparr>w_pc := log_write_end (ls_worker s)\<rparr>\<rparr>)"
| move: "w_pc (ls_worker s) = Moving \<Longrightarrow> log_move (ls_mmap s) (ls_worker s) = (m, w) \<Longrightarrow>
    log_step s (s\<lparr>ls_mmap := m, ls_worker := w\<rparr>)"
| close: "w_pc (ls_worker s) = Top \<Longrightarrow> log_running (ls_mmap s) = 0 \<Longrightarrow>
    log_step s (s\<lparr>ls_worker := log_close (ls_mmap s) (ls_worker s)\<rparr>)"
| ended: "w_pc (ls_worker s) = Closed \<Longrightarrow>
    log_step s (s\<lparr>ls_mmap := log_end (ls_mmap s), ls_worker := (ls_worker s)\<lparr>w_pc := Ended\<rparr>\<rparr>)"

text \<open>
  What \<open>shf_log_thread_new\<close> sets up in the new, zeroed value. The value is made for the size that was asked
  for, also when that is 0 and stands for the default.
\<close>

definition log_new :: "nat \<Rightarrow> int \<Rightarrow> log_mmap" where
  "log_new sz fd = \<lparr>log_fd = fd, log_second = 0, log_write_fail = 0, log_writing = 0, log_used_hi = 0, log_used_hi_new = 0,
     log_used = 0, log_size = (if sz \<noteq> 0 then sz else SHF_LOG_DEFAULT_SIZE), log_running = 1, log_stopped = 0,
     log_tids = (\<lambda>_. 0), log_tid_id = 0, log_bytes = (\<lambda>_. CHR 0x00),
     log_room = u32 (sizeof_log_mmap + sz) - sizeof_log_mmap\<rparr>"

definition log_start :: "nat \<Rightarrow> int \<Rightarrow> log_sys" where
  "log_start sz fd = \<lparr>ls_mmap = log_new sz fd,
     ls_worker = \<lparr>w_pc = Top, w_did_not_block = True, w_second = 0, w_used = 0, w_left = 0, w_work = 0\<rparr>, ls_file = [], ls_appended = []\<rparr>"

section \<open>Nothing is lost\<close>

definition log_inv :: "log_sys \<Rightarrow> bool" where
  "log_inv s \<longleftrightarrow> log_size (ls_mmap s) + 128 \<le> 4294967296 \<and> log_used (ls_mmap s) \<le> log_size (ls_mmap s)
     \<and> log_size (ls_mmap s) \<le> log_room (ls_mmap s)
     \<and> w_left (ls_worker s) + w_work (ls_worker s) = w_used (ls_worker s) \<and> w_used (ls_worker s) \<le> log_used (ls_mmap s)
     \<and> (w_pc (ls_worker s) = Top \<or> w_pc (ls_worker s) = Taken \<longrightarrow> w_work (ls_worker s) = 0)
     \<and> ls_appended s = ls_file s @ drop (w_work (ls_worker s)) (log_text (ls_mmap s))"

lemma log_invD:
  assumes "log_inv s"
  shows "log_size (ls_mmap s) + 128 \<le> 4294967296" "log_used (ls_mmap s) \<le> log_size (ls_mmap s)"
    "w_left (ls_worker s) + w_work (ls_worker s) = w_used (ls_worker s)" "w_used (ls_worker s) \<le> log_used (ls_mmap s)"
    "w_pc (ls_worker s) = Top \<or> w_pc (ls_worker s) = Taken \<Longrightarrow> w_work (ls_worker s) = 0"
    "ls_appended s = ls_file s @ drop (w_work (ls_worker s)) (log_text (ls_mmap s))"
    "log_size (ls_mmap s) \<le> log_room (ls_mmap s)"
  using assms unfolding log_inv_def by blast+

lemma append_turn_True:
  assumes "log_append_turn prefix_len line m = Inr (True, m')" "log_used m \<le> log_size m" "log_size m + 128 \<le> 4294967296"
    "length line < log_size m" "prefix_len < 128"
  shows "log_used m' = log_used m + length line" "log_used m' \<le> log_size m'" "log_size m' = log_size m" "log_text m' = log_text m @ line"
    "log_room m' = log_room m"
proof -
  have m': "m' = m\<lparr>log_bytes := (\<lambda>a. if log_used m \<le> a \<and> a < log_used m + length line then line ! (a - log_used m) else log_bytes m a),
      log_used := u32 (log_used m + length line)\<rparr>" and room: "prefix_len + length line \<le> log_size m - log_used m"
    using assms by (auto simp: log_append_turn_def assertE_def split: if_splits)
  have used: "log_used m + length line \<le> log_size m" using room assms(2) by simp
  then have u: "u32 (log_used m + length line) = log_used m + length line" using assms(3) by simp
  show "log_used m' = log_used m + length line" "log_used m' \<le> log_size m'" "log_size m' = log_size m"
    "log_room m' = log_room m" using used by (simp_all add: m' u)
  show "log_text m' = log_text m @ line"
    by (rule nth_equalityI) (auto simp: log_text_def m' u nth_append)
qed

lemma append_turn_False: "log_append_turn prefix_len line m = Inr (False, m') \<Longrightarrow> m' = m"
  by (auto simp: log_append_turn_def split: if_splits)

lemma append_turn_inside:
  assumes "log_used m \<le> log_size m" "log_size m \<le> log_room m" "log_size m + 128 \<le> 4294967296" "length line < log_size m" "prefix_len < 128"
  shows "\<exists>b m'. log_append_turn prefix_len line m = Inr (b, m')"
  using assms by (auto simp: log_append_turn_def assertE_def)

lemma decide_cases:
  "log_decide m w = (m', w') \<Longrightarrow> log_used m' = log_used m \<and> log_size m' = log_size m \<and> log_bytes m' = log_bytes m
     \<and> log_room m' = log_room m \<and> (w' = w\<lparr>w_pc := Top\<rparr> \<or> w' = w\<lparr>w_pc := Writing\<rparr>)"
  by (auto simp: log_decide_def Let_def split: if_splits)

lemma log_text_eq: "log_used m' = log_used m \<Longrightarrow> log_bytes m' = log_bytes m \<Longrightarrow> log_text m' = log_text m"
  by (simp add: log_text_def)

lemma log_text_write:
  assumes "k + n \<le> log_used m"
  shows "drop k (log_text m) = map (log_bytes m) [k..<k + n] @ drop (k + n) (log_text m)"
proof -
  obtain d where "log_used m = k + n + d" using assms le_Suc_ex by blast
  then have "[k..<log_used m] = [k..<k + n] @ [k + n..<log_used m]" using upt_add_eq_append [of k "k + n" d] by simp
  then show ?thesis by (simp add: log_text_def drop_map)
qed

lemma log_text_move:
  assumes "log_move m w = (m', w')" "w_left w + w_work w = w_used w" "w_used w \<le> log_used m" "log_used m < 4294967296"
  shows "log_text m' = drop (w_work w) (log_text m)" "log_used m' = log_used m - w_work w" "log_size m' = log_size m"
    "w' = w\<lparr>w_pc := Top, w_work := 0, w_used := 0, w_left := 0\<rparr>" "log_room m' = log_room m"
proof -
  let ?b = "\<lambda>u. (\<lambda>a. if a < u then log_bytes m (w_work w + a) else log_bytes m a)"
  have u: "u32 (w_left w + u32_sub (log_used m) (w_used w)) = log_used m - w_work w" using assms(2-4) by simp
  have m': "log_used m' = log_used m - w_work w" "log_size m' = log_size m" "log_room m' = log_room m"
    "log_bytes m' = (if w_work w = 0 then log_bytes m else ?b (log_used m - w_work w))"
    using assms(1,2) u by (auto simp: log_move_def Let_def)
  show "log_used m' = log_used m - w_work w" "log_size m' = log_size m" "log_room m' = log_room m" by (fact m')+
  show "w' = w\<lparr>w_pc := Top, w_work := 0, w_used := 0, w_left := 0\<rparr>" using assms(1) by (simp add: log_move_def Let_def)
  show "log_text m' = drop (w_work w) (log_text m)"
    by (rule nth_equalityI) (auto simp: log_text_def m')
qed

lemma log_inv_step:
  assumes "log_step s s'" "log_inv s"
  shows "log_inv s'"
  using assms(1)
proof cases
  case (append prefix_len line m)
  note D = log_invD [OF assms(2)] and A = append_turn_True [OF append(4) log_invD(2,1) [OF assms(2)]]
  have l: "length line < log_size (ls_mmap s)" using append(3) by (simp add: log_takes_def)
  note A = A [OF l append(2)]
  have "w_work (ls_worker s) \<le> length (log_text (ls_mmap s))" using D(3,4) by (simp add: log_text_def)
  then show ?thesis using A D append(1) by (auto simp: log_inv_def)
next
  case (append_wait prefix_len line m)
  then show ?thesis using append_turn_False [OF append_wait(4)] assms(2) by simp
next
  case stop
  then show ?thesis using assms(2) by (simp add: log_inv_def log_text_def)
next
  case (take_used now)
  then show ?thesis using log_invD [OF assms(2)] by (simp add: log_inv_def log_take_def)
next
  case (decide m w)
  then show ?thesis using log_invD [OF assms(2)] decide_cases [OF decide(3)] log_text_eq [of m "ls_mmap s"]
    by (auto simp: log_inv_def)
next
  case (write_some r bs m w)
  note D = log_invD [OF assms(2)]
  show ?thesis
  proof (cases r)
    case (Written n)
    have n: "0 < n" "n \<le> w_left (ls_worker s)" using write_some(4) Written by simp_all
    have left: "u32_sub (w_left (ls_worker s)) n = w_left (ls_worker s) - n" using n D(1-4) by simp
    have "w_work (ls_worker s) + n \<le> log_used (ls_mmap s)" using n D(3,4) by simp
    from log_text_write [OF this] show ?thesis using D n write_some left Written
      by (auto simp: log_inv_def log_write_def Let_def log_text_def)
  qed (use D write_some in \<open>auto simp: log_inv_def log_write_def log_write_end_def Let_def log_text_def\<close>)
next
  case write_all
  then show ?thesis using log_invD [OF assms(2)] by (auto simp: log_inv_def log_write_end_def)
next
  case (move m w)
  note D = log_invD [OF assms(2)]
  have "log_used (ls_mmap s) < 4294967296" using D(1,2) by simp
  note M = log_text_move [OF move(3) D(3,4) this]
  show ?thesis using D M move(1) by (simp add: log_inv_def)
next
  case close
  then show ?thesis using log_invD [OF assms(2)] by (simp add: log_inv_def log_close_def)
next
  case ended
  then show ?thesis using log_invD [OF assms(2)] by (simp add: log_inv_def log_end_def log_text_def)
qed

lemma log_inv_start: "0 < sz \<Longrightarrow> sizeof_log_mmap + sz < 4294967296 \<Longrightarrow> log_inv (log_start sz fd)"
  by (simp add: log_inv_def log_start_def log_new_def log_text_def sizeof_log_mmap_def SHF_PID_MAX_def)

lemma log_inv_reach:
  assumes "log_step\<^sup>*\<^sup>* (log_start sz fd) s" "0 < sz" "sizeof_log_mmap + sz < 4294967296"
  shows "log_inv s"
  using assms(1) by (induction rule: rtranclp_induct) (auto intro: log_inv_step log_inv_start [OF assms(2,3)])

text \<open>The log thread writes nothing any more once it has written the rest.\<close>

lemma log_closed_step:
  "log_step s s' \<Longrightarrow> w_pc (ls_worker s) \<in> {Closed, Ended} \<Longrightarrow> w_pc (ls_worker s') \<in> {Closed, Ended} \<and> ls_file s' = ls_file s"
  by (auto elim!: log_step.cases)

lemma log_closed:
  "log_step\<^sup>*\<^sup>* s s' \<Longrightarrow> w_pc (ls_worker s) \<in> {Closed, Ended} \<Longrightarrow> w_pc (ls_worker s') \<in> {Closed, Ended} \<and> ls_file s' = ls_file s"
  by (induction rule: rtranclp_induct) (use log_closed_step in force)+

text \<open>With the size 0 the first line is already written behind the value.\<close>

lemma log_size_0: "line \<noteq> [] \<Longrightarrow> prefix_len + length line \<le> SHF_LOG_DEFAULT_SIZE
    \<Longrightarrow> log_append_turn prefix_len line (log_new 0 fd) = Inl Out_of_bounds"
  by (simp add: log_append_turn_def log_new_def SHF_LOG_DEFAULT_SIZE_def assertE_def sizeof_log_mmap_def SHF_PID_MAX_def)

section \<open>Short names for threads\<close>

text \<open>
  Every line starts with the time and a small number for the thread. The numbers are handed out under
  the lock and kept in the log by thread id, one byte each.
\<close>

definition digit :: "nat \<Rightarrow> char" where
  "digit d = char_of (48 + d)"

fun dec :: "nat \<Rightarrow> string" where
  "dec n = (if n < 10 then [digit n] else dec (n div 10) @ [digit (n mod 10)])"

declare dec.simps [simp del]

record prefix_thread =
  p_tid :: nat
  p_tid_id :: nat
  p_prefix :: string
  p_prefix_len :: nat

definition log_map_tid :: "nat \<Rightarrow> log_mmap \<Rightarrow> log_mmap" where
  "log_map_tid tid m =
     (if log_tids m tid = 0 then
        let m = m\<lparr>log_tid_id := (log_tid_id m + 1) mod 256\<rparr>
        in m\<lparr>log_tids := (log_tids m)(tid := log_tid_id m)\<rparr>
      else m)"

definition prefix_append :: "string \<Rightarrow> prefix_thread \<Rightarrow> prefix_thread" where
  "prefix_append text t = (let (_, buf, i) = append_text (p_prefix t) (p_prefix_len t) text in t\<lparr>p_prefix := buf, p_prefix_len := i\<rparr>)"

text \<open>
  \<open>shf_log_prefix_get\<close> in a thread with id \<open>gettid\<close>, at a time that prints as \<open>time\<close>, with or without a
  log attached.
\<close>

definition prefix_id :: "string \<Rightarrow> log_mmap option \<Rightarrow> prefix_thread \<Rightarrow> shf_error + string \<times> log_mmap option \<times> prefix_thread" where
  "prefix_id time log t =
     (case log of
        None \<Rightarrow> Inr (''?'', None, t)
      | Some m \<Rightarrow>
          bindE (assertE (p_tid t < SHF_PID_MAX) Bad_argument) (\<lambda>_.
          if log_tids m (p_tid t) = 0 then
            let m = log_map_tid (p_tid t) m;
                t = prefix_append (''?'' @ time @ '' '' @ dec (if log_tid_id m \<noteq> 0 then log_tid_id m else p_tid t)
                      @ '' --> auto mapped to thread id '' @ dec (p_tid t) @ [newline]) t
            in Inr (''#'', Some m, t\<lparr>p_tid_id := log_tids m (p_tid t)\<rparr>)
          else Inr (''?'', Some m, t\<lparr>p_tid_id := log_tids m (p_tid t)\<rparr>)))"

definition shf_log_prefix_get :: "nat \<Rightarrow> string \<Rightarrow> log_mmap option \<Rightarrow> prefix_thread \<Rightarrow> shf_error + log_mmap option \<times> prefix_thread" where
  "shf_log_prefix_get gettid time log t =
     (let t = t\<lparr>p_prefix_len := 0\<rparr>;
          t = (if p_tid t = 0 then t\<lparr>p_tid := gettid\<rparr> else t)
      in bindE (if p_tid_id t = 0 then prefix_id time log t else Inr (''?'', log, t)) (\<lambda>(tbd, log, t).
         Inr (log, prefix_append (tbd @ time @ '' '' @ dec (if p_tid_id t \<noteq> 0 then p_tid_id t else p_tid t) @ '' '') t)))"

definition shf_log_init :: "prefix_thread \<Rightarrow> prefix_thread" where
  "shf_log_init t = t\<lparr>p_tid := 0, p_tid_id := 0\<rparr>"

lemma map_tids:
  assumes "distinct ts" "\<forall>t \<in> set ts. log_tids m t = 0" "log_tid_id m < 256"
  shows "log_tid_id (fold log_map_tid ts m) = (log_tid_id m + length ts) mod 256
    \<and> (\<forall>k < length ts. log_tids (fold log_map_tid ts m) (ts ! k) = (log_tid_id m + k + 1) mod 256)
    \<and> (\<forall>t. t \<notin> set ts \<longrightarrow> log_tids (fold log_map_tid ts m) t = log_tids m t)"
  using assms
proof (induction ts arbitrary: m)
  case (Cons u us)
  let ?m = "log_map_tid u m" and ?e = "fold log_map_tid us (log_map_tid u m)"
  have m: "log_tid_id ?m = (log_tid_id m + 1) mod 256" "log_tids ?m = (log_tids m)(u := (log_tid_id m + 1) mod 256)"
    using Cons.prems by (simp_all add: log_map_tid_def Let_def)
  have u: "u \<notin> set us" "distinct us" "\<forall>t \<in> set us. log_tids ?m t = 0" using Cons.prems m by auto
  have IH: "log_tid_id ?e = (log_tid_id ?m + length us) mod 256"
    "\<And>k. k < length us \<Longrightarrow> log_tids ?e (us ! k) = (log_tid_id ?m + k + 1) mod 256"
    "\<And>t. t \<notin> set us \<Longrightarrow> log_tids ?e t = log_tids ?m t"
    using Cons.IH [OF u(2,3)] m(1) by simp_all
  have "log_tids ?e ((u # us) ! k) = (log_tid_id m + k + 1) mod 256" if "k < length (u # us)" for k
  proof (cases k)
    case 0
    then show ?thesis using IH(3) [OF u(1)] m by simp
  next
    case (Suc j)
    then show ?thesis using IH(2) [of j] that m(1) mod_add_left_eq [of "Suc (log_tid_id m)" 256 "Suc j"] by simp
  qed
  moreover have "log_tid_id ?e = (log_tid_id m + length (u # us)) mod 256" using IH(1) m(1) by (simp add: mod_simps)
  ultimately show ?case using IH(3) m by simp
qed simp

section \<open>Properties of the shared log\<close>

text \<open>
  C35. A log whose size is given, and fits with the header in 32 bits: lines that any threads append while the
  log thread writes are neither lost nor doubled nor reordered. At every moment all that was appended is what has
  been written to the file, followed by the part of the buffer that has not, whatever the writes return and
  however the steps interleave; the buffer never overflows, and no line is copied past the end of the value
  that holds the log. This holds in the buffer: once the log thread has been told to stop and has
  tried to write the rest, the file stays as it is, and what the buffer still holds or gets is never written.
\<close>

theorem log_loses_nothing:
  assumes "0 < sz" "sizeof_log_mmap + sz < 4294967296" "log_step\<^sup>*\<^sup>* (log_start sz fd) s"
  shows "ls_appended s = ls_file s @ drop (w_work (ls_worker s)) (log_text (ls_mmap s))
     \<and> log_used (ls_mmap s) \<le> log_size (ls_mmap s) \<and> log_size (ls_mmap s) \<le> log_room (ls_mmap s)
     \<and> (\<forall>prefix_len line. prefix_len < 128 \<and> log_takes line (ls_mmap s) \<longrightarrow> log_append_turn prefix_len line (ls_mmap s) \<noteq> Inl Out_of_bounds)
     \<and> (w_pc (ls_worker s) \<in> {Closed, Ended} \<longrightarrow> (\<forall>s'. log_step\<^sup>*\<^sup>* s s' \<longrightarrow> ls_file s' = ls_file s))"
proof -
  note D = log_invD [OF log_inv_reach [OF assms(3,1,2)]]
  have "log_append_turn prefix_len line (ls_mmap s) \<noteq> Inl Out_of_bounds"
    if a: "prefix_len < 128 \<and> log_takes line (ls_mmap s)" for prefix_len line
    using append_turn_inside [OF D(2,7,1), of line prefix_len] a by (auto simp: log_takes_def)
  then show ?thesis using D(2,6,7) log_closed by blast
qed

text \<open>Two characters are appended, and the log thread has written the first.\<close>

lemma four_steps: "R a b \<Longrightarrow> R b c \<Longrightarrow> R c d \<Longrightarrow> R d e \<Longrightarrow> R\<^sup>*\<^sup>* a e"
  by (blast intro: converse_rtranclp_into_rtranclp)

lemma demo_log_run:
  "\<exists>s. log_step\<^sup>*\<^sup>* (log_start 1024 1) s \<and> ls_appended s = ''ab'' \<and> ls_file s = ''a'' \<and> w_work (ls_worker s) = 1"
proof -
  let ?s0 = "log_start 1024 1"
  let ?m1 = "snd (projr (log_append_turn 20 ''ab'' (ls_mmap ?s0)))"
  let ?s1 = "?s0\<lparr>ls_mmap := ?m1, ls_appended := ls_appended ?s0 @ ''ab''\<rparr>"
  let ?s2 = "?s1\<lparr>ls_worker := log_take 1 (ls_mmap ?s1) (ls_worker ?s1)\<rparr>"
  let ?d = "log_decide (ls_mmap ?s2) (ls_worker ?s2)"
  let ?s3 = "?s2\<lparr>ls_mmap := fst ?d, ls_worker := snd ?d\<rparr>"
  let ?r = "log_write (Written 1) (ls_mmap ?s3) (ls_worker ?s3)"
  let ?s4 = "?s3\<lparr>ls_mmap := fst (snd ?r), ls_worker := snd (snd ?r), ls_file := ls_file ?s3 @ fst ?r\<rparr>"
  have "log_step ?s0 ?s1" by (rule append [where prefix_len = 20]) (simp_all add: log_takes_def log_start_def log_new_def log_append_turn_def sizeof_log_mmap_def SHF_PID_MAX_def assertE_def)
  moreover have "log_step ?s1 ?s2" by (rule take_used) (simp_all add: log_start_def log_new_def log_append_turn_def sizeof_log_mmap_def SHF_PID_MAX_def assertE_def)
  moreover have "log_step ?s2 ?s3" by (rule decide) (simp_all add: log_take_def)
  moreover have "log_step ?s3 ?s4" by (rule write_some [where r = "Written 1"])
    (simp_all add: log_take_def log_decide_def log_start_def log_new_def log_append_turn_def sizeof_log_mmap_def SHF_PID_MAX_def assertE_def Let_def)
  ultimately have "log_step\<^sup>*\<^sup>* ?s0 ?s4" by (rule four_steps)
  moreover have "ls_appended ?s4 = ''ab''" "ls_file ?s4 = ''a''" "w_work (ls_worker ?s4) = 1"
    by (simp_all add: log_take_def log_decide_def log_start_def log_new_def log_append_turn_def sizeof_log_mmap_def SHF_PID_MAX_def assertE_def log_write_def Let_def)
  ultimately show ?thesis by blast
qed

theorem log_loses_nothing_witness:
  "\<exists>s. log_step\<^sup>*\<^sup>* (log_start 1024 1) s \<and> ls_appended s = ''ab'' \<and> ls_file s = ''a'' \<and> drop 1 (log_text (ls_mmap s)) = ''b''"
proof -
  obtain s where s: "log_step\<^sup>*\<^sup>* (log_start 1024 1) s" "ls_appended s = ''ab''" "ls_file s = ''a''" "w_work (ls_worker s) = 1"
    using demo_log_run by blast
  have "drop 1 (log_text (ls_mmap s)) = ''b''" using log_loses_nothing [OF _ _ s(1)] s(2-4) by (simp add: sizeof_log_mmap_def SHF_PID_MAX_def)
  then show ?thesis using s(1-3) by blast
qed

text \<open>
  The numbers for threads wrap around in their byte: the \<open>k\<close>-th thread to log gets \<open>k mod 256\<close>.
  Up to 255 threads have different numbers; the 256th gets 0, which stands for none, and the next one
  the number of the first.
\<close>

theorem thread_numbers:
  assumes "distinct ts" "k < length ts"
  shows "log_tids (fold log_map_tid ts (log_new sz fd)) (ts ! k) = (k + 1) mod 256"
  using map_tids [OF assms(1), of "log_new sz fd"] assms(2) by (simp add: log_new_def)

theorem thread_numbers_witness:
  "log_tids (fold log_map_tid [1000..<1300] (log_new 1024 1)) 1000 = 1 \<and> log_tids (fold log_map_tid [1000..<1300] (log_new 1024 1)) 1255 = 0
   \<and> log_tids (fold log_map_tid [1000..<1300] (log_new 1024 1)) 1256 = 1"
  using thread_numbers [of "[1000..<1300]" 0 1024 1] thread_numbers [of "[1000..<1300]" 255 1024 1]
    thread_numbers [of "[1000..<1300]" 256 1024 1] by (simp del: upt_rec_numeral)

end
