(* ===== verification/Shf_Ipc.thy ===== *)
theory Shf_Ipc
  imports Shf_Dict Shf_QueueSys Shf_LogShm
begin

text \<open>
  What the program keeps under keys of the store: the parameters and the arrays of the queues, the
  names of queues, the starting line of a race, the log. The arrays are used through pointers into the
  mapped tab file, so this theory follows addresses: where a value is, that looking things up does not
  move it, and what writing through an address does to the dictionary.
\<close>

section \<open>Addresses of values\<close>

text \<open>The address form of a read by UID and by key, as its callers use it.\<close>

definition uid_addr :: "nat \<Rightarrow> shf \<Rightarrow> shf_error + (nat \<times> nat) option \<times> shf" where
  "uid_addr uid s = bindE (shf_get_uid_val_addr uid s) (\<lambda>(_, s). Inr (shf_val_addr s, s))"

definition key_addr :: "byte list \<Rightarrow> shf \<Rightarrow> shf_error + (nat \<times> nat) option \<times> shf" where
  "key_addr key s = bindE (shf_get_key_val_addr (shf_make_hash (Some key) s)) (\<lambda>(res, s).
     bindE (assertE (res = SHF_RET_KEY_FOUND) Key_missing) (\<lambda>_. Inr (shf_val_addr s, s)))"

text \<open>The address is the place of the value \<open>v\<close> that the dictionary has for the key.\<close>

definition points :: "shf \<Rightarrow> (nat \<times> nat) option \<Rightarrow> byte list \<Rightarrow> byte list \<Rightarrow> bool" where
  "points s addr key v \<longleftrightarrow> (\<exists>i a ref. addr = Some (i, a) \<and> ref < 16 \<and>
     placed (hash_win (key_hash key)) (hash_tab2 (key_hash key)) i (hash_row (key_hash key)) ref (hash_rnd (key_hash key)) key v a s)"

lemma placed_kv:
  "placed win tab2 i row ref rnd k v a s \<Longrightarrow> kv (lens_of s) s (win, tab2, row, ref) = Some (rnd, k, v)"
  by (simp add: placed_def kv_eq table_Some)

lemma placed_mem: "placed win tab2 i row ref rnd k v a s \<Longrightarrow> mem_bytes (tab_data (inode s i)) a (length v) = v"
  by (simp add: placed_def slot_Some_iff ref_val_def)

lemma points_mem: "points s (Some (i, a)) key v \<Longrightarrow> mem_bytes (tab_data (inode s i)) a (length v) = v"
  by (auto simp: points_def dest: placed_mem)

lemma points_entry:
  assumes "points s addr key v" "unique_keys s"
  shows "dict s key = Some v"
proof -
  obtain ref where r: "ref < 16" "kv (lens_of s) s (place key ref) = Some (hash_rnd (key_hash key), key, v)"
    using assms(1) placed_kv unfolding points_def place_def by blast
  then have e: "entry s key ref = Some v" by (simp add: entry_def)
  then have "holds_key s key ref" by (simp add: holds_key_def)
  then show ?thesis by (intro dict_only [OF r(1) e]) (use unique_keysD [OF assms(2) _ r(1)] in blast)
qed

lemma points_steady:
  assumes "points s addr key v" "steady s s'" "same_routes s s'" "lens_of s' = lens_of s" "shf_ok s'"
  shows "points s' addr key v"
  using assms unfolding points_def placed_def steady_def same_routes_def by metis

lemma points_looked: "points s addr key v \<Longrightarrow> looked s s' \<Longrightarrow> points s' addr key v"
  by (rule points_steady) (simp_all add: looked_def)

lemma points_hashed:
  assumes "points s addr k v"
  shows "points (shf_make_hash (Some key) s) addr k v"
proof -
  have ok: "shf_ok s" using assms by (auto simp: points_def placed_def)
  show ?thesis by (rule points_steady [OF assms]) (simp_all add: steady_def make_hash_key same_routes_def ok)
qed

lemma uid_addr_ok:
  assumes ok: "dict_ok n r s" and u: "refers s uid key"
  shows "\<exists>addr s' v. uid_addr uid s = Inr (addr, s') \<and> dict_ok n r s' \<and> dict s' = dict s \<and> dict s key = Some v
     \<and> points s' addr key v \<and> (\<forall>a k w. points s a k w \<longrightarrow> points s' a k w) \<and> (\<forall>u k. refers s u k \<longrightarrow> refers s' u k) \<and> maps_kept s s'
     \<and> shf_get_uid_val_addr uid s = Inr (SHF_RET_KEY_FOUND, s') \<and> shf_val_addr s' = addr"
proof -
  note D = dict_okD [OF ok]
  obtain v where v: "dict s key = Some v" "kv (lens_of s) s (uid_coord uid) = Some (hash_rnd (key_hash key), key, v)"
    using refers_kv [OF u D(5)] .
  obtain ref where ref: "ref < 16" "uid_coord uid = (hash_win (key_hash key), hash_tab2 (key_hash key), hash_row (key_hash key), ref)"
    "uid \<noteq> SHF_UID_NONE"
    using u by (auto simp: refers_def place_def)
  let ?w = "hash_win (key_hash key)" and ?t = "hash_tab2 (key_hash key)" and ?x = "hash_row (key_hash key)"
  obtain i s' where f: "shf_get_uid_val_addr uid s
      = found_key SHF_FIND_KEY_OR_UID_ADDR no_upd ?w (win_tabs (wins s ?w) ?t) i ?x ref (length key) (length v) s'"
    "looked s s'" "located ?w ?t i ?x ref (hash_rnd (key_hash key)) key v s'"
    using find_by_uid [OF D(1) ref(3,2), of SHF_FIND_KEY_OR_UID_ADDR no_upd] v(2)
    unfolding shf_get_uid_val_addr_def ref(2) by auto
  obtain a where a: "shf_val_addr s' = Some (i, a)" using located_val [OF f(3)] by blast
  have "shf_get_uid_val_addr uid s = Inr (SHF_RET_KEY_FOUND, s')" using f(1) by (simp add: found_key_def a)
  moreover have "points s' (shf_val_addr s') key v" using located_placed [OF f(3) a] ref(1) by (auto simp: points_def a)
  moreover have "uid_addr uid s = Inr (shf_val_addr s', s')" using f(1) by (simp add: uid_addr_def found_key_def a)
  moreover have e: "shf_ok s'" "shf_room n s'" "kv (lens_of s) s' = kv (lens_of s) s" "lens_of s' = lens_of s" "shf_ttl s' = 0"
    using f(2) D by (simp_all add: looked_def)
  moreover have "maps_kept s s'" using f(2) by (simp add: maps_kept_def looked_def)
  ultimately show ?thesis using dict_ok_same [OF ok e] v(1) points_looked [OF _ f(2)] by blast
qed

lemma key_addr_ok:
  assumes ok: "dict_ok n r s" and v: "dict s key = Some v"
  shows "\<exists>addr s'. key_addr key s = Inr (addr, s') \<and> dict_ok n r s' \<and> dict s' = dict s
     \<and> points s' addr key v \<and> (\<forall>a k w. points s a k w \<longrightarrow> points s' a k w) \<and> (\<forall>u k. refers s u k \<longrightarrow> refers s' u k) \<and> maps_kept s s'"
proof -
  let ?w = "hash_win (key_hash key)" and ?t = "hash_tab2 (key_hash key)" and ?x = "hash_row (key_hash key)"
  obtain i ref s' where f: "shf_get_key_val_addr (shf_make_hash (Some key) s)
      = found_key SHF_FIND_KEY_OR_UID_ADDR no_upd ?w (win_tabs (wins s' ?w) ?t) i ?x ref (length key) (length v) s'"
    "looked (shf_make_hash (Some key) s) s'" "ref < 16" "located ?w ?t i ?x ref (hash_rnd (key_hash key)) key v s'"
    using find_key [OF ok, where key = key and what = SHF_FIND_KEY_OR_UID_ADDR and upd = no_upd]
    unfolding v option.case shf_get_key_val_addr_def by blast
  obtain a where a: "shf_val_addr s' = Some (i, a)" using located_val [OF f(4)] by blast
  have "points s' (shf_val_addr s') key v" using located_placed [OF f(4) a] f(3) by (auto simp: points_def a)
  moreover have "key_addr key s = Inr (shf_val_addr s', s')" using f(1) by (simp add: key_addr_def found_key_def a)
  ultimately show ?thesis using looked_dict [OF ok f(2)] points_looked [OF points_hashed f(2)] by blast
qed

section \<open>Writing through an address\<close>

definition write_at :: "(nat \<times> nat) option \<Rightarrow> byte list \<Rightarrow> shf \<Rightarrow> shf" where
  "write_at addr bs s = (case addr of None \<Rightarrow> s
     | Some (i, a) \<Rightarrow> upd_inode i (\<lambda>t. t\<lparr>tab_data := SHF_MEM_AT a bs (tab_data t)\<rparr>) s)"

lemma val_addr_slot:
  assumes "slot L t rf = Some (t2, rnd, k, v)"
  shows "ref_val_addr L (tab_data t) (slot_pos t rf) = u32 (slot_pos t rf + 1 + len_len L + length k + len_len L)"
  using assms by (simp add: slot_Some_iff ref_val_addr_def ref_key_def)

lemma placed_write:
  assumes loc: "placed win tab2 i row ref rnd k v a s" and bs: "length bs = length v"
    and s': "s' = upd_inode i (\<lambda>t. t\<lparr>tab_data := SHF_MEM_AT a bs (tab_data t)\<rparr>) s"
  shows "placed win tab2 i row ref rnd k bs a s'"
    "placed win' tab2' i' row' ref' rnd' k' v' a' s \<Longrightarrow> k' \<noteq> k \<Longrightarrow> placed win' tab2' i' row' ref' rnd' k' v' a' s'"
proof -
  note X = placed_in_place [OF loc bs s']
  let ?L = "lens_of s" and ?t = "inode s i"
  have l: "shf_ok s" "win < 256" "tab2 < 2048" "tab_file s win (win_tabs (wins s win) tab2) = Some i" "tab_size ?t \<noteq> 0"
    "slot ?L ?t (row, ref) = Some (tab2, rnd, k, v)" "a = ref_val_addr ?L (tab_data ?t) (slot_pos ?t (row, ref))"
    using loc by (simp_all add: placed_def)
  note D = shf_okD [OF l(1)]
  note I = inode_okD [OF files_okD(3) [OF D(2) l(4)] l(5)]
  define t' where "t' = ?t\<lparr>tab_data := SHF_MEM_AT a bs (tab_data ?t)\<rparr>"
  note O = overwrite_ok [OF D(1) I(1) l(6) bs t'_def [unfolded l(7)]]
  have e: "inode s' = (inode s)(i := t')" "tab_file s' = tab_file s" "lens_of s' = ?L" "wins s' = wins s"
    by (simp_all add: s' upd_inode_def t'_def lens_of_def)
  have pos: "slot_pos t' rf = slot_pos ?t rf" for rf by (simp add: t'_def slot_pos_def)
  have own: "slot ?L t' (row, ref) = Some (tab2, rnd, k, bs)" by (simp add: O(2))
  have "a = ref_val_addr ?L (tab_data t') (slot_pos t' (row, ref))"
    using val_addr_slot [OF own] val_addr_slot [OF l(6)] by (simp add: l(7) pos)
  then show "placed win tab2 i row ref rnd k bs a s'" using X(1) l own O(3) by (simp add: placed_def e)
  assume p: "placed win' tab2' i' row' ref' rnd' k' v' a' s" and k: "k' \<noteq> k"
  show "placed win' tab2' i' row' ref' rnd' k' v' a' s'"
  proof (cases "i' = i")
    case False
    then show ?thesis using p X(1) by (simp add: placed_def e)
  next
    case True
    have q: "slot ?L ?t (row', ref') = Some (tab2', rnd', k', v')" "a' = ref_val_addr ?L (tab_data ?t) (slot_pos ?t (row', ref'))"
      using p by (simp_all add: placed_def True)
    then have n: "(row', ref') \<noteq> (row, ref)" using l(6) k by auto
    have q': "slot ?L t' (row', ref') = Some (tab2', rnd', k', v')" unfolding O(2) fun_upd_other [OF n] by (rule q(1))
    have "a' = ref_val_addr ?L (tab_data t') (slot_pos t' (row', ref'))"
      using val_addr_slot [OF q'] val_addr_slot [OF q(1)] by (simp add: q(2) pos)
    then show ?thesis using p X(1) q' O(3) True by (simp add: placed_def e)
  qed
qed

lemma write_at_ok:
  assumes ok: "dict_ok n r s" and p: "points s addr key v" and bs: "length bs = length v"
  shows "dict_ok n r (write_at addr bs s)" "dict (write_at addr bs s) = (dict s)(key \<mapsto> bs)"
    "points (write_at addr bs s) addr key bs" "k \<noteq> key \<Longrightarrow> points s b k w \<Longrightarrow> points (write_at addr bs s) b k w"
    "maps_kept s (write_at addr bs s)"
proof -
  note D = dict_okD [OF ok]
  obtain i a ref where a: "addr = Some (i, a)" "ref < 16"
    "placed (hash_win (key_hash key)) (hash_tab2 (key_hash key)) i (hash_row (key_hash key)) ref (hash_rnd (key_hash key)) key v a s"
    using p by (auto simp: points_def)
  define s' where "s' = upd_inode i (\<lambda>t. t\<lparr>tab_data := SHF_MEM_AT a bs (tab_data t)\<rparr>) s"
  have w: "write_at addr bs s = s'" by (simp add: write_at_def a(1) s'_def)
  note X = placed_in_place [OF a(3) bs s'_def] and P = placed_write [OF a(3) bs s'_def]
  have kv: "kv (lens_of s) s' = (kv (lens_of s) s)(place key ref \<mapsto> (hash_rnd (key_hash key), key, bs))"
    using X(3) by (simp add: place_def)
  have e: "lens_of s' = lens_of s" "is_fixed_key_val_len s' = is_fixed_key_val_len s" "shf_ttl s' = shf_ttl s"
    using same_threadD [OF X(5)] by simp_all
  have old: "kv (lens_of s) s (place key ref) = Some (hash_rnd (key_hash key), key, v)"
    using placed_kv [OF a(3)] by (simp add: place_def)
  then have h: "holds_key s key ref" by (simp add: holds_key_def entry_def)
  note I = dict_insert [OF kv e(1) a(2) D(5) disjI2, OF h]
  have rr: "row_refs s' = row_refs s"
    by (intro ext) (auto simp: row_refs_def e kv old)
  show "dict_ok n r (write_at addr bs s)" using X(1) X(6) [OF D(2)] I(2) D e by (simp add: w dict_ok_def rr)
  show "dict (write_at addr bs s) = (dict s)(key \<mapsto> bs)" by (simp add: w I(1))
  have "points s' addr key bs" using P(1) a(1,2) unfolding points_def by blast
  then show "points (write_at addr bs s) addr key bs" by (simp add: w)
  show "points (write_at addr bs s) b k w" if "k \<noteq> key" "points s b k w"
    using P(2) that unfolding w points_def by blast
  show "maps_kept s (write_at addr bs s)" using X(2) by (simp add: w maps_kept_def)
qed

section \<open>Numbers and arrays as bytes\<close>

definition le32 :: "nat \<Rightarrow> byte list" where
  "le32 n = mem_bytes (put_U32_AT 0 n (\<lambda>_. 0)) 0 4"

definition u32_of :: "byte list \<Rightarrow> nat" where
  "u32_of bs = SHF_U32_AT (\<lambda>a. if a < length bs then bs ! a else 0) 0"

lemma length_le32 [simp]: "length (le32 n) = 4"
  by (simp add: le32_def)

lemma u32_of_mem: "4 \<le> length bs \<Longrightarrow> (\<And>j. j < 4 \<Longrightarrow> m (a + j) = bs ! j) \<Longrightarrow> SHF_U32_AT m a = u32_of bs"
proof -
  assume l: "4 \<le> length bs" and e: "\<And>j. j < 4 \<Longrightarrow> m (a + j) = bs ! j"
  have "0 < length bs" "1 < length bs" "2 < length bs" "3 < length bs" using l by linarith+
  then show ?thesis using e [of 0] e [of 1] e [of 2] e [of 3]
    by (simp add: u32_of_def SHF_U32_AT_def numeral_2_eq_2)
qed

lemma u32_of_le32: "n < 4294967296 \<Longrightarrow> u32_of (le32 n @ bs) = n"
proof -
  assume n: "n < 4294967296"
  have "SHF_U32_AT (put_U32_AT 0 n (\<lambda>_. 0)) 0 = u32_of (le32 n @ bs)"
    by (rule u32_of_mem) (simp_all add: le32_def nth_append)
  then show ?thesis using bm.get32_put32 [OF n, of 0 "\<lambda>_. 0"] by simp
qed

text \<open>The arrays of the queues as they lie in memory: three numbers for a queue, two for an item.\<close>

definition qid_bytes :: "qid_mmap \<Rightarrow> byte list" where
  "qid_bytes h = le32 (qid_head h) @ le32 (qid_tail h) @ le32 (qid_size h)"

definition qiid_bytes :: "qiid_mmap \<Rightarrow> byte list" where
  "qiid_bytes x = le32 (qiid_last x) @ le32 (qiid_next x)"

definition array_bytes :: "('a \<Rightarrow> byte list) \<Rightarrow> nat \<Rightarrow> (nat \<Rightarrow> 'a) \<Rightarrow> byte list" where
  "array_bytes enc n f = concat (map (\<lambda>j. enc (f j)) [0..<n])"

definition qid_at :: "mem \<Rightarrow> nat \<Rightarrow> qid_mmap" where
  "qid_at m a = \<lparr>qid_head = SHF_U32_AT m a, qid_tail = SHF_U32_AT m (a + 4), qid_size = SHF_U32_AT m (a + 8)\<rparr>"

definition qiid_at :: "mem \<Rightarrow> nat \<Rightarrow> qiid_mmap" where
  "qiid_at m a = \<lparr>qiid_last = SHF_U32_AT m a, qiid_next = SHF_U32_AT m (a + 4)\<rparr>"

lemma length_array:
  assumes "\<And>x. length (enc x) = w"
  shows "length (array_bytes enc n f) = w * n"
  by (induction n) (simp_all add: array_bytes_def assms)

lemma array_chunk:
  assumes "\<And>x. length (enc x) = w" "j < n" "c < w"
  shows "array_bytes enc n f ! (w * j + c) = enc (f j) ! c"
  using assms(2)
proof (induction n)
  case (Suc n)
  have e: "array_bytes enc (Suc n) f = array_bytes enc n f @ enc (f n)" by (simp add: array_bytes_def)
  show ?case
  proof (cases "j = n")
    case True
    then show ?thesis by (simp add: e nth_append length_array [OF assms(1)])
  next
    case False
    then have j: "j < n" using Suc.prems by simp
    then have "w * j + c < w * Suc j" "w * Suc j \<le> w * n" using assms(3) by (simp, intro mult_le_mono2) simp
    then have "w * j + c < w * n" by linarith
    then show ?thesis using Suc.IH [OF j] by (simp add: e nth_append length_array [OF assms(1)])
  qed
qed simp

lemma mem_array:
  assumes "mem_bytes m a (w * n) = array_bytes enc n f" "\<And>x. length (enc x) = w" "j < n" "c < w"
  shows "m (a + w * j + c) = enc (f j) ! c"
proof -
  have "w * j + c < w * Suc j" "w * Suc j \<le> w * n" using assms(3,4) by (simp, intro mult_le_mono2) simp
  then have "w * j + c < w * n" by linarith
  from mem_bytes_nth [OF this, of m a] show ?thesis by (simp add: assms(1) add.assoc array_chunk [where enc = enc, OF assms(2-4)])
qed

section \<open>The queues in the store\<close>

definition str_bytes :: "string \<Rightarrow> byte list" where
  "str_bytes = map of_char"

text \<open>The pointers of \<open>SHF_Q\<close> into the store.\<close>

record q_ptrs =
  q_item_addr :: "(nat \<times> nat) option"
  qids_ptr :: "(nat \<times> nat) option"
  qiids_ptr :: "(nat \<times> nat) option"
  q_lock_ptr :: "(nat \<times> nat) option"

text \<open>The arrays as one process sees them through its pointers, and their bytes written back.\<close>

definition q_load :: "q_ptrs \<Rightarrow> shf \<Rightarrow> q_shm" where
  "q_load P s =
     \<lparr>qids = (\<lambda>j. case the (qids_ptr P) of (i, a) \<Rightarrow> qid_at (tab_data (inode s i)) (a + 12 * j)),
      qiids = (\<lambda>j. case the (qiids_ptr P) of (i, a) \<Rightarrow> qiid_at (tab_data (inode s i)) (a + 8 * j)),
      q_item_mem = (\<lambda>j. case the (q_item_addr P) of (i, a) \<Rightarrow> tab_data (inode s i) (a + j))\<rparr>"

definition q_save :: "q_ptrs \<Rightarrow> q_proc \<Rightarrow> q_shm \<Rightarrow> shf \<Rightarrow> shf" where
  "q_save P p m s =
     write_at (q_item_addr P) (map (q_item_mem m) [0..<q_items p * q_item_size p])
       (write_at (qiids_ptr P) (array_bytes qiid_bytes (q_items p) (qiids m))
         (write_at (qids_ptr P) (array_bytes qid_bytes (qs p) (qids m)) s))"

text \<open>
  The keys of \<open>shf_q_new\<close> with their data: four numbers by value, four areas by size. The sizes are
  passed as \<open>uint32_t\<close>; \<open>SHF_QID_MMAP\<close> has 12 bytes, \<open>SHF_QIID_MMAP\<close> 8 and \<open>SHF_Q_LOCK_MMAP\<close> 12.
\<close>

definition q_new_keys :: "nat \<Rightarrow> nat \<Rightarrow> nat \<Rightarrow> nat \<Rightarrow> (byte list \<times> (byte list option \<times> nat)) list" where
  "q_new_keys n_qs n_items item_size nolock_max =
     [(str_bytes ''__qs'', (Some (le32 n_qs), 4)),
      (str_bytes ''__q_items'', (Some (le32 n_items), 4)),
      (str_bytes ''__q_item_size'', (Some (le32 item_size), 4)),
      (str_bytes ''__qids_nolock_max'', (Some (le32 nolock_max), 4)),
      (str_bytes ''__qids'', (None, u32 (n_qs * 12))),
      (str_bytes ''__qiids'', (None, u32 (n_items * 8))),
      (str_bytes ''__q_lock'', (None, 12)),
      (str_bytes ''__q_items_addr'', (None, u32 (n_items * item_size)))]"

definition shf_q_new :: "nat \<Rightarrow> nat \<Rightarrow> nat \<Rightarrow> nat \<Rightarrow> shf \<times> q_proc \<times> q_ptrs \<Rightarrow> shf_error + shf \<times> q_proc \<times> q_ptrs" where
  "shf_q_new n_qs n_items item_size nolock_max = (\<lambda>(s, p, P).
     let p = p\<lparr>qs := n_qs, q_items := n_items, q_item_size := item_size, qids_nolock_max := nolock_max\<rparr> in
     bindE (assertE (q_is_ready p = 0) Queue_exists) (\<lambda>_.
     bindE (assertE (2 < n_qs) Bad_argument) (\<lambda>_.
     bindE (assertE (1 < n_items) Bad_argument) (\<lambda>_.
     bindE (assertE (0 < nolock_max) Bad_argument) (\<lambda>_.
     bindE (assertE (nolock_max < n_items) Bad_argument) (\<lambda>_.
     bindE (put_list put_at (q_new_keys n_qs n_items item_size nolock_max) s) (\<lambda>(uids, s).
     bindE (assertE (list_all (\<lambda>uid. uid \<noteq> SHF_UID_NONE) uids) Put_failed) (\<lambda>_.
     bindE (uid_addr (uids ! 4) s) (\<lambda>(qids_addr, s).
     bindE (uid_addr (uids ! 5) s) (\<lambda>(qiids_addr, s).
     bindE (uid_addr (uids ! 6) s) (\<lambda>(lock_addr, s).
     bindE (uid_addr (uids ! 7) s) (\<lambda>(items_addr, s).
     let P = \<lparr>q_item_addr = items_addr, qids_ptr = qids_addr, qiids_ptr = qiids_addr, q_lock_ptr = lock_addr\<rparr> in
     bindE (q_new_arrays (q_load P s, p)) (\<lambda>(m, p).
     Inr (q_save P p m s, p\<lparr>shf_qiid_addr := Some 0, shf_qiid_addr_len := u32 (q_item_size p * q_items p)\<rparr>, P))))))))))))))"

text \<open>
  \<open>shf_q_get\<close> reads the numbers as \<open>uint32_t\<close> from the buffer of the thread. A value of fewer than four
  bytes would leave older bytes of the buffer in the number; that is an error here.
\<close>

definition q_get_u32 :: "byte list \<Rightarrow> shf \<Rightarrow> shf_error + nat \<times> shf" where
  "q_get_u32 key s = bindE (get_at key s) (\<lambda>(v, s). case v of None \<Rightarrow> Inl Key_missing
     | Some v \<Rightarrow> bindE (assertE (4 \<le> length v) Out_of_bounds) (\<lambda>_. Inr (u32_of v, s)))"

definition shf_q_get :: "shf \<times> q_proc \<times> q_ptrs \<Rightarrow> shf_error + shf \<times> q_proc \<times> q_ptrs" where
  "shf_q_get = (\<lambda>(s, p, P).
     bindE (q_get_u32 (str_bytes ''__qs'') s) (\<lambda>(n_qs, s).
     bindE (q_get_u32 (str_bytes ''__q_items'') s) (\<lambda>(n_items, s).
     bindE (q_get_u32 (str_bytes ''__q_item_size'') s) (\<lambda>(item_size, s).
     bindE (q_get_u32 (str_bytes ''__qids_nolock_max'') s) (\<lambda>(nolock_max, s).
     bindE (key_addr (str_bytes ''__qids'') s) (\<lambda>(qids_addr, s).
     bindE (key_addr (str_bytes ''__qiids'') s) (\<lambda>(qiids_addr, s).
     bindE (key_addr (str_bytes ''__q_lock'') s) (\<lambda>(lock_addr, s).
     bindE (key_addr (str_bytes ''__q_items_addr'') s) (\<lambda>(items_addr, s).
     let p = p\<lparr>qs := n_qs, q_items := n_items, q_item_size := item_size, qids_nolock_max := nolock_max,
               shf_qiid_addr := Some 0, shf_qiid_addr_len := u32 (item_size * n_items)\<rparr>
     in Inr (s, q_get_arrays p,
          \<lparr>q_item_addr = items_addr, qids_ptr = qids_addr, qiids_ptr = qiids_addr, q_lock_ptr = lock_addr\<rparr>))))))))))"

text \<open>The assertion in \<open>shf_q_del\<close> is on the result of the deletion, which is never 0.\<close>

definition q_del_key :: "byte list \<Rightarrow> shf \<Rightarrow> shf_error + nat \<times> shf" where
  "q_del_key key s = bindE (del_at key s) (\<lambda>(res, s). bindE (assertE (res \<noteq> 0) Key_missing) (\<lambda>_. Inr (res, s)))"

definition q_del_keys :: "byte list list" where
  "q_del_keys = map str_bytes [''__qs'', ''__q_items'', ''__q_item_size'', ''__qids'', ''__qiids'', ''__q_lock'', ''__q_items_addr'']"

definition shf_q_del :: "shf \<times> q_proc \<times> q_ptrs \<Rightarrow> shf_error + shf \<times> q_proc \<times> q_ptrs" where
  "shf_q_del = (\<lambda>(s, p, P).
     bindE (assertE (q_is_ready p \<noteq> 0) Queue_not_ready) (\<lambda>_.
     bindE (del_list q_del_key q_del_keys s) (\<lambda>s. Inr (s, p\<lparr>q_is_ready := 0\<rparr>, P))))"

definition shf_q_is_ready :: "q_proc \<Rightarrow> nat" where
  "shf_q_is_ready p = q_is_ready p"

text \<open>Names for queues.\<close>

definition shf_q_new_name :: "byte list \<Rightarrow> shf \<times> q_proc \<times> q_ptrs \<Rightarrow> shf_error + nat \<times> shf \<times> q_proc \<times> q_ptrs" where
  "shf_q_new_name name = (\<lambda>(s, p, P).
     bindE (assertE (q_is_ready p \<noteq> 0) Queue_not_ready) (\<lambda>_.
     let qid = q_next p; p = p\<lparr>q_next := u32 (q_next p + 1)\<rparr> in
     bindE (assertE (q_next p \<le> qs p) Queue_overflow) (\<lambda>_.
     bindE (get_at name s) (\<lambda>(v, s).
     bindE (assertE (v = None) Queue_exists) (\<lambda>_.
     bindE (put_at name (Some (le32 qid), 4) s) (\<lambda>(uid, s).
     bindE (assertE (uid \<noteq> SHF_UID_NONE) Put_failed) (\<lambda>_. Inr (qid, s, p, P))))))))"

definition shf_q_get_name :: "byte list \<Rightarrow> shf \<times> q_proc \<times> q_ptrs \<Rightarrow> shf_error + nat \<times> shf \<times> q_proc \<times> q_ptrs" where
  "shf_q_get_name name = (\<lambda>(s, p, P).
     bindE (assertE (q_is_ready p \<noteq> 0) Queue_not_ready) (\<lambda>_.
     bindE (get_at name s) (\<lambda>(v, s). case v of None \<Rightarrow> Inl Key_missing | Some v \<Rightarrow>
       bindE (assertE (length v = 4) Bad_argument) (\<lambda>_.
       bindE (assertE (u32_of v < qs p) Bad_argument) (\<lambda>_. Inr (u32_of v, s, p, P))))))"

end
