(* ===== verification/Shf_QueueStore.thy ===== *)
theory Shf_QueueStore
  imports Shf_Ipc
begin

text \<open>
  The queues through the store: what \<open>shf_q_new\<close> puts under its keys, what \<open>shf_q_get\<close> finds in another
  process, the names of queues, and \<open>shf_q_del\<close>.
\<close>

section \<open>What shf_q_new stores and shf_q_get finds\<close>

lemma inj_str_bytes: "str_bytes x = str_bytes y \<longleftrightarrow> x = y"
proof -
  have "inj (of_char :: char \<Rightarrow> byte)"
  proof (rule injI)
    fix c d :: char assume e: "(of_char c :: byte) = of_char d"
    have "unat (of_char x :: byte) = of_char x" for x
      unfolding of_nat_of_char [symmetric, where 'a = byte] by (simp only: unat_of_nat) simp
    then have "(of_char c :: nat) = of_char d" using e by metis
    then show "c = d" by simp
  qed
  then show ?thesis by (simp add: str_bytes_def inj_map_eq_map)
qed

lemma q_get_u32_ok:
  assumes ok: "dict_ok n r s" and v: "dict s key = Some (le32 x)" and x: "x < 4294967296"
  shows "\<exists>s'. q_get_u32 key s = Inr (x, s') \<and> dict_ok n r s' \<and> dict s' = dict s \<and> maps_kept s s'"
proof -
  obtain s' where s': "get_at key s = Inr (Some (le32 x), s')" "dict_ok n r s'" "dict s' = dict s" "maps_kept s s'"
    using ks.get_val [OF ok, of key] v by auto
  moreover have "u32_of (le32 x) = x" using u32_of_le32 [OF x, of "[]"] by simp
  ultimately show ?thesis by (simp add: q_get_u32_def)
qed

text \<open>Every field of the arrays that \<open>q_new_arrays\<close> sets up is a \<open>uint32_t\<close>.\<close>

definition in_range :: "q_proc \<Rightarrow> q_shm \<Rightarrow> bool" where
  "in_range p m \<longleftrightarrow> (\<forall>j < qs p. qid_head (qids m j) < 4294967296 \<and> qid_tail (qids m j) < 4294967296 \<and> qid_size (qids m j) < 4294967296)
     \<and> (\<forall>j < q_items p. qiid_last (qiids m j) < 4294967296 \<and> qiid_next (qiids m j) < 4294967296)"

lemma new_arrays_range:
  assumes p: "q_params p"
  obtains m' where "q_new_arrays (m, p) = Inr (m', q_get_arrays p)" "in_range p m'"
proof -
  let ?n = "qs p" and ?N = "q_items p" and ?sz = "q_item_size p"
  have P: "9 \<le> ?sz" "?N * ?sz < 4294967296" "1 < ?N" using p by (auto simp: q_params_def)
  let ?m1 = "m\<lparr>qids := (\<lambda>i. if i < ?n then empty_qid else qids m i)\<rparr>" and ?p1 = "fold q_get_qid [0..<?n] p"
  have fits: "x * ?sz + 9 < 4294967296" if "x < ?N" for x
  proof -
    have "(x + 1) * ?sz \<le> ?N * ?sz" using that by (intro mult_le_mono1) simp
    then show ?thesis using P by simp
  qed
  have NN: "?N < 4294967296" using mult_le_mono2 [of 1 ?sz ?N] P by linarith
  obtain mem where mem: "q_new_qiids ?sz [0..<?N] ?m1 = Inr (?m1\<lparr>qiids := (\<lambda>x. if x < ?N then \<lparr>qiid_last = u32_sub x 1, qiid_next = u32 (x + 1)\<rparr>
        else qiids ?m1 x), q_item_mem := mem\<rparr>)"
    using new_qiids_ok [OF P(1), of "[0..<?N]" ?m1] fits by auto
  have pr: "q_items ?p1 = ?N" "q_item_size ?p1 = ?sz" "qs ?p1 = ?n" by (simp_all add: fold_get_qid)
  let ?q = "\<lambda>x. if x < ?N then \<lparr>qiid_last = u32_sub x 1, qiid_next = u32 (x + 1)\<rparr> else qiids ?m1 x"
  let ?q0 = "?q(0 := (?q 0)\<lparr>qiid_last := SHF_QID_NONE\<rparr>)"
  let ?q1 = "?q0(?N - 1 := (?q0 (?N - 1))\<lparr>qiid_next := SHF_QID_NONE\<rparr>)"
  let ?m' = "?m1\<lparr>qiids := ?q1, q_item_mem := mem, qids := (qids ?m1)(0 := \<lparr>qid_head = ?N - 1, qid_tail = 0, qid_size = ?N\<rparr>)\<rparr>"
  have "q_new_arrays (m, p) = Inr (?m', q_get_arrays p)"
    using mem by (simp add: q_new_arrays_def fold_new_qid pr Let_def atLeast0LessThan q_get_arrays_def del: bindE_Inr_iff)
  moreover have "in_range p ?m'" using NN P(3) by (auto simp: in_range_def empty_qid_def q_none)
  ultimately show ?thesis using that by blast
qed

text \<open>The dictionary holds the parameters of the queues and their arrays.\<close>

definition q_stored :: "shf \<Rightarrow> q_proc \<Rightarrow> q_shm \<Rightarrow> bool" where
  "q_stored s p m \<longleftrightarrow> q_params p \<and> in_range p m
     \<and> dict s (str_bytes ''__qs'') = Some (le32 (qs p)) \<and> dict s (str_bytes ''__q_items'') = Some (le32 (q_items p))
     \<and> dict s (str_bytes ''__q_item_size'') = Some (le32 (q_item_size p))
     \<and> dict s (str_bytes ''__qids_nolock_max'') = Some (le32 (qids_nolock_max p))
     \<and> dict s (str_bytes ''__qids'') = Some (array_bytes qid_bytes (qs p) (qids m))
     \<and> dict s (str_bytes ''__qiids'') = Some (array_bytes qiid_bytes (q_items p) (qiids m))
     \<and> dict s (str_bytes ''__q_lock'') \<noteq> None
     \<and> dict s (str_bytes ''__q_items_addr'') = Some (map (q_item_mem m) [0..<q_items p * q_item_size p])"

lemma length_q_bytes [simp]: "length (qid_bytes h) = 12" "length (qiid_bytes x) = 8"
  by (simp_all add: qid_bytes_def qiid_bytes_def)

lemma u32_of_nth:
  assumes "4 \<le> length bs" "\<And>j. j < 4 \<Longrightarrow> bs ! j = le32 n ! j" "n < 4294967296"
  shows "u32_of bs = n"
proof -
  have "u32_of bs = u32_of (le32 n)"
    unfolding u32_of_def [of bs] by (rule u32_of_mem) (use assms(1,2) in auto)
  then show ?thesis using u32_of_le32 [OF assms(3), of "[]"] by simp
qed

lemma mem_le32:
  assumes "\<And>j. j < 4 \<Longrightarrow> m (a + j) = le32 n ! j" "n < 4294967296"
  shows "SHF_U32_AT m a = n"
  using u32_of_mem [of "le32 n" m a] assms u32_of_le32 [OF assms(2), of "[]"] by simp

lemma qid_at_bytes:
  assumes "mem_bytes m a (12 * n) = array_bytes qid_bytes n f" "j < n"
    "qid_head (f j) < 4294967296" "qid_tail (f j) < 4294967296" "qid_size (f j) < 4294967296"
  shows "qid_at m (a + 12 * j) = f j"
proof -
  have e: "m (a + 12 * j + c) = qid_bytes (f j) ! c" if "c < 12" for c
    by (rule mem_array [OF assms(1) _ assms(2) that]) simp
  have "SHF_U32_AT m (a + 12 * j) = qid_head (f j)" "SHF_U32_AT m (a + 12 * j + 4) = qid_tail (f j)"
    "SHF_U32_AT m (a + 12 * j + 8) = qid_size (f j)"
    using e assms(3-5) by (auto intro!: mem_le32 simp: add.assoc qid_bytes_def nth_append)
  then show ?thesis by (simp add: qid_at_def)
qed

lemma qiid_at_bytes:
  assumes "mem_bytes m a (8 * n) = array_bytes qiid_bytes n f" "j < n"
    "qiid_last (f j) < 4294967296" "qiid_next (f j) < 4294967296"
  shows "qiid_at m (a + 8 * j) = f j"
proof -
  have e: "m (a + 8 * j + c) = qiid_bytes (f j) ! c" if "c < 8" for c
    by (rule mem_array [OF assms(1) _ assms(2) that]) simp
  have "SHF_U32_AT m (a + 8 * j) = qiid_last (f j)" "SHF_U32_AT m (a + 8 * j + 4) = qiid_next (f j)"
    using e assms(3,4) by (auto intro!: mem_le32 simp: add.assoc qiid_bytes_def nth_append)
  then show ?thesis by (simp add: qiid_at_def)
qed

text \<open>Through pointers to the stored arrays a process sees the arrays that were stored.\<close>

definition same_arrays :: "q_proc \<Rightarrow> q_shm \<Rightarrow> q_shm \<Rightarrow> bool" where
  "same_arrays p m m' \<longleftrightarrow> (\<forall>j < qs p. qids m' j = qids m j) \<and> (\<forall>j < q_items p. qiids m' j = qiids m j)
     \<and> (\<forall>a < q_items p * q_item_size p. q_item_mem m' a = q_item_mem m a)"

lemma load_same:
  assumes r: "in_range p m"
    and P: "points s (qids_ptr P) k1 (array_bytes qid_bytes (qs p) (qids m))"
      "points s (qiids_ptr P) k2 (array_bytes qiid_bytes (q_items p) (qiids m))"
      "points s (q_item_addr P) k3 (map (q_item_mem m) [0..<q_items p * q_item_size p])"
  shows "same_arrays p m (q_load P s)"
proof -
  obtain i1 a1 where p1: "qids_ptr P = Some (i1, a1)" using P(1) by (auto simp: points_def)
  obtain i2 a2 where p2: "qiids_ptr P = Some (i2, a2)" using P(2) by (auto simp: points_def)
  obtain i3 a3 where p3: "q_item_addr P = Some (i3, a3)" using P(3) by (auto simp: points_def)
  have m1: "mem_bytes (tab_data (inode s i1)) a1 (12 * qs p) = array_bytes qid_bytes (qs p) (qids m)"
    using points_mem [OF P(1) [unfolded p1]] by (simp add: length_array [of qid_bytes 12])
  have m2: "mem_bytes (tab_data (inode s i2)) a2 (8 * q_items p) = array_bytes qiid_bytes (q_items p) (qiids m)"
    using points_mem [OF P(2) [unfolded p2]] by (simp add: length_array [of qiid_bytes 8])
  have m3: "mem_bytes (tab_data (inode s i3)) a3 (q_items p * q_item_size p) = map (q_item_mem m) [0..<q_items p * q_item_size p]"
    using points_mem [OF P(3) [unfolded p3]] by simp
  have "qids (q_load P s) j = qids m j" if "j < qs p" for j
    using qid_at_bytes [OF m1 that] r that by (simp add: q_load_def p1 in_range_def)
  moreover have "qiids (q_load P s) j = qiids m j" if "j < q_items p" for j
    using qiid_at_bytes [OF m2 that] r that by (simp add: q_load_def p2 in_range_def)
  moreover have "q_item_mem (q_load P s) a = q_item_mem m a" if "a < q_items p * q_item_size p" for a
    using mem_bytes_nth [OF that, of "tab_data (inode s i3)" a3] that by (simp add: q_load_def p3 m3)
  ultimately show ?thesis by (simp add: same_arrays_def)
qed

lemma q_get_finds:
  assumes ok: "dict_ok n r s" and st: "q_stored s p0 m"
  shows "\<exists>s' p' P'. shf_q_get (s, p, P) = Inr (s', p', P') \<and> dict_ok n r s' \<and> q_stored s' p0 m \<and> maps_kept s s'
     \<and> qs p' = qs p0 \<and> q_items p' = q_items p0 \<and> q_item_size p' = q_item_size p0 \<and> qids_nolock_max p' = qids_nolock_max p0
     \<and> q_is_ready p' = 1 \<and> (\<forall>q < qs p0. qids_nolock_push p' q = empty_qid \<and> qids_nolock_pull p' q = empty_qid)
     \<and> same_arrays p0 m (q_load P' s')"
proof -
  have S: "q_params p0" "in_range p0 m" "dict s (str_bytes ''__qs'') = Some (le32 (qs p0))"
    "dict s (str_bytes ''__q_items'') = Some (le32 (q_items p0))"
    "dict s (str_bytes ''__q_item_size'') = Some (le32 (q_item_size p0))"
    "dict s (str_bytes ''__qids_nolock_max'') = Some (le32 (qids_nolock_max p0))"
    "dict s (str_bytes ''__qids'') = Some (array_bytes qid_bytes (qs p0) (qids m))"
    "dict s (str_bytes ''__qiids'') = Some (array_bytes qiid_bytes (q_items p0) (qiids m))"
    "dict s (str_bytes ''__q_items_addr'') = Some (map (q_item_mem m) [0..<q_items p0 * q_item_size p0])"
    using st by (simp_all add: q_stored_def)
  obtain lk where lk: "dict s (str_bytes ''__q_lock'') = Some lk" using st by (auto simp: q_stored_def)
  have "1 * q_item_size p0 \<le> q_items p0 * q_item_size p0" "q_items p0 * 1 \<le> q_items p0 * q_item_size p0"
    using S(1) unfolding q_params_def by (intro mult_le_mono1 mult_le_mono2, simp)+
  then have B: "qs p0 < 4294967296" "q_items p0 < 4294967296" "q_item_size p0 < 4294967296" "qids_nolock_max p0 < 4294967296"
    using S(1) unfolding q_params_def by linarith+
  obtain s1 where s1: "q_get_u32 (str_bytes ''__qs'') s = Inr (qs p0, s1)" "dict_ok n r s1" "dict s1 = dict s" "maps_kept s s1"
    using q_get_u32_ok [OF ok S(3) B(1)] by blast
  obtain s2 where s2: "q_get_u32 (str_bytes ''__q_items'') s1 = Inr (q_items p0, s2)" "dict_ok n r s2" "dict s2 = dict s" "maps_kept s1 s2"
    using q_get_u32_ok [OF s1(2) _ B(2)] S(4) s1(3) by metis
  obtain s3 where s3: "q_get_u32 (str_bytes ''__q_item_size'') s2 = Inr (q_item_size p0, s3)" "dict_ok n r s3" "dict s3 = dict s" "maps_kept s2 s3"
    using q_get_u32_ok [OF s2(2) _ B(3)] S(5) s2(3) by metis
  obtain s4 where s4: "q_get_u32 (str_bytes ''__qids_nolock_max'') s3 = Inr (qids_nolock_max p0, s4)" "dict_ok n r s4" "dict s4 = dict s" "maps_kept s3 s4"
    using q_get_u32_ok [OF s3(2) _ B(4)] S(6) s3(3) by metis
  note A = key_addr_ok
  obtain a5 s5 where s5: "key_addr (str_bytes ''__qids'') s4 = Inr (a5, s5)" "dict_ok n r s5" "dict s5 = dict s"
    "points s5 a5 (str_bytes ''__qids'') (array_bytes qid_bytes (qs p0) (qids m))" "maps_kept s4 s5"
    using A [OF s4(2)] S(7) s4(3) by metis
  obtain a6 s6 where s6: "key_addr (str_bytes ''__qiids'') s5 = Inr (a6, s6)" "dict_ok n r s6" "dict s6 = dict s"
    "points s6 a6 (str_bytes ''__qiids'') (array_bytes qiid_bytes (q_items p0) (qiids m))" "maps_kept s5 s6"
    "\<And>a k w. points s5 a k w \<Longrightarrow> points s6 a k w"
    using A [OF s5(2)] S(8) s5(3) by metis
  obtain a7 s7 where s7: "key_addr (str_bytes ''__q_lock'') s6 = Inr (a7, s7)" "dict_ok n r s7" "dict s7 = dict s" "maps_kept s6 s7"
    "\<And>a k w. points s6 a k w \<Longrightarrow> points s7 a k w"
    using A [OF s6(2)] lk s6(3) by metis
  obtain a8 s8 where s8: "key_addr (str_bytes ''__q_items_addr'') s7 = Inr (a8, s8)" "dict_ok n r s8" "dict s8 = dict s"
    "points s8 a8 (str_bytes ''__q_items_addr'') (map (q_item_mem m) [0..<q_items p0 * q_item_size p0])" "maps_kept s7 s8"
    "\<And>a k w. points s7 a k w \<Longrightarrow> points s8 a k w"
    using A [OF s7(2)] S(9) s7(3) by metis
  define P' where "P' = \<lparr>q_item_addr = a8, qids_ptr = a5, qiids_ptr = a6, q_lock_ptr = a7\<rparr>"
  define p1 where "p1 = p\<lparr>qs := qs p0, q_items := q_items p0, q_item_size := q_item_size p0, qids_nolock_max := qids_nolock_max p0,
     shf_qiid_addr := Some 0, shf_qiid_addr_len := u32 (q_item_size p0 * q_items p0)\<rparr>"
  have "shf_q_get (s, p, P) = Inr (s8, q_get_arrays p1, P')"
    unfolding shf_q_get_def prod.case s1(1) s2(1) s3(1) s4(1) s5(1) s6(1) s7(1) s8(1) bindE.simps Let_def P'_def p1_def ..
  moreover have "same_arrays p0 m (q_load P' s8)"
    using s8(6) [OF s7(5) [OF s6(6) [OF s5(4)]]] s8(6) [OF s7(5) [OF s6(4)]] s8(4)
    by (simp add: P'_def load_same [OF S(2)])
  moreover have "q_stored s8 p0 m" using st by (simp add: q_stored_def s8(3))
  moreover have "maps_kept s s8" using s1(4) s2(4) s3(4) s4(4) s5(5) s6(5) s7(4) s8(5) by (simp add: maps_kept_def)
  ultimately show ?thesis using s8(2) by (auto simp: q_get_arrays_def fold_get_qid p1_def)
qed

definition q_need :: "nat \<Rightarrow> nat \<Rightarrow> nat \<Rightarrow> nat" where
  "q_need n_qs n_items item_size = sum_list (map (\<lambda>x. cost (fst x) (snd x)) (q_new_keys n_qs n_items item_size 0))"

lemma q_need_eq: "sum_list (map (\<lambda>x. cost (fst x) (snd x)) (q_new_keys n_qs n_items item_size k)) = q_need n_qs n_items item_size"
  by (simp add: q_need_def q_new_keys_def cost_def)

lemma q_new_keys_fst:
  "map fst (q_new_keys a b c d) = map str_bytes [''__qs'', ''__q_items'', ''__q_item_size'', ''__qids_nolock_max'',
     ''__qids'', ''__qiids'', ''__q_lock'', ''__q_items_addr'']"
  by (simp add: q_new_keys_def)

lemma q_new_keys_distinct: "distinct (map fst (q_new_keys a b c d))"
  unfolding q_new_keys_fst by (simp add: inj_str_bytes)

lemma q_new_keys_given: "x \<in> set (q_new_keys a b c d) \<Longrightarrow> given (snd x)"
  by (auto simp: q_new_keys_def given_def)

lemma meets_None: "meets (None, k) v \<longleftrightarrow> v = replicate k 0"
  by (auto simp: meets_def)

lemma meets_le32: "meets (Some (le32 x), 4) v \<longleftrightarrow> v = le32 x"
  by (auto simp: meets_def)

text \<open>Writing the three arrays through their pointers.\<close>

lemma q_save_ok:
  assumes ok: "dict_ok n r s"
    and P: "points s (qids_ptr P) (str_bytes ''__qids'') v5" "points s (qiids_ptr P) (str_bytes ''__qiids'') v6"
      "points s (q_item_addr P) (str_bytes ''__q_items_addr'') v8"
    and L: "length v5 = 12 * qs p" "length v6 = 8 * q_items p" "length v8 = q_items p * q_item_size p"
  shows "dict_ok n r (q_save P p m s)" "maps_kept s (q_save P p m s)"
    "dict (q_save P p m s) = (dict s)(str_bytes ''__qids'' \<mapsto> array_bytes qid_bytes (qs p) (qids m),
       str_bytes ''__qiids'' \<mapsto> array_bytes qiid_bytes (q_items p) (qiids m),
       str_bytes ''__q_items_addr'' \<mapsto> map (q_item_mem m) [0..<q_items p * q_item_size p])"
    "points (q_save P p m s) (qids_ptr P) (str_bytes ''__qids'') (array_bytes qid_bytes (qs p) (qids m))"
    "points (q_save P p m s) (qiids_ptr P) (str_bytes ''__qiids'') (array_bytes qiid_bytes (q_items p) (qiids m))"
    "points (q_save P p m s) (q_item_addr P) (str_bytes ''__q_items_addr'') (map (q_item_mem m) [0..<q_items p * q_item_size p])"
proof -
  let ?b5 = "array_bytes qid_bytes (qs p) (qids m)" and ?b6 = "array_bytes qiid_bytes (q_items p) (qiids m)"
  let ?b8 = "map (q_item_mem m) [0..<q_items p * q_item_size p]"
  have l: "length ?b5 = length v5" "length ?b6 = length v6" "length ?b8 = length v8"
    using L by (simp_all add: length_array [of qid_bytes 12] length_array [of qiid_bytes 8])
  have k: "str_bytes ''__qiids'' \<noteq> str_bytes ''__qids''" "str_bytes ''__q_items_addr'' \<noteq> str_bytes ''__qids''"
    "str_bytes ''__q_items_addr'' \<noteq> str_bytes ''__qiids''" by (simp_all add: inj_str_bytes)
  define s1 where "s1 = write_at (qids_ptr P) ?b5 s"
  define s2 where "s2 = write_at (qiids_ptr P) ?b6 s1"
  define s3 where "s3 = write_at (q_item_addr P) ?b8 s2"
  note W1 = write_at_ok [OF ok P(1) l(1), folded s1_def]
  note W2 = write_at_ok [OF W1(1) W1(4) [OF k(1) P(2)] l(2), folded s2_def]
  note W3 = write_at_ok [OF W2(1) W2(4) [OF k(3) W1(4) [OF k(2) P(3)]] l(3), folded s3_def]
  have e: "q_save P p m s = s3" by (simp add: q_save_def s1_def s2_def s3_def)
  show "dict_ok n r (q_save P p m s)" unfolding e by (fact W3(1))
  show "maps_kept s (q_save P p m s)" unfolding e using W1(5) W2(5) W3(5) by (simp add: maps_kept_def)
  show "dict (q_save P p m s) = (dict s)(str_bytes ''__qids'' \<mapsto> ?b5, str_bytes ''__qiids'' \<mapsto> ?b6, str_bytes ''__q_items_addr'' \<mapsto> ?b8)"
    unfolding e W3(2) W2(2) W1(2) ..
  show "points (q_save P p m s) (qids_ptr P) (str_bytes ''__qids'') ?b5"
    unfolding e by (rule W3(4) [OF k(2) [symmetric] W2(4) [OF k(1) [symmetric] W1(3)]])
  show "points (q_save P p m s) (qiids_ptr P) (str_bytes ''__qiids'') ?b6"
    unfolding e by (rule W3(4) [OF k(3) [symmetric] W2(3)])
  show "points (q_save P p m s) (q_item_addr P) (str_bytes ''__q_items_addr'') ?b8" unfolding e by (fact W3(3))
qed

lemma uid_addr_val:
  assumes ok: "dict_ok n r s" and u: "refers s uid key" and v: "dict s key = Some v"
  obtains addr s' where "uid_addr uid s = Inr (addr, s')" "dict_ok n r s'" "dict s' = dict s" "points s' addr key v"
    "\<forall>a k w. points s a k w \<longrightarrow> points s' a k w" "\<forall>u k. refers s u k \<longrightarrow> refers s' u k" "maps_kept s s'"
proof -
  obtain addr s' v' where a: "uid_addr uid s = Inr (addr, s')" "dict_ok n r s'" "dict s' = dict s" "dict s key = Some v'"
    "points s' addr key v'" "\<forall>a k w. points s a k w \<longrightarrow> points s' a k w" "\<forall>u k. refers s u k \<longrightarrow> refers s' u k" "maps_kept s s'"
    using uid_addr_ok [OF ok u] by blast
  have "v' = v" using a(4) v by simp
  then show ?thesis using a that by blast
qed

lemma q_new_stores:
  assumes ok: "dict_ok (q_need n_qs n_items item_size + n) (8 + r) s"
    and new: "\<forall>k \<in> set (map fst (q_new_keys 0 0 0 0)). dict s k = None"
    and args: "q_is_ready p = 0" "2 < n_qs" "n_qs * 12 < 4294967296" "0 < nolock_max" "nolock_max < n_items" "9 \<le> item_size"
      "n_items * item_size < 4294967296"
  defines "p0 \<equiv> p\<lparr>qs := n_qs, q_items := n_items, q_item_size := item_size, qids_nolock_max := nolock_max\<rparr>"
  shows "\<exists>s' P' m. shf_q_new n_qs n_items item_size nolock_max (s, p, P) = Inr (s', (q_get_arrays p0)\<lparr>shf_qiid_addr := Some 0,
        shf_qiid_addr_len := n_items * item_size\<rparr>, P')
     \<and> (\<exists>m0. q_new_arrays (m0, p0) = Inr (m, q_get_arrays p0)) \<and> q_stored s' p0 m \<and> same_arrays p0 m (q_load P' s')
     \<and> dict_ok n r s' \<and> maps_kept s s' \<and> (\<forall>k. k \<notin> set (map fst (q_new_keys 0 0 0 0)) \<longrightarrow> dict s' k = dict s k)"
proof -
  let ?keys = "q_new_keys n_qs n_items item_size nolock_max"
  have kk: "set (map fst ?keys) = set (map fst (q_new_keys 0 0 0 0))" unfolding q_new_keys_fst ..
  have len: "length ?keys = 8" by (simp add: q_new_keys_def)
  have "n_items * 8 \<le> n_items * item_size" using args(6) by (intro mult_le_mono2) simp
  then have n8: "n_items * 8 < 4294967296" using args(7) by (rule le_less_trans)
  have qp: "q_params p0" using args by (simp add: q_params_def p0_def)
  have np: "\<forall>x \<in> set ?keys. dict s (fst x) = None \<and> given (snd x)"
  proof
    fix x assume x: "x \<in> set ?keys"
    then have "fst x \<in> set (map fst ?keys)" by simp
    then show "dict s (fst x) = None \<and> given (snd x)" using new q_new_keys_given [OF x] unfolding kk by blast
  qed
  obtain us s1 where p1: "put_list put_at ?keys s = Inr (us, s1)" "dict_ok n r s1" "maps_kept s s1"
    "\<forall>k. k \<notin> fst ` set ?keys \<longrightarrow> dict s1 k = dict s k"
    "list_all2 (\<lambda>x u. refers s1 u (fst x) \<and> (\<exists>v. dict s1 (fst x) = Some v \<and> meets (snd x) v)) ?keys us"
    using ks.put_list_ok [OF _ q_new_keys_distinct np, of n r] ok by (auto simp: q_need_eq len)
  obtain u0 u1 u2 u3 u4 u5 u6 u7 where us: "us = [u0, u1, u2, u3, u4, u5, u6, u7]"
    using p1(5) by (auto simp: q_new_keys_def list_all2_Cons1)
  have R: "refers s1 u4 (str_bytes ''__qids'')" "refers s1 u5 (str_bytes ''__qiids'')" "refers s1 u6 (str_bytes ''__q_lock'')"
    "refers s1 u7 (str_bytes ''__q_items_addr'')"
    and V: "dict s1 (str_bytes ''__qs'') = Some (le32 n_qs)" "dict s1 (str_bytes ''__q_items'') = Some (le32 n_items)"
    "dict s1 (str_bytes ''__q_item_size'') = Some (le32 item_size)" "dict s1 (str_bytes ''__qids_nolock_max'') = Some (le32 nolock_max)"
    "dict s1 (str_bytes ''__q_lock'') \<noteq> None"
    and A: "\<exists>v. dict s1 (str_bytes ''__qids'') = Some v \<and> length v = 12 * n_qs" "\<exists>v. dict s1 (str_bytes ''__qiids'') = Some v \<and> length v = 8 * n_items"
    "\<exists>v. dict s1 (str_bytes ''__q_items_addr'') = Some v \<and> length v = n_items * item_size"
    and U: "u0 \<noteq> SHF_UID_NONE" "u1 \<noteq> SHF_UID_NONE" "u2 \<noteq> SHF_UID_NONE" "u3 \<noteq> SHF_UID_NONE" "u4 \<noteq> SHF_UID_NONE"
    "u5 \<noteq> SHF_UID_NONE" "u6 \<noteq> SHF_UID_NONE" "u7 \<noteq> SHF_UID_NONE"
    using p1(5) args(3,7) n8 by (auto simp: us q_new_keys_def meets_le32 meets_None mult.commute refers_def)
  obtain v5 v6 v8 where v: "dict s1 (str_bytes ''__qids'') = Some v5" "length v5 = 12 * n_qs"
    "dict s1 (str_bytes ''__qiids'') = Some v6" "length v6 = 8 * n_items"
    "dict s1 (str_bytes ''__q_items_addr'') = Some v8" "length v8 = n_items * item_size" using A by blast
  obtain vl where vl: "dict s1 (str_bytes ''__q_lock'') = Some vl" using V(5) by blast
  obtain a4 s2 where s2: "uid_addr u4 s1 = Inr (a4, s2)" "dict_ok n r s2" "dict s2 = dict s1" "points s2 a4 (str_bytes ''__qids'') v5"
    "\<forall>a k w. points s1 a k w \<longrightarrow> points s2 a k w" "\<forall>u k. refers s1 u k \<longrightarrow> refers s2 u k" "maps_kept s1 s2"
    by (rule uid_addr_val [OF p1(2) R(1) v(1)], rule that)
  obtain a5 s3 where s3: "uid_addr u5 s2 = Inr (a5, s3)" "dict_ok n r s3" "dict s3 = dict s1" "points s3 a5 (str_bytes ''__qiids'') v6"
    "\<forall>a k w. points s2 a k w \<longrightarrow> points s3 a k w" "\<forall>u k. refers s2 u k \<longrightarrow> refers s3 u k" "maps_kept s2 s3"
    by (rule uid_addr_val [OF s2(2) s2(6) [rule_format, OF R(2)], unfolded s2(3), OF v(3)], rule that)
  obtain a6 s4 where s4: "uid_addr u6 s3 = Inr (a6, s4)" "dict_ok n r s4" "dict s4 = dict s1" "points s4 a6 (str_bytes ''__q_lock'') vl"
    "\<forall>a k w. points s3 a k w \<longrightarrow> points s4 a k w" "\<forall>u k. refers s3 u k \<longrightarrow> refers s4 u k" "maps_kept s3 s4"
    by (rule uid_addr_val [OF s3(2) s3(6) [rule_format, OF s2(6) [rule_format, OF R(3)]], unfolded s3(3), OF vl], rule that)
  obtain a7 s5 where s5: "uid_addr u7 s4 = Inr (a7, s5)" "dict_ok n r s5" "dict s5 = dict s1" "points s5 a7 (str_bytes ''__q_items_addr'') v8"
    "\<forall>a k w. points s4 a k w \<longrightarrow> points s5 a k w" "\<forall>u k. refers s4 u k \<longrightarrow> refers s5 u k" "maps_kept s4 s5"
    by (rule uid_addr_val [OF s4(2) s4(6) [rule_format, OF s3(6) [rule_format, OF s2(6) [rule_format, OF R(4)]]], unfolded s4(3), OF v(5)], rule that)
  define P' where "P' = \<lparr>q_item_addr = a7, qids_ptr = a4, qiids_ptr = a5, q_lock_ptr = a6\<rparr>"
  obtain m where m: "q_new_arrays (q_load P' s5, p0) = Inr (m, q_get_arrays p0)" "in_range p0 m"
    using new_arrays_range [OF qp] .
  have pp: "qs (q_get_arrays p0) = n_qs" "q_items (q_get_arrays p0) = n_items" "q_item_size (q_get_arrays p0) = item_size"
    by (simp_all add: q_get_arrays_def fold_get_qid p0_def)
  let ?s' = "q_save P' (q_get_arrays p0) m s5"
  have "points s5 (qids_ptr P') (str_bytes ''__qids'') v5" "points s5 (qiids_ptr P') (str_bytes ''__qiids'') v6"
    "points s5 (q_item_addr P') (str_bytes ''__q_items_addr'') v8"
    using s5(5) [rule_format, OF s4(5) [rule_format, OF s3(5) [rule_format, OF s2(4)]]] s5(5) [rule_format, OF s4(5) [rule_format, OF s3(4)]] s5(4) by (simp_all add: P'_def)
  note W = q_save_ok [where p = "q_get_arrays p0" and m = m, OF s5(2) this, unfolded pp, OF v(2,4,6)]
  have run: "shf_q_new n_qs n_items item_size nolock_max (s, p, P) = Inr (?s', (q_get_arrays p0)\<lparr>shf_qiid_addr := Some 0,
        shf_qiid_addr_len := n_items * item_size\<rparr>, P')"
  proof -
    have A: "assertE (q_is_ready p0 = 0) Queue_exists = Inr ()" "assertE (2 < n_qs) Bad_argument = Inr ()"
      "assertE (1 < n_items) Bad_argument = Inr ()" "assertE (0 < nolock_max) Bad_argument = Inr ()"
      "assertE (nolock_max < n_items) Bad_argument = Inr ()" "assertE (list_all (\<lambda>uid. uid \<noteq> SHF_UID_NONE) us) Put_failed = Inr ()"
      using args U by (simp_all add: p0_def us)
    have N: "us ! 4 = u4" "us ! 5 = u5" "us ! 6 = u6" "us ! 7 = u7" by (simp_all add: us)
    have Z: "u32 (item_size * n_items) = n_items * item_size" using args(7) by (simp add: mult.commute)
    show ?thesis
      unfolding shf_q_new_def Let_def prod.case p0_def [symmetric] A p1(1) bindE.simps N s2(1) s3(1) s4(1) s5(1)
        P'_def [symmetric] m(1) pp Z ..
  qed
  have "q_stored ?s' p0 m" unfolding q_stored_def W(3) s5(3)
    using qp m(2) V by (simp add: p0_def inj_str_bytes)
  moreover have "same_arrays p0 m (q_load P' ?s')"
    by (rule load_same [OF m(2)]) (use W(4-6) in \<open>auto simp: p0_def\<close>)
  moreover have "dict ?s' k = dict s k" if k: "k \<notin> set (map fst (q_new_keys 0 0 0 0))" for k
  proof -
    have "k \<noteq> str_bytes ''__qids''" "k \<noteq> str_bytes ''__qiids''" "k \<noteq> str_bytes ''__q_items_addr''"
      using k unfolding q_new_keys_fst by auto
    then show ?thesis using k p1(4) kk by (simp add: W(3) s5(3))
  qed
  moreover have "maps_kept s ?s'" using p1(3) s2(7) s3(7) s4(7) s5(7) W(2) by (simp add: maps_kept_def)
  ultimately show ?thesis using run W(1) m(1) by blast
qed

section \<open>Queues between processes\<close>

text \<open>A process that has the instance attached has the same dictionary.\<close>

lemma attached_dict:
  assumes ok: "dict_ok n r s" and a: "attached_to s t" and m: "coherent s (tabs t)" and f: "shf_data_needed_factor t = shf_data_needed_factor s"
    and ttl: "shf_ttl t = 0"
  shows "dict_ok n r t" "dict t = dict s"
proof -
  note D = dict_okD [OF ok] and P = attached_ok [OF a _ m]
  have P: "shf_ok t" "kv L t = kv L s" "lens_of t = lens_of s" for L using P [OF D(1)] by blast+
  have "table t = table s" using a by (simp add: attached_to_def table_def fun_eq_iff split: option.split)
  then have "shf_room n t = shf_room n s" using a by (simp add: shf_room_def room_def attached_to_def f)
  then show "dict_ok n r t" "dict t = dict s" using dict_ok_same [OF ok P(1) _ P(2,3) ttl] D(2) by simp_all
qed

lemma maps_keptD: "maps_kept s s' \<Longrightarrow> coherent s m \<Longrightarrow> coherent s' m"
  by (simp add: maps_kept_def)

text \<open>The same process table entry: what \<open>t\<close> may be when a process with its mappings joins.\<close>

definition joins :: "shf \<Rightarrow> shf \<Rightarrow> shf \<Rightarrow> bool" where
  "joins s s' t \<longleftrightarrow> attached_to s' t \<and> coherent s (tabs t) \<and> shf_data_needed_factor t = shf_data_needed_factor s' \<and> shf_ttl t = 0"

lemma joins_dict:
  assumes "joins s s' t" "dict_ok n r s'" "maps_kept s s'"
  shows "dict_ok n r t" "dict t = dict s'"
  using attached_dict [OF assms(2)] maps_keptD [OF assms(3)] assms(1) by (simp_all add: joins_def)

lemma same_arrays_trans: "same_arrays p m m1 \<Longrightarrow> same_arrays p m m2 \<Longrightarrow> same_arrays p m1 m2"
  by (simp add: same_arrays_def)

lemma q_stored_dict: "dict t = dict s \<Longrightarrow> q_stored t p m = q_stored s p m"
  by (simp add: q_stored_def)

text \<open>
  C23. What \<open>shf_q_new\<close> sets up in one process, \<open>shf_q_get\<close> finds in any other process that has the
  instance attached: the numbers of queues and items, the item size, the batch size, and, through the
  pointers of that process, the same queue headers, links and items, all bytes included. Both processes
  then hold all items in queue 0 as \<open>q_new_arrays\<close> lays them out.
\<close>

theorem q_new_then_get_in_other_process:
  assumes ok: "dict_ok (q_need n_qs n_items item_size + n) (8 + r) s"
    and new: "\<forall>k \<in> set (map fst (q_new_keys 0 0 0 0)). dict s k = None"
    and args: "q_is_ready p = 0" "2 < n_qs" "n_qs * 12 < 4294967296" "0 < nolock_max" "nolock_max < n_items" "9 \<le> item_size"
      "n_items * item_size < 4294967296"
    and run: "shf_q_new n_qs n_items item_size nolock_max (s, p, P) = Inr (s', p', P')"
    and other: "joins s s' t"
  shows "\<exists>t' p2 P2. shf_q_get (t, p1, P1) = Inr (t', p2, P2) \<and> q_is_ready p2 = 1 \<and> qs p2 = n_qs \<and> q_items p2 = n_items
     \<and> q_item_size p2 = item_size \<and> qids_nolock_max p2 = nolock_max \<and> same_arrays p' (q_load P' s') (q_load P2 t')"
proof -
  define p0 where "p0 = p\<lparr>qs := n_qs, q_items := n_items, q_item_size := item_size, qids_nolock_max := nolock_max\<rparr>"
  obtain m where a: "p' = (q_get_arrays p0)\<lparr>shf_qiid_addr := Some 0, shf_qiid_addr_len := n_items * item_size\<rparr>"
    "q_stored s' p0 m" "same_arrays p0 m (q_load P' s')" "dict_ok n r s'" "maps_kept s s'"
    using q_new_stores [OF ok new args, of P] run unfolding p0_def by auto
  note J = joins_dict [OF other a(4,5)]
  obtain t' p2 P2 where g: "shf_q_get (t, p1, P1) = Inr (t', p2, P2)" "q_is_ready p2 = 1" "qs p2 = qs p0" "q_items p2 = q_items p0"
    "q_item_size p2 = q_item_size p0" "qids_nolock_max p2 = qids_nolock_max p0" "same_arrays p0 m (q_load P2 t')"
    using q_get_finds [OF J(1), of p0 m p1 P1] a(2) by (auto simp: q_stored_dict [OF J(2)])
  have "same_arrays p0 (q_load P' s') (q_load P2 t')" using same_arrays_trans [OF a(3) g(7)] .
  then have "same_arrays p' (q_load P' s') (q_load P2 t')" by (simp add: same_arrays_def a(1) q_get_arrays_def fold_get_qid)
  then show ?thesis using g(1-6) by (auto simp: p0_def)
qed

text \<open>A fresh instance has an empty dictionary.\<close>

lemma fresh_dict: "2 ^ 32 \<le> v \<Longrightarrow> n < 2147000000 \<Longrightarrow> r \<le> 15 \<Longrightarrow> dict_ok n r (shf_attach v)" "dict (shf_attach v) = Map.empty"
proof -
  have e: "entry (shf_attach v) key ref = None" for key ref by (simp add: entry_def attach_kv)
  then show "dict (shf_attach v) = Map.empty" by (simp add: fun_eq_iff dict_None ref_of_None holds_key_def)
  assume "2 ^ 32 \<le> v" "n < 2147000000" "r \<le> 15"
  moreover have "unique_keys (shf_attach v)" by (simp add: unique_keys_def holds_key_def e)
  moreover have "row_refs (shf_attach v) w x = {}" for w x by (simp add: row_refs_def attach_kv)
  moreover have "\<not> is_fixed_key_val_len (shf_attach v)"
  proof
    assume "is_fixed_key_val_len (shf_attach v)"
    then have "len_len (lens_of (shf_attach v)) = 0" by (simp add: lens_of_def)
    then show False by simp
  qed
  ultimately show "dict_ok n r (shf_attach v)" using attach_ok by (simp add: dict_ok_def attach_room)
qed

definition no_q :: q_proc where
  "no_q = \<lparr>qs = 0, q_next = 0, q_items = 0, q_item_size = 0, qids_nolock_max = 0, qids_nolock_push = (\<lambda>_. empty_qid),
     qids_nolock_pull = (\<lambda>_. empty_qid), q_is_ready = 0, shf_qiid = 0, shf_qiid_addr = None, shf_qiid_addr_len = 0\<rparr>"

definition no_ptrs :: q_ptrs where
  "no_ptrs = \<lparr>q_item_addr = None, qids_ptr = None, qiids_ptr = None, q_lock_ptr = None\<rparr>"

abbreviation fresh :: shf where "fresh \<equiv> shf_attach (2 ^ 32)"

lemma demo_need: "q_need 3 10 16 + 1000 < 2147000000"
  by (simp add: q_need_def q_new_keys_def cost_def data_needed_def str_bytes_def)

lemma fresh_queues:
  "\<exists>s p P m. shf_q_new 3 10 16 1 (fresh, no_q, no_ptrs) = Inr (s, p, P) \<and> q_is_ready p = 1 \<and> qs p = 3 \<and> q_next p = 0
     \<and> dict_ok 1000 7 s \<and> maps_kept fresh s \<and> (\<forall>k. k \<notin> set (map fst (q_new_keys 0 0 0 0)) \<longrightarrow> dict s k = None)
     \<and> (\<exists>p0. q_stored s p0 m)"
proof -
  have ok: "dict_ok (q_need 3 10 16 + 1000) (8 + 7) fresh" by (rule fresh_dict(1)) (use demo_need in simp_all)
  have "\<forall>k \<in> set (map fst (q_new_keys 0 0 0 0)). dict fresh k = None" using fresh_dict(2) by simp
  from q_new_stores [OF ok this, of no_q 1 no_ptrs] show ?thesis
    by (fastforce simp: no_q_def q_get_arrays_def fold_get_qid fresh_dict(2))
qed

lemma joins_self: "shf_ok s \<Longrightarrow> shf_ttl s' = 0 \<Longrightarrow> joins s s' (s'\<lparr>tabs := tabs s\<rparr>)"
  by (simp add: joins_def attached_to_def lens_of_def shf_okD(4))

theorem q_new_then_get_in_other_process_witness:
  "\<exists>s' p' P' t' p2 P2. shf_q_new 3 10 16 1 (fresh, no_q, no_ptrs) = Inr (s', p', P')
     \<and> shf_q_get (s'\<lparr>tabs := tabs fresh\<rparr>, no_q, no_ptrs) = Inr (t', p2, P2) \<and> qs p2 = 3 \<and> q_items p2 = 10
     \<and> same_arrays p' (q_load P' s') (q_load P2 t')"
proof -
  have ok: "dict_ok (q_need 3 10 16 + 1000) (8 + 7) fresh" by (rule fresh_dict(1)) (use demo_need in simp_all)
  have new: "\<forall>k \<in> set (map fst (q_new_keys 0 0 0 0)). dict fresh k = None" using fresh_dict(2) by simp
  obtain s' p' P' where run: "shf_q_new 3 10 16 1 (fresh, no_q, no_ptrs) = Inr (s', p', P')" "dict_ok 1000 7 s'"
    using fresh_queues by blast
  have "joins fresh s' (s'\<lparr>tabs := tabs fresh\<rparr>)" using attach_ok dict_okD(4) [OF run(2)] by (rule joins_self)
  from q_new_then_get_in_other_process [OF ok new _ _ _ _ _ _ _ run(1) this, of no_q no_ptrs] show ?thesis
    using run(1) by (auto simp: no_q_def)
qed

text \<open>
  C24. A queue that one process names is found by its name in every other process: \<open>shf_q_new_name\<close> gives
  the next unused number and stores it, and \<open>shf_q_get_name\<close> in a process with the queues attached
  returns that number. The name must be new; \<open>shf_q_new_name\<close> changes no other key.
\<close>

theorem q_new_name_then_get_name:
  assumes ok: "dict_ok (cost name (None, 4) + n) (Suc r) s" and new: "dict s name = None"
    and p: "q_is_ready p \<noteq> 0" "q_next p < qs p" "qs p < 4294967296"
  shows "\<exists>s'. shf_q_new_name name (s, p, P) = Inr (q_next p, s', p\<lparr>q_next := q_next p + 1\<rparr>, P)
     \<and> dict_ok n r s' \<and> dict s' = (dict s)(name \<mapsto> le32 (q_next p))
     \<and> (\<forall>t p1 P1. joins s s' t \<and> q_is_ready p1 \<noteq> 0 \<and> qs p1 = qs p \<longrightarrow>
          (\<exists>t'. shf_q_get_name name (t, p1, P1) = Inr (q_next p, t', p1, P1)))"
proof -
  have q: "q_next p < 4294967296" "u32 (q_next p + 1) = q_next p + 1" using p by simp_all
  obtain s1 where s1: "get_at name s = Inr (None, s1)" "dict_ok (cost name (None, 4) + n) (Suc r) s1" "dict s1 = dict s" "maps_kept s s1"
    using get_at_ok [OF ok, of name] new by auto
  have c: "cost name (Some (le32 (q_next p)), 4) = cost name (None, 4)" by (simp add: cost_def)
  obtain v uid s2 where s2: "put_at name (Some (le32 (q_next p)), 4) s1 = Inr (uid, s2)" "dict_ok n r s2" "dict s2 = (dict s)(name \<mapsto> v)"
    "meets (Some (le32 (q_next p)), 4) v" "refers s2 uid name" "maps_kept s1 s2"
    using put_at_ok [of name "(Some (le32 (q_next p)), 4)" n r s1] s1(2,3) new by (auto simp: c given_def)
  have v: "v = le32 (q_next p)" using s2(4) by (simp add: meets_le32)
  have "shf_q_new_name name (s, p, P) = Inr (q_next p, s2, p\<lparr>q_next := q_next p + 1\<rparr>, P)"
    using p q s1(1) s2(1,5) by (simp add: shf_q_new_name_def refers_def Let_def del: bindE_Inr_iff)
  moreover have "\<exists>t'. shf_q_get_name name (t, p1, P1) = Inr (q_next p, t', p1, P1)"
    if "joins s s2 t \<and> q_is_ready p1 \<noteq> 0 \<and> qs p1 = qs p" for t p1 P1
  proof -
    have J: "joins s s2 t" using that by blast
    have "maps_kept s s2" using s1(4) s2(6) by (simp add: maps_kept_def)
    note D = joins_dict [OF J s2(2) this]
    obtain t' where "get_at name t = Inr (Some (le32 (q_next p)), t')"
      using get_at_ok [OF D(1), of name] by (auto simp: D(2) s2(3) v)
    moreover have "u32_of (le32 (q_next p)) = q_next p" using u32_of_le32 [OF q(1), of "[]"] by simp
    ultimately show ?thesis using that p by (simp add: shf_q_get_name_def del: bindE_Inr_iff)
  qed
  ultimately show ?thesis using s2(2,3) v by blast
qed

theorem q_new_name_then_get_name_witness:
  "\<exists>s p P s'. shf_q_new 3 10 16 1 (fresh, no_q, no_ptrs) = Inr (s, p, P)
     \<and> shf_q_new_name [113] (s, p, P) = Inr (0, s', p\<lparr>q_next := 1\<rparr>, P)
     \<and> (\<exists>t'. shf_q_get_name [113] (s'\<lparr>tabs := tabs s\<rparr>, p, P) = Inr (0, t', p, P))"
proof -
  obtain s p P where run: "shf_q_new 3 10 16 1 (fresh, no_q, no_ptrs) = Inr (s, p, P)" "q_is_ready p = 1" "qs p = 3" "q_next p = 0"
    "dict_ok 1000 7 s" "\<forall>k. k \<notin> set (map fst (q_new_keys 0 0 0 0)) \<longrightarrow> dict s k = None"
    using fresh_queues by blast
  have c: "cost [113] (None, 4) = 14" by (simp add: cost_def data_needed_def)
  have new: "dict s [113] = None" using run(6) unfolding q_new_keys_fst by (simp add: str_bytes_def)
  have ok: "dict_ok (cost [113] (None, 4) + 986) (Suc 6) s" using run(5) by (simp add: c)
  obtain s' where s': "shf_q_new_name [113] (s, p, P) = Inr (0, s', p\<lparr>q_next := 1\<rparr>, P)" "dict_ok 986 6 s'"
    "\<forall>t p1 P1. joins s s' t \<and> q_is_ready p1 \<noteq> 0 \<and> qs p1 = qs p \<longrightarrow> (\<exists>t'. shf_q_get_name [113] (t, p1, P1) = Inr (0, t', p1, P1))"
    using q_new_name_then_get_name [OF ok new, of p P] run(2-4) by auto
  have "joins s s' (s'\<lparr>tabs := tabs s\<rparr>)" using dict_okD(1) [OF run(5)] dict_okD(4) [OF s'(2)] by (rule joins_self)
  then have "\<exists>t'. shf_q_get_name [113] (s'\<lparr>tabs := tabs s\<rparr>, p, P) = Inr (0, t', p, P)" using s'(3) run(2) by simp
  then show ?thesis using run(1) s'(1) by blast
qed

text \<open>The deletion of one key of the queues keeps the contract of the store.\<close>

interpretation qd: key_store dict_ok dict cost given meets refers maps_kept put_at get_at q_del_key
proof
  fix n r s k
  assume ok: "dict_ok n r s"
  obtain res s' where "del_at k s = Inr (res, s')" "dict_ok n r s'" "dict s' = (dict s)(k := None)" "maps_kept s s'" "res \<noteq> 0"
    using del_at_ok [OF ok, of k] by (auto simp: SHF_RET_KEY_NONE_def SHF_RET_KEY_FOUND_def split: if_splits)
  then show "\<exists>x s'. q_del_key k s = Inr (x, s') \<and> dict_ok n r s' \<and> dict s' = (dict s)(k := None) \<and> maps_kept s s'"
    by (intro exI [of _ res] exI [of _ s']) (simp add: q_del_key_def)
qed (fact ks.put_new ks.get_val ks.kept_refl ks.kept_trans)+



end
