(* ===== verification/Shf_Race.thy ===== *)
theory Shf_Race
  imports Complex_Main Shf_QueueStore
begin

text \<open>
  Races: processes that wait for each other on a starting line, one byte of the store under the name of
  the race. Every horse adds one to the line and waits until the line says that all are there.
\<close>

section \<open>The atomic increment\<close>

text \<open>\<open>__sync_fetch_and_add_8\<close> through an address: eight bytes, although the line is one.\<close>

definition sync_fetch_and_add_8 :: "(nat \<times> nat) option \<Rightarrow> 64 word \<Rightarrow> shf \<Rightarrow> shf" where
  "sync_fetch_and_add_8 addr x s = (case addr of None \<Rightarrow> s
     | Some (i, a) \<Rightarrow> upd_inode i (\<lambda>t. t\<lparr>tab_data := put_long a (long_at (tab_data t) a + x) (tab_data t)\<rparr>) s)"

definition race_line :: "(nat \<times> nat) option \<Rightarrow> shf \<Rightarrow> nat" where
  "race_line addr s = (case addr of None \<Rightarrow> 0 | Some (i, a) \<Rightarrow> unat (SHF_U08_AT (tab_data (inode s i)) a))"

lemma put_U32_same: "put_U32_AT a (SHF_U32_AT m a) m = m"
proof -
  have w: "of_nat (unat b + 256 * k) = b" for b :: byte and k
  proof (rule word_unat_eq_iff [THEN iffD2])
    have "unat b < 256" using unsigned_less [of b] by simp
    then show "unat (of_nat (unat b + 256 * k) :: byte) = unat b" unfolding unat_of_nat by simp
  qed
  have u: "unat b < 256" for b :: byte using unsigned_less [of b] by simp
  have d: "(unat b + 256 * k) div 256 = k" for b :: byte and k using u [of b] by simp
  let ?k3 = "unat (m (a + 3))" let ?k2 = "unat (m (a + 2)) + 256 * ?k3" let ?k1 = "unat (m (a + 1)) + 256 * ?k2"
  have 0: "SHF_U32_AT m a = unat (m a) + 256 * ?k1" by (simp add: SHF_U32_AT_def)
  have e: "x div 65536 = x div 256 div 256" "x div 16777216 = x div 256 div 256 div 256" for x :: nat
    by (simp_all add: div_mult2_eq [symmetric])
  have "SHF_U32_AT m a div 256 = ?k1" "SHF_U32_AT m a div 65536 = ?k2" "SHF_U32_AT m a div 16777216 = ?k3"
    unfolding e 0 d by (rule refl)+
  with 0 show ?thesis unfolding put_U32_AT_def
    by (simp only: w of_nat_unat) (simp add: w fun_upd_idem)
qed

lemma long_at_unat: "unat (long_at m a) = SHF_U32_AT m a + 4294967296 * SHF_U32_AT m (a + 4)"
proof -
  have "SHF_U32_AT m a < 4294967296" "SHF_U32_AT m (a + 4) < 4294967296" by simp_all
  then show ?thesis unfolding long_at_def unat_of_nat by (simp del: SHF_U32_AT_bound)
qed

text \<open>While the line is below 255 the add changes its byte only.\<close>

lemma add_one_byte:
  assumes "unat (m a) < 255"
  shows "put_long a (long_at m a + 1) m = m(a := m a + 1)"
proof -
  let ?l = "SHF_U32_AT m a" and ?h = "SHF_U32_AT m (a + 4)"
  obtain k where k: "?l = unat (m a) + 256 * k" by (metis SHF_U32_AT_def)
  have l: "?l + 1 < 4294967296"
  proof -
    have "?l < 4294967296" by simp
    then have "k < 16777216" using k by simp
    then show ?thesis using assms k by simp
  qed
  have "?h < 4294967296" by simp
  then have u: "unat (long_at m a + 1) = (?l + 1) + 4294967296 * ?h"
    using l by (simp add: long_at_unat unat_word_ariths del: SHF_U32_AT_bound)
  have "put_long a (long_at m a + 1) m = put_U32_AT (a + 4) ?h (put_U32_AT a (?l + 1) m)"
  proof -
    have "unat (long_at m a + 1) div 4294967296 = ?h" "unat (long_at m a + 1) mod 4294967296 = ?l + 1"
      using l unfolding u by (simp_all only: div_mult_self2 mod_mult_self2 div_less mod_less)
    then show ?thesis by (simp add: put_long_def)
  qed
  also have "put_U32_AT a (?l + 1) m = (put_U32_AT a ?l m)(a := of_nat (?l + 1))"
  proof -
    have "(unat (m a) + 256 * k + 1) div 256 = k" "(unat (m a) + 256 * k) div 256 = k" using assms by simp_all
    then have "(?l + 1) div 256 = ?l div 256" by (simp only: k)
    moreover from this have "(?l + 1) div 65536 = ?l div 65536" "(?l + 1) div 16777216 = ?l div 16777216"
      using div_mult2_eq [of "?l + 1" 256 256] div_mult2_eq [of ?l 256 256] div_mult2_eq [of "?l + 1" 256 65536] div_mult2_eq [of ?l 256 65536]
      by simp_all
    ultimately show ?thesis by (simp add: put_U32_AT_def fun_upd_twist)
  qed
  also have "\<dots> = m(a := m a + 1)"
  proof -
    have "of_nat ?l = (put_U32_AT a ?l m) a" by (simp add: put_U32_AT_def)
    then have "of_nat ?l = m a" by (simp only: put_U32_same)
    then show ?thesis by (simp add: put_U32_same add.commute)
  qed
  also have "put_U32_AT (a + 4) ?h (m(a := m a + 1)) = m(a := m a + 1)"
  proof -
    have "?h = SHF_U32_AT (m(a := m a + 1)) (a + 4)" by (rule U32_cong) simp
    then show ?thesis by (metis put_U32_same)
  qed
  finally show ?thesis .
qed

section \<open>The race\<close>

definition shf_race_init :: "byte list \<Rightarrow> shf \<Rightarrow> shf_error + shf" where
  "shf_race_init name s = bindE (put_at name (None, 1) s) (\<lambda>(uid, s).
     bindE (assertE (uid \<noteq> SHF_UID_NONE) Put_failed) (\<lambda>_. Inr s))"

text \<open>\<open>shf_race_start\<close> up to its loop, and the loop on what it sees: the line, then the clock.\<close>

definition race_enter :: "byte list \<Rightarrow> shf \<Rightarrow> shf_error + (nat \<times> nat) option \<times> shf" where
  "race_enter name s = bindE (key_addr name s) (\<lambda>(line, s). Inr (line, sync_fetch_and_add_8 line 1 s))"

fun race_wait :: "nat \<Rightarrow> real \<Rightarrow> (nat \<times> real) list \<Rightarrow> shf_error + bool" where
  "race_wait horses start_time [] = Inr False"
| "race_wait horses start_time ((line, now) # views) =
     (if horses = line then Inr True
      else bindE (assertE (\<not> 6 < now - start_time) Race_timeout) (\<lambda>_. race_wait horses start_time views))"

text \<open>
  A horse has not come yet, waits with its pointer to the line, has started, or has given up. A step
  of the race is one horse entering, with the mappings its process happens to have, or one look at the
  line; when horses give up is left open.
\<close>

datatype horse = Coming | Waiting "(nat \<times> nat) option" | Started | Out

inductive race_step :: "byte list \<Rightarrow> nat \<Rightarrow> shf \<times> (nat \<Rightarrow> horse) \<Rightarrow> shf \<times> (nat \<Rightarrow> horse) \<Rightarrow> bool"
  for name :: "byte list" and horses :: nat where
  enter: "i < horses \<Longrightarrow> ph i = Coming \<Longrightarrow> joins s s t \<Longrightarrow> race_enter name t = Inr (line, t') \<Longrightarrow>
    race_step name horses (s, ph) (t', ph(i := Waiting line))"
| go: "ph i = Waiting line \<Longrightarrow> race_line line s = horses \<Longrightarrow> race_step name horses (s, ph) (s, ph(i := Started))"
| give_up: "ph i = Waiting line \<Longrightarrow> race_line line s \<noteq> horses \<Longrightarrow> race_step name horses (s, ph) (s, ph(i := Out))"

inductive_cases race_stepE: "race_step name horses (s, ph) (s', ph')"

definition entered :: "nat \<Rightarrow> (nat \<Rightarrow> horse) \<Rightarrow> nat" where
  "entered horses ph = card {i. i < horses \<and> ph i \<noteq> Coming}"

text \<open>All addresses of a key agree.\<close>

lemma points_unique:
  assumes "points s a key v" "points s b key w" "unique_keys s"
  shows "a = b \<and> v = w"
proof -
  have e: "v = w" using points_entry [OF assms(1,3)] points_entry [OF assms(2,3)] by simp
  obtain i x ref where a: "a = Some (i, x)" "ref < 16" "placed (hash_win (key_hash key)) (hash_tab2 (key_hash key)) i (hash_row (key_hash key)) ref (hash_rnd (key_hash key)) key v x s"
    using assms(1) by (auto simp: points_def)
  obtain j y ref' where b: "b = Some (j, y)" "ref' < 16" "placed (hash_win (key_hash key)) (hash_tab2 (key_hash key)) j (hash_row (key_hash key)) ref' (hash_rnd (key_hash key)) key w y s"
    using assms(2) by (auto simp: points_def)
  have "holds_key s key ref" "holds_key s key ref'"
    using placed_kv [OF a(3)] placed_kv [OF b(3)] by (simp_all add: holds_key_def entry_def place_def)
  then have "ref = ref'" using unique_keysD [OF assms(3) a(2) b(2)] by blast
  then show ?thesis using a b e by (auto simp: placed_def)
qed

lemma race_line_points: "points s addr name [b] \<Longrightarrow> race_line addr s = unat b"
proof -
  assume p: "points s addr name [b]"
  then obtain i a where a: "addr = Some (i, a)" by (auto simp: points_def)
  have "mem_bytes (tab_data (inode s i)) a 1 = [b]" using points_mem [OF p [unfolded a]] by simp
  then show ?thesis by (simp add: race_line_def a mem_bytes_def SHF_U08_AT_def)
qed

lemma add_line:
  assumes "points s addr name [b]" "unat b < 255"
  shows "sync_fetch_and_add_8 addr 1 s = write_at addr [b + 1] s"
proof -
  obtain i a where a: "addr = Some (i, a)" using assms(1) by (auto simp: points_def)
  have "mem_bytes (tab_data (inode s i)) a 1 = [b]" using points_mem [OF assms(1) [unfolded a]] by simp
  then have b: "tab_data (inode s i) a = b" by (simp add: mem_bytes_def)
  have "put_long a (long_at (tab_data (inode s i)) a + 1) (tab_data (inode s i)) = SHF_MEM_AT a [b + 1] (tab_data (inode s i))"
    using add_one_byte [of "tab_data (inode s i)" a] assms(2) by (auto simp: b SHF_MEM_AT_def fun_eq_iff)
  then show ?thesis by (simp add: sync_fetch_and_add_8_def write_at_def a upd_inode_def)
qed

text \<open>A horse enters: the line goes up by one, for every horse that already looks at it.\<close>

lemma race_enter_ok:
  assumes ok: "dict_ok n r s" and d: "dict s name = Some [b]" and b: "unat b < 255" and t: "joins s s t"
  shows "\<exists>line t'. race_enter name t = Inr (line, t') \<and> dict_ok n r t' \<and> dict t' = (dict s)(name \<mapsto> [b + 1]) \<and> points t' line name [b + 1]
     \<and> (\<forall>a. points t a name [b] \<longrightarrow> points t' a name [b + 1])"
proof -
  note T = joins_dict [OF t ok]
  have T: "dict_ok n r t" "dict t = dict s" using T by (simp_all add: maps_kept_def)
  obtain line t1 where t1: "key_addr name t = Inr (line, t1)" "dict_ok n r t1" "dict t1 = dict s" "points t1 line name [b]"
    "\<forall>a k w. points t a k w \<longrightarrow> points t1 a k w"
    using key_addr_ok [OF T(1), of name "[b]"] d by (auto simp: T(2))
  note W = write_at_ok [OF t1(2,4), of "[b + 1]"]
  have e: "race_enter name t = Inr (line, write_at line [b + 1] t1)"
    using t1(1) add_line [OF t1(4) b] by (simp add: race_enter_def del: bindE_Inr_iff)
  have "points (write_at line [b + 1] t1) a name [b + 1]" if "points t a name [b]" for a
    using points_unique [OF t1(5) [rule_format, OF that] t1(4) dict_okD(5) [OF t1(2)]] W(3) by simp
  then show ?thesis using e W(1-3) t1(3) by auto
qed

lemma points_joins: "points s a name v \<Longrightarrow> joins s s t \<Longrightarrow> shf_ok s \<Longrightarrow> points t a name v"
proof -
  assume p: "points s a name v" and j: "joins s s t" and ok: "shf_ok s"
  have a: "attached_to s t" "coherent s (tabs t)" using j by (simp_all add: joins_def)
  have "shf_ok t" "lens_of t = lens_of s" using attached_ok [OF a(1) ok a(2)] by simp_all
  then have "placed w x i row ref rnd k u b t" if "placed w x i row ref rnd k u b s" for w x i row ref rnd k u b
    using that a(1) by (simp add: placed_def attached_to_def)
  then show "points t a name v" using p unfolding points_def by blast
qed

definition race_inv :: "byte list \<Rightarrow> nat \<Rightarrow> nat \<Rightarrow> nat \<Rightarrow> shf \<times> (nat \<Rightarrow> horse) \<Rightarrow> bool" where
  "race_inv name horses n r = (\<lambda>(s, ph). dict_ok n r s \<and> dict s name = Some [of_nat (entered horses ph)]
     \<and> (\<forall>i line. ph i = Waiting line \<longrightarrow> points s line name [of_nat (entered horses ph)])
     \<and> (\<forall>i. ph i = Started \<longrightarrow> entered horses ph = horses))"

lemma entered_le: "entered horses ph \<le> horses"
proof -
  have "entered horses ph \<le> card {..<horses}" unfolding entered_def by (rule card_mono) auto
  then show ?thesis by simp
qed

lemma entered_all: "entered horses ph = horses \<longleftrightarrow> (\<forall>i < horses. ph i \<noteq> Coming)"
proof
  assume e: "entered horses ph = horses"
  have "{i. i < horses \<and> ph i \<noteq> Coming} = {..<horses}"
    by (rule card_subset_eq) (use e in \<open>auto simp: entered_def\<close>)
  then show "\<forall>i < horses. ph i \<noteq> Coming" by blast
next
  assume "\<forall>i < horses. ph i \<noteq> Coming"
  then have "{i. i < horses \<and> ph i \<noteq> Coming} = {..<horses}" by auto
  then show "entered horses ph = horses" by (simp add: entered_def)
qed

lemma entered_come: "i < horses \<Longrightarrow> ph i = Coming \<Longrightarrow> x \<noteq> Coming \<Longrightarrow> entered horses (ph(i := x)) = Suc (entered horses ph)"
proof -
  assume a: "i < horses" "ph i = Coming" "x \<noteq> Coming"
  have "{j. j < horses \<and> (ph(i := x)) j \<noteq> Coming} = insert i {j. j < horses \<and> ph j \<noteq> Coming}" using a by auto
  then show ?thesis using a(2) by (simp add: entered_def)
qed

lemma entered_stay: "ph i \<noteq> Coming \<Longrightarrow> x \<noteq> Coming \<Longrightarrow> entered horses (ph(i := x)) = entered horses ph"
proof -
  assume "ph i \<noteq> Coming" "x \<noteq> Coming"
  then have "{j. j < horses \<and> (ph(i := x)) j \<noteq> Coming} = {j. j < horses \<and> ph j \<noteq> Coming}" by auto
  then show ?thesis by (simp add: entered_def)
qed

lemma entered_byte: "k < 256 \<Longrightarrow> unat (of_nat k :: byte) = k"
  by (simp add: unat_of_nat)

lemma race_inv_step:
  assumes "race_step name horses c c'" "race_inv name horses n r c" "horses \<le> 255"
  shows "race_inv name horses n r c'"
  using assms(1)
proof cases
  case (enter i ph s t line t')
  have I: "dict_ok n r s" "dict s name = Some [of_nat (entered horses ph)]"
    "\<And>j l. ph j = Waiting l \<Longrightarrow> points s l name [of_nat (entered horses ph)]" "\<And>j. ph j = Started \<Longrightarrow> entered horses ph = horses"
    using assms(2) by (auto simp: race_inv_def enter)
  have e: "entered horses ph < horses" using entered_le [of horses ph] entered_all [of horses ph] enter(3,4) by (metis nat_less_le)
  then have b: "unat (of_nat (entered horses ph) :: byte) < 255" using assms(3) by (simp add: entered_byte)
  obtain W: "dict_ok n r t'" "dict t' name = Some [of_nat (entered horses ph) + 1]" "points t' line name [of_nat (entered horses ph) + 1]"
    "\<forall>a. points t a name [of_nat (entered horses ph)] \<longrightarrow> points t' a name [of_nat (entered horses ph) + 1]"
    using race_enter_ok [OF I(1,2) b enter(5)] enter(6) by auto
  have p: "\<forall>j l. ph j = Waiting l \<longrightarrow> points t' l name [of_nat (entered horses ph) + 1]"
    using W(4) points_joins [OF I(3) enter(5) dict_okD(1) [OF I(1)]] by blast
  have q: "\<forall>j. ph j \<noteq> Started" using I(4) e by (metis less_irrefl)
  have "entered horses (ph(i := Waiting line)) = Suc (entered horses ph)" by (rule entered_come [of i horses ph, OF enter(3,4)]) simp
  moreover have "of_nat (Suc (entered horses ph)) = (of_nat (entered horses ph) + 1 :: byte)" by simp
  ultimately have "race_inv name horses n r (t', ph(i := Waiting line))"
    unfolding race_inv_def prod.case using W(1-3) p q by (simp only:) auto
  then show ?thesis by (simp add: enter(2))
next
  case (go ph i line s)
  have I: "dict_ok n r s" "dict s name = Some [of_nat (entered horses ph)]"
    "\<forall>j l. ph j = Waiting l \<longrightarrow> points s l name [of_nat (entered horses ph)]"
    using assms(2) by (auto simp: race_inv_def go)
  have "entered horses ph \<le> 255" using entered_le [of horses ph] assms(3) by simp
  then have "entered horses ph = horses" using race_line_points [OF I(3) [rule_format, OF go(3)]] go(4) by (simp add: entered_byte)
  moreover have "entered horses (ph(i := Started)) = entered horses ph" by (rule entered_stay) (simp_all add: go(3))
  ultimately have "race_inv name horses n r (s, ph(i := Started))"
    unfolding race_inv_def prod.case using I by (intro conjI allI impI) (simp_all split: if_splits)
  then show ?thesis by (simp add: go(2))
next
  case (give_up ph i line s)
  then show ?thesis using assms(2) entered_stay [of ph i Out horses] by (auto simp: race_inv_def split: if_splits)
qed

lemma race_inv_reach:
  assumes "(race_step name horses)\<^sup>*\<^sup>* c c'" "race_inv name horses n r c" "horses \<le> 255"
  shows "race_inv name horses n r c'"
  using assms(1) by (induction rule: rtranclp_induct) (use assms(2,3) race_inv_step in blast)+

text \<open>What holds at any time of a race whose line was set to zero.\<close>

lemma race_from_zero:
  assumes "dict_ok n r s0" "dict s0 name = Some [0]" "horses \<le> 255"
    and run: "(race_step name horses)\<^sup>*\<^sup>* (s0, \<lambda>_. Coming) (s, ph)"
  shows "((\<exists>i. ph i = Started) \<longrightarrow> (\<forall>i < horses. ph i \<noteq> Coming))
    \<and> (\<forall>i t. i < horses \<and> ph i = Coming \<and> joins s s t \<longrightarrow> (\<exists>line t'. race_enter name t = Inr (line, t')))
    \<and> ((\<forall>i < horses. ph i \<noteq> Coming) \<longrightarrow> (\<forall>i line start now views. ph i = Waiting line
           \<longrightarrow> race_wait horses start ((race_line line s, now) # views) = Inr True))"
proof -
  have "race_inv name horses n r (s0, \<lambda>_. Coming)" using assms(1,2) by (simp add: race_inv_def entered_def)
  from race_inv_reach [OF run this assms(3)] have I: "dict_ok n r s" "dict s name = Some [of_nat (entered horses ph)]"
    "\<And>j l. ph j = Waiting l \<Longrightarrow> points s l name [of_nat (entered horses ph)]" "\<And>j. ph j = Started \<Longrightarrow> entered horses ph = horses"
    by (auto simp: race_inv_def)
  have 1: "(\<exists>i. ph i = Started) \<longrightarrow> (\<forall>i < horses. ph i \<noteq> Coming)" using I(4) entered_all by blast
  have 2: "\<exists>line t'. race_enter name t = Inr (line, t')" if a: "i < horses \<and> ph i = Coming \<and> joins s s t" for i t
  proof -
    have "entered horses ph < horses" using entered_le [of horses ph] entered_all [of horses ph] a by (metis nat_less_le)
    then have "unat (of_nat (entered horses ph) :: byte) < 255" using assms(3) by (simp add: entered_byte)
    then show ?thesis using race_enter_ok [OF I(1,2)] a by blast
  qed
  have "race_line line s = horses" if "\<forall>i < horses. ph i \<noteq> Coming" "ph i = Waiting line" for i line
    using race_line_points [OF I(3) [OF that(2)]] that(1) assms(3) by (simp add: entered_byte entered_all [symmetric])
  then have "(\<forall>i < horses. ph i \<noteq> Coming) \<longrightarrow> (\<forall>i line start now views. ph i = Waiting line
      \<longrightarrow> race_wait horses start ((race_line line s, now) # views) = Inr True)" by simp
  moreover have "\<forall>i t. i < horses \<and> ph i = Coming \<and> joins s s t \<longrightarrow> (\<exists>line t'. race_enter name t = Inr (line, t'))" using 2 by blast
  ultimately show ?thesis using 1 by (intro conjI)
qed

lemma race_init_zero:
  assumes "dict_ok (cost name (None, 1) + n) (Suc r) s" "dict s name = None"
  shows "\<exists>s0. shf_race_init name s = Inr s0 \<and> dict_ok n r s0 \<and> dict s0 = (dict s)(name \<mapsto> [0])"
proof -
  obtain v uid s0 where "put_at name (None, 1) s = Inr (uid, s0)" "dict_ok n r s0" "dict s0 = (dict s)(name \<mapsto> v)" "meets (None, 1) v"
    "refers s0 uid name" using put_at_ok [OF assms] by (auto simp: given_def)
  then show ?thesis by (intro exI [of _ s0]) (simp add: shf_race_init_def assertE_def meets_None refers_def)
qed

text \<open>
  C18. A race with a new name, in an instance whose keys and values have lengths of their own, of up to 255
  horses is fair. \<open>shf_race_init\<close> stores the line as zero. From there no horse starts before every horse has
  entered; as long as one is missing it can enter, whatever the mappings of its process; and once all have
  entered each waiting horse starts the next time it looks at the line, with the mappings and pointers it has.
\<close>

theorem race_is_fair:
  assumes "dict_ok (cost name (None, 1) + n) (Suc r) s" "dict s name = None"
  shows "\<exists>s0. shf_race_init name s = Inr s0 \<and> dict s0 = (dict s)(name \<mapsto> [0])
    \<and> (\<forall>horses st ph. horses \<le> 255 \<and> (race_step name horses)\<^sup>*\<^sup>* (s0, \<lambda>_. Coming) (st, ph) \<longrightarrow>
      ((\<exists>i. ph i = Started) \<longrightarrow> (\<forall>i < horses. ph i \<noteq> Coming))
      \<and> (\<forall>i t. i < horses \<and> ph i = Coming \<and> joins st st t \<longrightarrow> (\<exists>line t'. race_enter name t = Inr (line, t')))
      \<and> ((\<forall>i < horses. ph i \<noteq> Coming) \<longrightarrow> (\<forall>i line start now views. ph i = Waiting line
           \<longrightarrow> race_wait horses start ((race_line line st, now) # views) = Inr True)))"
proof -
  obtain s0 where s0: "shf_race_init name s = Inr s0" "dict_ok n r s0" "dict s0 = (dict s)(name \<mapsto> [0])"
    using race_init_zero [OF assms] by blast
  then have "dict s0 name = Some [0]" by simp
  note R = race_from_zero [OF s0(2) this]
  show ?thesis using s0(1,3) R by (intro exI [of _ s0] conjI allI impI) blast+
qed

lemma joins_refl: "dict_ok n r s \<Longrightarrow> joins s s s"
  using dict_okD [of n r s] by (simp add: joins_def attached_to_def shf_okD(4))

text \<open>Two horses in a fresh instance.\<close>

theorem race_is_fair_witness:
  "\<exists>s0 s ph. shf_race_init [114] fresh = Inr s0 \<and> (race_step [114] 2)\<^sup>*\<^sup>* (s0, \<lambda>_. Coming) (s, ph) \<and> dict s0 [114] = Some [0]
     \<and> ph 1 = Started \<and> (\<forall>i < 2. ph i \<noteq> Coming)"
proof -
  have "cost [114] (None, 1) = 11" by (simp add: cost_def data_needed_def)
  then have f: "dict_ok (cost [114] (None, 1) + 100) (Suc 3) fresh" "dict fresh [114] = None"
    by (intro fresh_dict(1)) (simp_all add: fresh_dict(2))
  obtain s0 where s0: "shf_race_init [114] fresh = Inr s0" "dict_ok 100 3 s0" "dict s0 [114] = Some [0]"
    using race_init_zero [OF f] by auto
  obtain l1 s1 where s1: "race_enter [114] s0 = Inr (l1, s1)" "dict_ok 100 3 s1" "dict s1 [114] = Some [1]"
    using race_enter_ok [OF s0(2,3) _ joins_refl [OF s0(2)]] by auto
  obtain l2 s2 where s2: "race_enter [114] s1 = Inr (l2, s2)" "dict_ok 100 3 s2" "points s2 l2 [114] [2]"
    using race_enter_ok [OF s1(2,3) _ joins_refl [OF s1(2)]] by auto
  let ?p1 = "(\<lambda>_ :: nat. Coming)(0 := Waiting l1)" and ?p2 = "(\<lambda>_ :: nat. Coming)(0 := Waiting l1, 1 := Waiting l2)"
  have "race_step [114] 2 (s0, \<lambda>_. Coming) (s1, ?p1)" by (rule enter [OF _ _ joins_refl [OF s0(2)] s1(1)]) simp_all
  moreover have "race_step [114] 2 (s1, ?p1) (s2, ?p2)" by (rule enter [OF _ _ joins_refl [OF s1(2)] s2(1)]) simp_all
  moreover have "race_step [114] 2 (s2, ?p2) (s2, ?p2(1 := Started))"
    by (rule go [where line = l2]) (simp_all add: race_line_points [OF s2(3)])
  ultimately have run: "(race_step [114] 2)\<^sup>*\<^sup>* (s0, \<lambda>_. Coming) (s2, ?p2(1 := Started))"
    by (meson rtranclp.rtrancl_into_rtrancl rtranclp.rtrancl_refl)
  have started: "\<exists>i. (?p2(1 := Started)) i = Started" by (rule exI [of _ 1]) simp
  have R: "(\<exists>i. (?p2(1 := Started)) i = Started) \<longrightarrow> (\<forall>i < 2. (?p2(1 := Started)) i \<noteq> Coming)"
    using race_is_fair [OF f] run unfolding s0(1) by auto
  from mp [OF R started] run show ?thesis using s0(1,3)
    by (intro exI [of _ s0] exI [of _ s2] exI [of _ "?p2(1 := Started)"]) simp
qed

text \<open>The line is one byte: with 256 horses or more no horse ever starts.\<close>

theorem race_of_256_never_starts:
  assumes "256 \<le> horses" "(race_step name horses)\<^sup>*\<^sup>* (s0, \<lambda>_. Coming) (s, ph)"
  shows "ph i \<noteq> Started"
  using assms(2)
proof (induction s ph arbitrary: i rule: rtranclp_induct2)
  case (step s ph s' ph')
  have "race_line line s < 256" for line
    using unsigned_less [of "SHF_U08_AT m a" for m a] by (auto simp: race_line_def split: option.split prod.split)
  then have "race_line line s \<noteq> horses" for line using assms(1) by (metis not_le)
  then show ?case using step(2) step.IH by (auto elim!: race_stepE split: if_splits)
qed simp

end
