(* ===== verification/Shf_LogStore.thy ===== *)
theory Shf_LogStore
  imports Shf_Race
begin

text \<open>
  The log through the store: the thread that starts the log puts it under the key \<open>__log\<close>, every other
  process finds it there and both use it through a pointer into the mapped tab file.
\<close>

section \<open>Starting, joining and leaving the log\<close>

definition log_key :: "byte list" where
  "log_key = str_bytes ''__log''"

text \<open>
  What a process knows of the log: \<open>shf->log\<close>, whether it runs the log thread, whether the instance is
  \<open>shf_log_thread_instance\<close>, and the output function of its thread. The contents of the log are a
  value of their own, as in \<open>Shf_LogShm\<close>.
\<close>

record log_proc =
  lp_log :: "(nat \<times> nat) option"
  log_thread_active :: nat
  log_thread_instance :: bool
  lp_thread :: log_thread

definition shf_log_thread_new :: "nat \<Rightarrow> int \<Rightarrow> shf \<times> log_proc \<Rightarrow> shf_error + log_mmap \<times> shf \<times> log_proc" where
  "shf_log_thread_new sz fd = (\<lambda>(s, p).
     bindE (shf_get_key_val_addr (shf_make_hash (Some log_key) s)) (\<lambda>(result, s).
     bindE (assertE (result = SHF_RET_KEY_NONE) Log_exists) (\<lambda>_.
     bindE (assertE (shf_val_addr s = None) Log_exists) (\<lambda>_.
     bindE (shf_put_key_val None (u32 (sizeof_log_mmap + sz)) s) (\<lambda>(_, s).
     bindE (assertE (shf_uid s \<noteq> SHF_UID_NONE) Put_failed) (\<lambda>_.
     bindE (shf_get_uid_val_addr (shf_uid s) s) (\<lambda>(result, s).
     bindE (assertE (result = SHF_RET_KEY_FOUND) Key_missing) (\<lambda>_.
     bindE (assertE (shf_val_addr s \<noteq> None) Key_missing) (\<lambda>_.
     Inr (log_new sz fd, s, p\<lparr>lp_log := shf_val_addr s, log_thread_active := 1, log_thread_instance := True,
       lp_thread := shf_log_output_set Output_shf_log (lp_thread p)\<rparr>))))))))))"

definition shf_log_attach_existing :: "shf \<times> log_proc \<Rightarrow> shf_error + shf \<times> log_proc" where
  "shf_log_attach_existing = (\<lambda>(s, p).
     bindE (shf_get_key_val_addr (shf_make_hash (Some log_key) s)) (\<lambda>(result, s).
     bindE (assertE (result = SHF_RET_KEY_FOUND) Key_missing) (\<lambda>_.
     Inr (s, p\<lparr>lp_log := shf_val_addr s, log_thread_instance := True,
       lp_thread := shf_log_output_set Output_shf_log (lp_thread p)\<rparr>))))"

definition shf_log_detach_existing :: "log_proc \<Rightarrow> shf_error + log_proc" where
  "shf_log_detach_existing p = bindE (assertE (log_thread_instance p) Log_not_attached) (\<lambda>_.
     Inr (p\<lparr>log_thread_instance := False, lp_thread := shf_log_output_set Output_stdout (lp_thread p)\<rparr>))"

text \<open>
  \<open>shf_log_thread_del\<close> in two parts: it clears \<open>running\<close> of a log that runs, and, once the log thread of
  such a log has said that it has stopped, lets go of the log.
\<close>

definition log_del_signal :: "log_mmap \<times> log_proc \<Rightarrow> shf_error + bool \<times> log_mmap" where
  "log_del_signal = (\<lambda>(m, p). bindE (assertE (log_thread_instance p) Log_not_attached) (\<lambda>_.
     Inr (if lp_log p \<noteq> None \<and> log_running m \<noteq> 0 then (True, m\<lparr>log_running := 0\<rparr>) else (False, m))))"

definition log_del_wait :: "bool \<Rightarrow> log_mmap \<Rightarrow> log_proc \<Rightarrow> shf_error + log_proc option" where
  "log_del_wait waits m p = (if waits \<and> log_stopped m = 0 then Inr None else bindE (shf_log_detach_existing p) (\<lambda>p. Inr (Some p)))"

section \<open>Where the log is\<close>

lemma rehash: "the_hash s = key_hash key \<Longrightarrow> shf_hash_key s = key \<Longrightarrow> shf_make_hash (Some key) s = s"
  by (simp add: shf_make_hash_def key_hash_def split: prod.split)

lemma find_missing:
  assumes ok: "dict_ok n r s" and d: "dict s key = None"
  shows "\<exists>s'. shf_get_key_val_addr (shf_make_hash (Some key) s) = Inr (SHF_RET_KEY_NONE, s') \<and> dict_ok n r s' \<and> dict s' = dict s
     \<and> maps_kept s s' \<and> shf_val_addr s' = None \<and> shf_make_hash (Some key) s' = s'"
proof -
  obtain s' where s': "shf_get_key_val_addr (shf_make_hash (Some key) s) = Inr (SHF_RET_KEY_NONE, s')" "looked (shf_make_hash (Some key) s) s'"
    "shf_val_addr s' = None"
    using find_key [OF ok, where key = key and what = SHF_FIND_KEY_OR_UID_ADDR and upd = no_upd] d
    unfolding shf_get_key_val_addr_def by auto
  have "shf_make_hash (Some key) s' = s'"
    by (rule rehash) (use s'(2) in \<open>simp_all add: looked_def make_hash_key\<close>)
  then show ?thesis using s' looked_dict [OF ok s'(2)] by blast
qed

lemma put_none_ok:
  assumes ok: "dict_ok (cost key (None, vl) + n) (Suc r) s" and new: "dict s key = None" and h: "shf_make_hash (Some key) s = s"
  shows "\<exists>res s' v. shf_put_key_val None vl s = Inr (res, s') \<and> dict_ok n r s' \<and> dict s' = (dict s)(key \<mapsto> v) \<and> length v = vl
     \<and> refers s' (shf_uid s') key \<and> maps_kept s s'"
proof -
  obtain v uid s' where s': "put_at key (None, vl) s = Inr (uid, s')" "dict_ok n r s'" "dict s' = (dict s)(key \<mapsto> v)" "meets (None, vl) v"
    "refers s' uid key" "maps_kept s s'"
    using put_at_ok [OF ok new] by (auto simp: given_def)
  moreover from s'(1) obtain res where "shf_put_key_val None vl s = Inr (res, s')" "uid = shf_uid s'"
    by (auto simp: put_at_def h)
  ultimately show ?thesis by (auto simp: meets_None)
qed

lemma log_starts:
  assumes ok: "dict_ok (cost log_key (None, u32 (sizeof_log_mmap + sz)) + n) (Suc r) s" and new: "dict s log_key = None"
  shows "\<exists>s' p' v. shf_log_thread_new sz fd (s, p) = Inr (log_new sz fd, s', p') \<and> dict_ok n r s' \<and> dict s' = (dict s)(log_key \<mapsto> v)
     \<and> length v = u32 (sizeof_log_mmap + sz) \<and> points s' (lp_log p') log_key v \<and> maps_kept s s'
     \<and> log_thread_instance p' \<and> log_output_indirect (lp_thread p') = Output_shf_log"
proof -
  obtain s1 where s1: "shf_get_key_val_addr (shf_make_hash (Some log_key) s) = Inr (SHF_RET_KEY_NONE, s1)"
    "dict_ok (cost log_key (None, u32 (sizeof_log_mmap + sz)) + n) (Suc r) s1" "dict s1 = dict s" "maps_kept s s1"
    "shf_val_addr s1 = None" "shf_make_hash (Some log_key) s1 = s1"
    using find_missing [OF ok new] by blast
  obtain res s2 v where s2: "shf_put_key_val None (u32 (sizeof_log_mmap + sz)) s1 = Inr (res, s2)" "dict_ok n r s2"
    "dict s2 = (dict s)(log_key \<mapsto> v)" "length v = u32 (sizeof_log_mmap + sz)" "refers s2 (shf_uid s2) log_key" "maps_kept s1 s2"
    using put_none_ok [OF s1(2) _ s1(6)] new by (auto simp: s1(3))
  obtain addr s3 where s3: "shf_get_uid_val_addr (shf_uid s2) s2 = Inr (SHF_RET_KEY_FOUND, s3)" "dict_ok n r s3" "dict s3 = dict s2"
    "points s3 (shf_val_addr s3) log_key v" "maps_kept s2 s3"
    using uid_addr_ok [OF s2(2,5)] by (auto simp: s2(3))
  have "shf_val_addr s3 \<noteq> None" using s3(4) by (auto simp: points_def)
  moreover have "shf_uid s2 \<noteq> SHF_UID_NONE" using s2(5) by (simp add: refers_def)
  moreover have "maps_kept s s3" using s1(4) s2(6) s3(5) by (simp add: maps_kept_def)
  ultimately show ?thesis using s1(1,5) s2(1,3,4) s3
    by (simp add: shf_log_thread_new_def shf_log_output_set_def del: bindE_Inr_iff) blast
qed

lemma log_joins:
  assumes ok: "dict_ok n r s" and v: "dict s log_key = Some v"
  shows "\<exists>s' p'. shf_log_attach_existing (s, p) = Inr (s', p') \<and> dict_ok n r s' \<and> dict s' = dict s \<and> points s' (lp_log p') log_key v
     \<and> (\<forall>a k w. points s a k w \<longrightarrow> points s' a k w) \<and> log_thread_instance p' \<and> log_output_indirect (lp_thread p') = Output_shf_log"
proof -
  obtain addr s' where a: "key_addr log_key s = Inr (addr, s')" "dict_ok n r s'" "dict s' = dict s" "points s' addr log_key v"
    "\<forall>a k w. points s a k w \<longrightarrow> points s' a k w"
    using key_addr_ok [OF ok v] by blast
  from a(1) have "shf_get_key_val_addr (shf_make_hash (Some log_key) s) = Inr (SHF_RET_KEY_FOUND, s')" "shf_val_addr s' = addr"
    by (auto simp: key_addr_def)
  then show ?thesis using a by (simp add: shf_log_attach_existing_def shf_log_output_set_def del: bindE_Inr_iff)
qed

text \<open>
  C19. One process starts the log, and every other process that has the instance attached finds it at the
  same place of the same tab file. A second \<open>shf_log_thread_new\<close> stops. The value under \<open>__log\<close> ends where
  the last byte of the log buffer ends if the size of the log was given; with size 0 the buffer of
  \<open>SHF_LOG_DEFAULT_SIZE\<close> bytes starts at the end of the value, so all of it lies outside.
\<close>

theorem log_is_found:
  assumes ok: "dict_ok (cost log_key (None, u32 (sizeof_log_mmap + sz)) + n) (Suc r) s" and new: "dict s log_key = None"
    and sz: "sizeof_log_mmap + sz < 4294967296"
  shows "\<exists>s' p' v. shf_log_thread_new sz fd (s, p) = Inr (log_new sz fd, s', p') \<and> dict s' log_key = Some v
     \<and> points s' (lp_log p') log_key v
     \<and> (\<forall>t q. joins s s' t \<longrightarrow> (\<exists>t' q'. shf_log_attach_existing (t, q) = Inr (t', q') \<and> lp_log q' = lp_log p'))
     \<and> (\<forall>t q sz2 fd2. joins s s' t \<longrightarrow> shf_log_thread_new sz2 fd2 (t, q) = Inl Log_exists)
     \<and> sizeof_log_mmap + log_size (log_new sz fd) = (if sz = 0 then length v + SHF_LOG_DEFAULT_SIZE else length v)"
proof -
  obtain s' p' v where S: "shf_log_thread_new sz fd (s, p) = Inr (log_new sz fd, s', p')" "dict_ok n r s'" "dict s' log_key = Some v"
    "length v = u32 (sizeof_log_mmap + sz)" "points s' (lp_log p') log_key v" "maps_kept s s'"
    using log_starts [OF ok new, of fd p] by auto
  have "\<exists>t' q'. shf_log_attach_existing (t, q) = Inr (t', q') \<and> lp_log q' = lp_log p'" if j: "joins s s' t" for t q
  proof -
    note J = joins_dict [OF j S(2,6)]
    have "joins s' s' t" using j maps_keptD [OF S(6)] by (simp add: joins_def)
    then have pt: "points t (lp_log p') log_key v" by (rule points_joins [OF S(5) _ dict_okD(1) [OF S(2)]])
    obtain t' q' where t': "shf_log_attach_existing (t, q) = Inr (t', q')" "dict_ok n r t'" "points t' (lp_log q') log_key v"
      "points t' (lp_log p') log_key v"
      using log_joins [OF J(1), of v q] S(3) pt by (auto simp: J(2))
    then show ?thesis using points_unique [OF t'(3,4) dict_okD(5) [OF t'(2)]] by blast
  qed
  moreover have "shf_log_thread_new sz2 fd2 (t, q) = Inl Log_exists" if j: "joins s s' t" for t q sz2 fd2
  proof -
    note J = joins_dict [OF j S(2,6)]
    obtain addr t' where "key_addr log_key t = Inr (addr, t')"
      using key_addr_ok [OF J(1), of log_key v] S(3) by (auto simp: J(2))
    then have "shf_get_key_val_addr (shf_make_hash (Some log_key) t) = Inr (SHF_RET_KEY_FOUND, t')" by (auto simp: key_addr_def)
    then show ?thesis by (simp add: shf_log_thread_new_def SHF_RET_KEY_FOUND_def SHF_RET_KEY_NONE_def del: bindE_Inl_iff)
  qed
  moreover have "sizeof_log_mmap + log_size (log_new sz fd) = (if sz = 0 then length v + SHF_LOG_DEFAULT_SIZE else length v)"
    using sz S(4) by (simp add: log_new_def)
  ultimately show ?thesis using S(1,3,5) by blast
qed

theorem log_is_found_witness:
  "\<exists>s' p' t' q'. shf_log_thread_new 1000 1 (fresh, \<lparr>lp_log = None, log_thread_active = 0, log_thread_instance = False, lp_thread = fresh_thread\<rparr>)
        = Inr (log_new 1000 1, s', p')
     \<and> shf_log_attach_existing (s'\<lparr>tabs := tabs fresh\<rparr>, \<lparr>lp_log = None, log_thread_active = 0, log_thread_instance = False, lp_thread = fresh_thread\<rparr>)
        = Inr (t', q') \<and> lp_log q' = lp_log p'"
proof -
  let ?p = "\<lparr>lp_log = None, log_thread_active = 0, log_thread_instance = False, lp_thread = fresh_thread\<rparr>"
  have ok: "dict_ok (cost log_key (None, u32 (sizeof_log_mmap + 1000)) + 0) (Suc 0) fresh"
    by (rule fresh_dict(1)) (simp_all add: cost_def data_needed_def log_key_def str_bytes_def sizeof_log_mmap_def SHF_PID_MAX_def)
  obtain s' p' where S: "shf_log_thread_new 1000 1 (fresh, ?p) = Inr (log_new 1000 1, s', p')"
    "\<forall>t q. joins fresh s' t \<longrightarrow> (\<exists>t' q'. shf_log_attach_existing (t, q) = Inr (t', q') \<and> lp_log q' = lp_log p')"
    using log_is_found [OF ok _ _, of 1 ?p] by (auto simp: fresh_dict(2) sizeof_log_mmap_def SHF_PID_MAX_def)
  obtain s2 p2 where "shf_log_thread_new 1000 1 (fresh, ?p) = Inr (log_new 1000 1, s2, p2)" "dict_ok 0 0 s2"
    using log_starts [OF ok, of 1 ?p] by (auto simp: fresh_dict(2))
  then have "shf_ttl s' = 0" using S(1) dict_okD(4) by auto
  then have "joins fresh s' (s'\<lparr>tabs := tabs fresh\<rparr>)" by (rule joins_self [OF attach_ok])
  then show ?thesis using S by blast
qed

end
