(* ===== verification/Shf_Walk.thy ===== *)
theory Shf_Walk
  imports Shf_LogStore
begin

text \<open>
  Walking over all tables: \<open>shf_tab_copy_iterate\<close> copies one table into a buffer of the thread and moves
  the caller's window and table on. And the small functions that set and read the instance.
\<close>

section \<open>The copy of a table\<close>

text \<open>\<open>shf_tab\<close>, \<open>shf_tab_size\<close> and \<open>shf_tab_len\<close> of the thread.\<close>

record tab_buf =
  shf_tab :: tab_mmap
  shf_tab_size :: nat
  shf_tab_len :: nat

text \<open>The buffer grows page by page until the table fits; sizes of tables are whole pages below \<open>2 ^ 32\<close>.\<close>

function grow_tab_size :: "nat \<Rightarrow> nat \<Rightarrow> nat" where
  "grow_tab_size n new_tab_size = (if new_tab_size < n then grow_tab_size n (new_tab_size + SHF_SIZE_PAGE) else new_tab_size)"
  by pat_completeness auto
termination by (relation "measure (\<lambda>(n, m). n - m)") (auto simp: shf_const_eq)

declare grow_tab_size.simps [simp del]

lemma grow_tab_size_fits: "n \<le> grow_tab_size n m \<and> m \<le> grow_tab_size n m"
proof (induction n m rule: grow_tab_size.induct)
  case (1 n m)
  then show ?case using grow_tab_size.simps [of n m] by (cases "m < n") auto
qed

definition next_tab :: "nat \<Rightarrow> nat \<times> nat \<Rightarrow> nat \<times> nat" where
  "next_tab used = (\<lambda>(win, tab). if used \<le> tab + 1 then (if win + 1 < SHF_WINS_PER_SHF then win + 1 else 0, 0) else (win, tab + 1))"

definition shf_tab_copy_iterate :: "nat \<times> nat \<Rightarrow> shf \<times> tab_buf \<Rightarrow> shf_error + (nat \<times> nat) \<times> shf \<times> tab_buf" where
  "shf_tab_copy_iterate = (\<lambda>(win, tab) (s, b).
     let used = tabs_used (wins s win) in
     bindE (get_tab_mmap win tab s) (\<lambda>(i, s).
     let t = inode s i;
         b = (if shf_tab_size b < tab_size t then b\<lparr>shf_tab_size := grow_tab_size (tab_size t) (shf_tab_size b)\<rparr> else b)
     in Inr (next_tab used (win, tab), s, b\<lparr>shf_tab_len := tab_size t, shf_tab := t\<rparr>)))"

text \<open>A caller that walks on \<open>n\<close> times and looks at each copy.\<close>

primrec scan :: "nat \<Rightarrow> nat \<times> nat \<Rightarrow> shf \<times> tab_buf \<Rightarrow> shf_error + (nat \<times> tab_mmap) list \<times> (nat \<times> nat) \<times> shf \<times> tab_buf" where
  "scan 0 pos st = Inr ([], pos, st)"
| "scan (Suc n) pos st = bindE (shf_tab_copy_iterate pos st) (\<lambda>(pos', st).
     bindE (scan n pos' st) (\<lambda>(copies, pos'', st'). Inr ((fst pos, shf_tab (snd st)) # copies, pos'', st')))"

section \<open>A full walk sees every record\<close>

text \<open>The tables from a position to the end of the last window.\<close>

definition all_tabs :: "(nat \<Rightarrow> nat) \<Rightarrow> nat list \<Rightarrow> (nat \<times> nat) list" where
  "all_tabs used ws = concat (map (\<lambda>w. map (Pair w) [0..<used w]) ws)"

definition tabs_from :: "(nat \<Rightarrow> nat) \<Rightarrow> nat \<times> nat \<Rightarrow> (nat \<times> nat) list" where
  "tabs_from used = (\<lambda>(win, tab). map (Pair win) [tab..<used win] @ all_tabs used [win + 1..<256])"

lemma tabs_from_step:
  assumes b: "win < 256" "tab < used win" and pos: "\<And>w. w < 256 \<Longrightarrow> 0 < used w"
  shows "next_tab (used win) (win, tab) = (0, 0) \<and> tabs_from used (win, tab) = [(win, tab)]
     \<or> (\<exists>w t. next_tab (used win) (win, tab) = (w, t) \<and> w < 256 \<and> t < used w \<and> (0, 0) \<noteq> (w, t)
          \<and> tabs_from used (win, tab) = (win, tab) # tabs_from used (w, t))"
proof -
  have e: "tabs_from used (win, tab) = (win, tab) # map (Pair win) [tab + 1..<used win] @ all_tabs used [win + 1..<256]"
    using b(2) by (simp add: tabs_from_def upt_conv_Cons)
  consider (same) "tab + 1 < used win" | (next_win) "used win \<le> tab + 1" "win + 1 < 256" | (last) "used win \<le> tab + 1" "win + 1 = 256"
    using b(1) by linarith
  then show ?thesis
  proof cases
    case same
    then show ?thesis using b e by (auto simp: next_tab_def tabs_from_def)
  next
    case next_win
    then have "all_tabs used [win + 1..<256] = tabs_from used (win + 1, 0)"
      by (simp add: tabs_from_def all_tabs_def upt_conv_Cons)
    then show ?thesis using next_win pos [OF next_win(2)] e by (simp add: next_tab_def shf_const_eq)
  next
    case last
    then show ?thesis using e by (simp add: next_tab_def shf_const_eq all_tabs_def)
  qed
qed

lemma got_tab_slots:
  assumes ok: "shf_ok s" and g: "got_tab win tab i s s'" and f: "tab_file s win tab = Some i"
  shows "slot (lens_of s) (table s' w t) = slot (lens_of s) (table s w t)"
proof -
  have "table s' = (table s)(win := (table s win)(tab := init_of (inode s i)))"
    using set_table_table [OF got_tab_quiet(2) [OF ok g f] shf_okD(2) [OF ok]] .
  then show ?thesis using init_of_ok(3) [OF files_okD(3) [OF shf_okD(2) [OF ok] f]] by (simp add: table_Some [OF f])
qed

text \<open>The process has the file mapped that is there now.\<close>

definition current :: "shf \<Rightarrow> nat \<Rightarrow> nat \<Rightarrow> bool" where
  "current s w t \<longleftrightarrow> off_mmap (tabs s w t) \<noteq> 0 \<and> tab_file s w t = Some (off_mmap (tabs s w t))"

text \<open>Nothing a look at the tables could notice has changed, and what was current is.\<close>

definition same_look :: "shf \<Rightarrow> shf \<Rightarrow> bool" where
  "same_look s s' \<longleftrightarrow> same_routes s s' \<and> (\<forall>w t. tab_data_free (table s' w t) = tab_data_free (table s w t))
     \<and> (\<forall>w t. current s w t \<longrightarrow> current s' w t)"

lemma same_look_trans: "same_look s s' \<Longrightarrow> same_look s' s'' \<Longrightarrow> same_look s s''"
  using same_routes_trans by (auto simp: same_look_def)

lemma got_tab_look:
  assumes ok: "shf_ok s" and g: "got_tab win tab i s s'" and f: "tab_file s win tab = Some i"
  shows "same_look s s'" "current s' win tab"
proof -
  have t: "table s' = (table s)(win := (table s win)(tab := init_of (inode s i)))"
    using set_table_table [OF got_tab_quiet(2) [OF ok g f] shf_okD(2) [OF ok]] .
  have f0: "tab_data_free (init_of (inode s i)) = tab_data_free (inode s i)"
    using inode_ok_fresh [OF files_okD(3) [OF shf_okD(2) [OF ok] f]] by (auto simp: init_of_def init_tab_def zero_tab_def)
  show c: "current s' win tab" using g f files_okD(1) [OF shf_okD(2) [OF ok] f] by (simp add: current_def got_tab_def)
  have "current s' w t" if "current s w t" for w t
    using that g c by (cases "(w, t) = (win, tab)") (auto simp: current_def got_tab_def)
  then show "same_look s s'" using g t f0 by (auto simp: same_look_def got_tab_def table_Some [OF f])
qed

lemma iterate_ok:
  assumes ok: "shf_ok s" and b: "win < 256" "tab < tabs_used (wins s win)"
  shows "\<exists>s' buf'. shf_tab_copy_iterate (win, tab) (s, buf) = Inr (next_tab (tabs_used (wins s win)) (win, tab), s', buf')
     \<and> quiet s s' \<and> same_look s s' \<and> current s' win tab \<and> slot (lens_of s) (shf_tab buf') = slot (lens_of s) (table s win tab)
     \<and> (\<forall>w t. slot (lens_of s) (table s' w t) = slot (lens_of s) (table s w t))
     \<and> shf_tab_len buf' = tab_size (shf_tab buf') \<and> shf_tab_len buf' \<le> shf_tab_size buf'"
proof -
  note D = shf_okD [OF ok]
  obtain i s' where g: "tab_file s win tab = Some i" "get_tab_mmap win tab s = Inr (i, s')" "got_tab win tab i s s'"
    using get_tab_mmap_ok [OF D(2,4) b] by blast
  have "slot (lens_of s) (inode s' i) = slot (lens_of s) (table s win tab)"
    using got_tab_quiet(7) [OF ok g(3,1)] by (simp add: table_Some [OF g(1)])
  then show ?thesis using g(2) got_tab_quiet(1) [OF ok g(3,1)] got_tab_look [OF ok g(3,1)] got_tab_slots [OF ok g(3,1)] grow_tab_size_fits
    by (auto simp: shf_tab_copy_iterate_def Let_def)
qed

definition copies_of :: "lens \<Rightarrow> shf \<Rightarrow> (nat \<times> nat) list \<Rightarrow> (nat \<times> tab_mmap) list \<Rightarrow> bool" where
  "copies_of L s ps cs \<longleftrightarrow> list_all2 (\<lambda>(w, t) (w', c). w' = w \<and> slot L c = slot L (table s w t)) ps cs"

lemma scan_rest:
  assumes "shf_ok s" "win < 256" "tab < tabs_used (wins s win)" "n = length (tabs_from (\<lambda>w. tabs_used (wins s w)) (win, tab))"
  shows "\<exists>copies s' buf'. scan n (win, tab) (s, buf) = Inr (copies, (0, 0), s', buf') \<and> quiet s s'
     \<and> same_look s s' \<and> (\<forall>(w, t) \<in> set (tabs_from (\<lambda>w. tabs_used (wins s w)) (win, tab)). current s' w t)
     \<and> copies_of (lens_of s) s (tabs_from (\<lambda>w. tabs_used (wins s w)) (win, tab)) copies"
  using assms
proof (induction n arbitrary: s win tab buf)
  case 0
  then show ?case by (simp add: tabs_from_def)
next
  case (Suc n)
  let ?u = "\<lambda>w. tabs_used (wins s w)"
  have pos: "0 < ?u w" if "w < 256" for w
    using files_okD(8) [OF shf_okD(2) [OF Suc.prems(1)] that, of 0] by simp
  obtain s1 buf1 where r: "shf_tab_copy_iterate (win, tab) (s, buf) = Inr (next_tab (?u win) (win, tab), s1, buf1)"
    "quiet s s1" "same_look s s1" "slot (lens_of s) (shf_tab buf1) = slot (lens_of s) (table s win tab)"
    "\<forall>w t. slot (lens_of s) (table s1 w t) = slot (lens_of s) (table s w t)" "current s1 win tab"
    using iterate_ok [OF Suc.prems(1-3), of buf] by blast
  have u: "(\<lambda>w. tabs_used (wins s1 w)) = ?u" using r(3) by (simp add: same_look_def same_routes_def fun_eq_iff)
  have L: "lens_of s1 = lens_of s" using quietD(5) [OF r(2)] .
  from tabs_from_step [where used = ?u, OF Suc.prems(2,3) pos] show ?case
  proof
    assume a: "next_tab (?u win) (win, tab) = (0, 0) \<and> tabs_from ?u (win, tab) = [(win, tab)]"
    then have "n = 0" using Suc.prems(4) by simp
    then show ?thesis using a r by (simp add: copies_of_def)
  next
    assume "\<exists>w t. next_tab (?u win) (win, tab) = (w, t) \<and> w < 256 \<and> t < ?u w \<and> (0, 0) \<noteq> (w, t)
        \<and> tabs_from ?u (win, tab) = (win, tab) # tabs_from ?u (w, t)"
    then obtain w t where a: "next_tab (?u win) (win, tab) = (w, t)" "w < 256" "t < ?u w"
      "tabs_from ?u (win, tab) = (win, tab) # tabs_from ?u (w, t)" by blast
    have "n = length (tabs_from (\<lambda>w. tabs_used (wins s1 w)) (w, t))" using Suc.prems(4) a(4) by (simp add: u)
    moreover have "t < tabs_used (wins s1 w)" using a(3) fun_cong [OF u, of w] by simp
    ultimately obtain cs s' buf' where c: "scan n (w, t) (s1, buf1) = Inr (cs, (0, 0), s', buf')" "quiet s1 s'"
      "copies_of (lens_of s1) s1 (tabs_from (\<lambda>w. tabs_used (wins s1 w)) (w, t)) cs" "same_look s1 s'"
      "\<forall>(w, t) \<in> set (tabs_from (\<lambda>w. tabs_used (wins s1 w)) (w, t)). current s' w t"
      using Suc.IH [OF quietD(2) [OF r(2)] a(2)] by blast
    have "copies_of (lens_of s) s (tabs_from ?u (win, tab)) ((win, shf_tab buf1) # cs)"
      using c(3) r(4,5) by (simp add: copies_of_def a(4) u L)
    moreover have "scan (Suc n) (win, tab) (s, buf) = Inr ((win, shf_tab buf1) # cs, (0, 0), s', buf')"
      using r(1) c(1) by (simp add: a(1))
    moreover have "\<forall>(w, t) \<in> set (tabs_from ?u (win, tab)). current s' w t"
      using c(4,5) r(6) by (auto simp: a(4) u same_look_def)
    ultimately show ?thesis using quiet_trans [OF r(2) c(2)] same_look_trans [OF r(3) c(4)] by blast
  qed
qed

lemma full_scan:
  assumes ok: "shf_ok s" and n: "n = (\<Sum>w < 256. tabs_used (wins s w))"
  shows "\<exists>copies s' buf'. scan n (0, 0) (s, buf) = Inr (copies, (0, 0), s', buf') \<and> quiet s s' \<and> same_look s s'
     \<and> (\<forall>w < 256. \<forall>t < tabs_used (wins s w). current s' w t)
     \<and> copies_of (lens_of s) s (all_tabs (\<lambda>w. tabs_used (wins s w)) [0..<256]) copies
     \<and> n = length (all_tabs (\<lambda>w. tabs_used (wins s w)) [0..<256])"
proof -
  let ?u = "\<lambda>w. tabs_used (wins s w)"
  have z: "0 < ?u 0" using files_okD(8) [OF shf_okD(2) [OF ok], of 0 0] by simp
  have e: "tabs_from ?u (0, 0) = all_tabs ?u [0..<256]"
    by (simp add: tabs_from_def all_tabs_def upt_conv_Cons [of 0 256] del: upt_Suc upt_rec_numeral)
  have "length (all_tabs ?u [0..<m]) = (\<Sum>w < m. ?u w)" for m by (induction m) (simp_all add: all_tabs_def)
  then have len: "n = length (tabs_from ?u (0, 0))" unfolding e n by simp
  have mem: "(w, t) \<in> set (all_tabs ?u [0..<256])" if "w < 256" "t < ?u w" for w t
    using that by (auto simp: all_tabs_def intro!: bexI [of _ w])
  obtain copies s' buf' where "scan n (0, 0) (s, buf) = Inr (copies, (0, 0), s', buf')" "quiet s s'" "same_look s s'"
    "\<forall>(w, t) \<in> set (all_tabs ?u [0..<256]). current s' w t" "copies_of (lens_of s) s (all_tabs ?u [0..<256]) copies"
    using scan_rest [OF ok _ z len, of buf] unfolding e by auto
  then show ?thesis using mem len unfolding e by blast
qed

lemma all2_left: "list_all2 P xs ys \<Longrightarrow> x \<in> set xs \<Longrightarrow> \<exists>y \<in> set ys. P x y"
  by (induction rule: list_all2_induct) auto

lemma all2_right: "list_all2 P xs ys \<Longrightarrow> y \<in> set ys \<Longrightarrow> \<exists>x \<in> set xs. P x y"
  by (induction rule: list_all2_induct) auto

text \<open>
  C17. A full walk: as many calls of \<open>shf_tab_copy_iterate\<close> as there are tables, starting with window 0
  and table 0, come back to the start, change nothing that is stored, and a key and value are stored
  under a coordinate exactly when a copy of a table of that window has them in that row and reference.
\<close>

theorem full_walk_sees_everything:
  assumes ok: "shf_ok s" and n: "n = (\<Sum>w < 256. tabs_used (wins s w))"
  shows "\<exists>copies s' buf'. scan n (0, 0) (s, buf) = Inr (copies, (0, 0), s', buf') \<and> length copies = n
     \<and> shf_ok s' \<and> kv (lens_of s) s' = kv (lens_of s) s
     \<and> (\<forall>win < 256. \<forall>tab2 < 2048. \<forall>row ref rnd k v. kv (lens_of s) s (win, tab2, row, ref) = Some (rnd, k, v)
          \<longleftrightarrow> (\<exists>c. (win, c) \<in> set copies \<and> slot (lens_of s) c (row, ref) = Some (tab2, rnd, k, v)))"
proof -
  let ?u = "\<lambda>w. tabs_used (wins s w)" and ?L = "lens_of s"
  note F = shf_okD(2) [OF ok]
  obtain copies s' buf' where c: "scan n (0, 0) (s, buf) = Inr (copies, (0, 0), s', buf')" "quiet s s'"
    "copies_of ?L s (all_tabs ?u [0..<256]) copies" and len: "n = length (all_tabs ?u [0..<256])"
    using full_scan [OF ok n, of buf] by blast
  have l2: "list_all2 (\<lambda>(w, t) (w', c). w' = w \<and> slot ?L c = slot ?L (table s w t)) (all_tabs ?u [0..<256]) copies"
    using c(3) by (simp add: copies_of_def)
  have len2: "length copies = n" using list_all2_lengthD [OF l2] len by simp
  have mem: "(w, t) \<in> set (all_tabs ?u [0..<256]) \<longleftrightarrow> w < 256 \<and> t < ?u w" for w t
    by (auto simp: all_tabs_def intro!: bexI [of _ w])
  have copies: "(\<exists>c. (w, c) \<in> set copies \<and> slot ?L c rf = x) \<longleftrightarrow> (\<exists>t < ?u w. w < 256 \<and> slot ?L (table s w t) rf = x)" for w rf x
  proof
    assume "\<exists>c. (w, c) \<in> set copies \<and> slot ?L c rf = x"
    then obtain c where cc: "(w, c) \<in> set copies" "slot ?L c rf = x" by blast
    then obtain p where "p \<in> set (all_tabs ?u [0..<256])" "(\<lambda>(w, t) (w', c). w' = w \<and> slot ?L c = slot ?L (table s w t)) p (w, c)"
      using all2_right [OF l2 cc(1)] by blast
    moreover obtain w' t where "p = (w', t)" by (cases p)
    ultimately have "w' = w" "(w, t) \<in> set (all_tabs ?u [0..<256])" "slot ?L (table s w t) rf = x" using cc(2) by auto
    then show "\<exists>t < ?u w. w < 256 \<and> slot ?L (table s w t) rf = x" using mem by blast
  next
    assume "\<exists>t < ?u w. w < 256 \<and> slot ?L (table s w t) rf = x"
    then obtain t where t: "(w, t) \<in> set (all_tabs ?u [0..<256])" "slot ?L (table s w t) rf = x" using mem by blast
    then obtain q where "q \<in> set copies" "(\<lambda>(w, t) (w', c). w' = w \<and> slot ?L c = slot ?L (table s w t)) (w, t) q"
      using all2_left [OF l2 t(1)] by blast
    then show "\<exists>c. (w, c) \<in> set copies \<and> slot ?L c rf = x" using t(2) by (cases q) auto
  qed
  have "kv ?L s (win, tab2, row, ref) = Some (rnd, k, v) \<longleftrightarrow> (\<exists>c. (win, c) \<in> set copies \<and> slot ?L c (row, ref) = Some (tab2, rnd, k, v))"
    if w: "win < 256" and t2: "tab2 < 2048" for win tab2 row ref rnd k v
  proof -
    have R: "routed (wins s win) t (table s win t)" for t using shf_okD(3) [OF ok] w by (simp add: routes_ok_def shf_const_eq)
    have u: "win_tabs (wins s win) tab2 < ?u win" using files_okD(8) [OF F w t2] .
    have "win_tabs (wins s win) tab2 = t" if "slot ?L (table s win t) (row, ref) = Some (tab2, rnd, k, v)" for t
      using R [of t] that unfolding routed_slot [of _ _ _ ?L] by blast
    then show ?thesis unfolding copies using w u by (auto simp: kv_eq split: option.splits if_splits)
  qed
  then show ?thesis using c(1,2) len2 quietD(2,4) by blast
qed

theorem full_walk_sees_everything_witness:
  "\<exists>n copies s' buf' ref c. scan n (0, 0) (demo1, \<lparr>shf_tab = zero_tab, shf_tab_size = 4096, shf_tab_len = 0\<rparr>) = Inr (copies, (0, 0), s', buf')
     \<and> (120, c) \<in> set copies \<and> slot (lens_of demo1) c (247, ref) = Some (1414, 137628, [97], [1, 2, 3, 4, 5, 6, 7, 8])"
proof -
  let ?b = "\<lparr>shf_tab = zero_tab, shf_tab_size = 4096, shf_tab_len = 0\<rparr>" and ?n = "\<Sum>w < 256. tabs_used (wins demo1 w)"
  obtain ref where r: "kv (lens_of demo1) demo1 (120, 1414, 247, ref) = Some (137628, [97], [1, 2, 3, 4, 5, 6, 7, 8])"
    using demo1_ok(9) by auto
  obtain copies s' buf' where c: "scan ?n (0, 0) (demo1, ?b) = Inr (copies, (0, 0), s', buf')"
    "\<forall>win < 256. \<forall>tab2 < 2048. \<forall>row ref rnd k v. kv (lens_of demo1) demo1 (win, tab2, row, ref) = Some (rnd, k, v)
          \<longleftrightarrow> (\<exists>c. (win, c) \<in> set copies \<and> slot (lens_of demo1) c (row, ref) = Some (tab2, rnd, k, v))"
    using full_walk_sees_everything [OF demo1_ok(1) refl, of ?b] by blast
  have "\<exists>c. (120, c) \<in> set copies \<and> slot (lens_of demo1) c (247, ref) = Some (1414, 137628, [97], [1, 2, 3, 4, 5, 6, 7, 8])"
    by (rule c(2) [rule_format, THEN iffD1, OF _ _ r]) simp_all
  then show ?thesis using c(1) by blast
qed

end
