(* ===== verification/Shf_Api.thy ===== *)
theory Shf_Api
  imports Shf_Walk
begin

text \<open>
  The interface for keys and values as a whole: one datatype for its calls, and what every sequence of
  calls of a process keeps. No call ends in a failed assertion, other than the one that says that a
  window has all its tables.
\<close>

section \<open>The calls\<close>

datatype api_call =
    Make_hash "byte list"
  | Put_key_val "byte list option" nat
  | Get_key_val_addr | Get_uid_val_addr nat
  | Get_key_key_copy | Get_uid_key_copy nat
  | Get_key_val_copy | Get_uid_val_copy nat
  | Add_key_val "64 word" | Add_uid_val nat "64 word"
  | Del_key_val | Del_uid_val nat
  | Upd_key_val "byte list \<Rightarrow> nat \<times> byte list" | Upd_uid_val nat "byte list \<Rightarrow> nat \<times> byte list"
  | Set_ttl nat

text \<open>
  A call of a process that no other one disturbs. What other processes do between the locked sections of a
  call, and the calls that are not one section, are the subject of \<open>Shf_Multi\<close> and \<open>Shf_ShrinkRace\<close>: a copy
  of a value that shrinks its table holds the lock of a reader only.
\<close>

fun run_call :: "api_call \<Rightarrow> shf \<Rightarrow> shf_error + nat \<times> shf" where
  "run_call (Make_hash key) s = Inr (SHF_RET_OK, shf_make_hash (Some key) s)"
| "run_call (Put_key_val val val_len) s = shf_put_key_val val val_len s"
| "run_call Get_key_val_addr s = shf_get_key_val_addr s"
| "run_call (Get_uid_val_addr uid) s = shf_get_uid_val_addr uid s"
| "run_call Get_key_key_copy s = shf_get_key_key_copy s"
| "run_call (Get_uid_key_copy uid) s = shf_get_uid_key_copy uid s"
| "run_call Get_key_val_copy s = shf_get_key_val_copy s"
| "run_call (Get_uid_val_copy uid) s = shf_get_uid_val_copy uid s"
| "run_call (Add_key_val add) s = shf_add_key_val add s"
| "run_call (Add_uid_val uid add) s = shf_add_uid_val uid add s"
| "run_call Del_key_val s = shf_del_key_val s"
| "run_call (Del_uid_val uid) s = shf_del_uid_val uid s"
| "run_call (Upd_key_val upd) s = shf_upd_key_val upd s"
| "run_call (Upd_uid_val uid upd) s = shf_upd_uid_val uid upd s"
| "run_call (Set_ttl ttl) s = Inr (SHF_RET_OK, s\<lparr>shf_ttl := ttl\<rparr>)"

primrec run_calls :: "api_call list \<Rightarrow> shf \<Rightarrow> shf_error + nat list \<times> shf" where
  "run_calls [] s = Inr ([], s)"
| "run_calls (c # cs) s = bindE (run_call c s) (\<lambda>(r, s). bindE (run_calls cs s) (\<lambda>(rs, s). Inr (r # rs, s)))"

text \<open>
  What the caller owes: values as long as their length says, the lengths of a fixed length instance,
  callbacks that leave the length of a value, and memory for what is put.
\<close>

fun call_legal :: "lens \<Rightarrow> byte list \<Rightarrow> api_call \<Rightarrow> bool" where
  "call_legal L key (Put_key_val val val_len) = fits L key val val_len"
| "call_legal L key (Add_key_val add) = fits L key (Some (long_bytes add)) 8"
| "call_legal L key (Upd_key_val upd) = (\<forall>v. length (snd (upd v)) = length v)"
| "call_legal L key (Upd_uid_val uid upd) = (\<forall>v. length (snd (upd v)) = length v)"
| "call_legal L key _ = True"

fun call_need :: "lens \<Rightarrow> byte list \<Rightarrow> api_call \<Rightarrow> nat" where
  "call_need L key (Put_key_val val val_len) = data_needed (len_len L) (length key) val_len"
| "call_need L key (Add_key_val add) = data_needed (len_len L) (length key) 8"
| "call_need L key _ = 0"

fun key_after :: "byte list \<Rightarrow> api_call \<Rightarrow> byte list" where
  "key_after key (Make_hash k) = k"
| "key_after key _ = key"

primrec calls_legal :: "lens \<Rightarrow> byte list \<Rightarrow> api_call list \<Rightarrow> bool" where
  "calls_legal L key [] = True"
| "calls_legal L key (c # cs) = (call_legal L key c \<and> calls_legal L (key_after key c) cs)"

primrec calls_need :: "lens \<Rightarrow> byte list \<Rightarrow> api_call list \<Rightarrow> nat" where
  "calls_need L key [] = 0"
| "calls_need L key (c # cs) = call_need L key c + calls_need L (key_after key c) cs"

section \<open>What every call keeps\<close>

text \<open>In good order with room for \<open>n\<close> more bytes, and no update callback running.\<close>

definition api_ok :: "nat \<Rightarrow> shf \<Rightarrow> bool" where
  "api_ok n s \<longleftrightarrow> shf_ok s \<and> shf_room n s \<and> shf_upd_callback_failsafe s = 0"

definition goes_on :: "nat \<Rightarrow> shf \<Rightarrow> shf \<Rightarrow> bool" where
  "goes_on n s s' \<longleftrightarrow> api_ok n s' \<and> maps_kept s s' \<and> lens_of s' = lens_of s \<and> shf_hash_key s' = shf_hash_key s \<and> the_hash s' = the_hash s"

lemma goes_on_trans: "goes_on m s s' \<Longrightarrow> goes_on n s' s'' \<Longrightarrow> goes_on n s s''"
  by (simp add: goes_on_def maps_kept_def)

lemma looked_goes_on: "looked s s' \<Longrightarrow> api_ok n s \<Longrightarrow> goes_on n s s'"
  by (simp add: looked_def goes_on_def api_ok_def maps_kept_def)

lemma copied_goes_on: "copied_out s s' \<Longrightarrow> shf_room n s' \<Longrightarrow> api_ok n s \<Longrightarrow> goes_on n s s'"
  by (simp add: copied_out_def goes_on_def api_ok_def maps_kept_def)

lemma thread_goes_on:
  assumes "same_store s s'" "api_ok n s" "the_hash s' = the_hash s" "shf_hash_key s' = shf_hash_key s"
    "shf_upd_callback_failsafe s' = shf_upd_callback_failsafe s"
  shows "goes_on n s s'"
  using assms same_storeD [OF assms(1)] by (simp add: goes_on_def api_ok_def maps_kept_def)

text \<open>Whatever is done with a record that was found.\<close>

lemma found_goes_on:
  assumes loc: "located win tab2 i row ref rnd k v s" and ok: "api_ok n s" and tab: "tab = win_tabs (wins s win) tab2"
    and upd: "length (snd (upd v)) = length v"
  shows "\<exists>res s'. found_key what upd win tab i row ref (length k) (length v) s = Inr (res, s') \<and> goes_on n s s'"
proof -
  have R: "shf_ok s" "shf_room n s" "shf_upd_callback_failsafe s = 0" using ok by (simp_all add: api_ok_def)
  show ?thesis
  proof (cases what)
    case SHF_FIND_KEY_OR_UID_ADDR
    obtain a where "shf_val_addr s = Some (i, a)" using located_val [OF loc] by metis
    then show ?thesis using ok by (simp add: SHF_FIND_KEY_OR_UID_ADDR found_key_def goes_on_def maps_kept_def)
  next
    case SHF_FIND_KEY_OR_UID_AND_COPY_KEY
    then show ?thesis using found_copy_key [OF loc R(2) tab, of upd] copied_goes_on ok by blast
  next
    case SHF_FIND_KEY_OR_UID_AND_COPY_VAL
    then show ?thesis using found_copy_val [OF loc R(2) tab, of upd] copied_goes_on ok by blast
  next
    case SHF_FIND_KEY_OR_UID_AND_ATOM_ADD
    show ?thesis
    proof (cases "8 \<le> length v")
      case True
      then show ?thesis using found_add_ok [OF loc True, where upd = upd and tab = tab] R
        by (fastforce simp: SHF_FIND_KEY_OR_UID_AND_ATOM_ADD goes_on_def api_ok_def maps_kept_def)
    next
      case False
      then show ?thesis using found_add_short [OF loc, where upd = upd and tab = tab] ok
        by (simp add: SHF_FIND_KEY_OR_UID_AND_ATOM_ADD goes_on_def maps_kept_def)
    qed
  next
    case SHF_FIND_KEY_OR_UID_AND_DELETE
    obtain a where a: "shf_val_addr s = Some (i, a)" using located_val [OF loc] by metis
    show ?thesis
    proof (cases "shf_ttl s \<noteq> 0 \<and> shf_ttl s \<noteq> SHF_U32_AT (tab_data (inode s i)) a")
      case True
      then have "found_key what upd win tab i row ref (length k) (length v) s
          = Inr (SHF_RET_KEY_FOUND OR SHF_RET_NOT_TTL, s\<lparr>shf_ttl := 0\<rparr>)"
        by (simp add: SHF_FIND_KEY_OR_UID_AND_DELETE found_key_def Let_def a found_delete_def)
      moreover have "goes_on n s (s\<lparr>shf_ttl := 0\<rparr>)" using ok by (intro thread_goes_on) (simp_all add: same_store_def)
      ultimately show ?thesis by blast
    next
      case False
      then show ?thesis using found_delete_go [OF loc, where upd = upd and tab = tab] R a
        by (fastforce simp: SHF_FIND_KEY_OR_UID_AND_DELETE goes_on_def api_ok_def maps_kept_def)
    qed
  next
    case SHF_FIND_KEY_OR_UID_AND_UPDATE
    obtain res bs where u: "upd v = (res, bs)" "length bs = length v" using upd by (cases "upd v") auto
    from found_update_ok [where upd = upd and tab = tab, OF loc R(3) u] show ?thesis using R(2)
      by (auto simp: SHF_FIND_KEY_OR_UID_AND_UPDATE goes_on_def api_ok_def maps_kept_def)
  qed
qed

lemma find_goes_on:
  assumes ok: "api_ok n s" and upd: "\<forall>v. length (snd (upd v)) = length v"
  shows "\<exists>res s'. shf_find_key_internal uid what upd s = Inr (res, s') \<and> goes_on n s s'"
proof -
  have R: "shf_ok s" using ok by (simp add: api_ok_def)
  have go: "\<exists>res s'. found_key what upd win (win_tabs (wins s win) tab2) i row ref (length k) (length v) s1 = Inr (res, s') \<and> goes_on n s s'"
    if l: "looked s s1" "located win tab2 i row ref rnd k v s1" for win tab2 i row ref rnd k v s1
  proof -
    have g: "goes_on n s s1" using looked_goes_on [OF l(1) ok] .
    have "win_tabs (wins s win) tab2 = win_tabs (wins s1 win) tab2" using l(1) by (simp add: looked_def same_routes_def)
    from found_goes_on [OF l(2) _ this, of n upd what] g upd goes_on_trans [OF g] show ?thesis by (auto simp: goes_on_def)
  qed
  show ?thesis
  proof (cases "uid = SHF_UID_NONE")
    case True
    then show ?thesis using find_by_key [OF R, of what upd] go looked_goes_on [OF _ ok]
      by (cases "key_ref s") fastforce+
  next
    case False
    obtain win tab2 row ref where c: "uid_coord uid = (win, tab2, row, ref)" using prod_cases4 by blast
    show ?thesis
    proof (cases "kv (lens_of s) s (win, tab2, row, ref)")
      case None
      then show ?thesis using find_by_uid [OF R False c, of what upd] looked_goes_on [OF _ ok] by auto
    next
      case (Some x)
      obtain rnd k v where x: "x = (rnd, k, v)" by (cases x)
      obtain i s1 where "shf_find_key_internal uid what upd s = found_key what upd win (win_tabs (wins s win) tab2) i row ref (length k) (length v) s1"
        "looked s s1" "located win tab2 i row ref rnd k v s1"
        using find_by_uid [OF R False c, of what upd] unfolding Some x option.case prod.case by blast
      then show ?thesis using go by simp
    qed
  qed
qed

lemma put_goes_on:
  assumes ok: "api_ok (data_needed (len_len (lens_of s)) (length (shf_hash_key s)) vl + n) s"
    and fits: "fits (lens_of s) (shf_hash_key s) val vl"
  shows "shf_put_key_val val vl s = Inl Tab_overflow \<or> (\<exists>res s'. shf_put_key_val val vl s = Inr (res, s') \<and> goes_on n s s')"
proof -
  have R: "shf_ok s" "shf_room (data_needed (len_len (lens_of s)) (length (shf_hash_key s)) vl + n) s" "shf_upd_callback_failsafe s = 0"
    using ok by (simp_all add: api_ok_def)
  have "2048 < put_fuel + tabs_used (wins s (hash_win (the_hash s)))" by (simp add: put_fuel_def shf_const_eq)
  from put_loop_room [OF R(1) fits R(2) this] show ?thesis
  proof
    assume "\<exists>s'. put_loop put_fuel val vl s = Inr (SHF_RET_KEY_PUT, s') \<and> put_done val vl s s' \<and> shf_room n s'"
    then obtain s' where s': "shf_put_key_val val vl s = Inr (SHF_RET_KEY_PUT, s')" "put_done val vl s s'" "shf_room n s'"
      by (auto simp: shf_put_key_val_def)
    have p: "same_thread s (s'\<lparr>shf_uid := shf_uid s\<rparr>)" "shf_ok s'" "\<forall>m. coherent s m \<longrightarrow> coherent s' m"
      using s'(2) by (simp_all add: put_done_def)
    note T = same_threadD [OF p(1)]
    have "goes_on n s s'" using p(2,3) s'(3) T(5,6,12) R(3) T(2) by (simp add: goes_on_def api_ok_def maps_kept_def lens_of_def)
    then show ?thesis using s'(1) by blast
  qed (simp add: shf_put_key_val_def)
qed

lemma api_less: "api_ok n s \<Longrightarrow> m \<le> n \<Longrightarrow> api_ok m s"
  using shf_room_less by (auto simp: api_ok_def)

lemma add_key_goes_on:
  assumes ok: "api_ok (data_needed (len_len (lens_of s)) (length (shf_hash_key s)) 8 + n) s"
    and fits: "fits (lens_of s) (shf_hash_key s) (Some (long_bytes add)) 8"
  shows "shf_add_key_val add s = Inl Tab_overflow \<or> (\<exists>res s'. shf_add_key_val add s = Inr (res, s') \<and> goes_on n s s')"
proof -
  let ?m = "data_needed (len_len (lens_of s)) (length (shf_hash_key s)) 8 + n" and ?s0 = "s\<lparr>shf_val_long := add\<rparr>"
  have g0: "goes_on ?m s ?s0" using ok by (intro thread_goes_on) (simp_all add: same_store_def)
  then have "api_ok ?m ?s0" by (simp add: goes_on_def)
  then obtain r s1 where f: "shf_add_key_val_atom add s = Inr (r, s1)" "goes_on ?m ?s0 s1"
    using find_goes_on [of ?m ?s0 no_upd] unfolding shf_add_key_val_atom_def by (fastforce simp: no_upd_def)
  have g1: "goes_on ?m s s1" using goes_on_trans [OF g0 f(2)] .
  then have n1: "goes_on n s s1" using api_less [of ?m s1 n] by (simp add: goes_on_def)
  consider (del) "r = SHF_RET_KEY_FOUND" "shf_val_long s1 = 0" | (kept) "r = SHF_RET_KEY_FOUND" "shf_val_long s1 \<noteq> 0"
    | (new) "r = SHF_RET_KEY_NONE" "r \<noteq> SHF_RET_KEY_FOUND" | (other) "r \<noteq> SHF_RET_KEY_FOUND" "r \<noteq> SHF_RET_KEY_NONE" by blast
  then show ?thesis
  proof cases
    case del
    have "api_ok n s1" using n1 by (simp add: goes_on_def)
    then obtain r2 s2 where "shf_del_key_val s1 = Inr (r2, s2)" "goes_on n s1 s2"
      using find_goes_on [of n s1 no_upd] unfolding shf_del_key_val_def by (fastforce simp: no_upd_def)
    then show ?thesis using f(1) del goes_on_trans [OF n1] by (auto simp: shf_add_key_val_def)
  next
    case new
    have e: "lens_of s1 = lens_of s" "shf_hash_key s1 = shf_hash_key s" "api_ok ?m s1" using g1 by (simp_all add: goes_on_def)
    from put_goes_on [of s1 8 n "Some (long_bytes add)"] show ?thesis unfolding e
    proof (elim meta_impE disjE exE conjE)
      assume "shf_put_key_val (Some (long_bytes add)) 8 s1 = Inl Tab_overflow"
      then show ?thesis using f(1) new by (simp add: shf_add_key_val_def)
    next
      fix r2 s2 assume p: "shf_put_key_val (Some (long_bytes add)) 8 s1 = Inr (r2, s2)" "goes_on n s1 s2"
      have "goes_on n s2 (s2\<lparr>shf_val_long := add\<rparr>)" using p(2) by (intro thread_goes_on) (simp_all add: same_store_def goes_on_def)
      then have "goes_on n s (s2\<lparr>shf_val_long := add\<rparr>)" using goes_on_trans [OF n1 goes_on_trans [OF p(2)]] by blast
      then show ?thesis using f(1) new p(1) by (simp add: shf_add_key_val_def)
    qed (use e(3) fits in simp_all)
  qed (use f(1) n1 in \<open>simp_all add: shf_add_key_val_def\<close>)
qed

lemma add_uid_goes_on:
  assumes ok: "api_ok n s"
  shows "\<exists>res s'. shf_add_uid_val uid add s = Inr (res, s') \<and> goes_on n s s'"
proof -
  let ?s0 = "s\<lparr>shf_val_long := add\<rparr>"
  have g0: "goes_on n s ?s0" using ok by (intro thread_goes_on) (simp_all add: same_store_def)
  then have "api_ok n ?s0" by (simp add: goes_on_def)
  then obtain r s1 where f: "shf_add_uid_val_atom uid add s = Inr (r, s1)" "goes_on n ?s0 s1"
    using find_goes_on [of n ?s0 no_upd] unfolding shf_add_uid_val_atom_def by (fastforce simp: no_upd_def)
  have g1: "goes_on n s s1" using goes_on_trans [OF g0 f(2)] .
  then have "api_ok n s1" by (simp add: goes_on_def)
  then obtain r2 s2 where "shf_del_uid_val uid s1 = Inr (r2, s2)" "goes_on n s1 s2"
    using find_goes_on [of n s1 no_upd] unfolding shf_del_uid_val_def by (fastforce simp: no_upd_def)
  then show ?thesis using f(1) g1 goes_on_trans [OF g1] by (auto simp: shf_add_uid_val_def)
qed

lemma call_goes_on:
  assumes ok: "api_ok (call_need (lens_of s) (shf_hash_key s) c + n) s" and legal: "call_legal (lens_of s) (shf_hash_key s) c"
  shows "run_call c s = Inl Tab_overflow \<or> (\<exists>res s'. run_call c s = Inr (res, s') \<and> api_ok n s' \<and> maps_kept s s'
     \<and> lens_of s' = lens_of s \<and> shf_hash_key s' = key_after (shf_hash_key s) c)"
proof -
  have find: "\<exists>res s'. shf_find_key_internal uid what upd s = Inr (res, s') \<and> api_ok n s' \<and> maps_kept s s'
     \<and> lens_of s' = lens_of s \<and> shf_hash_key s' = shf_hash_key s"
    if "api_ok n s" "\<forall>v. length (snd (upd v)) = length v" for uid what upd
    using find_goes_on [OF that, of uid what] unfolding goes_on_def by blast
  have no: "\<forall>v. length (snd (no_upd v)) = length v" by (simp add: no_upd_def)
  show ?thesis
  proof (cases c)
    case (Make_hash key)
    then show ?thesis using ok by (simp add: api_ok_def maps_kept_def)
  next
    case (Put_key_val val vl)
    then show ?thesis using put_goes_on [of s vl n val] ok legal by (auto simp: goes_on_def)
  next
    case (Add_key_val add)
    then show ?thesis using add_key_goes_on [of s n add] ok legal by (auto simp: goes_on_def)
  next
    case (Add_uid_val uid add)
    then show ?thesis using add_uid_goes_on [of n s uid add] ok by (auto simp: goes_on_def)
  next
    case (Set_ttl ttl)
    have "goes_on n s (s\<lparr>shf_ttl := ttl\<rparr>)" using ok Set_ttl by (intro thread_goes_on) (simp_all add: same_store_def)
    then show ?thesis by (simp add: Set_ttl goes_on_def)
  qed (use ok legal find [OF _ no] find in \<open>simp_all add: shf_get_key_val_addr_def shf_get_uid_val_addr_def shf_get_key_key_copy_def
      shf_get_uid_key_copy_def shf_get_key_val_copy_def shf_get_uid_val_copy_def shf_del_key_val_def shf_del_uid_val_def
      shf_upd_key_val_def shf_upd_uid_val_def\<close>)
qed

lemma calls_go_on:
  assumes "api_ok (calls_need (lens_of s) (shf_hash_key s) cs + n) s" "calls_legal (lens_of s) (shf_hash_key s) cs"
  shows "run_calls cs s = Inl Tab_overflow \<or> (\<exists>rs s'. run_calls cs s = Inr (rs, s') \<and> api_ok n s' \<and> length rs = length cs \<and> maps_kept s s')"
  using assms
proof (induction cs arbitrary: s)
  case Nil
  then show ?case by (simp add: maps_kept_def)
next
  case (Cons c cs)
  have "api_ok (call_need (lens_of s) (shf_hash_key s) c + (calls_need (lens_of s) (key_after (shf_hash_key s) c) cs + n)) s"
    using Cons.prems(1) by (simp add: add.assoc)
  from call_goes_on [OF this] Cons.prems(2) show ?case
  proof (elim meta_impE disjE exE conjE)
    fix r s1 assume r: "run_call c s = Inr (r, s1)" "api_ok (calls_need (lens_of s) (key_after (shf_hash_key s) c) cs + n) s1"
      "maps_kept s s1" "lens_of s1 = lens_of s" "shf_hash_key s1 = key_after (shf_hash_key s) c"
    have "run_calls cs s1 = Inl Tab_overflow \<or> (\<exists>rs s'. run_calls cs s1 = Inr (rs, s') \<and> api_ok n s' \<and> length rs = length cs \<and> maps_kept s1 s')"
      using r(2,4,5) Cons.prems(2) by (intro Cons.IH) simp_all
    then show ?thesis using r(1,3) by (auto simp: maps_kept_def)
  qed simp_all
qed

text \<open>
  C13. The interface never trips one of its assertions: from an instance in good order, every sequence
  of calls that a process makes either runs to its end and leaves the instance in good order and the
  mappings of every other process usable, or stops because a window has all its 2048 tables. The caller
  owes legal arguments and memory for what the sequence puts.
\<close>

theorem calls_never_assert:
  assumes "shf_ok s" "shf_upd_callback_failsafe s = 0"
    and "shf_room (calls_need (lens_of s) (shf_hash_key s) cs + n) s" "calls_legal (lens_of s) (shf_hash_key s) cs"
  shows "run_calls cs s = Inl Tab_overflow
     \<or> (\<exists>rs s'. run_calls cs s = Inr (rs, s') \<and> shf_ok s' \<and> shf_room n s' \<and> length rs = length cs
          \<and> (\<forall>m. coherent s m \<longrightarrow> coherent s' m))"
proof -
  have "api_ok (calls_need (lens_of s) (shf_hash_key s) cs + n) s" using assms by (simp add: api_ok_def)
  from calls_go_on [OF this assms(4)] show ?thesis by (auto simp: api_ok_def maps_kept_def)
qed

theorem calls_never_assert_witness:
  "let cs = [Make_hash [97], Add_key_val 5, Get_key_val_copy, Put_key_val (Some [1, 2, 3]) 3, Get_uid_key_copy 7, Del_key_val] in
     run_calls cs fresh = Inl Tab_overflow \<or> (\<exists>rs s'. run_calls cs fresh = Inr (rs, s') \<and> shf_ok s' \<and> length rs = 6)"
proof -
  let ?cs = "[Make_hash [97], Add_key_val 5, Get_key_val_copy, Put_key_val (Some [1, 2, 3]) 3, Get_uid_key_copy 7, Del_key_val]"
  have "calls_need (lens_of fresh) (shf_hash_key fresh) ?cs + 0 < 2147000000" by (simp add: data_needed_def)
  then have "shf_room (calls_need (lens_of fresh) (shf_hash_key fresh) ?cs + 0) fresh" by (intro attach_room) simp_all
  from calls_never_assert [OF attach_ok _ this] show ?thesis by (auto simp: Let_def fits_def)
qed

end
