(* ===== verification/Shf_Maps.thy ===== *)
theory Shf_Maps
  imports Shf_Api
begin

text \<open>
  The mappings a process holds, and their number: \<open>count_mmap\<close> of the process goes up and down with the
  mappings through every operation, so that \<open>shf_detach\<close> finds as many as it expects. The queue arrays
  and the strings a process has allocated are counted in the same way.
\<close>

section \<open>Mappings are counted\<close>

definition maps_of :: "shf \<Rightarrow> (nat \<times> nat) set" where
  "maps_of s = {(w, t). off_mmap (tabs s w t) \<noteq> 0}"

text \<open>
  \<open>k\<close> mappings are not of tab files: one of the shared header, and one more while a tab file is replaced.
  A table that is not mapped has size 0, other than those of \<open>X\<close>: while a tab file is replaced its table
  is unmapped and keeps its size.
\<close>

definition balanced :: "nat \<Rightarrow> (nat \<times> nat) set \<Rightarrow> shf \<Rightarrow> bool" where
  "balanced k X s \<longleftrightarrow> finite (maps_of s) \<and> count_mmap s = u32 (k + card (maps_of s)) \<and> 0 < next_inode s
     \<and> (\<forall>w t i. tab_file s w t = Some i \<longrightarrow> 0 < i) \<and> maps_of s \<subseteq> {..<256} \<times> UNIV
     \<and> (\<forall>p. p \<notin> maps_of s \<and> p \<notin> X \<longrightarrow> off_size (tabs s (fst p) (snd p)) = 0)"

text \<open>What an operation does to the mappings: more of them, and as many more as it counts.\<close>

definition even_map :: "shf \<Rightarrow> shf \<Rightarrow> bool" where
  "even_map s s' \<longleftrightarrow> maps_of s \<subseteq> maps_of s' \<and> (\<forall>k X. balanced k X s \<longrightarrow> balanced k X s')
     \<and> shf_data_needed_factor s' = shf_data_needed_factor s"

lemma even_mapD: "even_map s s' \<Longrightarrow> balanced k X s \<Longrightarrow> balanced k X s'" "even_map s s' \<Longrightarrow> x \<in> maps_of s \<Longrightarrow> x \<in> maps_of s'"
  by (auto simp: even_map_def)

lemma even_map_refl [simp]: "even_map s s"
  by (simp add: even_map_def)

lemma even_map_trans: "even_map s s' \<Longrightarrow> even_map s' s'' \<Longrightarrow> even_map s s''"
  by (auto simp: even_map_def)

lemma even_mapI:
  assumes "tabs s' = tabs s" "count_mmap s' = count_mmap s" "next_inode s \<le> next_inode s'"
    "shf_data_needed_factor s' = shf_data_needed_factor s"
    and "\<And>w t i. 0 < next_inode s \<Longrightarrow> (\<And>w t j. tab_file s w t = Some j \<Longrightarrow> 0 < j) \<Longrightarrow> tab_file s' w t = Some i \<Longrightarrow> 0 < i"
  shows "even_map s s'"
proof -
  have m: "maps_of s' = maps_of s" by (simp add: maps_of_def assms(1))
  have "balanced k X s'" if b: "balanced k X s" for k X
    unfolding balanced_def m assms(1,2)
    using b assms(3) assms(5) [rotated 2] by (simp add: balanced_def)
  then show ?thesis by (simp add: even_map_def m assms(4))
qed

lemma even_map_simps [simp]:
  "even_map s (upd_inode i g s)" "even_map s (upd_win w h s)" "even_map s (ftruncate i n s)"
  by (rule even_mapI; simp add: upd_inode_def upd_win_def ftruncate_def)+

lemma even_map_upd: "even_map s s' \<Longrightarrow> even_map s (upd_inode i g s')" "even_map s s' \<Longrightarrow> even_map s (upd_win w h s')"
  "even_map s s' \<Longrightarrow> even_map s (ftruncate i n s')"
  by (erule even_map_trans, simp)+

lemma u32_Suc: "u32 (Suc (u32 n)) = u32 (Suc n)"
  by (simp add: u32_def mod_Suc_eq)

lemma open_creat_even:
  assumes "open_creat win tab s = (i, s')"
  shows "even_map s s'" "balanced k X s \<Longrightarrow> 0 < i" "tabs s' = tabs s" "count_mmap s' = count_mmap s"
proof -
  show "tabs s' = tabs s" "count_mmap s' = count_mmap s" using assms by (auto simp: open_creat_def Let_def split: option.splits)
  then show "even_map s s'" using assms by (intro even_mapI) (auto simp: open_creat_def Let_def split: option.splits if_splits)
  show "0 < i" if "balanced k X s" using that assms by (auto simp: open_creat_def Let_def balanced_def split: option.splits)
qed

lemma create_even: "even_map s (shf_tab_create win tab s)" "tabs (shf_tab_create win tab s) = tabs s"
proof -
  obtain i s' where o: "open_creat win tab s = (i, s')" by (cases "open_creat win tab s")
  then show "even_map s (shf_tab_create win tab s)" "tabs (shf_tab_create win tab s) = tabs s"
    using open_creat_even [OF o] even_map_upd(3) by (simp_all add: shf_tab_create_def) (simp add: ftruncate_def upd_inode_def)
qed

lemma unlink_even: "unlink win tab s = Inr s' \<Longrightarrow> even_map s s'" "unlink win tab s = Inr s' \<Longrightarrow> tabs s' = tabs s"
  by (rule even_mapI) (auto simp: unlink_def split: option.splits if_splits)

text \<open>Moving a mapping to another file keeps the count; the first mapping of a table and the last one change it.\<close>

lemma maps_set_off:
  "maps_of (set_off win tab i n s) = (if i = 0 then maps_of s - {(win, tab)} else insert (win, tab) (maps_of s))"
  by (auto simp: maps_of_def set_off_def split: if_splits)

lemma set_off_even:
  assumes "0 < i" "(win, tab) \<in> maps_of s"
  shows "even_map s (set_off win tab i n s)"
proof -
  have m: "maps_of (set_off win tab i n s) = maps_of s" using assms by (auto simp: maps_set_off)
  have "balanced k X (set_off win tab i n s)" if b: "balanced k X s" for k X
    unfolding balanced_def m using b assms(2) by (auto simp: balanced_def set_off_def)
  then show ?thesis by (simp add: even_map_def m) (simp add: set_off_def)
qed

lemma first_mmap_even:
  assumes "first_mmap win tab s = Inr s'" "balanced k X s" "win < 256"
  shows "balanced k (X - {(win, tab)}) s' \<and> maps_of s' = insert (win, tab) (maps_of s)
     \<and> shf_data_needed_factor s' = shf_data_needed_factor s"
proof (cases "off_mmap (tabs s win tab) = 0")
  case True
  obtain i s1 where o: "open_creat win tab s = (i, s1)" by (cases "open_creat win tab s")
  note O = open_creat_even [OF o]
  have b1: "balanced k X s1" by (rule even_mapD(1) [OF O(1) assms(2)])
  have i: "0 < i" "maps_of s1 = maps_of s" using O(2) [OF assms(2)] by (simp_all add: O(3) maps_of_def)
  have new: "(win, tab) \<notin> maps_of s" using True by (simp add: maps_of_def)
  obtain n where s': "s' = upd_win win (\<lambda>w. w\<lparr>tabs_mmaps := u64 (tabs_mmaps w + 1)\<rparr>)
      (set_off win tab i n (s1\<lparr>count_mmap := u32 (count_mmap s1 + 1)\<rparr>))"
    using assms(1) True o by (auto simp: first_mmap_def Let_def)
  have "maps_of s' = maps_of (set_off win tab i n s1)" by (simp add: s' maps_of_def set_off_def upd_win_def)
  then have m: "maps_of s' = insert (win, tab) (maps_of s)" using i by (simp add: maps_set_off)
  have e: "count_mmap s' = u32 (count_mmap s1 + 1)" "next_inode s' = next_inode s1" "tab_file s' = tab_file s1"
    "\<forall>p. p \<noteq> (win, tab) \<longrightarrow> off_size (tabs s' (fst p) (snd p)) = off_size (tabs s1 (fst p) (snd p))"
    by (simp_all add: s' set_off_def upd_win_def)
  have f: "shf_data_needed_factor s' = shf_data_needed_factor s"
    using O(1) by (simp add: s' set_off_def upd_win_def even_map_def)
  show ?thesis using b1 new e assms(3) f unfolding balanced_def m i(2) by (auto simp: u32_Suc)
next
  case False
  then have "(win, tab) \<in> maps_of s" "s' = s" using assms by (simp_all add: first_mmap_def maps_of_def)
  then show ?thesis using assms(2) by (auto simp: balanced_def)
qed

lemma follow_size_even:
  assumes "follow_size win tab s = Inr (i, s')" "balanced k X s" "(win, tab) \<in> maps_of s"
  shows "even_map s s'"
proof -
  let ?j = "off_mmap (tabs s win tab)"
  have j: "0 < ?j" using assms(3) by (simp add: maps_of_def)
  show ?thesis
  proof (cases "off_size (tabs s win tab) = tab_size (inode s ?j)")
    case True
    then show ?thesis using assms by (simp add: follow_size_def Let_def)
  next
    case False
    show ?thesis
    proof (cases "tab_size (inode s ?j) = 1")
      case True
      obtain l s1 where o: "open_creat win tab s = (l, s1)" by (cases "open_creat win tab s")
      note O = open_creat_even [OF o]
      obtain n where s': "s' = set_off win tab l n (upd_win win (\<lambda>w. w\<lparr>tabs_mmaps := u64 (tabs_mmaps w + 1)\<rparr>) s1)"
        using assms(1) True False o by (auto simp: follow_size_def Let_def)
      have e: "even_map s (upd_win win (\<lambda>w. w\<lparr>tabs_mmaps := u64 (tabs_mmaps w + 1)\<rparr>) s1)"
        by (rule even_map_upd(2) [OF O(1)])
      show ?thesis unfolding s' by (rule even_map_trans [OF e set_off_even [OF O(2) [OF assms(2)] even_mapD(2) [OF e assms(3)]]])
    next
      case f: False
      have e: "even_map s (upd_win win (\<lambda>w. w\<lparr>tabs_mremaps := u64 (tabs_mremaps w + 1)\<rparr>) s)" by simp
      have "s' = set_off win tab ?j (tab_size (inode s ?j)) (upd_win win (\<lambda>w. w\<lparr>tabs_mremaps := u64 (tabs_mremaps w + 1)\<rparr>) s)"
        using assms(1) False f by (auto simp: follow_size_def Let_def)
      then show ?thesis using even_map_trans [OF e set_off_even [OF j even_mapD(2) [OF e assms(3)]]] by simp
    qed
  qed
qed

lemma init_header_even [simp]: "even_map s (init_header win tab s)"
  by (simp add: init_header_def Let_def)

lemma get_tab_even:
  assumes "get_tab_mmap win tab s = Inr (i, s')" "balanced k X s" "win < 256"
  shows "balanced k (X - {(win, tab)}) s'" "(win, tab) \<in> maps_of s'" "maps_of s \<subseteq> maps_of s'"
    "shf_data_needed_factor s' = shf_data_needed_factor s"
proof -
  obtain s1 where s1: "first_mmap win tab s = Inr s1" "follow_size win tab (init_header win tab s1) = Inr (i, s')"
    using assms(1) by (auto simp: get_tab_mmap_def)
  note F = first_mmap_even [OF s1(1) assms(2,3)]
  have ev: "even_map s1 (init_header win tab s1)" by simp
  have I: "balanced k (X - {(win, tab)}) (init_header win tab s1)" "(win, tab) \<in> maps_of (init_header win tab s1)"
    using F even_mapD [OF ev] by auto
  note E = even_map_trans [OF ev follow_size_even [OF s1(2) I]]
  show "balanced k (X - {(win, tab)}) s'" "(win, tab) \<in> maps_of s'" "maps_of s \<subseteq> maps_of s'"
    "shf_data_needed_factor s' = shf_data_needed_factor s"
    using F even_mapD [OF E] E by (auto simp: even_map_def)
qed

lemma balanced_mono: "balanced k X s \<Longrightarrow> X \<subseteq> Y \<Longrightarrow> balanced k Y s"
  by (simp add: balanced_def) blast

lemma got_even: "get_tab_mmap win tab s = Inr (i, s') \<Longrightarrow> balanced k X s \<Longrightarrow> win < 256 \<Longrightarrow> balanced k X s'"
  by (rule balanced_mono [OF get_tab_even(1)]) auto

section \<open>Operations keep the count\<close>

definition held :: "nat \<Rightarrow> (nat \<times> nat) set \<Rightarrow> shf \<Rightarrow> shf \<Rightarrow> bool" where
  "held k X s s' \<longleftrightarrow> balanced k X s' \<and> maps_of s \<subseteq> maps_of s' \<and> shf_data_needed_factor s' = shf_data_needed_factor s"

lemma held_trans: "held k X s s' \<Longrightarrow> held k X s' s'' \<Longrightarrow> held k X s s''"
  by (auto simp: held_def)

lemma even_held: "even_map s s' \<Longrightarrow> balanced k X s \<Longrightarrow> held k X s s'"
  by (simp add: held_def even_map_def)

lemma held_even: "held k X s s' \<Longrightarrow> even_map s' s'' \<Longrightarrow> held k X s s''"
  by (auto simp: held_def even_map_def)

lemma heldD: "held k X s s' \<Longrightarrow> balanced k X s'" "held k X s s' \<Longrightarrow> p \<in> maps_of s \<Longrightarrow> p \<in> maps_of s'"
  by (auto simp: held_def)

lemma got_held: "get_tab_mmap win tab s = Inr (i, s') \<Longrightarrow> balanced k X s \<Longrightarrow> win < 256 \<Longrightarrow> held k X s s'"
  using get_tab_even got_even by (simp add: held_def)

lemma grow_held:
  assumes "tab_grow win tab i needed s = Inr (j, s')" "balanced k X s" "(win, tab) \<in> maps_of s"
  shows "held k X s s'"
proof -
  obtain l s1 where o: "open_creat win tab s = (l, s1)" by (cases "open_creat win tab s")
  note O = open_creat_even [OF o]
  obtain m n g where s': "s' = set_off win tab l m (upd_inode l g (ftruncate l n s1))"
    using assms(1) o by (auto simp: tab_grow_def Let_def)
  have e: "even_map s (upd_inode l g (ftruncate l n s1))" by (intro even_map_upd O(1))
  show ?thesis unfolding s'
    by (rule even_held [OF even_map_trans [OF e set_off_even [OF O(2) [OF assms(2)] even_mapD(2) [OF e assms(3)]]] assms(2)])
qed

lemma append_held:
  assumes "tab_append win tab i ll key val val_len s = Inr (j, pos, s')" "balanced k X s" "(win, tab) \<in> maps_of s"
  shows "held k X s s'"
proof -
  have id: "held k X s (upd_inode x g s)" for x g using even_held [OF even_map_simps(1) assms(2)] .
  show ?thesis
  proof (cases "ll = 0 \<and> tab_data_free_pos (inode s i) \<noteq> 0")
    case True
    then show ?thesis using assms(1) id by (auto simp: tab_append_def Let_def)
  next
    case False
    obtain l s1 g where l: "(if u32_sub (tab_size (inode s i)) (tab_used (inode s i)) < data_needed ll (length key) val_len
        then tab_grow win tab i (data_needed ll (length key) val_len) s else Inr (i, s)) = Inr (l, s1)" "s' = upd_inode l g s1"
      using assms(1) False by (auto simp: tab_append_def Let_def split: if_splits)
    have "held k X s s1" using l(1) grow_held [OF _ assms(2,3)] assms(2) by (auto simp: held_def split: if_splits)
    then show ?thesis unfolding l(2) using even_map_simps(1) by (rule held_even)
  qed
qed

lemma ref_copy_held:
  assumes "tab_ref_copy win tab old new rf s = Inr (new', s')" "balanced k X s" "(win, tab) \<in> maps_of s"
  shows "held k X s s'"
proof -
  obtain key val vl pos s1 n g g' where "tab_append win tab new (len_len (lens_of s)) key val vl s = Inr (n, pos, s1)"
    "s' = upd_inode n g (upd_inode old g' s1)"
    using assms(1) by (auto simp: tab_ref_copy_def Let_def split: prod.splits)
  then show ?thesis using held_even [OF append_held [OF _ assms(2,3)] even_map_upd(1) [OF even_map_simps(1)]] by blast
qed

lemma shrink_refs_held:
  assumes "shrink_refs win tab old rfs new s = Inr (new', s')" "balanced k X s" "(win, tab) \<in> maps_of s"
  shows "held k X s s'"
  using assms
proof (induction rfs arbitrary: new s)
  case Nil
  then show ?case by (simp add: held_def)
next
  case (Cons rf rfs)
  show ?case
  proof (cases "slot_pos (inode s old) rf \<noteq> 0")
    case True
    then obtain n s1 where n: "tab_ref_copy win tab old new rf s = Inr (n, s1)" "shrink_refs win tab old rfs n s1 = Inr (new', s')"
      using Cons.prems(1) by auto
    note H = ref_copy_held [OF n(1) Cons.prems(2,3)]
    show ?thesis by (rule held_trans [OF H Cons.IH [OF n(2) heldD(1) [OF H] heldD(2) [OF H Cons.prems(3)]]])
  next
    case False
    then show ?thesis using Cons by simp
  qed
qed

lemma u32_sub_Suc: "u32_sub (u32 (Suc n)) 1 = u32 n"
proof -
  have "u32_sub (u32 (Suc n)) 1 = (Suc n + 4294967295) mod 4294967296"
    unfolding u32_sub_def u32_def by (simp add: mod_add_left_eq)
  also have "\<dots> = u32 n" by (simp add: u32_def mod_add_self2 [of n 4294967296, simplified])
  finally show ?thesis .
qed

text \<open>The old file stays mapped while its table is mapped again: one mapping more than tables that are mapped.\<close>

lemma unmap_balanced:
  assumes "balanced k X s" "(win, tab) \<in> maps_of s"
  shows "balanced (Suc k) (insert (win, tab) X) (set_off win tab 0 n s)"
proof -
  have m: "maps_of (set_off win tab 0 n s) = maps_of s - {(win, tab)}" by (simp add: maps_set_off)
  have fin: "finite (maps_of s)" using assms(1) by (simp add: balanced_def)
  have "Suc (card (maps_of s - {(win, tab)})) = card (maps_of s)" using card_Suc_Diff1 [OF fin assms(2)] .
  then have c: "Suc k + card (maps_of s - {(win, tab)}) = k + card (maps_of s)" by simp
  have t: "off_size (tabs (set_off win tab 0 n s) (fst p) (snd p)) = off_size (tabs s (fst p) (snd p))" if "p \<noteq> (win, tab)" for p
    using that by (cases p) (auto simp: set_off_def)
  have e: "count_mmap (set_off win tab 0 n s) = count_mmap s" "next_inode (set_off win tab 0 n s) = next_inode s"
    "tab_file (set_off win tab 0 n s) = tab_file s" by (simp_all add: set_off_def)
  show ?thesis using assms(1) fin unfolding balanced_def m c e by (auto simp: t)
qed

lemma drop_balanced:
  assumes "balanced (Suc k) X s"
  shows "balanced k X (s\<lparr>count_mmap := u32_sub (count_mmap s) 1\<rparr>)"
proof -
  have "maps_of (s\<lparr>count_mmap := u32_sub (count_mmap s) 1\<rparr>) = maps_of s" by (simp add: maps_of_def)
  then show ?thesis using assms u32_sub_Suc [of "k + card (maps_of s)"] by (simp add: balanced_def)
qed

lemma shrink_held:
  assumes "shf_tab_shrink win tab s = Inr s'" "balanced k X s" "win < 256"
  shows "held k X s s'"
proof -
  define s0 where "s0 = upd_win win (\<lambda>w. w\<lparr>tabs_shrunk := u64 (tabs_shrunk w + 1)\<rparr>) s"
  obtain old s1 s2 where g: "get_tab_mmap win tab s0 = Inr (old, s1)" "unlink win tab s1 = Inr s2"
    using assms(1) by (auto simp: shf_tab_shrink_def Let_def s0_def)
  define s3 where "s3 = set_off win tab 0 (off_size (tabs s2 win tab)) s2"
  define s4 where "s4 = shf_tab_create win tab s3"
  obtain new s5 new' s6 where h: "get_tab_mmap win tab s4 = Inr (new, s5)" "shrink_refs win tab old slot_list new s5 = Inr (new', s6)"
    "s' = (upd_inode old (\<lambda>t. t\<lparr>tab_size := 1\<rparr>) s6)
       \<lparr>count_mmap := u32_sub (count_mmap (upd_inode old (\<lambda>t. t\<lparr>tab_size := 1\<rparr>) s6)) 1\<rparr>"
    using assms(1) g by (auto simp: shf_tab_shrink_def Let_def s0_def s3_def s4_def)
  have e0: "even_map s s0" by (simp add: s0_def)
  note b0 = even_mapD(1) [OF e0 assms(2)]
  note G = get_tab_even [OF g(1) b0 assms(3)]
  note e2 = unlink_even(1) [OF g(2)]
  note b2 = even_mapD(1) [OF e2 got_even [OF g(1) b0 assms(3)]] and w2 = even_mapD(2) [OF e2 G(2)]
  have b3: "balanced (Suc k) (insert (win, tab) X) s3" unfolding s3_def by (rule unmap_balanced [OF b2 w2])
  have b4: "balanced (Suc k) (insert (win, tab) X) s4" using even_mapD(1) [OF create_even(1) b3] by (simp add: s4_def)
  note H = get_tab_even [OF h(1) b4 assms(3)]
  have b5: "balanced (Suc k) X s5" by (rule balanced_mono [OF H(1)]) auto
  have H6: "held (Suc k) X s5 (upd_inode old (\<lambda>t. t\<lparr>tab_size := 1\<rparr>) s6)"
    using held_even [OF shrink_refs_held [OF h(2) b5 H(2)] even_map_simps(1)] .
  have "maps_of s' = maps_of (upd_inode old (\<lambda>t. t\<lparr>tab_size := 1\<rparr>) s6)" unfolding h(3) by (simp add: maps_of_def)
  then have "maps_of s5 \<subseteq> maps_of s'" using H6 by (simp add: held_def)
  moreover have "maps_of s \<subseteq> insert (win, tab) (maps_of s3)"
    using e0 G(3) e2 by (auto simp: even_map_def s3_def maps_set_off)
  moreover have "maps_of s3 \<subseteq> maps_of s5" using create_even(1) [of s3 win tab] H(3) by (auto simp: even_map_def s4_def)
  moreover have "balanced k X s'" unfolding h(3) by (rule drop_balanced [OF heldD(1) [OF H6]])
  moreover have "shf_data_needed_factor s' = shf_data_needed_factor s"
    using e0 G(4) e2 create_even(1) [of s3 win tab] H(4) H6 by (simp add: even_map_def held_def h(3) s4_def) (simp add: s3_def set_off_def)
  ultimately show ?thesis using H(2) by (auto simp: held_def)
qed

lemma part_refs_held:
  assumes "part_refs win tab_old tab_new old rfs new s = Inr (new', s')" "balanced k X s" "(win, tab_new) \<in> maps_of s"
  shows "held k X s s'"
  using assms
proof (induction rfs arbitrary: new s)
  case Nil
  then show ?case by (simp add: held_def)
next
  case (Cons rf rfs)
  have up: "held k X s (upd_win win g s)" for g using even_held [OF even_map_simps(2) Cons.prems(2)] .
  have ih: "held k X s s'" if "part_refs win tab_old tab_new old rfs n s1 = Inr (new', s')" "held k X s s1" for n s1
    by (rule held_trans [OF that(2) Cons.IH [OF that(1) heldD(1) [OF that(2)] heldD(2) [OF that(2) Cons.prems(3)]]])
  have copy: "held k X s s2" if "tab_ref_copy win tab_new old new rf s1 = Inr (n, s2)" "held k X s s1" for s1 n s2
    by (rule held_trans [OF that(2) ref_copy_held [OF that(1) heldD(1) [OF that(2)] heldD(2) [OF that(2) Cons.prems(3)]]])
  show ?case
  proof (cases "slot_pos (inode s old) rf \<noteq> 0")
    case True
    let ?tab = "win_tabs (wins s win) (ref_tab (tab_row (inode s old) (fst rf) (snd rf)))"
    show ?thesis
    proof (cases "?tab = tab_new")
      case new: True
      let ?s1 = "upd_win win (\<lambda>w. w\<lparr>tabs_parted_new := u64 (tabs_parted_new w + 1)\<rparr>) s"
      obtain n s2 where "tab_ref_copy win tab_new old new rf ?s1 = Inr (n, s2)"
        "part_refs win tab_old tab_new old rfs n s2 = Inr (new', s')"
        using Cons.prems(1) True new by (auto simp: Let_def)
      then show ?thesis using ih copy up by blast
    next
      case False
      then have "part_refs win tab_old tab_new old rfs new
          (upd_win win (\<lambda>w. w\<lparr>tabs_parted_old := u64 (tabs_parted_old w + 1)\<rparr>) s) = Inr (new', s')"
        using Cons.prems(1) True by (auto simp: Let_def)
      then show ?thesis using ih up by blast
    qed
  next
    case False
    then show ?thesis using Cons by simp
  qed
qed

lemma part_held:
  assumes "shf_tab_part win tab s = Inr s'" "balanced k X s" "win < 256"
  shows "held k X s s'"
proof -
  define s0 where "s0 = shf_tab_create win (u16 (tabs_used (wins s win))) s"
  obtain i s1 g h s2 old new n s3 where r: "get_tab_mmap win (u16 (tabs_used (wins s win))) s0 = Inr (i, s1)" "s2 = upd_win win g (upd_win win h s1)"
    "part_refs win tab (u16 (tabs_used (wins s win))) old slot_list new s2 = Inr (n, s3)" "shf_tab_shrink win tab s3 = Inr s'"
    using assms(1) by (auto simp: shf_tab_part_def Let_def s0_def)
  have H0: "held k X s s0" unfolding s0_def by (rule even_held [OF create_even(1) assms(2)])
  note G = get_tab_even [OF r(1) heldD(1) [OF H0] assms(3)]
  have e: "even_map s1 s2" unfolding r(2) by (intro even_map_upd(2) even_map_simps(2))
  have H2: "held k X s s2" by (rule held_even [OF held_trans [OF H0 got_held [OF r(1) heldD(1) [OF H0] assms(3)]] e])
  have H3: "held k X s s3" by (rule held_trans [OF H2 part_refs_held [OF r(3) heldD(1) [OF H2] even_mapD(2) [OF e G(2)]]])
  show ?thesis by (rule held_trans [OF H3 shrink_held [OF r(4) heldD(1) [OF H3] assms(3)]])
qed

text \<open>Thread local variables play no part.\<close>

lemma thread_even:
  assumes "tabs s' = tabs s" "count_mmap s' = count_mmap s" "next_inode s' = next_inode s" "tab_file s' = tab_file s"
    "shf_data_needed_factor s' = shf_data_needed_factor s"
  shows "even_map s s'"
  using assms by (intro even_mapI) simp_all

lemma put_held:
  assumes "put_loop n val vl s = Inr (res, s')" "balanced k X s"
  shows "held k X s s'"
  using assms
proof (induction n arbitrary: s)
  case 0
  then show ?case by simp
next
  case (Suc n)
  let ?win = "hash_win (the_hash s)" and ?tab2 = "hash_tab2 (the_hash s)" and ?row = "hash_row (the_hash s)"
  let ?tab = "win_tabs (wins s ?win) ?tab2"
  have win: "?win < 256" by simp
  obtain i s1 where g: "get_tab_mmap ?win ?tab s = Inr (i, s1)" using Suc.prems(1) by (auto simp: Let_def)
  note H1 = got_held [OF g Suc.prems(2) win] and M = get_tab_even(2) [OF g Suc.prems(2) win]
  show ?case
  proof (cases "free_ref ?row (inode s1 i)")
    case None
    then obtain s2 where p: "shf_tab_part ?win ?tab s1 = Inr s2" "put_loop n val vl s2 = Inr (res, s')"
      using Suc.prems(1) g by (auto simp: Let_def)
    note H2 = held_trans [OF H1 part_held [OF p(1) heldD(1) [OF H1] win]]
    show ?thesis by (rule held_trans [OF H2 Suc.IH [OF p(2) heldD(1) [OF H2]]])
  next
    case (Some ref)
    then obtain pos j s2 h s3 s4 where a: "tab_append ?win ?tab i (len_len (lens_of s)) (shf_hash_key s1) val vl s1 = Inr (j, pos, s2)"
      "s3 = upd_inode j h s2" "shf_tab_shrink ?win ?tab s3 = Inr s4 \<or> s3 = s4" "s' = s4\<lparr>shf_uid := mk_uid ?win ?tab2 ?row ref\<rparr>"
      using Suc.prems(1) g by (auto simp: Let_def split: if_splits) metis+
    have H3: "held k X s s3" unfolding a(2)
      by (rule held_even [OF held_trans [OF H1 append_held [OF a(1) heldD(1) [OF H1] M]] even_map_simps(1)])
    have H4: "held k X s s4" using a(3) H3 held_trans [OF H3 shrink_held [OF _ heldD(1) [OF H3] win]] by blast
    show ?thesis unfolding a(4) by (rule held_even [OF H4 thread_even]) simp_all
  qed
qed

lemma search_even: "search_row win tab2 i row rnd refs s = Inr (found, s') \<Longrightarrow> even_map s s'"
proof (induction refs arbitrary: s)
  case (Cons ref refs)
  have l: "even_map s s1" if "ref_locate i row ref s = Inr (kl, vl, s1)" for kl vl s1
    using that by (intro thread_even) (auto simp: ref_locate_def Let_def)
  have up: "even_map s (upd_win w g s1)" if "even_map s s1" for w g s1 using even_map_upd(2) [OF that] .
  show ?case using Cons.prems Cons.IH [THEN even_map_trans [rotated]] l up
    by (fastforce simp: Let_def split: if_splits)
qed simp

lemma consider_held: "consider_tab_shrink win tab i s = Inr s' \<Longrightarrow> balanced k X s \<Longrightarrow> win < 256 \<Longrightarrow> held k X s s'"
  using shrink_held by (auto simp: consider_tab_shrink_def held_def split: if_splits)

lemma copy_even: "even_map s (shf_copy_key n s)" "even_map s (shf_copy_val n s)"
  by (rule thread_even; simp add: shf_copy_key_def shf_copy_val_def split: option.split)+

lemma delete_even: "found_delete i row ref kl vl s = (res, s') \<Longrightarrow> even_map s s'"
  by (rule thread_even) (auto simp: found_delete_def Let_def upd_inode_def shf_copy_val_def split: prod.splits if_splits option.splits)

lemma found_held:
  assumes "found_key what upd win tab i row ref kl vl s = Inr (res, s')" "balanced k X s" "win < 256"
  shows "held k X s s'"
proof -
  have cons: "held k X s s'" if "consider_tab_shrink win tab i s1 = Inr s'" "even_map s s1" for s1
    using held_trans [OF even_held [OF that(2) assms(2)] consider_held [OF that(1) even_mapD(1) [OF that(2) assms(2)] assms(3)]] .
  show ?thesis
  proof (cases what)
    case SHF_FIND_KEY_OR_UID_AND_ATOM_ADD
    then have "even_map s s'" using assms(1)
      by (intro thread_even) (auto simp: found_key_def Let_def upd_inode_def split: prod.splits if_splits)
    then show ?thesis using assms(2) by (rule even_held)
  next
    case SHF_FIND_KEY_OR_UID_AND_DELETE
    then show ?thesis using assms(1) even_held [OF delete_even assms(2)] by (auto simp: found_key_def split: prod.splits)
  next
    case SHF_FIND_KEY_OR_UID_AND_UPDATE
    then have "even_map s s'" using assms(1)
      by (intro thread_even) (auto simp: found_key_def Let_def upd_inode_def split: prod.splits)
    then show ?thesis using assms(2) by (rule even_held)
  qed (use assms(1) cons [OF _ copy_even(1)] cons [OF _ copy_even(2)] even_held [OF even_map_refl assms(2)] in
      \<open>auto simp: found_key_def split: prod.splits\<close>)
qed

lemma find_held:
  assumes "shf_find_key_internal uid what upd s = Inr (res, s')" "balanced k X s"
  shows "held k X s s'"
proof -
  let ?by = "uid = SHF_UID_NONE" and ?p = "uid_as_part uid"
  define win where "win = (if ?by then hash_win (the_hash s) else uid_win ?p)"
  have win: "win < 256" by (simp add: win_def uid_as_part_def)
  define tab2 where "tab2 = (if ?by then hash_tab2 (the_hash s) else uid_tab ?p)"
  define row where "row = (if ?by then hash_row (the_hash s) else uid_row ?p)"
  let ?tab = "win_tabs (wins s win) tab2"
  obtain i s1 found s2 where g: "get_tab_mmap win ?tab s = Inr (i, s1)" and
    l: "(if ?by then
             bindE (search_row win tab2 i row (hash_rnd (the_hash s1)) [0..<SHF_REFS_PER_ROW] (s1\<lparr>shf_uid := SHF_UID_NONE\<rparr>))
               (\<lambda>(found, s). Inr (found, case found of None \<Rightarrow> s
                  | Some (ref, _) \<Rightarrow> s\<lparr>shf_uid := mk_uid win tab2 row ref\<rparr>))
           else
             let ref = uid_ref ?p; r = tab_row (inode s1 i) row ref
             in if ref_pos r \<noteq> 0 \<and> ref_tab r = tab2
                then bindE (ref_locate i row ref s1) (\<lambda>(key_len, val_len, s). Inr (Some (ref, key_len, val_len), s))
                else Inr (None, s1)) = Inr (found, s2)"
    and f: "case found of None \<Rightarrow> s' = s2\<lparr>shf_val_addr := None\<rparr>
       | Some (ref, kl, vl) \<Rightarrow> found_key what upd win ?tab i row ref kl vl s2 = Inr (res, s')"
    using assms(1) unfolding shf_find_key_internal_def Let_def win_def [symmetric] tab2_def [symmetric] row_def [symmetric]
    by (auto simp: win_def tab2_def row_def split: option.splits prod.splits if_splits)
  note H1 = got_held [OF g assms(2) win]
  have "even_map s1 s2"
  proof (cases ?by)
    case True
    then obtain s3 where s3: "search_row win tab2 i row (hash_rnd (the_hash s1)) [0..<SHF_REFS_PER_ROW] (s1\<lparr>shf_uid := SHF_UID_NONE\<rparr>)
        = Inr (found, s3)" "s2 = (case found of None \<Rightarrow> s3 | Some (ref, _) \<Rightarrow> s3\<lparr>shf_uid := mk_uid win tab2 row ref\<rparr>)"
      using l by auto
    have a: "even_map s1 (s1\<lparr>shf_uid := SHF_UID_NONE\<rparr>)" "even_map s3 s2"
      using s3(2) by (auto intro!: thread_even split: option.splits)
    show ?thesis by (rule even_map_trans [OF a(1) even_map_trans [OF search_even [OF s3(1)] a(2)]])
  next
    case False
    then show ?thesis using l by (intro thread_even) (auto simp: ref_locate_def Let_def split: if_splits)
  qed
  note H2 = held_even [OF H1 this]
  show ?thesis
  proof (cases found)
    case None
    then show ?thesis using f held_even [OF H2 thread_even, of "s2\<lparr>shf_val_addr := None\<rparr>"] by simp
  next
    case (Some a)
    then show ?thesis using f held_trans [OF H2 found_held [OF _ heldD(1) [OF H2] win]] by (auto split: prod.splits)
  qed
qed

lemma pre_held:
  assumes "even_map s s1" "balanced k X s" "balanced k X s1 \<Longrightarrow> held k X s1 s'"
  shows "held k X s s'"
  using held_trans [OF even_held [OF assms(1,2)] assms(3) [OF even_mapD(1) [OF assms(1,2)]]] .

lemma atom_held:
  assumes "shf_find_key_internal uid what upd (s\<lparr>shf_val_long := add\<rparr>) = Inr (res, s')" "balanced k X s"
  shows "held k X s s'"
  by (rule pre_held [OF thread_even assms(2) find_held [OF assms(1)]]) simp_all

lemma add_key_held:
  assumes "shf_add_key_val add s = Inr (res, s')" "balanced k X s"
  shows "held k X s s'"
proof -
  obtain r s1 where a: "shf_add_key_val_atom add s = Inr (r, s1)" using assms(1) by (auto simp: shf_add_key_val_def)
  have H1: "held k X s s1" using atom_held [OF a [unfolded shf_add_key_val_atom_def] assms(2)] .
  have del: "held k X s s'" if "shf_del_key_val s1 = Inr (q, s')" for q
    using held_trans [OF H1 find_held [OF that [unfolded shf_del_key_val_def] heldD(1) [OF H1]]] .
  have put: "held k X s (s2\<lparr>shf_val_long := add\<rparr>)" if "shf_put_key_val val 8 s1 = Inr (q, s2)" for q s2 val
    by (rule held_even [OF held_trans [OF H1 put_held [OF that [unfolded shf_put_key_val_def] heldD(1) [OF H1]]] thread_even]) simp_all
  show ?thesis using assms(1) a H1 del put by (auto simp: shf_add_key_val_def split: if_splits)
qed

lemma add_uid_held:
  assumes "shf_add_uid_val uid add s = Inr (res, s')" "balanced k X s"
  shows "held k X s s'"
proof -
  obtain r s1 where a: "shf_add_uid_val_atom uid add s = Inr (r, s1)" using assms(1) by (auto simp: shf_add_uid_val_def)
  have H1: "held k X s s1" using atom_held [OF a [unfolded shf_add_uid_val_atom_def] assms(2)] .
  have "held k X s s'" if "shf_del_uid_val uid s1 = Inr (q, s')" for q
    using held_trans [OF H1 find_held [OF that [unfolded shf_del_uid_val_def] heldD(1) [OF H1]]] .
  then show ?thesis using assms(1) a H1 by (auto simp: shf_add_uid_val_def split: if_splits)
qed

lemma call_held:
  assumes "run_call c s = Inr (res, s')" "balanced k X s"
  shows "held k X s s'"
proof (cases c)
  case (Make_hash key)
  then have "even_map s s'" using assms(1) by (intro thread_even) (auto simp: shf_make_hash_def Let_def split: prod.splits)
  then show ?thesis using assms(2) by (rule even_held)
next
  case (Set_ttl t)
  then have "even_map s s'" using assms(1) by (intro thread_even) auto
  then show ?thesis using assms(2) by (rule even_held)
qed (use assms find_held atom_held add_key_held add_uid_held put_held in \<open>auto simp: shf_put_key_val_def shf_get_key_val_addr_def
   shf_get_uid_val_addr_def shf_get_key_key_copy_def shf_get_uid_key_copy_def shf_get_key_val_copy_def shf_get_uid_val_copy_def
   shf_del_key_val_def shf_del_uid_val_def shf_upd_key_val_def shf_upd_uid_val_def\<close>)

lemma calls_held:
  assumes "run_calls cs s = Inr (rs, s')" "balanced k X s"
  shows "held k X s s'"
  using assms
proof (induction cs arbitrary: s rs)
  case (Cons c cs)
  then obtain r s1 qs where r: "run_call c s = Inr (r, s1)" "run_calls cs s1 = Inr (qs, s')" by auto
  note H = call_held [OF r(1) Cons.prems(2)]
  show ?case by (rule held_trans [OF H Cons.IH [OF r(2) heldD(1) [OF H]]])
qed (simp add: held_def)

end
