(* ===== verification/Shf_Detach.thy ===== *)
theory Shf_Detach
  imports Shf_Maps
begin

text \<open>
  \<open>shf_detach\<close>: what a process gives back when it is done with an instance, and that it gives back as
  much as it has counted.
\<close>

section \<open>shf_detach\<close>

text \<open>
  The memory a process allocates for an instance: the private queue arrays, the path and the name. A
  pointer is NULL, or points at memory that is allocated, or at memory that has been freed.
\<close>

datatype heap_ptr = Null_ptr | Live_ptr | Freed_ptr

record allocs =
  push_ptr :: heap_ptr
  pull_ptr :: heap_ptr
  path_ptr :: heap_ptr
  name_ptr :: heap_ptr
  count_xalloc :: nat

definition attach_allocs :: allocs where
  "attach_allocs = \<lparr>push_ptr = Null_ptr, pull_ptr = Null_ptr, path_ptr = Live_ptr, name_ptr = Live_ptr, count_xalloc = 2\<rparr>"

text \<open>What \<open>shf_q_new\<close> and \<open>shf_q_get\<close> allocate, and what \<open>shf_q_del\<close> and \<open>shf_detach\<close> free.\<close>

definition q_alloc :: "allocs \<Rightarrow> allocs" where
  "q_alloc a = a\<lparr>push_ptr := Live_ptr, pull_ptr := Live_ptr, count_xalloc := u32 (count_xalloc a + 2)\<rparr>"

definition free_ptr :: "heap_ptr \<Rightarrow> shf_error + heap_ptr" where
  "free_ptr p = (case p of Null_ptr \<Rightarrow> Inr Null_ptr | Live_ptr \<Rightarrow> Inr Freed_ptr | Freed_ptr \<Rightarrow> Inl Double_free)"

definition q_free :: "allocs \<Rightarrow> shf_error + allocs" where
  "q_free a =
     bindE (if push_ptr a = Null_ptr then Inr a else bindE (free_ptr (push_ptr a)) (\<lambda>p.
       Inr (a\<lparr>push_ptr := p, count_xalloc := u32_sub (count_xalloc a) 1\<rparr>))) (\<lambda>a.
     if pull_ptr a = Null_ptr then Inr a else bindE (free_ptr (pull_ptr a)) (\<lambda>p.
       Inr (a\<lparr>pull_ptr := p, count_xalloc := u32_sub (count_xalloc a) 1\<rparr>)))"

text \<open>The log, as far as the instance has one; None while it waits for the log thread.\<close>

definition detach_log :: "log_mmap \<Rightarrow> log_proc \<Rightarrow> shf_error + log_proc option" where
  "detach_log m p =
     (if log_thread_active p \<noteq> 0 then bindE (log_del_signal (m, p)) (\<lambda>(waits, m). log_del_wait waits m p)
      else if log_thread_instance p then bindE (shf_log_detach_existing p) (\<lambda>p. Inr (Some p))
      else Inr (Some p))"

text \<open>The two loops over the tables; \<open>munmap\<close> of a mapping succeeds.\<close>

primrec munmap_tabs :: "nat \<Rightarrow> nat list \<Rightarrow> nat \<Rightarrow> shf \<Rightarrow> shf_error + nat \<times> shf" where
  "munmap_tabs win [] count_munmap s = Inr (count_munmap, s)"
| "munmap_tabs win (tab # ts) count_munmap s =
     (if SHF_SIZE_PAGE \<le> off_size (tabs s win tab) then
        bindE (assertE (off_mmap (tabs s win tab) \<noteq> 0) Null_pointer) (\<lambda>_.
        munmap_tabs win ts (u32 (count_munmap + 1)) (set_off win tab 0 (off_size (tabs s win tab)) s))
      else munmap_tabs win ts count_munmap s)"

primrec munmap_wins :: "nat list \<Rightarrow> nat \<Rightarrow> shf \<Rightarrow> shf_error + nat \<times> shf" where
  "munmap_wins [] count_munmap s = Inr (count_munmap, s)"
| "munmap_wins (win # ws) count_munmap s =
     bindE (munmap_tabs win [0..<tabs_used (wins s win)] count_munmap s) (\<lambda>(n, s). munmap_wins ws n s)"

text \<open>
  What is left is what the process no longer maps or points at; in the code the \<open>SHF\<close> itself is freed as
  well.
\<close>

definition shf_detach :: "log_mmap \<Rightarrow> shf \<times> allocs \<times> log_proc \<Rightarrow> shf_error + (shf \<times> allocs \<times> log_proc) option" where
  "shf_detach m = (\<lambda>(s, a, p).
     bindE (detach_log m p) (\<lambda>r. case r of None \<Rightarrow> Inr None | Some p \<Rightarrow>
     bindE (q_free a) (\<lambda>a.
     bindE (munmap_wins [0..<SHF_WINS_PER_SHF] 0 s) (\<lambda>(count_munmap, s).
     bindE (free_ptr (path_ptr a)) (\<lambda>pp.
     let count_free = (if path_ptr a \<noteq> Null_ptr then 1 else 0); a = a\<lparr>path_ptr := pp\<rparr> in
     bindE (free_ptr (name_ptr a)) (\<lambda>np.
     let count_free = (if name_ptr a \<noteq> Null_ptr then count_free + 1 else count_free); a = a\<lparr>name_ptr := np\<rparr>;
         count_munmap = u32 (count_munmap + 1) in
     bindE (assertE (count_munmap = count_mmap s) Count_mismatch) (\<lambda>_.
     bindE (assertE (count_free = count_xalloc a) Count_mismatch) (\<lambda>_.
     Inr (Some (s, a, p))))))))))"

section \<open>Detaching\<close>

definition mapped_in :: "nat set \<Rightarrow> shf \<Rightarrow> (nat \<times> nat) set" where
  "mapped_in ws s = {(w, t). w \<in> ws \<and> t < tabs_used (wins s w) \<and> 4096 \<le> off_size (tabs s w t)}"

definition unmapped :: "(nat \<times> nat) set \<Rightarrow> shf \<Rightarrow> shf" where
  "unmapped P s = s\<lparr>tabs := (\<lambda>w t. if (w, t) \<in> P then (tabs s w t)\<lparr>off_mmap := 0\<rparr> else tabs s w t)\<rparr>"

lemma unmapped_simps [simp]:
  "wins (unmapped P s) = wins s" "off_size (tabs (unmapped P s) w t) = off_size (tabs s w t)"
  "unmapped Q (unmapped P s) = unmapped (P \<union> Q) s" "count_mmap (unmapped P s) = count_mmap s" "unmapped {} s = s"
  "off_mmap (tabs (unmapped P s) w t) = (if (w, t) \<in> P then 0 else off_mmap (tabs s w t))"
  by (auto simp: unmapped_def fun_eq_iff intro!: shf.equality)

lemma mapped_in_unmapped [simp]: "mapped_in W (unmapped P s) = mapped_in W s"
  by (simp add: mapped_in_def)

lemma u32_add [simp]: "u32 (u32 a + b) = u32 (a + b)"
  by (simp add: u32_def mod_add_left_eq)

lemma munmap_tabs_ok:
  assumes "\<forall>t \<in> set ts. 4096 \<le> off_size (tabs s win t) \<longrightarrow> off_mmap (tabs s win t) \<noteq> 0" "distinct ts"
  shows "munmap_tabs win ts (u32 n) s = Inr (u32 (n + card {t \<in> set ts. 4096 \<le> off_size (tabs s win t)}),
     unmapped {(w, t). w = win \<and> t \<in> set ts \<and> 4096 \<le> off_size (tabs s win t)} s)"
  using assms
proof (induction ts arbitrary: n s)
  case Nil
  then show ?case by simp
next
  case (Cons tab ts)
  show ?case
  proof (cases "4096 \<le> off_size (tabs s win tab)")
    case True
    let ?s1 = "set_off win tab 0 (off_size (tabs s win tab)) s"
    have s1: "?s1 = unmapped {(win, tab)} s" by (auto simp: set_off_def unmapped_def fun_eq_iff intro!: shf.equality off.equality)
    have ih: "munmap_tabs win ts (u32 (n + 1)) ?s1 = Inr (u32 (n + 1 + card {t \<in> set ts. 4096 \<le> off_size (tabs s win t)}),
        unmapped ({(win, tab)} \<union> {(w, t). w = win \<and> t \<in> set ts \<and> 4096 \<le> off_size (tabs s win t)}) s)"
      using Cons.IH [of "unmapped {(win, tab)} s" "n + 1"] Cons.prems unfolding s1 by auto
    have sets: "{t \<in> set (tab # ts). 4096 \<le> off_size (tabs s win t)} = insert tab {t \<in> set ts. 4096 \<le> off_size (tabs s win t)}"
      "{(w, t). w = win \<and> t \<in> set (tab # ts) \<and> 4096 \<le> off_size (tabs s win t)}
        = {(win, tab)} \<union> {(w, t). w = win \<and> t \<in> set ts \<and> 4096 \<le> off_size (tabs s win t)}" using True by auto
    have nin: "tab \<notin> {t \<in> set ts. 4096 \<le> off_size (tabs s win t)}" using Cons.prems(2) by simp
    show ?thesis unfolding sets card_insert_disjoint [OF finite_subset [of _ "set ts"] nin]
      using True Cons.prems(1) ih nin by (simp add: SHF_SIZE_PAGE_def card_insert_disjoint u32_Suc)
  next
    case False
    then have "{t \<in> set (tab # ts). 4096 \<le> off_size (tabs s win t)} = {t \<in> set ts. 4096 \<le> off_size (tabs s win t)}"
      "{(w, t). w = win \<and> t \<in> set (tab # ts) \<and> 4096 \<le> off_size (tabs s win t)}
        = {(w, t). w = win \<and> t \<in> set ts \<and> 4096 \<le> off_size (tabs s win t)}" by auto
    then show ?thesis using False Cons.IH [of s n] Cons.prems by (simp add: SHF_SIZE_PAGE_def)
  qed
qed

lemma munmap_wins_ok:
  assumes "\<forall>w \<in> set ws. \<forall>t. 4096 \<le> off_size (tabs s w t) \<longrightarrow> off_mmap (tabs s w t) \<noteq> 0" "distinct ws"
  shows "munmap_wins ws (u32 n) s = Inr (u32 (n + card (mapped_in (set ws) s)), unmapped (mapped_in (set ws) s) s)"
  using assms
proof (induction ws arbitrary: n s)
  case Nil
  then show ?case by (simp add: mapped_in_def)
next
  case (Cons w ws)
  let ?T = "{t \<in> set [0..<tabs_used (wins s w)]. 4096 \<le> off_size (tabs s w t)}"
  let ?P = "{(x, t). x = w \<and> t \<in> set [0..<tabs_used (wins s w)] \<and> 4096 \<le> off_size (tabs s w t)}"
  have 1: "munmap_tabs w [0..<tabs_used (wins s w)] (u32 n) s = Inr (u32 (n + card ?T), unmapped ?P s)"
    using Cons.prems(1) by (intro munmap_tabs_ok) auto
  have 3: "munmap_wins ws (u32 (n + card ?T)) (unmapped ?P s)
      = Inr (u32 (n + card ?T + card (mapped_in (set ws) s)), unmapped (mapped_in (set ws) s) (unmapped ?P s))"
    using Cons.prems by (subst Cons.IH) auto
  have P: "?P = Pair w ` ?T" by auto
  have fin: "finite (mapped_in (set ws) s)"
    by (rule finite_subset [of _ "Sigma (set ws) (\<lambda>w. {..<tabs_used (wins s w)})"]) (auto simp: mapped_in_def)
  have "mapped_in (set (w # ws)) s = ?P \<union> mapped_in (set ws) s" by (auto simp: mapped_in_def)
  moreover have "card (?P \<union> mapped_in (set ws) s) = card ?T + card (mapped_in (set ws) s)"
    unfolding P using Cons.prems(2) fin by (subst card_Un_disjoint) (auto simp: mapped_in_def card_image inj_on_def)
  ultimately show ?case using 1 3 by (simp add: add.assoc)
qed

lemma q_free_simps:
  "q_free attach_allocs = Inr attach_allocs"
  "q_free (q_alloc attach_allocs) = Inr (attach_allocs\<lparr>push_ptr := Freed_ptr, pull_ptr := Freed_ptr\<rparr>)"
  "q_free (q_alloc (q_alloc attach_allocs)) = Inr (attach_allocs\<lparr>push_ptr := Freed_ptr, pull_ptr := Freed_ptr, count_xalloc := 4\<rparr>)"
  by (simp_all add: q_free_def q_alloc_def attach_allocs_def free_ptr_def)

text \<open>In a balanced process the tables with a size are those that are mapped.\<close>

lemma balanced_mapped:
  assumes ok: "shf_ok s" and b: "balanced 1 {} s"
  shows "mapped_in {..<256} s = maps_of s"
    "\<forall>w t. w < 256 \<and> 4096 \<le> off_size (tabs s w t) \<longrightarrow> off_mmap (tabs s w t) \<noteq> 0"
proof -
  note D = shf_okD [OF ok]
  have z: "off_size (tabs s w t) = 0" if "off_mmap (tabs s w t) = 0" for w t
  proof -
    have "(w, t) \<notin> maps_of s" using that by (simp add: maps_of_def)
    then show ?thesis using b unfolding balanced_def by (metis empty_iff fst_conv snd_conv)
  qed
  have m: "4096 \<le> off_size (tabs s w t) \<and> t < tabs_used (wins s w)" if "w < 256" "off_mmap (tabs s w t) \<noteq> 0" for w t
  proof -
    have "mapping_ok s w t (tabs s w t)" using D(4) that(1) by (simp add: coherent_def shf_const_eq)
    then have "4096 \<le> off_size (tabs s w t)" "tab_file s w t \<noteq> None" using that(2) by (auto simp: mapping_ok_def)
    then show ?thesis using files_okD(7) [OF D(2) that(1), of t] by (metis not_le)
  qed
  have zz: "off_mmap (tabs s w t) \<noteq> 0" if "4096 \<le> off_size (tabs s w t)" for w t using z [of w t] that by auto
  then show "\<forall>w t. w < 256 \<and> 4096 \<le> off_size (tabs s w t) \<longrightarrow> off_mmap (tabs s w t) \<noteq> 0" by blast
  have "maps_of s \<subseteq> {..<256} \<times> UNIV" using b by (simp add: balanced_def)
  then have "(w, t) \<in> mapped_in {..<256} s \<longleftrightarrow> (w, t) \<in> maps_of s" for w t
    using zz [of w t] m [of w t] by (auto simp: mapped_in_def maps_of_def)
  then show "mapped_in {..<256} s = maps_of s" by auto
qed

lemma detach_ok:
  assumes ok: "shf_ok s" and b: "balanced 1 {} s" and l: "detach_log m p = Inr (Some p')"
    and a: "q_free a = Inr a'" "path_ptr a' = Live_ptr" "name_ptr a' = Live_ptr"
  shows "shf_detach m (s, a, p) = (if count_xalloc a' = 2
     then Inr (Some (unmapped (maps_of s) s, a'\<lparr>path_ptr := Freed_ptr, name_ptr := Freed_ptr\<rparr>, p')) else Inl Count_mismatch)"
proof -
  note B = balanced_mapped [OF ok b]
  have s256: "set [0..<SHF_WINS_PER_SHF] = {..<256}" by (auto simp: shf_const_eq)
  have "munmap_wins [0..<SHF_WINS_PER_SHF] (u32 0) s = Inr (u32 (0 + card (maps_of s)), unmapped (maps_of s) s)"
    using munmap_wins_ok [of "[0..<SHF_WINS_PER_SHF]" s 0] B unfolding s256 by simp
  then have w: "munmap_wins [0..<SHF_WINS_PER_SHF] 0 s = Inr (u32 (card (maps_of s)), unmapped (maps_of s) s)" by simp
  have "count_mmap s = u32 (Suc (card (maps_of s)))" using b by (simp add: balanced_def)
  then show ?thesis using l a w by (simp add: shf_detach_def Let_def free_ptr_def u32_Suc)
qed

lemma attach_balanced: "balanced 1 {} (shf_attach v)"
proof -
  have "count_mmap (shf_attach v) = 1" "off_size (tabs (shf_attach v) w t) = 0" for w t
    by (simp_all add: shf_attach_def Let_def shf_attach_existing_def)
  then show ?thesis by (auto simp: balanced_def maps_of_def split: if_splits)
qed

lemma attach_existing_balanced:
  assumes "files_ok L s"
  shows "balanced 1 {} (shf_attach_existing s)"
  using files_okD(1,9) [OF assms] by (auto simp: balanced_def maps_of_def shf_attach_existing_def)

lemma detach_log_ok:
  assumes "log_thread_active p = 0 \<or> log_thread_instance p \<and> log_stopped m \<noteq> 0"
  shows "\<exists>p'. detach_log m p = Inr (Some p') \<and> \<not> log_thread_instance p'"
  using assms by (auto simp: detach_log_def log_del_signal_def log_del_wait_def shf_log_detach_existing_def)

lemma detach_calls:
  assumes "shf_ok s" "shf_upd_callback_failsafe s = 0" "balanced 1 {} s"
    and "shf_room (calls_need (lens_of s) (shf_hash_key s) cs + n) s" "calls_legal (lens_of s) (shf_hash_key s) cs"
    and log: "log_thread_active p = 0 \<or> log_thread_instance p \<and> log_stopped m \<noteq> 0"
    and a: "a = attach_allocs \<or> a = q_alloc attach_allocs"
  shows "run_calls cs s = Inl Tab_overflow \<or> (\<exists>rs s' s'' a' p'. run_calls cs s = Inr (rs, s')
     \<and> shf_detach m (s', a, p) = Inr (Some (s'', a', p')) \<and> (\<forall>w t. off_mmap (tabs s'' w t) = 0)
     \<and> Live_ptr \<notin> {push_ptr a', pull_ptr a', path_ptr a', name_ptr a'} \<and> \<not> log_thread_instance p'
     \<and> s'' = s'\<lparr>tabs := tabs s''\<rparr>)"
proof (cases "run_calls cs s = Inl Tab_overflow")
  case False
  have o: "api_ok (calls_need (lens_of s) (shf_hash_key s) cs + n) s" using assms by (simp add: api_ok_def)
  obtain rs s' where r: "run_calls cs s = Inr (rs, s')" "shf_ok s'"
    using calls_go_on [OF o assms(5)] False by (auto simp: api_ok_def)
  have b: "balanced 1 {} s'" using heldD(1) [OF calls_held [OF r(1) assms(3)]] .
  obtain p' where l: "detach_log m p = Inr (Some p')" "\<not> log_thread_instance p'" using detach_log_ok [OF log] by blast
  obtain a' where q: "q_free a = Inr a'" "path_ptr a' = Live_ptr" "name_ptr a' = Live_ptr" "count_xalloc a' = 2"
    "push_ptr a' \<noteq> Live_ptr" "pull_ptr a' \<noteq> Live_ptr"
    using a by (auto simp: q_free_simps) (simp_all add: attach_allocs_def)
  have "off_mmap (tabs (unmapped (maps_of s') s') w t) = 0" for w t by (simp add: maps_of_def)
  then show ?thesis using r(1) detach_ok [OF r(2) b l(1) q(1-3)] q(4-6) l(2)
    by (intro disjI2 exI [of _ rs] exI [of _ s'] exI [of _ "unmapped (maps_of s') s'"] exI [of _ p']
        exI [of _ "a'\<lparr>path_ptr := Freed_ptr, name_ptr := Freed_ptr\<rparr>"]) (simp add: unmapped_def)
qed simp

text \<open>
  C20. The bookkeeping of mappings and allocations adds up: a process that starts with as many mappings as
  it counts, makes any legal sequence of calls of the interface, with or without queues, and then
  detaches, trips none of the assertions of \<open>shf_detach\<close>. It leaves no mapping and no allocated memory
  behind, the files stay as they are, and the log no longer goes to the instance.
\<close>

theorem detach_after_calls:
  assumes "shf_ok s" "shf_upd_callback_failsafe s = 0" "balanced 1 {} s"
    and "shf_room (calls_need (lens_of s) (shf_hash_key s) cs + n) s" "calls_legal (lens_of s) (shf_hash_key s) cs"
    and log: "log_thread_active p = 0 \<or> log_thread_instance p \<and> log_stopped m \<noteq> 0"
    and a: "a = attach_allocs \<or> a = q_alloc attach_allocs"
  shows "run_calls cs s = Inl Tab_overflow \<or> (\<exists>rs s' s'' a' p'. run_calls cs s = Inr (rs, s')
     \<and> shf_detach m (s', a, p) = Inr (Some (s'', a', p')) \<and> (\<forall>w t. off_mmap (tabs s'' w t) = 0)
     \<and> Live_ptr \<notin> {push_ptr a', pull_ptr a', path_ptr a', name_ptr a'} \<and> \<not> log_thread_instance p'
     \<and> s'' = s'\<lparr>tabs := tabs s''\<rparr>)"
  using detach_calls [OF assms] .

theorem detach_after_calls_witness:
  "let cs = [Make_hash [97], Put_key_val (Some [1, 2, 3]) 3, Get_key_val_copy, Del_key_val];
       p = \<lparr>lp_log = None, log_thread_active = 0, log_thread_instance = False, lp_thread = fresh_thread\<rparr> in
     run_calls cs fresh = Inl Tab_overflow \<or> (\<exists>rs s' s'' a' p'. run_calls cs fresh = Inr (rs, s')
       \<and> shf_detach (log_new 100 1) (s', q_alloc attach_allocs, p) = Inr (Some (s'', a', p')) \<and> push_ptr a' \<noteq> Live_ptr)"
proof -
  let ?cs = "[Make_hash [97], Put_key_val (Some [1, 2, 3]) 3, Get_key_val_copy, Del_key_val]"
  let ?p = "\<lparr>lp_log = None, log_thread_active = 0, log_thread_instance = False, lp_thread = fresh_thread\<rparr>"
  have "calls_need (lens_of fresh) (shf_hash_key fresh) ?cs + 0 < 2147000000" by (simp add: data_needed_def)
  then have "shf_room (calls_need (lens_of fresh) (shf_hash_key fresh) ?cs + 0) fresh" by (intro attach_room) simp_all
  from detach_after_calls [OF attach_ok _ attach_balanced this, of ?p "log_new 100 1" "q_alloc attach_allocs"]
  show ?thesis by (fastforce simp: Let_def fits_def)
qed

lemma detach_freed_q:
  "\<exists>a. q_free (q_alloc attach_allocs) = Inr a
    \<and> shf_detach m (s, a, p\<lparr>log_thread_active := 0, log_thread_instance := False\<rparr>) = Inl Double_free"
proof -
  have "detach_log m (p\<lparr>log_thread_active := 0, log_thread_instance := False\<rparr>)
      = Inr (Some (p\<lparr>log_thread_active := 0, log_thread_instance := False\<rparr>))" by (simp add: detach_log_def)
  note l = this
  have f: "q_free (attach_allocs\<lparr>push_ptr := Freed_ptr, pull_ptr := Freed_ptr\<rparr>) = Inl Double_free"
    by (simp add: q_free_def free_ptr_def)
  show ?thesis unfolding q_free_simps(2) shf_detach_def prod.case l bindE.simps option.case using f by auto
qed

text \<open>
  C39. Two ways of ending that fail: \<open>shf_detach\<close> after \<open>shf_q_del\<close> frees the private queues again, because
  \<open>shf_q_del\<close> leaves the pointers as they are; and a process that sets up its private queues twice, as with
  \<open>shf_q_new\<close> and then \<open>shf_q_get\<close>, loses the first ones and trips the last assertion of \<open>shf_detach\<close>.
\<close>

theorem detach_after_q_del:
  "(\<exists>a. q_free (q_alloc attach_allocs) = Inr a
      \<and> shf_detach m (s, a, p\<lparr>log_thread_active := 0, log_thread_instance := False\<rparr>) = Inl Double_free)
   \<and> shf_detach m (shf_attach v, q_alloc (q_alloc attach_allocs), p\<lparr>log_thread_active := 0, log_thread_instance := False\<rparr>)
      = Inl Count_mismatch"
proof
  let ?p = "p\<lparr>log_thread_active := 0, log_thread_instance := False\<rparr>"
  have l: "detach_log m ?p = Inr (Some ?p)" by (simp add: detach_log_def)
  show "\<exists>a. q_free (q_alloc attach_allocs) = Inr a \<and> shf_detach m (s, a, ?p) = Inl Double_free" by (rule detach_freed_q)
  let ?b = "attach_allocs\<lparr>push_ptr := Freed_ptr, pull_ptr := Freed_ptr, count_xalloc := 4\<rparr>"
  have e: "path_ptr ?b = Live_ptr" "name_ptr ?b = Live_ptr" "count_xalloc ?b \<noteq> 2" by (simp_all add: attach_allocs_def)
  show "shf_detach m (shf_attach v, q_alloc (q_alloc attach_allocs), ?p) = Inl Count_mismatch"
    unfolding detach_ok [OF attach_ok attach_balanced l q_free_simps(3) e(1,2)] using e(3) by (rule if_not_P)
qed

end
