(* ===== verification/Shf_Multi.thy ===== *)
theory Shf_Multi
  imports Shf_Detach
begin

text \<open>
  Any number of processes that call the key and value interface at the same time. A call takes the lock
  of a window, does its work and gives the lock back, so what runs under the lock is one step; a counter
  that is added to takes two such steps, and others may come between. What the processes share is one
  component of the state, and each has its own mappings and thread local variables.

  A copy of a value is the exception. It only holds the lock of a reader, and it may go on to shrink the
  table (\<open>shf_tab_shrink\<close> from \<open>shf_find_key_internal\<close>), while other readers are at work there. Then it is not
  one step, and the model ends with \<open>Reader_shrinks\<close>; \<open>Shf_ShrinkRace\<close> follows two of them further. The copy
  of a key shrinks too, but under the lock of a writer.
\<close>

section \<open>The locked sections of a call\<close>

datatype todo = Nothing | Del_key | Del_uid nat | Put_key "64 word"

definition copies_val :: "api_call \<Rightarrow> bool" where
  "copies_val c \<longleftrightarrow> (case c of Get_key_val_copy \<Rightarrow> True | Get_uid_val_copy uid \<Rightarrow> True | _ \<Rightarrow> False)"

text \<open>A shrink is what gives a path a new file during a call that puts nothing.\<close>

fun begin_call :: "api_call \<Rightarrow> shf \<Rightarrow> shf_error + todo \<times> shf" where
  "begin_call (Add_key_val add) s =
     bindE (shf_add_key_val_atom add s) (\<lambda>(result, s).
     Inr (if result = SHF_RET_KEY_FOUND then if shf_val_long s = 0 then Del_key else Nothing
          else if result = SHF_RET_KEY_NONE then Put_key add else Nothing, s))"
| "begin_call (Add_uid_val uid add) s =
     bindE (shf_add_uid_val_atom uid add s) (\<lambda>(result, s).
     Inr (if result = SHF_RET_KEY_FOUND \<and> shf_val_long s = 0 then Del_uid uid else Nothing, s))"
| "begin_call c s =
     bindE (run_call c s) (\<lambda>(_, s').
     bindE (assertE (copies_val c \<longrightarrow> next_inode s' = next_inode s) Reader_shrinks) (\<lambda>_. Inr (Nothing, s')))"

fun end_call :: "todo \<Rightarrow> shf \<Rightarrow> shf_error + shf" where
  "end_call Nothing s = Inr s"
| "end_call Del_key s = bindE (shf_del_key_val s) (\<lambda>(_, s). Inr s)"
| "end_call (Del_uid uid) s = bindE (shf_del_uid_val uid s) (\<lambda>(_, s). Inr s)"
| "end_call (Put_key add) s =
     bindE (shf_put_key_val (Some (long_bytes add)) 8 s) (\<lambda>(_, s). Inr (s\<lparr>shf_val_long := add\<rparr>))"

lemma begin_other:
  assumes "\<forall>add. c \<noteq> Add_key_val add" "\<forall>uid add. c \<noteq> Add_uid_val uid add"
  shows "begin_call c s = bindE (run_call c s) (\<lambda>(_, s').
     bindE (assertE (copies_val c \<longrightarrow> next_inode s' = next_inode s) Reader_shrinks) (\<lambda>_. Inr (Nothing, s')))"
  using assms by (cases c) simp_all

text \<open>With nothing between them the sections make up the call.\<close>

lemma call_sections:
  assumes "begin_call c s \<noteq> Inl Reader_shrinks"
  shows "bindE (begin_call c s) (\<lambda>(t, s). end_call t s) = bindE (run_call c s) (\<lambda>(_, s). Inr s)"
proof -
  have assoc: "bindE (bindE m f) g = bindE m (\<lambda>x. bindE (f x) g)" for m :: "shf_error + 'a" and f :: "'a \<Rightarrow> shf_error + 'b"
    and g :: "'b \<Rightarrow> shf_error + 'c" by (cases m) simp_all
  have n: "SHF_RET_KEY_NONE \<noteq> SHF_RET_KEY_FOUND" by (simp add: shf_ret)
  show ?thesis
  proof (cases "(\<forall>add. c \<noteq> Add_key_val add) \<and> (\<forall>uid add. c \<noteq> Add_uid_val uid add)")
    case True
    then show ?thesis using assms begin_other [of c s] by (cases "run_call c s") (auto simp: assertE_def split: if_splits)
  next
    case False
    then show ?thesis using n
      by (auto simp: shf_add_key_val_def shf_add_uid_val_def assoc case_prod_unfold
          intro!: arg_cong [of _ _ "bindE (shf_add_key_val_atom _ s)"] arg_cong [of _ _ "bindE (shf_add_uid_val_atom _ _ s)"] ext)
  qed
qed

fun todo_legal :: "lens \<Rightarrow> byte list \<Rightarrow> todo \<Rightarrow> bool" where
  "todo_legal L key (Put_key add) = fits L key (Some (long_bytes add)) 8"
| "todo_legal L key _ = True"

fun todo_need :: "lens \<Rightarrow> byte list \<Rightarrow> todo \<Rightarrow> nat" where
  "todo_need L key (Put_key add) = data_needed (len_len L) (length key) 8"
| "todo_need L key _ = 0"

lemma begin_goes_on:
  assumes ok: "api_ok (call_need (lens_of s) (shf_hash_key s) c + n) s" and legal: "call_legal (lens_of s) (shf_hash_key s) c"
  shows "begin_call c s = Inl Tab_overflow \<or> begin_call c s = Inl Reader_shrinks \<and> copies_val c \<or> (\<exists>t s'. begin_call c s = Inr (t, s')
     \<and> api_ok (todo_need (lens_of s) (key_after (shf_hash_key s) c) t + n) s' \<and> maps_kept s s' \<and> lens_of s' = lens_of s
     \<and> shf_hash_key s' = key_after (shf_hash_key s) c \<and> todo_legal (lens_of s) (key_after (shf_hash_key s) c) t)"
proof -
  have atom: "\<exists>r s1. shf_find_key_internal uid SHF_FIND_KEY_OR_UID_AND_ATOM_ADD no_upd (s\<lparr>shf_val_long := add\<rparr>) = Inr (r, s1)
      \<and> goes_on m s s1" if "api_ok m s" for uid add m
  proof -
    have g: "goes_on m s (s\<lparr>shf_val_long := add\<rparr>)" using that by (intro thread_goes_on) (simp_all add: same_store_def)
    then have "api_ok m (s\<lparr>shf_val_long := add\<rparr>)" by (simp add: goes_on_def)
    then show ?thesis using find_goes_on [of m "s\<lparr>shf_val_long := add\<rparr>" no_upd] goes_on_trans [OF g] by (fastforce simp: no_upd_def)
  qed
  consider (key) add where "c = Add_key_val add" | (uid) uid add where "c = Add_uid_val uid add"
    | (other) "(\<forall>add. c \<noteq> Add_key_val add) \<and> (\<forall>uid add. c \<noteq> Add_uid_val uid add)" by blast
  then show ?thesis
  proof cases
    case (key add)
    obtain r s1 where "shf_add_key_val_atom add s = Inr (r, s1)" "goes_on (call_need (lens_of s) (shf_hash_key s) c + n) s s1"
      using atom [OF ok, of SHF_UID_NONE add] unfolding shf_add_key_val_atom_def by blast
    then show ?thesis using key legal api_less [of _ s1 n] by (auto simp: goes_on_def)
  next
    case (uid uid add)
    obtain r s1 where "shf_add_uid_val_atom uid add s = Inr (r, s1)" "goes_on (call_need (lens_of s) (shf_hash_key s) c + n) s s1"
      using atom [OF ok, of uid add] unfolding shf_add_uid_val_atom_def by blast
    then show ?thesis using uid by (auto simp: goes_on_def)
  next
    case other
    note b = begin_other [of c s]
    from call_goes_on [OF ok legal] show ?thesis
    proof (elim disjE exE conjE)
      fix r s' assume s': "run_call c s = Inr (r, s')" "api_ok n s'" "maps_kept s s'" "lens_of s' = lens_of s"
        "shf_hash_key s' = key_after (shf_hash_key s) c"
      then show ?thesis using b other by (cases "copies_val c \<longrightarrow> next_inode s' = next_inode s") (auto simp: assertE_def)
    qed (use b other in simp)
  qed
qed

lemma end_goes_on:
  assumes ok: "api_ok (todo_need (lens_of s) (shf_hash_key s) t + n) s" and legal: "todo_legal (lens_of s) (shf_hash_key s) t"
  shows "end_call t s = Inl Tab_overflow \<or> (\<exists>s'. end_call t s = Inr s' \<and> api_ok n s' \<and> maps_kept s s' \<and> lens_of s' = lens_of s
     \<and> shf_hash_key s' = shf_hash_key s)"
proof -
  have no: "\<forall>v. length (snd (no_upd v)) = length v" by (simp add: no_upd_def)
  show ?thesis
  proof (cases t)
    case (Put_key add)
    have p: "goes_on n s' (s'\<lparr>shf_val_long := add\<rparr>)" if "goes_on n s s'" for s'
      using that by (intro thread_goes_on) (simp_all add: same_store_def goes_on_def)
    show ?thesis using put_goes_on [of s 8 n "Some (long_bytes add)"] ok legal goes_on_trans [OF _ p]
      by (fastforce simp: Put_key goes_on_def)
  qed (use ok find_goes_on [of n s no_upd, OF _ no] in
      \<open>fastforce simp: shf_del_key_val_def shf_del_uid_val_def goes_on_def maps_kept_def\<close>)+
qed

lemma begin_held:
  assumes "begin_call c s = Inr (t, s')" "balanced k X s"
  shows "held k X s s'"
proof (cases "(\<forall>add. c \<noteq> Add_key_val add) \<and> (\<forall>uid add. c \<noteq> Add_uid_val uid add)")
  case True
  then obtain r where "run_call c s = Inr (r, s')" using assms(1) begin_other [of c s] by auto
  then show ?thesis using assms(2) by (rule call_held)
next
  case False
  then show ?thesis using assms atom_held by (auto simp: shf_add_key_val_atom_def shf_add_uid_val_atom_def)
qed

lemma end_held:
  assumes "end_call t s = Inr s'" "balanced k X s"
  shows "held k X s s'"
proof (cases t)
  case Nothing
  then show ?thesis using assms by (simp add: held_def)
next
  case (Put_key add)
  then obtain r s1 where "put_loop put_fuel (Some (long_bytes add)) 8 s = Inr (r, s1)" "s' = s1\<lparr>shf_val_long := add\<rparr>"
    using assms(1) by (auto simp: shf_put_key_val_def)
  then show ?thesis using held_even [OF put_held [OF _ assms(2)] thread_even] by simp
qed (use assms find_held in \<open>auto simp: shf_del_key_val_def shf_del_uid_val_def\<close>)

section \<open>Processes\<close>

text \<open>
  A process has its own part of the state, the section that is left of the call it is in, and the calls it
  has yet to make. The shared part of \<open>view\<close> is out of date until the process takes its turn.
\<close>

record process =
  view :: shf
  todo :: todo
  script :: "api_call list"

record cluster =
  common :: shm
  processes :: "nat \<Rightarrow> process"

definition put_shm :: "shm \<Rightarrow> shf \<Rightarrow> shf" where
  "put_shm m s = s\<lparr>tab_file := tab_file m, inode := inode m, fsize := fsize m, next_inode := next_inode m,
     vfs_available := vfs_available m, wins := wins m\<rparr>"

definition go_on :: "process \<Rightarrow> shf_error + process" where
  "go_on P = (if todo P \<noteq> Nothing then bindE (end_call (todo P) (view P)) (\<lambda>s. Inr (P\<lparr>view := s, todo := Nothing\<rparr>))
     else case script P of [] \<Rightarrow> Inr P
       | c # cs \<Rightarrow> bindE (begin_call c (view P)) (\<lambda>(t, s). Inr \<lparr>view = s, todo = t, script = cs\<rparr>))"

definition current_view :: "cluster \<Rightarrow> nat \<Rightarrow> shf" where
  "current_view st p = put_shm (common st) (view (processes st p))"

definition turn :: "nat \<Rightarrow> cluster \<Rightarrow> shf_error + cluster" where
  "turn p st = bindE (go_on ((processes st p)\<lparr>view := current_view st p\<rparr>)) (\<lambda>P.
     Inr \<lparr>common = shm.truncate (view P), processes = (processes st)(p := P)\<rparr>)"

primrec run_turns :: "nat list \<Rightarrow> cluster \<Rightarrow> shf_error + cluster" where
  "run_turns [] st = Inr st"
| "run_turns (p # ps) st = bindE (turn p st) (run_turns ps)"

definition turns_left :: "process \<Rightarrow> nat" where
  "turns_left P = 2 * length (script P) + (if todo P = Nothing then 0 else 1)"

definition process_need :: "lens \<Rightarrow> process \<Rightarrow> nat" where
  "process_need L P = todo_need L (shf_hash_key (view P)) (todo P) + calls_need L (shf_hash_key (view P)) (script P)"

definition process_ok :: "lens \<Rightarrow> nat \<Rightarrow> nat \<Rightarrow> process \<Rightarrow> bool" where
  "process_ok L f n P \<longleftrightarrow> api_ok n (view P) \<and> balanced 1 {} (view P) \<and> lens_of (view P) = L \<and> shf_data_needed_factor (view P) = f
     \<and> todo_legal L (shf_hash_key (view P)) (todo P) \<and> calls_legal L (shf_hash_key (view P)) (script P)"

lemma go_on_ok:
  assumes ok: "process_ok L f (process_need L P + n) P"
  shows "go_on P = Inl Tab_overflow \<or> go_on P = Inl Reader_shrinks \<and> (\<exists>c \<in> set (script P). copies_val c)
     \<or> (\<exists>P'. go_on P = Inr P' \<and> process_ok L f (process_need L P' + n) P'
     \<and> maps_kept (view P) (view P') \<and> turns_left P' \<le> turns_left P - 1 \<and> set (script P') \<subseteq> set (script P))"
proof -
  let ?s = "view P"
  have P: "api_ok (process_need L P + n) ?s" "balanced 1 {} ?s" "lens_of ?s = L" "shf_data_needed_factor ?s = f"
    "todo_legal L (shf_hash_key ?s) (todo P)" "calls_legal L (shf_hash_key ?s) (script P)"
    using ok by (simp_all add: process_ok_def)
  show ?thesis
  proof (cases "todo P = Nothing")
    case False
    have "api_ok (todo_need L (shf_hash_key ?s) (todo P) + (calls_need L (shf_hash_key ?s) (script P) + n)) ?s"
      using P(1) by (simp add: process_need_def add.assoc)
    from end_goes_on [of ?s "todo P", unfolded P(3), OF this P(5)] show ?thesis
    proof (elim disjE exE conjE)
      fix s' assume s': "end_call (todo P) ?s = Inr s'" "api_ok (calls_need L (shf_hash_key ?s) (script P) + n) s'"
        "maps_kept ?s s'" "lens_of s' = L" "shf_hash_key s' = shf_hash_key ?s"
      have "held 1 {} ?s s'" by (rule end_held [OF s'(1) P(2)])
      then have "balanced 1 {} s' \<and> shf_data_needed_factor s' = f" using P(4) by (simp add: held_def)
      then show ?thesis using False s' P(6) by (simp add: go_on_def process_ok_def process_need_def turns_left_def)
    qed (simp add: go_on_def False)
  next
    case True
    show ?thesis
    proof (cases "script P")
      case Nil
      then show ?thesis using True ok by (simp add: go_on_def turns_left_def maps_kept_def)
    next
      case (Cons c cs)
      let ?k = "key_after (shf_hash_key ?s) c"
      have a: "api_ok (call_need L (shf_hash_key ?s) c + (calls_need L ?k cs + n)) ?s" "call_legal L (shf_hash_key ?s) c"
        using P(1,6) by (simp_all add: process_need_def True Cons add.assoc)
      from begin_goes_on [of ?s c, unfolded P(3), OF a] show ?thesis
      proof (elim disjE exE conjE)
        fix t s' assume s': "begin_call c ?s = Inr (t, s')" "api_ok (todo_need L ?k t + (calls_need L ?k cs + n)) s'"
          "maps_kept ?s s'" "lens_of s' = L" "shf_hash_key s' = ?k" "todo_legal L ?k t"
        have "held 1 {} ?s s'" by (rule begin_held [OF s'(1) P(2)])
        then have "balanced 1 {} s' \<and> shf_data_needed_factor s' = f" using P(4) by (simp add: held_def)
        then show ?thesis using True Cons s' P(6)
          by (simp add: go_on_def process_ok_def process_need_def turns_left_def add.assoc subset_insertI)
      qed (simp_all add: go_on_def True Cons)
    qed
  qed
qed

text \<open>What one process does leaves the others in order.\<close>

lemma put_shm_simps [simp]:
  "tab_file (put_shm m s) = tab_file m" "inode (put_shm m s) = inode m" "fsize (put_shm m s) = fsize m"
  "next_inode (put_shm m s) = next_inode m" "vfs_available (put_shm m s) = vfs_available m" "wins (put_shm m s) = wins m"
  "tabs (put_shm m s) = tabs s" "count_mmap (put_shm m s) = count_mmap s" "lens_of (put_shm m s) = lens_of s"
  "shf_hash_key (put_shm m s) = shf_hash_key s" "the_hash (put_shm m s) = the_hash s" "shf_ttl (put_shm m s) = shf_ttl s"
  "shf_data_needed_factor (put_shm m s) = shf_data_needed_factor s" "put_shm m (put_shm m' s) = put_shm m s"
  "shf_upd_callback_failsafe (put_shm m s) = shf_upd_callback_failsafe s" "put_shm (shm.truncate s) s = s"
  by (simp_all add: put_shm_def lens_of_def shm.truncate_def)

lemma truncate_simps [simp]:
  "tab_file (shm.truncate s) = tab_file s" "inode (shm.truncate s) = inode s" "fsize (shm.truncate s) = fsize s"
  "next_inode (shm.truncate s) = next_inode s" "vfs_available (shm.truncate s) = vfs_available s" "wins (shm.truncate s) = wins s"
  by (simp_all add: shm.truncate_def)

lemma attached_view: "lens_of t = lens_of s \<Longrightarrow> attached_to s (put_shm (shm.truncate s) t)"
  by (simp add: attached_to_def)

lemma attached_room:
  assumes "attached_to s t" "shf_data_needed_factor t = shf_data_needed_factor s"
  shows "shf_room n t = shf_room n s"
proof -
  have "table t = table s" using assms(1) by (simp add: attached_to_def table_def fun_eq_iff split: option.split)
  then show ?thesis using assms by (simp add: shf_room_def room_def attached_to_def)
qed

lemma other_ok:
  assumes s: "api_ok n s'" "maps_kept s s'" "lens_of s' = L" "shf_data_needed_factor s' = f"
    and t: "process_ok L f m (T\<lparr>view := put_shm (shm.truncate s) (view T)\<rparr>)"
  shows "process_ok L f n (T\<lparr>view := put_shm (shm.truncate s') (view T)\<rparr>)"
proof -
  let ?t = "put_shm (shm.truncate s') (view T)" and ?u = "put_shm (shm.truncate s) (view T)"
  have T: "api_ok m ?u" "balanced 1 {} ?u" "lens_of (view T) = L" "shf_data_needed_factor (view T) = f"
    using t by (simp_all add: process_ok_def)
  have S: "shf_ok s'" "shf_room n s'" using s(1) by (simp_all add: api_ok_def)
  have a: "attached_to s' ?t" by (rule attached_view) (simp add: T(3) s(3))
  have "coherent ?u (tabs ?u)" using T(1) by (intro shf_okD(4)) (simp add: api_ok_def)
  then have "coherent s (tabs ?t)" by (simp add: coherent_def mapping_ok_def)
  then have "coherent s' (tabs ?t)" using s(2) by (simp add: maps_kept_def)
  then have "shf_ok ?t" by (rule attached_ok(1) [OF a S(1)])
  moreover have "shf_room n ?t" using S(2) by (subst attached_room [OF a]) (simp_all add: T(4) s(4))
  moreover have "maps_of ?t = maps_of ?u" by (simp add: maps_of_def)
  then have "balanced 1 {} ?t" using T(2) files_okD(1,9) [OF shf_okD(2) [OF S(1)]] by (simp add: balanced_def)
  ultimately show ?thesis using T t by (simp add: process_ok_def api_ok_def)
qed

text \<open>Whether a process has a value yet to copy.\<close>

definition may_copy :: "nat \<Rightarrow> cluster \<Rightarrow> bool" where
  "may_copy N st \<longleftrightarrow> (\<exists>p < N. \<exists>c \<in> set (script (processes st p)). copies_val c)"

text \<open>All of \<open>N\<close> processes are in order, with memory for what they all have yet to put and \<open>k\<close> bytes more.\<close>

definition cluster_ok :: "nat \<Rightarrow> lens \<Rightarrow> nat \<Rightarrow> nat \<Rightarrow> cluster \<Rightarrow> bool" where
  "cluster_ok N L f k st \<longleftrightarrow> (\<forall>p < N. process_ok L f ((\<Sum>q < N. process_need L (processes st q)) + k)
     ((processes st p)\<lparr>view := current_view st p\<rparr>))"

lemma turn_ok:
  assumes ok: "cluster_ok N L f k st" and p: "p < N"
  shows "turn p st = Inl Tab_overflow \<or> turn p st = Inl Reader_shrinks \<and> (\<exists>c \<in> set (script (processes st p)). copies_val c)
     \<or> (\<exists>st'. turn p st = Inr st' \<and> cluster_ok N L f k st' \<and> set (script (processes st' p)) \<subseteq> set (script (processes st p))
     \<and> turns_left (processes st' p) \<le> turns_left (processes st p) - 1 \<and> (\<forall>q. q \<noteq> p \<longrightarrow> processes st' q = processes st q))"
proof -
  let ?P = "(processes st p)\<lparr>view := current_view st p\<rparr>"
  let ?rest = "(\<Sum>q \<in> {..<N} - {p}. process_need L (processes st q))"
  have need: "process_need L ?P = process_need L (processes st p)" by (simp add: process_need_def current_view_def)
  have sum: "(\<Sum>q < N. process_need L (processes st q)) = process_need L ?P + ?rest"
    unfolding need using p by (subst sum.remove [of _ p]) simp_all
  have "process_ok L f (process_need L ?P + (?rest + k)) ?P" using ok p unfolding cluster_ok_def sum by (simp add: add.assoc)
  from go_on_ok [OF this] show ?thesis
  proof (elim disjE exE conjE)
    fix P' assume P': "go_on ?P = Inr P'" "process_ok L f (process_need L P' + (?rest + k)) P'"
      "maps_kept (view ?P) (view P')" "turns_left P' \<le> turns_left ?P - 1" "set (script P') \<subseteq> set (script ?P)"
    let ?st = "\<lparr>common = shm.truncate (view P'), processes = (processes st)(p := P')\<rparr>"
    have sum': "(\<Sum>q < N. process_need L (processes ?st q)) = process_need L P' + ?rest"
      using p by (subst sum.remove [of _ p]) simp_all
    have "process_ok L f (process_need L P' + (?rest + k)) ((processes ?st q)\<lparr>view := current_view ?st q\<rparr>)" if q: "q < N" for q
    proof (cases "q = p")
      case True
      then show ?thesis using P'(2) by (simp add: current_view_def)
    next
      case False
      have v: "api_ok (process_need L P' + (?rest + k)) (view P')" "lens_of (view P') = L" "shf_data_needed_factor (view P') = f"
        using P'(2) by (simp_all add: process_ok_def)
      have "put_shm (shm.truncate (view ?P)) t = put_shm (common st) t" for t
        by (simp add: current_view_def put_shm_def shm.truncate_def)
      then have "process_ok L f ((\<Sum>q < N. process_need L (processes st q)) + k)
          ((processes st q)\<lparr>view := put_shm (shm.truncate (view ?P)) (view (processes st q))\<rparr>)"
        using ok q by (simp add: cluster_ok_def current_view_def)
      from other_ok [OF v(1) P'(3) v(2,3) this] show ?thesis using False by (simp add: current_view_def)
    qed
    then have "cluster_ok N L f k ?st" unfolding cluster_ok_def sum' by (simp add: add.assoc)
    then show ?thesis using P'(1,4,5) by (auto simp: turn_def turns_left_def)
  qed (simp_all add: turn_def)
qed

lemma run_turns_ok:
  assumes "cluster_ok N L f k st" "set ps \<subseteq> {..<N}"
  shows "run_turns ps st = Inl Tab_overflow \<or> run_turns ps st = Inl Reader_shrinks \<and> may_copy N st
     \<or> (\<exists>st'. run_turns ps st = Inr st' \<and> cluster_ok N L f k st'
     \<and> (\<forall>q. turns_left (processes st' q) \<le> turns_left (processes st q) - count_list ps q))"
  using assms
proof (induction ps arbitrary: st)
  case (Cons p ps)
  have p: "p < N" using Cons.prems(2) by simp
  from turn_ok [OF Cons.prems(1) p] show ?case
  proof (elim disjE exE conjE)
    fix s1 assume s1: "turn p st = Inr s1" "cluster_ok N L f k s1" "turns_left (processes s1 p) \<le> turns_left (processes st p) - 1"
      "\<forall>q. q \<noteq> p \<longrightarrow> processes s1 q = processes st q" "set (script (processes s1 p)) \<subseteq> set (script (processes st p))"
    have "set (script (processes s1 q)) \<subseteq> set (script (processes st q))" for q using s1(4,5) by (cases "q = p") simp_all
    then have m: "may_copy N s1 \<Longrightarrow> may_copy N st" unfolding may_copy_def by blast
    have "turns_left (processes s1 q) - count_list ps q \<le> turns_left (processes st q) - count_list (p # ps) q" for q
      using s1(3,4) by (cases "q = p") auto
    then have le: "x \<le> turns_left (processes s1 q) - count_list ps q \<Longrightarrow> x \<le> turns_left (processes st q) - count_list (p # ps) q"
      for x q using le_trans by blast
    from Cons.IH [OF s1(2)] Cons.prems(2) show ?thesis
    proof (elim meta_impE disjE exE conjE)
      fix st' assume "run_turns ps s1 = Inr st'" "cluster_ok N L f k st'"
        "\<forall>q. turns_left (processes st' q) \<le> turns_left (processes s1 q) - count_list ps q"
      then show ?thesis using s1(1) le by (intro disjI2 exI [of _ st']) simp
    qed (use m in \<open>simp_all add: s1(1)\<close>)
  qed (use p in \<open>auto simp: may_copy_def\<close>)
qed simp

section \<open>What any interleaving keeps\<close>

text \<open>A process in order reads all that is stored and can detach.\<close>

lemma view_in_order:
  assumes "cluster_ok N L f k st" "p < N"
  obtains n where "shf_ok (current_view st p)" "shf_room n (current_view st p)" "balanced 1 {} (current_view st p)"
    "lens_of (current_view st p) = L" "kv L (current_view st p) = kv L (common st)"
proof -
  let ?v = "current_view st p"
  have "table ?v = table (common st)" by (simp add: current_view_def table_def fun_eq_iff split: option.split)
  then have "kv L ?v = kv L (common st)" by (simp add: kv_def current_view_def fun_eq_iff)
  then show ?thesis using that assms by (auto simp: cluster_ok_def process_ok_def api_ok_def)
qed

lemma view_reads:
  assumes "cluster_ok N L f k st" "p < N" "uid \<noteq> SHF_UID_NONE" "kv L (common st) (uid_coord uid) = Some (rnd, key, v)"
  shows "\<exists>s. shf_get_uid_val_copy uid (current_view st p) = Inr (SHF_RET_KEY_FOUND, s) \<and> shf_val s = v"
proof -
  obtain n where v: "shf_ok (current_view st p)" "shf_room n (current_view st p)" "lens_of (current_view st p) = L"
    "kv L (current_view st p) = kv L (common st)" by (rule view_in_order [OF assms(1,2)])
  then show ?thesis using get_uid_copy(1) [OF v(1,2) assms(3), of rnd key v] assms(4) by auto
qed

lemma view_detaches:
  assumes "cluster_ok N L f k st" "p < N" "log_thread_active l = 0"
  shows "\<exists>s a l'. shf_detach m (current_view st p, attach_allocs, l) = Inr (Some (s, a, l')) \<and> maps_of s = {}"
proof -
  obtain n where v: "shf_ok (current_view st p)" "balanced 1 {} (current_view st p)" by (rule view_in_order [OF assms(1,2)])
  obtain l' where "detach_log m l = Inr (Some l')" using detach_log_ok [of l m] assms(3) by auto
  from detach_ok [OF v this q_free_simps(1)] show ?thesis by (simp add: attach_allocs_def maps_of_def)
qed

text \<open>
  C4. Processes do not get in each other's way: whatever calls any number of processes make, and in
  whatever order their locked sections come, none trips an assertion other than the one of a window that
  has all its tables, as long as no copy of a value shrinks a table. With such a shrink, which needs a process
  that copies values, the model ends: it is no single step, and two of them can lose records. Without one
  a process with calls left makes progress at each of its turns. After any number of turns each process
  that then calls alone reads every stored record, and can detach: its mappings are as many as it has counted.
\<close>

theorem processes_never_assert:
  assumes "cluster_ok N L f k st" "set ps \<subseteq> {..<N}"
  shows "run_turns ps st = Inl Tab_overflow
   \<or> run_turns ps st = Inl Reader_shrinks \<and> (\<exists>p < N. \<exists>c \<in> set (script (processes st p)). copies_val c)
   \<or> (\<exists>st'. run_turns ps st = Inr st' \<and> cluster_ok N L f k st' \<and> (\<forall>p < N.
     turns_left (processes st' p) \<le> turns_left (processes st p) - count_list ps p
     \<and> (\<forall>uid rnd key v. uid \<noteq> SHF_UID_NONE \<and> kv L (common st') (uid_coord uid) = Some (rnd, key, v) \<longrightarrow>
          (\<exists>s. shf_get_uid_val_copy uid (current_view st' p) = Inr (SHF_RET_KEY_FOUND, s) \<and> shf_val s = v))
     \<and> (\<forall>m l. log_thread_active l = 0 \<longrightarrow>
          (\<exists>s a l'. shf_detach m (current_view st' p, attach_allocs, l) = Inr (Some (s, a, l')) \<and> maps_of s = {}))))"
  using run_turns_ok [OF assms]
proof (elim disjE exE conjE)
  fix st' assume st': "run_turns ps st = Inr st'" "cluster_ok N L f k st'"
    "\<forall>q. turns_left (processes st' q) \<le> turns_left (processes st q) - count_list ps q"
  show ?thesis
    by (intro disjI2 [OF disjI2] exI [of _ st'] conjI allI impI st') (use st'(3) view_reads [OF st'(2)] view_detaches [OF st'(2)] in blast)+
qed (simp_all add: may_copy_def)

section \<open>Counters that several processes add to\<close>

lemma count_cong:
  assumes "same_key s t" "kv (lens_of s) t = kv (lens_of s) s"
  shows "shf_ok t \<Longrightarrow> count_ok s \<Longrightarrow> count_ok t" "key_count t = key_count s"
proof -
  have k: "the_hash t = the_hash s" "shf_hash_key t = shf_hash_key s" "lens_of t = lens_of s" using assms(1) by (simp_all add: same_key_def)
  have e: "key_at t = key_at s" "key_ref t = key_ref s" unfolding key_at_def [abs_def] key_ref_def k assms(2) by (rule refl)+
  show "key_count t = key_count s" unfolding key_count_def e by (rule refl)
  show "shf_ok t \<Longrightarrow> count_ok s \<Longrightarrow> count_ok t" using assms(1) by (simp add: count_ok_def e same_key_def)
qed

lemma count_view:
  assumes "cluster_ok N L f k st" "p < N" "q < N" "same_key (current_view st p) (current_view st q)" "count_ok (current_view st p)"
  shows "count_ok (current_view st q)" "key_count (current_view st q) = key_count (current_view st p)"
proof -
  have "lens_of (current_view st p) = L" "kv L (current_view st p) = kv L (common st)" using assms(2)
    by (auto elim: view_in_order [OF assms(1)])
  moreover have "shf_ok (current_view st q)" "kv L (current_view st q) = kv L (common st)" using assms(3)
    by (auto elim: view_in_order [OF assms(1)])
  ultimately show "count_ok (current_view st q)" "key_count (current_view st q) = key_count (current_view st p)"
    using count_cong [OF assms(4)] assms(5) by simp_all
qed

lemma atom_begin:
  assumes "count_ok s" "key_count s = Some c"
  shows "\<exists>s'. begin_call (Add_key_val n) s = Inr (if c + n = 0 then Del_key else Nothing, s') \<and> count_ok s'
     \<and> key_count s' = Some (c + n) \<and> same_key s s'"
proof -
  obtain s1 where "shf_add_key_val_atom n s = Inr (SHF_RET_KEY_FOUND, s1)" "shf_val_long s1 = c + n" "count_ok s1"
    "key_count s1 = Some (c + n)" "same_key s s1" using atom_count [OF assms, of n] by blast
  then show ?thesis by (intro exI [of _ s1]) simp
qed

lemma turn_begin:
  assumes "todo (processes st p) = Nothing" "script (processes st p) = c # cs" "begin_call c (current_view st p) = Inr (t, s)"
  shows "turn p st = Inr \<lparr>common = shm.truncate s, processes = (processes st)(p := \<lparr>view = s, todo = t, script = cs\<rparr>)\<rparr>"
  using assms by (simp add: turn_def go_on_def)

lemma turn_end:
  assumes "todo (processes st p) \<noteq> Nothing" "end_call (todo (processes st p)) (current_view st p) = Inr s"
  shows "turn p st = Inr \<lparr>common = shm.truncate s, processes = (processes st)(p := (processes st p)\<lparr>view := s, todo := Nothing\<rparr>)\<rparr>"
  using assms by (simp add: turn_def go_on_def)

lemma same_key_simps [simp]:
  "same_key s s" "same_key (put_shm m s) t = same_key s t" "same_key s (put_shm m t) = same_key s t"
  by (simp_all add: same_key_def)

lemma same_key_trans: "same_key s t \<Longrightarrow> same_key t u \<Longrightarrow> same_key s u" "same_key s t \<Longrightarrow> same_key t s"
  by (simp_all add: same_key_def)

lemma same_key_view:
  assumes "same_key (current_view st p) s"
  shows "same_key (current_view st q) (current_view \<lparr>common = shm.truncate s, processes = (processes st)(p := P\<lparr>view := s\<rparr>)\<rparr> q)"
  using assms by (simp add: current_view_def)

lemma add_turn:
  assumes ok: "cluster_ok N L f k st" and p: "p < N" and c: "count_ok (current_view st p)" "key_count (current_view st p) = Some c"
    and s: "todo (processes st p) = Nothing" "script (processes st p) = Add_key_val n # cs"
  shows "\<exists>st'. turn p st = Inr st' \<and> cluster_ok N L f k st' \<and> count_ok (current_view st' p) \<and> key_count (current_view st' p) = Some (c + n)
     \<and> todo (processes st' p) = (if c + n = 0 then Del_key else Nothing) \<and> script (processes st' p) = cs
     \<and> (\<forall>q. q \<noteq> p \<longrightarrow> processes st' q = processes st q) \<and> (\<forall>q. same_key (current_view st q) (current_view st' q))"
proof -
  obtain s1 where s1: "begin_call (Add_key_val n) (current_view st p) = Inr (if c + n = 0 then Del_key else Nothing, s1)"
    "count_ok s1" "key_count s1 = Some (c + n)" "same_key (current_view st p) s1" using atom_begin [OF c, of n] by blast
  let ?st = "\<lparr>common = shm.truncate s1, processes = (processes st)(p := \<lparr>view = s1, todo = if c + n = 0 then Del_key else Nothing, script = cs\<rparr>)\<rparr>"
  have t: "turn p st = Inr ?st" by (rule turn_begin [OF s s1(1)])
  then have "cluster_ok N L f k ?st" using turn_ok [OF ok p] by auto
  moreover have "current_view ?st p = s1" by (simp add: current_view_def)
  moreover have "same_key (current_view st q) (current_view ?st q)" for q using s1(4) by (simp add: current_view_def)
  ultimately show ?thesis using t s1 by auto
qed

lemma del_turn:
  assumes ok: "cluster_ok N L f k st" and p: "p < N" and c: "count_ok (current_view st p)" "key_count (current_view st p) = Some c"
    and s: "todo (processes st p) = Del_key"
  shows "\<exists>st'. turn p st = Inr st' \<and> cluster_ok N L f k st' \<and> key_count (current_view st' p) = None"
proof -
  obtain s1 where s1: "end_call (todo (processes st p)) (current_view st p) = Inr s1" "key_count s1 = None"
    using del_count [OF c] s by auto
  let ?st = "\<lparr>common = shm.truncate s1, processes = (processes st)(p := (processes st p)\<lparr>view := s1, todo := Nothing\<rparr>)\<rparr>"
  have t: "turn p st = Inr ?st" by (rule turn_end [OF _ s1(1)]) (simp add: s)
  then have "cluster_ok N L f k ?st" using turn_ok [OF ok p] by auto
  moreover have "current_view ?st p = s1" by (simp add: current_view_def)
  ultimately show ?thesis using t s1(2) by auto
qed

text \<open>
  C11. A reference count that two processes use at the same time can be lost: one process takes the count
  down to zero, and before it comes back to delete the key another one adds to it. The key is deleted all
  the same. In the other order the key keeps what the second process has added.
\<close>

theorem reference_lost:
  assumes ok: "cluster_ok N L f k st" and pq: "p < N" "q < N" "p \<noteq> q"
    and c: "count_ok (current_view st p)" "key_count (current_view st p) = Some c" "same_key (current_view st p) (current_view st q)"
    and s: "todo (processes st p) = Nothing" "script (processes st p) = Add_key_val (- c) # cs"
      "todo (processes st q) = Nothing" "script (processes st q) = Add_key_val n # ds" and n: "n \<noteq> 0" "c + n \<noteq> 0"
  shows "\<exists>st1 st2. run_turns [p, q, p] st = Inr st1 \<and> key_count (current_view st1 p) = None
     \<and> run_turns [q, p] st = Inr st2 \<and> key_count (current_view st2 p) = Some n"
proof -
  have first: "\<exists>s1. turn x st = Inr s1 \<and> cluster_ok N L f k s1 \<and> count_ok (current_view s1 y) \<and> key_count (current_view s1 y) = Some (c + m)
      \<and> todo (processes s1 x) = (if c + m = 0 then Del_key else Nothing) \<and> processes s1 y = processes st y
      \<and> same_key (current_view s1 x) (current_view s1 y)"
    if xy: "x < N" "y < N" "x \<noteq> y" "same_key (current_view st x) (current_view st y)" "count_ok (current_view st x)"
      "key_count (current_view st x) = Some c" "todo (processes st x) = Nothing" "script (processes st x) = Add_key_val m # es" for x y m es
  proof -
    obtain s1 where s1: "turn x st = Inr s1" "cluster_ok N L f k s1" "count_ok (current_view s1 x)" "key_count (current_view s1 x) = Some (c + m)"
      "todo (processes s1 x) = (if c + m = 0 then Del_key else Nothing)" "\<forall>q. q \<noteq> x \<longrightarrow> processes s1 q = processes st q"
      "\<forall>q. same_key (current_view st q) (current_view s1 q)" using add_turn [OF ok xy(1,5-8)] by blast
    have k: "same_key (current_view s1 x) (current_view s1 y)" using xy(4) s1(7) same_key_trans by metis
    show ?thesis using s1 k count_view [OF s1(2) xy(1,2) k s1(3)] xy(3) by auto
  qed
  note K = count_view [OF ok pq(1,2) c(3,1)]
  obtain s1 where s1: "turn p st = Inr s1" "cluster_ok N L f k s1" "count_ok (current_view s1 q)" "key_count (current_view s1 q) = Some 0"
    "todo (processes s1 p) = Del_key" "processes s1 q = processes st q" "same_key (current_view s1 p) (current_view s1 q)"
    using first [OF pq c(3,1,2) s(1,2)] by auto
  obtain s2 where s2: "turn q s1 = Inr s2" "cluster_ok N L f k s2" "count_ok (current_view s2 q)" "key_count (current_view s2 q) = Some n"
    "\<forall>x. x \<noteq> q \<longrightarrow> processes s2 x = processes s1 x" "\<forall>x. same_key (current_view s1 x) (current_view s2 x)"
    using add_turn [OF s1(2) pq(2) s1(3,4), of n ds] s(3,4) s1(6) by auto
  have "same_key (current_view s2 q) (current_view s2 p)" using s1(7) s2(6) same_key_trans by metis
  note k2 = count_view [OF s2(2) pq(2,1) this s2(3)]
  obtain s3 where s3: "turn p s2 = Inr s3" "key_count (current_view s3 p) = None"
    using del_turn [OF s2(2) pq(1) k2(1)] k2(2) s2(4,5) s1(5) pq(3) by auto
  obtain t1 where t1: "turn q st = Inr t1" "cluster_ok N L f k t1" "count_ok (current_view t1 p)" "key_count (current_view t1 p) = Some (c + n)"
    "processes t1 p = processes st p"
    using first [OF pq(2,1) _ same_key_trans(2) [OF c(3)] K(1) _ s(3,4)] K(2) c(2) pq(3) by auto
  obtain t2 where "turn p t1 = Inr t2" "key_count (current_view t2 p) = Some (c + n + - c)"
    using add_turn [OF t1(2) pq(1) t1(3,4), of "- c" cs] s(1,2) t1(5) by auto
  then show ?thesis using s1(1) s2(1) s3 t1(1) by simp
qed

text \<open>Processes that only add to one counter, which does not wrap around.\<close>

fun added :: "api_call \<Rightarrow> nat" where
  "added (Add_key_val n) = unat n"
| "added _ = 0"

definition to_add :: "process \<Rightarrow> nat" where
  "to_add P = sum_list (map added (script P))"

definition counting :: "nat \<Rightarrow> lens \<Rightarrow> nat \<Rightarrow> nat \<Rightarrow> 64 word \<Rightarrow> cluster \<Rightarrow> bool" where
  "counting N L f k c st \<longleftrightarrow> cluster_ok N L f k st \<and> 0 < unat c \<and> unat c + (\<Sum>q < N. to_add (processes st q)) < 2 ^ 64
     \<and> (\<forall>p < N. todo (processes st p) = Nothing \<and> set (script (processes st p)) \<subseteq> range Add_key_val
          \<and> count_ok (current_view st p) \<and> key_count (current_view st p) = Some c
          \<and> (\<forall>q < N. same_key (current_view st p) (current_view st q)))"

lemma counting_turn:
  assumes inv: "counting N L f k c st" and p: "p < N"
  shows "\<exists>st' c'. turn p st = Inr st' \<and> counting N L f k c' st'
     \<and> unat c' + (\<Sum>q < N. to_add (processes st' q)) = unat c + (\<Sum>q < N. to_add (processes st q))
     \<and> length (script (processes st' p)) = length (script (processes st p)) - 1 \<and> (\<forall>q. q \<noteq> p \<longrightarrow> processes st' q = processes st q)"
proof (cases "script (processes st p)")
  case Nil
  have "todo (processes st p) = Nothing" using inv p by (simp add: counting_def)
  then have t: "turn p st = Inr \<lparr>common = shm.truncate (current_view st p),
      processes = (processes st)(p := (processes st p)\<lparr>view := current_view st p\<rparr>)\<rparr>" (is "_ = Inr ?st")
    using Nil by (simp add: turn_def go_on_def)
  have v: "current_view ?st = current_view st" by (simp add: fun_eq_iff current_view_def) (simp add: put_shm_def shm.truncate_def)
  have e: "todo (processes ?st q) = todo (processes st q)" "script (processes ?st q) = script (processes st q)" for q by simp_all
  have a: "to_add (processes ?st q) = to_add (processes st q)" for q by (simp add: to_add_def)
  have "cluster_ok N L f k ?st" using turn_ok [of N L f k st p] inv p t by (auto simp: counting_def)
  then have "counting N L f k c ?st" using inv unfolding counting_def v e a by blast
  moreover have "(\<Sum>q < N. to_add (processes ?st q)) = (\<Sum>q < N. to_add (processes st q))" unfolding a by (rule refl)
  moreover have "length (script (processes ?st p)) = length (script (processes st p)) - 1" using Nil by simp
  ultimately show ?thesis using t by (intro exI [of _ ?st] exI [of _ c] conjI allI impI) simp_all
next
  case (Cons x cs)
  have I: "cluster_ok N L f k st" "todo (processes st p) = Nothing" "count_ok (current_view st p)" "key_count (current_view st p) = Some c"
    "0 < unat c" "unat c + (\<Sum>q < N. to_add (processes st q)) < 2 ^ 64" "\<forall>q < N. same_key (current_view st p) (current_view st q)"
    using inv p by (simp_all add: counting_def)
  have "x \<in> range Add_key_val" using inv p Cons by (auto simp: counting_def)
  then obtain n where n: "script (processes st p) = Add_key_val n # cs" using Cons by auto
  let ?rest = "\<Sum>q \<in> {..<N} - {p}. to_add (processes st q)"
  have sum: "(\<Sum>q < N. to_add (processes st q)) = unat n + sum_list (map added cs) + ?rest"
    using p by (subst sum.remove [of _ p]) (simp_all add: to_add_def n)
  then have "unat c + unat n < 2 ^ 64" using I(6) by simp
  then have u: "unat (c + n) = unat c + unat n" by (subst unat_add_lem [THEN iffD1]) simp_all
  then have nz: "c + n \<noteq> 0" using I(5) by (metis add_is_0 less_numeral_extra(3) unat_0)
  obtain st' where st': "turn p st = Inr st'" "cluster_ok N L f k st'" "count_ok (current_view st' p)" "key_count (current_view st' p) = Some (c + n)"
    "todo (processes st' p) = Nothing" "script (processes st' p) = cs" "\<forall>q. q \<noteq> p \<longrightarrow> processes st' q = processes st q"
    "\<forall>q. same_key (current_view st q) (current_view st' q)"
    using add_turn [OF I(1) p I(3,4,2) n] nz by auto
  have k: "same_key (current_view st' x) (current_view st' y)" if "x < N" "y < N" for x y
    using I(7) st'(8) that same_key_trans by metis
  have sum': "(\<Sum>q < N. to_add (processes st' q)) = sum_list (map added cs) + ?rest"
    using p st'(6,7) by (subst sum.remove [of _ p]) (simp_all add: to_add_def)
  have S: "todo (processes st q) = Nothing \<and> set (script (processes st q)) \<subseteq> range Add_key_val" if "q < N" for q
    using inv that by (simp add: counting_def)
  have "todo (processes st' q) = Nothing \<and> set (script (processes st' q)) \<subseteq> range Add_key_val" if "q < N" for q
    using S [OF that] st'(5-7) n by (cases "q = p") auto
  moreover have "count_ok (current_view st' q) \<and> key_count (current_view st' q) = Some (c + n)" if "q < N" for q
    using count_view [OF st'(2) p that k [OF p that] st'(3)] st'(4) by simp
  ultimately have "counting N L f k (c + n) st'" using st'(2) k I(5,6) u unfolding counting_def sum sum' by simp
  then show ?thesis using st'(1,6,7) n u sum sum' by (intro exI [of _ st'] exI [of _ "c + n"]) simp
qed

lemma counting_turns:
  assumes "counting N L f k c st" "set ps \<subseteq> {..<N}"
  shows "\<exists>st' c'. run_turns ps st = Inr st' \<and> counting N L f k c' st'
     \<and> unat c' + (\<Sum>q < N. to_add (processes st' q)) = unat c + (\<Sum>q < N. to_add (processes st q))
     \<and> (\<forall>q < N. length (script (processes st' q)) = length (script (processes st q)) - count_list ps q)"
  using assms
proof (induction ps arbitrary: st c)
  case (Cons p ps)
  obtain s1 c1 where s1: "turn p st = Inr s1" "counting N L f k c1 s1"
    "unat c1 + (\<Sum>q < N. to_add (processes s1 q)) = unat c + (\<Sum>q < N. to_add (processes st q))"
    "length (script (processes s1 p)) = length (script (processes st p)) - 1" "\<forall>q. q \<noteq> p \<longrightarrow> processes s1 q = processes st q"
    using counting_turn [OF Cons.prems(1), of p] Cons.prems(2) by (metis insert_subset lessThan_iff list.simps(15))
  obtain st' c' where st': "run_turns ps s1 = Inr st'" "counting N L f k c' st'"
    "unat c' + (\<Sum>q < N. to_add (processes st' q)) = unat c1 + (\<Sum>q < N. to_add (processes s1 q))"
    "\<forall>q < N. length (script (processes st' q)) = length (script (processes s1 q)) - count_list ps q"
    using Cons.IH [OF s1(2)] Cons.prems(2) by auto
  have "length (script (processes st' q)) = length (script (processes st q)) - count_list (p # ps) q" if "q < N" for q
    using st'(4) that s1(4,5) by (cases "q = p") simp_all
  then show ?case using s1(1,3) st'(1-3) by auto
qed auto

text \<open>
  C10. Adding alone loses nothing: when any number of processes add to a counter that exists, in any order,
  and the sum does not wrap around, then once each has had a turn for each of its calls the counter is
  what it was plus all that has been added, for every process.
\<close>

theorem additions_all_count:
  assumes "counting N L f k c st" "set ps \<subseteq> {..<N}" and turns: "\<forall>p < N. length (script (processes st p)) \<le> count_list ps p"
  shows "\<exists>st'. run_turns ps st = Inr st' \<and> (\<forall>p < N. count_ok (current_view st' p)
     \<and> key_count (current_view st' p) = Some (c + of_nat (\<Sum>p < N. to_add (processes st p))))"
proof -
  obtain st' c' where st': "run_turns ps st = Inr st'" "counting N L f k c' st'"
    "unat c' + (\<Sum>q < N. to_add (processes st' q)) = unat c + (\<Sum>q < N. to_add (processes st q))"
    "\<forall>q < N. length (script (processes st' q)) = length (script (processes st q)) - count_list ps q"
    using counting_turns [OF assms(1,2)] by blast
  have "(\<Sum>q < N. to_add (processes st' q)) = 0" using st'(4) turns by (intro sum.neutral) (auto simp: to_add_def)
  then have "(of_nat (unat c') :: 64 word) = of_nat (unat c + (\<Sum>q < N. to_add (processes st q)))" using st'(3) by simp
  then have "c' = c + of_nat (\<Sum>q < N. to_add (processes st q))" by simp
  then show ?thesis using st'(1,2) by (auto simp: counting_def)
qed

section \<open>Examples\<close>

text \<open>Processes that have the same instance attached and the same thread local state.\<close>

definition together :: "shf \<Rightarrow> (nat \<Rightarrow> api_call list) \<Rightarrow> cluster" where
  "together s scripts = \<lparr>common = shm.truncate s, processes = (\<lambda>p. \<lparr>view = s, todo = Nothing, script = scripts p\<rparr>)\<rparr>"

lemma together_simps [simp]:
  "current_view (together s scripts) p = s" "todo (processes (together s scripts) p) = Nothing"
  "script (processes (together s scripts) p) = scripts p" "view (processes (together s scripts) p) = s"
  by (simp_all add: together_def current_view_def)

lemma together_ok:
  assumes "shf_ok s" "shf_upd_callback_failsafe s = 0" "balanced 1 {} s"
    and "shf_room ((\<Sum>p < N. calls_need (lens_of s) (shf_hash_key s) (scripts p)) + k) s"
    and "\<forall>p < N. calls_legal (lens_of s) (shf_hash_key s) (scripts p)"
  shows "cluster_ok N (lens_of s) (shf_data_needed_factor s) k (together s scripts)"
  using assms by (simp add: cluster_ok_def process_ok_def api_ok_def process_need_def)

lemma demo1_together:
  assumes "(\<Sum>p < N. calls_need (lens_of demo1) (shf_hash_key demo1) (scripts p)) \<le> 900"
    and "\<forall>p < N. calls_legal (lens_of demo1) (shf_hash_key demo1) (scripts p)"
  shows "cluster_ok N (lens_of demo1) (shf_data_needed_factor demo1) 0 (together demo1 scripts)"
proof -
  have n: "data_needed (len_len (lens_of demo)) (length (shf_hash_key demo)) 8 = 18" by (simp add: demo_ok data_needed_def)
  have r: "shf_room (data_needed (len_len (lens_of demo)) (length (shf_hash_key demo)) 8 + 900) demo"
    unfolding n using shf_room_less [OF demo_ok(2)] by simp
  have "2048 < put_fuel + tabs_used (wins demo (hash_win (the_hash demo)))" by (simp add: put_fuel_def shf_const_eq)
  from put_loop_room [OF demo_ok(1) demo_fits r this] have "shf_room 900 demo1" using demo1_put by (auto simp: shf_put_key_val_def)
  moreover have "run_calls [Make_hash [97], Put_key_val (Some [1, 2, 3, 4, 5, 6, 7, 8]) 8] (shf_attach (2 ^ 32))
      = Inr ([SHF_RET_OK, SHF_RET_KEY_PUT], demo1)" using demo1_put by (simp add: demo_def)
  from heldD(1) [OF calls_held [OF this attach_balanced]] have "balanced 1 {} demo1" .
  ultimately show ?thesis
    using demo1_ok(1,8) assms shf_room_less by (intro together_ok) auto
qed

theorem processes_never_assert_witness:
  "let st = together fresh (\<lambda>p. if p = 0 then [Make_hash [97], Put_key_val (Some [1, 2, 3]) 3, Del_key_val]
       else [Make_hash [97], Add_key_val 5, Get_key_val_addr]) in
     run_turns [0, 1, 1, 0, 1, 0, 1] st = Inl Tab_overflow \<or> (\<exists>st'. run_turns [0, 1, 1, 0, 1, 0, 1] st = Inr st'
       \<and> turns_left (processes st' 1) \<le> 2)"
proof -
  let ?f = "\<lambda>p. if p = 0 then [Make_hash [97], Put_key_val (Some [1, 2, 3]) 3, Del_key_val]
       else [Make_hash [97], Add_key_val 5, Get_key_val_addr]"
  have n: "(\<Sum>p < (2 :: nat). calls_need (lens_of fresh) (shf_hash_key fresh) (?f p)) + 0 < 2147000000"
    by (simp add: data_needed_def numeral_2_eq_2)
  have r: "shf_room ((\<Sum>p < (2 :: nat). calls_need (lens_of fresh) (shf_hash_key fresh) (?f p)) + 0) fresh"
    by (rule attach_room [OF order_refl n])
  have l: "\<forall>p < (2 :: nat). calls_legal (lens_of fresh) (shf_hash_key fresh) (?f p)" by (simp add: fits_def)
  have ok: "cluster_ok 2 (lens_of fresh) (shf_data_needed_factor fresh) 0 (together fresh ?f)"
    by (rule together_ok [OF attach_ok _ attach_balanced r l]) simp
  have one: "1 < (2 :: nat)" by simp
  have nc: "\<not> (\<exists>p < 2 :: nat. \<exists>c \<in> set (script (processes (together fresh ?f) p)). copies_val c)"
    by (auto simp: copies_val_def)
  have "set [0, 1, 1, 0, 1, 0, 1] \<subseteq> {..<2 :: nat}" by simp
  from processes_never_assert [OF ok this] nc
  have "run_turns [0, 1, 1, 0, 1, 0, 1] (together fresh ?f) = Inl Tab_overflow \<or> (\<exists>st'. run_turns [0, 1, 1, 0, 1, 0, 1] (together fresh ?f) = Inr st'
      \<and> turns_left (processes st' 1) \<le> turns_left (processes (together fresh ?f) 1) - count_list [0, 1, 1, 0, 1, 0, 1] (1 :: nat))"
    using one by blast
  moreover have "turns_left (processes (together fresh ?f) 1) - count_list [0, 1, 1, 0, 1, 0, 1] (1 :: nat) = 2" by (simp add: turns_left_def)
  ultimately show ?thesis by (simp only: Let_def)
qed

theorem reference_lost_witness:
  "let st = together demo1 (\<lambda>p. if p = 0 then [Add_key_val (- 578437695752307201)] else [Add_key_val 3]) in
     \<exists>st1 st2. run_turns [0, 1, 0] st = Inr st1 \<and> key_count (current_view st1 0) = None
       \<and> run_turns [1, 0] st = Inr st2 \<and> key_count (current_view st2 0) = Some 3"
proof -
  let ?f = "\<lambda>p :: nat. if p = 0 then [Add_key_val (- 578437695752307201)] else [Add_key_val 3]"
  have "cluster_ok 2 (lens_of demo1) (shf_data_needed_factor demo1) 0 (together demo1 ?f)"
    by (rule demo1_together) (simp_all add: numeral_2_eq_2 demo1_ok demo_ok data_needed_def fits_def)
  from reference_lost [OF this, of 0 1 578437695752307201 "[]" 3 "[]"] show ?thesis by (simp add: Let_def demo1_count)
qed

theorem additions_all_count_witness:
  "\<exists>st'. run_turns [1, 0] (together demo1 (\<lambda>p. if p = 0 then [Add_key_val 1] else [Add_key_val 2])) = Inr st'
     \<and> key_count (current_view st' 1) = Some 578437695752307204"
proof -
  let ?f = "\<lambda>p :: nat. if p = 0 then [Add_key_val 1] else [Add_key_val 2]"
  have ok: "cluster_ok 2 (lens_of demo1) (shf_data_needed_factor demo1) 0 (together demo1 ?f)"
    by (rule demo1_together) (simp_all add: numeral_2_eq_2 demo1_ok demo_ok data_needed_def fits_def)
  have two: "{..<2 :: nat} = {0, 1}" by auto
  have s: "(\<Sum>q < (2 :: nat). to_add (processes (together demo1 ?f) q)) = 3" by (simp add: two to_add_def)
  have "counting 2 (lens_of demo1) (shf_data_needed_factor demo1) 0 578437695752307201 (together demo1 ?f)"
    using ok unfolding counting_def s by (simp add: demo1_count)
  from additions_all_count [OF this, of "[1, 0]"] show ?thesis unfolding s by (auto simp: less_2_cases_iff)
qed

end
