(* ===== verification/Shf_Attach.thy ===== *)
theory Shf_Attach
  imports Shf_Multi
begin

text \<open>
  Several processes that attach an instance that does not exist yet: \<open>shf_attach\<close> builds it in a folder
  of its own, renames that folder, and only then directs the table indexes of each window. One step is one
  call of the system, or the directing of one window.
\<close>

section \<open>shf_attach step by step\<close>

datatype stage = Opening | Building | Renaming | Mapping bool | Directing nat | Attached | Exited | Not_found

text \<open>
  Every process that builds an instance makes one of its own, first in a folder that is named after the process
  (\<open>made\<close>, under the number of the process). \<open>folder\<close> says whose instance has the name that all look for, if
  there is one. Further the state says where each process is in \<open>shf_attach\<close>, whose instance it has mapped, and
  what it has of its own. The argument of \<open>Mapping\<close> says that the process takes itself for the creator (\<open>tabs\<close>).
\<close>

record site =
  folder :: "nat option"
  made :: "nat \<Rightarrow> shm option"
  stage :: "nat \<Rightarrow> stage"
  mapped_to :: "nat \<Rightarrow> nat option"
  own :: "nat \<Rightarrow> shf"

definition build_files :: "nat \<Rightarrow> shm" where
  "build_files vfs = shm.truncate (fold (\<lambda>win s. fold (shf_tab_create win) [0..<1] s) [0..<SHF_WINS_PER_SHF] (shf_init vfs))"

definition direct_window :: "nat \<Rightarrow> nat \<Rightarrow> shm \<Rightarrow> shm" where
  "direct_window n_tabs win m = m\<lparr>wins := (wins m)(win := (wins m win)
     \<lparr>win_tabs := attach_routes n_tabs [0..<SHF_TABS_PER_WIN] 0 (win_tabs (wins m win)), tabs_used := n_tabs\<rparr>)\<rparr>"

text \<open>
  \<open>rename\<close> fails when the name is taken by a folder that is not empty; the assertion on it ends the process,
  which leaves its own folder behind. Directing a window is a write to the instance that the process has mapped.
\<close>

definition attach_turn :: "nat \<Rightarrow> nat \<Rightarrow> site \<Rightarrow> site" where
  "attach_turn vfs p st = (case stage st p of
     Opening \<Rightarrow> st\<lparr>stage := (stage st)(p := if folder st = None then Building else Mapping False)\<rparr>
   | Building \<Rightarrow> st\<lparr>made := (made st)(p := Some (build_files vfs)), stage := (stage st)(p := Renaming)\<rparr>
   | Renaming \<Rightarrow> (if folder st = None
       then st\<lparr>folder := Some p, stage := (stage st)(p := Mapping True)\<rparr>
       else st\<lparr>stage := (stage st)(p := Exited)\<rparr>)
   | Mapping created \<Rightarrow> (case folder st of
       None \<Rightarrow> st\<lparr>stage := (stage st)(p := Not_found)\<rparr>
     | Some c \<Rightarrow> (case made st c of
         None \<Rightarrow> st\<lparr>stage := (stage st)(p := Not_found)\<rparr>
       | Some m \<Rightarrow> st\<lparr>mapped_to := (mapped_to st)(p := Some c),
           own := (own st)(p := shf_attach_existing (put_shm m (own st p))),
           stage := (stage st)(p := if created then Directing 0 else Attached)\<rparr>))
   | Directing win \<Rightarrow> (if win < SHF_WINS_PER_SHF
       then (case mapped_to st p of
         None \<Rightarrow> st
       | Some c \<Rightarrow> st\<lparr>made := (made st)(c := map_option (direct_window 1 win) (made st c)),
           stage := (stage st)(p := Directing (win + 1))\<rparr>)
       else st\<lparr>stage := (stage st)(p := Attached)\<rparr>)
   | _ \<Rightarrow> st)"

definition attach_start :: "nat \<Rightarrow> site" where
  "attach_start vfs = \<lparr>folder = None, made = (\<lambda>_. None), stage = (\<lambda>_. Opening), mapped_to = (\<lambda>_. None), own = (\<lambda>_. shf_init vfs)\<rparr>"

definition attach_turns :: "nat \<Rightarrow> nat list \<Rightarrow> site" where
  "attach_turns vfs ps = fold (attach_turn vfs) ps (attach_start vfs)"

text \<open>What a process works with: the instance it has mapped, as it is now, and its own part.\<close>

definition attached_view :: "site \<Rightarrow> nat \<Rightarrow> shf" where
  "attached_view st p = (case Option.bind (mapped_to st p) (made st) of None \<Rightarrow> own st p | Some m \<Rightarrow> put_shm m (own st p))"

section \<open>What every order of steps keeps\<close>

text \<open>The instance after the windows below \<open>k\<close> have been directed.\<close>

definition directed :: "nat \<Rightarrow> nat \<Rightarrow> shm" where
  "directed vfs k = (build_files vfs)\<lparr>wins := (\<lambda>win. if win < k then zero_win\<lparr>tabs_used := 1\<rparr> else zero_win)\<rparr>"

lemma build_files_simps:
  "tab_file (build_files v) = (\<lambda>win tab. if win < 256 \<and> tab = 0 then Some (win + 1) else None)"
  "inode (build_files v) = (\<lambda>_. zero_tab)" "fsize (build_files v) = (\<lambda>i. if 0 < i \<and> i \<le> 256 then 69632 else 0)"
  "next_inode (build_files v) = 257" "vfs_available (build_files v) = v" "wins (build_files v) = (\<lambda>_. zero_win)"
  unfolding build_files_def shf_const_eq attach_files by (simp_all add: shf_init_def)

lemma directed_0: "build_files v = directed v 0"
  by (intro shm.equality) (simp_all add: directed_def build_files_simps)

lemma directed_Suc: "direct_window 1 k (directed v k) = directed v (Suc k)"
  by (intro shm.equality) (simp_all add: direct_window_def directed_def attach_routes_one [simplified] zero_win_def fun_eq_iff less_Suc_eq)

lemma directed_all: "put_shm (directed v 256) (shf_attach_existing (put_shm m (shf_init v))) = shf_attach v"
  unfolding shf_attach_def Let_def attach_files shf_const_eq
  by (simp add: put_shm_def shf_attach_existing_def directed_def build_files_simps attach_routes_one [simplified] shf_init_def zero_win_def fun_eq_iff)

text \<open>What a process has of its own at each stage.\<close>

definition own_ok :: "nat \<Rightarrow> nat option \<Rightarrow> stage \<Rightarrow> shm option \<Rightarrow> nat option \<Rightarrow> shf \<Rightarrow> bool" where
  "own_ok v f s t u o' \<longleftrightarrow> (s = Renaming \<longrightarrow> t = Some (build_files v))
     \<and> (if s = Attached \<or> (\<exists>k. s = Directing k) then u \<noteq> None \<and> u = f \<and> (\<exists>m. o' = shf_attach_existing (put_shm m (shf_init v)))
        else o' = shf_init v)"

text \<open>
  There is no instance and every process is still at work on its own folder; or one process has created
  it and has directed \<open>k\<close> of its windows, and the others have found it, or come too late to rename.
\<close>

definition creator_at :: "nat \<Rightarrow> stage \<Rightarrow> bool" where
  "creator_at k s \<longleftrightarrow> s = Mapping True \<and> k = 0 \<or> s = Directing k \<or> s = Attached \<and> k = 256"

definition follower_at :: "stage \<Rightarrow> bool" where
  "follower_at s \<longleftrightarrow> s \<in> {Opening, Building, Renaming, Mapping False, Attached, Exited}"

definition attach_inv :: "nat \<Rightarrow> site \<Rightarrow> bool" where
  "attach_inv v st \<longleftrightarrow> (\<forall>p. own_ok v (folder st) (stage st p) (made st p) (mapped_to st p) (own st p))
     \<and> (case folder st of None \<Rightarrow> \<forall>p. stage st p \<in> {Opening, Building, Renaming}
        | Some c \<Rightarrow> (\<exists>k \<le> 256. made st c = Some (directed v k) \<and> creator_at k (stage st c)) \<and> (\<forall>p. p \<noteq> c \<longrightarrow> follower_at (stage st p)))"

lemma attach_inv_Some:
  assumes "attach_inv v st" "folder st = Some c"
  obtains k where "k \<le> 256" "made st c = Some (directed v k)" "creator_at k (stage st c)" "\<And>p. p \<noteq> c \<Longrightarrow> follower_at (stage st p)"
  using assms by (auto simp: attach_inv_def)

lemma attach_directing: "attach_inv v st \<Longrightarrow> stage st p = Directing win \<Longrightarrow> mapped_to st p \<noteq> None \<and> mapped_to st p = folder st"
  unfolding attach_inv_def own_ok_def by metis

lemma attach_creator:
  assumes inv: "attach_inv v st" and p: "stage st p \<in> {Mapping True} \<union> range Directing"
  shows "folder st = Some p"
proof (cases "folder st")
  case None
  then have "stage st p \<in> {Opening, Building, Renaming}" using inv by (simp add: attach_inv_def)
  then show ?thesis using p by auto
next
  case (Some c)
  then have "p \<noteq> c \<Longrightarrow> follower_at (stage st p)" using inv by (simp add: attach_inv_def)
  then show ?thesis using Some p by (cases "p = c") (auto simp: follower_at_def)
qed

lemma attach_found: "attach_inv v st \<Longrightarrow> stage st p \<noteq> Not_found"
proof -
  assume inv: "attach_inv v st"
  show "stage st p \<noteq> Not_found"
  proof (cases "folder st")
    case None
    then have "stage st p \<in> {Opening, Building, Renaming}" using inv by (simp add: attach_inv_def)
    then show ?thesis by auto
  next
    case (Some c)
    obtain k where "creator_at k (stage st c)" "\<And>p. p \<noteq> c \<Longrightarrow> follower_at (stage st p)"
      using attach_inv_Some [OF inv Some] by metis
    then show ?thesis by (cases "p = c") (fastforce simp: creator_at_def follower_at_def)+
  qed
qed

lemma attach_folder: "folder st = Some c \<Longrightarrow> folder (attach_turn v p st) = Some c"
  by (auto simp: attach_turn_def split: stage.split option.split)

lemma attach_other: "q \<noteq> p \<Longrightarrow> stage (attach_turn v p st) q = stage st q"
  by (auto simp: attach_turn_def split: stage.split option.split)

lemma attach_own:
  assumes inv: "attach_inv v st"
  shows "own_ok v (folder (attach_turn v q st)) (stage (attach_turn v q st) p) (made (attach_turn v q st) p)
     (mapped_to (attach_turn v q st) p) (own (attach_turn v q st) p)"
proof -
  have o: "own_ok v (folder st) (stage st p) (made st p) (mapped_to st p) (own st p)" using inv by (simp add: attach_inv_def)
  show ?thesis
  proof (cases "folder st")
    case None
    then have s: "stage st x \<in> {Opening, Building, Renaming}" for x using inv by (simp add: attach_inv_def)
    show ?thesis using o s [of p] s [of q] None by (cases "q = p") (auto simp: attach_turn_def own_ok_def)
  next
    case (Some c)
    obtain k where k: "made st c = Some (directed v k)" "creator_at k (stage st c)" "\<And>p. p \<noteq> c \<Longrightarrow> follower_at (stage st p)"
      using attach_inv_Some [OF inv Some] by metis
    have f: "folder (attach_turn v q st) = Some c" by (rule attach_folder [OF Some])
    show ?thesis
    proof (cases "q = p")
      case True
      then show ?thesis using o Some unfolding f
        by (cases "stage st p") (auto simp: attach_turn_def own_ok_def split: option.splits)
    next
      case False
      have "stage st q = Directing win \<Longrightarrow> mapped_to st q = Some c" for win
        using attach_directing [OF inv] Some by simp
      moreover have "p = c \<Longrightarrow> stage st p \<noteq> Renaming" using k(2) by (auto simp: creator_at_def)
      ultimately show ?thesis using False o Some unfolding f
        by (cases "stage st q") (auto simp: attach_turn_def own_ok_def split: option.splits)
    qed
  qed
qed

lemma attach_turn_inv:
  assumes "attach_inv v st"
  shows "attach_inv v (attach_turn v p st)"
proof -
  have own: "\<forall>q. own_ok v (folder (attach_turn v p st)) (stage (attach_turn v p st) q) (made (attach_turn v p st) q)
      (mapped_to (attach_turn v p st) q) (own (attach_turn v p st) q)"
    using assms attach_own by blast
  show ?thesis
  proof (cases "folder st")
    case None
    then have s: "\<forall>q. stage st q \<in> {Opening, Building, Renaming}" using assms by (simp add: attach_inv_def)
    show ?thesis
    proof (cases "stage st p = Renaming")
      case True
      then have "made st p = Some (directed v 0)" using assms by (simp add: attach_inv_def own_ok_def directed_0)
      then have "folder (attach_turn v p st) = Some p" "made (attach_turn v p st) p = Some (directed v 0)"
        "stage (attach_turn v p st) = (stage st)(p := Mapping True)"
        using True None by (simp_all add: attach_turn_def)
      moreover have "\<forall>q. q \<noteq> p \<longrightarrow> follower_at (stage st q)" using s by (auto simp: follower_at_def)
      ultimately show ?thesis using own unfolding attach_inv_def by (auto simp: creator_at_def)
    next
      case False
      then have o: "stage st p = Opening \<or> stage st p = Building" using s by auto
      then have "folder (attach_turn v p st) = None" using None by (auto simp: attach_turn_def)
      moreover have "stage (attach_turn v p st) q \<in> {Opening, Building, Renaming}" for q
        using None o s [rule_format, of q] by (cases "q = p") (auto simp: attach_turn_def)
      ultimately show ?thesis using own by (simp add: attach_inv_def)
    qed
  next
    case (Some c)
    obtain k where c: "k \<le> 256" "made st c = Some (directed v k)" "creator_at k (stage st c)" "\<And>q. q \<noteq> c \<Longrightarrow> follower_at (stage st q)"
      using attach_inv_Some [OF assms Some] by metis
    have f: "folder (attach_turn v p st) = Some c" by (rule attach_folder [OF Some])
    show ?thesis
    proof (cases "p = c")
      case False
      then have "follower_at (stage st p)" using c(4) by blast
      then have "made (attach_turn v p st) c = made st c" "follower_at (stage (attach_turn v p st) p)"
        using Some False c(2) by (auto simp: attach_turn_def follower_at_def)
      moreover have "stage (attach_turn v p st) q = stage st q" if "q \<noteq> p" for q by (rule attach_other [OF that])
      ultimately have "creator_at k (stage (attach_turn v p st) c)" "made (attach_turn v p st) c = Some (directed v k)"
        "\<And>q. q \<noteq> c \<Longrightarrow> follower_at (stage (attach_turn v p st) q)"
        using c(2-4) False by (metis, simp, metis)
      then show ?thesis using own f c(1) by (auto simp: attach_inv_def)
    next
      case True
      have u: "stage st c = Directing win \<Longrightarrow> mapped_to st c = Some c" for win
        using attach_directing [OF assms] Some by simp
      obtain k' where k': "k' \<le> 256" "made (attach_turn v p st) c = Some (directed v k')" "creator_at k' (stage (attach_turn v p st) c)"
        using c(1-3) Some True directed_Suc [of k v] u
        by (atomize_elim) (auto simp: creator_at_def attach_turn_def shf_const_eq intro: exI [of _ k] exI [of _ "Suc k"])
      have "follower_at (stage (attach_turn v p st) q)" if "q \<noteq> c" for q using c(4) [OF that] attach_other [of q p] that True by simp
      then show ?thesis using own k' f unfolding attach_inv_def by auto
    qed
  qed
qed

lemma attach_turns_inv: "attach_inv v (attach_turns v ps)"
proof -
  have step: "attach_inv v st \<Longrightarrow> attach_inv v (fold (attach_turn v) qs st)" for qs st
    by (induction qs arbitrary: st) (simp_all add: attach_turn_inv)
  show ?thesis unfolding attach_turns_def by (rule step) (simp add: attach_inv_def attach_start_def own_ok_def)
qed

text \<open>The name stays with the instance that has got it.\<close>

lemma attach_turns_folder: "folder (attach_turns v (take k ps)) = Some c \<Longrightarrow> folder (attach_turns v ps) = Some c"
proof -
  have "folder st = Some c \<Longrightarrow> folder (fold (attach_turn v) qs st) = Some c" for qs st
    by (induction qs arbitrary: st) (simp_all add: attach_folder)
  then show "folder (attach_turns v (take k ps)) = Some c \<Longrightarrow> folder (attach_turns v ps) = Some c"
    unfolding attach_turns_def by (metis append_take_drop_id fold_append comp_apply)
qed

text \<open>Every turn takes a process further.\<close>

fun to_go :: "stage \<Rightarrow> nat" where
  "to_go Opening = 262" | "to_go Building = 261" | "to_go Renaming = 260" | "to_go (Mapping created) = 259"
| "to_go (Directing win) = 1 + (257 - win)" | "to_go _ = 0"

lemma turn_to_go:
  assumes "attach_inv v st"
  shows "to_go (stage (attach_turn v p st) q) \<le> to_go (stage st q) - (if q = p then 1 else 0)"
proof -
  have "stage st p = Directing win \<Longrightarrow> mapped_to st p \<noteq> None" for win using attach_directing [OF assms] by blast
  then show ?thesis by (auto simp: attach_turn_def shf_const_eq split: stage.split option.split)
qed

lemma turns_to_go: "attach_inv v st \<Longrightarrow> to_go (stage (fold (attach_turn v) ps st) q) \<le> to_go (stage st q) - count_list ps q"
proof (induction ps arbitrary: st)
  case (Cons p ps)
  show ?case using Cons.IH [OF attach_turn_inv [OF Cons.prems, of p]] turn_to_go [OF Cons.prems, of p q] by (cases "p = q") auto
qed simp

section \<open>Attaching together\<close>

text \<open>
  C15. However many processes attach the same instance at the same time, in whatever order their steps come,
  one of them creates it and no other one ever takes itself for the creator. A process that comes too late to
  rename its folder exits. After 262 turns each process is attached or has exited. Every process that is
  attached has mapped the instance of the creator, and once the creator is attached too, and so has directed
  all windows, each of them has the fresh instance of \<open>shf_attach\<close>, in good order.
\<close>

theorem attach_together:
  "\<exists>c. (\<forall>k p. stage (attach_turns v (take k ps)) p \<in> {Mapping True} \<union> range Directing \<longrightarrow> p = c)
     \<and> (\<forall>p. 262 \<le> count_list ps p \<longrightarrow> stage (attach_turns v ps) p \<in> {Attached, Exited})
     \<and> (\<forall>p. stage (attach_turns v ps) p \<in> {Attached, Exited}
          \<longrightarrow> stage (attach_turns v ps) c \<in> {Mapping True, Attached} \<union> range Directing)
     \<and> (\<forall>p. stage (attach_turns v ps) p = Exited \<longrightarrow> p \<noteq> c)
     \<and> (\<forall>p. stage (attach_turns v ps) p = Attached \<longrightarrow> mapped_to (attach_turns v ps) p = Some c
          \<and> (stage (attach_turns v ps) c = Attached
             \<longrightarrow> attached_view (attach_turns v ps) p = shf_attach v \<and> shf_ok (attached_view (attach_turns v ps) p)))"
proof -
  let ?st = "attach_turns v ps"
  have inv: "attach_inv v ?st" by (rule attach_turns_inv)
  have fin: "stage ?st p \<in> {Attached, Exited}" if "262 \<le> count_list ps p" for p
  proof -
    have "to_go (stage ?st p) \<le> to_go (stage (attach_start v) p) - count_list ps p"
      using turns_to_go [of v "attach_start v" ps p] attach_turns_inv [of v "[]"] by (simp add: attach_turns_def)
    then have "to_go (stage ?st p) = 0" using that by (simp add: attach_start_def)
    moreover have "stage ?st p \<noteq> Not_found" by (rule attach_found [OF inv])
    ultimately show ?thesis by (cases "stage ?st p") auto
  qed
  have early: "folder (attach_turns v (take k ps)) = Some p"
    if "stage (attach_turns v (take k ps)) p \<in> {Mapping True} \<union> range Directing" for k p
    by (rule attach_creator [OF attach_turns_inv that])
  show ?thesis
  proof (cases "folder ?st")
    case None
    then have "stage ?st p \<in> {Opening, Building, Renaming}" for p using inv by (simp add: attach_inv_def)
    then have "stage ?st p \<notin> {Attached, Exited}" for p by (metis insertE singletonD stage.distinct empty_iff)
    moreover have "stage (attach_turns v (take k ps)) p \<notin> {Mapping True} \<union> range Directing" for k p
      using early [of k p] attach_turns_folder [of v k ps p] None by auto
    ultimately show ?thesis using fin by auto
  next
    case (Some c)
    obtain k where k: "made ?st c = Some (directed v k)" "creator_at k (stage ?st c)" using attach_inv_Some [OF inv Some] by metis
    have "p = c" if "stage (attach_turns v (take j ps)) p \<in> {Mapping True} \<union> range Directing" for j p
      using attach_turns_folder [OF early [OF that]] Some by simp
    moreover have at: "stage ?st c \<in> {Mapping True, Attached} \<union> range Directing" using k(2) by (auto simp: creator_at_def)
    then have "stage ?st c \<noteq> Exited" by auto
    moreover have "mapped_to ?st p = Some c \<and> (stage ?st c = Attached \<longrightarrow> attached_view ?st p = shf_attach v \<and> shf_ok (attached_view ?st p))"
      if p: "stage ?st p = Attached" for p
    proof -
      have o: "mapped_to ?st p = Some c" "\<exists>m. own ?st p = shf_attach_existing (put_shm m (shf_init v))"
        using inv p Some by (auto simp: attach_inv_def own_ok_def)
      have "attached_view ?st p = shf_attach v" if "stage ?st c = Attached"
      proof -
        have "k = 256" using k(2) that by (simp add: creator_at_def)
        then show ?thesis using o k(1) directed_all by (auto simp: attached_view_def)
      qed
      then show ?thesis using o(1) attach_ok by auto
    qed
    ultimately show ?thesis using fin at by (intro exI [of _ c]) blast
  qed
qed

lemma waiting: "q \<notin> set ps \<Longrightarrow> stage (fold (attach_turn v) ps st) q = stage st q"
proof (induction ps arbitrary: st)
  case (Cons p ps)
  then have "stage (attach_turn v p st) q = stage st q" by (auto intro: attach_other)
  then show ?case using Cons by simp
qed simp

theorem attach_together_witness:
  "\<exists>p < 2. attached_view (attach_turns (2 ^ 32) (concat (replicate 262 [0, 1]))) p = fresh"
proof -
  let ?ps = "concat (replicate 262 [0, 1])" and ?v = "2 ^ 32 :: nat"
  let ?st = "attach_turns ?v ?ps"
  have n: "count_list (concat (replicate n [0, 1])) p = (if p = 0 \<or> p = 1 then n else 0)" for n and p :: nat by (induction n) auto
  obtain c where c: "\<forall>p. 262 \<le> count_list ?ps p \<longrightarrow> stage ?st p \<in> {Attached, Exited}"
    "\<forall>p. stage ?st p \<in> {Attached, Exited} \<longrightarrow> stage ?st c \<in> {Mapping True, Attached} \<union> range Directing"
    "\<forall>p. stage ?st p = Exited \<longrightarrow> p \<noteq> c"
    "\<forall>p. stage ?st p = Attached \<longrightarrow> (stage ?st c = Attached \<longrightarrow> attached_view ?st p = fresh)"
    using attach_together [of ?v ?ps] by blast
  have fin: "stage ?st p \<in> {Attached, Exited}" if "p = 0 \<or> p = 1" for p using c(1) n [of 262 p] that by simp
  have "c \<in> set ?ps"
  proof (rule ccontr)
    assume "c \<notin> set ?ps"
    then have "stage ?st c = Opening" unfolding attach_turns_def by (subst waiting) (simp_all add: attach_start_def)
    then show False using c(2) fin [of 0] by auto
  qed
  then have "c = 0 \<or> c = 1" by auto
  then have "stage ?st c = Attached" "c < 2" using fin [of c] c(3) by auto
  then show ?thesis using c(4) by blast
qed

text \<open>
  C16. Attaching is not atomic: between the renaming of the folder and the directing of its windows another
  process attaches and finds an instance that is not in order. No window has a table in use, although each
  has a file: a split in that process would take the table itself for the new one.
\<close>

theorem attached_too_early:
  "let st = attach_turns v [0, 0, 0, 1, 1] in stage st 1 = Attached \<and> stage st 0 = Mapping True
     \<and> tabs_used (wins (attached_view st 1) 0) = 0 \<and> tab_file (attached_view st 1) 0 0 \<noteq> None \<and> \<not> shf_ok (attached_view st 1)"
proof -
  let ?st = "attach_turns v [0, 0, 0, 1, 1]"
  have st: "stage ?st 1 = Attached" "stage ?st 0 = Mapping True" "mapped_to ?st 1 = Some 0" "made ?st 0 = Some (build_files v)"
    by (simp_all add: attach_turns_def attach_start_def attach_turn_def)
  then have w: "tabs_used (wins (attached_view ?st 1) 0) = 0" "tab_file (attached_view ?st 1) 0 0 \<noteq> None"
    by (simp_all add: attached_view_def build_files_simps zero_win_def)
  then have "\<not> shf_ok (attached_view ?st 1)" using files_okD(7) [OF shf_okD(2), of "attached_view ?st 1" 0 0] by auto
  then show ?thesis using st w by (simp add: Let_def)
qed

text \<open>
  Directing a window that another process has split already sends all its table indexes back to the first
  table: what is stored under the indexes that had moved is no longer found.
\<close>

lemma attach_routes_0: "attach_routes 1 ts 0 m t = (if t \<in> set ts then 0 else m t)"
  by (induction ts arbitrary: m) auto

lemma late_directing:
  assumes ok: "shf_ok s" and win: "win < 256" and t: "t < 2048" "win_tabs (wins s win) t \<noteq> 0"
  shows "kv L (direct_window 1 win (shm.truncate s)) (win, t, row, ref) = None"
proof -
  let ?m = "direct_window 1 win (shm.truncate s)"
  have r: "routed (wins s win) 0 (table s win 0)" using shf_okD(3) [OF ok] win by (simp add: routes_ok_def shf_const_eq)
  have "table ?m win 0 = table s win 0" by (simp add: table_def direct_window_def split: option.split)
  moreover have "win_tabs (wins ?m win) t = 0" using t(1) by (simp add: direct_window_def attach_routes_0 [simplified] shf_const_eq)
  moreover have "tab \<noteq> t" if "slot L (table s win 0) (row, ref) = Some (tab, rnd, key, val)" for tab rnd key val
    using that r t(2) by (auto simp: slot_Some_iff routed_def)
  ultimately show ?thesis by (auto simp: kv_def split: option.split)
qed

end
