(* ===== verification/Shf_ShrinkRace.thy ===== *)
theory Shf_ShrinkRace
  imports Shf_Multi
begin

text \<open>
  A reader that replaces a tab file while others use it. \<open>shf_find_key_internal\<close> shrinks a table with too
  much garbage while it holds the lock of a window as a reader, so that another reader may be searching
  the table, or be in \<open>shf_tab_shrink\<close> for the same table, at the same time.
\<close>

section \<open>The file of a table is replaced by another process\<close>

text \<open>Taking the files from another process that has the instance attached.\<close>

lemma view_ok:
  assumes "shf_ok s" "coherent s (tabs t)" "lens_of t = lens_of s"
  shows "shf_ok (put_shm (shm.truncate s) t)" "table (put_shm (shm.truncate s) t) = table s"
    "coherent (put_shm (shm.truncate s) t) m = coherent s m"
    "shf_data_needed_factor t = shf_data_needed_factor s \<Longrightarrow> shf_room n (put_shm (shm.truncate s) t) = shf_room n s"
proof -
  let ?t = "put_shm (shm.truncate s) t"
  have a: "attached_to s ?t" by (rule attached_view [OF assms(3)])
  show "shf_ok ?t" by (rule attached_ok(1) [OF a assms(1)]) (simp add: assms(2))
  show "table ?t = table s" by (simp add: table_def fun_eq_iff split: option.split)
  show "coherent ?t m = coherent s m" by (simp add: coherent_def mapping_ok_def)
  show "shf_data_needed_factor t = shf_data_needed_factor s \<Longrightarrow> shf_room n ?t = shf_room n s"
    by (rule attached_room [OF a]) simp
qed

text \<open>
  Process \<open>a\<close> replaces the file \<open>old\<close> of a table: it has a new one mapped, which the path leads to and which has
  the records; the file \<open>old\<close>, which process \<open>b\<close> may still be using, has none.
\<close>

lemma shrink_by_other:
  assumes b: "shf_ok b" "shf_room n b" and a: "coherent b (tabs a)" "lens_of a = lens_of b" "shf_data_needed_factor a = shf_data_needed_factor b"
    and win: "win < 256" and old: "tab_file b win tab = Some old"
  shows "\<exists>a' i. shf_tab_shrink win tab (put_shm (shm.truncate b) a) = Inr a' \<and> shf_ok a' \<and> shf_room n a' \<and> same_routes b a'
     \<and> lens_of a' = lens_of b \<and> shf_data_needed_factor a' = shf_data_needed_factor b \<and> (\<forall>m. coherent b m \<longrightarrow> coherent a' m)
     \<and> (\<forall>w x. slot (lens_of b) (table a' w x) = slot (lens_of b) (table b w x)) \<and> live (inode a' old) = {}
     \<and> (\<forall>w x. tab_file a' w x \<noteq> Some old) \<and> old < i \<and> tab_file a' win tab = Some i \<and> next_inode a' = i + 1
     \<and> tabs a' win tab = \<lparr>off_mmap = i, off_size = tab_size (inode a' i)\<rparr> \<and> tab_ok (lens_of b) (inode a' i)"
proof -
  let ?L = "lens_of b"
  define a0 where "a0 = put_shm (shm.truncate b) a"
  note V = view_ok [OF b(1) a(1,2), folded a0_def]
  have "tab < tabs_used (wins b win)" using files_okD(7) [OF shf_okD(2) [OF b(1)] win, of tab] old by (cases "tab < tabs_used (wins b win)") auto
  then have a0: "shf_ok a0" "shf_room n a0" "tab_file a0 = tab_file b" "wins a0 = wins b" "lens_of a0 = ?L" "tab < tabs_used (wins a0 win)"
    using V(1) V(4) [OF a(3)] b(2) a(2) by (simp_all add: a0_def)
  obtain a1 where a1: "shrink_begin win tab a0 = Inr (old, a1)" "tab_file a1 win tab = Some old" "quiet a0 a1" "same_routes a0 a1"
    "shf_room n a1" "tab_ok (lens_of a1) (inode a1 old)" "\<And>w x. slot ?L (table a1 w x) = slot ?L (table a0 w x)"
    using shrink_begin_ok [OF a0(1) win a0(6) a0(2)] old by (auto simp: a0)
  let ?i = "next_inode a1"
  have La: "lens_of a1 = ?L" using quietD(5) [OF a1(3)] a0(5) by simp
  obtain a2 where a2: "shrink_end win tab old a1 = Inr a2" "quiet a1 a2" "same_routes a1 a2" "shf_room n a2"
    "\<And>w x. slot ?L (table a2 w x) = slot ?L (table a1 w x)" "replaced win tab old ?i a1 a2" "mapped win tab ?i a1 a2"
    "live (inode a2 old) = {}" "tab_ok ?L (inode a2 ?i)"
    using shrink_end_ok [OF quietD(2) [OF a1(3)] win a1(2,5,6)] by (auto simp: La)
  note D1 = files_okD [OF shf_okD(2) [OF quietD(2) [OF a1(3)]]]
  have "tab_file a2 win tab = Some ?i \<and> next_inode a2 = ?i + 1 \<and> old < ?i" using a2(6) D1(2) [OF a1(2)] by (simp add: replaced_def)
  moreover have "tab_file a2 w t \<noteq> Some old" for w t
    using a2(6) D1(2) [OF a1(2)] D1(4) [OF a1(2), of w t] by (auto simp: replaced_def)
  moreover have "coherent a2 m" if "coherent b m" for m using quietD(3) [OF a2(2) quietD(3) [OF a1(3)]] that by (simp add: V(3))
  moreover have "same_routes b a2" using a1(4) a2(3) by (auto simp: same_routes_def a0)
  moreover have "lens_of a2 = ?L" using quietD(5) [OF a2(2)] La by simp
  moreover have "shf_data_needed_factor a2 = shf_data_needed_factor b"
    using same_threadD(3) [OF quietD(1) [OF a2(2)]] same_threadD(3) [OF quietD(1) [OF a1(3)]] a(3) by (simp add: a0_def)
  moreover have "slot ?L (table a2 w x) = slot ?L (table b w x)" for w x using a2(5) a1(7) by (simp add: V(2))
  moreover have "tabs a2 win tab = \<lparr>off_mmap = ?i, off_size = tab_size (inode a2 ?i)\<rparr>" using a2(7) by (simp add: mapped_def)
  moreover have "shf_tab_shrink win tab a0 = Inr a2" using a1(1) a2(1) by (simp add: shf_tab_shrink_parts)
  ultimately show ?thesis
    using quietD(2) [OF a2(2)] a2(4,8,9) unfolding a0_def by (intro exI [of _ a2] exI [of _ ?i]) blast
qed

section \<open>Two processes shrink the same table\<close>

text \<open>
  Process \<open>b\<close> has found the table when process \<open>a\<close> comes and replaces its file; then \<open>b\<close> goes on. The parts of
  the state the processes share are handed from the one to the other.
\<close>

definition shrink_race :: "nat \<Rightarrow> nat \<Rightarrow> shf \<Rightarrow> shf \<Rightarrow> shf_error + shf \<times> shf" where
  "shrink_race win tab a b =
     bindE (shrink_begin win tab b) (\<lambda>(old, b).
     bindE (shf_tab_shrink win tab (put_shm (shm.truncate b) a)) (\<lambda>a.
     bindE (shrink_end win tab old (put_shm (shm.truncate a) b)) (\<lambda>b. Inr (a, b))))"

text \<open>Replacing the file of a table by way of an old file that has no records: the new file is empty.\<close>

lemma shrink_refs_none:
  assumes "live (inode s old) = {}" "set rfs \<subseteq> slots"
  shows "shrink_refs win tab old rfs new s = Inr (new, s)"
  using assms(2)
proof (induction rfs)
  case (Cons rf rfs)
  then have "slot_pos (inode s old) rf = 0" using assms(1) by (cases rf) (auto simp: live_def)
  then show ?case using Cons by simp
qed simp

lemma shrink_end_empty:
  assumes ok: "shf_ok s" and win: "win < 256" and f: "tab_file s win tab = Some i" and t: "tab_ok (lens_of s) (inode s i)"
    and room: "shf_room n s" and old: "live (inode s old) = {}" "old < next_inode s" "old \<noteq> i"
  shows "\<exists>s'. shrink_end win tab old s = Inr s' \<and> same_routes s s' \<and> lens_of s' = lens_of s
     \<and> tab_file s' = (tab_file s)(win := (tab_file s win)(tab := Some (next_inode s)))
     \<and> inode s' (next_inode s) = init_tab 69632 \<and> (\<forall>j. j \<noteq> next_inode s \<longrightarrow> j \<noteq> old \<longrightarrow> inode s' j = inode s j)"
proof -
  let ?n = "next_inode s"
  have tb: "table s win tab = inode s i" by (rule table_Some [OF f])
  have rm: "room s 0 (inode s i)" "room s 0 (init_tab 69632)"
    using shf_roomD(1) [OF room win, of tab] shf_roomD(2) [OF room win] by (simp_all add: tb room_less)
  obtain s2 s3 where p: "unlink win tab s = Inr s2"
     "get_tab_mmap win tab (shf_tab_create win tab (set_off win tab 0 (off_size (tabs s2 win tab)) s2)) = Inr (?n, s3)"
     "same_thread s s3" "same_routes s s3"
     "tab_file s3 = (tab_file s)(win := (tab_file s win)(tab := Some ?n))"
     "\<forall>j. j \<noteq> ?n \<longrightarrow> inode s3 j = inode s j \<and> fsize s3 j = fsize s j" "inode s3 ?n = init_tab 69632"
    using shrink_prepare [OF ok f win t rm] by blast
  have "live (inode s3 old) = {}" using p(6) old(1,2) by simp
  then have "shrink_refs win tab old slot_list ?n s3 = Inr (?n, s3)" by (rule shrink_refs_none) (simp add: slot_list_props)
  then have "shrink_end win tab old s = Inr ((upd_inode old (\<lambda>t. t\<lparr>tab_size := 1\<rparr>) s3)\<lparr>count_mmap := u32_sub (count_mmap s3) 1\<rparr>)"
    using p(1,2) by (simp add: shrink_end_def Let_def upd_inode_def)
  then show ?thesis using p(3-7) old(2) same_threadD(2) [OF p(3)] by (simp add: upd_inode_def same_routes_def lens_of_def)
qed

text \<open>A process whose mapping has the size its header says goes on with it, whatever the path leads to.\<close>

lemma get_tab_current:
  assumes "off_mmap (tabs s win tab) = i" "i \<noteq> 0" "tab_size (inode s i) \<noteq> 0" "off_size (tabs s win tab) = tab_size (inode s i)" "tab < 2048"
  shows "get_tab_mmap win tab s = Inr (i, s)"
  using assms by (simp add: assertE_def shf_const_eq get_tab_mmap_def first_mmap_def init_header_def follow_size_def Let_def)

text \<open>What the two processes have in the end: \<open>i\<close> is the file of \<open>a\<close>, the next one that of \<open>b\<close>.\<close>

lemma shrink_race_result:
  assumes b: "shf_ok b" "shf_room n b" and a: "coherent b (tabs a)" "lens_of a = lens_of b" "shf_data_needed_factor a = shf_data_needed_factor b"
    and win: "win < 256" and tab: "tab < tabs_used (wins b win)"
  shows "\<exists>a' b' i. shrink_race win tab a b = Inr (a', b') \<and> shf_ok a' \<and> same_routes b b'
     \<and> (\<forall>w x. slot (lens_of b) (table a' w x) = slot (lens_of b) (table b w x)) \<and> tab_file a' win tab = Some i
     \<and> tabs a' win tab = \<lparr>off_mmap = i, off_size = tab_size (inode a' i)\<rparr> \<and> tab_size (inode a' i) \<noteq> 0
     \<and> tab_file b' = (tab_file a')(win := (tab_file a' win)(tab := Some (i + 1))) \<and> inode b' (i + 1) = init_tab 69632
     \<and> (\<forall>w t j. tab_file a' w t = Some j \<longrightarrow> inode b' j = inode a' j)"
proof -
  let ?L = "lens_of b"
  obtain old b1 where b1: "shrink_begin win tab b = Inr (old, b1)" "tab_file b1 win tab = Some old" "quiet b b1" "same_routes b b1"
    "shf_room n b1" "\<And>w x. slot ?L (table b1 w x) = slot ?L (table b w x)"
    using shrink_begin_ok [OF b(1) win tab b(2)] by blast
  note Q1 = quietD [OF b1(3)]
  have L: "lens_of a = lens_of b1" "shf_data_needed_factor a = shf_data_needed_factor b1"
    using same_threadD(2,3) [OF Q1(1)] a(2,3) by simp_all
  obtain a2 i where a2: "shf_tab_shrink win tab (put_shm (shm.truncate b1) a) = Inr a2" "shf_ok a2" "shf_room n a2" "same_routes b1 a2"
    "lens_of a2 = ?L" "shf_data_needed_factor a2 = shf_data_needed_factor b1" "coherent a2 (tabs b1)"
    "\<And>w x. slot ?L (table a2 w x) = slot ?L (table b1 w x)" "live (inode a2 old) = {}" "\<And>w x. tab_file a2 w x \<noteq> Some old" "old < i"
    "tab_file a2 win tab = Some i" "next_inode a2 = i + 1" "tabs a2 win tab = \<lparr>off_mmap = i, off_size = tab_size (inode a2 i)\<rparr>"
    "tab_ok ?L (inode a2 i)"
    using shrink_by_other [OF Q1(2) b1(5) Q1(3) [OF a(1)] L win b1(2)] shf_okD(4) [OF Q1(2)] unfolding Q1(5) by blast
  define b2 where "b2 = put_shm (shm.truncate a2) b1"
  note W = view_ok [OF a2(2,7), folded b2_def]
  have L2: "lens_of b1 = lens_of a2" "shf_data_needed_factor b1 = shf_data_needed_factor a2" using a2(5,6) Q1(5) by simp_all
  have b2: "tab_file b2 = tab_file a2" "next_inode b2 = i + 1" "inode b2 = inode a2" "wins b2 = wins a2" "lens_of b2 = ?L"
    using a2(13) Q1(5) by (simp_all add: b2_def)
  have room2: "shf_room n b2" using W(4) [OF L2] a2(3) by simp
  have tabs2: "tab_file b2 win tab = Some i" "tab_ok (lens_of b2) (inode b2 i)" "live (inode b2 old) = {}"
    "old < next_inode b2" "old \<noteq> i" using a2(9,11,12,15) by (simp_all add: b2)
  obtain b3 where b3: "shrink_end win tab old b2 = Inr b3" "same_routes b2 b3"
    "tab_file b3 = (tab_file b2)(win := (tab_file b2 win)(tab := Some (i + 1)))" "inode b3 (i + 1) = init_tab 69632"
    "\<And>j. j \<noteq> i + 1 \<Longrightarrow> j \<noteq> old \<Longrightarrow> inode b3 j = inode a2 j"
    using shrink_end_empty [OF W(1) [OF L2(1)] win tabs2(1,2) room2 tabs2(3-5)] by (auto simp: b2)
  have "shrink_race win tab a b = Inr (a2, b3)"
    using b1(1) a2(1) b3(1) by (simp add: shrink_race_def b2_def)
  moreover have "inode b3 j = inode a2 j" if "tab_file a2 w t = Some j" for w t j
    using b3(5) files_okD(2) [OF shf_okD(2) [OF a2(2)] that] a2(13) a2(10) [of w t] that by auto
  moreover have "same_routes b b3" using b1(4) a2(4) b3(2) by (auto simp: same_routes_def b2)
  moreover have "slot ?L (table a2 w x) = slot ?L (table b w x)" for w x using a2(8) b1(6) by simp
  moreover have "tab_size (inode a2 i) \<noteq> 0" using tab_ok_size_nonzero [OF a2(15)] by simp
  ultimately show ?thesis
    using a2(2,12,14) b3(3,4) unfolding b2 by (intro exI [of _ a2] exI [of _ b3] exI [of _ i]) blast
qed

text \<open>
  C12. Two processes that shrink the same table at the same time lose its records: when the second one has
  found the table before the first one replaces its file, it copies from a file that has been emptied.
  The path now leads to an empty table. The first process alone keeps the file with the records, which no
  path leads to, and it does not notice.
\<close>

theorem shrink_race_loses_records:
  assumes b: "shf_ok b" "shf_room n b" and a: "coherent b (tabs a)" "lens_of a = lens_of b" "shf_data_needed_factor a = shf_data_needed_factor b"
    and win: "win < 256" and tab: "tab < tabs_used (wins b win)"
  shows "\<exists>a' b' i. shrink_race win tab a b = Inr (a', b')
     \<and> kv (lens_of b) b' = (\<lambda>(w, t, r, f). if w = win \<and> win_tabs (wins b win) t = tab then None else kv (lens_of b) b (w, t, r, f))
     \<and> (\<forall>w t. tab_file b' w t \<noteq> Some i) \<and> slot (lens_of b) (inode b' i) = slot (lens_of b) (table b win tab)
     \<and> get_tab_mmap win tab (put_shm (shm.truncate b') a') = Inr (i, put_shm (shm.truncate b') a')"
proof -
  let ?L = "lens_of b"
  obtain a' b' i where R: "shrink_race win tab a b = Inr (a', b')" "shf_ok a'" "same_routes b b'"
    "\<And>w x. slot ?L (table a' w x) = slot ?L (table b w x)" "tab_file a' win tab = Some i"
    "tabs a' win tab = \<lparr>off_mmap = i, off_size = tab_size (inode a' i)\<rparr>" "tab_size (inode a' i) \<noteq> 0"
    "tab_file b' = (tab_file a')(win := (tab_file a' win)(tab := Some (i + 1)))" "inode b' (i + 1) = init_tab 69632"
    "\<And>w t j. tab_file a' w t = Some j \<Longrightarrow> inode b' j = inode a' j"
    using shrink_race_result [OF assms] by metis
  note F = files_okD [OF shf_okD(2) [OF R(2)]]
  have "table b' w x = (if w = win \<and> x = tab then init_tab 69632 else table a' w x)" for w x
    using R(8-10) by (auto simp: table_def split: option.split)
  then have "slot ?L (table b' w x) y = (if w = win \<and> x = tab then None else slot ?L (table b w x) y)" for w x y
    by (simp add: R(4) init_tab_slot)
  then have "kv ?L b' = (\<lambda>(w, t, r, f). if w = win \<and> win_tabs (wins b win) t = tab then None else kv ?L b (w, t, r, f))"
    using R(3) by (auto simp: kv_def same_routes_def fun_eq_iff)
  moreover have "tab_file b' w t \<noteq> Some i" for w t
    using F(4) [OF R(5), of w t] by (auto simp: R(8))
  moreover have "slot ?L (inode b' i) = slot ?L (table b win tab)"
    using R(4) [of win tab] by (simp add: R(10) [OF R(5)] table_Some [OF R(5)])
  moreover have "get_tab_mmap win tab (put_shm (shm.truncate b') a') = Inr (i, put_shm (shm.truncate b') a')"
    by (rule get_tab_current) (use R(6,7) F(1) [OF R(5)] R(10) [OF R(5)] files_okD(5) [OF shf_okD(2) [OF b(1)] win] tab in simp_all)
  ultimately show ?thesis using R(1) by blast
qed

theorem shrink_race_loses_records_witness:
  "\<exists>a' b'. shrink_race 120 (win_tabs (wins demo1 120) 1414) demo1 demo1 = Inr (a', b')
     \<and> kv (lens_of demo1) demo1 \<noteq> (\<lambda>_. None) \<and> kv (lens_of demo1) b' = (\<lambda>_. None)"
proof -
  obtain ref where k: "kv (lens_of demo1) demo1 = [(120, 1414, 247, ref) \<mapsto> (137628, [97], [1, 2, 3, 4, 5, 6, 7, 8])]"
    using demo1_ok(9) by blast
  note D = shf_okD [OF demo1_ok(1)]
  have "win_tabs (wins demo1 120) 1414 < tabs_used (wins demo1 120)" by (rule files_okD(8) [OF D(2)]) simp_all
  from shrink_race_loses_records [OF demo1_ok(1,2) D(4) refl refl _ this] obtain a' b' where
    "shrink_race 120 (win_tabs (wins demo1 120) 1414) demo1 demo1 = Inr (a', b')"
    "kv (lens_of demo1) b' = (\<lambda>(w, t, r, f). if w = 120 \<and> win_tabs (wins demo1 120) t = win_tabs (wins demo1 120) 1414
       then None else kv (lens_of demo1) demo1 (w, t, r, f))" by auto
  then show ?thesis by (intro exI [of _ a'] exI [of _ b']) (auto simp: k fun_eq_iff)
qed

section \<open>A process shrinks a table that another one searches\<close>

lemma search_row_none:
  assumes "live (inode s i) = {}" "row < 512" "set refs \<subseteq> {..<16}"
  shows "search_row win tab2 i row rnd refs s = Inr (None, s)"
  using assms(3)
proof (induction refs)
  case (Cons ref refs)
  then have "ref_pos (tab_row (inode s i) row ref) = 0"
    using assms(1,2) by (force simp: live_def slots_def slot_pos_def shf_const_eq)
  then show ?case using Cons by simp
qed simp

text \<open>
  A reader misses a key that is stored: between the moment it has found the table and its search of the
  row, another process replaces the file, which leaves the one that is searched without records.
\<close>

theorem shrink_hides_key:
  assumes b: "shf_ok b" "shf_room n b" and a: "coherent b (tabs a)" "lens_of a = lens_of b" "shf_data_needed_factor a = shf_data_needed_factor b"
    and h: "win = hash_win (the_hash b)" "tab2 = hash_tab2 (the_hash b)" "row = hash_row (the_hash b)" "tab = win_tabs (wins b win) tab2"
  shows "\<exists>old b1 a'. get_tab_mmap win tab b = Inr (old, b1) \<and> shf_tab_shrink win tab (put_shm (shm.truncate b1) a) = Inr a'
     \<and> kv (lens_of b) a' = kv (lens_of b) b
     \<and> search_row win tab2 old row rnd [0..<SHF_REFS_PER_ROW] (put_shm (shm.truncate a') b1) = Inr (None, put_shm (shm.truncate a') b1)"
proof -
  have w: "win < 256" "tab2 < 2048" "row < 512" by (simp_all add: h(1-3))
  note D = shf_okD [OF b(1)]
  have "tab < tabs_used (wins b win)" using files_okD(8) [OF D(2) w(1,2)] by (simp add: h(4))
  then obtain old b1 where g: "tab_file b win tab = Some old" "get_tab_mmap win tab b = Inr (old, b1)" "got_tab win tab old b b1"
    using get_tab_mmap_ok [OF D(2,4) w(1)] by blast
  note G = got_tab_quiet [OF b(1) g(3,1)] and Q = quietD [OF got_tab_quiet(1) [OF b(1) g(3,1)]]
  have f: "tab_file b1 win tab = Some old" "same_routes b b1" using g(1,3) by (simp_all add: got_tab_def)
  have "table b1 = (table b)(win := (table b win)(tab := init_of (inode b old)))" by (rule set_table_table [OF G(2) D(2)])
  then have room: "shf_room n b1" by (intro shf_room_mono [OF b(2) Q(1)]) (auto simp: init_of_def simp flip: table_Some [OF g(1)])
  have L: "lens_of a = lens_of b1" "shf_data_needed_factor a = shf_data_needed_factor b1" using same_threadD(2,3) [OF Q(1)] a(2,3) by simp_all
  obtain a' where a': "shf_tab_shrink win tab (put_shm (shm.truncate b1) a) = Inr a'" "same_routes b1 a'"
    "\<And>w x. slot (lens_of b) (table a' w x) = slot (lens_of b) (table b1 w x)" "live (inode a' old) = {}"
    using shrink_by_other [OF Q(2) room Q(3) [OF a(1)] L w(1) f(1)] unfolding Q(5) by blast
  have "kv (lens_of b) a' = kv (lens_of b) b1" by (rule kv_same [OF a'(2,3)])
  then have "kv (lens_of b) a' = kv (lens_of b) b" using Q(4) by simp
  moreover have "search_row win tab2 old row rnd [0..<SHF_REFS_PER_ROW] (put_shm (shm.truncate a') b1) = Inr (None, put_shm (shm.truncate a') b1)"
    by (rule search_row_none) (use a'(4) w(3) in \<open>auto simp: shf_const_eq\<close>)
  ultimately show ?thesis using g(2) a'(1) by blast
qed

end
