(* ===== verification/Shf_Admin.thy ===== *)
theory Shf_Admin
  imports Shf_Detach
begin

text \<open>
  The small operations of an instance: its settings, the debug functions that look at its tables, the
  update callback, and \<open>shf_del\<close>.
\<close>

section \<open>Settings\<close>

text \<open>\<open>shf_set_data_need_factor\<close> asserts that the old factor is positive.\<close>

definition shf_set_data_need_factor :: "nat \<Rightarrow> shf \<Rightarrow> shf_error + shf" where
  "shf_set_data_need_factor f s =
     bindE (assertE (0 < shf_data_needed_factor s) Bad_argument) (\<lambda>_. Inr (s\<lparr>shf_data_needed_factor := f\<rparr>))"

definition shf_set_is_lockable :: "nat \<Rightarrow> shf \<Rightarrow> shf_error + shf" where
  "shf_set_is_lockable b s = bindE (assertE (b \<le> 1) Bad_argument) (\<lambda>_. Inr (s\<lparr>is_lockable := b\<rparr>))"

definition shf_set_is_fixed_len :: "nat \<Rightarrow> nat \<Rightarrow> shf \<Rightarrow> shf" where
  "shf_set_is_fixed_len kl vl s = s\<lparr>fixed_key_len := kl, fixed_val_len := vl, is_fixed_key_val_len := True\<rparr>"

section \<open>The update callback\<close>

text \<open>
  \<open>shf_upd_callback_copy\<close> plays two parts: called by the user it presets the value to copy, called by an
  update it copies it. A callback is the built-in one or one of the user's.
\<close>

datatype upd_callback = Callback_copy | Callback_user "byte list \<Rightarrow> nat \<times> byte list"

record upd_thread =
  shf_upd_callback :: upd_callback
  shf_upd_callback_copy_val :: "byte list"

definition shf_upd_callback_set :: "upd_callback \<Rightarrow> shf \<times> upd_thread \<Rightarrow> shf \<times> upd_thread" where
  "shf_upd_callback_set f = (\<lambda>(s, u). (s\<lparr>shf_upd_callback_failsafe := 0\<rparr>, u\<lparr>shf_upd_callback := f\<rparr>))"

definition upd_callback_copy :: "byte list \<Rightarrow> shf \<times> upd_thread \<Rightarrow> nat \<times> byte list \<times> upd_thread" where
  "upd_callback_copy bs = (\<lambda>(s, u).
     if shf_upd_callback_failsafe s = 0 then (SHF_RET_OK, bs, u\<lparr>shf_upd_callback_copy_val := bs\<rparr>)
     else let (r, bs') = shf_upd_callback_copy (shf_upd_callback_copy_val u) bs in (r, bs', u))"

text \<open>The function an update runs on the value it has found.\<close>

definition upd_fun :: "upd_thread \<Rightarrow> byte list \<Rightarrow> nat \<times> byte list" where
  "upd_fun u = (case shf_upd_callback u of
     Callback_copy \<Rightarrow> shf_upd_callback_copy (shf_upd_callback_copy_val u) | Callback_user f \<Rightarrow> f)"

section \<open>Looking at the tables\<close>

text \<open>
  \<open>shf_debug_get_garbage\<close>: it reads the tables through the mappings of the process as they are.
\<close>

primrec garbage_sum :: "(nat \<times> nat) list \<Rightarrow> nat \<Rightarrow> shf \<Rightarrow> shf_error + nat" where
  "garbage_sum [] all_data_free s = Inr all_data_free"
| "garbage_sum (p # ps) all_data_free s =
     (let i = off_mmap (tabs s (fst p) (snd p))
      in bindE (assertE (i \<noteq> 0) Null_pointer) (\<lambda>_. garbage_sum ps (u64 (all_data_free + tab_data_free (inode s i))) s))"

definition shf_debug_get_garbage :: "shf \<Rightarrow> shf_error + nat" where
  "shf_debug_get_garbage s = garbage_sum (all_tabs (\<lambda>w. tabs_used (wins s w)) [0..<SHF_WINS_PER_SHF]) 0 s"

text \<open>\<open>shf_tab_validate\<close> of the debug version.\<close>

primrec validate_refs :: "lens \<Rightarrow> nat \<Rightarrow> tab_mmap \<Rightarrow> (nat \<times> nat) list \<Rightarrow> nat \<Rightarrow> shf_error + nat" where
  "validate_refs L sz t [] refs_validated = Inr refs_validated"
| "validate_refs L sz t (rf # rfs) refs_validated =
     (let pos = slot_pos t rf; ll = len_len L in
      if pos \<noteq> 0 then
        let key_len = ref_key_len L (tab_data t) pos; val_len = ref_val_len L (tab_data t) pos in
        bindE (assertE (key_len \<noteq> 0) Empty_key) (\<lambda>_.
        bindE (assertE (pos \<le> sz) Pos_past_end) (\<lambda>_.
        bindE (assertE (u32 (pos + 1 + ll + key_len) \<le> sz) Key_past_end) (\<lambda>_.
        bindE (assertE (u32 (pos + 1 + ll + key_len + ll + val_len) \<le> sz) Val_past_end) (\<lambda>_.
        validate_refs L sz t rfs (u32 (refs_validated + 1))))))
      else validate_refs L sz t rfs refs_validated)"

definition shf_tab_validate :: "lens \<Rightarrow> nat \<Rightarrow> tab_mmap \<Rightarrow> shf_error + nat" where
  "shf_tab_validate L sz t = validate_refs L sz t slot_list 0"

section \<open>shf_del\<close>

text \<open>
  The instance is detached and its folder removed by a command of the shell, \<open>rm_folder\<close>, whose output
  the operation returns.
\<close>

definition shf_del :: "(shf \<Rightarrow> string \<times> shf) \<Rightarrow> log_mmap \<Rightarrow> shf \<times> allocs \<times> log_proc
    \<Rightarrow> shf_error + (string \<times> shf \<times> allocs \<times> log_proc) option" where
  "shf_del rm_folder m st = bindE (shf_detach m st) (\<lambda>r. case r of None \<Rightarrow> Inr None
     | Some (s, a, p) \<Rightarrow> (let (du_rm_output, s) = rm_folder s in Inr (Some (du_rm_output, s, a, p))))"

section \<open>Fixed lengths\<close>

text \<open>
  Set on a fresh instance, fixed lengths whose records can hold the link of the free list, or are too
  short for the code to try, leave it in good order, with room for as much as before.
\<close>

lemma fixed_len_ok:
  assumes "kl + vl < 4 \<or> 8 \<le> kl + vl" "kl + vl < 2147483648"
  shows "shf_ok (shf_set_is_fixed_len kl vl (shf_attach v))"
    "lens_of (shf_set_is_fixed_len kl vl (shf_attach v)) = \<lparr>len_len = 0, fixed_key = kl, fixed_val = vl\<rparr>"
    "2 ^ 32 \<le> v \<Longrightarrow> n < 2147000000 \<Longrightarrow> shf_room n (shf_set_is_fixed_len kl vl (shf_attach v))"
proof -
  let ?s = "shf_set_is_fixed_len kl vl (shf_attach v)"
  show L: "lens_of ?s = \<lparr>len_len = 0, fixed_key = kl, fixed_val = vl\<rparr>" by (simp add: lens_of_def shf_set_is_fixed_len_def)
  have t: "table ?s w x = zero_tab" for w x by (simp add: table_def shf_set_is_fixed_len_def)
  have f: "files_ok M ?s" for M
    by (rule files_okI) (auto simp: zero_tab_inode_ok shf_set_is_fixed_len_def split: if_splits)
  moreover have "routes_ok ?s" by (simp add: routes_ok_def t)
  moreover have "coherent ?s (tabs ?s)" by (simp add: coherent_def mapping_ok_def shf_set_is_fixed_len_def)
  moreover have "lens_ok (lens_of ?s)" using assms by (simp add: lens_ok_def L)
  ultimately show "shf_ok ?s" by (simp add: shf_ok_def)
  show "shf_room n ?s" if "2 ^ 32 \<le> v" "n < 2147000000"
    using that by (simp add: shf_room_def room_def zero_tab_def t) (simp add: shf_set_is_fixed_len_def)
qed

text \<open>
  In fixed length mode, too, no call trips an assertion: on a fresh instance with fixed lengths, every
  sequence of calls that keeps to the lengths and finds memory returns, or stops at a window with all
  its tables.
\<close>

theorem fixed_len_calls:
  assumes "kl + vl < 4 \<or> 8 \<le> kl + vl" "kl + vl < 2147483648" "2 ^ 32 \<le> v"
    and "calls_need \<lparr>len_len = 0, fixed_key = kl, fixed_val = vl\<rparr> key cs < 2147000000"
    and "calls_legal \<lparr>len_len = 0, fixed_key = kl, fixed_val = vl\<rparr> key cs"
  shows "run_calls (Make_hash key # cs) (shf_set_is_fixed_len kl vl (shf_attach v)) = Inl Tab_overflow
     \<or> (\<exists>rs s'. run_calls (Make_hash key # cs) (shf_set_is_fixed_len kl vl (shf_attach v)) = Inr (rs, s') \<and> shf_ok s'
          \<and> length rs = Suc (length cs))"
proof -
  let ?s = "shf_set_is_fixed_len kl vl (shf_attach v)"
  note F = fixed_len_ok [OF assms(1,2), of v]
  have "shf_upd_callback_failsafe ?s = 0" by (simp add: shf_set_is_fixed_len_def)
  then have "api_ok (calls_need (lens_of ?s) (shf_hash_key ?s) (Make_hash key # cs) + 0) ?s"
    using F(1) F(3) [OF assms(3), of "calls_need \<lparr>len_len = 0, fixed_key = kl, fixed_val = vl\<rparr> key cs"] assms(4)
    by (simp add: api_ok_def F(2))
  from calls_go_on [OF this] show ?thesis using assms(5) by (auto simp: F(2) api_ok_def)
qed

theorem fixed_len_calls_witness:
  "run_calls [Make_hash [1, 2, 3, 4], Put_key_val (Some [5, 6, 7, 8]) 4, Del_key_val] (shf_set_is_fixed_len 4 4 (shf_attach (2 ^ 32))) = Inl Tab_overflow
   \<or> (\<exists>rs s'. run_calls [Make_hash [1, 2, 3, 4], Put_key_val (Some [5, 6, 7, 8]) 4, Del_key_val] (shf_set_is_fixed_len 4 4 (shf_attach (2 ^ 32)))
        = Inr (rs, s') \<and> shf_ok s' \<and> length rs = 3)"
  using fixed_len_calls [of 4 4 "2 ^ 32" "[1, 2, 3, 4]" "[Put_key_val (Some [5, 6, 7, 8]) 4, Del_key_val]"]
  by (simp add: data_needed_def fits_def numeral_3_eq_3 del: run_calls.simps)

section \<open>Garbage\<close>

lemma garbage_sum_ok:
  assumes "\<forall>(w, t) \<in> set ps. current s w t \<and> tab_data_free (table s w t) < 4294967296"
    and "n + length ps * 4294967296 \<le> 18446744073709551616"
  shows "garbage_sum ps n s = Inr (n + (\<Sum>(w, t) \<leftarrow> ps. tab_data_free (table s w t)))"
  using assms
proof (induction ps arbitrary: n)
  case (Cons p ps)
  obtain w t where p: "p = (w, t)" by (cases p)
  let ?i = "off_mmap (tabs s w t)"
  have c: "?i \<noteq> 0" "tab_data_free (inode s ?i) = tab_data_free (table s w t)" "tab_data_free (table s w t) < 4294967296"
    using Cons.prems(1) by (auto simp: p current_def table_Some)
  have "garbage_sum ps (n + tab_data_free (table s w t)) s
      = Inr (n + tab_data_free (table s w t) + (\<Sum>(w, t) \<leftarrow> ps. tab_data_free (table s w t)))"
    using Cons.prems c(3) by (intro Cons.IH) auto
  moreover have "n + tab_data_free (table s w t) < 18446744073709551616" using Cons.prems(2) c(3) by simp
  ultimately show ?case using c by (simp add: p Let_def add.assoc)
qed simp

lemma table_free_bound:
  assumes "shf_ok s" "win < 256"
  shows "tab_data_free (table s win tab) < 4294967296"
proof (cases "tab_file s win tab")
  case (Some i)
  have "inode_ok (lens_of s) (inode s i) (fsize s i)" using files_okD(3) [OF shf_okD(2) [OF assms(1)] Some] .
  then show ?thesis by (auto simp: table_Some [OF Some] inode_ok_def tab_ok_def acct_ok_def header_ok_def zero_tab_def)
qed (simp add: table_def zero_tab_def)

lemma sum_all_tabs: "(\<Sum>(w, t) \<leftarrow> all_tabs u [0..<n]. f w t) = (\<Sum>w < n. \<Sum>t < u w. f w t)"
proof (induction n)
  case (Suc n)
  have "sum_list (map (f n) [0..<m]) = (\<Sum>t < m. f n t)" for m by (simp add: sum_list_sum_nth lessThan_atLeast0)
  then show ?case using Suc by (simp add: all_tabs_def comp_def)
qed (simp add: all_tabs_def)

text \<open>
  C22. \<open>shf_debug_get_garbage\<close> reads the tables through the mappings the process happens to have. In a
  process that has just attached it dereferences a NULL pointer. After a walk over all tables it returns
  the bytes that deletions have left in all tables, whatever the mappings were before.
\<close>

theorem garbage_after_walk:
  assumes ok: "shf_ok s"
  shows "shf_debug_get_garbage (shf_attach_existing s) = Inl Null_pointer
     \<and> (\<exists>copies s' buf'. scan (\<Sum>w < 256. tabs_used (wins s w)) (0, 0) (s, buf) = Inr (copies, (0, 0), s', buf')
          \<and> shf_debug_get_garbage s' = Inr (\<Sum>w < 256. \<Sum>t < tabs_used (wins s w). tab_data_free (table s w t)))"
proof
  let ?u = "\<lambda>w. tabs_used (wins s w)"
  note F = shf_okD(2) [OF ok]
  have z: "0 < ?u 0" using files_okD(8) [OF F, of 0 0] by simp
  have w: "SHF_WINS_PER_SHF = 256" by (simp add: shf_const_eq)
  have "all_tabs ?u [0..<256] = (0, 0) # map (Pair 0) [1..<?u 0] @ all_tabs ?u [1..<256]"
    using z by (simp add: all_tabs_def upt_conv_Cons [of 0 256] upt_conv_Cons [of 0 "?u 0"] del: upt_Suc upt_rec_numeral)
  then show "shf_debug_get_garbage (shf_attach_existing s) = Inl Null_pointer"
    unfolding shf_debug_get_garbage_def w by (simp add: shf_attach_existing_def Let_def)
  obtain copies s' buf' where c: "scan (\<Sum>w < 256. ?u w) (0, 0) (s, buf) = Inr (copies, (0, 0), s', buf')" "quiet s s'" "same_look s s'"
    "\<forall>w < 256. \<forall>t < ?u w. current s' w t"
    using full_scan [OF ok refl, of buf] by blast
  have u: "tabs_used (wins s' w) = ?u w" for w using c(3) by (simp add: same_look_def same_routes_def)
  have fr: "tab_data_free (table s' w t) = tab_data_free (table s w t)" for w t using c(3) by (simp add: same_look_def)
  have mem: "w < 256 \<and> t < ?u w" if "(w, t) \<in> set (all_tabs ?u [0..<256])" for w t using that by (auto simp: all_tabs_def)
  have len: "length (all_tabs ?u [0..<m]) = (\<Sum>w < m. ?u w)" for m by (induction m) (simp_all add: all_tabs_def)
  have "(\<Sum>w < 256. ?u w) \<le> (\<Sum>w < (256 :: nat). 2048)" using files_okD(5) [OF F] by (intro sum_mono) simp
  then have n: "0 + length (all_tabs ?u [0..<256]) * 4294967296 \<le> 18446744073709551616" unfolding len by simp
  have all: "\<forall>(w, t) \<in> set (all_tabs ?u [0..<256]). current s' w t \<and> tab_data_free (table s' w t) < 4294967296"
    using c(4) mem table_free_bound [OF ok] by (auto simp: fr)
  have "shf_debug_get_garbage s' = Inr (\<Sum>w < 256. \<Sum>t < ?u w. tab_data_free (table s w t))"
    using garbage_sum_ok [OF all n] unfolding shf_debug_get_garbage_def w u sum_all_tabs by (simp add: fr)
  then show "\<exists>copies s' buf'. scan (\<Sum>w < 256. ?u w) (0, 0) (s, buf) = Inr (copies, (0, 0), s', buf')
      \<and> shf_debug_get_garbage s' = Inr (\<Sum>w < 256. \<Sum>t < ?u w. tab_data_free (table s w t))" using c(1) by blast
qed

section \<open>Validation\<close>

lemma live_in_size:
  assumes "tab_ok L t" "rf \<in> slots" "slot_pos t rf \<noteq> 0"
  shows "slot_pos t rf + 1 + len_len L + ref_key_len L (tab_data t) (slot_pos t rf) + len_len L
      + ref_val_len L (tab_data t) (slot_pos t rf) \<le> tab_size t" "tab_size t < 4294967296"
proof -
  have "rf \<in> live t" using assms(2,3) by (simp add: live_def)
  moreover have "\<forall>x \<in> live t. in_data t (slot_pos t x) (slot_size L t x)" using assms(1) unfolding tab_ok_def live_ok_def by blast
  ultimately have "in_data t (slot_pos t rf) (slot_size L t rf)" by blast
  moreover have h: "tab_used t \<le> tab_size t" "tab_size t < 4294967296" using assms(1) by (simp_all add: tab_ok_def header_ok_def)
  ultimately show "slot_pos t rf + 1 + len_len L + ref_key_len L (tab_data t) (slot_pos t rf) + len_len L
      + ref_val_len L (tab_data t) (slot_pos t rf) \<le> tab_size t"
    by (simp add: in_data_def slot_size_def rec_size_def data_needed_def)
  show "tab_size t < 4294967296" by (rule h(2))
qed

lemma validate_refs_ok:
  assumes ok: "tab_ok L t" and "set rfs \<subseteq> slots" "n + length rfs < 4294967296"
  shows "validate_refs L (tab_size t) t rfs n =
     (if \<exists>rf \<in> set rfs. slot_pos t rf \<noteq> 0 \<and> ref_key_len L (tab_data t) (slot_pos t rf) = 0 then Inl Empty_key
      else Inr (n + length (filter (\<lambda>rf. slot_pos t rf \<noteq> 0) rfs)))"
  using assms(2,3)
proof (induction rfs arbitrary: n)
  case (Cons rf rfs)
  show ?case
  proof (cases "slot_pos t rf = 0")
    case False
    have rf: "rf \<in> slots" using Cons.prems(1) by simp
    note S = live_in_size [OF ok rf False]
    show ?thesis
    proof (cases "ref_key_len L (tab_data t) (slot_pos t rf) = 0")
      case True
      then show ?thesis using False by (simp add: Let_def)
    next
      case key: False
      have "validate_refs L (tab_size t) t (rf # rfs) n = validate_refs L (tab_size t) t rfs (n + 1)"
        using False key S Cons.prems(2) by (simp add: Let_def)
      then show ?thesis using False key Cons.IH [of "n + 1"] Cons.prems by simp
    qed
  qed (use Cons in auto)
qed simp

text \<open>
  The validation of the debug version accepts a table in good order, and counts its records, exactly
  if no key is empty; the operations store empty keys like any other.
\<close>

theorem validate_exact:
  assumes "tab_ok L t"
  shows "shf_tab_validate L (tab_size t) t = (if \<exists>rf tab2 rnd v. slot L t rf = Some (tab2, rnd, [], v) then Inl Empty_key else Inr (card (live t)))"
proof -
  have set: "set slot_list = slots" "distinct slot_list" "length slot_list = 8192"
    using slot_list_props by (simp_all add: slot_list_def shf_const_eq)
  have nil: "ref_key L m pos = [] \<longleftrightarrow> ref_key_len L m pos = 0" for m pos
    using length_0_conv [of "ref_key L m pos"] by (simp add: ref_key_def)
  have "(\<exists>tab2 rnd v. slot L t rf = Some (tab2, rnd, [], v))
      \<longleftrightarrow> rf \<in> slots \<and> slot_pos t rf \<noteq> 0 \<and> ref_key_len L (tab_data t) (slot_pos t rf) = 0" for rf
    by (simp add: slot_def live_def Let_def slot_pos_def nil)
  then have "(\<exists>rf \<in> slots. slot_pos t rf \<noteq> 0 \<and> ref_key_len L (tab_data t) (slot_pos t rf) = 0)
      \<longleftrightarrow> (\<exists>rf tab2 rnd v. slot L t rf = Some (tab2, rnd, [], v))" by blast
  moreover have "length (filter (\<lambda>rf. slot_pos t rf \<noteq> 0) slot_list) = card (live t)"
    using distinct_card [of "filter (\<lambda>rf. slot_pos t rf \<noteq> 0) slot_list"] set by (simp add: live_def)
  ultimately show ?thesis using validate_refs_ok [OF assms, of slot_list 0] set by (simp add: shf_tab_validate_def)
qed

text \<open>The table of one put key.\<close>

theorem validate_exact_witness:
  "let t = table demo1 120 (win_tabs (wins demo1 120) 1414)
   in live t \<noteq> {} \<and> shf_tab_validate (lens_of demo1) (tab_size t) t = Inr (card (live t))"
proof -
  let ?tab = "win_tabs (wins demo1 120) 1414" and ?L = "lens_of demo1"
  let ?t = "table demo1 120 ?tab"
  note D = shf_okD [OF demo1_ok(1)]
  obtain ref where k: "kv ?L demo1 = [(120, 1414, 247, ref) \<mapsto> (137628, [97], [1, 2, 3, 4, 5, 6, 7, 8])]"
    using demo1_ok(9) by blast
  have "kv ?L demo1 (120, 1414, 247, ref) = Some (137628, [97], [1, 2, 3, 4, 5, 6, 7, 8])" by (simp add: k)
  then have l: "(247, ref) \<in> live ?t" by (auto simp: kv_eq slot_def split: option.splits if_splits)
  obtain i where i: "tab_file demo1 120 ?tab = Some i" using l by (cases "tab_file demo1 120 ?tab") (auto simp: table_def)
  have "inode_ok ?L ?t (fsize demo1 i)" using files_okD(3) [OF D(2) i] by (simp add: table_Some [OF i])
  then have ok: "tab_ok ?L ?t" using l by (auto simp: inode_ok_def)
  have R: "routed (wins demo1 120) ?tab ?t" using D(3) by (simp add: routes_ok_def shf_const_eq)
  have "slot ?L ?t rf \<noteq> Some (tab2, rnd, [], v)" for rf tab2 rnd v
  proof
    assume a: "slot ?L ?t rf = Some (tab2, rnd, [], v)"
    have "win_tabs (wins demo1 120) tab2 = ?tab" using R a unfolding routed_slot [of _ _ _ ?L] by blast
    then have "kv ?L demo1 (120, tab2, fst rf, snd rf) = Some (rnd, [], v)" using a by (cases rf) (simp add: kv_eq)
    then show False by (simp add: k split: if_splits)
  qed
  then show ?thesis using validate_exact [OF ok] l by (auto simp: Let_def)
qed

theorem garbage_after_walk_witness:
  "shf_debug_get_garbage (shf_attach_existing demo1) = Inl Null_pointer
   \<and> (\<exists>n copies s' buf' g. scan n (0, 0) (demo1, \<lparr>shf_tab = zero_tab, shf_tab_size = 4096, shf_tab_len = 0\<rparr>)
        = Inr (copies, (0, 0), s', buf') \<and> shf_debug_get_garbage s' = Inr g)"
  using garbage_after_walk [OF demo1_ok(1)] by blast

end
