(* ===== verification/Shf_Test.thy ===== *)
theory Shf_Test
  imports Shf_Admin
begin

text \<open>
  The functional test of the repository, \<open>test.9.shf.c\<close>, on the model: its calls for keys and values, line by
  line with the checks it makes, and a proof that every check succeeds. While the test runs the instance
  holds one record at most; what each call does to such an instance and to the variables of the thread
  is computed by a small abstract machine, \<open>cell\<close>, which the model refines.
\<close>

section \<open>The program\<close>

text \<open>The callback of the test swaps the first and the last byte of the value.\<close>

definition upd_callback_test :: "byte list \<Rightarrow> nat \<times> byte list" where
  "upd_callback_test val = (let temp = hd val; val = val[0 := last val] in (0, val[length val - 1 := temp]))"

text \<open>
  What \<open>ok\<close> is applied to, other than the result of a call: conditions on the variables of the thread and
  on the variable \<open>uid\<close> of the test. \<open>memcmp\<close> compares as many bytes as are given. The bytes of \<open>shf_val\<close>
  after \<open>shf_val_len\<close> are not part of the model, so that of \<open>shf_val[0] = 0; shf_val_len = 0\<close> the second
  assignment is left, and of the check that both are still zero the one that nothing has been copied.
\<close>

datatype test_cond = Uid_none | Uid_set | Saved_set | Uid_is_saved | Val_len nat | Val_is "byte list" | Val_cleared
  | Key_len nat | Key_is "byte list" | Long_is "64 word" | Val_long_is "64 word"

datatype test_line =
    Ok_call nat api_call              \<comment> \<open>\<open>ok(result == call)\<close>\<close>
  | Ok_uid nat "nat \<Rightarrow> api_call"      \<comment> \<open>the same, for a call that gets \<open>uid\<close>\<close>
  | Ok_upd_key nat | Ok_upd_uid nat   \<comment> \<open>the calls that run the update callback\<close>
  | Ok_preset nat "byte list"         \<comment> \<open>\<open>shf_upd_callback_copy\<close>, called by the user\<close>
  | Ok_if test_cond
  | Do_save_uid                       \<comment> \<open>\<open>uid = shf_uid\<close>\<close>
  | Do_make_hash "byte list" | Do_own_hash shf_hash "byte list"
  | Do_set_ttl nat | Do_clear_val | Do_set_callback upd_callback

record test_st =
  t_shf :: shf
  t_upd :: upd_thread
  t_uid :: nat
  t_checks :: "bool list"

definition cond_holds :: "test_cond \<Rightarrow> test_st \<Rightarrow> bool" where
  "cond_holds b st = (let s = t_shf st in case b of
     Uid_none \<Rightarrow> shf_uid s = SHF_UID_NONE
   | Uid_set \<Rightarrow> shf_uid s \<noteq> SHF_UID_NONE
   | Saved_set \<Rightarrow> t_uid st \<noteq> SHF_UID_NONE
   | Uid_is_saved \<Rightarrow> shf_uid s = t_uid st
   | Val_len n \<Rightarrow> length (shf_val s) = n
   | Val_is bs \<Rightarrow> take (length bs) (shf_val s) = bs
   | Val_cleared \<Rightarrow> shf_val s = []
   | Key_len n \<Rightarrow> length (shf_key s) = n
   | Key_is bs \<Rightarrow> take (length bs) (shf_key s) = bs
   | Long_is w \<Rightarrow> shf_val_long s = w
   | Val_long_is w \<Rightarrow> 8 \<le> length (shf_val s) \<and> long_of (shf_val s) = w)"

text \<open>The lines are run with what makes the calls, here \<open>run_call\<close>; the test of the C++ class has the same lines.\<close>

type_synonym runner = "api_call \<Rightarrow> shf \<Rightarrow> shf_error + nat \<times> shf"

definition check :: "bool \<Rightarrow> test_st \<Rightarrow> test_st" where
  "check b st = st\<lparr>t_checks := t_checks st @ [b]\<rparr>"

definition check_call :: "runner \<Rightarrow> nat \<Rightarrow> api_call \<Rightarrow> test_st \<Rightarrow> shf_error + test_st" where
  "check_call run r c st = bindE (run c (t_shf st)) (\<lambda>(res, s). Inr (check (res = r) (st\<lparr>t_shf := s\<rparr>)))"

fun run_line :: "runner \<Rightarrow> test_line \<Rightarrow> test_st \<Rightarrow> shf_error + test_st" where
  "run_line run (Ok_call r c) st = check_call run r c st"
| "run_line run (Ok_uid r c) st = check_call run r (c (t_uid st)) st"
| "run_line run (Ok_upd_key r) st = check_call run r (Upd_key_val (upd_fun (t_upd st))) st"
| "run_line run (Ok_upd_uid r) st = check_call run r (Upd_uid_val (t_uid st) (upd_fun (t_upd st))) st"
| "run_line run (Ok_preset r bs) st =
     (let (res, _, u) = upd_callback_copy bs (t_shf st, t_upd st) in Inr (check (res = r) (st\<lparr>t_upd := u\<rparr>)))"
| "run_line run (Ok_if b) st = Inr (check (cond_holds b st) st)"
| "run_line run Do_save_uid st = Inr (st\<lparr>t_uid := shf_uid (t_shf st)\<rparr>)"
| "run_line run (Do_make_hash key) st = Inr (st\<lparr>t_shf := shf_make_hash (Some key) (t_shf st)\<rparr>)"
| "run_line run (Do_own_hash h key) st = Inr (st\<lparr>t_shf := (t_shf st)\<lparr>the_hash := h, shf_hash_key := key\<rparr>\<rparr>)"
| "run_line run (Do_set_ttl ttl) st = Inr (st\<lparr>t_shf := (t_shf st)\<lparr>shf_ttl := ttl\<rparr>\<rparr>)"
| "run_line run Do_clear_val st = Inr (st\<lparr>t_shf := (t_shf st)\<lparr>shf_val := []\<rparr>\<rparr>)"
| "run_line run (Do_set_callback f) st =
     (let (s, u) = shf_upd_callback_set f (t_shf st, t_upd st) in Inr (st\<lparr>t_shf := s, t_upd := u\<rparr>))"

primrec run_lines :: "runner \<Rightarrow> test_line list \<Rightarrow> test_st \<Rightarrow> shf_error + test_st" where
  "run_lines run [] st = Inr st"
| "run_lines run (l # ls) st = bindE (run_line run l st) (run_lines run ls)"

fun is_check :: "test_line \<Rightarrow> bool" where
  "is_check (Ok_call _ _) = True" | "is_check (Ok_uid _ _) = True" | "is_check (Ok_upd_key _) = True"
| "is_check (Ok_upd_uid _) = True" | "is_check (Ok_preset _ _) = True" | "is_check (Ok_if _) = True" | "is_check _ = False"

text \<open>The calls for one key, \<open>key\<close>, from the first search for it to the last deletion.\<close>

definition test_ops_1 :: "test_line list" where
  "test_ops_1 = (let found = SHF_RET_KEY_FOUND; none = SHF_RET_KEY_NONE; val = str_bytes ''val''; key = str_bytes ''key'' in
   [Do_make_hash key,
    Ok_call none Get_key_val_copy, Ok_if Uid_none,
    Ok_upd_key none,
    Ok_call none Del_key_val,
    Ok_call SHF_RET_KEY_PUT (Put_key_val (Some val) 3), Do_save_uid, Ok_if Saved_set,
    Ok_uid found Get_uid_val_copy, Ok_if (Val_len 3), Ok_if (Val_is val), Ok_if Uid_set,
    Ok_call found Get_key_val_copy, Ok_if (Val_len 3), Ok_if (Val_is val), Ok_if Uid_is_saved,
    Ok_call found Get_key_key_copy, Ok_if (Key_len 3), Ok_if (Key_is key),
    Ok_uid found Get_uid_key_copy, Ok_if (Key_len 3), Ok_if (Key_is key),
    Ok_preset SHF_RET_OK (str_bytes ''upvZ''),
    Ok_upd_key (found + SHF_RET_BAD_CB),
    Ok_upd_uid (found + SHF_RET_BAD_CB),
    Ok_preset SHF_RET_OK (str_bytes ''up1''),
    Ok_upd_key found,
    Ok_call found Get_key_val_copy, Ok_if (Val_len 3), Ok_if (Val_is (str_bytes ''up1'')),
    Ok_preset SHF_RET_OK (str_bytes ''up2''),
    Ok_upd_uid found,
    Ok_call found Get_key_val_copy, Ok_if (Val_len 3), Ok_if (Val_is (str_bytes ''up2'')),
    Do_set_callback (Callback_user upd_callback_test),
    Ok_upd_key found,
    Ok_call found Get_key_val_copy, Ok_if (Val_len 3), Ok_if (Val_is (str_bytes ''2pu'')),
    Do_set_callback (Callback_user upd_callback_test),
    Ok_upd_uid found,
    Ok_call found Get_key_val_copy, Ok_if (Val_len 3), Ok_if (Val_is (str_bytes ''up2'')),
    Ok_uid found Del_uid_val,
    Ok_call none Get_key_val_copy,
    Ok_uid none Del_uid_val,
    Ok_call SHF_RET_KEY_PUT (Put_key_val (Some (str_bytes ''2222'')) 4), Do_save_uid, Ok_if Saved_set,
    Ok_uid found Get_uid_val_copy, Ok_if (Val_len 4), Ok_if (Val_is (str_bytes ''2222'')), Do_set_ttl 1234, Do_clear_val,
    Ok_call (found + SHF_RET_NOT_TTL) Del_key_val, Do_set_ttl 842150450, Ok_if Val_cleared, Ok_if (Val_len 0),
    Ok_call found Del_key_val, Ok_if (Val_is (str_bytes ''2222'')), Ok_if (Val_len 4),
    Ok_call SHF_RET_KEY_PUT (Put_key_val (Some val) 3), Do_save_uid, Ok_if Saved_set,
    Ok_call (found + SHF_RET_BAD_VAL) (Add_key_val 123),
    Ok_uid (found + SHF_RET_BAD_VAL) (\<lambda>uid. Add_uid_val uid 123), Ok_if Uid_set,
    Ok_call found Del_key_val,
    Ok_call none Get_key_val_copy, Ok_if Uid_none,
    Ok_call found (Add_key_val 123), Do_save_uid, Ok_if Uid_set, Ok_if (Long_is 123),
    Ok_call found Get_key_val_copy, Ok_if Uid_set, Ok_if Uid_is_saved, Ok_if (Val_len 8), Ok_if (Val_long_is 123),
    Ok_call found (Add_key_val 123), Do_save_uid, Ok_if Uid_set, Ok_if (Long_is 246),
    Ok_call found Get_key_val_copy, Ok_if Uid_set, Ok_if Uid_is_saved, Ok_if (Val_len 8), Ok_if (Val_long_is 246),
    Ok_call found (Add_key_val (-146)), Do_save_uid, Ok_if Uid_set, Ok_if (Long_is 100),
    Ok_call found Get_key_val_copy, Ok_if Uid_set, Ok_if Uid_is_saved, Ok_if (Val_len 8), Ok_if (Val_long_is 100),
    Ok_call found (Add_key_val (-100)), Ok_if Uid_none, Ok_if (Long_is 0),
    Ok_call none Get_key_val_copy, Ok_if Uid_none,
    Ok_call found (Add_key_val 111)])"

definition test_ops_2 :: "test_line list" where
  "test_ops_2 = (let found = SHF_RET_KEY_FOUND; none = SHF_RET_KEY_NONE in
   [Ok_uid found (\<lambda>uid. Add_uid_val uid (-111)), Ok_if Uid_none, Ok_if (Long_is 0),
    Ok_call none Get_key_val_copy, Ok_if Uid_none])"

definition test_key_ops :: "test_line list" where
  "test_key_ops = test_ops_1 @ [Do_save_uid] @ test_ops_2"

text \<open>
  Hashes of the user's own: the first 16 bytes of a SHA256, for the key itself and for its hash as the key.
  The same checks are made four times.
\<close>

definition h_foo :: "nat list" where
  "h_foo = [0x2c26b46b, 0x68ffc68f, 0xf99b453c, 0x1d304134, 0x13422d70, 0x6483bfa0, 0xf98a5e88, 0x6266e7ae]"

definition h_bar :: "nat list" where
  "h_bar = [0xfcde2b2e, 0xdba56bf4, 0x08601fb7, 0x21fe9b5c, 0x338d10ee, 0x429ea04f, 0xae5511b6, 0x8fbf8fb9]"

definition hash_of_u32 :: "nat list \<Rightarrow> shf_hash" where
  "hash_of_u32 h = \<lparr>hash_u64_0 = word_of_nat (h ! 0 + 2 ^ 32 * h ! 1), hash_u64_1 = word_of_nat (h ! 2 + 2 ^ 32 * h ! 3)\<rparr>"

definition test_own_hash :: "nat list \<Rightarrow> byte list \<Rightarrow> test_line list" where
  "test_own_hash h key = (let found = SHF_RET_KEY_FOUND; val = str_bytes ''val''; n = length key in
   [Do_own_hash (hash_of_u32 h) key,
    Ok_call SHF_RET_KEY_PUT (Put_key_val (Some val) 3), Do_save_uid, Ok_if Saved_set,
    Ok_uid found Get_uid_val_copy, Ok_if (Val_len 3), Ok_if (Val_is val), Ok_if Uid_set,
    Ok_call found Get_key_val_copy, Ok_if (Val_len 3), Ok_if (Val_is val), Ok_if Uid_is_saved,
    Ok_call found Get_key_key_copy, Ok_if (Key_len n), Ok_if (Key_is key),
    Ok_uid found Get_uid_key_copy, Ok_if (Key_len n), Ok_if (Key_is key),
    Ok_call found Del_key_val])"

definition test_own_hashes :: "test_line list" where
  "test_own_hashes = test_own_hash h_foo (str_bytes ''foo'') @ test_own_hash h_bar (str_bytes ''bar'')
     @ test_own_hash h_foo (concat (map le32 h_foo)) @ test_own_hash h_bar (concat (map le32 h_bar))"

section \<open>One record\<close>

text \<open>
  The record of the current key, if it is stored, what is known of the variables of the thread, and the
  memory that is left. A put stores the record under the first reference of its row.
\<close>

record cell =
  c_hash :: shf_hash
  c_key :: "byte list"
  c_rec :: "byte list option"
  c_uid :: "nat option"
  c_val :: "byte list option"
  c_keyout :: "byte list option"
  c_long :: "64 word option"
  c_ttl :: nat
  c_upd :: upd_thread
  c_saved :: "nat option"
  c_room :: nat

definition spot :: "shf_hash \<Rightarrow> coord" where
  "spot h = (hash_win h, hash_tab2 h, hash_row h, 0)"

definition here :: "shf_hash \<Rightarrow> nat" where
  "here h = mk_uid (hash_win h) (hash_tab2 h) (hash_row h) 0"

definition forget :: "cell \<Rightarrow> cell" where
  "forget c = c\<lparr>c_val := None, c_keyout := None, c_long := None\<rparr>"

definition gone :: "byte list \<Rightarrow> cell \<Rightarrow> cell" where
  "gone v c = c\<lparr>c_rec := None, c_uid := Some SHF_UID_NONE, c_keyout := None, c_val := if c_ttl c = 0 then None else Some v, c_ttl := 0\<rparr>"

text \<open>What a call returns and leaves, where the test relies on it.\<close>

fun cell_found :: "api_call \<Rightarrow> byte list \<Rightarrow> cell \<Rightarrow> (nat \<times> cell) option" where
  "cell_found Get_key_val_copy v c = Some (SHF_RET_KEY_FOUND, (forget c)\<lparr>c_val := Some v\<rparr>)"
| "cell_found Get_key_key_copy v c = Some (SHF_RET_KEY_FOUND, (forget c)\<lparr>c_keyout := Some (c_key c)\<rparr>)"
| "cell_found (Upd_key_val upd) v c = (let (res, bs) = upd v in
     if length bs = length v then Some (SHF_RET_KEY_FOUND OR res, (forget c)\<lparr>c_rec := Some bs\<rparr>) else None)"
| "cell_found Del_key_val v c =
     (if c_ttl c = 0 then Some (SHF_RET_KEY_FOUND, gone v c)
      else if length v < 4 then None
      else if c_ttl c = ttl_of v then Some (SHF_RET_KEY_FOUND, gone v c)
      else Some (SHF_RET_KEY_FOUND OR SHF_RET_NOT_TTL, c\<lparr>c_ttl := 0\<rparr>))"
| "cell_found (Add_key_val add) v c =
     (if length v < 8 then Some (SHF_RET_KEY_FOUND OR SHF_RET_BAD_VAL, c\<lparr>c_long := Some add\<rparr>)
      else let new = long_of v + add in
        if new \<noteq> 0 then Some (SHF_RET_KEY_FOUND, (forget c)\<lparr>c_rec := Some (long_bytes new @ drop 8 v), c_long := Some new\<rparr>)
        else if c_ttl c = 0 then Some (SHF_RET_KEY_FOUND, (forget c)\<lparr>c_rec := None, c_uid := Some SHF_UID_NONE, c_long := Some 0\<rparr>)
        else None)"
| "cell_found _ v c = None"

text \<open>The same call with the key in place of a UID.\<close>

fun by_uid :: "api_call \<Rightarrow> (nat \<times> api_call) option" where
  "by_uid (Get_uid_val_copy uid) = Some (uid, Get_key_val_copy)"
| "by_uid (Get_uid_key_copy uid) = Some (uid, Get_key_key_copy)"
| "by_uid (Upd_uid_val uid upd) = Some (uid, Upd_key_val upd)"
| "by_uid (Del_uid_val uid) = Some (uid, Del_key_val)"
| "by_uid (Add_uid_val uid add) = Some (uid, Add_key_val add)"
| "by_uid _ = None"

definition put_need :: "cell \<Rightarrow> nat \<Rightarrow> nat" where
  "put_need c n = data_needed 4 (length (c_key c)) n"

definition put_cell :: "byte list \<Rightarrow> cell \<Rightarrow> cell" where
  "put_cell v c = c\<lparr>c_rec := Some v, c_uid := Some (here (c_hash c)), c_room := c_room c - put_need c (length v)\<rparr>"

fun cell_missing :: "api_call \<Rightarrow> cell \<Rightarrow> (nat \<times> cell) option" where
  "cell_missing (Put_key_val (Some bs) n) c =
     (if n = length bs \<and> put_need c n \<le> c_room c then Some (SHF_RET_KEY_PUT, put_cell bs c) else None)"
| "cell_missing (Add_key_val add) c =
     (if put_need c 8 \<le> c_room c then Some (SHF_RET_KEY_FOUND, (put_cell (long_bytes add) c)\<lparr>c_long := Some add\<rparr>) else None)"
| "cell_missing Get_key_val_copy c = Some (SHF_RET_KEY_NONE, c\<lparr>c_uid := Some SHF_UID_NONE\<rparr>)"
| "cell_missing (Upd_key_val upd) c = Some (SHF_RET_KEY_NONE, c\<lparr>c_uid := Some SHF_UID_NONE\<rparr>)"
| "cell_missing Del_key_val c = Some (SHF_RET_KEY_NONE, c\<lparr>c_uid := Some SHF_UID_NONE\<rparr>)"
| "cell_missing _ c = None"

definition cell_call :: "api_call \<Rightarrow> cell \<Rightarrow> (nat \<times> cell) option" where
  "cell_call k c = (case by_uid k of
     Some (uid, k') \<Rightarrow> if uid \<noteq> here (c_hash c) then None
       else (case c_rec c of Some v \<Rightarrow> cell_found k' v c | None \<Rightarrow> if k' = Del_key_val then Some (SHF_RET_KEY_NONE, c) else None)
   | None \<Rightarrow> (case c_rec c of Some v \<Rightarrow> cell_found k v (c\<lparr>c_uid := Some (here (c_hash c))\<rparr>) | None \<Rightarrow> cell_missing k c))"

text \<open>Whether a condition is known to hold, and the machine for the lines of the test.\<close>

fun cell_cond :: "test_cond \<Rightarrow> cell \<Rightarrow> bool" where
  "cell_cond Uid_none c \<longleftrightarrow> c_uid c = Some SHF_UID_NONE"
| "cell_cond Uid_set c \<longleftrightarrow> c_uid c = Some (here (c_hash c))"
| "cell_cond Saved_set c \<longleftrightarrow> c_saved c = Some (here (c_hash c))"
| "cell_cond Uid_is_saved c \<longleftrightarrow> (case c_uid c of Some u \<Rightarrow> c_saved c = Some u | None \<Rightarrow> False)"
| "cell_cond (Val_len n) c \<longleftrightarrow> (case c_val c of Some v \<Rightarrow> length v = n | None \<Rightarrow> False)"
| "cell_cond (Val_is bs) c \<longleftrightarrow> (case c_val c of Some v \<Rightarrow> take (length bs) v = bs | None \<Rightarrow> False)"
| "cell_cond Val_cleared c \<longleftrightarrow> c_val c = Some []"
| "cell_cond (Key_len n) c \<longleftrightarrow> (case c_keyout c of Some v \<Rightarrow> length v = n | None \<Rightarrow> False)"
| "cell_cond (Key_is bs) c \<longleftrightarrow> (case c_keyout c of Some v \<Rightarrow> take (length bs) v = bs | None \<Rightarrow> False)"
| "cell_cond (Long_is w) c \<longleftrightarrow> c_long c = Some w"
| "cell_cond (Val_long_is w) c \<longleftrightarrow> (case c_val c of Some v \<Rightarrow> 8 \<le> length v \<and> long_of v = w | None \<Rightarrow> False)"

definition cell_check :: "nat \<Rightarrow> api_call \<Rightarrow> cell \<Rightarrow> cell option" where
  "cell_check r k c = (case cell_call k c of None \<Rightarrow> None | Some (res, c') \<Rightarrow> if res = r then Some c' else None)"

fun cell_line :: "test_line \<Rightarrow> cell \<Rightarrow> cell option" where
  "cell_line (Ok_call r k) c = cell_check r k c"
| "cell_line (Ok_uid r k) c = (case c_saved c of None \<Rightarrow> None | Some uid \<Rightarrow> cell_check r (k uid) c)"
| "cell_line (Ok_upd_key r) c = cell_check r (Upd_key_val (upd_fun (c_upd c))) c"
| "cell_line (Ok_upd_uid r) c = (case c_saved c of None \<Rightarrow> None | Some uid \<Rightarrow> cell_check r (Upd_uid_val uid (upd_fun (c_upd c))) c)"
| "cell_line (Ok_preset r bs) c = (if r = SHF_RET_OK then Some (c\<lparr>c_upd := (c_upd c)\<lparr>shf_upd_callback_copy_val := bs\<rparr>\<rparr>) else None)"
| "cell_line (Ok_if b) c = (if cell_cond b c then Some c else None)"
| "cell_line Do_save_uid c = Some (c\<lparr>c_saved := c_uid c\<rparr>)"
| "cell_line (Do_make_hash key) c = (if c_rec c = None then Some (c\<lparr>c_hash := key_hash key, c_key := key\<rparr>) else None)"
| "cell_line (Do_own_hash h key) c = (if c_rec c = None then Some (c\<lparr>c_hash := h, c_key := key\<rparr>) else None)"
| "cell_line (Do_set_ttl ttl) c = Some (c\<lparr>c_ttl := ttl\<rparr>)"
| "cell_line Do_clear_val c = Some (c\<lparr>c_val := Some []\<rparr>)"
| "cell_line (Do_set_callback f) c = Some (c\<lparr>c_upd := (c_upd c)\<lparr>shf_upd_callback := f\<rparr>\<rparr>)"

primrec cell_lines :: "test_line list \<Rightarrow> cell \<Rightarrow> cell option" where
  "cell_lines [] c = Some c"
| "cell_lines (l # ls) c = Option.bind (cell_line l c) (cell_lines ls)"

section \<open>The model refines it\<close>

definition cell_kv :: "cell \<Rightarrow> coord \<Rightarrow> (nat \<times> byte list \<times> byte list) option" where
  "cell_kv c = (case c_rec c of None \<Rightarrow> (\<lambda>_. None) | Some v \<Rightarrow> [spot (c_hash c) \<mapsto> (hash_rnd (c_hash c), c_key c, v)])"

lemma cell_kv_upd [simp]: "cell_kv (c\<lparr>c_uid := u\<rparr>) = cell_kv c" "cell_kv (c\<lparr>c_val := v\<rparr>) = cell_kv c"
  "cell_kv (c\<lparr>c_keyout := v\<rparr>) = cell_kv c" "cell_kv (c\<lparr>c_long := w\<rparr>) = cell_kv c" "cell_kv (c\<lparr>c_ttl := n\<rparr>) = cell_kv c"
  "cell_kv (c\<lparr>c_upd := x\<rparr>) = cell_kv c" "cell_kv (c\<lparr>c_saved := u\<rparr>) = cell_kv c" "cell_kv (c\<lparr>c_room := n\<rparr>) = cell_kv c"
  by (simp_all add: cell_kv_def split: option.split)

definition test_lens :: lens where
  "test_lens = \<lparr>len_len = 4, fixed_key = 0, fixed_val = 0\<rparr>"

definition stores :: "cell \<Rightarrow> shf \<Rightarrow> bool" where
  "stores c s \<longleftrightarrow> api_ok (c_room c) s \<and> lens_of s = test_lens
     \<and> the_hash s = c_hash c \<and> shf_hash_key s = c_key c \<and> shf_ttl s = c_ttl c \<and> kv test_lens s = cell_kv c"

definition knows :: "cell \<Rightarrow> shf \<Rightarrow> bool" where
  "knows c s \<longleftrightarrow> (\<forall>x. c_uid c = Some x \<longrightarrow> shf_uid s = x) \<and> (\<forall>x. c_val c = Some x \<longrightarrow> shf_val s = x)
     \<and> (\<forall>x. c_keyout c = Some x \<longrightarrow> shf_key s = x) \<and> (\<forall>x. c_long c = Some x \<longrightarrow> shf_val_long s = x)"

text \<open>The reference of the record.\<close>

lemma here_uid [simp]: "here h \<noteq> SHF_UID_NONE" "uid_coord (here h) = spot h"
  unfolding here_def spot_def by (rule uid_mk_some uid_coord_mk; simp)+

lemma storesD:
  assumes "stores c s"
  shows "shf_ok s" "shf_room (c_room c) s" "shf_upd_callback_failsafe s = 0" "lens_of s = test_lens" "the_hash s = c_hash c"
    "shf_hash_key s = c_key c" "shf_ttl s = c_ttl c" "kv test_lens s = cell_kv c"
  using assms by (simp_all add: stores_def api_ok_def)

lemma stores_key_ref:
  assumes "stores c s"
  shows "key_ref s = (if c_rec c = None then None else Some 0)"
proof (cases "c_rec c")
  case None
  then show ?thesis by (simp add: key_ref_def storesD [OF assms] cell_kv_def find_None_iff)
next
  case (Some v)
  have "find (\<lambda>ref. case cell_kv c (hash_win (c_hash c), hash_tab2 (c_hash c), hash_row (c_hash c), ref) of
     None \<Rightarrow> False | Some (rnd, k, v) \<Rightarrow> rnd = hash_rnd (c_hash c) \<and> k = c_key c) [0..<SHF_REFS_PER_ROW] = Some 0"
    by (rule find_unique) (auto simp: cell_kv_def Some spot_def shf_const_eq split: if_splits)
  then show ?thesis unfolding key_ref_def storesD [OF assms] by (simp add: Some)
qed

lemma looked_stores:
  assumes "looked s s'" "stores c s"
  shows "stores c s'"
  using assms(1) storesD [OF assms(2)] by (simp add: looked_def stores_def api_ok_def)

lemma looked_knows: "looked s s' \<Longrightarrow> knows c s \<Longrightarrow> shf_uid s' = shf_uid s \<Longrightarrow> knows c s'"
  "looked s s' \<Longrightarrow> knows c s \<Longrightarrow> knows (c\<lparr>c_uid := Some (shf_uid s')\<rparr>) s'"
  by (auto simp: looked_def knows_def)

text \<open>Both searches find the record when there is one.\<close>

definition spotted :: "cell \<Rightarrow> nat \<Rightarrow> nat \<Rightarrow> byte list \<Rightarrow> shf \<Rightarrow> bool" where
  "spotted c tab i v s \<longleftrightarrow> stores c s \<and> knows c s \<and> c_rec c = Some v \<and> tab = win_tabs (wins s (hash_win (c_hash c))) (hash_tab2 (c_hash c))
     \<and> located (hash_win (c_hash c)) (hash_tab2 (c_hash c)) i (hash_row (c_hash c)) 0 (hash_rnd (c_hash c)) (c_key c) v s"

definition searched :: "nat \<Rightarrow> cell \<Rightarrow> cell" where
  "searched uid c = (if uid = SHF_UID_NONE then c\<lparr>c_uid := Some (if c_rec c = None then SHF_UID_NONE else here (c_hash c))\<rparr> else c)"

lemma searched_simps [simp]: "c_hash (searched uid c) = c_hash c" "c_key (searched uid c) = c_key c" "c_rec (searched uid c) = c_rec c"
  "c_room (searched uid c) = c_room c" "c_ttl (searched uid c) = c_ttl c" "c_long (searched uid c) = c_long c"
  "stores (searched uid c) = stores c"
  by (simp_all add: searched_def stores_def fun_eq_iff)

lemma searched_here [simp]: "searched (here h) c = c"
  by (simp add: searched_def)

lemma cell_missed:
  assumes st: "stores c s" "knows c s" and uid: "uid = SHF_UID_NONE \<or> uid = here (c_hash c)" and none: "c_rec c = None"
  shows "\<exists>s'. shf_find_key_internal uid what upd s = Inr (SHF_RET_KEY_NONE, s') \<and> stores c s' \<and> knows (searched uid c) s'"
proof (cases "uid = SHF_UID_NONE")
  case True
  obtain s' where "shf_find_key_internal uid what upd s = Inr (SHF_RET_KEY_NONE, s')" "looked s s'" "shf_uid s' = SHF_UID_NONE"
    using find_by_key [OF storesD(1) [OF st(1)], of what upd] unfolding stores_key_ref [OF st(1)] by (auto simp: True none)
  then show ?thesis using looked_stores [OF _ st(1)] looked_knows(2) [OF _ st(2), of s'] by (auto simp: searched_def True none)
next
  case False
  then have u: "uid_coord uid = spot (c_hash c)" using uid by simp
  have "kv (lens_of s) s (spot (c_hash c)) = None" by (simp add: storesD [OF st(1)] cell_kv_def none)
  then obtain s' where "shf_find_key_internal uid what upd s = Inr (SHF_RET_KEY_NONE, s')" "looked s s'" "shf_uid s' = shf_uid s"
    using find_by_uid [OF storesD(1) [OF st(1)] False u [unfolded spot_def], of what upd] by (auto simp: spot_def)
  then show ?thesis using looked_stores [OF _ st(1)] looked_knows(1) [OF _ st(2)] by (auto simp: searched_def False)
qed

lemma cell_spotted:
  assumes st: "stores c s" "knows c s" and uid: "uid = SHF_UID_NONE \<or> uid = here (c_hash c)" and rec: "c_rec c = Some v"
  shows "\<exists>tab i s'. shf_find_key_internal uid what upd s
      = found_key what upd (hash_win (c_hash c)) tab i (hash_row (c_hash c)) 0 (length (c_key c)) (length v) s'
    \<and> spotted (searched uid c) tab i v s'"
proof -
  let ?h = "c_hash c"
  note D = storesD [OF st(1)]
  obtain i s' where s': "shf_find_key_internal uid what upd s
      = found_key what upd (hash_win ?h) (win_tabs (wins s (hash_win ?h)) (hash_tab2 ?h)) i (hash_row ?h) 0 (length (c_key c)) (length v) s'"
    "looked s s'" "located (hash_win ?h) (hash_tab2 ?h) i (hash_row ?h) 0 (hash_rnd ?h) (c_key c) v s'"
    "shf_uid s' = (if uid = SHF_UID_NONE then here ?h else shf_uid s)"
  proof (cases "uid = SHF_UID_NONE")
    case True
    obtain i w s' where "kv test_lens s (spot ?h) = Some (hash_rnd ?h, c_key c, w)"
      "shf_find_key_internal SHF_UID_NONE what upd s
      = found_key what upd (hash_win ?h) (win_tabs (wins s (hash_win ?h)) (hash_tab2 ?h)) i (hash_row ?h) 0 (length (c_key c)) (length w) s'"
      "looked s s'" "located (hash_win ?h) (hash_tab2 ?h) i (hash_row ?h) 0 (hash_rnd ?h) (c_key c) w s'" "shf_uid s' = here ?h"
      using find_by_key [OF D(1), of what upd] unfolding stores_key_ref [OF st(1)]
      by (auto simp: rec D(4-6) spot_def here_def)
    then show ?thesis using that by (simp add: D(8) cell_kv_def rec True)
  next
    case False
    then have u: "uid_coord uid = spot ?h" using uid by simp
    have "kv (lens_of s) s (spot ?h) = Some (hash_rnd ?h, c_key c, v)" by (simp add: D cell_kv_def rec)
    then show ?thesis using that find_by_uid [OF D(1) False u [unfolded spot_def], of what upd] False by (auto simp: spot_def)
  qed
  have "win_tabs (wins s' (hash_win ?h)) = win_tabs (wins s (hash_win ?h))" using s'(2) by (simp add: looked_def same_routes_def)
  moreover have "knows (searched uid c) s'"
    using looked_knows(1) [OF s'(2) st(2)] looked_knows(2) [OF s'(2) st(2)] s'(4) by (auto simp: searched_def rec)
  ultimately have "spotted (searched uid c) (win_tabs (wins s (hash_win ?h)) (hash_tab2 ?h)) i v s'"
    using s'(3) looked_stores [OF s'(2) st(1)] by (simp add: spotted_def rec)
  then show ?thesis using s'(1) by blast
qed

text \<open>What is done with a record that was found.\<close>

definition related :: "cell \<Rightarrow> shf \<Rightarrow> bool" where
  "related c s \<longleftrightarrow> stores c s \<and> knows c s"

lemma spottedD:
  assumes "spotted c tab i v s"
  shows "stores c s" "knows c s" "c_rec c = Some v" "tab = win_tabs (wins s (hash_win (c_hash c))) (hash_tab2 (c_hash c))"
    "located (hash_win (c_hash c)) (hash_tab2 (c_hash c)) i (hash_row (c_hash c)) 0 (hash_rnd (c_hash c)) (c_key c) v s"
  using assms by (simp_all add: spotted_def)

lemma storesI:
  assumes "stores c s" "shf_ok s'" "shf_room (c_room c) s'" "shf_upd_callback_failsafe s' = 0" "lens_of s' = lens_of s"
    "the_hash s' = the_hash s" "shf_hash_key s' = shf_hash_key s" "shf_ttl s' = c_ttl c'" "kv (lens_of s) s' = cell_kv c'"
    "c_hash c' = c_hash c" "c_key c' = c_key c" "c_room c' = c_room c"
  shows "stores c' s'"
proof -
  note D = storesD [OF assms(1)]
  show ?thesis using assms(2-8,10-12) assms(9) [unfolded D(4)] by (simp add: stores_def api_ok_def D)
qed

lemma copy_val_cell:
  assumes sp: "spotted c tab i v s"
  shows "\<exists>s'. found_key SHF_FIND_KEY_OR_UID_AND_COPY_VAL upd (hash_win (c_hash c)) tab i (hash_row (c_hash c)) 0 (length (c_key c)) (length v) s
      = Inr (SHF_RET_KEY_FOUND, s') \<and> related ((forget c)\<lparr>c_val := Some v\<rparr>) s'"
proof -
  note S = spottedD [OF sp] and D = storesD [OF spottedD(1) [OF sp]]
  obtain s' where s': "found_key SHF_FIND_KEY_OR_UID_AND_COPY_VAL upd (hash_win (c_hash c)) tab i (hash_row (c_hash c)) 0 (length (c_key c)) (length v) s
      = Inr (SHF_RET_KEY_FOUND, s')" "copied_out s s'" "shf_val s' = v" "shf_room (c_room c) s'" "shf_ttl s' = shf_ttl s"
    using found_copy_val [OF S(5) D(2) S(4)] by blast
  have "stores ((forget c)\<lparr>c_val := Some v\<rparr>) s'"
    using s' D by (intro storesI [OF S(1)]) (simp_all add: copied_out_def forget_def)
  moreover have "knows ((forget c)\<lparr>c_val := Some v\<rparr>) s'" using s' S(2) by (simp add: knows_def forget_def copied_out_def)
  ultimately show ?thesis using s'(1) by (auto simp: related_def)
qed

lemma copy_key_cell:
  assumes sp: "spotted c tab i v s"
  shows "\<exists>s'. found_key SHF_FIND_KEY_OR_UID_AND_COPY_KEY upd (hash_win (c_hash c)) tab i (hash_row (c_hash c)) 0 (length (c_key c)) (length v) s
      = Inr (SHF_RET_KEY_FOUND, s') \<and> related ((forget c)\<lparr>c_keyout := Some (c_key c)\<rparr>) s'"
proof -
  note S = spottedD [OF sp] and D = storesD [OF spottedD(1) [OF sp]]
  obtain s' where s': "found_key SHF_FIND_KEY_OR_UID_AND_COPY_KEY upd (hash_win (c_hash c)) tab i (hash_row (c_hash c)) 0 (length (c_key c)) (length v) s
      = Inr (SHF_RET_KEY_FOUND, s')" "copied_out s s'" "shf_key s' = c_key c" "shf_room (c_room c) s'" "shf_ttl s' = shf_ttl s"
    using found_copy_key [OF S(5) D(2) S(4)] by blast
  have "stores ((forget c)\<lparr>c_keyout := Some (c_key c)\<rparr>) s'"
    using s' D by (intro storesI [OF S(1)]) (simp_all add: copied_out_def forget_def)
  moreover have "knows ((forget c)\<lparr>c_keyout := Some (c_key c)\<rparr>) s'" using s' S(2) by (simp add: knows_def forget_def copied_out_def)
  ultimately show ?thesis using s'(1) by (auto simp: related_def)
qed

lemma update_cell:
  assumes sp: "spotted c tab i v s" and upd: "upd v = (res, bs)" "length bs = length v"
  shows "\<exists>s'. found_key SHF_FIND_KEY_OR_UID_AND_UPDATE upd (hash_win (c_hash c)) tab i (hash_row (c_hash c)) 0 (length (c_key c)) (length v) s
      = Inr (SHF_RET_KEY_FOUND OR res, s') \<and> related ((forget c)\<lparr>c_rec := Some bs\<rparr>) s'"
proof -
  note S = spottedD [OF sp] and D = storesD [OF spottedD(1) [OF sp]]
  note F = found_update_ok [where upd = upd and tab = tab, OF S(5) D(3) upd]
  obtain s' where s': "found_key SHF_FIND_KEY_OR_UID_AND_UPDATE upd (hash_win (c_hash c)) tab i (hash_row (c_hash c)) 0 (length (c_key c)) (length v) s
      = Inr (SHF_RET_KEY_FOUND OR res, s')" "shf_ok s'" "lens_of s' = lens_of s" "shf_upd_callback_failsafe s' = 0" "shf_uid s' = shf_uid s"
    "kv (lens_of s) s' = (kv (lens_of s) s)(spot (c_hash c) \<mapsto> (hash_rnd (c_hash c), c_key c, bs))"
    "the_hash s' = the_hash s" "shf_hash_key s' = shf_hash_key s" "\<forall>n. shf_room n s \<longrightarrow> shf_room n s'" "shf_ttl s' = shf_ttl s"
    using F unfolding spot_def by blast
  have "stores ((forget c)\<lparr>c_rec := Some bs\<rparr>) s'"
    using s' D S(3) by (intro storesI [OF S(1)]) (simp_all add: forget_def cell_kv_def)
  moreover have "knows ((forget c)\<lparr>c_rec := Some bs\<rparr>) s'" using s' S(2) by (simp add: knows_def forget_def)
  ultimately show ?thesis using s'(1) by (auto simp: related_def)
qed

lemma delete_cell:
  assumes sp: "spotted c tab i v s" and ttl: "c_ttl c = 0 \<or> 4 \<le> length v \<and> c_ttl c = ttl_of v"
  shows "\<exists>s'. found_key SHF_FIND_KEY_OR_UID_AND_DELETE upd (hash_win (c_hash c)) tab i (hash_row (c_hash c)) 0 (length (c_key c)) (length v) s
      = Inr (SHF_RET_KEY_FOUND, s') \<and> related (gone v c) s'"
proof -
  note S = spottedD [OF sp] and D = storesD [OF spottedD(1) [OF sp]]
  have t: "shf_ttl s = 0 \<or> 4 \<le> length v \<and> shf_ttl s = ttl_of v" using ttl by (simp add: D(7))
  obtain s' where s': "found_key SHF_FIND_KEY_OR_UID_AND_DELETE upd (hash_win (c_hash c)) tab i (hash_row (c_hash c)) 0 (length (c_key c)) (length v) s
      = Inr (SHF_RET_KEY_FOUND, s')" "shf_ok s'" "lens_of s' = lens_of s" "kv (lens_of s) s' = (kv (lens_of s) s)(spot (c_hash c) := None)"
    "shf_uid s' = SHF_UID_NONE" "shf_ttl s' = 0" "shf_ttl s \<noteq> 0 \<longrightarrow> shf_val s' = v" "the_hash s' = the_hash s"
    "shf_hash_key s' = shf_hash_key s" "shf_val_long s' = shf_val_long s" "\<forall>n. shf_room n s \<longrightarrow> shf_room n s'"
    "shf_upd_callback_failsafe s' = shf_upd_callback_failsafe s"
    using found_delete_ok [OF S(5) t, where upd = upd and tab = tab] unfolding spot_def by blast
  have "stores (gone v c) s'" using s' D S(3) by (intro storesI [OF S(1)]) (simp_all add: gone_def cell_kv_def)
  moreover have "knows (gone v c) s'" using s' S(2) D(7) by (simp add: knows_def gone_def)
  ultimately show ?thesis using s'(1) by (auto simp: related_def)
qed

lemma delete_ttl_cell:
  assumes sp: "spotted c tab i v s" and ttl: "c_ttl c \<noteq> 0" "4 \<le> length v" "c_ttl c \<noteq> ttl_of v"
  shows "\<exists>s'. found_key SHF_FIND_KEY_OR_UID_AND_DELETE upd (hash_win (c_hash c)) tab i (hash_row (c_hash c)) 0 (length (c_key c)) (length v) s
      = Inr (SHF_RET_KEY_FOUND OR SHF_RET_NOT_TTL, s') \<and> related (c\<lparr>c_ttl := 0\<rparr>) s'"
proof -
  note S = spottedD [OF sp] and D = storesD [OF spottedD(1) [OF sp]]
  have "same_store s (s\<lparr>shf_ttl := 0\<rparr>)" by (simp add: same_store_def)
  note T = same_storeD [OF this]
  have "stores (c\<lparr>c_ttl := 0\<rparr>) (s\<lparr>shf_ttl := 0\<rparr>)" using D T by (intro storesI [OF S(1)]) simp_all
  moreover have "knows (c\<lparr>c_ttl := 0\<rparr>) (s\<lparr>shf_ttl := 0\<rparr>)" using S(2) by (simp add: knows_def)
  ultimately show ?thesis using found_delete_ttl [OF S(5), where upd = upd and tab = tab] ttl by (simp add: related_def D(7))
qed

lemma add_cell:
  assumes sp: "spotted c tab i v s" and add: "c_long c = Some add"
  shows "\<exists>s'. found_key SHF_FIND_KEY_OR_UID_AND_ATOM_ADD upd (hash_win (c_hash c)) tab i (hash_row (c_hash c)) 0 (length (c_key c)) (length v) s
      = (if 8 \<le> length v then Inr (SHF_RET_KEY_FOUND, s') else Inr (SHF_RET_KEY_FOUND OR SHF_RET_BAD_VAL, s'))
    \<and> related (if 8 \<le> length v then (forget c)\<lparr>c_rec := Some (long_bytes (long_of v + add) @ drop 8 v), c_long := Some (long_of v + add)\<rparr> else c) s'"
proof (cases "8 \<le> length v")
  case True
  note S = spottedD [OF sp] and D = storesD [OF spottedD(1) [OF sp]]
  have l: "shf_val_long s = add" using S(2) add by (simp add: knows_def)
  obtain s' where s': "found_key SHF_FIND_KEY_OR_UID_AND_ATOM_ADD upd (hash_win (c_hash c)) tab i (hash_row (c_hash c)) 0 (length (c_key c)) (length v) s
      = Inr (SHF_RET_KEY_FOUND, s')" "shf_ok s'" "lens_of s' = lens_of s" "shf_val_long s' = long_of v + add" "shf_uid s' = shf_uid s"
    "the_hash s' = the_hash s" "shf_hash_key s' = shf_hash_key s" "shf_ttl s' = shf_ttl s" "shf_upd_callback_failsafe s' = shf_upd_callback_failsafe s"
    "\<forall>n. shf_room n s \<longrightarrow> shf_room n s'"
    "kv (lens_of s) s' = (kv (lens_of s) s)(spot (c_hash c) \<mapsto> (hash_rnd (c_hash c), c_key c, long_bytes (long_of v + add) @ drop 8 v))"
    using found_add_ok [OF S(5) True, where upd = upd and tab = tab] unfolding spot_def l by blast
  let ?c = "(forget c)\<lparr>c_rec := Some (long_bytes (long_of v + add) @ drop 8 v), c_long := Some (long_of v + add)\<rparr>"
  have "stores ?c s'" using s' D S(3) by (intro storesI [OF S(1)]) (simp_all add: forget_def cell_kv_def)
  moreover have "knows ?c s'" using s' S(2) by (simp add: knows_def forget_def)
  ultimately show ?thesis using s'(1) True by (auto simp: related_def)
next
  case False
  note S = spottedD [OF sp]
  show ?thesis using found_add_short [OF S(5), where upd = upd and tab = tab] S(1,2) False by (simp add: related_def)
qed

text \<open>A put finds the row empty.\<close>

lemma empty_free:
  assumes ok: "shf_ok s" and none: "kv (lens_of s) s = (\<lambda>_. None)" and b: "win < 256" "row < 512"
  shows "free_ref row (table s win tab) = Some 0"
proof -
  let ?t = "table s win tab"
  have R: "routed (wins s win) tab ?t" using shf_okD(3) [OF ok] b(1) by (simp add: routes_ok_def shf_const_eq)
  have "(row, 0) \<notin> live ?t"
  proof
    assume "(row, 0) \<in> live ?t"
    then obtain t rnd k v where sl: "slot (lens_of s) ?t (row, 0) = Some (t, rnd, k, v)"
      using slot_None_iff [of "lens_of s" ?t "(row, 0)"] by (cases "slot (lens_of s) ?t (row, 0)") auto
    then have "win_tabs (wins s win) t = tab" using R unfolding routed_slot [of _ _ _ "lens_of s"] by blast
    then have "kv (lens_of s) s (win, t, row, 0) = Some (rnd, k, v)" using sl by (simp add: kv_eq)
    then show False by (simp add: none)
  qed
  then have "ref_pos (tab_row ?t row 0) = 0" using b(2) by (simp add: live_def slots_def slot_pos_def shf_const_eq)
  moreover have "[0..<SHF_REFS_PER_ROW] = 0 # [1..<SHF_REFS_PER_ROW]" by (simp add: upt_conv_Cons shf_const_eq)
  ultimately show ?thesis by (simp add: free_ref_def)
qed

lemma put_cell_ok:
  assumes st: "related c s" and none: "c_rec c = None" and room: "put_need c (length v) \<le> c_room c"
  shows "\<exists>s'. shf_put_key_val (Some v) (length v) s = Inr (SHF_RET_KEY_PUT, s') \<and> related (put_cell v c) s'"
proof -
  have S: "stores c s" "knows c s" using st by (simp_all add: related_def)
  note D = storesD [OF S(1)]
  let ?h = "c_hash c"
  have L: "len_len test_lens = 4" by (simp add: test_lens_def)
  have free: "free_ref (hash_row ?h) (table s (hash_win ?h) (win_tabs (wins s (hash_win ?h)) (hash_tab2 ?h))) = Some 0"
    by (rule empty_free [OF D(1)]) (simp_all only: D(4,8), simp_all add: cell_kv_def none)
  have fits: "fits (lens_of s) (shf_hash_key s) (Some v) (length v)" by (simp add: fits_def D L)
  have "shf_room (data_needed (len_len (lens_of s)) (length (shf_hash_key s)) (length v) + (c_room c - put_need c (length v))) s"
    using D(2) room by (simp add: D(4,6) L put_need_def)
  from put_free_ok [OF D(1) fits this refl refl refl, of 0 "put_fuel - 1"] free
  obtain s' where s': "shf_put_key_val (Some v) (length v) s = Inr (SHF_RET_KEY_PUT, s')" "put_done (Some v) (length v) s s'"
    "shf_room (c_room c - put_need c (length v)) s'" "shf_uid s' = here ?h"
    unfolding shf_put_key_val_def D(5) here_def by (auto simp: put_fuel_def simp del: put_loop.simps)
  obtain ref w where p: "ref < 16" "w = v" "same_thread s (s'\<lparr>shf_uid := shf_uid s\<rparr>)" "shf_ok s'"
    "shf_uid s' = mk_uid (hash_win ?h) (hash_tab2 ?h) (hash_row ?h) ref"
    "kv test_lens s' = (cell_kv c)((hash_win ?h, hash_tab2 ?h, hash_row ?h, ref) \<mapsto> (hash_rnd ?h, c_key c, w))"
    using s'(2) unfolding put_done_def D(4,5,6,8) by auto
  have "uid_coord (shf_uid s') = (hash_win ?h, hash_tab2 ?h, hash_row ?h, ref)" unfolding p(5) by (rule uid_coord_mk) (simp_all add: p(1))
  then have r: "(hash_win ?h, hash_tab2 ?h, hash_row ?h, ref) = spot ?h" by (simp add: s'(4))
  note T = same_threadD [OF p(3)] and O = same_thread_outputs [OF p(3)]
  have "lens_of s' = test_lens" using T(2) D(4) by (simp add: lens_of_def)
  then have "stores (put_cell v c) s'"
    using p(2,4,6) s'(3) T D unfolding r by (simp add: stores_def api_ok_def put_cell_def cell_kv_def none)
  moreover have "knows (put_cell v c) s'" using S(2) s'(4) T O by (simp add: knows_def put_cell_def)
  ultimately show ?thesis using s'(1) by (auto simp: related_def)
qed

section \<open>Calls\<close>

lemma related_found:
  assumes st: "related c s" and uid: "uid = SHF_UID_NONE \<or> uid = here (c_hash c)" and rec: "c_rec c = Some v"
  shows "\<exists>s'. shf_find_key_internal uid SHF_FIND_KEY_OR_UID_AND_COPY_VAL upd s = Inr (SHF_RET_KEY_FOUND, s')
      \<and> related ((forget (searched uid c))\<lparr>c_val := Some v\<rparr>) s'"
    "\<exists>s'. shf_find_key_internal uid SHF_FIND_KEY_OR_UID_AND_COPY_KEY upd s = Inr (SHF_RET_KEY_FOUND, s')
      \<and> related ((forget (searched uid c))\<lparr>c_keyout := Some (c_key c)\<rparr>) s'"
    "upd v = (res, bs) \<Longrightarrow> length bs = length v \<Longrightarrow>
      \<exists>s'. shf_find_key_internal uid SHF_FIND_KEY_OR_UID_AND_UPDATE upd s = Inr (SHF_RET_KEY_FOUND OR res, s')
      \<and> related ((forget (searched uid c))\<lparr>c_rec := Some bs\<rparr>) s'"
    "c_ttl c = 0 \<or> 4 \<le> length v \<and> c_ttl c = ttl_of v \<Longrightarrow>
      \<exists>s'. shf_find_key_internal uid SHF_FIND_KEY_OR_UID_AND_DELETE upd s = Inr (SHF_RET_KEY_FOUND, s')
      \<and> related (gone v (searched uid c)) s'"
    "c_ttl c \<noteq> 0 \<Longrightarrow> 4 \<le> length v \<Longrightarrow> c_ttl c \<noteq> ttl_of v \<Longrightarrow>
      \<exists>s'. shf_find_key_internal uid SHF_FIND_KEY_OR_UID_AND_DELETE upd s = Inr (SHF_RET_KEY_FOUND OR SHF_RET_NOT_TTL, s')
      \<and> related ((searched uid c)\<lparr>c_ttl := 0\<rparr>) s'"
    "c_long c = Some add \<Longrightarrow>
      \<exists>s'. shf_find_key_internal uid SHF_FIND_KEY_OR_UID_AND_ATOM_ADD upd s
        = (if 8 \<le> length v then Inr (SHF_RET_KEY_FOUND, s') else Inr (SHF_RET_KEY_FOUND OR SHF_RET_BAD_VAL, s'))
      \<and> related (if 8 \<le> length v then (forget (searched uid c))\<lparr>c_rec := Some (long_bytes (long_of v + add) @ drop 8 v),
          c_long := Some (long_of v + add)\<rparr> else searched uid c) s'"
proof -
  have S: "stores c s" "knows c s" using st by (simp_all add: related_def)
  have F: "\<exists>tab i s'. shf_find_key_internal uid what upd s
      = found_key what upd (hash_win (c_hash c)) tab i (hash_row (c_hash c)) 0 (length (c_key c)) (length v) s'
    \<and> spotted (searched uid c) tab i v s'" for what
    by (rule cell_spotted [OF S uid rec])
  show "\<exists>s'. shf_find_key_internal uid SHF_FIND_KEY_OR_UID_AND_COPY_VAL upd s = Inr (SHF_RET_KEY_FOUND, s')
      \<and> related ((forget (searched uid c))\<lparr>c_val := Some v\<rparr>) s'"
    using F [of SHF_FIND_KEY_OR_UID_AND_COPY_VAL] copy_val_cell [where c = "searched uid c"] by fastforce
  show "\<exists>s'. shf_find_key_internal uid SHF_FIND_KEY_OR_UID_AND_COPY_KEY upd s = Inr (SHF_RET_KEY_FOUND, s')
      \<and> related ((forget (searched uid c))\<lparr>c_keyout := Some (c_key c)\<rparr>) s'"
    using F [of SHF_FIND_KEY_OR_UID_AND_COPY_KEY] copy_key_cell [where c = "searched uid c"] by fastforce
  show "\<exists>s'. shf_find_key_internal uid SHF_FIND_KEY_OR_UID_AND_UPDATE upd s = Inr (SHF_RET_KEY_FOUND OR res, s')
      \<and> related ((forget (searched uid c))\<lparr>c_rec := Some bs\<rparr>) s'" if "upd v = (res, bs)" "length bs = length v"
    using F [of SHF_FIND_KEY_OR_UID_AND_UPDATE] update_cell [where c = "searched uid c" and v = v and upd = upd, OF _ that] by fastforce
  show "\<exists>s'. shf_find_key_internal uid SHF_FIND_KEY_OR_UID_AND_DELETE upd s = Inr (SHF_RET_KEY_FOUND, s')
      \<and> related (gone v (searched uid c)) s'" if "c_ttl c = 0 \<or> 4 \<le> length v \<and> c_ttl c = ttl_of v"
    using F [of SHF_FIND_KEY_OR_UID_AND_DELETE] delete_cell [where c = "searched uid c"] that by fastforce
  show "\<exists>s'. shf_find_key_internal uid SHF_FIND_KEY_OR_UID_AND_DELETE upd s = Inr (SHF_RET_KEY_FOUND OR SHF_RET_NOT_TTL, s')
      \<and> related ((searched uid c)\<lparr>c_ttl := 0\<rparr>) s'" if "c_ttl c \<noteq> 0" "4 \<le> length v" "c_ttl c \<noteq> ttl_of v"
    using F [of SHF_FIND_KEY_OR_UID_AND_DELETE] delete_ttl_cell [where c = "searched uid c"] that by fastforce
  assume add: "c_long c = Some add"
  obtain tab i s1 where s1: "shf_find_key_internal uid SHF_FIND_KEY_OR_UID_AND_ATOM_ADD upd s
      = found_key SHF_FIND_KEY_OR_UID_AND_ATOM_ADD upd (hash_win (c_hash c)) tab i (hash_row (c_hash c)) 0 (length (c_key c)) (length v) s1"
    "spotted (searched uid c) tab i v s1" using F by blast
  show "\<exists>s'. shf_find_key_internal uid SHF_FIND_KEY_OR_UID_AND_ATOM_ADD upd s
        = (if 8 \<le> length v then Inr (SHF_RET_KEY_FOUND, s') else Inr (SHF_RET_KEY_FOUND OR SHF_RET_BAD_VAL, s'))
      \<and> related (if 8 \<le> length v then (forget (searched uid c))\<lparr>c_rec := Some (long_bytes (long_of v + add) @ drop 8 v),
          c_long := Some (long_of v + add)\<rparr> else searched uid c) s'"
    unfolding s1(1) using add_cell [OF s1(2), of add] add by (simp only: searched_simps)
qed

lemma related_missed:
  assumes "related c s" "uid = SHF_UID_NONE \<or> uid = here (c_hash c)" "c_rec c = None"
  shows "\<exists>s'. shf_find_key_internal uid what upd s = Inr (SHF_RET_KEY_NONE, s') \<and> related (searched uid c) s'"
  using cell_missed [of c s uid what upd] assms by (simp add: related_def)

lemma related_same_store:
  assumes "related c s" "same_store s s'" "the_hash s' = the_hash s" "shf_hash_key s' = shf_hash_key s"
    "shf_ttl s' = c_ttl c'" "shf_upd_callback_failsafe s' = 0" "knows c' s'"
    "c_rec c' = c_rec c" "c_hash c' = c_hash c" "c_key c' = c_key c" "c_room c' = c_room c"
  shows "related c' s'"
proof -
  have S: "stores c s" using assms(1) by (simp add: related_def)
  note D = storesD [OF S] and T = same_storeD [OF assms(2)]
  have "cell_kv c' = cell_kv c" unfolding cell_kv_def assms(8-10) ..
  then have "stores c' s'" using D T assms(3-6,8-11) by (intro storesI [OF S]) simp_all
  then show ?thesis using assms(7) by (simp add: related_def)
qed

lemma relatedD:
  assumes "related c s"
  shows "the_hash s = c_hash c" "shf_hash_key s = c_key c" "shf_ttl s = c_ttl c" "shf_upd_callback_failsafe s = 0" "knows c s"
  using assms storesD [of c s] unfolding related_def by blast+

lemma related_rehash:
  assumes rel: "related c s" and none: "c_rec c = None" and ss: "same_store s s'"
    and h: "the_hash s' = h" "shf_hash_key s' = key" and same: "shf_ttl s' = shf_ttl s"
    "shf_upd_callback_failsafe s' = shf_upd_callback_failsafe s" and k: "knows c s'"
  shows "related (c\<lparr>c_hash := h, c_key := key\<rparr>) s'"
proof -
  have S: "stores c s" using rel by (simp add: related_def)
  note D = storesD [OF S] and T = same_storeD [OF ss]
  show ?thesis using h same k D T by (simp add: related_def stores_def api_ok_def cell_kv_def none knows_def)
qed

lemma related_long:
  assumes "related c s"
  shows "related (c\<lparr>c_long := Some w\<rparr>) (s\<lparr>shf_val_long := w\<rparr>)"
  using relatedD [OF assms] by (intro related_same_store [OF assms]) (simp_all add: same_store_def knows_def)

text \<open>The two counting operations: an addition, then a deletion when the sum is zero, or a first put.\<close>

lemma gone_zero: "c_ttl c = 0 \<Longrightarrow> gone v c = c\<lparr>c_rec := None, c_uid := Some SHF_UID_NONE, c_keyout := None, c_val := None\<rparr>"
  by (cases c) (simp add: gone_def)

lemma cell_swap: "c\<lparr>c_long := w, c_uid := u\<rparr> = c\<lparr>c_uid := u, c_long := w\<rparr>"
  by (cases c) simp

lemma add_key_found:
  assumes rel: "related c s" and rec: "c_rec c = Some v"
    and go: "cell_found (Add_key_val add) v (searched SHF_UID_NONE c) = Some (res, c')"
  shows "\<exists>s'. shf_add_key_val add s = Inr (res, s') \<and> related c' s'"
proof -
  let ?c0 = "c\<lparr>c_long := Some add\<rparr>" and ?new = "long_of v + add"
  let ?c1 = "(forget (searched SHF_UID_NONE ?c0))\<lparr>c_rec := Some (long_bytes ?new @ drop 8 v), c_long := Some ?new\<rparr>"
  obtain s1 where s1: "shf_add_key_val_atom add s = (if 8 \<le> length v then Inr (SHF_RET_KEY_FOUND, s1) else Inr (SHF_RET_KEY_FOUND OR SHF_RET_BAD_VAL, s1))"
    "related (if 8 \<le> length v then ?c1 else searched SHF_UID_NONE ?c0) s1"
    using related_found(6) [OF related_long [OF rel, of add], of SHF_UID_NONE v add no_upd] rec
    unfolding shf_add_key_val_atom_def by auto
  show ?thesis
  proof (cases "8 \<le> length v")
    case False
    then show ?thesis using go s1 by (auto simp: shf_add_key_val_def shf_ret searched_def rec cell_swap)
  next
    case True
    then have r1: "related ?c1 s1" using s1(2) by simp
    have l: "shf_val_long s1 = ?new" using relatedD(5) [OF r1] by (simp add: knows_def)
    show ?thesis
    proof (cases "?new = 0")
      case False
      then show ?thesis using go s1 True l by (auto simp: shf_add_key_val_def Let_def searched_def rec forget_def)
    next
      case z: True
      then have t: "c_ttl c = 0" using go True by (auto simp: Let_def split: if_splits)
      have c': "c' = (forget (searched SHF_UID_NONE c))\<lparr>c_rec := None, c_uid := Some SHF_UID_NONE, c_long := Some 0\<rparr>" "res = SHF_RET_KEY_FOUND"
        using go True z t by (auto simp: Let_def split: if_splits)
      obtain s2 where "shf_del_key_val s1 = Inr (SHF_RET_KEY_FOUND, s2)" "related (gone (long_bytes ?new @ drop 8 v) (searched SHF_UID_NONE ?c1)) s2"
        using related_found(4) [OF r1, of SHF_UID_NONE _ no_upd] t unfolding shf_del_key_val_def by (auto simp: forget_def)
      moreover have "gone (long_bytes ?new @ drop 8 v) (searched SHF_UID_NONE ?c1) = c'"
        using t z by (simp add: c' gone_zero forget_def) (simp add: searched_def)
      ultimately show ?thesis using s1(1) True l z by (auto simp: shf_add_key_val_def c')
    qed
  qed
qed

lemma add_uid_found:
  assumes rel: "related c s" and rec: "c_rec c = Some v" and go: "cell_found (Add_key_val add) v c = Some (res, c')"
  shows "\<exists>s'. shf_add_uid_val (here (c_hash c)) add s = Inr (res, s') \<and> related c' s'"
proof -
  let ?c0 = "c\<lparr>c_long := Some add\<rparr>" and ?new = "long_of v + add"
  let ?c1 = "(forget ?c0)\<lparr>c_rec := Some (long_bytes ?new @ drop 8 v), c_long := Some ?new\<rparr>"
  obtain s1 where s1: "shf_add_uid_val_atom (here (c_hash c)) add s = (if 8 \<le> length v then Inr (SHF_RET_KEY_FOUND, s1) else Inr (SHF_RET_KEY_FOUND OR SHF_RET_BAD_VAL, s1))"
    "related (if 8 \<le> length v then ?c1 else ?c0) s1"
    using related_found(6) [OF related_long [OF rel, of add], of "here (c_hash c)" v add no_upd] rec
    unfolding shf_add_uid_val_atom_def searched_here by auto
  show ?thesis
  proof (cases "8 \<le> length v")
    case False
    then show ?thesis using go s1 by (auto simp: shf_add_uid_val_def shf_ret)
  next
    case True
    then have r1: "related ?c1 s1" using s1(2) by simp
    have l: "shf_val_long s1 = ?new" using relatedD(5) [OF r1] by (simp add: knows_def)
    show ?thesis
    proof (cases "?new = 0")
      case False
      then show ?thesis using go s1 True l by (auto simp: shf_add_uid_val_def Let_def forget_def)
    next
      case z: True
      then have t: "c_ttl c = 0" using go True by (auto simp: Let_def split: if_splits)
      have c': "c' = (forget c)\<lparr>c_rec := None, c_uid := Some SHF_UID_NONE, c_long := Some 0\<rparr>" "res = SHF_RET_KEY_FOUND"
        using go True z t by (auto simp: Let_def split: if_splits)
      obtain s2 where "shf_del_uid_val (here (c_hash c)) s1 = Inr (SHF_RET_KEY_FOUND, s2)" "related (gone (long_bytes ?new @ drop 8 v) ?c1) s2"
        using related_found(4) [OF r1, of "here (c_hash c)" _ no_upd] t unfolding shf_del_uid_val_def
        by (auto simp: forget_def searched_def)
      moreover have "gone (long_bytes ?new @ drop 8 v) ?c1 = c'" using t z by (simp add: c' gone_zero forget_def)
      ultimately show ?thesis using s1(1) True l z by (auto simp: shf_add_uid_val_def c')
    qed
  qed
qed

lemma add_key_missing:
  assumes rel: "related c s" and none: "c_rec c = None" and room: "put_need c 8 \<le> c_room c"
  shows "\<exists>s'. shf_add_key_val add s = Inr (SHF_RET_KEY_FOUND, s') \<and> related ((put_cell (long_bytes add) c)\<lparr>c_long := Some add\<rparr>) s'"
proof -
  let ?c0 = "searched SHF_UID_NONE (c\<lparr>c_long := Some add\<rparr>)"
  obtain s1 where s1: "shf_add_key_val_atom add s = Inr (SHF_RET_KEY_NONE, s1)" "related ?c0 s1"
    using related_missed [OF related_long [OF rel, of add], of SHF_UID_NONE SHF_FIND_KEY_OR_UID_AND_ATOM_ADD no_upd] none
    unfolding shf_add_key_val_atom_def by auto
  obtain s2 where s2: "shf_put_key_val (Some (long_bytes add)) 8 s1 = Inr (SHF_RET_KEY_PUT, s2)" "related (put_cell (long_bytes add) ?c0) s2"
    using put_cell_ok [OF s1(2), of "long_bytes add"] none room by (auto simp: put_need_def)
  have "(put_cell (long_bytes add) ?c0)\<lparr>c_long := Some add\<rparr> = (put_cell (long_bytes add) c)\<lparr>c_long := Some add\<rparr>"
    by (simp add: put_cell_def searched_def put_need_def)
  then have "related ((put_cell (long_bytes add) c)\<lparr>c_long := Some add\<rparr>) (s2\<lparr>shf_val_long := add\<rparr>)"
    using related_long [OF s2(2), of add] by simp
  then show ?thesis using s1(1) s2(1) by (auto simp: shf_add_key_val_def shf_ret)
qed

text \<open>Every call the machine knows does the same in the model.\<close>

lemma cell_found_key:
  assumes rel: "related c s" and rec: "c_rec c = Some v" and go: "cell_found k v (searched SHF_UID_NONE c) = Some (res, c')"
  shows "\<exists>s'. run_call k s = Inr (res, s') \<and> related c' s'"
proof -
  note F = related_found [OF rel disjI1, OF refl rec]
  show ?thesis
  proof (cases k)
    case (Upd_key_val upd)
    obtain r bs where u: "upd v = (r, bs)" by (cases "upd v")
    have l: "length bs = length v" using go by (simp add: Upd_key_val u split: if_splits)
    show ?thesis using F(3) [where upd = upd, OF u l] go by (auto simp: Upd_key_val u l shf_upd_key_val_def)
  next
    case Del_key_val
    show ?thesis
    proof (cases "c_ttl c = 0 \<or> 4 \<le> length v \<and> c_ttl c = ttl_of v")
      case True
      then show ?thesis using F(4) [of no_upd] go by (auto simp: Del_key_val shf_del_key_val_def split: if_splits)
    next
      case False
      then have "4 \<le> length v" using go by (auto simp: Del_key_val split: if_splits)
      then show ?thesis using F(5) [of no_upd] go False by (auto simp: Del_key_val shf_del_key_val_def split: if_splits)
    qed
  next
    case (Add_key_val add)
    then show ?thesis using add_key_found [OF rel rec] go by simp
  qed (use F(1,2) [of no_upd] go in \<open>auto simp: shf_get_key_val_copy_def shf_get_key_key_copy_def\<close>)
qed

lemma cell_found_uid:
  assumes rel: "related c s" and rec: "c_rec c = Some v" and k: "by_uid k = Some (here (c_hash c), k')"
    and go: "cell_found k' v c = Some (res, c')"
  shows "\<exists>s'. run_call k s = Inr (res, s') \<and> related c' s'"
proof -
  note F = related_found [OF rel disjI2, OF refl rec, unfolded searched_here]
  show ?thesis
  proof (cases k)
    case (Upd_uid_val uid upd)
    then have u: "uid = here (c_hash c)" "k' = Upd_key_val upd" using k by simp_all
    obtain r bs where w: "upd v = (r, bs)" by (cases "upd v")
    have l: "length bs = length v" using go by (simp add: u w split: if_splits)
    show ?thesis using F(3) [where upd = upd, OF w l] go by (auto simp: Upd_uid_val u w l shf_upd_uid_val_def)
  next
    case (Del_uid_val uid)
    then have u: "uid = here (c_hash c)" "k' = Del_key_val" using k by simp_all
    show ?thesis
    proof (cases "c_ttl c = 0 \<or> 4 \<le> length v \<and> c_ttl c = ttl_of v")
      case True
      then show ?thesis using F(4) [of no_upd] go by (auto simp: Del_uid_val u shf_del_uid_val_def split: if_splits)
    next
      case False
      then have "4 \<le> length v" using go by (auto simp: u split: if_splits)
      then show ?thesis using F(5) [of no_upd] go False by (auto simp: Del_uid_val u shf_del_uid_val_def split: if_splits)
    qed
  next
    case (Add_uid_val uid add)
    then show ?thesis using add_uid_found [OF rel rec] go k by auto
  qed (use F(1,2) [of no_upd] go k in \<open>auto simp: shf_get_uid_val_copy_def shf_get_uid_key_copy_def\<close>)
qed

lemma cell_missing_ok:
  assumes rel: "related c s" and none: "c_rec c = None" and go: "cell_missing k c = Some (res, c')"
  shows "\<exists>s'. run_call k s = Inr (res, s') \<and> related c' s'"
proof -
  have F: "\<exists>s'. shf_find_key_internal SHF_UID_NONE what upd s = Inr (SHF_RET_KEY_NONE, s') \<and> related (c\<lparr>c_uid := Some SHF_UID_NONE\<rparr>) s'"
    for what upd using related_missed [OF rel disjI1, OF refl none, of what upd] by (simp add: searched_def none)
  show ?thesis
  proof (cases k)
    case (Put_key_val val n)
    then obtain bs where b: "val = Some bs" "n = length bs" "put_need c n \<le> c_room c" "res = SHF_RET_KEY_PUT" "c' = put_cell bs c"
      using go by (cases val) (auto split: if_splits)
    then show ?thesis using put_cell_ok [OF rel none, of bs] by (simp add: Put_key_val)
  next
    case (Add_key_val add)
    then show ?thesis using add_key_missing [OF rel none, of add] go by (auto split: if_splits)
  qed (use F go in \<open>auto simp: shf_get_key_val_copy_def shf_upd_key_val_def shf_del_key_val_def\<close>)
qed

lemma cell_call_ok:
  assumes rel: "related c s" and go: "cell_call k c = Some (res, c')"
  shows "\<exists>s'. run_call k s = Inr (res, s') \<and> related c' s'"
proof (cases "by_uid k")
  case None
  show ?thesis
  proof (cases "c_rec c")
    case (Some v)
    then have "cell_found k v (searched SHF_UID_NONE c) = Some (res, c')" using go None by (simp add: cell_call_def searched_def)
    then show ?thesis by (rule cell_found_key [OF rel Some])
  next
    case none: None
    then show ?thesis using go None by (intro cell_missing_ok [OF rel none]) (simp add: cell_call_def)
  qed
next
  case (Some x)
  then obtain k' where k: "by_uid k = Some (here (c_hash c), k')"
    using go by (cases x) (auto simp: cell_call_def split: if_splits)
  show ?thesis
  proof (cases "c_rec c")
    case (Some v)
    then show ?thesis using go k by (intro cell_found_uid [OF rel Some k]) (simp add: cell_call_def)
  next
    case none: None
    then have "k' = Del_key_val" "res = SHF_RET_KEY_NONE" "c' = c" using go k by (auto simp: cell_call_def split: if_splits)
    moreover from this(1) have "k = Del_uid_val (here (c_hash c))" using k by (cases k) auto
    ultimately show ?thesis using related_missed [OF rel disjI2, OF refl none, of SHF_FIND_KEY_OR_UID_AND_DELETE no_upd]
      by (simp add: shf_del_uid_val_def)
  qed
qed

lemma cell_found_keeps: "cell_found k v c = Some (res, c') \<Longrightarrow> c_upd c' = c_upd c \<and> c_saved c' = c_saved c"
  by (cases "(k, v, c)" rule: cell_found.cases) (auto simp: forget_def gone_def Let_def split: if_splits prod.splits)

lemma cell_missing_keeps: "cell_missing k c = Some (res, c') \<Longrightarrow> c_upd c' = c_upd c \<and> c_saved c' = c_saved c"
  by (cases "(k, c)" rule: cell_missing.cases) (auto simp: put_cell_def split: if_splits)

lemma cell_call_keeps:
  assumes "cell_call k c = Some (res, c')"
  shows "c_upd c' = c_upd c" "c_saved c' = c_saved c"
  using assms cell_found_keeps [of _ _ c res c'] cell_found_keeps [of k _ "c\<lparr>c_uid := Some (here (c_hash c))\<rparr>" res c'] cell_missing_keeps [of k c res c']
  by (auto simp: cell_call_def split: option.splits if_splits)

section \<open>The lines of the test\<close>

definition follows :: "cell \<Rightarrow> test_st \<Rightarrow> bool" where
  "follows c st \<longleftrightarrow> related c (t_shf st) \<and> t_upd st = c_upd c \<and> (\<forall>x. c_saved c = Some x \<longrightarrow> t_uid st = x)"

lemma cell_check_ok:
  assumes f: "follows c st" and go: "cell_check r k c = Some c'"
  shows "\<exists>st'. check_call run_call r k st = Inr st' \<and> follows c' st' \<and> t_checks st' = t_checks st @ [True]"
proof -
  have k: "cell_call k c = Some (r, c')" using go by (auto simp: cell_check_def split: option.splits if_splits)
  obtain s' where "run_call k (t_shf st) = Inr (r, s')" "related c' s'" using cell_call_ok [OF _ k] f by (auto simp: follows_def)
  then show ?thesis using f cell_call_keeps [OF k] by (simp add: check_call_def check_def follows_def)
qed

lemma cell_cond_ok:
  assumes "follows c st" "cell_cond b c"
  shows "cond_holds b st"
  using assms relatedD(5) [of c "t_shf st"]
  by (cases b) (auto simp: cond_holds_def follows_def knows_def Let_def split: option.splits)

lemma cell_line_ok:
  assumes f: "follows c st" and go: "cell_line l c = Some c'"
  shows "\<exists>st'. run_line run_call l st = Inr st' \<and> follows c' st' \<and> t_checks st' = t_checks st @ (if is_check l then [True] else [])"
proof -
  have rel: "related c (t_shf st)" and u: "t_upd st = c_upd c" and sv: "\<And>x. c_saved c = Some x \<Longrightarrow> t_uid st = x"
    using f by (simp_all add: follows_def)
  note R = relatedD [OF rel]
  have step: "\<exists>st'. Inr (st\<lparr>t_shf := s'\<rparr>) = (Inr st' :: shf_error + test_st) \<and> follows c' st' \<and> t_checks st' = t_checks st @ []"
    if "related c' s'" "c_upd c' = c_upd c" "c_saved c' = c_saved c" for s'
    using that u sv by (simp add: follows_def)
  show ?thesis
  proof (cases l)
    case (Ok_call r k)
    then show ?thesis using cell_check_ok [OF f] go by simp
  next
    case (Ok_uid r k)
    then show ?thesis using cell_check_ok [OF f] go sv by (auto split: option.splits)
  next
    case (Ok_upd_key r)
    then show ?thesis using cell_check_ok [OF f] go by (simp add: u)
  next
    case (Ok_upd_uid r)
    then show ?thesis using cell_check_ok [OF f] go sv by (auto simp: u split: option.splits)
  next
    case (Ok_preset r bs)
    then have "related c' (t_shf st)" "r = SHF_RET_OK" "c' = c\<lparr>c_upd := (c_upd c)\<lparr>shf_upd_callback_copy_val := bs\<rparr>\<rparr>"
      using go R by (auto split: if_splits intro!: related_same_store [OF rel] simp: same_store_def knows_def)
    then show ?thesis using f by (simp add: Ok_preset upd_callback_copy_def R check_def follows_def)
  next
    case (Ok_if b)
    then show ?thesis using cell_cond_ok [OF f, of b] go f by (auto simp: check_def follows_def split: if_splits)
  next
    case Do_save_uid
    then have c': "c' = c\<lparr>c_saved := c_uid c\<rparr>" using go by simp
    have "related c' (t_shf st)" unfolding c' using R by (intro related_same_store [OF rel]) (simp_all add: same_store_def knows_def)
    then show ?thesis using R(5) u by (auto simp: Do_save_uid c' follows_def knows_def)
  next
    case (Do_make_hash key)
    then have c': "c' = c\<lparr>c_hash := key_hash key, c_key := key\<rparr>" "c_rec c = None" using go by (auto split: if_splits)
    have "related c' (shf_make_hash (Some key) (t_shf st))" unfolding c'
      by (rule related_rehash [OF rel c'(2)]) (use R(5) in \<open>simp_all add: same_store_def knows_def shf_make_hash_def key_hash_def split: prod.splits\<close>)
    then show ?thesis using step [of "shf_make_hash (Some key) (t_shf st)"] by (simp add: Do_make_hash c')
  next
    case (Do_own_hash h key)
    then have c': "c' = c\<lparr>c_hash := h, c_key := key\<rparr>" "c_rec c = None" using go by (auto split: if_splits)
    have "related c' ((t_shf st)\<lparr>the_hash := h, shf_hash_key := key\<rparr>)" unfolding c'
      by (rule related_rehash [OF rel c'(2)]) (use R(5) in \<open>simp_all add: same_store_def knows_def\<close>)
    then show ?thesis using step [of "(t_shf st)\<lparr>the_hash := h, shf_hash_key := key\<rparr>"] by (simp add: Do_own_hash c')
  next
    case (Do_set_ttl ttl)
    then have c': "c' = c\<lparr>c_ttl := ttl\<rparr>" using go by simp
    have "related c' ((t_shf st)\<lparr>shf_ttl := ttl\<rparr>)"
      unfolding c' using R by (intro related_same_store [OF rel]) (simp_all add: same_store_def knows_def)
    then show ?thesis using step [of "(t_shf st)\<lparr>shf_ttl := ttl\<rparr>"] by (simp add: Do_set_ttl c')
  next
    case Do_clear_val
    then have c': "c' = c\<lparr>c_val := Some []\<rparr>" using go by simp
    have "related c' ((t_shf st)\<lparr>shf_val := []\<rparr>)"
      unfolding c' using R by (intro related_same_store [OF rel]) (simp_all add: same_store_def knows_def)
    then show ?thesis using step [of "(t_shf st)\<lparr>shf_val := []\<rparr>"] by (simp add: Do_clear_val c')
  next
    case (Do_set_callback g)
    then have c': "c' = c\<lparr>c_upd := (c_upd c)\<lparr>shf_upd_callback := g\<rparr>\<rparr>" using go by simp
    have "related c' ((t_shf st)\<lparr>shf_upd_callback_failsafe := 0\<rparr>)"
      unfolding c' using R by (intro related_same_store [OF rel]) (simp_all add: same_store_def knows_def)
    then show ?thesis using u sv by (simp add: Do_set_callback c' shf_upd_callback_set_def follows_def)
  qed
qed

lemma cell_lines_ok:
  assumes "follows c st" "cell_lines ls c = Some c'"
  shows "\<exists>st'. run_lines run_call ls st = Inr st' \<and> follows c' st' \<and> t_checks st' = t_checks st @ replicate (length (filter is_check ls)) True"
  using assms
proof (induction ls arbitrary: c st)
  case Nil
  then show ?case by simp
next
  case (Cons l ls)
  obtain c1 where c1: "cell_line l c = Some c1" "cell_lines ls c1 = Some c'" using Cons.prems(2) by (cases "cell_line l c") auto
  obtain st1 where st1: "run_line run_call l st = Inr st1" "follows c1 st1" "t_checks st1 = t_checks st @ (if is_check l then [True] else [])"
    using cell_line_ok [OF Cons.prems(1) c1(1)] by blast
  then show ?case using Cons.IH [OF st1(2) c1(2)] by auto
qed

section \<open>The search over all tables\<close>

text \<open>
  The loop of the test over all tables, which counts the references in use. It walks until it is back at
  the first table of the first window.
\<close>

definition refs_used :: "tab_mmap \<Rightarrow> nat" where
  "refs_used t = length (filter (\<lambda>(row, ref). ref_pos (tab_row t row ref) \<noteq> 0)
     (List.product [0..<SHF_ROWS_PER_TAB] [0..<SHF_REFS_PER_ROW]))"

primrec test_walk :: "(nat \<times> nat \<Rightarrow> shf \<times> tab_buf \<Rightarrow> shf_error + (nat \<times> nat) \<times> shf \<times> tab_buf) \<Rightarrow> nat \<Rightarrow> nat \<times> nat \<Rightarrow> nat \<Rightarrow> shf \<times> tab_buf \<Rightarrow> shf_error + nat \<times> shf \<times> tab_buf" where
  "test_walk iterate 0 pos used st = Inl Out_of_fuel"
| "test_walk iterate (Suc n) pos used st = bindE (iterate pos st) (\<lambda>(pos, st).
     let used = used + refs_used (shf_tab (snd st))
     in if fst pos > 0 \<or> snd pos > 0 then test_walk iterate n pos used st else Inr (used, st))"

definition walk_fuel :: nat where
  "walk_fuel = SHF_WINS_PER_SHF * SHF_TABS_PER_WIN"

lemma refs_used_none:
  assumes "slot L t = (\<lambda>_. None)"
  shows "refs_used t = 0"
proof -
  have "ref_pos (tab_row t row ref) = 0" if "row < 512" "ref < 16" for row ref
    using slot_None_iff [of L t "(row, ref)"] that by (simp add: assms live_def slots_def slot_pos_def shf_const_eq)
  then show ?thesis by (auto simp: refs_used_def filter_empty_conv shf_const_eq)
qed

lemma empty_slots:
  assumes ok: "shf_ok s" and none: "kv (lens_of s) s = (\<lambda>_. None)" and b: "win < 256"
  shows "slot (lens_of s) (table s win tab) = (\<lambda>_. None)"
proof
  fix rf :: "nat \<times> nat"
  obtain row ref where rf: "rf = (row, ref)" by (cases rf)
  have R: "routed (wins s win) tab (table s win tab)" using shf_okD(3) [OF ok] b by (simp add: routes_ok_def shf_const_eq)
  show "slot (lens_of s) (table s win tab) rf = None"
  proof (rule ccontr)
    assume "slot (lens_of s) (table s win tab) rf \<noteq> None"
    then obtain t rnd k v where sl: "slot (lens_of s) (table s win tab) (row, ref) = Some (t, rnd, k, v)" by (auto simp: rf)
    then have "win_tabs (wins s win) t = tab" using R unfolding routed_slot [of _ _ _ "lens_of s"] by blast
    then have "kv (lens_of s) s (win, t, row, ref) = Some (rnd, k, v)" using sl by (simp add: kv_eq)
    then show False by (simp add: none)
  qed
qed

lemma test_walk_empty:
  assumes "shf_ok s" "win < 256" "tab < tabs_used (wins s win)" "kv (lens_of s) s = (\<lambda>_. None)"
    "length (tabs_from (\<lambda>w. tabs_used (wins s w)) (win, tab)) \<le> n"
  shows "\<exists>s' buf'. test_walk shf_tab_copy_iterate n (win, tab) used (s, buf) = Inr (used, s', buf') \<and> quiet s s'"
  using assms
proof (induction n arbitrary: s win tab buf)
  case 0
  then show ?case by (simp add: tabs_from_def)
next
  case (Suc n)
  let ?u = "\<lambda>w. tabs_used (wins s w)"
  have pos: "0 < ?u w" if "w < 256" for w
    using files_okD(8) [OF shf_okD(2) [OF Suc.prems(1)] that, of 0] by simp
  obtain s1 buf1 where r: "shf_tab_copy_iterate (win, tab) (s, buf) = Inr (next_tab (?u win) (win, tab), s1, buf1)"
    "quiet s s1" "same_look s s1" "slot (lens_of s) (shf_tab buf1) = slot (lens_of s) (table s win tab)"
    using iterate_ok [OF Suc.prems(1-3), of buf] by blast
  have z: "refs_used (shf_tab buf1) = 0"
    by (rule refs_used_none) (use r(4) empty_slots [OF Suc.prems(1,4,2)] in simp)
  have u: "(\<lambda>w. tabs_used (wins s1 w)) = ?u" using r(3) by (simp add: same_look_def same_routes_def fun_eq_iff)
  note Q = quietD [OF r(2)]
  from tabs_from_step [where used = ?u, OF Suc.prems(2,3) pos] show ?case
  proof
    assume a: "next_tab (?u win) (win, tab) = (0, 0) \<and> tabs_from ?u (win, tab) = [(win, tab)]"
    then show ?thesis using r(1,2) z by (simp add: Let_def)
  next
    assume "\<exists>w t. next_tab (?u win) (win, tab) = (w, t) \<and> w < 256 \<and> t < ?u w \<and> (0, 0) \<noteq> (w, t)
        \<and> tabs_from ?u (win, tab) = (win, tab) # tabs_from ?u (w, t)"
    then obtain w t where a: "next_tab (?u win) (win, tab) = (w, t)" "w < 256" "t < ?u w" "0 < w \<or> 0 < t"
      "tabs_from ?u (win, tab) = (win, tab) # tabs_from ?u (w, t)" by fastforce
    have l: "length (tabs_from (\<lambda>w. tabs_used (wins s1 w)) (w, t)) \<le> n" using Suc.prems(5) a(5) by (simp add: u)
    have t: "t < tabs_used (wins s1 w)" using a(3) fun_cong [OF u, of w] by simp
    have "kv (lens_of s1) s1 = (\<lambda>_. None)" using Q(4,5) Suc.prems(4) by simp
    from Suc.IH [OF Q(2) a(2) t this l, of buf1] obtain s' buf' where
      "test_walk shf_tab_copy_iterate n (w, t) used (s1, buf1) = Inr (used, s', buf')" "quiet s1 s'" by blast
    then show ?thesis using r(1) a(1,4) z quiet_trans [OF r(2)] by (auto simp: Let_def)
  qed
qed

section \<open>The whole test\<close>

text \<open>
  From the fresh instance that \<open>shf_attach\<close> gives: the calls for keys and values, those with own hashes,
  the search over all tables and its check.
\<close>

definition test_start :: "nat \<Rightarrow> shf_error + test_st" where
  "test_start vfs = bindE (shf_set_is_lockable 0 (shf_attach vfs)) (\<lambda>s. Inr \<lparr>t_shf = s,
     t_upd = \<lparr>shf_upd_callback = Callback_copy, shf_upd_callback_copy_val = []\<rparr>, t_uid = 0, t_checks = []\<rparr>)"

definition test_key_val :: "nat \<Rightarrow> tab_buf \<Rightarrow> shf_error + test_st" where
  "test_key_val vfs buf = bindE (test_start vfs) (\<lambda>st. bindE (run_lines run_call (test_key_ops @ test_own_hashes) st) (\<lambda>st.
     bindE (test_walk shf_tab_copy_iterate walk_fuel (0, 0) 0 (t_shf st, buf)) (\<lambda>(used, s, buf). Inr (check (used = 0) (st\<lparr>t_shf := s\<rparr>)))))"

definition start_cell :: "shf_hash \<Rightarrow> byte list \<Rightarrow> nat \<Rightarrow> cell" where
  "start_cell h key spare = \<lparr>c_hash = h, c_key = key, c_rec = None, c_uid = None, c_val = None, c_keyout = None,
     c_long = None, c_ttl = 0, c_upd = \<lparr>shf_upd_callback = Callback_copy, shf_upd_callback_copy_val = []\<rparr>,
     c_saved = None, c_room = spare\<rparr>"

lemma test_start_follows:
  assumes "2 ^ 32 \<le> v"
  shows "\<exists>st. test_start v = Inr st \<and> follows (start_cell (the_hash (t_shf st)) (shf_hash_key (t_shf st)) 1000) st \<and> t_checks st = []"
proof -
  let ?s = "(shf_attach v)\<lparr>is_lockable := 0\<rparr>"
  have "same_store (shf_attach v) ?s" by (simp add: same_store_def)
  note T = same_storeD [OF this]
  show ?thesis using T assms
    by (simp add: test_start_def shf_set_is_lockable_def assertE_def follows_def related_def stores_def api_ok_def knows_def
        start_cell_def cell_kv_def attach_ok attach_room attach_kv test_lens_def)
qed

lemma ttl_2222: "ttl_of (str_bytes ''2222'') = 842150450"
  by (simp add: ttl_of_def SHF_U32_AT_def str_bytes_def of_char_def)

lemma length_str_bytes: "length (str_bytes cs) = length cs"
  by (simp add: str_bytes_def)

lemma swap_bytes: "upd_callback_test (str_bytes [a, b, c]) = (0, str_bytes [c, b, a])"
  by (simp add: upd_callback_test_def str_bytes_def)

lemma long_again: "long_of (long_bytes w) = w"
  using long_of_bytes [of w "[]"] by simp

lemmas cell_eval = Let_def start_cell_def cell_check_def cell_call_def put_cell_def put_need_def data_needed_def forget_def gone_def
  upd_fun_def shf_upd_callback_copy_def ttl_2222 long_of_bytes long_again swap_bytes length_str_bytes

lemma cell_lines_append: "cell_lines (xs @ ys) c = Option.bind (cell_lines xs c) (cell_lines ys)"
  by (induction xs arbitrary: c) (simp_all split: bind_splits)

lemma key_ops_pass:
  "\<exists>c. cell_lines test_key_ops (start_cell h key 1000) = Some c \<and> c_rec c = None \<and> c_ttl c = 0 \<and> c_room c = 914"
  by (simp add: test_key_ops_def test_ops_1_def test_ops_2_def cell_eval shf_ret)

lemma own_hash_pass:
  assumes "c_rec c = None" "c_ttl c = 0" "length key + 12 \<le> c_room c"
  shows "\<exists>c'. cell_lines (test_own_hash h key) c = Some c' \<and> c_rec c' = None \<and> c_ttl c' = 0 \<and> c_room c' = c_room c - (length key + 12)"
  using assms by (cases c) (simp add: test_own_hash_def cell_eval shf_ret)

lemma own_hashes_pass:
  assumes "c_rec c = None" "c_ttl c = 0" "200 \<le> c_room c"
  shows "\<exists>c'. cell_lines test_own_hashes c = Some c' \<and> c_rec c' = None"
proof -
  let ?h = "concat (map le32 h_foo)" and ?b = "concat (map le32 h_bar)"
  have l: "length ?h = 32" "length ?b = 32" by (simp_all add: h_foo_def h_bar_def)
  obtain c1 where c1: "cell_lines (test_own_hash h_foo (str_bytes ''foo'')) c = Some c1" "c_rec c1 = None" "c_ttl c1 = 0" "185 \<le> c_room c1"
    using own_hash_pass [of c "str_bytes ''foo''" h_foo] assms by (auto simp: length_str_bytes)
  obtain c2 where c2: "cell_lines (test_own_hash h_bar (str_bytes ''bar'')) c1 = Some c2" "c_rec c2 = None" "c_ttl c2 = 0" "170 \<le> c_room c2"
    using own_hash_pass [of c1 "str_bytes ''bar''" h_bar] c1 by (auto simp: length_str_bytes)
  obtain c3 where c3: "cell_lines (test_own_hash h_foo ?h) c2 = Some c3" "c_rec c3 = None" "c_ttl c3 = 0" "126 \<le> c_room c3"
    using own_hash_pass [of c2 ?h h_foo] c2 by (auto simp: l)
  obtain c4 where "cell_lines (test_own_hash h_bar ?b) c3 = Some c4" "c_rec c4 = None"
    using own_hash_pass [of c3 ?b h_bar] c3 by (auto simp: l)
  then show ?thesis using c1(1) c2(1) c3(1) by (simp add: test_own_hashes_def cell_lines_append)
qed

lemma count_checks: "length (filter is_check (test_key_ops @ test_own_hashes)) = 166"
  by (simp add: test_key_ops_def test_ops_1_def test_ops_2_def test_own_hashes_def test_own_hash_def Let_def)

lemma length_tabs_from:
  assumes "shf_ok s"
  shows "length (tabs_from (\<lambda>w. tabs_used (wins s w)) (0, 0)) \<le> walk_fuel"
proof -
  let ?u = "\<lambda>w. tabs_used (wins s w)"
  have "length (all_tabs ?u [0..<m]) = (\<Sum>w < m. ?u w)" for m by (induction m) (simp_all add: all_tabs_def)
  moreover have "tabs_from ?u (0, 0) = all_tabs ?u [0..<256]"
    by (simp add: tabs_from_def all_tabs_def upt_conv_Cons [of 0 256] del: upt_Suc upt_rec_numeral)
  moreover have "(\<Sum>w < 256. ?u w) \<le> 256 * 2048"
    using sum_bounded_above [of "{..<256}" ?u 2048] files_okD(5) [OF shf_okD(2) [OF assms]] by simp
  ultimately show ?thesis by (simp add: walk_fuel_def shf_const_eq)
qed

lemma ops_then_walk:
  assumes f: "follows (start_cell h key 1000) st0"
    and ops: "cell_lines ops (start_cell h key 1000) = Some c0" "c_rec c0 = None" "c_ttl c0 = 0" "c_room c0 = 914"
  shows "\<exists>st s' buf'. run_lines run_call (ops @ test_own_hashes) st0 = Inr st
     \<and> t_checks st = t_checks st0 @ replicate (length (filter is_check (ops @ test_own_hashes))) True
     \<and> test_walk shf_tab_copy_iterate walk_fuel (0, 0) 0 (t_shf st, buf) = Inr (0, s', buf')"
proof -
  obtain c where c: "cell_lines (ops @ test_own_hashes) (start_cell h key 1000) = Some c" "c_rec c = None"
    using own_hashes_pass [of c0] ops by (auto simp: cell_lines_append)
  obtain st where st: "run_lines run_call (ops @ test_own_hashes) st0 = Inr st" "follows c st"
    "t_checks st = t_checks st0 @ replicate (length (filter is_check (ops @ test_own_hashes))) True"
    using cell_lines_ok [OF f c(1)] by blast
  have S: "stores c (t_shf st)" using st(2) by (simp add: follows_def related_def)
  note D = storesD [OF S]
  have none: "kv (lens_of (t_shf st)) (t_shf st) = (\<lambda>_. None)" by (simp add: D(4,8) cell_kv_def c(2))
  have u: "0 < tabs_used (wins (t_shf st) 0)" using files_okD(8) [OF shf_okD(2) [OF D(1)], of 0 0] by simp
  obtain s' buf' where "test_walk shf_tab_copy_iterate walk_fuel (0, 0) 0 (t_shf st, buf) = Inr (0, s', buf')"
    using test_walk_empty [OF D(1) _ u none length_tabs_from [OF D(1)], of 0 buf] by auto
  then show ?thesis using st(1,3) by blast
qed

text \<open>
  C14. The repository's own functional test of the calls for keys and values succeeds on the model: from a
  fresh instance with enough shared memory, the program runs to its end and all 167 checks of its lines hold, those
  of the calls by key and by UID, of the update callbacks, of the TTL, of the counting operations that create
  and delete a key, of the hashes of the user's own, and the last one that a walk over all tables finds no
  reference in use.
\<close>

theorem test_key_val_passes:
  assumes "2 ^ 32 \<le> vfs"
  shows "\<exists>st. test_key_val vfs buf = Inr st \<and> t_checks st = replicate 167 True"
proof -
  obtain st0 where s0: "test_start vfs = Inr st0" "follows (start_cell (the_hash (t_shf st0)) (shf_hash_key (t_shf st0)) 1000) st0" "t_checks st0 = []"
    using test_start_follows [OF assms] by blast
  obtain c0 where c0: "cell_lines test_key_ops (start_cell (the_hash (t_shf st0)) (shf_hash_key (t_shf st0)) 1000) = Some c0"
    "c_rec c0 = None" "c_ttl c0 = 0" "c_room c0 = 914" using key_ops_pass by blast
  obtain st s' buf' where "run_lines run_call (test_key_ops @ test_own_hashes) st0 = Inr st" "t_checks st = replicate 166 True"
    "test_walk shf_tab_copy_iterate walk_fuel (0, 0) 0 (t_shf st, buf) = Inr (0, s', buf')"
    using ops_then_walk [OF s0(2) c0, of buf] unfolding s0(3) count_checks by auto
  then show ?thesis using s0(1) by (simp add: test_key_val_def check_def replicate_append_same flip: replicate_Suc)
qed

theorem test_key_val_passes_witness:
  "\<exists>st. test_key_val (2 ^ 32) \<lparr>shf_tab = zero_tab, shf_tab_size = 4096, shf_tab_len = 0\<rparr> = Inr st \<and> length (t_checks st) = 167
     \<and> False \<notin> set (t_checks st)"
proof -
  obtain st where "test_key_val (2 ^ 32) \<lparr>shf_tab = zero_tab, shf_tab_size = 4096, shf_tab_len = 0\<rparr> = Inr st" "t_checks st = replicate 167 True"
    using test_key_val_passes [of "2 ^ 32"] by auto
  then show ?thesis by simp
qed

end
