(* ===== verification/Shf_Cpp.thy ===== *)
theory Shf_Cpp
  imports Shf_Test
begin

text \<open>
  The C++ class \<open>SharedHashFile\<close>: what an object keeps, its methods in the order of \<open>SharedHashFile.cpp\<close>,
  its life from the constructor to the destructor, and the functional test of the class.
\<close>

section \<open>The object\<close>

text \<open>
  The constructor leaves the member \<open>shf\<close> as it is: a pointer is uninitialised, NULL, or the SHF of an
  attached instance. A method that passes the pointer on stops at the assertion that it is not NULL, or
  goes wrong at the first use.
\<close>

datatype shf_ptr = Unset_shf | Null_shf | Valid_shf

record shared_hash_file =
  obj_shf :: shf_ptr
  obj_isAttached :: nat

definition with_shf :: "shared_hash_file \<Rightarrow> shf_error + 'a \<Rightarrow> shf_error + 'a" where
  "with_shf obj r = (case obj_shf obj of Valid_shf \<Rightarrow> r | Null_shf \<Rightarrow> Inl Null_pointer | Unset_shf \<Rightarrow> Inl Wild_pointer)"

definition SharedHashFile_new :: shared_hash_file where
  "SharedHashFile_new = \<lparr>obj_shf = Unset_shf, obj_isAttached = 0\<rparr>"

text \<open>None while the process waits for its log thread.\<close>

definition Detach :: "log_mmap \<Rightarrow> shared_hash_file \<times> shf \<times> allocs \<times> log_proc
    \<Rightarrow> shf_error + (shared_hash_file \<times> shf \<times> allocs \<times> log_proc) option" where
  "Detach m = (\<lambda>(obj, st). with_shf obj (bindE (shf_detach m st) (\<lambda>r.
     Inr (map_option (Pair \<lparr>obj_shf = Null_shf, obj_isAttached = 0\<rparr>) r))))"

definition SharedHashFile_delete :: "log_mmap \<Rightarrow> shared_hash_file \<times> shf \<times> allocs \<times> log_proc
    \<Rightarrow> shf_error + (shared_hash_file \<times> shf \<times> allocs \<times> log_proc) option" where
  "SharedHashFile_delete m = (\<lambda>(obj, st). if obj_isAttached obj \<noteq> 0 then Detach m (obj, st) else Inr (Some (obj, st)))"

text \<open>Whether the folder of the instance is there is the first argument.\<close>

definition AttachExisting :: "bool \<Rightarrow> shared_hash_file \<times> shf \<times> allocs \<Rightarrow> bool \<times> shared_hash_file \<times> shf \<times> allocs" where
  "AttachExisting there = (\<lambda>(obj, s, a).
     if there then (True, \<lparr>obj_shf = Valid_shf, obj_isAttached = 1\<rparr>, shf_attach_existing s, attach_allocs)
     else (False, \<lparr>obj_shf = Null_shf, obj_isAttached = 0\<rparr>, s, a))"

definition Attach :: "bool \<Rightarrow> nat \<Rightarrow> shared_hash_file \<times> shf \<times> allocs \<Rightarrow> bool \<times> shared_hash_file \<times> shf \<times> allocs" where
  "Attach there vfs = (\<lambda>(obj, s, a).
     (True, \<lparr>obj_shf = Valid_shf, obj_isAttached = 1\<rparr>, if there then shf_attach_existing s else shf_attach vfs, attach_allocs))"

definition IsAttached :: "shared_hash_file \<Rightarrow> bool" where
  "IsAttached obj = (obj_isAttached obj \<noteq> 0)"

section \<open>Keys and values\<close>

definition MakeHash :: "byte list \<Rightarrow> shared_hash_file \<Rightarrow> shf \<Rightarrow> shf_error + nat \<times> shf" where
  "MakeHash key obj s = Inr (SHF_RET_OK, shf_make_hash (Some key) s)"

definition GetKeyKeyCopy :: "shared_hash_file \<Rightarrow> shf \<Rightarrow> shf_error + nat \<times> shf" where
  "GetKeyKeyCopy obj s = with_shf obj (shf_get_key_key_copy s)"

definition GetUidKeyCopy :: "nat \<Rightarrow> shared_hash_file \<Rightarrow> shf \<Rightarrow> shf_error + nat \<times> shf" where
  "GetUidKeyCopy uid obj s = with_shf obj (shf_get_uid_key_copy uid s)"

definition GetKeyValCopy :: "shared_hash_file \<Rightarrow> shf \<Rightarrow> shf_error + nat \<times> shf" where
  "GetKeyValCopy obj s = with_shf obj (shf_get_key_val_copy s)"

definition GetUidValCopy :: "nat \<Rightarrow> shared_hash_file \<Rightarrow> shf \<Rightarrow> shf_error + nat \<times> shf" where
  "GetUidValCopy uid obj s = with_shf obj (shf_get_uid_val_copy uid s)"

definition AddKeyVal :: "64 word \<Rightarrow> shared_hash_file \<Rightarrow> shf \<Rightarrow> shf_error + nat \<times> shf" where
  "AddKeyVal add obj s = with_shf obj (shf_add_key_val add s)"

definition AddUidVal :: "nat \<Rightarrow> 64 word \<Rightarrow> shared_hash_file \<Rightarrow> shf \<Rightarrow> shf_error + nat \<times> shf" where
  "AddUidVal uid add obj s = with_shf obj (shf_add_uid_val uid add s)"

definition PutKeyVal :: "byte list option \<Rightarrow> nat \<Rightarrow> shared_hash_file \<Rightarrow> shf \<Rightarrow> shf_error + nat \<times> shf" where
  "PutKeyVal val val_len obj s = with_shf obj (shf_put_key_val val val_len s)"

definition DelKeyVal :: "shared_hash_file \<Rightarrow> shf \<Rightarrow> shf_error + nat \<times> shf" where
  "DelKeyVal obj s = with_shf obj (shf_del_key_val s)"

definition DelUidVal :: "nat \<Rightarrow> shared_hash_file \<Rightarrow> shf \<Rightarrow> shf_error + nat \<times> shf" where
  "DelUidVal uid obj s = with_shf obj (shf_del_uid_val uid s)"

text \<open>As for the C functions, the update callback of the thread is an argument.\<close>

definition UpdKeyVal :: "(byte list \<Rightarrow> nat \<times> byte list) \<Rightarrow> shared_hash_file \<Rightarrow> shf \<Rightarrow> shf_error + nat \<times> shf" where
  "UpdKeyVal upd obj s = with_shf obj (shf_upd_key_val upd s)"

definition UpdUidVal :: "nat \<Rightarrow> (byte list \<Rightarrow> nat \<times> byte list) \<Rightarrow> shared_hash_file \<Rightarrow> shf \<Rightarrow> shf_error + nat \<times> shf" where
  "UpdUidVal uid upd obj s = with_shf obj (shf_upd_uid_val uid upd s)"

definition UpdCallbackCopy :: "byte list \<Rightarrow> shared_hash_file \<Rightarrow> shf \<times> upd_thread \<Rightarrow> nat \<times> byte list \<times> upd_thread" where
  "UpdCallbackCopy val obj st = upd_callback_copy val st"

definition TabCopyIterate :: "shared_hash_file \<Rightarrow> nat \<times> nat \<Rightarrow> shf \<times> tab_buf \<Rightarrow> shf_error + (nat \<times> nat) \<times> shf \<times> tab_buf" where
  "TabCopyIterate obj pos st = with_shf obj (shf_tab_copy_iterate pos st)"

section \<open>Deletion, settings and debugging\<close>

definition Del :: "(shf \<Rightarrow> string \<times> shf) \<Rightarrow> log_mmap \<Rightarrow> shared_hash_file \<times> shf \<times> allocs \<times> log_proc
    \<Rightarrow> shf_error + (string \<times> shared_hash_file \<times> shf \<times> allocs \<times> log_proc) option" where
  "Del rm_folder m = (\<lambda>(obj, st). with_shf obj (bindE (shf_del rm_folder m st) (\<lambda>r.
     Inr (map_option (\<lambda>(hint, st). (hint, \<lparr>obj_shf = Null_shf, obj_isAttached = 0\<rparr>, st)) r))))"

definition DebugGetGarbage :: "shared_hash_file \<Rightarrow> shf \<Rightarrow> shf_error + nat" where
  "DebugGetGarbage obj s = with_shf obj (shf_debug_get_garbage s)"

text \<open>The counter \<open>shf_debug_disabled\<close> of the thread.\<close>

definition shf_debug_verbosity_less :: "32 word \<Rightarrow> 32 word" where "shf_debug_verbosity_less disabled = disabled + 1"
definition shf_debug_verbosity_more :: "32 word \<Rightarrow> 32 word" where "shf_debug_verbosity_more disabled = disabled - 1"

definition DebugVerbosityLess :: "shared_hash_file \<Rightarrow> 32 word \<Rightarrow> 32 word" where
  "DebugVerbosityLess obj disabled = shf_debug_verbosity_less disabled"

definition DebugVerbosityMore :: "shared_hash_file \<Rightarrow> 32 word \<Rightarrow> 32 word" where
  "DebugVerbosityMore obj disabled = shf_debug_verbosity_more disabled"

definition SetDataNeedFactor :: "nat \<Rightarrow> shared_hash_file \<Rightarrow> shf \<Rightarrow> shf_error + shf" where
  "SetDataNeedFactor f obj s = shf_set_data_need_factor f s"

definition SetIsLockable :: "nat \<Rightarrow> shared_hash_file \<Rightarrow> shf \<Rightarrow> shf_error + shf" where
  "SetIsLockable b obj s = with_shf obj (shf_set_is_lockable b s)"

definition SetIsFixedLen :: "nat \<Rightarrow> nat \<Rightarrow> shared_hash_file \<Rightarrow> shf \<Rightarrow> shf_error + shf" where
  "SetIsFixedLen kl vl obj s = with_shf obj (Inr (shf_set_is_fixed_len kl vl s))"

section \<open>Queues and races\<close>

type_synonym q_world = "shf \<times> q_proc \<times> q_ptrs"

definition QNew :: "nat \<Rightarrow> nat \<Rightarrow> nat \<Rightarrow> nat \<Rightarrow> shared_hash_file \<Rightarrow> q_world \<times> allocs \<Rightarrow> shf_error + q_world \<times> allocs" where
  "QNew n_qs n_items item_size nolock_max obj = (\<lambda>(st, a). with_shf obj (
     bindE (shf_q_new n_qs n_items item_size nolock_max st) (\<lambda>st. Inr (st, q_alloc a))))"

definition QGet :: "shared_hash_file \<Rightarrow> q_world \<times> allocs \<Rightarrow> shf_error + q_world \<times> allocs" where
  "QGet obj = (\<lambda>(st, a). with_shf obj (bindE (shf_q_get st) (\<lambda>st. Inr (st, q_alloc a))))"

definition QDel :: "shared_hash_file \<Rightarrow> q_world \<times> allocs \<Rightarrow> shf_error + q_world \<times> allocs" where
  "QDel obj = (\<lambda>(st, a). with_shf obj (bindE (shf_q_del st) (\<lambda>st. bindE (q_free a) (\<lambda>a. Inr (st, a)))))"

definition QNewName :: "byte list \<Rightarrow> shared_hash_file \<Rightarrow> q_world \<Rightarrow> shf_error + nat \<times> q_world" where
  "QNewName name obj st = with_shf obj (shf_q_new_name name st)"

definition QGetName :: "byte list \<Rightarrow> shared_hash_file \<Rightarrow> q_world \<Rightarrow> shf_error + nat \<times> q_world" where
  "QGetName name obj st = with_shf obj (shf_q_get_name name st)"

definition QPushHead :: "nat \<Rightarrow> nat \<Rightarrow> shared_hash_file \<Rightarrow> q_st \<Rightarrow> shf_error + q_st" where
  "QPushHead qid qiid obj st = with_shf obj (shf_q_push_head qid qiid st)"

definition QPullTail :: "nat \<Rightarrow> shared_hash_file \<Rightarrow> q_st \<Rightarrow> shf_error + nat \<times> q_st" where
  "QPullTail qid obj st = with_shf obj (shf_q_pull_tail qid st)"

definition QPushHeadPullTail :: "nat \<Rightarrow> nat \<Rightarrow> nat \<Rightarrow> shared_hash_file \<Rightarrow> q_st \<Rightarrow> shf_error + nat \<times> q_st" where
  "QPushHeadPullTail push_qid push_qiid pull_qid obj st = with_shf obj (shf_q_push_head_pull_tail push_qid push_qiid pull_qid st)"

definition QFlush :: "nat \<Rightarrow> shared_hash_file \<Rightarrow> q_st \<Rightarrow> shf_error + q_st" where
  "QFlush pull_qid obj st = with_shf obj (shf_q_flush pull_qid st)"

definition QIsReady :: "shared_hash_file \<Rightarrow> q_proc \<Rightarrow> shf_error + bool" where
  "QIsReady obj p = with_shf obj (Inr (shf_q_is_ready p \<noteq> 0))"

definition RaceInit :: "byte list \<Rightarrow> shared_hash_file \<Rightarrow> shf \<Rightarrow> shf_error + shf" where
  "RaceInit name obj s = with_shf obj (shf_race_init name s)"

text \<open>The horse comes and waits; the arguments of the wait are the clock at its start and what it sees later.\<close>

definition RaceStart :: "byte list \<Rightarrow> nat \<Rightarrow> real \<Rightarrow> (nat \<times> real) list \<Rightarrow> shared_hash_file \<Rightarrow> shf \<Rightarrow> shf_error + bool \<times> shf" where
  "RaceStart name horses start_time views obj s = with_shf obj (bindE (race_enter name s) (\<lambda>(line, s).
     bindE (race_wait horses start_time views) (\<lambda>started. Inr (started, s))))"

section \<open>The class and the C functions\<close>

text \<open>The calls for keys and values that the class offers, and sequences of them.\<close>

fun api_method :: "api_call \<Rightarrow> (shared_hash_file \<Rightarrow> shf \<Rightarrow> shf_error + nat \<times> shf) option" where
  "api_method (Make_hash key) = Some (MakeHash key)"
| "api_method Get_key_key_copy = Some GetKeyKeyCopy"
| "api_method (Get_uid_key_copy uid) = Some (GetUidKeyCopy uid)"
| "api_method Get_key_val_copy = Some GetKeyValCopy"
| "api_method (Get_uid_val_copy uid) = Some (GetUidValCopy uid)"
| "api_method (Add_key_val add) = Some (AddKeyVal add)"
| "api_method (Add_uid_val uid add) = Some (AddUidVal uid add)"
| "api_method (Put_key_val val val_len) = Some (PutKeyVal val val_len)"
| "api_method Del_key_val = Some DelKeyVal"
| "api_method (Del_uid_val uid) = Some (DelUidVal uid)"
| "api_method (Upd_key_val upd) = Some (UpdKeyVal upd)"
| "api_method (Upd_uid_val uid upd) = Some (UpdUidVal uid upd)"
| "api_method _ = None"

text \<open>What the class does not offer is no call of a program that uses it.\<close>

definition run_method :: "shared_hash_file \<Rightarrow> api_call \<Rightarrow> shf \<Rightarrow> shf_error + nat \<times> shf" where
  "run_method obj c s = (case api_method c of None \<Rightarrow> Inl Bad_argument | Some f \<Rightarrow> f obj s)"

primrec run_methods :: "shared_hash_file \<Rightarrow> api_call list \<Rightarrow> shf \<Rightarrow> shf_error + nat list \<times> shf" where
  "run_methods obj [] s = Inr ([], s)"
| "run_methods obj (c # cs) s = bindE (run_method obj c s) (\<lambda>(r, s). bindE (run_methods obj cs s) (\<lambda>(rs, s). Inr (r # rs, s)))"

lemmas method_defs = MakeHash_def GetKeyKeyCopy_def GetUidKeyCopy_def GetKeyValCopy_def GetUidValCopy_def AddKeyVal_def AddUidVal_def
  PutKeyVal_def DelKeyVal_def DelUidVal_def UpdKeyVal_def UpdUidVal_def

lemma with_shf_simps [simp]:
  "obj_shf obj = Valid_shf \<Longrightarrow> with_shf obj r = r" "obj_shf obj = Null_shf \<Longrightarrow> with_shf obj r = Inl Null_pointer"
  "obj_shf obj = Unset_shf \<Longrightarrow> with_shf obj r = Inl Wild_pointer"
  by (simp_all add: with_shf_def)

lemma method_valid: "obj_shf obj = Valid_shf \<Longrightarrow> api_method c \<noteq> None \<Longrightarrow> run_method obj c s = run_call c s"
  by (cases c) (simp_all add: run_method_def method_defs)

lemma methods_valid: "obj_shf obj = Valid_shf \<Longrightarrow> \<forall>c \<in> set cs. api_method c \<noteq> None \<Longrightarrow> run_methods obj cs s = run_calls cs s"
  by (induction cs arbitrary: s) (simp_all add: method_valid)

lemma method_without: "obj_shf obj \<noteq> Valid_shf \<Longrightarrow> api_method c \<noteq> None \<Longrightarrow> \<forall>key. c \<noteq> Make_hash key \<Longrightarrow>
    run_method obj c s = Inl (if obj_shf obj = Null_shf then Null_pointer else Wild_pointer)"
  by (cases c; cases "obj_shf obj") (simp_all add: run_method_def method_defs)

section \<open>The life of an object\<close>

text \<open>
  C21. An object of the class gives back what it takes, once: after \<open>Attach\<close> of a new instance and any legal sequence
  of its methods for keys and values, with or without queues, its destructor trips no assertion and leaves no mapping and no
  allocated memory; \<open>Detach\<close> by hand does the same and the destructor then does nothing; from then on, every
  method that needs the instance stops at the NULL pointer. Unless a window got all its tables, which ends the process.
\<close>

theorem object_gives_back_once:
  assumes new: "Attach False vfs (obj0, s0, a0) = (r, obj, s, a)"
    and room: "2 ^ 32 \<le> vfs" "calls_need (lens_of s) (shf_hash_key s) cs < 2147000000" and legal: "calls_legal (lens_of s) (shf_hash_key s) cs"
    and offered: "\<forall>c \<in> set cs. api_method c \<noteq> None" and q: "a1 = a \<or> a1 = q_alloc a"
    and log: "log_thread_active p = 0 \<or> log_thread_instance p \<and> log_stopped m \<noteq> 0"
  shows "r \<and> IsAttached obj \<and> (run_methods obj cs s = Inl Tab_overflow \<or> (\<exists>rs s' obj' s'' a' p'. run_methods obj cs s = Inr (rs, s')
     \<and> SharedHashFile_delete m (obj, s', a1, p) = Inr (Some (obj', s'', a', p'))
     \<and> Detach m (obj, s', a1, p) = Inr (Some (obj', s'', a', p'))
     \<and> SharedHashFile_delete m (obj', s'', a', p') = Inr (Some (obj', s'', a', p'))
     \<and> (\<forall>w t. off_mmap (tabs s'' w t) = 0) \<and> Live_ptr \<notin> {push_ptr a', pull_ptr a', path_ptr a', name_ptr a'} \<and> \<not> IsAttached obj'
     \<and> (\<forall>c. api_method c \<noteq> None \<and> (\<forall>key. c \<noteq> Make_hash key) \<longrightarrow> run_method obj' c s'' = Inl Null_pointer)))"
proof -
  have e: "r" "obj = \<lparr>obj_shf = Valid_shf, obj_isAttached = 1\<rparr>" "s = shf_attach vfs" "a = attach_allocs"
    using new by (simp_all add: Attach_def)
  have v: "obj_shf obj = Valid_shf" by (simp add: e(2))
  have rm: "shf_room (calls_need (lens_of s) (shf_hash_key s) cs + 0) s" unfolding e(3)
    by (rule attach_room) (use room e(3) in simp_all)
  have at: "shf_ok s" "shf_upd_callback_failsafe s = 0" "balanced 1 {} s" "a1 = attach_allocs \<or> a1 = q_alloc attach_allocs" "IsAttached obj"
    using q attach_balanced [of vfs] unfolding e by (simp_all only: attach_ok attach_simps IsAttached_def) simp
  show ?thesis
    using detach_calls [OF at(1-3) rm legal log at(4)]
  proof (elim disjE exE conjE)
    fix rs s' s'' a' p'
    assume d: "run_calls cs s = Inr (rs, s')" "shf_detach m (s', a1, p) = Inr (Some (s'', a', p'))" "\<forall>w t. off_mmap (tabs s'' w t) = 0"
      "Live_ptr \<notin> {push_ptr a', pull_ptr a', path_ptr a', name_ptr a'}"
    define ob where "ob = \<lparr>obj_shf = Null_shf, obj_isAttached = 0\<rparr>"
    have dt: "Detach m (obj, s', a1, p) = Inr (Some (ob, s'', a', p'))" using d(2) v by (simp add: Detach_def ob_def)
    have dl: "SharedHashFile_delete m (obj, s', a1, p) = Inr (Some (ob, s'', a', p'))" using dt at(5) by (simp add: SharedHashFile_delete_def IsAttached_def)
    have dd: "SharedHashFile_delete m (ob, s'', a', p') = Inr (Some (ob, s'', a', p'))" by (simp add: SharedHashFile_delete_def ob_def)
    have un: "\<forall>c. api_method c \<noteq> None \<and> (\<forall>key. c \<noteq> Make_hash key) \<longrightarrow> run_method ob c s'' = Inl Null_pointer" "\<not> IsAttached ob"
      using method_without [of ob] by (simp_all add: ob_def IsAttached_def)
    show ?thesis unfolding methods_valid [OF v offered] using e(1) at(5) d(1,3,4) dt dl dd un by blast
  qed (use e(1) at(5) methods_valid [OF v offered, of s] in simp)
qed

theorem object_gives_back_once_witness:
  "let cs = [Make_hash [97], Put_key_val (Some [1, 2, 3]) 3, Get_key_val_copy, Del_key_val];
       p = \<lparr>lp_log = None, log_thread_active = 0, log_thread_instance = False, lp_thread = fresh_thread\<rparr>;
       (r, obj, s, a) = Attach False (2 ^ 32) (SharedHashFile_new, fresh, attach_allocs) in
     r \<and> (run_methods obj cs s = Inl Tab_overflow \<or> (\<exists>rs s' obj' s'' a' p'. run_methods obj cs s = Inr (rs, s')
       \<and> SharedHashFile_delete (log_new 100 1) (obj, s', q_alloc a, p) = Inr (Some (obj', s'', a', p')) \<and> \<not> IsAttached obj'))"
proof -
  let ?cs = "[Make_hash [97], Put_key_val (Some [1, 2, 3]) 3, Get_key_val_copy, Del_key_val]"
  let ?p = "\<lparr>lp_log = None, log_thread_active = 0, log_thread_instance = False, lp_thread = fresh_thread\<rparr>"
  let ?o = "\<lparr>obj_shf = Valid_shf, obj_isAttached = 1\<rparr>"
  have at: "Attach False (2 ^ 32) (SharedHashFile_new, fresh, attach_allocs) = (True, ?o, fresh, attach_allocs)" by (simp add: Attach_def)
  have need: "calls_need (lens_of fresh) (shf_hash_key fresh) ?cs < 2147000000" by (simp add: data_needed_def)
  have legal: "calls_legal (lens_of fresh) (shf_hash_key fresh) ?cs" "\<forall>c \<in> set ?cs. api_method c \<noteq> None" by (simp_all add: fits_def)
  have log: "log_thread_active ?p = 0 \<or> log_thread_instance ?p \<and> log_stopped (log_new 100 1) \<noteq> 0" by simp
  from object_gives_back_once [OF at order.refl need legal disjI2 [OF refl] log]
  show ?thesis unfolding at Let_def prod.case by blast
qed

text \<open>
  Queues that are deleted spoil the end of an object: after \<open>QDel\<close> and without another \<open>QNew\<close> its destructor frees
  the private queues again.
\<close>

theorem destructor_after_QDel:
  assumes v: "obj_shf obj = Valid_shf" "obj_isAttached obj \<noteq> 0" and ok: "dict_ok n r s" "q_is_ready q \<noteq> 0"
  shows "\<exists>s' q' a'. QDel obj ((s, q, P), q_alloc attach_allocs) = Inr ((s', q', P), a')
     \<and> SharedHashFile_delete m (obj, s', a', p\<lparr>log_thread_active := 0, log_thread_instance := False\<rparr>) = Inl Double_free"
proof -
  let ?p = "p\<lparr>log_thread_active := 0, log_thread_instance := False\<rparr>"
  obtain s' where "del_list q_del_key q_del_keys s = Inr s'" using qd.del_list_ok [OF ok(1)] by blast
  then have s': "shf_q_del (s, q, P) = Inr (s', q\<lparr>q_is_ready := 0\<rparr>, P)" using ok(2) by (simp add: shf_q_del_def)
  obtain a' where a': "q_free (q_alloc attach_allocs) = Inr a'" "shf_detach m (s', a', ?p) = Inl Double_free"
    using detach_freed_q [of m s' p] by blast
  show ?thesis using s' a' v by (simp add: QDel_def SharedHashFile_delete_def Detach_def)
qed

section \<open>The test of the class\<close>

text \<open>
  The lines of \<open>test.a.shf.cpp\<close> are those of the test of the C functions, up to one assignment of \<open>uid\<close>,
  with methods in place of calls; before them come the checks of attaching.
\<close>

definition cpp_key_ops :: "test_line list" where
  "cpp_key_ops = test_ops_1 @ test_ops_2"

definition cpp_attach_test :: "nat \<Rightarrow> bool list \<times> shared_hash_file \<times> shf" where
  "cpp_attach_test vfs =
     (let obj = SharedHashFile_new; s = shf_init vfs;
          c1 = True; c2 = (IsAttached obj = False);
          (r, obj, s, a) = AttachExisting False (obj, s, attach_allocs); c3 = (r = False);
          c4 = (IsAttached obj = False);
          (r, obj, s, a) = Attach False vfs (obj, s, a); c5 = r;
          c6 = (IsAttached obj = True)
      in ([c1, c2, c3, c4, c5, c6], obj, s))"

definition cpp_test_key_val :: "nat \<Rightarrow> tab_buf \<Rightarrow> shf_error + test_st" where
  "cpp_test_key_val vfs buf = (let (checks, obj, s) = cpp_attach_test vfs in
     bindE (SetIsLockable 0 obj s) (\<lambda>s.
     bindE (run_lines (run_method obj) (cpp_key_ops @ test_own_hashes) \<lparr>t_shf = s,
       t_upd = \<lparr>shf_upd_callback = Callback_copy, shf_upd_callback_copy_val = []\<rparr>, t_uid = 0, t_checks = checks\<rparr>) (\<lambda>st.
     bindE (test_walk (TabCopyIterate obj) walk_fuel (0, 0) 0 (t_shf st, buf)) (\<lambda>(used, s, buf). Inr (check (used = 0) (st\<lparr>t_shf := s\<rparr>))))))"

text \<open>A line whose calls the class offers.\<close>

fun offered :: "test_line \<Rightarrow> bool" where
  "offered (Ok_call r k) \<longleftrightarrow> api_method k \<noteq> None"
| "offered (Ok_uid r k) \<longleftrightarrow> (\<forall>uid. api_method (k uid) \<noteq> None)"
| "offered _ \<longleftrightarrow> True"

lemma offered_line:
  assumes "obj_shf obj = Valid_shf" "offered l"
  shows "run_line (run_method obj) l st = run_line run_call l st"
  using assms by (cases l) (simp_all add: check_call_def method_valid)

lemma offered_lines: "obj_shf obj = Valid_shf \<Longrightarrow> \<forall>l \<in> set ls. offered l \<Longrightarrow> run_lines (run_method obj) ls st = run_lines run_call ls st"
proof (induction ls arbitrary: st)
  case (Cons l ls)
  then show ?case using offered_line [of obj l st] by (cases "run_line run_call l st") simp_all
qed simp

lemma cpp_ops_offered: "\<forall>l \<in> set (cpp_key_ops @ test_own_hashes). offered l"
  by (simp add: cpp_key_ops_def test_ops_1_def test_ops_2_def test_own_hashes_def test_own_hash_def Let_def)

lemma cpp_ops_pass:
  "\<exists>c. cell_lines cpp_key_ops (start_cell h key 1000) = Some c \<and> c_rec c = None \<and> c_ttl c = 0 \<and> c_room c = 914"
  by (simp add: cpp_key_ops_def test_ops_1_def test_ops_2_def cell_eval shf_ret)

lemma cpp_count: "length (filter is_check (cpp_key_ops @ test_own_hashes)) = 166"
  by (simp add: cpp_key_ops_def test_ops_1_def test_ops_2_def test_own_hashes_def test_own_hash_def Let_def)

text \<open>The test of the class passes: all its 173 checks up to the search over all tables hold.\<close>

theorem cpp_test_passes:
  assumes "2 ^ 32 \<le> vfs"
  shows "\<exists>st. cpp_test_key_val vfs buf = Inr st \<and> t_checks st = replicate 173 True"
proof -
  define ob where "ob = \<lparr>obj_shf = Valid_shf, obj_isAttached = 1\<rparr>"
  have v: "obj_shf ob = Valid_shf" by (simp add: ob_def)
  have a: "cpp_attach_test vfs = (replicate 6 True, ob, shf_attach vfs)"
    by (simp add: cpp_attach_test_def AttachExisting_def Attach_def IsAttached_def SharedHashFile_new_def Let_def ob_def eval_nat_numeral)
  obtain st0 where s0: "test_start vfs = Inr st0" "follows (start_cell (the_hash (t_shf st0)) (shf_hash_key (t_shf st0)) 1000) st0"
    using test_start_follows [OF assms] by blast
  let ?s = "(shf_attach vfs)\<lparr>is_lockable := 0\<rparr>"
  define st1 where "st1 = st0\<lparr>t_checks := replicate 6 True\<rparr>"
  have st1: "st1 = \<lparr>t_shf = ?s, t_upd = \<lparr>shf_upd_callback = Callback_copy, shf_upd_callback_copy_val = []\<rparr>, t_uid = 0, t_checks = replicate 6 True\<rparr>"
    using s0(1) by (auto simp: st1_def test_start_def shf_set_is_lockable_def assertE_def)
  have f: "follows (start_cell (the_hash (t_shf st0)) (shf_hash_key (t_shf st0)) 1000) st1" using s0(2) by (simp add: follows_def st1_def)
  obtain c0 where c0: "cell_lines cpp_key_ops (start_cell (the_hash (t_shf st0)) (shf_hash_key (t_shf st0)) 1000) = Some c0"
    "c_rec c0 = None" "c_ttl c0 = 0" "c_room c0 = 914" using cpp_ops_pass by blast
  obtain st s' buf' where st: "run_lines run_call (cpp_key_ops @ test_own_hashes) st1 = Inr st"
    "t_checks st = replicate 6 True @ replicate 166 True"
    "test_walk shf_tab_copy_iterate walk_fuel (0, 0) 0 (t_shf st, buf) = Inr (0, s', buf')"
    using ops_then_walk [OF f c0, of buf] unfolding cpp_count by (auto simp: st1_def)
  have it: "TabCopyIterate ob = shf_tab_copy_iterate" by (simp add: TabCopyIterate_def fun_eq_iff v)
  have l: "SetIsLockable 0 ob (shf_attach vfs) = Inr ?s" by (simp add: v SetIsLockable_def shf_set_is_lockable_def assertE_def)
  have "run_lines (run_method ob) (cpp_key_ops @ test_own_hashes) st1 = Inr st"
    using offered_lines [OF v cpp_ops_offered] st(1) by simp
  then have "cpp_test_key_val vfs buf = Inr (check True (st\<lparr>t_shf := s'\<rparr>))"
    using st(3) l by (simp add: cpp_test_key_val_def a it st1)
  moreover have "t_checks (check True (st\<lparr>t_shf := s'\<rparr>)) = replicate 173 True"
    by (simp add: check_def st(2) replicate_append_same flip: replicate_add replicate_Suc)
  ultimately show ?thesis by blast
qed

end
