(* ===== verification/Shf_QueueTest.thy ===== *)
theory Shf_QueueTest
  imports Shf_QueueStore
begin

text \<open>
  The queue test of \<open>test.9.shf.c\<close>: all items go from one queue to the next and back, the number of each is
  stored in its memory by the first loop and found there by the others. Here the loops are run by any
  processes, one after the other.
\<close>

section \<open>The loops\<close>

text \<open>\<open>test_pull_items\<close> is stored in the item that has just been pulled, or compared with what is found there.\<close>

definition store_number :: "nat \<Rightarrow> q_st \<Rightarrow> shf_error + q_st" where
  "store_number items = (\<lambda>(m, p). case shf_qiid_addr p of None \<Rightarrow> Inl Null_pointer
     | Some a \<Rightarrow> Inr (m\<lparr>q_item_mem := put_U32_AT a items (q_item_mem m)\<rparr>, p))"

definition check_number :: "nat \<Rightarrow> q_st \<Rightarrow> shf_error + q_st" where
  "check_number items = (\<lambda>(m, p). case shf_qiid_addr p of None \<Rightarrow> Inl Null_pointer
     | Some a \<Rightarrow> bindE (assertE (items = SHF_U32_AT (q_item_mem m) a) Wrong_item) (\<lambda>_. Inr (m, p)))"

text \<open>A loop with two calls, and what it does with each item; the first number is that of the rounds it may take.\<close>

primrec test_move :: "nat \<Rightarrow> (nat \<Rightarrow> q_st \<Rightarrow> shf_error + q_st) \<Rightarrow> nat \<Rightarrow> nat \<Rightarrow> nat \<Rightarrow> q_st \<Rightarrow> shf_error + nat \<times> q_st" where
  "test_move 0 use src dst items st = Inl Out_of_fuel"
| "test_move (Suc rounds) use src dst items st = bindE (shf_q_pull_tail src st) (\<lambda>(qiid, st).
     if qiid = SHF_QIID_NONE then Inr (items, st)
     else bindE (push_op dst (shf_qiid (snd st)) st) (\<lambda>(_, st).
          bindE (use items st) (\<lambda>st. test_move rounds use src dst (u32 (items + 1)) st)))"

text \<open>The loop with one call. Before it, \<open>shf_qiid\<close> is set to \<open>SHF_QIID_NONE\<close>.\<close>

primrec test_move_both :: "nat \<Rightarrow> nat \<Rightarrow> nat \<Rightarrow> nat \<Rightarrow> q_st \<Rightarrow> shf_error + nat \<times> q_st" where
  "test_move_both 0 src dst items st = Inl Out_of_fuel"
| "test_move_both (Suc rounds) src dst items st =
     bindE (shf_q_push_head_pull_tail dst (shf_qiid (snd st)) src st) (\<lambda>(qiid, st).
     if qiid = SHF_QIID_NONE then Inr (items, st) else test_move_both rounds src dst (u32 (items + 1)) st)"

definition test_move_one_call :: "nat \<Rightarrow> nat \<Rightarrow> nat \<Rightarrow> q_st \<Rightarrow> shf_error + nat \<times> q_st" where
  "test_move_one_call rounds src dst = (\<lambda>(m, p). test_move_both rounds src dst 0 (m, p\<lparr>shf_qiid := SHF_QIID_NONE\<rparr>))"

text \<open>
  The loops of the test by one process: the queues are \<open>0\<close>, where all items start, \<open>1\<close> and \<open>2\<close>, and the
  results those of its checks.
\<close>

definition test_queues :: "q_st \<Rightarrow> shf_error + bool list \<times> q_st" where
  "test_queues st = (let n = q_items (snd st) in
     bindE (test_move (Suc n) store_number 0 1 0 st) (\<lambda>(k1, st).
     bindE (test_move (Suc n) check_number 1 2 0 st) (\<lambda>(k2, st).
     bindE (test_move (Suc n) check_number 2 0 0 st) (\<lambda>(k3, st). Inr ([n = k1, n = k2, n = k3], st)))))"

definition bench_queues :: "q_st \<Rightarrow> shf_error + bool list \<times> q_st" where
  "bench_queues st = (let n = q_items (snd st) in
     bindE (test_move (Suc n) (\<lambda>_. Inr) 0 1 0 st) (\<lambda>(k1, st).
     bindE (test_move (Suc n) (\<lambda>_. Inr) 1 2 0 st) (\<lambda>(k2, st).
     bindE (test_move_one_call (Suc n) 2 0 st) (\<lambda>(k3, st). Inr ([n = k1, n = k2, n = k3], st)))))"

section \<open>What the calls leave alone\<close>

definition q_frame :: "q_st \<Rightarrow> q_st \<Rightarrow> bool" where
  "q_frame st st' \<longleftrightarrow> q_item_mem (fst st') = q_item_mem (fst st) \<and> q_item_size (snd st') = q_item_size (snd st)
     \<and> q_items (snd st') = q_items (snd st)"

definition q_same_item :: "q_st \<Rightarrow> q_st \<Rightarrow> bool" where
  "q_same_item st st' \<longleftrightarrow> q_frame st st' \<and> shf_qiid (snd st') = shf_qiid (snd st) \<and> shf_qiid_addr (snd st') = shf_qiid_addr (snd st)"

lemma same_item_trans: "q_same_item a b \<Longrightarrow> q_same_item b c \<Longrightarrow> q_same_item a c"
  by (simp add: q_same_item_def q_frame_def)

lemma same_item_refl [simp]: "q_same_item a a"
  by (simp add: q_same_item_def q_frame_def)

lemma same_item_push_nolock: "q_same_item st (q_push_nolock q x st)"
  by (cases st) (simp add: q_push_nolock_def q_same_item_def q_frame_def Let_def split: prod.split)

lemma same_item_flush: "q_same_item st (q_flush q st)"
proof -
  have 1: "q_same_item st (q_flush_push x st)" for x st
    by (cases st) (simp add: q_flush_push_def q_same_item_def q_frame_def Let_def split: prod.split)
  have 2: "q_same_item st (fold q_flush_push xs st)" for xs st
  proof (induction xs arbitrary: st)
    case (Cons x xs)
    then show ?case unfolding fold.simps o_apply using same_item_trans [OF 1] by blast
  qed simp
  have 3: "q_same_item st (q_flush_pull q st)" for st
    by (cases st) (simp add: q_flush_pull_def q_pull_items_def q_same_item_def q_frame_def Let_def split: prod.split)
  show ?thesis unfolding q_flush_def Let_def using same_item_trans [OF 2 3] 2 by (simp split: if_split)
qed

lemma push_op_frame:
  assumes "push_op q x st = Inr (u, st')"
  shows "q_same_item st st'"
proof -
  have "st' \<in> {st, q_push_nolock q x st, q_flush SHF_QID_NONE (q_push_nolock q x st)}"
    using assms by (auto simp: push_op_def shf_q_push_head_def shf_q_flush_def Let_def split: if_splits)
  moreover have "q_same_item st (q_flush SHF_QID_NONE (q_push_nolock q x st))"
    by (rule same_item_trans [OF same_item_push_nolock same_item_flush])
  ultimately show ?thesis using same_item_push_nolock [of st q x] by auto
qed

text \<open>A pull sets the number and the address of the item.\<close>

lemma pull_nolock_item:
  assumes "q_pull_nolock q st = (x, st')"
  shows "q_frame st st'" "shf_qiid (snd st') = x" "x \<noteq> SHF_QIID_NONE \<Longrightarrow> shf_qiid_addr (snd st') = Some (u32 (x * q_item_size (snd st)))"
  using assms by (cases st; auto simp: q_pull_nolock_def q_frame_def Let_def split: if_splits)+

lemma pull_after:
  assumes "q_same_item st st1" "q_pull_nolock q st1 = (x, st')"
  shows "q_frame st st'" "shf_qiid (snd st') = x" "x \<noteq> SHF_QIID_NONE \<Longrightarrow> shf_qiid_addr (snd st') = Some (u32 (x * q_item_size (snd st)))"
  using pull_nolock_item [OF assms(2)] assms(1) by (simp_all add: q_same_item_def q_frame_def)

lemma pull_tail_item:
  assumes "shf_q_pull_tail q st = Inr (x, st')"
  shows "q_frame st st'" "shf_qiid (snd st') = x" "x \<noteq> SHF_QIID_NONE \<Longrightarrow> shf_qiid_addr (snd st') = Some (u32 (x * q_item_size (snd st)))"
proof -
  obtain st1 where "q_same_item st st1" "q_pull_nolock q st1 = (x, st')"
  proof -
    have "q_pull_nolock q st = (x, st') \<or> q_pull_nolock q (q_flush q st) = (x, st')"
      using assms by (auto simp: shf_q_pull_tail_def shf_q_flush_def split: if_splits)
    then show ?thesis using that same_item_refl same_item_flush by blast
  qed
  from pull_after [OF this] show "q_frame st st'" "shf_qiid (snd st') = x"
    "x \<noteq> SHF_QIID_NONE \<Longrightarrow> shf_qiid_addr (snd st') = Some (u32 (x * q_item_size (snd st)))" by blast+
qed

lemma push_pull_item:
  assumes "shf_q_push_head_pull_tail dst y src st = Inr (x, st')"
  shows "q_frame st st'" "shf_qiid (snd st') = x"
proof -
  obtain st1 where "q_same_item st st1" "q_pull_nolock src st1 = (x, st')"
  proof -
    let ?st = "if y \<noteq> SHF_QIID_NONE then q_push_nolock dst y st else st"
    have "q_same_item st ?st" using same_item_push_nolock [of st dst y] by simp
    then have "q_same_item st (q_flush src ?st)" "q_same_item st ?st" using same_item_trans same_item_flush by blast+
    moreover have "q_pull_nolock src ?st = (x, st') \<or> q_pull_nolock src (q_flush src ?st) = (x, st')"
      using assms by (auto simp: shf_q_push_head_pull_tail_def shf_q_flush_def Let_def split: if_splits)
    ultimately show ?thesis using that by blast
  qed
  from pull_after [OF this] show "q_frame st st'" "shf_qiid (snd st') = x" by blast+
qed

section \<open>What is where\<close>

text \<open>Items in one queue only, and none of it private.\<close>

definition settled :: "nat set \<Rightarrow> nat \<Rightarrow> nat \<Rightarrow> nat list \<Rightarrow> contents \<Rightarrow> bool" where
  "settled I n q xs C \<longleftrightarrow> (\<forall>a \<in> places I n. C a = (if a = Locked q then xs else []))"

text \<open>While process \<open>i\<close> moves items: \<open>ys\<close> are still to be moved, \<open>zs\<close> have been.\<close>

definition lined :: "nat set \<Rightarrow> nat \<Rightarrow> nat \<Rightarrow> nat \<Rightarrow> nat \<Rightarrow> nat list \<Rightarrow> nat list \<Rightarrow> contents \<Rightarrow> bool" where
  "lined I n i src dst ys zs C \<longleftrightarrow> view i src C = ys \<and> view i dst C = zs
     \<and> (\<forall>q < n. q \<noteq> src \<longrightarrow> C (Pull i q) = [] \<and> (q \<noteq> dst \<longrightarrow> view i q C = []))
     \<and> (\<forall>j \<in> I. j \<noteq> i \<longrightarrow> (\<forall>q < n. C (Push j q) = [] \<and> C (Pull j q) = []))"

lemma settled_lined:
  assumes "settled I n src xs C" "i \<in> I" "src < n" "dst < n" "src \<noteq> dst"
  shows "lined I n i src dst xs [] C"
  using assms by (simp add: settled_def lined_def view_def)

lemma lined_flushed:
  assumes "lined I n i src dst ys zs C" "q = src \<or> q = SHF_QID_NONE"
  shows "lined I n i src dst ys zs (flushed n k i q C)"
proof -
  have "flushed n k i q C (Pull i x) = C (Pull i x)" if "x \<noteq> src" for x
    using assms(2) that by (auto simp: flushed_def Let_def publish_def move_pull_def)
  then show ?thesis using assms(1) others_flushed [of i C n k q] by (simp add: lined_def others_same_def)
qed

lemma lined_pulled:
  assumes "lined I n i src dst ys zs C" "pull_ready i src C" "src \<noteq> dst"
  shows "lined I n i src dst (tl ys) zs (pulled i src C)"
  using assms(1,3) pulled_view(1,2,4) [OF assms(2)] by (simp add: lined_def others_same_def) (simp add: pulled_def)

lemma lined_pushed:
  assumes "lined I n i src dst ys zs C" "src \<noteq> dst"
  shows "lined I n i src dst ys (zs @ [x]) (pushed i dst x C)"
  using assms pushed_view(3) [of i C dst x] by (simp add: lined_def others_same_def) (simp add: pushed_def)

lemma flushed_ready:
  assumes "b \<or> C (Pull i q) \<noteq> []" "0 < k" "q < n" "n < 4294967296"
  shows "pull_ready i q (if b then flushed n k i q C else C)"
  using assms flushed_pulls [of i q C k n] by (cases "view i q C = []") (auto simp: pull_ready_def)

text \<open>The last pull finds nothing and has flushed everything.\<close>

lemma lined_end:
  assumes L: "lined I n i src dst [] zs C" and q: "src < n" "dst < n" "n < 4294967296" "src \<noteq> dst"
  shows "settled I n dst zs (pulled i src (flushed n k i src C))"
proof -
  have p: "C (Pull i src) = []" "C (Locked src) = []" "C (Push i src) = []" using L by (simp_all add: lined_def view_def)
  have "src \<noteq> SHF_QID_NONE" using q by (simp add: q_none)
  then have e: "pulled i src (flushed n k i src C) = (publish n i C)(Pull i src := [], Locked src := [])"
    using p q(1) by (simp add: flushed_def Let_def move_pull_def pulled_def publish_def fun_eq_iff)
  have o: "C (Locked x) @ C (Push i x) = (if x = dst then zs else [])" "C (Pull i x) = []" if "x < n" for x
    using L that p by (cases "x = src"; auto simp: lined_def view_def)+
  show ?thesis unfolding settled_def e
  proof
    fix a assume a: "a \<in> places I n"
    show "((publish n i C)(Pull i src := [], Locked src := [])) a = (if a = Locked dst then zs else [])"
    proof (cases a)
      case (Locked x)
      then show ?thesis using a o q(4) by (auto simp: publish_def)
    next
      case (Push j x)
      then show ?thesis using a L by (auto simp: publish_def lined_def)
    next
      case (Pull j x)
      then show ?thesis using a L o by (auto simp: publish_def lined_def)
    qed
  qed
qed

section \<open>Sequences of calls of one process\<close>

lemma q_run_bind:
  assumes "q_run i f s = Inr (r, s1)"
  shows "q_run i (\<lambda>st. bindE (f st) (\<lambda>(r, st). g r st)) s = q_run i (g r) s1"
  using assms by (auto simp: q_run_def)

text \<open>Work on the memory of an item.\<close>

definition with_mem :: "mem \<Rightarrow> q_sys \<Rightarrow> q_sys" where
  "with_mem mem s = s\<lparr>sys_shm := (sys_shm s)\<lparr>q_item_mem := mem\<rparr>\<rparr>"

lemma with_mem_simps [simp]: "sys_proc (with_mem mem s) = sys_proc s" "q_item_mem (sys_shm (with_mem mem s)) = mem"
  by (simp_all add: with_mem_def)

lemma rep_with_mem [simp]: "q_rep I n N k C (with_mem mem s) = q_rep I n N k C s"
proof -
  have "header (with_mem mem s) a = header s a" for a by (cases a) (simp_all add: with_mem_def)
  then show ?thesis by (simp add: q_rep_def with_mem_def)
qed

lemma q_run_use:
  assumes "use (sys_shm s, sys_proc s i) = Inr ((sys_shm s)\<lparr>q_item_mem := mem\<rparr>, sys_proc s i)"
  shows "q_run i (\<lambda>st. bindE (use st) g) s = q_run i g (with_mem mem s)"
  using assms by (simp add: q_run_def with_mem_def)

definition sizes :: "q_sys \<Rightarrow> nat \<Rightarrow> nat" where
  "sizes s j = q_item_size (sys_proc s j)"

lemma q_run_frame:
  assumes "q_run i f s = Inr (r, s')" "\<And>r st st'. f st = Inr (r, st') \<Longrightarrow> q_frame st st'"
  shows "q_item_mem (sys_shm s') = q_item_mem (sys_shm s)" "sizes s' = sizes s"
proof -
  note R = q_run_state [OF assms(1)]
  have F: "q_frame (sys_shm s, sys_proc s i) (sys_shm s', sys_proc s' i)" using R assms(2) by blast
  then show "q_item_mem (sys_shm s') = q_item_mem (sys_shm s)" by (simp add: q_frame_def)
  have "sizes s' j = sizes s j" for j
  proof (cases "j = i")
    case False
    then have "sys_proc s' j = sys_proc s j" using conjunct2 [OF R] by (metis fun_upd_other q_sys.select_convs(2) q_sys.surjective q_sys.update_convs(1,2))
    then show ?thesis by (simp add: sizes_def)
  qed (use F in \<open>simp add: sizes_def q_frame_def\<close>)
  then show "sizes s' = sizes s" by (simp add: fun_eq_iff)
qed

section \<open>The loops\<close>

text \<open>One pull of the loop: the first of the items that are left.\<close>

lemma pull_lined:
  assumes r: "q_rep I n N k C s" and i: "i \<in> I" and q: "src < n" "src \<noteq> dst" and L: "lined I n i src dst ys zs C"
    and sz: "N * sizes s i < 4294967296"
  defines "C' \<equiv> pulled i src (if C (Pull i src) = [] then flushed n k i src C else C)"
  shows "\<exists>s'. q_run i (shf_q_pull_tail src) s = Inr (first_item ys, s') \<and> q_rep I n N k C' s' \<and> lined I n i src dst (tl ys) zs C'
     \<and> q_item_mem (sys_shm s') = q_item_mem (sys_shm s) \<and> sizes s' = sizes s
     \<and> (\<forall>y. ys = y # tl ys \<longrightarrow> y < N \<and> unused I n N C' y \<and> first_item ys = y \<and> y \<noteq> SHF_QIID_NONE
          \<and> shf_qiid (sys_proc s' i) = y \<and> shf_qiid_addr (sys_proc s' i) = Some (y * sizes s i))"
proof -
  note P = pull_tail_at [OF r i q(1), folded C'_def]
  note R = q_repD [OF r]
  have v: "view i src C = ys" using L by (simp add: lined_def)
  obtain s' where s': "q_run i (shf_q_pull_tail src) s = Inr (first_item ys, s')" "q_rep I n N k C' s'" using P(1) v by blast
  have "pull_ready i src (if C (Pull i src) = [] then flushed n k i src C else C)"
    by (rule flushed_ready [OF _ R(5) q(1) R(7)]) blast
  moreover have "lined I n i src dst ys zs (if C (Pull i src) = [] then flushed n k i src C else C)"
    using L lined_flushed [OF L] by simp
  ultimately have "lined I n i src dst (tl ys) zs C'" unfolding C'_def using lined_pulled q(2) by blast
  moreover have "y < N \<and> unused I n N C' y \<and> first_item ys = y \<and> y \<noteq> SHF_QIID_NONE
      \<and> shf_qiid (sys_proc s' i) = y \<and> shf_qiid_addr (sys_proc s' i) = Some (y * sizes s i)" if y: "ys = y # tl ys" for y
  proof -
    have f: "first_item ys = y" by (subst y) (simp add: first_item_def)
    have "y \<in> set (view i src C)" unfolding v by (subst y) simp
    then have "y \<in> items_in I n C" unfolding items_in_view [OF i] using q(1) by blast
    then have yN: "y < N" using apart_inD(2) [OF R(3)] by (auto simp: items_in_def)
    have "items_in I n C' = items_in I n C - {y}" using items_pull [OF r i q(1) P(2) _ P(4)] pull_tail_at(3) [OF r i q(1)]
      unfolding v f C'_def by blast
    then have u: "unused I n N C' y" using yN by (simp add: unused_items)
    have ne: "y \<noteq> SHF_QIID_NONE" using yN R(1) by (simp add: q_none)
    have "(y + 1) * sizes s i \<le> N * sizes s i" using yN by (intro mult_le_mono1) simp
    then have "y * sizes s i < 4294967296" using sz by simp
    then show ?thesis using pull_tail_item(2,3) [OF conjunct1 [OF q_run_state [OF s'(1)]]] yN u f ne by (simp add: sizes_def)
  qed
  moreover have "q_item_mem (sys_shm s') = q_item_mem (sys_shm s)" "sizes s' = sizes s"
    using q_run_frame [OF s'(1)] pull_tail_item(1) by blast+
  ultimately show ?thesis using s' by blast
qed

lemma push_lined:
  assumes r: "q_rep I n N k C s" and i: "i \<in> I" and q: "dst < n" "src \<noteq> dst" and L: "lined I n i src dst ys zs C"
    and x: "unused I n N C x"
  shows "\<exists>s' C'. q_run i (push_op dst x) s = Inr ((), s') \<and> q_rep I n N k C' s' \<and> lined I n i src dst ys (zs @ [x]) C'
     \<and> q_item_mem (sys_shm s') = q_item_mem (sys_shm s) \<and> sizes s' = sizes s
     \<and> shf_qiid_addr (sys_proc s' i) = shf_qiid_addr (sys_proc s i)"
proof -
  define C' where "C' = (if k \<le> length (pushed i dst x C (Push i dst)) then flushed n k i SHF_QID_NONE (pushed i dst x C) else pushed i dst x C)"
  obtain s' where s': "q_run i (push_op dst x) s = Inr ((), s')" "q_rep I n N k C' s'"
    using push_head_at [OF r i q(1) x, folded C'_def] by blast
  have "lined I n i src dst ys (zs @ [x]) C'"
    using lined_pushed [OF L q(2), of x] lined_flushed [of I n i src dst ys "zs @ [x]"] by (simp add: C'_def)
  moreover have "q_frame st st'" if "push_op dst x st = Inr (u, st')" for u st st'
    using push_op_frame [OF that] by (simp add: q_same_item_def)
  moreover have "shf_qiid_addr (sys_proc s' i) = shf_qiid_addr (sys_proc s i)"
    using push_op_frame [OF conjunct1 [OF q_run_state [OF s'(1)]]] by (simp add: q_same_item_def)
  ultimately show ?thesis using s' q_run_frame [OF s'(1)] by blast
qed

text \<open>
  What the loop does with an item takes the memory of the items from \<open>A j\<close> to \<open>A (Suc j)\<close>, where \<open>j\<close> is its number.
\<close>

definition works :: "(nat \<Rightarrow> q_st \<Rightarrow> shf_error + q_st) \<Rightarrow> nat list \<Rightarrow> nat \<Rightarrow> (nat \<Rightarrow> mem \<Rightarrow> bool) \<Rightarrow> bool" where
  "works use xs sz A \<longleftrightarrow> (\<forall>j m p. j < length xs \<and> A j (q_item_mem m) \<and> shf_qiid_addr p = Some (xs ! j * sz) \<longrightarrow>
     (\<exists>mem. use j (m, p) = Inr (m\<lparr>q_item_mem := mem\<rparr>, p) \<and> A (Suc j) mem))"

lemma move_from:
  assumes "q_rep I n N k C s" "i \<in> I" "src < n" "dst < n" "src \<noteq> dst" "lined I n i src dst (drop j xs) (take j xs) C"
    "j \<le> length xs" "N * sizes s i < 4294967296" "length xs < 4294967296" "A j (q_item_mem (sys_shm s))" "works use xs (sizes s i) A"
  shows "\<exists>s' C'. q_run i (test_move (Suc (length xs - j)) use src dst j) s = Inr (length xs, s') \<and> q_rep I n N k C' s'
     \<and> settled I n dst xs C' \<and> A (length xs) (q_item_mem (sys_shm s')) \<and> sizes s' = sizes s"
  using assms(1,6,7,8,10,11)
proof (induction "length xs - j" arbitrary: j s C)
  case 0
  then have j: "j = length xs" by simp
  define C' where "C' = pulled i src (if C (Pull i src) = [] then flushed n k i src C else C)"
  have L: "lined I n i src dst [] xs C" using "0.prems"(2) by (simp add: j)
  obtain s' where s': "q_run i (shf_q_pull_tail src) s = Inr (SHF_QIID_NONE, s')" "q_rep I n N k C' s'"
    "q_item_mem (sys_shm s') = q_item_mem (sys_shm s)" "sizes s' = sizes s"
    using pull_lined [OF "0.prems"(1) assms(2,3,5) L "0.prems"(4)] unfolding C'_def first_item_def by auto
  have "C (Pull i src) = []" using L by (simp add: lined_def view_def)
  then have "settled I n dst xs C'" using lined_end [OF L assms(3,4) q_repD(7) [OF "0.prems"(1)] assms(5), of k] by (simp add: C'_def)
  moreover have "q_run i (test_move (Suc (length xs - j)) use src dst j) s = Inr (length xs, s')"
    using q_run_state [OF s'(1)] s'(1) by (simp add: j q_run_def)
  ultimately show ?case using s' "0.prems"(5) unfolding j by metis
next
  case (Suc d)
  then have j: "j < length xs" "d = length xs - Suc j" by simp_all
  have dr: "drop j xs = xs ! j # drop (Suc j) xs" using j(1) by (simp add: Cons_nth_drop_Suc)
  define C1 where "C1 = pulled i src (if C (Pull i src) = [] then flushed n k i src C else C)"
  obtain s1 where s1: "q_run i (shf_q_pull_tail src) s = Inr (xs ! j, s1)" "q_rep I n N k C1 s1"
    "lined I n i src dst (drop (Suc j) xs) (take j xs) C1" "q_item_mem (sys_shm s1) = q_item_mem (sys_shm s)" "sizes s1 = sizes s"
    "unused I n N C1 (xs ! j)" "xs ! j \<noteq> SHF_QIID_NONE" "shf_qiid (sys_proc s1 i) = xs ! j"
    "shf_qiid_addr (sys_proc s1 i) = Some (xs ! j * sizes s i)"
    using pull_lined [OF Suc.prems(1) assms(2,3,5) Suc.prems(2,4)] unfolding C1_def dr by force
  have tk: "take j xs @ [xs ! j] = take (Suc j) xs" using j(1) by (simp add: take_Suc_conv_app_nth)
  obtain s2 C2 where s2: "q_run i (push_op dst (xs ! j)) s1 = Inr ((), s2)" "q_rep I n N k C2 s2"
    "lined I n i src dst (drop (Suc j) xs) (take (Suc j) xs) C2" "q_item_mem (sys_shm s2) = q_item_mem (sys_shm s)" "sizes s2 = sizes s"
    "shf_qiid_addr (sys_proc s2 i) = Some (xs ! j * sizes s i)"
    using push_lined [OF s1(2) assms(2,4,5) s1(3,6)] unfolding tk s1(4,5,9) by blast
  obtain mem where mem: "use j (sys_shm s2, sys_proc s2 i) = Inr ((sys_shm s2)\<lparr>q_item_mem := mem\<rparr>, sys_proc s2 i)" "A (Suc j) mem"
    using Suc.prems(5,6) j(1) s2(4,6) unfolding works_def by metis
  define s3 where "s3 = with_mem mem s2"
  have sz: "sizes s3 = sizes s" using s2(5) by (simp add: s3_def sizes_def fun_eq_iff)
  obtain s' C' where s': "q_run i (test_move (Suc (length xs - Suc j)) use src dst (Suc j)) s3 = Inr (length xs, s')" "q_rep I n N k C' s'"
    "settled I n dst xs C'" "A (length xs) (q_item_mem (sys_shm s'))" "sizes s' = sizes s3"
    using Suc.hyps(1) [of "Suc j" C2 s3] j s2(2,3) Suc.prems(4,6) mem(2) unfolding sz by (auto simp: s3_def)
  have e: "Suc (length xs - j) = Suc (Suc (length xs - Suc j))" "u32 (j + 1) = Suc j" using j(1) assms(9) by simp_all
  have "q_run i (test_move (Suc (length xs - j)) use src dst j) s
      = q_run i (\<lambda>st. bindE (push_op dst (shf_qiid (snd st)) st) (\<lambda>(_, st). bindE (use j st) (test_move (Suc (length xs - Suc j)) use src dst (Suc j)))) s1"
    unfolding e(1) test_move.simps(2) [of "Suc (length xs - Suc j)"] q_run_bind [OF s1(1)] e(2) using s1(7) by simp
  also have "\<dots> = q_run i (\<lambda>st. bindE (push_op dst (xs ! j) st) (\<lambda>(_, st). bindE (use j st) (test_move (Suc (length xs - Suc j)) use src dst (Suc j)))) s1"
    by (simp add: q_run_def s1(8))
  also have "\<dots> = q_run i (\<lambda>st. bindE (use j st) (test_move (Suc (length xs - Suc j)) use src dst (Suc j))) s2"
    using q_run_bind [OF s2(1), of "\<lambda>_ st. bindE (use j st) (test_move (Suc (length xs - Suc j)) use src dst (Suc j))"] by simp
  also have "\<dots> = Inr (length xs, s')" by (rule trans [OF q_run_use [where use = "use j", OF mem(1)] s'(1) [unfolded s3_def]])
  finally show ?case using s' sz by metis
qed

text \<open>The loop with one call: the process holds the item of the round before, \<open>h\<close>, until the call pushes it.\<close>

definition with_hand :: "nat \<Rightarrow> nat \<Rightarrow> nat \<Rightarrow> contents \<Rightarrow> contents" where
  "with_hand i dst h C = (if h \<noteq> SHF_QIID_NONE then pushed i dst h C else C)"

lemma round_lined:
  assumes r: "q_rep I n N k C s" and i: "i \<in> I" and q: "src < n" "dst < n" "src \<noteq> dst"
    and h: "h \<noteq> SHF_QIID_NONE \<longrightarrow> unused I n N C h" and L: "lined I n i src dst ys zs (with_hand i dst h C)"
  shows "\<exists>s' C'. q_run i (shf_q_push_head_pull_tail dst h src) s = Inr (first_item ys, s') \<and> q_rep I n N k C' s' \<and> lined I n i src dst (tl ys) zs C'
     \<and> shf_qiid (sys_proc s' i) = first_item ys \<and> q_item_mem (sys_shm s') = q_item_mem (sys_shm s) \<and> sizes s' = sizes s
     \<and> (\<forall>y. ys = y # tl ys \<longrightarrow> unused I n N C' y \<and> first_item ys = y \<and> y \<noteq> SHF_QIID_NONE) \<and> (ys = [] \<longrightarrow> settled I n dst zs C')"
proof -
  let ?C1 = "with_hand i dst h C"
  define b where "b = (k \<le> length (?C1 (Push i dst)) \<or> ?C1 (Pull i src) = [])"
  define C' where "C' = pulled i src (if b then flushed n k i src ?C1 else ?C1)"
  note P = push_pull_at [OF r i q(2,1) h, folded with_hand_def, folded b_def, folded C'_def]
  note R = q_repD [OF r]
  have v: "view i src ?C1 = ys" using L by (simp add: lined_def)
  obtain s1 where r1: "q_rep I n N k ?C1 s1" using P(1) by (elim exE)
  obtain s' where s': "q_run i (shf_q_push_head_pull_tail dst h src) s = Inr (first_item ys, s')" "q_rep I n N k C' s'"
    using P(2) unfolding v by (elim exE conjE)
  have "pull_ready i src (if b then flushed n k i src ?C1 else ?C1)"
    by (rule flushed_ready [OF _ R(5) q(1) R(7)]) (simp add: b_def)
  moreover have "lined I n i src dst ys zs (if b then flushed n k i src ?C1 else ?C1)"
    using L lined_flushed [OF L] by simp
  ultimately have "lined I n i src dst (tl ys) zs C'" unfolding C'_def using lined_pulled q(3) by blast
  moreover have "unused I n N C' y \<and> first_item ys = y \<and> y \<noteq> SHF_QIID_NONE" if y: "ys = y # tl ys" for y
  proof -
    have f: "first_item ys = y" by (subst y) (simp add: first_item_def)
    have "y \<in> set (view i src ?C1)" unfolding v by (subst y) simp
    then have "y \<in> items_in I n ?C1" unfolding items_in_view [OF i] using q(1) by blast
    then have yN: "y < N" using apart_inD(2) [OF q_repD(3) [OF r1]] by (auto simp: items_in_def)
    have "items_in I n C' = items_in I n ?C1 - {y}" using items_pull [OF r1 i q(1) P(3) _ P(5)] P(4) unfolding v f by blast
    then show ?thesis using yN R(1) f by (simp add: unused_items q_none)
  qed
  moreover have "settled I n dst zs C'" if "ys = []"
  proof -
    have "?C1 (Pull i src) = []" using L that by (simp add: lined_def view_def)
    then show ?thesis using lined_end [OF L [unfolded that] q(1,2) R(7) q(3), of k] by (simp add: C'_def b_def)
  qed
  moreover have "q_item_mem (sys_shm s') = q_item_mem (sys_shm s)" "sizes s' = sizes s"
    using q_run_frame [OF s'(1)] push_pull_item(1) by blast+
  moreover have "shf_qiid (sys_proc s' i) = first_item ys"
    using push_pull_item(2) [OF conjunct1 [OF q_run_state [OF s'(1)]]] by simp
  ultimately show ?thesis using s' by blast
qed

lemma move_both_from:
  assumes "q_rep I n N k C s" "i \<in> I" "src < n" "dst < n" "src \<noteq> dst" "shf_qiid (sys_proc s i) \<noteq> SHF_QIID_NONE \<longrightarrow> unused I n N C (shf_qiid (sys_proc s i))"
    "lined I n i src dst (drop j xs) (take j xs) (with_hand i dst (shf_qiid (sys_proc s i)) C)" "j \<le> length xs" "length xs < 4294967296"
  shows "\<exists>s' C'. q_run i (test_move_both (Suc (length xs - j)) src dst j) s = Inr (length xs, s') \<and> q_rep I n N k C' s'
     \<and> settled I n dst xs C' \<and> q_item_mem (sys_shm s') = q_item_mem (sys_shm s) \<and> sizes s' = sizes s"
  using assms(1,6,7,8)
proof (induction "length xs - j" arbitrary: j s C)
  case 0
  then have j: "j = length xs" by simp
  obtain s' C' where s': "q_run i (shf_q_push_head_pull_tail dst (shf_qiid (sys_proc s i)) src) s = Inr (SHF_QIID_NONE, s')" "q_rep I n N k C' s'"
    "q_item_mem (sys_shm s') = q_item_mem (sys_shm s)" "sizes s' = sizes s" "settled I n dst xs C'"
    using round_lined [OF "0.prems"(1) assms(2-5) "0.prems"(2,3)] by (auto simp: j first_item_def)
  have "q_run i (test_move_both (Suc (length xs - j)) src dst j) s = Inr (length xs, s')"
    using q_run_state [OF s'(1)] s'(1) by (simp add: j q_run_def)
  then show ?case using s' by blast
next
  case (Suc d)
  then have j: "j < length xs" "d = length xs - Suc j" by simp_all
  let ?h = "shf_qiid (sys_proc s i)"
  have dr: "drop j xs = xs ! j # drop (Suc j) xs" using j(1) by (simp add: Cons_nth_drop_Suc)
  have tk: "take j xs @ [xs ! j] = take (Suc j) xs" using j(1) by (simp add: take_Suc_conv_app_nth)
  obtain s1 C1 where s1: "q_run i (shf_q_push_head_pull_tail dst ?h src) s = Inr (xs ! j, s1)" "q_rep I n N k C1 s1"
    "lined I n i src dst (drop (Suc j) xs) (take j xs) C1" "shf_qiid (sys_proc s1 i) = xs ! j"
    "q_item_mem (sys_shm s1) = q_item_mem (sys_shm s)" "sizes s1 = sizes s" "unused I n N C1 (xs ! j)" "xs ! j \<noteq> SHF_QIID_NONE"
    using round_lined [OF Suc.prems(1) assms(2-5) Suc.prems(2,3)] unfolding dr by force
  have L: "lined I n i src dst (drop (Suc j) xs) (take (Suc j) xs) (with_hand i dst (xs ! j) C1)"
    using lined_pushed [OF s1(3) assms(5), of "xs ! j"] s1(8) tk by (simp add: with_hand_def)
  obtain s' C' where s': "q_run i (test_move_both (Suc (length xs - Suc j)) src dst (Suc j)) s1 = Inr (length xs, s')" "q_rep I n N k C' s'"
    "settled I n dst xs C'" "q_item_mem (sys_shm s') = q_item_mem (sys_shm s1)" "sizes s' = sizes s1"
    using Suc.hyps(1) [of "Suc j" C1 s1] j s1(2,4,7) L by auto
  have e: "Suc (length xs - j) = Suc (Suc (length xs - Suc j))" "u32 (j + 1) = Suc j" using j(1) assms(9) by simp_all
  have "q_run i (test_move_both (Suc (length xs - j)) src dst j) s
      = q_run i (\<lambda>st. bindE (shf_q_push_head_pull_tail dst ?h src st) (\<lambda>(qiid, st).
          if qiid = SHF_QIID_NONE then Inr (j, st) else test_move_both (Suc (length xs - Suc j)) src dst (Suc j) st)) s"
    unfolding e(1) test_move_both.simps(2) [of "Suc (length xs - Suc j)"] e(2) by (simp add: q_run_def)
  also have "\<dots> = q_run i (test_move_both (Suc (length xs - Suc j)) src dst (Suc j)) s1"
    unfolding q_run_bind [OF s1(1)] by (simp only: s1(8) if_False)
  finally show ?case using s' s1(5,6) by metis
qed

text \<open>Both loops move a settled queue to another one.\<close>

definition here_only :: "nat set \<Rightarrow> nat \<Rightarrow> nat \<Rightarrow> nat \<Rightarrow> nat \<Rightarrow> nat list \<Rightarrow> q_sys \<Rightarrow> bool" where
  "here_only I n N k q xs s \<longleftrightarrow> (\<exists>C. q_rep I n N k C s \<and> settled I n q xs C)"

lemma hop:
  assumes "here_only I n N k src xs s" "i \<in> I" "src < n" "dst < n" "src \<noteq> dst" "N * sizes s i < 4294967296" "length xs < 4294967296"
    "works use xs (sizes s i) A" "A 0 (q_item_mem (sys_shm s))"
  shows "\<exists>s'. q_run i (test_move (Suc (length xs)) use src dst 0) s = Inr (length xs, s') \<and> here_only I n N k dst xs s'
     \<and> A (length xs) (q_item_mem (sys_shm s')) \<and> sizes s' = sizes s"
proof -
  obtain C where C: "q_rep I n N k C s" "settled I n src xs C" using assms(1) by (auto simp: here_only_def)
  have "lined I n i src dst (drop 0 xs) (take 0 xs) C" using settled_lined [OF C(2) assms(2-5)] by simp
  from move_from [OF C(1) assms(2-5) this _ assms(6,7), of A use] assms(8,9) show ?thesis
    unfolding here_only_def by (simp only: diff_zero le0 simp_thms) blast
qed

lemma hop_one_call:
  assumes "here_only I n N k src xs s" "i \<in> I" "src < n" "dst < n" "src \<noteq> dst" "length xs < 4294967296"
  shows "\<exists>s'. q_run i (test_move_one_call (Suc (length xs)) src dst) s = Inr (length xs, s') \<and> here_only I n N k dst xs s'
     \<and> q_item_mem (sys_shm s') = q_item_mem (sys_shm s) \<and> sizes s' = sizes s"
proof -
  obtain C where C: "q_rep I n N k C s" "settled I n src xs C" using assms(1) by (auto simp: here_only_def)
  define s0 where "s0 = s\<lparr>sys_proc := (sys_proc s)(i := (sys_proc s i)\<lparr>shf_qiid := SHF_QIID_NONE\<rparr>)\<rparr>"
  have "header s0 a = header s a" for a by (cases a) (simp_all add: s0_def)
  then have r0: "q_rep I n N k C s0" using C(1) by (simp add: q_rep_def) (simp add: s0_def attached_q_def)
  have q0: "shf_qiid (sys_proc s0 i) = SHF_QIID_NONE" "q_item_mem (sys_shm s0) = q_item_mem (sys_shm s)" "sizes s0 = sizes s"
    by (simp_all add: s0_def sizes_def fun_eq_iff)
  have "lined I n i src dst (drop 0 xs) (take 0 xs) (with_hand i dst (shf_qiid (sys_proc s0 i)) C)"
    using settled_lined [OF C(2) assms(2-5)] by (simp add: q0 with_hand_def)
  moreover have "q_run i (test_move_one_call r src dst) s = q_run i (test_move_both r src dst 0) s0" for r
    by (simp add: q_run_def test_move_one_call_def s0_def)
  ultimately show ?thesis using move_both_from [OF r0 assms(2-5) _ _ _ assms(6), of 0] q0
    unfolding here_only_def by (simp only: diff_zero le0 simp_thms) blast
qed

text \<open>The numbers in the items.\<close>

definition numbered :: "nat list \<Rightarrow> nat \<Rightarrow> nat \<Rightarrow> mem \<Rightarrow> bool" where
  "numbered xs sz j mem \<longleftrightarrow> (\<forall>l < j. SHF_U32_AT mem (xs ! l * sz) = l)"

lemma items_apart:
  assumes "(x::nat) \<noteq> y" "4 \<le> sz"
  shows "x * sz + 4 \<le> y * sz \<or> y * sz + 4 \<le> x * sz"
proof -
  have "(Suc x) * sz \<le> y * sz \<or> (Suc y) * sz \<le> x * sz"
    using assms(1) mult_le_mono1 [of "Suc x" y sz] mult_le_mono1 [of "Suc y" x sz] by linarith
  then show ?thesis using assms(2) by auto
qed

lemma store_works:
  assumes "distinct xs" "length xs < 4294967296" "4 \<le> sz"
  shows "works store_number xs sz (numbered xs sz)"
proof -
  have "SHF_U32_AT (put_U32_AT (xs ! j * sz) j mem) (xs ! l * sz) = l"
    if "j < length xs" "numbered xs sz j mem" "l < Suc j" for j mem l
  proof (cases "l = j")
    case True
    then show ?thesis using that(1) assms(2) by (simp add: bm.get32_put32)
  next
    case False
    then have "xs ! l \<noteq> xs ! j" using assms(1) that(1,3) by (simp add: nth_eq_iff_index_eq)
    then show ?thesis using items_apart [OF _ assms(3)] that(2,3) False by (simp add: bm.get32_put32_other numbered_def)
  qed
  then show ?thesis by (auto simp: works_def store_number_def numbered_def)
qed

lemma check_works: "works check_number xs sz (\<lambda>_. numbered xs sz (length xs))"
  by (auto simp: works_def check_number_def numbered_def intro!: exI [of _ "q_item_mem _"])

lemma nothing_works: "works (\<lambda>_. Inr) xs sz (\<lambda>_. A)"
  by (auto simp: works_def intro!: exI [of _ "q_item_mem _"])

section \<open>The test\<close>

lemma start_here:
  assumes "q_params p" "q_new_arrays (m, p) = Inr st"
  shows "here_only I (qs p) (q_items p) (qids_nolock_max p) 0 [0..<q_items p] (q_start i st)" "sizes (q_start i st) j = q_item_size p"
    "q_items (snd st) = q_items p"
proof -
  have "settled I (qs p) 0 [0..<q_items p] (all_free (q_items p))" by (simp add: settled_def all_free_def)
  then show "here_only I (qs p) (q_items p) (qids_nolock_max p) 0 [0..<q_items p] (q_start i st)"
    using start_rep(1) [OF assms] by (auto simp: here_only_def)
  obtain m' where "st = (m', q_get_arrays p)" using new_arrays_range [OF assms(1), of m] assms(2) by auto
  then show "sizes (q_start i st) j = q_item_size p" "q_items (snd st) = q_items p"
    by (simp_all add: sizes_def q_start_def q_get_arrays_def fold_get_qid)
qed

lemma q_params_bounds:
  assumes "q_params p"
  shows "q_items p * q_item_size p < 4294967296" "q_items p < 4294967296" "4 \<le> q_item_size p"
proof -
  show "q_items p * q_item_size p < 4294967296" "4 \<le> q_item_size p" using assms by (simp_all add: q_params_def)
  then show "q_items p < 4294967296" using mult_le_mono2 [of 1 "q_item_size p" "q_items p"] by linarith
qed

lemma here_items:
  assumes "here_only I n N k q xs s" "j \<in> I" "x < n"
  shows "reachable_items s j x = (if x = q then xs else [])"
  using assms by (auto simp: here_only_def reachable_items_view settled_def view_def)

lemma three_hops:
  assumes p: "q_params p" "2 < qs p" and new: "q_new_arrays (m, p) = Inr st" and abc: "a \<in> I" "b \<in> I" "c \<in> I"
  shows "\<exists>s1 s2 s3. q_run a (test_move (Suc (q_items p)) store_number 0 1 0) (q_start i st) = Inr (q_items p, s1)
     \<and> q_run b (test_move (Suc (q_items p)) check_number 1 2 0) s1 = Inr (q_items p, s2)
     \<and> q_run c (test_move (Suc (q_items p)) check_number 2 0 0) s2 = Inr (q_items p, s3)
     \<and> here_only I (qs p) (q_items p) (qids_nolock_max p) 1 [0..<q_items p] s1
     \<and> here_only I (qs p) (q_items p) (qids_nolock_max p) 0 [0..<q_items p] s3
     \<and> numbered [0..<q_items p] (q_item_size p) (q_items p) (q_item_mem (sys_shm s3))"
proof -
  let ?N = "q_items p" and ?sz = "q_item_size p"
  let ?xs = "[0..<?N]"
  let ?at = "here_only I (qs p) ?N (qids_nolock_max p)" and ?num = "numbered ?xs ?sz ?N"
  note B = q_params_bounds [OF p(1)] and S = start_here(1) [where I = I and i = i, OF p(1) new] start_here(2) [where i = i, OF p(1) new]
  have q: "0 < qs p" "1 < qs p" using p(2) by simp_all
  have sz: "sizes (q_start i st) = (\<lambda>_. ?sz)" using S(2) by (simp add: fun_eq_iff)
  note hop = hop [where I = I and n = "qs p" and N = ?N and k = "qids_nolock_max p" and xs = ?xs, unfolded length_upt diff_zero]
  note st = store_works [of ?xs ?sz, unfolded length_upt diff_zero, OF distinct_upt B(2,3)]
  note ck = check_works [of ?xs ?sz, unfolded length_upt diff_zero]
  obtain s1 where s1: "q_run a (test_move (Suc ?N) store_number 0 1 0) (q_start i st) = Inr (?N, s1)" "?at 1 ?xs s1"
    "?num (q_item_mem (sys_shm s1))" "sizes s1 = (\<lambda>_. ?sz)"
    using hop [where use = store_number and A = "numbered ?xs ?sz", OF S(1) abc(1) q _ _ B(2)] B(1) st
    unfolding sz by (auto simp: numbered_def)
  obtain s2 where s2: "q_run b (test_move (Suc ?N) check_number 1 2 0) s1 = Inr (?N, s2)" "?at 2 ?xs s2"
    "?num (q_item_mem (sys_shm s2))" "sizes s2 = (\<lambda>_. ?sz)"
    using hop [where use = check_number and A = "\<lambda>_. ?num", OF s1(2) abc(2) q(2) p(2) _ _ B(2)] B(1) ck s1(3)
    unfolding s1(4) by auto
  obtain s3 where s3: "q_run c (test_move (Suc ?N) check_number 2 0 0) s2 = Inr (?N, s3)" "?at 0 ?xs s3"
    "?num (q_item_mem (sys_shm s3))"
    using hop [where use = check_number and A = "\<lambda>_. ?num", OF s2(2) abc(3) p(2) q(1) _ _ B(2)] B(1) ck s2(3)
    unfolding s2(4) by auto
  show ?thesis using s1(1,2) s2(1) s3 by blast
qed

lemma bench_hops:
  assumes p: "q_params p" "2 < qs p" and new: "q_new_arrays (m, p) = Inr st" and abc: "a \<in> I" "b \<in> I" "c \<in> I"
  shows "\<exists>s1 s2 s3. q_run a (test_move (Suc (q_items p)) (\<lambda>_. Inr) 0 1 0) (q_start i st) = Inr (q_items p, s1)
     \<and> q_run b (test_move (Suc (q_items p)) (\<lambda>_. Inr) 1 2 0) s1 = Inr (q_items p, s2)
     \<and> q_run c (test_move_one_call (Suc (q_items p)) 2 0) s2 = Inr (q_items p, s3)
     \<and> here_only I (qs p) (q_items p) (qids_nolock_max p) 0 [0..<q_items p] s3"
proof -
  let ?N = "q_items p" and ?sz = "q_item_size p"
  let ?xs = "[0..<?N]"
  let ?at = "here_only I (qs p) ?N (qids_nolock_max p)"
  note B = q_params_bounds [OF p(1)] and S = start_here(1) [where I = I and i = i, OF p(1) new] start_here(2) [where i = i, OF p(1) new]
  have q: "0 < qs p" "1 < qs p" using p(2) by simp_all
  have sz: "sizes (q_start i st) = (\<lambda>_. ?sz)" using S(2) by (simp add: fun_eq_iff)
  note hop = hop [where I = I and n = "qs p" and N = ?N and k = "qids_nolock_max p" and xs = ?xs, unfolded length_upt diff_zero]
  note hop = hop [where use = "\<lambda>_. Inr" and A = "\<lambda>_ _. True", OF _ _ _ _ _ _ B(2) nothing_works]
  obtain s1 where s1: "q_run a (test_move (Suc ?N) (\<lambda>_. Inr) 0 1 0) (q_start i st) = Inr (?N, s1)" "?at 1 ?xs s1" "sizes s1 = (\<lambda>_. ?sz)"
    using hop [OF S(1) abc(1) q] B(1) unfolding sz by auto
  obtain s2 where s2: "q_run b (test_move (Suc ?N) (\<lambda>_. Inr) 1 2 0) s1 = Inr (?N, s2)" "?at 2 ?xs s2"
    using hop [OF s1(2) abc(2) q(2) p(2)] B(1) unfolding s1(3) by auto
  obtain s3 where "q_run c (test_move_one_call (Suc ?N) 2 0) s2 = Inr (?N, s3)" "?at 0 ?xs s3"
    using hop_one_call [OF s2(2) abc(3) p(2) q(1)] B(2) by auto
  then show ?thesis using s1(1) s2(1) by blast
qed

text \<open>
  C28. Queue items carry data: the first loop of the test, run by any process, takes all items out of the queue
  they start in, pushes them to a second queue and stores its count in each; when it is done any other process
  finds all items in the second queue, in the same order and with these numbers, moves them on, and so does a third
  one, back to where they started. No item is left in a private queue, no check fails, and the loops end after as
  many rounds as there are items.
\<close>

theorem queue_items_carry_data:
  assumes p: "q_params p" "2 < qs p" and new: "q_new_arrays (m, p) = Inr st" and abc: "a \<in> I" "b \<in> I" "c \<in> I"
  shows "\<exists>s1 s2 s3. q_run a (test_move (Suc (q_items p)) store_number 0 1 0) (q_start i st) = Inr (q_items p, s1)
     \<and> q_run b (test_move (Suc (q_items p)) check_number 1 2 0) s1 = Inr (q_items p, s2)
     \<and> q_run c (test_move (Suc (q_items p)) check_number 2 0 0) s2 = Inr (q_items p, s3)
     \<and> (\<forall>j \<in> I. \<forall>q < qs p. reachable_items s1 j q = (if q = 1 then [0..<q_items p] else [])
          \<and> reachable_items s3 j q = (if q = 0 then [0..<q_items p] else []))
     \<and> (\<forall>x < q_items p. SHF_U32_AT (q_item_mem (sys_shm s3)) (x * q_item_size p) = x)"
proof -
  obtain s1 s2 s3 where s: "q_run a (test_move (Suc (q_items p)) store_number 0 1 0) (q_start i st) = Inr (q_items p, s1)"
    "q_run b (test_move (Suc (q_items p)) check_number 1 2 0) s1 = Inr (q_items p, s2)"
    "q_run c (test_move (Suc (q_items p)) check_number 2 0 0) s2 = Inr (q_items p, s3)"
    "here_only I (qs p) (q_items p) (qids_nolock_max p) 1 [0..<q_items p] s1"
    "here_only I (qs p) (q_items p) (qids_nolock_max p) 0 [0..<q_items p] s3"
    "numbered [0..<q_items p] (q_item_size p) (q_items p) (q_item_mem (sys_shm s3))"
    using three_hops [OF assms, of i] by blast
  have "\<forall>x < q_items p. SHF_U32_AT (q_item_mem (sys_shm s3)) (x * q_item_size p) = x" using s(6) by (simp add: numbered_def)
  then show ?thesis using s(1-3) here_items [OF s(4)] here_items [OF s(5)] by blast
qed

theorem queue_items_carry_data_witness:
  "\<exists>st s1 s2 s3. q_new_arrays (demo_shm, demo_params) = Inr st
     \<and> q_run 0 (test_move 5 store_number 0 1 0) (q_start 0 st) = Inr (4, s1)
     \<and> q_run 1 (test_move 5 check_number 1 2 0) s1 = Inr (4, s2) \<and> q_run 0 (test_move 5 check_number 2 0 0) s2 = Inr (4, s3)
     \<and> reachable_items s3 1 0 = [0, 1, 2, 3]"
proof -
  obtain st where st: "q_new_arrays (demo_shm, demo_params) = Inr st" using demo_new by blast
  have "[0..<4] = [0, 1, 2, 3::nat]" by (simp add: upt_rec)
  then show ?thesis using queue_items_carry_data [OF demo_params_simps(5) _ st, of 0 "{0, 1}" 1 0 0] st
    by (simp only: demo_params_simps) force
qed

text \<open>All checks of the test hold, and those of the two ways to move many items.\<close>

theorem test_queues_pass:
  assumes "q_params p" "2 < qs p" "q_new_arrays (m, p) = Inr st"
  shows "\<exists>st'. test_queues st = Inr ([True, True, True], st')" "\<exists>st'. bench_queues st = Inr ([True, True, True], st')"
proof -
  have e: "(sys_shm (q_start 0 st), sys_proc (q_start 0 st) 0) = st" by (simp add: q_start_def)
  have m: "\<exists>st'. f st = Inr (y, st')" if "q_run 0 f (q_start 0 st) = Inr (y, s')" for f :: "q_st \<Rightarrow> shf_error + bool list \<times> q_st" and y s'
    using q_run_state [OF that] unfolding e by blast
  have n: "q_items (snd st) = q_items p" using start_here(3) [OF assms(1,3)] .
  have z: "(0::nat) \<in> {0}" by simp
  have r: "q_run 0 (\<lambda>x. Inr (ys, x)) s = Inr (ys, s)" for s :: q_sys and ys :: "bool list" by (simp add: q_run_def)
  obtain s1 s2 s3 where s: "q_run 0 (test_move (Suc (q_items p)) store_number 0 1 0) (q_start 0 st) = Inr (q_items p, s1)"
    "q_run 0 (test_move (Suc (q_items p)) check_number 1 2 0) s1 = Inr (q_items p, s2)"
    "q_run 0 (test_move (Suc (q_items p)) check_number 2 0 0) s2 = Inr (q_items p, s3)"
    using three_hops [OF assms z z z, of 0] by blast
  let ?f = "\<lambda>st. bindE (test_move (Suc (q_items p)) store_number 0 1 0 st) (\<lambda>(k1, st).
     bindE (test_move (Suc (q_items p)) check_number 1 2 0 st) (\<lambda>(k2, st).
     bindE (test_move (Suc (q_items p)) check_number 2 0 0 st) (\<lambda>(k3, st). Inr ([q_items p = k1, q_items p = k2, q_items p = k3], st))))"
  have "q_run 0 ?f (q_start 0 st) = Inr ([True, True, True], s3)"
    unfolding q_run_bind [OF s(1)] q_run_bind [OF s(2)] q_run_bind [OF s(3)] r by simp
  from m [OF this] show "\<exists>st'. test_queues st = Inr ([True, True, True], st')" unfolding test_queues_def Let_def n .
  obtain s1 s2 s3 where s: "q_run 0 (test_move (Suc (q_items p)) (\<lambda>_. Inr) 0 1 0) (q_start 0 st) = Inr (q_items p, s1)"
    "q_run 0 (test_move (Suc (q_items p)) (\<lambda>_. Inr) 1 2 0) s1 = Inr (q_items p, s2)"
    "q_run 0 (test_move_one_call (Suc (q_items p)) 2 0) s2 = Inr (q_items p, s3)"
    using bench_hops [OF assms z z z, of 0] by blast
  let ?f = "\<lambda>st. bindE (test_move (Suc (q_items p)) (\<lambda>_. Inr) 0 1 0 st) (\<lambda>(k1, st).
     bindE (test_move (Suc (q_items p)) (\<lambda>_. Inr) 1 2 0 st) (\<lambda>(k2, st).
     bindE (test_move_one_call (Suc (q_items p)) 2 0 st) (\<lambda>(k3, st). Inr ([q_items p = k1, q_items p = k2, q_items p = k3], st))))"
  have "q_run 0 ?f (q_start 0 st) = Inr ([True, True, True], s3)"
    unfolding q_run_bind [OF s(1)] q_run_bind [OF s(2)] q_run_bind [OF s(3)] r by simp
  from m [OF this] show "\<exists>st'. bench_queues st = Inr ([True, True, True], st')" unfolding bench_queues_def Let_def n .
qed

end
