(* ===== verification/Shf_Programs.thy ===== *)
theory Shf_Programs
  imports Shf_Ipc
begin

text \<open>
  What runs beside the library: \<open>shf_backticks\<close>, which collects the output of a command, and the program
  \<open>shf.log\<close>, which appends the lines it reads to a log file that several of them share.
\<close>

section \<open>shf_backticks\<close>

text \<open>The buffer of the thread: \<open>shf_backticks_buffer\<close>, its size, and the bytes used.\<close>

record backticks =
  bt_size :: nat
  bt_bytes :: "byte list"
  bt_used :: nat

text \<open>\<open>fread\<close> returns as many bytes as asked for, or those that are left.\<close>

function backticks_read :: "byte list \<Rightarrow> backticks \<Rightarrow> backticks" where
  "backticks_read rest b =
     (let n = u32_sub (u32_sub (bt_size b) (bt_used b)) 1; chunk = take n rest in
      if chunk = [] then b
      else
        let b = b\<lparr>bt_bytes := take (bt_used b) (bt_bytes b) @ chunk @ drop (bt_used b + length chunk) (bt_bytes b),
                  bt_used := u32 (bt_used b + length chunk)\<rparr>;
            b = (if u32_sub (bt_size b) (bt_used b) \<le> 1
                 then b\<lparr>bt_bytes := bt_bytes b @ replicate 4096 0, bt_size := u32 (4096 + bt_size b)\<rparr> else b)
        in backticks_read (drop n rest) b)"
  by pat_completeness auto
termination by (relation "measure (\<lambda>(rest, b). length rest)") auto

declare backticks_read.simps [simp del]

definition is_space :: "byte \<Rightarrow> bool" where
  "is_space c \<longleftrightarrow> c = 10 \<or> c = 13 \<or> c = 32"

primrec backticks_trim :: "byte list \<Rightarrow> nat \<Rightarrow> nat" where
  "backticks_trim bs 0 = 0"
| "backticks_trim bs (Suc n) = (if is_space (bs ! n) then backticks_trim bs n else Suc n)"

text \<open>\<open>output\<close> is what the command prints. The result is the buffer up to its first NUL byte.\<close>

definition shf_backticks :: "byte list \<Rightarrow> backticks \<Rightarrow> byte list \<times> backticks" where
  "shf_backticks output b =
     (let b = (if bt_size b = 0 then b\<lparr>bt_size := 4096, bt_bytes := replicate 4096 0\<rparr> else b);
          b = backticks_read output (b\<lparr>bt_used := 0\<rparr>);
          n = backticks_trim (bt_bytes b) (bt_used b);
          b = b\<lparr>bt_used := n, bt_bytes := (bt_bytes b)[n := 0]\<rparr>
      in (takeWhile (\<lambda>c. c \<noteq> 0) (bt_bytes b), b))"

definition bt_ok :: "backticks \<Rightarrow> bool" where
  "bt_ok b \<longleftrightarrow> length (bt_bytes b) = bt_size b \<and> (bt_size b = 0 \<or> 4096 \<le> bt_size b) \<and> bt_size b < 4294967296"

lemma read_ok:
  assumes "length (bt_bytes b) = bt_size b" "bt_used b + 2 \<le> bt_size b" "bt_size b < 4294967296"
    and "bt_used b + length rest + 4097 < 4294967296"
  shows "bt_used (backticks_read rest b) = bt_used b + length rest
     \<and> take (bt_used b + length rest) (bt_bytes (backticks_read rest b)) = take (bt_used b) (bt_bytes b) @ rest
     \<and> length (bt_bytes (backticks_read rest b)) = bt_size (backticks_read rest b)
     \<and> bt_used (backticks_read rest b) + 2 \<le> bt_size (backticks_read rest b)
     \<and> bt_size b \<le> bt_size (backticks_read rest b) \<and> bt_size (backticks_read rest b) < 4294967296"
  using assms
proof (induction rest b rule: backticks_read.induct)
  case (1 rest b)
  let ?n = "u32_sub (u32_sub (bt_size b) (bt_used b)) 1" and ?u = "bt_used b"
  have n: "?n = bt_size b - ?u - 1" "0 < ?n" using 1(3,4) by simp_all
  show ?case
  proof (cases "rest = []")
    case True
    then show ?thesis using 1(2-5) by (simp add: backticks_read.simps [of "[]"])
  next
    case False
    then have chunk: "take ?n rest \<noteq> []" using n by simp
    define c where "c = take ?n rest"
    have lc: "length c \<le> length rest" "?u + length c + 1 \<le> bt_size b" using n 1(3) by (simp_all add: c_def)
    define b1 where "b1 = b\<lparr>bt_bytes := take ?u (bt_bytes b) @ c @ drop (?u + length c) (bt_bytes b), bt_used := u32 (?u + length c)\<rparr>"
    define b2 where "b2 = (if u32_sub (bt_size b1) (bt_used b1) \<le> 1
        then b1\<lparr>bt_bytes := bt_bytes b1 @ replicate 4096 0, bt_size := u32 (4096 + bt_size b1)\<rparr> else b1)"
    have used: "bt_used b1 = ?u + length c" using 1(5) lc(1) by (simp add: b1_def)
    have b1: "length (bt_bytes b1) = bt_size b" "bt_size b1 = bt_size b" "take (?u + length c) (bt_bytes b1) = take ?u (bt_bytes b) @ c"
      using 1(2) lc by (simp_all add: b1_def)
    have small: "bt_size b \<le> ?u + length c + 1" if "u32_sub (bt_size b1) (bt_used b1) \<le> 1"
      using that lc 1(4) by (simp add: used b1)
    have b2: "bt_used b2 = ?u + length c" "length (bt_bytes b2) = bt_size b2" "?u + length c + 2 \<le> bt_size b2" "bt_size b \<le> bt_size b2"
      "bt_size b2 < 4294967296" "take (?u + length c) (bt_bytes b2) = take ?u (bt_bytes b) @ c"
      using used b1 small lc 1(2-5) by (auto simp: b2_def)
    have e: "backticks_read rest b = backticks_read (drop ?n rest) b2"
      using chunk by (subst backticks_read.simps) (simp add: Let_def b2_def b1_def c_def)
    have d: "length c + length (drop ?n rest) = length rest" "c @ drop ?n rest = rest" by (simp_all add: c_def)
    show ?thesis
      using 1(1) [OF refl refl chunk refl refl, folded c_def, folded b1_def, folded b2_def] b2 d 1(5)
      by (simp add: e add.assoc)
  qed
qed

definition rtrim :: "byte list \<Rightarrow> byte list" where
  "rtrim xs = rev (dropWhile (\<lambda>c. c \<in> {10, 13, 32}) (rev xs))"

lemma trim_ok: "n \<le> length bs \<Longrightarrow> take (backticks_trim bs n) bs = rtrim (take n bs) \<and> backticks_trim bs n \<le> n"
proof (induction n)
  case (Suc n)
  then have "take (Suc n) bs = take n bs @ [bs ! n]" by (simp add: take_Suc_conv_app_nth)
  then show ?case using Suc by (auto simp: rtrim_def is_space_def)
qed (simp add: rtrim_def)

text \<open>
  C37. \<open>shf_backticks\<close> returns the output of the command, of any length up to a page less than what 32 bits
  count, without the line feeds, carriage returns and blanks at its end, and only up to its first NUL byte if it
  has one. What the buffer of the thread holds from earlier commands does not matter.
\<close>

theorem backticks_whole_output:
  assumes "bt_ok b" "length output + 4097 < 4294967296"
  shows "fst (shf_backticks output b) = takeWhile (\<lambda>c. c \<noteq> 0) (rtrim output) \<and> bt_ok (snd (shf_backticks output b))"
proof -
  define b1 where "b1 = (if bt_size b = 0 then b\<lparr>bt_size := 4096, bt_bytes := replicate 4096 0\<rparr> else b)\<lparr>bt_used := 0\<rparr>"
  have b1: "length (bt_bytes b1) = bt_size b1" "bt_used b1 = 0" "4096 \<le> bt_size b1" "bt_size b1 < 4294967296"
    using assms(1) by (auto simp: bt_ok_def b1_def)
  define b2 where "b2 = backticks_read output b1"
  have "bt_used b1 + 2 \<le> bt_size b1" "bt_used b1 + length output + 4097 < 4294967296" using b1(2,3) assms(2) by simp_all
  from read_ok [OF b1(1) this(1) b1(4) this(2)]
  have b2: "bt_used b2 = length output" "take (length output) (bt_bytes b2) = output" "length (bt_bytes b2) = bt_size b2"
    "length output + 2 \<le> bt_size b2" "4096 \<le> bt_size b2" "bt_size b2 < 4294967296"
    using b1 by (auto simp: b2_def)
  let ?n = "backticks_trim (bt_bytes b2) (length output)"
  have t: "take ?n (bt_bytes b2) = rtrim output" "?n \<le> length output"
    using trim_ok [of "length output" "bt_bytes b2"] b2 by simp_all
  have n: "?n < length (bt_bytes b2)" using t(2) b2 by simp
  have nz: "takeWhile (\<lambda>c. c \<noteq> 0) (ys @ 0 # xs) = takeWhile (\<lambda>c. c \<noteq> 0) ys" for xs ys :: "byte list"
    by (induction ys) simp_all
  have "(bt_bytes b2)[?n := 0] = rtrim output @ 0 # drop (Suc ?n) (bt_bytes b2)" using n t(1) by (simp add: upd_conv_take_nth_drop)
  moreover have e: "shf_backticks output b = (takeWhile (\<lambda>c. c \<noteq> 0) ((bt_bytes b2)[?n := 0]),
      b2\<lparr>bt_used := ?n, bt_bytes := (bt_bytes b2)[?n := 0]\<rparr>)"
    unfolding shf_backticks_def Let_def b1_def [symmetric] b2_def [symmetric] b2(1) by simp
  ultimately have "fst (shf_backticks output b) = takeWhile (\<lambda>c. c \<noteq> 0) (rtrim output)" using nz by simp
  moreover have "bt_ok (snd (shf_backticks output b))" using b2 by (simp add: e bt_ok_def)
  ultimately show ?thesis ..
qed

text \<open>Two commands: one with more output than a page, one with a line end.\<close>

theorem backticks_whole_output_witness:
  "let b = \<lparr>bt_size = 0, bt_bytes = [], bt_used = 0\<rparr> in
   fst (shf_backticks (replicate 5000 97 @ [32, 10]) b) = replicate 5000 97"
proof -
  let ?b = "\<lparr>bt_size = 0, bt_bytes = [], bt_used = 0\<rparr>"
  have "fst (shf_backticks (replicate 5000 97 @ [32, 10]) ?b) = takeWhile (\<lambda>c. c \<noteq> 0) (rtrim (replicate 5000 97 @ [32, 10]))"
    using backticks_whole_output [of ?b "replicate 5000 97 @ [32, 10]"] by (simp add: bt_ok_def)
  moreover have "rtrim (replicate 5000 97 @ [32, 10]) = replicate 5000 97"
    using dropWhile_replicate [of "\<lambda>c. c \<in> {10, 13, 32}" 5000 97] by (simp add: rtrim_def)
  ultimately show ?thesis by (simp only: Let_def) (simp add: takeWhile_replicate)
qed

section \<open>shf.log\<close>

text \<open>
  The program reads lines from its standard input, a pipe, and appends each to the log file. Between the
  pipe and \<open>getline\<close> lies the buffer of \<open>stdin\<close>, which takes up to a page at once; \<open>select\<close> knows the pipe
  only. \<open>lp_file\<close> is what this process has appended, \<open>lp_in_getline\<close> says that it waits inside \<open>getline\<close>,
  and \<open>lp_written\<close> records, for the proofs, all that was written into the pipe.
\<close>

record log_prog =
  lp_pipe :: "byte list"
  lp_closed :: bool
  lp_stdin :: "byte list"
  lp_feof :: bool
  lp_in_getline :: bool
  lp_file :: "byte list"
  lp_exited :: bool
  lp_written :: "byte list"

text \<open>\<open>fprintf(file, "%s", line)\<close> stops at a NUL byte.\<close>

definition append_line :: "byte list \<Rightarrow> log_prog \<Rightarrow> log_prog" where
  "append_line line p = p\<lparr>lp_file := lp_file p @ takeWhile (\<lambda>c. c \<noteq> 0) line\<rparr>"

definition is_ready :: "log_prog \<Rightarrow> bool" where
  "is_ready p \<longleftrightarrow> lp_pipe p \<noteq> [] \<or> lp_closed p"

datatype got_line = Got "byte list" | Got_none | Blocks

function getline :: "log_prog \<Rightarrow> got_line \<times> log_prog" where
  "getline p =
     (if 10 \<in> set (lp_stdin p) then
        let n = Suc (length (takeWhile (\<lambda>c. c \<noteq> 10) (lp_stdin p)))
        in (Got (take n (lp_stdin p)), p\<lparr>lp_stdin := drop n (lp_stdin p)\<rparr>)
      else if lp_pipe p \<noteq> [] then getline (p\<lparr>lp_stdin := lp_stdin p @ take 4096 (lp_pipe p), lp_pipe := drop 4096 (lp_pipe p)\<rparr>)
      else if \<not> lp_closed p then (Blocks, p)
      else if lp_stdin p = [] then (Got_none, p\<lparr>lp_feof := True\<rparr>)
      else (Got (lp_stdin p), p\<lparr>lp_stdin := [], lp_feof := True\<rparr>))"
  by pat_completeness auto
termination by (relation "measure (\<lambda>p. length (lp_pipe p))") auto

declare getline.simps [simp del]

definition log_message :: "string \<Rightarrow> string \<Rightarrow> string \<Rightarrow> byte list" where
  "log_message verb path_name peer = str_bytes (''shf.log: '' @ verb @ '' logging to file '' @ [CHR 0x27] @ path_name
     @ [CHR 0x27] @ '' on behalf of '' @ [CHR 0x27] @ peer @ [CHR 0x27, CHR 0x0A])"

text \<open>\<open>SHF_SNPRINTF\<close> into a buffer of 256 bytes: it lets a text of 256 bytes pass that has lost its last one.\<close>

definition snprintf_256 :: "byte list \<Rightarrow> shf_error + byte list" where
  "snprintf_256 text = bindE (assertE (length text \<le> 256) Out_of_bounds) (\<lambda>_. Inr (take 255 text))"

definition log_start :: "string \<Rightarrow> string \<Rightarrow> shf_error + log_prog" where
  "log_start path_name peer = bindE (snprintf_256 (log_message ''started'' path_name peer)) (\<lambda>start_message.
     Inr (append_line start_message
       \<lparr>lp_pipe = [], lp_closed = False, lp_stdin = [], lp_feof = False, lp_in_getline = False, lp_file = [], lp_exited = False,
         lp_written = []\<rparr>))"

definition log_exit :: "string \<Rightarrow> string \<Rightarrow> log_prog \<Rightarrow> shf_error + log_prog" where
  "log_exit path_name peer p = bindE (snprintf_256 (log_message ''finished'' path_name peer)) (\<lambda>finish_message.
     Inr ((append_line finish_message p)\<lparr>lp_exited := True\<rparr>))"

text \<open>The peer writes and closes the pipe; the program looks whether it is ready and calls \<open>getline\<close>.\<close>

inductive log_prog_step :: "string \<Rightarrow> string \<Rightarrow> log_prog \<Rightarrow> log_prog \<Rightarrow> bool" for path_name peer where
  peer_writes: "\<not> lp_closed p
     \<Longrightarrow> log_prog_step path_name peer p (p\<lparr>lp_pipe := lp_pipe p @ bs, lp_written := lp_written p @ bs\<rparr>)"
| peer_closes: "log_prog_step path_name peer p (p\<lparr>lp_closed := True\<rparr>)"
| reads_line: "\<not> lp_exited p \<Longrightarrow> is_ready p \<or> lp_in_getline p \<Longrightarrow> getline p = (Got line, p')
     \<Longrightarrow> log_prog_step path_name peer p (append_line line (p'\<lparr>lp_in_getline := False\<rparr>))"
| waits: "\<not> lp_exited p \<Longrightarrow> is_ready p \<or> lp_in_getline p \<Longrightarrow> getline p = (Blocks, p')
     \<Longrightarrow> log_prog_step path_name peer p (p'\<lparr>lp_in_getline := True\<rparr>)"
| early_out: "\<not> lp_exited p \<Longrightarrow> is_ready p \<or> lp_in_getline p \<Longrightarrow> getline p = (Got_none, p')
     \<Longrightarrow> log_exit path_name peer (p'\<lparr>lp_in_getline := False\<rparr>) = Inr q \<Longrightarrow> log_prog_step path_name peer p q"
| at_feof: "\<not> lp_exited p \<Longrightarrow> \<not> is_ready p \<Longrightarrow> \<not> lp_in_getline p \<Longrightarrow> lp_feof p
     \<Longrightarrow> log_exit path_name peer p = Inr q \<Longrightarrow> log_prog_step path_name peer p q"

lemma takeWhile_no_nul: "0 \<notin> set xs \<Longrightarrow> takeWhile (\<lambda>c. c \<noteq> (0 :: byte)) xs = xs"
  by (rule takeWhile_eq_all_conv [THEN iffD2]) auto

text \<open>
  What the file keeps of some text: of each line what comes before its first NUL byte. The flag says that a
  NUL byte has been met in the line.
\<close>

fun kept :: "bool \<Rightarrow> byte list \<Rightarrow> byte list" where
  "kept nul [] = []"
| "kept nul (c # cs) = (if c = 10 then (if nul then kept False cs else 10 # kept False cs)
     else if nul \<or> c = 0 then kept True cs else c # kept False cs)"

lemma kept_no_nul: "0 \<notin> set xs \<Longrightarrow> kept False xs = xs"
  by (induction xs) auto

lemma kept_line: "10 \<notin> set xs \<Longrightarrow> kept True xs = [] \<and> kept False xs = takeWhile (\<lambda>c. c \<noteq> 0) xs"
  by (induction xs) auto

lemma kept_append_line:
  "10 \<notin> set xs \<Longrightarrow> kept True (xs @ 10 # ys) = kept False ys
     \<and> kept False (xs @ 10 # ys) = takeWhile (\<lambda>c. c \<noteq> 0) (xs @ [10]) @ kept False ys"
  by (induction xs) auto

lemma kept_append: "xs = [] \<or> last xs = 10 \<Longrightarrow> kept False (xs @ ys) = kept False xs @ kept False ys"
proof -
  have "xs \<noteq> [] \<Longrightarrow> last xs = 10 \<Longrightarrow> kept nul (xs @ ys) = kept nul xs @ kept False ys" for nul
    by (induction xs arbitrary: nul) (auto split: if_splits)
  then show "xs = [] \<or> last xs = 10 \<Longrightarrow> kept False (xs @ ys) = kept False xs @ kept False ys" by (cases "xs = []") auto
qed

text \<open>
  The part of what was written that has been read ends with a line, or it is all there is. \<open>lp_file\<close> is
  what the program keeps of it, between its two messages.
\<close>

definition log_prog_inv :: "byte list \<Rightarrow> byte list \<Rightarrow> log_prog \<Rightarrow> bool" where
  "log_prog_inv S F p \<longleftrightarrow> (lp_feof p \<longrightarrow> lp_closed p) \<and> (\<exists>read. lp_written p = read @ lp_stdin p @ lp_pipe p
     \<and> (read = [] \<or> last read = 10 \<or> lp_closed p \<and> lp_stdin p @ lp_pipe p = [])
     \<and> (if lp_exited p then lp_closed p \<and> lp_stdin p @ lp_pipe p = [] \<and> lp_file p = S @ kept False read @ F
        else lp_file p = S @ kept False read))"

text \<open>What \<open>getline\<close> takes out of the buffer and the pipe.\<close>

lemma rest_of_lines:
  "10 \<in> set xs \<Longrightarrow> xs = takeWhile (\<lambda>c. c \<noteq> 10) xs @ (10 :: byte) # drop (Suc (length (takeWhile (\<lambda>c. c \<noteq> 10) xs))) xs"
  by (induction xs) auto

lemma first_line: "10 \<in> set xs \<Longrightarrow> take (Suc (length (takeWhile (\<lambda>c. c \<noteq> 10) xs))) xs = takeWhile (\<lambda>c. c \<noteq> 10) xs @ [10 :: byte]"
  by (induction xs) auto

lemma getline_takes:
  assumes "getline p = (g, p')"
  shows "lp_closed p' = lp_closed p \<and> lp_file p' = lp_file p \<and> lp_exited p' = lp_exited p \<and> lp_written p' = lp_written p
     \<and> (lp_feof p' \<longrightarrow> lp_feof p \<or> lp_closed p)
     \<and> (case g of Got line \<Rightarrow> lp_stdin p @ lp_pipe p = line @ lp_stdin p' @ lp_pipe p'
             \<and> ((\<exists>xs. line = xs @ [10] \<and> 10 \<notin> set xs) \<or> 10 \<notin> set line \<and> lp_closed p \<and> lp_stdin p' @ lp_pipe p' = [])
          | Got_none \<Rightarrow> lp_closed p \<and> lp_stdin p @ lp_pipe p = [] \<and> lp_stdin p' @ lp_pipe p' = []
          | Blocks \<Rightarrow> lp_stdin p @ lp_pipe p = lp_stdin p' @ lp_pipe p')"
  using assms
proof (induction p rule: getline.induct)
  case (1 p)
  show ?case
  proof (cases "10 \<in> set (lp_stdin p)")
    case True
    have "10 \<notin> set (takeWhile (\<lambda>c. c \<noteq> 10) (lp_stdin p))" by (auto dest: set_takeWhileD)
    then show ?thesis using 1(2) True first_line [OF True] rest_of_lines [OF True] by (auto simp: getline.simps [of p] Let_def)
  next
    case no: False
    show ?thesis
    proof (cases "lp_pipe p = []")
      case True
      then show ?thesis using 1(2) no by (auto simp: getline.simps [of p] split: if_splits)
    next
      case False
      let ?q = "p\<lparr>lp_stdin := lp_stdin p @ take 4096 (lp_pipe p), lp_pipe := drop 4096 (lp_pipe p)\<rparr>"
      have "getline ?q = (g, p')" using 1(2) no False by (simp add: getline.simps [of p])
      from 1(1) [OF no False this] show ?thesis by (auto split: got_line.splits)
    qed
  qed
qed

lemma getline_file: "getline p = (g, p') \<Longrightarrow> lp_file p' = lp_file p \<and> lp_in_getline p' = lp_in_getline p"
proof (induction p rule: getline.induct)
  case (1 p)
  then show ?case by (auto simp: getline.simps [of p] Let_def split: if_splits)
qed

lemma log_prog_step_inv:
  assumes "log_prog_step path_name peer p p'" "log_prog_inv S F p"
    and F: "snprintf_256 (log_message ''finished'' path_name peer) = Inr F" "0 \<notin> set F"
  shows "log_prog_inv S F p'"
proof -
  obtain r where r: "lp_feof p \<longrightarrow> lp_closed p" "lp_written p = r @ lp_stdin p @ lp_pipe p"
    "r = [] \<or> last r = 10 \<or> lp_closed p \<and> lp_stdin p @ lp_pipe p = []"
    "if lp_exited p then lp_closed p \<and> lp_stdin p @ lp_pipe p = [] \<and> lp_file p = S @ kept False r @ F else lp_file p = S @ kept False r"
    using assms(2) by (auto simp: log_prog_inv_def)
  show ?thesis
    using assms(1)
  proof cases
    case (peer_writes bs)
    then show ?thesis using r unfolding log_prog_inv_def by (intro conjI exI [of _ r]) (auto split: if_splits)
  next
    case peer_closes
    then show ?thesis using r unfolding log_prog_inv_def by (intro conjI exI [of _ r]) (auto split: if_splits)
  next
    case (reads_line line q)
    note G = getline_takes [OF reads_line(4)]
    have f: "lp_file p = S @ kept False r" using r(4) reads_line(2) by simp
    have ends: "line = [] \<or> last line = 10 \<or> lp_closed p \<and> lp_stdin q @ lp_pipe q = []" using G by auto
    have k: "kept False (r @ line) = kept False r @ takeWhile (\<lambda>c. c \<noteq> 0) line"
    proof (cases "line = []")
      case False
      then have "lp_stdin p @ lp_pipe p \<noteq> []" using G by auto
      then have "kept False (r @ line) = kept False r @ kept False line" using r(3) by (intro kept_append) auto
      moreover have "kept False line = takeWhile (\<lambda>c. c \<noteq> 0) line" using G kept_line kept_append_line [where ys = "[]"] by auto
      ultimately show ?thesis by simp
    qed simp
    have w: "lp_written q = (r @ line) @ lp_stdin q @ lp_pipe q" using G r(2) by simp
    have "r @ line = [] \<or> last (r @ line) = 10 \<or> lp_closed q \<and> lp_stdin q @ lp_pipe q = []"
      using ends r(3) G by (cases "line = []") auto
    then show ?thesis using G w f k r(1) reads_line(1,2) unfolding log_prog_inv_def
      by (intro conjI exI [of _ "r @ line"]) (auto simp: append_line_def)
  next
    case (waits q)
    note G = getline_takes [OF waits(4)]
    then have "lp_stdin p @ lp_pipe p = lp_stdin q @ lp_pipe q" by simp
    then show ?thesis using r waits(1,2) G unfolding log_prog_inv_def by (intro conjI exI [of _ r]) auto
  next
    case (early_out q)
    then show ?thesis using r getline_takes [OF early_out(3)] F unfolding log_prog_inv_def
      by (intro conjI exI [of _ r]) (auto simp: log_exit_def append_line_def takeWhile_no_nul)
  next
    case at_feof
    then have "lp_closed p" using r(1) by simp
    then show ?thesis using at_feof by (simp add: is_ready_def)
  qed
qed

text \<open>
  C38. The log file keeps what the peer writes, in order, but of each line only what comes before its first NUL
  byte. At every moment the file has the message of the start and this much of a first part of what was
  written; the rest waits in the buffer of \<open>stdin\<close> and in the pipe. When the program has ended, which it does
  only after the peer has closed the pipe, the file holds the start message, this much of all that was
  written, and the finish message. Without NUL bytes nothing at all is lost. The names have no NUL bytes, and
  the messages fit their buffers.
\<close>

theorem log_program_keeps_all:
  assumes S: "snprintf_256 (log_message ''started'' path_name peer) = Inr S" "0 \<notin> set S"
    and F: "snprintf_256 (log_message ''finished'' path_name peer) = Inr F" "0 \<notin> set F"
  shows "\<exists>p0. log_start path_name peer = Inr p0 \<and> (\<forall>p. (log_prog_step path_name peer)\<^sup>*\<^sup>* p0 p \<longrightarrow>
     (if lp_exited p then lp_closed p \<and> lp_file p = S @ kept False (lp_written p) @ F
      else \<exists>read. lp_written p = read @ lp_stdin p @ lp_pipe p \<and> lp_file p = S @ kept False read)
     \<and> (0 \<notin> set (lp_written p) \<longrightarrow>
        (if lp_exited p then lp_file p = S @ lp_written p @ F else lp_file p @ lp_stdin p @ lp_pipe p = S @ lp_written p)))"
proof -
  obtain p0 where p0: "log_start path_name peer = Inr p0" "log_prog_inv S F p0"
    using S by (auto simp: log_start_def log_prog_inv_def append_line_def takeWhile_no_nul)
  have "log_prog_inv S F p" if "(log_prog_step path_name peer)\<^sup>*\<^sup>* p0 p" for p
    using that by (induction rule: rtranclp_induct) (use p0(2) log_prog_step_inv F in blast)+
  then have "(if lp_exited p then lp_closed p \<and> lp_file p = S @ kept False (lp_written p) @ F
      else \<exists>read. lp_written p = read @ lp_stdin p @ lp_pipe p \<and> lp_file p = S @ kept False read)
     \<and> (0 \<notin> set (lp_written p) \<longrightarrow>
        (if lp_exited p then lp_file p = S @ lp_written p @ F else lp_file p @ lp_stdin p @ lp_pipe p = S @ lp_written p))"
    if "(log_prog_step path_name peer)\<^sup>*\<^sup>* p0 p" for p
    using that by (fastforce simp: log_prog_inv_def kept_no_nul split: if_splits)
  then show ?thesis using p0(1) by blast
qed

lemma messages_fit:
  "\<exists>S. snprintf_256 (log_message ''started'' ''l'' ''p'') = Inr S \<and> 0 \<notin> set S"
  "\<exists>F. snprintf_256 (log_message ''finished'' ''l'' ''p'') = Inr F \<and> 0 \<notin> set F"
  by (simp_all add: snprintf_256_def log_message_def str_bytes_def of_char_def horner_sum_foldr)

text \<open>A peer that writes one line and closes the pipe.\<close>

theorem log_program_keeps_all_witness:
  "\<exists>p0 p S F. log_start ''l'' ''p'' = Inr p0 \<and> (log_prog_step ''l'' ''p'')\<^sup>*\<^sup>* p0 p \<and> lp_exited p \<and> lp_file p = S @ [97, 10] @ F"
proof -
  obtain S F where m: "snprintf_256 (log_message ''started'' ''l'' ''p'') = Inr S" "0 \<notin> set S"
    "snprintf_256 (log_message ''finished'' ''l'' ''p'') = Inr F" "0 \<notin> set F" using messages_fit by blast
  let ?step = "log_prog_step ''l'' ''p''"
  define p0 where "p0 = append_line S \<lparr>lp_pipe = [], lp_closed = False, lp_stdin = [], lp_feof = False, lp_in_getline = False, lp_file = [],
    lp_exited = False, lp_written = []\<rparr>"
  have p0: "log_start ''l'' ''p'' = Inr p0" using m(1) by (simp add: log_start_def p0_def)
  define p1 where "p1 = p0\<lparr>lp_pipe := [97, 10], lp_written := [97, 10]\<rparr>"
  define p2 where "p2 = append_line [97, 10] (p1\<lparr>lp_pipe := [], lp_stdin := [], lp_in_getline := False\<rparr>)"
  define p3 where "p3 = p2\<lparr>lp_closed := True\<rparr>"
  define p4 where "p4 = (append_line F (p3\<lparr>lp_feof := True, lp_in_getline := False\<rparr>))\<lparr>lp_exited := True\<rparr>"
  have f0: "\<not> lp_closed p0" "lp_pipe p0 = []" "lp_stdin p0 = []" "lp_written p0 = []" "\<not> lp_exited p0"
    by (simp_all add: p0_def append_line_def)
  have "?step p0 p1" using log_prog_step.peer_writes [OF f0(1), where bs = "[97, 10]"] f0 by (simp add: p1_def)
  moreover have "getline p1 = (Got [97, 10], p1\<lparr>lp_pipe := [], lp_stdin := []\<rparr>)"
    using f0 by (subst getline.simps, simp add: p1_def, subst getline.simps, simp)
  then have "?step p1 p2" using log_prog_step.reads_line [of p1 "[97, 10]"] f0 by (simp add: p1_def p2_def is_ready_def)
  moreover have "?step p2 p3" unfolding p3_def by (rule log_prog_step.peer_closes)
  moreover have "getline p3 = (Got_none, p3\<lparr>lp_feof := True\<rparr>)"
    by (subst getline.simps) (simp add: p3_def p2_def append_line_def)
  then have "?step p3 p4" using f0 m(3)
    by (intro log_prog_step.early_out) (auto simp: p4_def p3_def p2_def p1_def is_ready_def log_exit_def append_line_def)
  ultimately have r: "?step\<^sup>*\<^sup>* p0 p4" by (meson rtranclp.intros)
  have e: "lp_exited p4" "lp_written p4 = [97, 10]" by (simp_all add: p4_def p3_def p2_def p1_def append_line_def)
  from log_program_keeps_all [OF m] p0 r have "lp_file p4 = S @ kept False (lp_written p4) @ F" using e(1) by fastforce
  then show ?thesis using p0 r e by (intro exI [of _ p0] exI [of _ p4] exI [of _ S] exI [of _ F]) simp
qed

text \<open>
  Two lines written at once: the first is appended, the second stays in the buffer of \<open>stdin\<close>, where
  \<open>select\<close> does not see it, until the peer writes again or closes the pipe.
\<close>

theorem second_line_waits:
  "\<exists>p0 p. log_start ''l'' ''p'' = Inr p0 \<and> (log_prog_step ''l'' ''p'')\<^sup>*\<^sup>* p0 p
     \<and> \<not> is_ready p \<and> \<not> lp_in_getline p \<and> \<not> lp_exited p \<and> lp_stdin p = [98, 10]"
proof -
  obtain S where m: "snprintf_256 (log_message ''started'' ''l'' ''p'') = Inr S" using messages_fit by blast
  let ?step = "log_prog_step ''l'' ''p''"
  define p0 where "p0 = append_line S \<lparr>lp_pipe = [], lp_closed = False, lp_stdin = [], lp_feof = False, lp_in_getline = False, lp_file = [],
    lp_exited = False, lp_written = []\<rparr>"
  have p0: "log_start ''l'' ''p'' = Inr p0" using m by (simp add: log_start_def p0_def)
  define p1 where "p1 = p0\<lparr>lp_pipe := [97, 10, 98, 10], lp_written := [97, 10, 98, 10]\<rparr>"
  define p2 where "p2 = append_line [97, 10] (p1\<lparr>lp_pipe := [], lp_stdin := [98, 10], lp_in_getline := False\<rparr>)"
  have f0: "\<not> lp_closed p0" "lp_pipe p0 = []" "lp_stdin p0 = []" "lp_written p0 = []" "\<not> lp_exited p0"
    by (simp_all add: p0_def append_line_def)
  have "?step p0 p1" using log_prog_step.peer_writes [OF f0(1), where bs = "[97, 10, 98, 10]"] f0 by (simp add: p1_def)
  moreover have "getline p1 = (Got [97, 10], p1\<lparr>lp_pipe := [], lp_stdin := [98, 10]\<rparr>)"
    using f0 by (subst getline.simps, simp add: p1_def, subst getline.simps, simp)
  then have "?step p1 p2" using log_prog_step.reads_line [of p1 "[97, 10]"] f0 by (simp add: p1_def p2_def is_ready_def)
  ultimately have "?step\<^sup>*\<^sup>* p0 p2" by (meson rtranclp.intros)
  moreover have "\<not> is_ready p2" "\<not> lp_in_getline p2" "\<not> lp_exited p2" "lp_stdin p2 = [98, 10]"
    using f0 by (simp_all add: p2_def p1_def append_line_def is_ready_def)
  ultimately show ?thesis using p0 by blast
qed

section \<open>shf.monitor\<close>

text \<open>
  The program that deletes an instance once the process that asked for it is gone. Every tenth of a second
  it sends signal 0; the second answer is what \<open>stat\<close> says of the folder at that moment.
\<close>

datatype kill_answer = Process_there | Process_gone | Kill_failed
datatype stat_answer = No_folder | Is_folder | Stat_other

fun shf_monitor :: "(kill_answer \<times> stat_answer) list \<Rightarrow> shf_error + bool option" where
  "shf_monitor [] = Inr None"
| "shf_monitor ((Process_there, folder) # views) = shf_monitor views"
| "shf_monitor ((Kill_failed, folder) # views) = Inl Stat_failed"
| "shf_monitor ((Process_gone, folder) # views) = (case folder of
     No_folder \<Rightarrow> Inr (Some False) | Is_folder \<Rightarrow> Inr (Some True) | Stat_other \<Rightarrow> Inl Stat_failed)"

lemma shf_monitor_deletes:
  "shf_monitor views = Inr (Some True) \<longleftrightarrow>
     (\<exists>alive later. views = alive @ (Process_gone, Is_folder) # later \<and> (\<forall>v \<in> set alive. fst v = Process_there))"
proof (induction views rule: shf_monitor.induct)
  case (2 folder views)
  then show ?case by (auto simp: Cons_eq_append_conv) (metis fst_conv list.set_intros(1) set_ConsD append_Cons kill_answer.distinct(1))+
next
  case (4 folder views)
  then show ?case by (cases folder) (auto simp: Cons_eq_append_conv)
qed (auto simp: Cons_eq_append_conv)

end
