(* ===== verification/Shf_RwLock.thy ===== *)
theory Shf_RwLock
  imports Shf_Prelude
begin

text \<open>
  The readers-writer lock of \<open>shf.lock.h\<close> that guards every window, the queues and the log: a ticket
  lock in one 64 bit word. Every atomic instruction and every byte store of the code is one step, so
  that the steps of any number of threads interleave. The word has three counters of one byte, each
  with a byte above it that catches the carry and that the code clears after every addition.
\<close>

section \<open>The lock word\<close>

type_synonym rw_word = "64 word"

text \<open>\<open>SHF_RW_LOCK_UNION\<close>: byte \<open>k\<close> of the little endian word, read and set to zero.\<close>

definition rw_u08 :: "nat \<Rightarrow> rw_word \<Rightarrow> nat" where
  "rw_u08 k w = unat w div 256 ^ k mod 256"

definition rw_clear :: "nat \<Rightarrow> rw_word \<Rightarrow> rw_word" where
  "rw_clear k w = w - of_nat (256 ^ k * rw_u08 k w)"

abbreviation "ticket_active_writer \<equiv> rw_u08 0"
abbreviation "ticket_active_reader \<equiv> rw_u08 2"
abbreviation "ticket_next \<equiv> rw_u08 4"

definition SHF_RW_LOCK_INC_TICKET_NEXT_ACTIVE_WRITER :: rw_word where
  "SHF_RW_LOCK_INC_TICKET_NEXT_ACTIVE_WRITER = 1"

definition SHF_RW_LOCK_INC_TICKET_NEXT_ACTIVE_READER :: rw_word where
  "SHF_RW_LOCK_INC_TICKET_NEXT_ACTIVE_READER = 65536"

definition SHF_RW_LOCK_INC_TICKET_NEXT :: rw_word where
  "SHF_RW_LOCK_INC_TICKET_NEXT = 4294967296"

lemmas rw_incs = SHF_RW_LOCK_INC_TICKET_NEXT_ACTIVE_WRITER_def SHF_RW_LOCK_INC_TICKET_NEXT_ACTIVE_READER_def
  SHF_RW_LOCK_INC_TICKET_NEXT_def

section \<open>The steps of one thread\<close>

text \<open>
  Where a thread is in the four functions. \<open>W_ticket t\<close> has taken the ticket and not yet cleared the
  carry, \<open>W_wait t\<close> spins, \<open>W_held\<close> has returned from \<open>shf_rw_lock_writer\<close>; \<open>W_leave1\<close> and \<open>W_leave2\<close>
  have released the lock and have two carries to clear. A reader that has seen its ticket (\<open>R_enter\<close>)
  lets the next one in before it returns.
\<close>

datatype rw_pc = Idle | W_ticket nat | W_wait nat | W_held | W_leave1 | W_leave2
  | R_ticket nat | R_wait nat | R_enter | R_entered | R_held | R_leave

inductive shf_rw_lock_writer :: "rw_pc \<times> rw_word \<Rightarrow> rw_pc \<times> rw_word \<Rightarrow> bool" where
  w_take: "shf_rw_lock_writer (Idle, w) (W_ticket (ticket_next w), w + SHF_RW_LOCK_INC_TICKET_NEXT)"
| w_pad: "shf_rw_lock_writer (W_ticket t, w) (W_wait t, rw_clear 5 w)"
| w_enter: "t = ticket_active_writer w \<Longrightarrow> shf_rw_lock_writer (W_wait t, w) (W_held, w)"

inductive shf_rw_unlock_writer :: "rw_pc \<times> rw_word \<Rightarrow> rw_pc \<times> rw_word \<Rightarrow> bool" where
  w_release: "shf_rw_unlock_writer (W_held, w)
    (W_leave1, w + (SHF_RW_LOCK_INC_TICKET_NEXT_ACTIVE_WRITER + SHF_RW_LOCK_INC_TICKET_NEXT_ACTIVE_READER))"
| w_pad1: "shf_rw_unlock_writer (W_leave1, w) (W_leave2, rw_clear 1 w)"
| w_pad2: "shf_rw_unlock_writer (W_leave2, w) (Idle, rw_clear 3 w)"

inductive shf_rw_lock_reader :: "rw_pc \<times> rw_word \<Rightarrow> rw_pc \<times> rw_word \<Rightarrow> bool" where
  r_take: "shf_rw_lock_reader (Idle, w) (R_ticket (ticket_next w), w + SHF_RW_LOCK_INC_TICKET_NEXT)"
| r_pad: "shf_rw_lock_reader (R_ticket t, w) (R_wait t, rw_clear 5 w)"
| r_enter: "t = ticket_active_reader w \<Longrightarrow> shf_rw_lock_reader (R_wait t, w) (R_enter, w)"
| r_next: "shf_rw_lock_reader (R_enter, w) (R_entered, w + SHF_RW_LOCK_INC_TICKET_NEXT_ACTIVE_READER)"
| r_pad3: "shf_rw_lock_reader (R_entered, w) (R_held, rw_clear 3 w)"

inductive shf_rw_unlock_reader :: "rw_pc \<times> rw_word \<Rightarrow> rw_pc \<times> rw_word \<Rightarrow> bool" where
  r_release: "shf_rw_unlock_reader (R_held, w) (R_leave, w + SHF_RW_LOCK_INC_TICKET_NEXT_ACTIVE_WRITER)"
| r_pad1: "shf_rw_unlock_reader (R_leave, w) (Idle, rw_clear 1 w)"

inductive rw_thread :: "rw_pc \<times> rw_word \<Rightarrow> rw_pc \<times> rw_word \<Rightarrow> bool" where
  "shf_rw_lock_writer a b \<Longrightarrow> rw_thread a b"
| "shf_rw_unlock_writer a b \<Longrightarrow> rw_thread a b"
| "shf_rw_lock_reader a b \<Longrightarrow> rw_thread a b"
| "shf_rw_unlock_reader a b \<Longrightarrow> rw_thread a b"

text \<open>The threads \<open>{..<n}\<close> and the word they share, which the new file holds as zero bytes.\<close>

type_synonym rw_conf = "(nat \<Rightarrow> rw_pc) \<times> rw_word"

inductive rw_step :: "nat \<Rightarrow> rw_conf \<Rightarrow> rw_conf \<Rightarrow> bool" for n where
  "i < n \<Longrightarrow> rw_thread (pc i, w) (p, w') \<Longrightarrow> rw_step n (pc, w) (pc(i := p), w')"

definition rw_start :: rw_conf where
  "rw_start = (\<lambda>_. Idle, 0)"

abbreviation rw_reach :: "nat \<Rightarrow> rw_conf \<Rightarrow> bool" where
  "rw_reach n c \<equiv> (rw_step n)\<^sup>*\<^sup>* rw_start c"

inductive_simps rw_step_simps: "rw_step n (pc, w) c"

section \<open>Bytes of the word\<close>

fun lock_nat :: "nat list \<Rightarrow> nat" where
  "lock_nat [] = 0"
| "lock_nat (b # bs) = b + 256 * lock_nat bs"

abbreviation bytes :: "nat list \<Rightarrow> bool" where "bytes bs \<equiv> (\<forall>b \<in> set bs. b < 256)"

lemma lock_nat_bound: "bytes bs \<Longrightarrow> lock_nat bs < 256 ^ length bs"
proof (induction bs)
  case (Cons b bs)
  then have "lock_nat bs + 1 \<le> 256 ^ length bs" "b < 256" by auto
  then have "256 * (lock_nat bs + 1) \<le> 256 * 256 ^ length bs" by (intro mult_le_mono2)
  then show ?case using \<open>b < 256\<close> by simp
qed simp

lemma lock_nat_nth: "bytes bs \<Longrightarrow> k < length bs \<Longrightarrow> lock_nat bs div 256 ^ k mod 256 = bs ! k"
proof (induction bs arbitrary: k)
  case (Cons b bs)
  show ?case
  proof (cases k)
    case (Suc j)
    have "(b + 256 * lock_nat bs) div 256 ^ k = lock_nat bs div 256 ^ j"
      using Cons.prems(1) by (simp add: Suc div_mult2_eq)
    then show ?thesis using Cons by (simp add: Suc)
  qed (use Cons.prems in simp)
qed simp

lemma lock_nat_update: "k < length bs \<Longrightarrow> lock_nat (bs[k := b]) + 256 ^ k * bs ! k = lock_nat bs + 256 ^ k * b"
proof (induction bs arbitrary: k)
  case (Cons c bs)
  show ?case
  proof (cases k)
    case (Suc j)
    then have "lock_nat (bs[j := b]) + 256 ^ j * bs ! j = lock_nat bs + 256 ^ j * b" using Cons by simp
    then have "256 * (lock_nat (bs[j := b]) + 256 ^ j * bs ! j) = 256 * (lock_nat bs + 256 ^ j * b)" by (rule arg_cong)
    then show ?thesis by (simp add: Suc algebra_simps)
  qed simp
qed simp

definition lock_word :: "nat list \<Rightarrow> rw_word" where
  "lock_word bs = of_nat (lock_nat bs)"

abbreviation eight :: "nat list \<Rightarrow> bool" where "eight bs \<equiv> length bs = 8 \<and> bytes bs"

lemma unat_lock_word: "eight bs \<Longrightarrow> unat (lock_word bs) = lock_nat bs"
  using lock_nat_bound [of bs] by (simp add: lock_word_def unat_of_nat)

lemma rw_u08_lock_word: "eight bs \<Longrightarrow> k < 8 \<Longrightarrow> rw_u08 k (lock_word bs) = bs ! k"
  by (simp add: rw_u08_def unat_lock_word lock_nat_nth)

lemma lock_word_add: "k < length bs \<Longrightarrow> lock_word bs + of_nat (256 ^ k) = lock_word (bs[k := bs ! k + 1])"
proof -
  assume "k < length bs"
  from lock_nat_update [OF this, of "bs ! k + 1"] have "lock_nat (bs[k := bs ! k + 1]) = lock_nat bs + 256 ^ k" by simp
  then show ?thesis by (simp only: lock_word_def of_nat_add)
qed

lemma lock_word_clear:
  assumes "eight bs" "k < 8"
  shows "rw_clear k (lock_word bs) = lock_word (bs[k := 0])"
proof -
  have "lock_nat bs = lock_nat (bs[k := 0]) + 256 ^ k * bs ! k" using lock_nat_update [of k bs 0] assms by simp
  then have "lock_word bs = lock_word (bs[k := 0]) + of_nat (256 ^ k * bs ! k)" by (simp only: lock_word_def of_nat_add)
  then have "lock_word bs - of_nat (256 ^ k * bs ! k) = lock_word (bs[k := 0])" by simp
  then show ?thesis by (simp only: rw_clear_def rw_u08_lock_word [OF assms])
qed

text \<open>A byte that overflows carries into the byte above it.\<close>

lemma lock_word_carry:
  assumes "Suc k < length bs" "bs ! k = 256"
  shows "lock_word bs = lock_word (bs[k := 0, Suc k := bs ! Suc k + 1])"
proof -
  let ?cs = "bs[k := 0]"
  have "lock_nat ?cs + 256 ^ k * 256 = lock_nat bs" using lock_nat_update [of k bs 0] assms by simp
  moreover have "lock_nat (?cs[Suc k := ?cs ! Suc k + 1]) = lock_nat ?cs + 256 ^ Suc k"
    using lock_nat_update [of "Suc k" ?cs "?cs ! Suc k + 1"] assms(1) by simp
  ultimately have "lock_nat bs = lock_nat (?cs[Suc k := bs ! Suc k + 1])" by simp
  then show ?thesis by (simp only: lock_word_def)
qed

text \<open>Adding to a counter increments it modulo 256; the byte above grows by at most one.\<close>

lemma lock_word_inc:
  assumes bs: "eight bs" and k: "Suc k < 8" and c: "bs ! Suc k < 255"
  shows "\<exists>c \<le> bs ! Suc k + 1. lock_word bs + of_nat (256 ^ k) = lock_word (bs[k := (bs ! k + 1) mod 256, Suc k := c])"
proof (cases "bs ! k = 255")
  case True
  have "lock_word bs + of_nat (256 ^ k) = lock_word (bs[k := 256])" using lock_word_add [of k bs] k bs True by simp
  also have "\<dots> = lock_word (bs[k := 0, Suc k := bs ! Suc k + 1])"
    using lock_word_carry [of k "bs[k := 256]"] k bs by simp
  finally show ?thesis using True by (intro exI [of _ "bs ! Suc k + 1"]) simp
next
  case False
  have "bs ! k < 256" using bs k nth_mem [of k bs] by simp
  then have m: "(bs ! k + 1) mod 256 = bs ! k + 1" using False by simp
  have "lock_word bs + of_nat (256 ^ k) = lock_word (bs[k := bs ! k + 1])" using lock_word_add [of k bs] k bs by simp
  also have "bs[k := bs ! k + 1] = bs[k := (bs ! k + 1) mod 256, Suc k := bs ! Suc k]"
    unfolding m using list_update_id [of "bs[k := bs ! k + 1]" "Suc k"] by simp
  finally show ?thesis by (intro exI [of _ "bs ! Suc k"]) simp
qed


text \<open>The word of the three counters and the bytes above them.\<close>

definition rw_word_of :: "nat \<Rightarrow> nat \<Rightarrow> nat \<Rightarrow> nat \<Rightarrow> nat \<Rightarrow> nat \<Rightarrow> rw_word" where
  "rw_word_of W p1 R p3 T p5 = lock_word [W mod 256, p1, R mod 256, p3, T mod 256, p5, 0, 0]"

lemma rw_word_bytes:
  assumes "p1 < 256" "p3 < 256" "p5 < 256"
  shows "ticket_active_writer (rw_word_of W p1 R p3 T p5) = W mod 256"
    "ticket_active_reader (rw_word_of W p1 R p3 T p5) = R mod 256" "ticket_next (rw_word_of W p1 R p3 T p5) = T mod 256"
  using assms by (simp_all add: rw_word_of_def rw_u08_lock_word)

lemma set_byte:
  "[a, b, c, d, e, f, g, h][0 := x, 1 := y] = [x, y, c, d, e, f, g, h]"
  "[a, b, c, d, e, f, g, h][2 := x, 3 := y] = [a, b, x, y, e, f, g, h]"
  "[a, b, c, d, e, f, g, h][4 := x, 5 := y] = [a, b, c, d, x, y, g, h]"
  "[a, b, c, d, e, f, g, h][1 := x] = [a, x, c, d, e, f, g, h]"
  "[a, b, c, d, e, f, g, h][3 := x] = [a, b, c, x, e, f, g, h]"
  "[a, b, c, d, e, f, g, h][5 := x] = [a, b, c, d, e, x, g, h]"
  by (simp_all add: numeral_eq_Suc)

lemma rw_word_clear:
  assumes "p1 < 256" "p3 < 256" "p5 < 256"
  shows "rw_clear 1 (rw_word_of W p1 R p3 T p5) = rw_word_of W 0 R p3 T p5"
    "rw_clear 3 (rw_word_of W p1 R p3 T p5) = rw_word_of W p1 R 0 T p5"
    "rw_clear 5 (rw_word_of W p1 R p3 T p5) = rw_word_of W p1 R p3 T 0"
  using assms by (simp_all add: rw_word_of_def lock_word_clear)

lemma rw_word_inc:
  assumes "p1 < 256" "p3 < 256" "p5 < 256"
  shows "p1 < 255 \<Longrightarrow> \<exists>c \<le> p1 + 1. rw_word_of W p1 R p3 T p5 + SHF_RW_LOCK_INC_TICKET_NEXT_ACTIVE_WRITER = rw_word_of (Suc W) c R p3 T p5"
    "p3 < 255 \<Longrightarrow> \<exists>c \<le> p3 + 1. rw_word_of W p1 R p3 T p5 + SHF_RW_LOCK_INC_TICKET_NEXT_ACTIVE_READER = rw_word_of W p1 (Suc R) c T p5"
    "p5 < 255 \<Longrightarrow> \<exists>c \<le> p5 + 1. rw_word_of W p1 R p3 T p5 + SHF_RW_LOCK_INC_TICKET_NEXT = rw_word_of W p1 R p3 (Suc T) c"
proof -
  let ?bs = "[W mod 256, p1, R mod 256, p3, T mod 256, p5, 0, 0]"
  have bs: "eight ?bs" using assms by simp
  show "\<exists>c \<le> p1 + 1. rw_word_of W p1 R p3 T p5 + SHF_RW_LOCK_INC_TICKET_NEXT_ACTIVE_WRITER = rw_word_of (Suc W) c R p3 T p5"
    if "p1 < 255"
    using lock_word_inc [OF bs, of 0] that by (simp add: rw_word_of_def rw_incs mod_Suc_eq set_byte(1) [simplified])
  show "\<exists>c \<le> p3 + 1. rw_word_of W p1 R p3 T p5 + SHF_RW_LOCK_INC_TICKET_NEXT_ACTIVE_READER = rw_word_of W p1 (Suc R) c T p5"
    if "p3 < 255"
    using lock_word_inc [OF bs, of 2] that by (simp add: rw_word_of_def rw_incs mod_Suc_eq set_byte)
  show "\<exists>c \<le> p5 + 1. rw_word_of W p1 R p3 T p5 + SHF_RW_LOCK_INC_TICKET_NEXT = rw_word_of W p1 R p3 (Suc T) c"
    if "p5 < 255"
    using lock_word_inc [OF bs, of 4] that by (simp add: rw_word_of_def rw_incs mod_Suc_eq set_byte)
qed

section \<open>Counting threads\<close>

definition count :: "nat \<Rightarrow> (rw_pc \<Rightarrow> bool) \<Rightarrow> (nat \<Rightarrow> rw_pc) \<Rightarrow> nat" where
  "count n P pc = card {i. i < n \<and> P (pc i)}"

lemma count_upd:
  assumes "i < n"
  shows "count n P (pc(i := p)) + of_bool (P (pc i)) = count n P pc + of_bool (P p)"
proof -
  let ?A = "{j. j < n \<and> j \<noteq> i \<and> P (pc j)}"
  have f: "finite ?A" "i \<notin> ?A" by simp_all
  have "{j. j < n \<and> P (pc j)} = (if P (pc i) then insert i ?A else ?A)"
    "{j. j < n \<and> P ((pc(i := p)) j)} = (if P p then insert i ?A else ?A)" using assms by auto
  then show ?thesis unfolding count_def using f by simp
qed

lemma count_le: "i < n \<Longrightarrow> \<not> P (pc i) \<Longrightarrow> count n P pc < n"
proof -
  assume "i < n" "\<not> P (pc i)"
  then have "{j. j < n \<and> P (pc j)} \<subset> {..<n}" by auto
  then show ?thesis using psubset_card_mono [of "{..<n}"] by (simp add: count_def)
qed

lemma count_le_n: "count n P pc \<le> n"
  using card_mono [of "{..<n}" "{j. j < n \<and> P (pc j)}"] by (auto simp: count_def)

lemma count_0: "count n P pc = 0 \<longleftrightarrow> (\<forall>i < n. \<not> P (pc i))"
  by (auto simp: count_def)

lemma count_two:
  assumes "\<And>p. \<not> (P p \<and> Q p)"
  shows "count n P pc + count n Q pc \<le> n"
proof -
  have "{i. i < n \<and> P (pc i)} \<inter> {i. i < n \<and> Q (pc i)} = {}" using assms by auto
  then have "count n P pc + count n Q pc = card ({i. i < n \<and> P (pc i)} \<union> {i. i < n \<and> Q (pc i)})"
    by (simp add: count_def card_Un_disjoint)
  also have "\<dots> \<le> card {..<n}" by (rule card_mono) auto
  finally show ?thesis by simp
qed


section \<open>The tickets without a bound\<close>

text \<open>
  \<open>T\<close> tickets have been taken in all, \<open>R\<close> have been passed on to the next reader or writer, \<open>W\<close> have
  been given back; \<open>tk i\<close> is the ticket of thread \<open>i\<close>. The word holds the three numbers modulo 256.
\<close>

fun queued :: "rw_pc \<Rightarrow> bool" where
  "queued (W_ticket t) = True" | "queued (W_wait t) = True" | "queued W_held = True"
| "queued (R_ticket t) = True" | "queued (R_wait t) = True" | "queued R_enter = True" | "queued _ = False"

fun reading :: "rw_pc \<Rightarrow> bool" where
  "reading R_entered = True" | "reading R_held = True" | "reading _ = False"

fun stored :: "rw_pc \<Rightarrow> nat option" where
  "stored (W_ticket t) = Some t" | "stored (W_wait t) = Some t"
| "stored (R_ticket t) = Some t" | "stored (R_wait t) = Some t" | "stored _ = None"

fun carry1 :: "rw_pc \<Rightarrow> bool" where
  "carry1 W_leave1 = True" | "carry1 R_leave = True" | "carry1 _ = False"

fun carry3 :: "rw_pc \<Rightarrow> bool" where
  "carry3 W_leave1 = True" | "carry3 W_leave2 = True" | "carry3 R_entered = True" | "carry3 _ = False"

fun carry5 :: "rw_pc \<Rightarrow> bool" where
  "carry5 (W_ticket t) = True" | "carry5 (R_ticket t) = True" | "carry5 _ = False"

definition word_ok :: "nat \<Rightarrow> nat \<Rightarrow> nat \<Rightarrow> nat \<Rightarrow> rw_conf \<Rightarrow> bool" where
  "word_ok n W R T = (\<lambda>(pc, w). \<exists>p1 p3 p5. w = rw_word_of W p1 R p3 T p5
     \<and> p1 \<le> count n carry1 pc \<and> p3 \<le> count n carry3 pc \<and> p5 \<le> count n carry5 pc)"

definition tickets_ok :: "nat \<Rightarrow> nat \<Rightarrow> nat \<Rightarrow> nat \<Rightarrow> (nat \<Rightarrow> nat) \<Rightarrow> (nat \<Rightarrow> rw_pc) \<Rightarrow> bool" where
  "tickets_ok n W R T tk pc \<longleftrightarrow> R = W + count n reading pc \<and> T = R + count n queued pc
     \<and> (\<forall>i < n. queued (pc i) \<longrightarrow> R \<le> tk i \<and> tk i < T)
     \<and> (\<forall>i < n. \<forall>j < n. i \<noteq> j \<and> queued (pc i) \<and> queued (pc j) \<longrightarrow> tk i \<noteq> tk j)
     \<and> (\<forall>i < n. \<forall>t. stored (pc i) = Some t \<longrightarrow> t = tk i mod 256)
     \<and> (\<forall>i < n. pc i = R_enter \<or> pc i = W_held \<longrightarrow> tk i = R) \<and> (\<forall>i < n. pc i = W_held \<longrightarrow> count n reading pc = 0)"

definition rw_inv :: "nat \<Rightarrow> rw_conf \<Rightarrow> bool" where
  "rw_inv n c \<longleftrightarrow> (\<exists>W R T tk. word_ok n W R T c \<and> tickets_ok n W R T tk (fst c))"

lemma tickets_okD:
  assumes "tickets_ok n W R T tk pc"
  shows "R = W + count n reading pc" "T = R + count n queued pc" "i < n \<Longrightarrow> queued (pc i) \<Longrightarrow> R \<le> tk i \<and> tk i < T"
    "i < n \<Longrightarrow> j < n \<Longrightarrow> i \<noteq> j \<Longrightarrow> queued (pc i) \<Longrightarrow> queued (pc j) \<Longrightarrow> tk i \<noteq> tk j"
    "i < n \<Longrightarrow> stored (pc i) = Some t \<Longrightarrow> t = tk i mod 256"
    "i < n \<Longrightarrow> pc i = R_enter \<or> pc i = W_held \<Longrightarrow> tk i = R" "i < n \<Longrightarrow> pc i = W_held \<Longrightarrow> count n reading pc = 0"
  using assms unfolding tickets_ok_def by blast+

text \<open>No more tickets are out than there are threads.\<close>

lemma reading_queued: "\<not> (reading p \<and> queued p)"
  by (cases p) simp_all

lemma outstanding: "tickets_ok n W R T tk pc \<Longrightarrow> W \<le> R \<and> R \<le> T \<and> T \<le> W + n"
  using tickets_okD(1,2) [of n W R T tk pc] count_two [where P = reading and Q = queued and n = n and pc = pc, OF reading_queued] by simp

lemma mod_window: "a mod 256 = b mod 256 \<Longrightarrow> (a::nat) \<le> b \<Longrightarrow> b < a + 256 \<Longrightarrow> a = b"
  using mod_eq_dvd_iff_nat [of a b 256] by (cases "b - a = 0") (auto dest!: dvd_imp_le)

lemma word_okI: "p1 \<le> count n carry1 pc \<Longrightarrow> p3 \<le> count n carry3 pc \<Longrightarrow> p5 \<le> count n carry5 pc
    \<Longrightarrow> word_ok n W R T (pc, rw_word_of W p1 R p3 T p5)"
  by (auto simp: word_ok_def)

lemma word_okE:
  assumes "word_ok n W R T (pc, w)" "n < 256"
  obtains p1 p3 p5 where "w = rw_word_of W p1 R p3 T p5" "p1 \<le> count n carry1 pc" "p3 \<le> count n carry3 pc" "p5 \<le> count n carry5 pc"
    "p1 < 256" "p3 < 256" "p5 < 256"
proof -
  obtain p1 p3 p5 where p: "w = rw_word_of W p1 R p3 T p5" "p1 \<le> count n carry1 pc" "p3 \<le> count n carry3 pc" "p5 \<le> count n carry5 pc"
    using assms(1) unfolding word_ok_def prod.case by blast
  moreover have "count n carry1 pc < 256" "count n carry3 pc < 256" "count n carry5 pc < 256"
    using count_le_n [of n _ pc] assms(2) le_less_trans by blast+
  ultimately show thesis using that by simp
qed

text \<open>What the word says of a waiting thread is right.\<close>

lemma word_reads:
  assumes "word_ok n W R T (pc, w)" "n < 256"
  shows "ticket_active_writer w = W mod 256" "ticket_active_reader w = R mod 256" "ticket_next w = T mod 256"
proof -
  obtain p1 p3 p5 where p: "w = rw_word_of W p1 R p3 T p5" "p1 < 256" "p3 < 256" "p5 < 256"
    by (rule word_okE [OF assms])
  then show "ticket_active_writer w = W mod 256" "ticket_active_reader w = R mod 256" "ticket_next w = T mod 256"
    using rw_word_bytes [of p1 p3 p5] by simp_all
qed

text \<open>The steps on the word. A thread that adds has cleared its last carry.\<close>

lemma count_same: "i < n \<Longrightarrow> P p = P (pc i) \<Longrightarrow> count n P (pc(i := p)) = count n P pc"
  using count_upd [of i n P pc p] by simp

lemma count_more: "i < n \<Longrightarrow> \<not> P (pc i) \<Longrightarrow> P p \<Longrightarrow> count n P (pc(i := p)) = count n P pc + 1"
  using count_upd [of i n P pc p] by simp

lemma count_fewer: "i < n \<Longrightarrow> P (pc i) \<Longrightarrow> \<not> P p \<Longrightarrow> count n P pc = count n P (pc(i := p)) + 1"
  using count_upd [of i n P pc p] by simp

lemma word_inc:
  assumes ok: "word_ok n W R T (pc, w)" and i: "i < n" and n: "n < 256"
  shows "\<not> carry1 (pc i) \<Longrightarrow> carry1 p \<Longrightarrow> carry3 p = carry3 (pc i) \<Longrightarrow> carry5 p = carry5 (pc i)
      \<Longrightarrow> word_ok n (Suc W) R T (pc(i := p), w + SHF_RW_LOCK_INC_TICKET_NEXT_ACTIVE_WRITER)"
    "\<not> carry3 (pc i) \<Longrightarrow> carry3 p \<Longrightarrow> carry1 p = carry1 (pc i) \<Longrightarrow> carry5 p = carry5 (pc i)
      \<Longrightarrow> word_ok n W (Suc R) T (pc(i := p), w + SHF_RW_LOCK_INC_TICKET_NEXT_ACTIVE_READER)"
    "\<not> carry5 (pc i) \<Longrightarrow> carry5 p \<Longrightarrow> carry1 p = carry1 (pc i) \<Longrightarrow> carry3 p = carry3 (pc i)
      \<Longrightarrow> word_ok n W R (Suc T) (pc(i := p), w + SHF_RW_LOCK_INC_TICKET_NEXT)"
proof -
  obtain p1 p3 p5 where w: "w = rw_word_of W p1 R p3 T p5"
    and b: "p1 \<le> count n carry1 pc" "p3 \<le> count n carry3 pc" "p5 \<le> count n carry5 pc" and c: "p1 < 256" "p3 < 256" "p5 < 256"
    by (rule word_okE [OF ok n])
  note I = rw_word_inc [OF c, of W R T]
  have lt: "\<not> P (pc i) \<Longrightarrow> count n P pc < 255" for P using count_le [OF i, of P pc] n by simp
  note same = count_same [OF i, where pc = pc and p = p] and more = count_more [OF i, where pc = pc and p = p]
  show "word_ok n (Suc W) R T (pc(i := p), w + SHF_RW_LOCK_INC_TICKET_NEXT_ACTIVE_WRITER)"
    if h: "\<not> carry1 (pc i)" "carry1 p" "carry3 p = carry3 (pc i)" "carry5 p = carry5 (pc i)"
  proof -
    obtain d where "d \<le> p1 + 1" "w + SHF_RW_LOCK_INC_TICKET_NEXT_ACTIVE_WRITER = rw_word_of (Suc W) d R p3 T p5"
      using I(1) lt [of carry1, OF h(1)] b(1) w by auto
    then show ?thesis using b more [of carry1, OF h(1,2)] same [of carry3, OF h(3)] same [of carry5, OF h(4)] by (auto intro: word_okI)
  qed
  show "word_ok n W (Suc R) T (pc(i := p), w + SHF_RW_LOCK_INC_TICKET_NEXT_ACTIVE_READER)"
    if h: "\<not> carry3 (pc i)" "carry3 p" "carry1 p = carry1 (pc i)" "carry5 p = carry5 (pc i)"
  proof -
    obtain d where "d \<le> p3 + 1" "w + SHF_RW_LOCK_INC_TICKET_NEXT_ACTIVE_READER = rw_word_of W p1 (Suc R) d T p5"
      using I(2) lt [of carry3, OF h(1)] b(2) w by auto
    then show ?thesis using b more [of carry3, OF h(1,2)] same [of carry1, OF h(3)] same [of carry5, OF h(4)] by (auto intro: word_okI)
  qed
  show "word_ok n W R (Suc T) (pc(i := p), w + SHF_RW_LOCK_INC_TICKET_NEXT)"
    if h: "\<not> carry5 (pc i)" "carry5 p" "carry1 p = carry1 (pc i)" "carry3 p = carry3 (pc i)"
  proof -
    obtain d where "d \<le> p5 + 1" "w + SHF_RW_LOCK_INC_TICKET_NEXT = rw_word_of W p1 R p3 (Suc T) d"
      using I(3) lt [of carry5, OF h(1)] b(3) w by auto
    then show ?thesis using b more [of carry5, OF h(1,2)] same [of carry1, OF h(3)] same [of carry3, OF h(4)] by (auto intro: word_okI)
  qed
qed

lemma word_pad:
  assumes ok: "word_ok n W R T (pc, w)" and i: "i < n" and n: "n < 256"
  shows "carry1 p = carry1 (pc i) \<Longrightarrow> carry3 p = carry3 (pc i) \<Longrightarrow> carry5 p = carry5 (pc i) \<Longrightarrow> word_ok n W R T (pc(i := p), w)"
    "carry3 p = carry3 (pc i) \<Longrightarrow> carry5 p = carry5 (pc i) \<Longrightarrow> word_ok n W R T (pc(i := p), rw_clear 1 w)"
    "carry1 p = carry1 (pc i) \<Longrightarrow> carry5 p = carry5 (pc i) \<Longrightarrow> word_ok n W R T (pc(i := p), rw_clear 3 w)"
    "carry1 p = carry1 (pc i) \<Longrightarrow> carry3 p = carry3 (pc i) \<Longrightarrow> word_ok n W R T (pc(i := p), rw_clear 5 w)"
proof -
  obtain p1 p3 p5 where w: "w = rw_word_of W p1 R p3 T p5"
    and b: "p1 \<le> count n carry1 pc" "p3 \<le> count n carry3 pc" "p5 \<le> count n carry5 pc" and c: "p1 < 256" "p3 < 256" "p5 < 256"
    by (rule word_okE [OF ok n])
  note same = count_same [OF i, where pc = pc and p = p]
  show "carry1 p = carry1 (pc i) \<Longrightarrow> carry3 p = carry3 (pc i) \<Longrightarrow> carry5 p = carry5 (pc i) \<Longrightarrow> word_ok n W R T (pc(i := p), w)"
    using b unfolding w by (intro word_okI) (simp_all add: same)
  show "carry3 p = carry3 (pc i) \<Longrightarrow> carry5 p = carry5 (pc i) \<Longrightarrow> word_ok n W R T (pc(i := p), rw_clear 1 w)"
    using b unfolding w rw_word_clear [OF c] by (intro word_okI) (simp_all add: same)
  show "carry1 p = carry1 (pc i) \<Longrightarrow> carry5 p = carry5 (pc i) \<Longrightarrow> word_ok n W R T (pc(i := p), rw_clear 3 w)"
    using b unfolding w rw_word_clear [OF c] by (intro word_okI) (simp_all add: same)
  show "carry1 p = carry1 (pc i) \<Longrightarrow> carry3 p = carry3 (pc i) \<Longrightarrow> word_ok n W R T (pc(i := p), rw_clear 5 w)"
    using b unfolding w rw_word_clear [OF c] by (intro word_okI) (simp_all add: same)
qed

text \<open>The steps on the tickets.\<close>

lemma tickets_take:
  assumes ok: "tickets_ok n W R T tk pc" and i: "i < n" "pc i = Idle" and p: "p = W_ticket (T mod 256) \<or> p = R_ticket (T mod 256)"
  shows "tickets_ok n W R (Suc T) (tk(i := T)) (pc(i := p))"
proof -
  note D = tickets_okD [OF ok]
  have c: "count n reading (pc(i := p)) = count n reading pc" "count n queued (pc(i := p)) = count n queued pc + 1"
    using i p count_same [OF i(1), of reading p pc] count_more [OF i(1), of queued pc p] by auto
  have RT: "R \<le> T" using outstanding [OF ok] by simp
  show ?thesis unfolding tickets_ok_def c
  proof (intro conjI allI impI)
    show "R = W + count n reading pc" "Suc T = R + (count n queued pc + 1)" using D(1,2) by simp_all
    show "R \<le> (tk(i := T)) j" "(tk(i := T)) j < Suc T" if "j < n" "queued ((pc(i := p)) j)" for j
      using D(3) [of j] that RT by (auto split: if_splits)
    show "(tk(i := T)) j \<noteq> (tk(i := T)) k" if "j < n" "k < n" "j \<noteq> k \<and> queued ((pc(i := p)) j) \<and> queued ((pc(i := p)) k)" for j k
      using D(4) [of j k] D(3) [of j] D(3) [of k] that by (auto split: if_splits)
    show "t = (tk(i := T)) j mod 256" if "j < n" "stored ((pc(i := p)) j) = Some t" for j t
      using D(5) [of j t] that p by (auto split: if_splits)
    show "(tk(i := T)) j = R" if "j < n" "(pc(i := p)) j = R_enter \<or> (pc(i := p)) j = W_held" for j
      using D(6) [of j] that p by (auto split: if_splits)
    show "count n reading pc = 0" if "j < n" "(pc(i := p)) j = W_held" for j
      using D(7) [of j] that p by (auto split: if_splits)
  qed
qed

text \<open>A step that keeps the ticket and does not enter or leave.\<close>

lemma tickets_same:
  assumes ok: "tickets_ok n W R T tk pc" and i: "i < n"
    and p: "queued p = queued (pc i)" "reading p = reading (pc i)" "stored p = None \<or> stored p = stored (pc i)"
      "p = R_enter \<or> p = W_held \<Longrightarrow> tk i = R" "p = W_held \<Longrightarrow> R = W"
  shows "tickets_ok n W R T tk (pc(i := p))"
proof -
  note D = tickets_okD [OF ok]
  have c: "count n reading (pc(i := p)) = count n reading pc" "count n queued (pc(i := p)) = count n queued pc"
    using count_same [OF i, of reading p pc] count_same [OF i, of queued p pc] p by auto
  show ?thesis unfolding tickets_ok_def c
  proof (intro conjI allI impI)
    show "R = W + count n reading pc" "T = R + count n queued pc" using D(1,2) by simp_all
    show "R \<le> tk j" "tk j < T" if "j < n" "queued ((pc(i := p)) j)" for j
      using D(3) [of j] that p(1) by (auto split: if_splits)
    show "tk j \<noteq> tk k" if "j < n" "k < n" "j \<noteq> k \<and> queued ((pc(i := p)) j) \<and> queued ((pc(i := p)) k)" for j k
      using D(4) [of j k] that p(1) by (auto split: if_splits)
    show "t = tk j mod 256" if "j < n" "stored ((pc(i := p)) j) = Some t" for j t
      using D(5) [of j t] that p(3) by (auto split: if_splits)
    show "tk j = R" if "j < n" "(pc(i := p)) j = R_enter \<or> (pc(i := p)) j = W_held" for j
      using D(6) [of j] that p(4) by (auto split: if_splits)
    show "count n reading pc = 0" if "j < n" "(pc(i := p)) j = W_held" for j
      using D(7) [of j] that p(5) D(1) by (auto split: if_splits)
  qed
qed

text \<open>The thread at the front passes its ticket on: a writer that releases, or a reader that enters.\<close>

lemma tickets_front:
  assumes ok: "tickets_ok n W R T tk pc" and i: "i < n" "queued (pc i)" "tk i = R"
    and p: "\<not> queued p" "W' + of_bool (reading p) = Suc W"
      "W' = Suc W \<Longrightarrow> R = W"
  shows "tickets_ok n W' (Suc R) T tk (pc(i := p))"
proof -
  note D = tickets_okD [OF ok]
  have nr: "\<not> reading (pc i)" using reading_queued i(2) by blast
  have c: "count n reading (pc(i := p)) = count n reading pc + of_bool (reading p)" "count n queued pc = count n queued (pc(i := p)) + 1"
    using count_upd [OF i(1), of reading pc p] count_fewer [OF i(1), of queued pc p] i(2) p(1) nr by simp_all
  have other: "tk j \<noteq> R" if "j < n" "j \<noteq> i" "queued (pc j)" for j using D(4) [OF that(1) i(1)] that i by simp
  have st: "stored p = None" using p(1) by (cases p) simp_all
  have front: "p \<noteq> R_enter" "p \<noteq> W_held" using p(1) by auto
  have no: "pc j \<noteq> R_enter \<and> pc j \<noteq> W_held" if "j < n" "j \<noteq> i" for j using other [OF that] D(6) [OF that(1)] by auto
  show ?thesis unfolding tickets_ok_def c(1)
  proof (intro conjI allI impI)
    show "Suc R = W' + (count n reading pc + of_bool (reading p))" using D(1) p(2) by simp
    show "T = Suc R + count n queued (pc(i := p))" using D(2) c(2) by simp
    show "Suc R \<le> tk j" "tk j < T" if "j < n" "queued ((pc(i := p)) j)" for j
    proof -
      have "j \<noteq> i" "queued (pc j)" using that(2) p(1) by (auto split: if_splits)
      then show "Suc R \<le> tk j" "tk j < T" using other [OF that(1)] D(3) [OF that(1)] by auto
    qed
    show "tk j \<noteq> tk k" if "j < n" "k < n" "j \<noteq> k \<and> queued ((pc(i := p)) j) \<and> queued ((pc(i := p)) k)" for j k
      using D(4) [of j k] that p(1) by (auto split: if_splits)
    show "t = tk j mod 256" if "j < n" "stored ((pc(i := p)) j) = Some t" for j t
      using D(5) [of j t] that st by (auto split: if_splits)
    show "tk j = Suc R" if "j < n" "(pc(i := p)) j = R_enter \<or> (pc(i := p)) j = W_held" for j
      using no [OF that(1)] that(2) front by (auto split: if_splits)
    show "count n reading pc + of_bool (reading p) = 0" if "j < n" "(pc(i := p)) j = W_held" for j
      using no [OF that(1)] that(2) front by (auto split: if_splits)
  qed
qed

text \<open>A reader gives its ticket back.\<close>

lemma tickets_leave:
  assumes ok: "tickets_ok n W R T tk pc" and i: "i < n" "pc i = R_held"
  shows "tickets_ok n (Suc W) R T tk (pc(i := R_leave))"
proof -
  note D = tickets_okD [OF ok]
  have c: "count n reading pc = count n reading (pc(i := R_leave)) + 1" "count n queued (pc(i := R_leave)) = count n queued pc"
    using count_fewer [OF i(1), of reading pc R_leave] count_same [OF i(1), of queued R_leave pc] i(2) by simp_all
  show ?thesis unfolding tickets_ok_def c(2)
  proof (intro conjI allI impI)
    show "R = Suc W + count n reading (pc(i := R_leave))" "T = R + count n queued pc" using D(1,2) c(1) by simp_all
    show "R \<le> tk j" "tk j < T" if "j < n" "queued ((pc(i := R_leave)) j)" for j
      using D(3) [of j] that by (auto split: if_splits)
    show "tk j \<noteq> tk k" if "j < n" "k < n" "j \<noteq> k \<and> queued ((pc(i := R_leave)) j) \<and> queued ((pc(i := R_leave)) k)" for j k
      using D(4) [of j k] that by (auto split: if_splits)
    show "t = tk j mod 256" if "j < n" "stored ((pc(i := R_leave)) j) = Some t" for j t
      using D(5) [of j t] that by (auto split: if_splits)
    show "tk j = R" if "j < n" "(pc(i := R_leave)) j = R_enter \<or> (pc(i := R_leave)) j = W_held" for j
      using D(6) [of j] that by (auto split: if_splits)
    show "count n reading (pc(i := R_leave)) = 0" if "j < n" "(pc(i := R_leave)) j = W_held" for j
      using D(7) [of j] that c(1) by (auto split: if_splits)
  qed
qed


section \<open>The invariant\<close>

lemma front_ticket:
  assumes ok: "tickets_ok n W R T tk pc" and n: "n < 256" and i: "i < n" "queued (pc i)" "tk i mod 256 = X mod 256" "W \<le> X" "X \<le> R"
  shows "tk i = X" "X = R"
proof -
  have "X \<le> tk i" "tk i < X + 256" using tickets_okD(3) [OF ok i(1,2)] outstanding [OF ok] i(4,5) n by auto
  then show "tk i = X" using mod_window [of X "tk i"] i(3) by simp
  then show "X = R" using tickets_okD(3) [OF ok i(1,2)] i(5) by simp
qed

lemma rw_invI: "word_ok n W R T (pc, w) \<Longrightarrow> tickets_ok n W R T tk pc \<Longrightarrow> rw_inv n (pc, w)"
  by (auto simp: rw_inv_def)

text \<open>Every step of every function keeps the invariant.\<close>

definition keeps :: "nat \<Rightarrow> (rw_pc \<times> rw_word \<Rightarrow> rw_pc \<times> rw_word \<Rightarrow> bool) \<Rightarrow> bool" where
  "keeps n f \<longleftrightarrow> (\<forall>pc w i p w'. rw_inv n (pc, w) \<longrightarrow> i < n \<longrightarrow> f (pc i, w) (p, w') \<longrightarrow> rw_inv n (pc(i := p), w'))"

lemma keepsI:
  assumes "\<And>W R T tk pc w i p w'. word_ok n W R T (pc, w) \<Longrightarrow> tickets_ok n W R T tk pc \<Longrightarrow> i < n \<Longrightarrow> f (pc i, w) (p, w')
    \<Longrightarrow> rw_inv n (pc(i := p), w')"
  shows "keeps n f"
  using assms unfolding keeps_def rw_inv_def fst_conv by blast

lemma keeps_lock_writer:
  assumes n: "n < 256"
  shows "keeps n shf_rw_lock_writer"
proof (rule keepsI)
  fix W R T tk pc w i p w'
  assume ok: "word_ok n W R T (pc, w)" "tickets_ok n W R T tk pc" and i: "i < n" and st: "shf_rw_lock_writer (pc i, w) (p, w')"
  note D = tickets_okD [OF ok(2)] and reads = word_reads [OF ok(1) n]
  note inc = word_inc [OF ok(1) i n, of p] and pad = word_pad [OF ok(1) i n, of p]
  note same = tickets_same [OF ok(2) i, of p]
  from st show "rw_inv n (pc(i := p), w')"
  proof cases
    case w_take
    then show ?thesis using rw_invI [OF inc(3) tickets_take [OF ok(2) i]] reads by simp
  next
    case (w_pad t)
    then show ?thesis using rw_invI [OF pad(4) same] by simp
  next
    case (w_enter t)
    have "tk i mod 256 = W mod 256" using D(5) [OF i, of t] w_enter reads(1) by simp
    moreover have "queued (pc i)" "W \<le> W" "W \<le> R" using w_enter outstanding [OF ok(2)] by simp_all
    ultimately have eq: "tk i = W" "W = R" using front_ticket [OF ok(2) n i] by blast+
    have "tickets_ok n W R T tk (pc(i := p))" by (rule same) (simp_all add: w_enter eq)
    then show ?thesis using rw_invI [OF pad(1)] w_enter by simp
  qed
qed

lemma keeps_unlock_writer:
  assumes n: "n < 256"
  shows "keeps n shf_rw_unlock_writer"
proof (rule keepsI)
  fix W R T tk pc w i p w'
  assume ok: "word_ok n W R T (pc, w)" "tickets_ok n W R T tk pc" and i: "i < n" and st: "shf_rw_unlock_writer (pc i, w) (p, w')"
  note D = tickets_okD [OF ok(2)]
  note pad = word_pad [OF ok(1) i n, of p] and same = tickets_same [OF ok(2) i, of p]
  from st show "rw_inv n (pc(i := p), w')"
  proof cases
    case w_release
    have R: "tk i = R" "R = W" using D(1) D(6) [OF i] D(7) [OF i] w_release by simp_all
    have "word_ok n (Suc W) R T (pc(i := R_leave), w + SHF_RW_LOCK_INC_TICKET_NEXT_ACTIVE_WRITER)"
      using word_inc(1) [OF ok(1) i n, of R_leave] w_release by simp
    from word_inc(2) [OF this i n, of W_leave1]
    have "word_ok n (Suc W) (Suc R) T (pc(i := W_leave1), w')" using w_release by (simp add: add.assoc)
    moreover have "tickets_ok n (Suc W) (Suc R) T tk (pc(i := W_leave1))"
      using tickets_front [OF ok(2) i, of W_leave1 "Suc W"] R w_release by simp
    ultimately show ?thesis using w_release by (auto intro: rw_invI)
  next
    case w_pad1
    then show ?thesis using rw_invI [OF pad(2) same] by simp
  next
    case w_pad2
    then show ?thesis using rw_invI [OF pad(3) same] by simp
  qed
qed

lemma keeps_lock_reader:
  assumes n: "n < 256"
  shows "keeps n shf_rw_lock_reader"
proof (rule keepsI)
  fix W R T tk pc w i p w'
  assume ok: "word_ok n W R T (pc, w)" "tickets_ok n W R T tk pc" and i: "i < n" and st: "shf_rw_lock_reader (pc i, w) (p, w')"
  note D = tickets_okD [OF ok(2)] and reads = word_reads [OF ok(1) n]
  note inc = word_inc [OF ok(1) i n, of p] and pad = word_pad [OF ok(1) i n, of p]
  note same = tickets_same [OF ok(2) i, of p]
  from st show "rw_inv n (pc(i := p), w')"
  proof cases
    case r_take
    then show ?thesis using rw_invI [OF inc(3) tickets_take [OF ok(2) i]] reads by simp
  next
    case (r_pad t)
    then show ?thesis using rw_invI [OF pad(4) same] by simp
  next
    case (r_enter t)
    have "tk i mod 256 = R mod 256" using D(5) [OF i, of t] r_enter reads(2) by simp
    moreover have "queued (pc i)" "W \<le> R" "R \<le> R" using r_enter outstanding [OF ok(2)] by simp_all
    ultimately have "tk i = R" using front_ticket(1) [OF ok(2) n i] by blast
    then show ?thesis using rw_invI [OF pad(1) same] r_enter by simp
  next
    case r_next
    have "tk i = R" using D(6) [OF i] r_next by simp
    then show ?thesis using rw_invI [OF inc(2) tickets_front [OF ok(2) i, of p W]] r_next by simp
  next
    case r_pad3
    then show ?thesis using rw_invI [OF pad(3) same] by simp
  qed
qed

lemma keeps_unlock_reader:
  assumes n: "n < 256"
  shows "keeps n shf_rw_unlock_reader"
proof (rule keepsI)
  fix W R T tk pc w i p w'
  assume ok: "word_ok n W R T (pc, w)" "tickets_ok n W R T tk pc" and i: "i < n" and st: "shf_rw_unlock_reader (pc i, w) (p, w')"
  from st show "rw_inv n (pc(i := p), w')"
  proof cases
    case r_release
    then show ?thesis using rw_invI [OF word_inc(1) [OF ok(1) i n, of p]] tickets_leave [OF ok(2) i] by simp
  next
    case r_pad1
    then show ?thesis using rw_invI [OF word_pad(2) [OF ok(1) i n, of p] tickets_same [OF ok(2) i, of p]] by simp
  qed
qed

lemma rw_inv_step: "n < 256 \<Longrightarrow> rw_inv n (pc, w) \<Longrightarrow> i < n \<Longrightarrow> rw_thread (pc i, w) (p, w') \<Longrightarrow> rw_inv n (pc(i := p), w')"
  using keeps_lock_writer [of n] keeps_unlock_writer [of n] keeps_lock_reader [of n] keeps_unlock_reader [of n]
  unfolding rw_thread.simps keeps_def by blast

lemma rw_inv_start: "rw_inv n rw_start"
proof -
  have "rw_word_of 0 0 0 0 0 0 = 0" by (simp add: rw_word_of_def lock_word_def)
  then have "word_ok n 0 0 0 rw_start" unfolding word_ok_def rw_start_def prod.case by (intro exI [of _ 0]) simp
  moreover have "tickets_ok n 0 0 0 (\<lambda>_. 0) (fst rw_start)"
    by (simp add: tickets_ok_def rw_start_def count_0)
  ultimately show ?thesis unfolding rw_inv_def by blast
qed

lemma rw_inv_reach:
  assumes "n < 256" "rw_reach n c"
  shows "rw_inv n c"
  using assms(2)
proof (induction rule: rtranclp_induct)
  case (step c d)
  from step.hyps(2) step.IH show ?case by cases (auto intro: rw_inv_step [OF assms(1)])
qed (rule rw_inv_start)

lemma not_spinning:
  assumes "\<And>t. p \<noteq> W_wait t \<and> p \<noteq> R_wait t"
  shows "\<exists>c. rw_thread (p, w) c"
  using assms
  by (cases p)
    (use rw_thread.intros shf_rw_lock_writer.intros shf_rw_unlock_writer.intros shf_rw_lock_reader.intros shf_rw_unlock_reader.intros
      in \<open>metis\<close>)+

section \<open>Runs of several threads\<close>

lemma reach_step: "rw_reach n (pc, w) \<Longrightarrow> i < n \<Longrightarrow> rw_thread (pc i, w) (p, w') \<Longrightarrow> rw_reach n (pc(i := p), w')"
  by (rule rtranclp.rtrancl_into_rtrancl) (auto intro: rw_step.intros)

lemma rw_word_zero: "rw_word_of 0 0 0 0 0 0 = 0"
  by (simp add: rw_word_of_def lock_word_def)

text \<open>Writers that take tickets one after the other, while none enters.\<close>

definition waiting :: "nat \<Rightarrow> nat \<Rightarrow> rw_pc" where
  "waiting k i = (if i < k then W_wait (i mod 256) else Idle)"

lemma reach_waiting: "k \<le> n \<Longrightarrow> rw_reach n (waiting k, rw_word_of 0 0 0 0 k 0)"
proof (induction k)
  case 0
  have "waiting 0 = (\<lambda>_. Idle)" by (simp add: waiting_def fun_eq_iff)
  then show ?case by (simp add: rw_word_zero rw_start_def)
next
  case (Suc k)
  let ?w = "rw_word_of 0 0 0 0 k 0"
  obtain c where c: "c \<le> 1" "?w + SHF_RW_LOCK_INC_TICKET_NEXT = rw_word_of 0 0 0 0 (Suc k) c"
    using rw_word_inc(3) [of 0 0 0 0 0 k] by auto
  have k: "k < n" using Suc.prems by simp
  have "rw_thread (waiting k k, ?w) (W_ticket (k mod 256), rw_word_of 0 0 0 0 (Suc k) c)"
    using w_take [of ?w] rw_word_bytes [of 0 0 0 0 0 k] c(2) by (simp add: waiting_def rw_thread.intros(1))
  with Suc have "rw_reach n ((waiting k)(k := W_ticket (k mod 256)), rw_word_of 0 0 0 0 (Suc k) c)"
    by (intro reach_step) simp_all
  moreover have "rw_thread (W_ticket (k mod 256), rw_word_of 0 0 0 0 (Suc k) c) (W_wait (k mod 256), rw_word_of 0 0 0 0 (Suc k) 0)"
    using w_pad [of "k mod 256" "rw_word_of 0 0 0 0 (Suc k) c"] rw_word_clear(3) [of 0 0 c 0 0 "Suc k"] c(1)
    by (simp add: rw_thread.intros(1))
  ultimately have "rw_reach n ((waiting k)(k := W_ticket (k mod 256), k := W_wait (k mod 256)), rw_word_of 0 0 0 0 (Suc k) 0)"
    using reach_step [of n "(waiting k)(k := W_ticket (k mod 256))" "rw_word_of 0 0 0 0 (Suc k) c" k] k by simp
  moreover have "(waiting k)(k := W_ticket (k mod 256), k := W_wait (k mod 256)) = waiting (Suc k)"
    by (auto simp: waiting_def fun_eq_iff)
  ultimately show ?case by simp
qed

lemma waiting_enter:
  assumes "rw_reach n (pc, rw_word_of 0 0 0 0 k 0)" "i < n" "pc i = W_wait 0"
  shows "rw_reach n (pc(i := W_held), rw_word_of 0 0 0 0 k 0)"
proof -
  have "rw_thread (pc i, rw_word_of 0 0 0 0 k 0) (W_held, rw_word_of 0 0 0 0 k 0)"
    using w_enter [of 0 "rw_word_of 0 0 0 0 k 0"] rw_word_bytes(1) [of 0 0 0 0 0 k] assms(3) by (simp add: rw_thread.intros(1))
  then show ?thesis using reach_step [OF assms(1,2)] by blast
qed

text \<open>Readers that enter one after the other, while none leaves.\<close>

definition inside :: "nat \<Rightarrow> nat \<Rightarrow> rw_pc" where
  "inside k i = (if i < k then R_held else Idle)"

lemma reach_inside: "k \<le> n \<Longrightarrow> rw_reach n (inside k, rw_word_of 0 0 k 0 k 0)"
proof (induction k)
  case 0
  have "inside 0 = (\<lambda>_. Idle)" by (simp add: inside_def fun_eq_iff)
  then show ?case by (simp add: rw_word_zero rw_start_def)
next
  case (Suc k)
  let ?t = "k mod 256"
  have k: "k < n" using Suc.prems by simp
  obtain c where c: "c \<le> 1" "rw_word_of 0 0 k 0 k 0 + SHF_RW_LOCK_INC_TICKET_NEXT = rw_word_of 0 0 k 0 (Suc k) c"
    using rw_word_inc(3) [of 0 0 0 0 k k] by auto
  obtain d where d: "d \<le> 1" "rw_word_of 0 0 k 0 (Suc k) 0 + SHF_RW_LOCK_INC_TICKET_NEXT_ACTIVE_READER = rw_word_of 0 0 (Suc k) d (Suc k) 0"
    using rw_word_inc(2) [of 0 0 0 0 k "Suc k"] by auto
  note R = reach_step [OF _ k]
  have "rw_reach n ((inside k)(k := R_ticket ?t), rw_word_of 0 0 k 0 (Suc k) c)"
    using R [OF Suc.IH, of "R_ticket ?t"] Suc.prems r_take [of "rw_word_of 0 0 k 0 k 0"] rw_word_bytes(3) [of 0 0 0 0 k k] c(2)
    by (simp add: inside_def [of k k] rw_thread.intros(3))
  from R [OF this, of "R_wait ?t" "rw_word_of 0 0 k 0 (Suc k) 0"]
  have "rw_reach n ((inside k)(k := R_wait ?t), rw_word_of 0 0 k 0 (Suc k) 0)"
    using r_pad [of ?t "rw_word_of 0 0 k 0 (Suc k) c"] rw_word_clear(3) [of 0 0 c 0 k "Suc k"] c(1)
    by (simp add: rw_thread.intros(3))
  from R [OF this, of R_enter "rw_word_of 0 0 k 0 (Suc k) 0"]
  have "rw_reach n ((inside k)(k := R_enter), rw_word_of 0 0 k 0 (Suc k) 0)"
    using r_enter [of ?t "rw_word_of 0 0 k 0 (Suc k) 0"] rw_word_bytes(2) [of 0 0 0 0 k "Suc k"] by (simp add: rw_thread.intros(3))
  from R [OF this, of R_entered "rw_word_of 0 0 (Suc k) d (Suc k) 0"]
  have "rw_reach n ((inside k)(k := R_entered), rw_word_of 0 0 (Suc k) d (Suc k) 0)"
    using r_next [of "rw_word_of 0 0 k 0 (Suc k) 0"] d(2) by (simp add: rw_thread.intros(3))
  from R [OF this, of R_held "rw_word_of 0 0 (Suc k) 0 (Suc k) 0"]
  have "rw_reach n ((inside k)(k := R_held), rw_word_of 0 0 (Suc k) 0 (Suc k) 0)"
    using r_pad3 [of "rw_word_of 0 0 (Suc k) d (Suc k) 0"] rw_word_clear(2) [of 0 d 0 0 "Suc k" "Suc k"] d(1)
    by (simp add: rw_thread.intros(3))
  moreover have "(inside k)(k := R_held) = inside (Suc k)" by (auto simp: inside_def fun_eq_iff)
  ultimately show ?case by simp
qed

section \<open>Properties of the lock\<close>

definition holds_lock :: "rw_pc \<Rightarrow> bool" where
  "holds_lock p \<longleftrightarrow> p = W_held \<or> p = R_enter \<or> p = R_entered \<or> p = R_held"

lemma rw_inv_exclusive:
  assumes "rw_inv n (pc, w)" "i < n" "j < n" "i \<noteq> j" "pc i = W_held"
  shows "\<not> holds_lock (pc j)"
proof -
  obtain W R T tk where ok: "tickets_ok n W R T tk pc" using assms(1) by (auto simp: rw_inv_def)
  note D = tickets_okD [OF ok]
  have "pc j \<noteq> W_held \<and> pc j \<noteq> R_enter"
    using D(4) [OF assms(2-4)] D(6) [OF assms(2)] D(6) [OF assms(3)] assms(5) by auto
  moreover have "\<not> reading (pc j)" using D(7) [OF assms(2,5)] assms(3) by (simp add: count_0)
  ultimately show ?thesis by (auto simp: holds_lock_def)
qed

text \<open>
  C29. While a thread has the lock as a writer no other thread has it, neither as a writer nor as a
  reader, with up to 255 threads that lock and unlock in any interleaving of their instructions.
\<close>

theorem rw_lock_exclusion:
  assumes "n < 256" "rw_reach n (pc, w)" "i < n" "j < n" "i \<noteq> j" "pc i = W_held"
  shows "\<not> holds_lock (pc j)"
  by (rule rw_inv_exclusive [OF rw_inv_reach [OF assms(1,2)] assms(3-6)])

theorem rw_lock_exclusion_witness: "\<exists>pc w. rw_reach 2 (pc, w) \<and> pc 0 = W_held \<and> pc 1 = W_wait 1 \<and> \<not> holds_lock (pc 1)"
proof -
  have r: "rw_reach 2 ((waiting 2)(0 := W_held), rw_word_of 0 0 0 0 2 0)"
    using waiting_enter [OF reach_waiting [of 2 2], of 0] by (simp add: waiting_def)
  have "\<not> holds_lock (((waiting 2)(0 := W_held)) 1)" by (rule rw_lock_exclusion [OF _ r, of 0 1]) simp_all
  moreover have "((waiting 2)(0 := W_held)) 1 = W_wait 1" by (simp add: waiting_def)
  ultimately show ?thesis using r by (intro exI [of _ "(waiting 2)(0 := W_held)"] exI [of _ "rw_word_of 0 0 0 0 2 0"]) simp
qed



text \<open>
  Readers share the lock: any number of threads can have it at the same time as readers.
\<close>

theorem rw_readers_share: "\<exists>w. rw_reach n (\<lambda>i. if i < n then R_held else Idle, w)"
proof -
  have "inside n = (\<lambda>i. if i < n then R_held else Idle)" by (simp add: inside_def fun_eq_iff)
  then show ?thesis using reach_inside [of n n] by auto
qed

text \<open>
  C32. The bound on the number of threads matters: tickets are compared in one byte, so the 257th
  writer that queues gets the ticket of the first one and enters while that one still has the lock.
\<close>

theorem rw_lock_wraps: "\<exists>pc w. rw_reach 257 (pc, w) \<and> pc 0 = W_held \<and> pc 256 = W_held"
proof -
  have "rw_reach 257 ((waiting 257)(0 := W_held), rw_word_of 0 0 0 0 257 0)"
    using waiting_enter [OF reach_waiting [of 257 257], of 0] by (simp add: waiting_def)
  from waiting_enter [OF this, of 256]
  have "rw_reach 257 ((waiting 257)(0 := W_held, 256 := W_held), rw_word_of 0 0 0 0 257 0)" by (simp add: waiting_def)
  then show ?thesis
    by (intro exI [of _ "(waiting 257)(0 := W_held, 256 := W_held)"] exI [of _ "rw_word_of 0 0 0 0 257 0"]) simp
qed

end
