(* ===== verification/Shf_Guard.thy ===== *)
theory Shf_Guard
  imports Shf_RwLock
begin

text \<open>
  What runs under a readers-writer lock is one step: the link between \<open>Shf_RwLock\<close>, where every
  instruction of the lock is a step, and \<open>Shf_Multi\<close>, where a locked section is one. The code between
  \<open>SHF_LOCK_WRITER\<close> and \<open>SHF_UNLOCK_WRITER\<close>, or between the reader's macros, is a list of memory accesses; the
  accesses of all threads and the instructions of the lock interleave.
\<close>

section \<open>Threads with sections\<close>

text \<open>
  An access works on the memory that the lock guards and on what the thread has of its own. Nothing keeps a
  section that is run as a reader from writing to the guarded memory.
\<close>

type_synonym ('d, 'p) access = "'d \<times> 'p \<Rightarrow> 'd \<times> 'p"

definition reads_only :: "('d, 'p) access list \<Rightarrow> bool" where
  "reads_only ms \<longleftrightarrow> (\<forall>m \<in> set ms. \<forall>d p. fst (m (d, p)) = d)"

definition run_section :: "('d, 'p) access list \<Rightarrow> 'd \<times> 'p \<Rightarrow> 'd \<times> 'p" where
  "run_section ms = fold (\<lambda>m x. m x) ms"

text \<open>
  The state: the program counters in the lock and its word, the memory, the private parts, the accesses
  each thread still has to make before it unlocks, and the sections in the order in which they began, each
  with its thread and whether it runs as a reader.
\<close>

record ('d, 'p) guarded =
  pcs :: "nat \<Rightarrow> rw_pc"
  word :: rw_word
  memory :: 'd
  own_part :: "nat \<Rightarrow> 'p"
  left :: "nat \<Rightarrow> ('d, 'p) access list"
  begun :: "(nat \<times> bool \<times> ('d, 'p) access list) list"

definition guard_start :: "'d \<Rightarrow> (nat \<Rightarrow> 'p) \<Rightarrow> ('d, 'p) guarded" where
  "guard_start d ps = \<lparr>pcs = fst rw_start, word = snd rw_start, memory = d, own_part = ps, left = (\<lambda>_. []), begun = []\<rparr>"

abbreviation holding :: "rw_pc \<Rightarrow> bool" where
  "holding p \<equiv> p = W_held \<or> p = R_held"

inductive guard_step :: "nat \<Rightarrow> ('d, 'p) guarded \<Rightarrow> ('d, 'p) guarded \<Rightarrow> bool" for n where
  lock_instruction: "i < n \<Longrightarrow> rw_thread (pcs st i, word st) (p, w) \<Longrightarrow> \<not> holding p \<Longrightarrow> left st i = []
     \<Longrightarrow> guard_step n st (st\<lparr>pcs := (pcs st)(i := p), word := w\<rparr>)"
| begin_section: "i < n \<Longrightarrow> rw_thread (pcs st i, word st) (p, w) \<Longrightarrow> holding p
     \<Longrightarrow> guard_step n st (st\<lparr>pcs := (pcs st)(i := p), word := w, left := (left st)(i := ms), begun := begun st @ [(i, p = R_held, ms)]\<rparr>)"
| access: "i < n \<Longrightarrow> holding (pcs st i) \<Longrightarrow> left st i = m # ms \<Longrightarrow> m (memory st, own_part st i) = (d, p)
     \<Longrightarrow> guard_step n st (st\<lparr>memory := d, own_part := (own_part st)(i := p), left := (left st)(i := ms)\<rparr>)"

text \<open>The same sections, each as one step.\<close>

fun section_step :: "nat \<times> bool \<times> ('d, 'p) access list \<Rightarrow> 'd \<times> (nat \<Rightarrow> 'p) \<Rightarrow> 'd \<times> (nat \<Rightarrow> 'p)" where
  "section_step (i, r, ms) (d, ps) = (let (d, p) = run_section ms (d, ps i) in (d, ps(i := p)))"

definition in_order :: "(nat \<times> bool \<times> ('d, 'p) access list) list \<Rightarrow> 'd \<times> (nat \<Rightarrow> 'p) \<Rightarrow> 'd \<times> (nat \<Rightarrow> 'p)" where
  "in_order hs x = fold section_step hs x"

text \<open>Whether the sections that ran as readers have left the guarded memory alone.\<close>

definition readers_read :: "('d, 'p) guarded \<Rightarrow> bool" where
  "readers_read st \<longleftrightarrow> (\<forall>(i, as_reader, ms) \<in> set (begun st). as_reader \<longrightarrow> reads_only ms)"

section \<open>Sections are atomic\<close>

lemma run_section_simps [simp]:
  "run_section [] x = x" "run_section (m # ms) x = run_section ms (m x)"
  by (simp_all add: run_section_def)

lemma reads_only_simps [simp]: "reads_only []" "reads_only (m # ms) \<longleftrightarrow> (\<forall>d p. fst (m (d, p)) = d) \<and> reads_only ms"
  by (simp_all add: reads_only_def)

lemma reads_only_memory: "reads_only ms \<Longrightarrow> fst (run_section ms (d, p)) = d"
proof (induction ms arbitrary: d p)
  case (Cons m ms)
  then have "fst (m (d, p)) = d" by simp
  then have "m (d, p) = (d, snd (m (d, p)))" by (metis prod.collapse)
  then show ?case using Cons by (metis reads_only_simps(2) run_section_simps(2))
qed simp

text \<open>
  The invariant: what is left of the sections, run to its end, gives what the sections in their order
  give; only a thread that has the lock has accesses left, and those of a reader leave the memory alone.
\<close>

definition section_inv :: "nat \<Rightarrow> 'd \<times> (nat \<Rightarrow> 'p) \<Rightarrow> ('d, 'p) guarded \<Rightarrow> bool" where
  "section_inv n x st \<longleftrightarrow> (\<forall>i. left st i \<noteq> [] \<longrightarrow> holding (pcs st i)) \<and> (\<forall>i. pcs st i = R_held \<longrightarrow> reads_only (left st i))
     \<and> (\<forall>i. snd (run_section (left st i) (memory st, own_part st i)) = snd (in_order (begun st) x) i)
     \<and> (\<forall>i. pcs st i = W_held \<longrightarrow> fst (run_section (left st i) (memory st, own_part st i)) = fst (in_order (begun st) x))
     \<and> ((\<forall>i. pcs st i \<noteq> W_held) \<longrightarrow> memory st = fst (in_order (begun st) x))"

text \<open>A thread that begins a section has just got the lock, and nothing is left of its last section.\<close>

lemma begins_idle: "rw_thread (q, w) (p, w') \<Longrightarrow> holding p \<Longrightarrow> \<not> holding q"
  by (auto elim!: rw_thread.cases shf_rw_lock_writer.cases shf_rw_unlock_writer.cases shf_rw_lock_reader.cases shf_rw_unlock_reader.cases)

definition guard_inv :: "nat \<Rightarrow> 'd \<times> (nat \<Rightarrow> 'p) \<Rightarrow> ('d, 'p) guarded \<Rightarrow> bool" where
  "guard_inv n x st \<longleftrightarrow> rw_inv n (pcs st, word st) \<and> (\<forall>i. n \<le> i \<longrightarrow> pcs st i = Idle) \<and> section_inv n x st"

lemma writer_alone:
  assumes "guard_inv n x st" "pcs st i = W_held"
  shows "i < n" "j \<noteq> i \<Longrightarrow> left st j = []" "j \<noteq> i \<Longrightarrow> \<not> holding (pcs st j)"
proof -
  have I: "rw_inv n (pcs st, word st)" "\<forall>i. n \<le> i \<longrightarrow> pcs st i = Idle" "\<forall>i. left st i \<noteq> [] \<longrightarrow> holding (pcs st i)"
    using assms(1) by (simp_all add: guard_inv_def section_inv_def)
  show i: "i < n" using I(2) assms(2) by (metis not_le rw_pc.distinct(5))
  show h: "\<not> holding (pcs st j)" if "j \<noteq> i" for j
  proof (cases "j < n")
    case True
    then show ?thesis using rw_inv_exclusive [OF I(1) i True _ assms(2)] that by (simp add: holds_lock_def)
  next
    case False
    then show ?thesis using I(2) by simp
  qed
  then show "left st j = []" if "j \<noteq> i" using I(3) that by blast
qed

lemma in_order_snoc: "in_order (hs @ [h]) x = section_step h (in_order hs x)"
  by (simp add: in_order_def)

lemma guard_lock:
  assumes n: "n < 256" and inv: "guard_inv n x st" and i: "i < n" and t: "rw_thread (pcs st i, word st) (p, w)"
  shows "rw_inv n ((pcs st)(i := p), w)" "n \<le> j \<longrightarrow> ((pcs st)(i := p)) j = Idle"
proof -
  have "rw_inv n (pcs st, word st)" using inv by (simp add: guard_inv_def)
  from rw_inv_step [OF n this i t] show "rw_inv n ((pcs st)(i := p), w)" .
  show "n \<le> j \<longrightarrow> ((pcs st)(i := p)) j = Idle" using inv i by (simp add: guard_inv_def)
qed

lemma guard_step_inv:
  assumes n: "n < 256" and inv: "guard_inv n x st" and step: "guard_step n st st'" and rr: "readers_read st'"
  shows "guard_inv n x st'"
  using step
proof cases
  case (lock_instruction i p w)
  note L = guard_lock [OF n inv lock_instruction(2,3)]
  have S: "section_inv n x st" using inv by (simp add: guard_inv_def)
  have "section_inv n x st'"
  proof (cases "pcs st i = W_held")
    case True
    have "memory st = fst (in_order (begun st) x)" using S True lock_instruction(5) unfolding section_inv_def by (metis run_section_simps(1) fst_conv)
    then show ?thesis using S lock_instruction by (simp add: section_inv_def)
  next
    case False
    then have "(\<forall>j. ((pcs st)(i := p)) j \<noteq> W_held) \<longrightarrow> (\<forall>j. pcs st j \<noteq> W_held)" by (metis fun_upd_apply)
    then show ?thesis using S lock_instruction by (simp add: section_inv_def)
  qed
  then show ?thesis using L lock_instruction(1) by (simp add: guard_inv_def)
next
  case (begin_section i p w ms)
  note L = guard_lock [OF n inv begin_section(2,3)]
  have S: "section_inv n x st" using inv by (simp add: guard_inv_def)
  have l: "left st i = []" using S begins_idle [OF begin_section(3,4)] by (simp add: section_inv_def) metis
  have new: "j \<noteq> i \<Longrightarrow> pcs st j \<noteq> W_held" for j
  proof
    assume j: "j \<noteq> i" "pcs st j = W_held"
    have "j < n" by (rule writer_alone(1) [OF inv j(2)])
    then have "\<not> holds_lock p" using rw_inv_exclusive [OF L(1) _ begin_section(2) j(1)] j by simp
    then show False using begin_section(4) by (auto simp: holds_lock_def)
  qed
  obtain D P where o: "in_order (begun st) x = (D, P)" by fastforce
  have old: "\<forall>j. pcs st j \<noteq> W_held" using new begins_idle [OF begin_section(3,4)] by metis
  then have "memory st = D" using S o by (simp add: section_inv_def)
  moreover have "snd (run_section (left st i) (memory st, own_part st i)) = P i" using S o by (simp add: section_inv_def)
  ultimately have d: "memory st = D" "own_part st i = P i" using l by simp_all
  obtain D' p' where r: "run_section ms (D, P i) = (D', p')" by fastforce
  have o': "in_order (begun st') x = (D', P(i := p'))" by (simp add: begin_section(1) in_order_snoc o r)
  have ro: "p = R_held \<longrightarrow> reads_only ms" using rr by (simp add: readers_read_def begin_section(1))
  then have "p = R_held \<Longrightarrow> D' = D" using reads_only_memory [of ms D "P i"] r by simp
  then have "section_inv n x st'"
    using S old l d r begin_section(4) ro unfolding section_inv_def o' o unfolding begin_section(1) by auto
  then show ?thesis using L begin_section(1) by (simp add: guard_inv_def)
next
  case (access i m ms d p)
  have S: "section_inv n x st" using inv by (simp add: guard_inv_def)
  have r: "run_section (left st i) (memory st, own_part st i) = run_section ms (d, p)" by (simp add: access(4,5))
  let ?o = "in_order (begun st) x"
  have own: "snd (run_section (left st j) (memory st, own_part st j)) = snd ?o j" for j using S by (simp add: section_inv_def)
  have "section_inv n x st'"
  proof (cases "pcs st i = W_held")
    case True
    note W = writer_alone [OF inv True]
    have others: "snd (run_section (left st j) (d, own_part st j)) = snd ?o j" if "j \<noteq> i" for j
      using own [of j] W(2) [OF that] by simp
    have "fst (run_section (left st i) (memory st, own_part st i)) = fst ?o" using S True by (simp add: section_inv_def)
    then have "fst (run_section ms (d, p)) = fst ?o" by (simp add: r)
    moreover have "pcs st j \<noteq> R_held" "pcs st j = W_held \<longleftrightarrow> j = i" for j using W(3) [of j] True by (cases "j = i"; simp)+
    moreover have "snd (run_section ms (d, p)) = snd ?o i" using own [of i] r by simp
    ultimately show ?thesis using True W(2) others unfolding section_inv_def access(1) by simp
  next
    case False
    then have h: "pcs st i = R_held" using access(3) by simp
    then have "reads_only (m # ms)" using S access(4) by (metis section_inv_def)
    then have m: "d = memory st" "reads_only ms" using access(5) by (auto simp: reads_only_def) (metis fst_conv)
    have w: "pcs st j \<noteq> W_held" for j using writer_alone(3) [OF inv, of j i] h False by (cases "j = i") auto
    have "memory st = fst ?o" using S w by (simp add: section_inv_def)
    moreover have "\<forall>j. left st j \<noteq> [] \<longrightarrow> holding (pcs st j)" "\<forall>j. pcs st j = R_held \<longrightarrow> reads_only (left st j)"
      using S by (simp_all add: section_inv_def)
    moreover have "snd (run_section ms (d, p)) = snd ?o i" using own [of i] r by simp
    ultimately show ?thesis using m h w own unfolding section_inv_def access(1) by simp
  qed
  then show ?thesis using inv access(1) by (simp add: guard_inv_def)
qed

lemma guard_step_begun: "guard_step n st st' \<Longrightarrow> set (begun st) \<subseteq> set (begun st')"
  by (auto elim!: guard_step.cases)

lemma guard_reach_inv:
  assumes n: "n < 256" and run: "(guard_step n)\<^sup>*\<^sup>* (guard_start d ps) st" and rr: "readers_read st"
  shows "guard_inv n (d, ps) st"
  using run rr
proof (induction rule: rtranclp_induct)
  case base
  show ?case using rw_inv_start [of n] by (simp add: guard_inv_def section_inv_def guard_start_def rw_start_def in_order_def)
next
  case (step y z)
  have "readers_read y" using step.prems guard_step_begun [OF step.hyps(2)] by (auto simp: readers_read_def)
  then show ?case using guard_step_inv [OF n _ step.hyps(2) step.prems] step.IH by blast
qed

text \<open>
  C31. What runs under the lock is one step, provided that what runs as a reader writes nothing to the guarded
  memory. For up to 255 threads, in every interleaving of the instructions
  of the lock and of the accesses between them, the memory and the private parts of the threads are those
  that the sections give when each is run as one step, in the order in which the threads got the lock. A
  section that has not ended yet gives this once its remaining accesses are made; the memory a reader
  sees does not change while it has the lock. Copies of values that shrink their table do not meet the
  proviso (\<open>Shf_ShrinkRace\<close>), and without it the statement fails (\<open>readers_that_write\<close>).
\<close>

theorem sections_atomic:
  assumes "n < 256" "(guard_step n)\<^sup>*\<^sup>* (guard_start d ps) st"
    and readers: "\<forall>(i, as_reader, ms) \<in> set (begun st). as_reader \<longrightarrow> reads_only ms"
  shows "((\<forall>i. left st i = []) \<longrightarrow> (memory st, own_part st) = in_order (begun st) (d, ps))
     \<and> (\<forall>i. snd (run_section (left st i) (memory st, own_part st i)) = snd (in_order (begun st) (d, ps)) i)
     \<and> (\<forall>i. pcs st i = R_held \<longrightarrow> memory st = fst (in_order (begun st) (d, ps)))
     \<and> (\<forall>i. pcs st i = W_held \<longrightarrow> fst (run_section (left st i) (memory st, own_part st i)) = fst (in_order (begun st) (d, ps)))"
proof (intro conjI allI)
  have inv: "guard_inv n (d, ps) st" by (rule guard_reach_inv [OF assms(1,2)]) (use readers in \<open>simp add: readers_read_def\<close>)
  then have S: "section_inv n (d, ps) st" by (simp add: guard_inv_def)
  show o: "snd (run_section (left st i) (memory st, own_part st i)) = snd (in_order (begun st) (d, ps)) i" for i
    using S by (simp add: section_inv_def)
  show w: "pcs st i = W_held \<longrightarrow> fst (run_section (left st i) (memory st, own_part st i)) = fst (in_order (begun st) (d, ps))" for i
    using S by (simp add: section_inv_def)
  show "pcs st i = R_held \<longrightarrow> memory st = fst (in_order (begun st) (d, ps))" for i
  proof
    assume r: "pcs st i = R_held"
    have "pcs st j \<noteq> W_held" for j using writer_alone(3) [OF inv, of j i] r by (cases "j = i") auto
    then show "memory st = fst (in_order (begun st) (d, ps))" using S by (simp add: section_inv_def)
  qed
  show "(\<forall>i. left st i = []) \<longrightarrow> (memory st, own_part st) = in_order (begun st) (d, ps)"
  proof
    assume l: "\<forall>i. left st i = []"
    have "memory st = fst (in_order (begun st) (d, ps))"
    proof (cases "\<exists>i. pcs st i = W_held")
      case True
      then obtain i where "pcs st i = W_held" ..
      then show ?thesis using w [of i] l by simp
    next
      case False
      then show ?thesis using S by (simp add: section_inv_def)
    qed
    moreover have "own_part st = snd (in_order (begun st) (d, ps))"
    proof
      fix i show "own_part st i = snd (in_order (begun st) (d, ps)) i" using o [of i] l by simp
    qed
    ultimately show "(memory st, own_part st) = in_order (begun st) (d, ps)" by (metis prod.collapse)
  qed
qed

text \<open>
  Two threads: the first writes under the lock, one access is left to it; the second has a ticket.
\<close>

definition add_one :: "(nat, nat) access" where
  "add_one = (\<lambda>(d, p). (d + 1, p))"

definition copy_out :: "(nat, nat) access" where
  "copy_out = (\<lambda>(d, p). (d, d))"

definition two_threads :: "(nat, nat) guarded" where
  "two_threads = \<lparr>pcs = (\<lambda>_. Idle)(0 := W_held, 1 := R_ticket 1), word = 2 * SHF_RW_LOCK_INC_TICKET_NEXT, memory = 6,
     own_part = (\<lambda>_. 0), left = (\<lambda>_. [])(0 := [copy_out]), begun = [(0, False, [add_one, copy_out])]\<rparr>"

lemma two_threads_run: "(guard_step 2)\<^sup>*\<^sup>* (guard_start 5 (\<lambda>_. 0)) two_threads"
proof -
  let ?T = SHF_RW_LOCK_INC_TICKET_NEXT
  let ?st = "\<lambda>p w. \<lparr>pcs = (\<lambda>_. Idle)(0 := p), word = w, memory = 5::nat, own_part = (\<lambda>_. 0::nat), left = (\<lambda>_. []), begun = []\<rparr>"
  let ?h = "?st W_held ?T\<lparr>left := (\<lambda>_. [])(0 := [add_one, copy_out]), begun := [(0, False, [add_one, copy_out])]\<rparr>"
  let ?a = "?h\<lparr>memory := 6, left := (\<lambda>_. [])(0 := [copy_out])\<rparr>"
  note locks = rw_thread.intros(1) [OF w_take] rw_thread.intros(1) [OF w_pad] rw_thread.intros(1) [OF w_enter] rw_thread.intros(3) [OF r_take]
  have words: "ticket_next 0 = 0" "ticket_active_writer ?T = 0" "ticket_next ?T = 1" "rw_clear 5 ?T = ?T"
    by (simp_all add: rw_u08_def rw_clear_def rw_incs)
  have "guard_step 2 (guard_start (5::nat) (\<lambda>_. 0::nat)) (?st (W_ticket 0) ?T)"
    using lock_instruction [of 0 2 "guard_start (5::nat) (\<lambda>_. 0::nat)" "W_ticket 0" ?T] locks(1) [of 0] words
    by (simp add: guard_start_def rw_start_def)
  moreover have "guard_step 2 (?st (W_ticket 0) ?T) (?st (W_wait 0) ?T)"
    using lock_instruction [of 0 2 "?st (W_ticket 0) ?T" "W_wait 0" ?T] locks(2) [of 0 ?T] words by simp
  moreover have "guard_step 2 (?st (W_wait 0) ?T) ?h"
    using begin_section [of 0 2 "?st (W_wait 0) ?T" W_held ?T "[add_one, copy_out]"] locks(3) [of 0 ?T] words by simp
  moreover have "guard_step 2 ?h ?a"
    using access [of 0 2 ?h add_one "[copy_out]" 6 0] by (simp add: add_one_def fun_upd_idem)
  moreover have "guard_step 2 ?a two_threads"
    using lock_instruction [of 1 2 ?a "R_ticket 1" "?T + ?T"] locks(4) [of ?T] words
    by (simp add: two_threads_def)
  ultimately show ?thesis by (blast intro: converse_rtranclp_into_rtranclp)
qed

theorem sections_atomic_witness:
  "\<exists>st. (guard_step 2)\<^sup>*\<^sup>* (guard_start 5 (\<lambda>_. 0)) st \<and> pcs st 0 = W_held \<and> left st 0 = [copy_out] \<and> pcs st 1 = R_ticket 1
     \<and> memory st = 6 \<and> own_part st 0 = 0 \<and> snd (run_section (left st 0) (memory st, own_part st 0)) = 6
     \<and> in_order (begun st) (5, \<lambda>_. 0) = (6, (\<lambda>_. 0)(0 := 6))"
proof -
  have "\<forall>(i, as_reader, ms) \<in> set (begun two_threads). as_reader \<longrightarrow> reads_only ms" by (simp add: two_threads_def)
  then have "snd (run_section (left two_threads 0) (memory two_threads, own_part two_threads 0))
    = snd (in_order (begun two_threads) (5, \<lambda>_. 0)) 0"
    using sections_atomic [OF _ two_threads_run] by simp
  moreover have "in_order (begun two_threads) (5, \<lambda>_. 0) = (6, (\<lambda>_. 0)(0 := 6))"
    by (simp add: two_threads_def in_order_def add_one_def copy_out_def)
  ultimately show ?thesis using two_threads_run by (intro exI [of _ two_threads]) (simp add: two_threads_def)
qed

section \<open>Readers that write\<close>

text \<open>
  The lock lets readers in together: two sections that each read a number and write it back one higher,
  both run as readers, add one instead of two.
\<close>

definition write_next :: "(nat, nat) access" where
  "write_next = (\<lambda>(d, p). (p + 1, p))"

lemma reader_begins:
  assumes i: "i < n" "pcs st i = Idle" "left st i = []"
    and w: "word st = w" "ticket_next w = ticket_active_reader w" "rw_clear 5 (w + SHF_RW_LOCK_INC_TICKET_NEXT) = w + SHF_RW_LOCK_INC_TICKET_NEXT"
      "ticket_active_reader (w + SHF_RW_LOCK_INC_TICKET_NEXT) = ticket_active_reader w"
      "rw_clear 3 (w + SHF_RW_LOCK_INC_TICKET_NEXT + SHF_RW_LOCK_INC_TICKET_NEXT_ACTIVE_READER)
        = w + SHF_RW_LOCK_INC_TICKET_NEXT + SHF_RW_LOCK_INC_TICKET_NEXT_ACTIVE_READER"
  shows "(guard_step n)\<^sup>*\<^sup>* st (st\<lparr>pcs := (pcs st)(i := R_held),
     word := w + SHF_RW_LOCK_INC_TICKET_NEXT + SHF_RW_LOCK_INC_TICKET_NEXT_ACTIVE_READER,
     left := (left st)(i := ms), begun := begun st @ [(i, True, ms)]\<rparr>)"
proof -
  let ?T = "w + SHF_RW_LOCK_INC_TICKET_NEXT" and ?R = SHF_RW_LOCK_INC_TICKET_NEXT_ACTIVE_READER
  let ?s = "\<lambda>p w. st\<lparr>pcs := (pcs st)(i := p), word := w\<rparr>"
  note R = rw_thread.intros(3) [OF r_take] rw_thread.intros(3) [OF r_pad] rw_thread.intros(3) [OF r_enter]
    rw_thread.intros(3) [OF r_next] rw_thread.intros(3) [OF r_pad3]
  have "guard_step n st (?s (R_ticket (ticket_next w)) ?T)"
    using lock_instruction [OF i(1), of st "R_ticket (ticket_next w)" ?T] R(1) [of w] i(2,3) w(1) by simp
  moreover have "guard_step n (?s (R_ticket (ticket_next w)) ?T) (?s (R_wait (ticket_next w)) ?T)"
    using lock_instruction [OF i(1), of "?s (R_ticket (ticket_next w)) ?T" "R_wait (ticket_next w)" ?T] R(2) [of "ticket_next w" ?T] i(3) w(3) by simp
  moreover have "guard_step n (?s (R_wait (ticket_next w)) ?T) (?s R_enter ?T)"
    using lock_instruction [OF i(1), of "?s (R_wait (ticket_next w)) ?T" R_enter ?T] R(3) [of "ticket_next w" ?T] i(3) w(2,4) by simp
  moreover have "guard_step n (?s R_enter ?T) (?s R_entered (?T + ?R))"
    using lock_instruction [OF i(1), of "?s R_enter ?T" R_entered "?T + ?R"] R(4) [of ?T] i(3) by simp
  moreover have "guard_step n (?s R_entered (?T + ?R)) (st\<lparr>pcs := (pcs st)(i := R_held), word := ?T + ?R,
     left := (left st)(i := ms), begun := begun st @ [(i, True, ms)]\<rparr>)"
    using begin_section [OF i(1), of "?s R_entered (?T + ?R)" R_held "?T + ?R" ms] R(5) [of "?T + ?R"] w(5) by simp
  ultimately show ?thesis by (blast intro: converse_rtranclp_into_rtranclp)
qed

lemma readers_that_write:
  "\<exists>st :: (nat, nat) guarded. (guard_step 2)\<^sup>*\<^sup>* (guard_start 5 (\<lambda>_. 0)) st \<and> (\<forall>i. left st i = []) \<and> memory st = 6
     \<and> fst (in_order (begun st) (5, \<lambda>_. 0)) = 7"
proof -
  let ?T = SHF_RW_LOCK_INC_TICKET_NEXT and ?R = SHF_RW_LOCK_INC_TICKET_NEXT_ACTIVE_READER
  let ?ms = "[copy_out, write_next]"
  define g where "g = guard_start (5 :: nat) (\<lambda>_. 0 :: nat)"
  define two where "two l0 l1 d p0 p1 = \<lparr>pcs = (\<lambda>_. Idle)(0 := R_held, 1 := R_held), word = 0 + ?T + ?R + ?T + ?R, memory = d,
     own_part = (\<lambda>_. 0)(0 := p0, 1 := p1), left = (\<lambda>_. [])(0 := l0, 1 := l1), begun = [(0, True, ?ms), (1, True, ?ms)]\<rparr>"
    for l0 l1 :: "(nat, nat) access list" and d p0 p1 :: nat
  define one where "one = g\<lparr>pcs := (pcs g)(0 := R_held), word := 0 + ?T + ?R, left := (left g)(0 := ?ms), begun := begun g @ [(0, True, ?ms)]\<rparr>"
  have w0: "ticket_next 0 = ticket_active_reader 0" "rw_clear 5 (0 + ?T) = 0 + ?T" "ticket_active_reader (0 + ?T) = ticket_active_reader 0"
    "rw_clear 3 (0 + ?T + ?R) = 0 + ?T + ?R" by (simp_all add: rw_u08_def rw_clear_def rw_incs)
  have w1: "ticket_next (0 + ?T + ?R) = ticket_active_reader (0 + ?T + ?R)" "rw_clear 5 (0 + ?T + ?R + ?T) = 0 + ?T + ?R + ?T"
    "ticket_active_reader (0 + ?T + ?R + ?T) = ticket_active_reader (0 + ?T + ?R)"
    "rw_clear 3 (0 + ?T + ?R + ?T + ?R) = 0 + ?T + ?R + ?T + ?R" by (simp_all add: rw_u08_def rw_clear_def rw_incs)
  have A: "(guard_step 2)\<^sup>*\<^sup>* g one"
    unfolding one_def by (rule reader_begins [OF _ _ _ _ w0]) (simp_all add: g_def guard_start_def rw_start_def)
  have "(guard_step 2)\<^sup>*\<^sup>* one (one\<lparr>pcs := (pcs one)(1 := R_held), word := 0 + ?T + ?R + ?T + ?R, left := (left one)(1 := ?ms),
     begun := begun one @ [(1, True, ?ms)]\<rparr>)"
    by (rule reader_begins [OF _ _ _ _ w1]) (simp_all add: one_def g_def guard_start_def rw_start_def)
  moreover have "one\<lparr>pcs := (pcs one)(1 := R_held), word := 0 + ?T + ?R + ?T + ?R, left := (left one)(1 := ?ms),
     begun := begun one @ [(1, True, ?ms)]\<rparr> = two ?ms ?ms 5 0 0"
    by (simp add: one_def two_def g_def guard_start_def rw_start_def fun_upd_idem)
  ultimately have B: "(guard_step 2)\<^sup>*\<^sup>* one (two ?ms ?ms 5 0 0)" by simp
  have a0: "guard_step 2 (two (m # l0) l1 d p0 p1) (two l0 l1 d' p' p1)" if "m (d, p0) = (d', p')" for m l0 l1 d p0 p1 d' p'
    using access [of 0 2 "two (m # l0) l1 d p0 p1" m l0 d' p'] that by (simp add: two_def fun_upd_twist [of "Suc 0" 0])
  have a1: "guard_step 2 (two l0 (m # l1) d p0 p1) (two l0 l1 d' p0 p')" if "m (d, p1) = (d', p')" for m l0 l1 d p0 p1 d' p'
    using access [of 1 2 "two l0 (m # l1) d p0 p1" m l1 d' p'] that by (simp add: two_def)
  have S1: "guard_step 2 (two ?ms ?ms 5 0 0) (two [write_next] ?ms 5 5 0)" by (rule a0) (simp add: copy_out_def)
  have S2: "guard_step 2 (two [write_next] ?ms 5 5 0) (two [write_next] [write_next] 5 5 5)" by (rule a1) (simp add: copy_out_def)
  have S3: "guard_step 2 (two [write_next] [write_next] 5 5 5) (two [] [write_next] 6 5 5)" by (rule a0) (simp add: write_next_def)
  have S4: "guard_step 2 (two [] [write_next] 6 5 5) (two [] [] 6 5 5)" by (rule a1) (simp add: write_next_def)
  have "(guard_step 2)\<^sup>*\<^sup>* g (two [] [] 6 5 5)"
    using rtranclp_trans [OF A B] S1 S2 S3 S4 by (meson rtranclp.rtrancl_into_rtrancl)
  moreover have "(\<forall>i. left (two [] [] 6 5 5) i = []) \<and> memory (two [] [] 6 5 5) = 6
     \<and> fst (in_order (begun (two [] [] 6 5 5)) (5, \<lambda>_. 0)) = 7"
    by (simp add: two_def in_order_def copy_out_def write_next_def)
  ultimately show ?thesis unfolding g_def by blast
qed

end
