(* ===== verification/Shf_SpinLock.thy ===== *)
theory Shf_SpinLock
  imports Shf_Prelude
begin

text \<open>
  The spin lock of \<open>shf.lock.h\<close>: one \<open>long\<close> with the thread id of the holder, and the process id of
  the last holder, which is stored in a second step. A thread that has spun too long asks the system
  whether the holder still exists and may take the lock by force.
\<close>

section \<open>The lock\<close>

record spin_lock =
  sl_lock :: nat
  sl_pid :: nat

datatype SHF_LOCK_STATUS = SHF_SPIN_LOCK_STATUS_FAILED | SHF_SPIN_LOCK_STATUS_LOCKED | SHF_SPIN_LOCK_STATUS_LOCKED_ALREADY

definition SHF_SPIN_LOCK_SPIN_MAX :: nat where
  "SHF_SPIN_LOCK_SPIN_MAX = 1000000"

text \<open>\<open>InterlockedCompareExchange\<close>: the old value is the result.\<close>

definition compare_exchange :: "spin_lock \<Rightarrow> nat \<Rightarrow> nat \<Rightarrow> nat \<times> spin_lock" where
  "compare_exchange l exchange comperand =
     (sl_lock l, if sl_lock l = comperand then l\<lparr>sl_lock := exchange\<rparr> else l)"

definition shf_spin_unlock_force :: "spin_lock \<Rightarrow> nat \<Rightarrow> spin_lock" where
  "shf_spin_unlock_force l old_tid = snd (compare_exchange l 0 old_tid)"

definition shf_spin_unlock :: "nat \<Rightarrow> spin_lock \<Rightarrow> shf_error + spin_lock" where
  "shf_spin_unlock our_tid l = (let (old_tid, l) = compare_exchange l 0 our_tid in
     bindE (assertE (old_tid = our_tid) Lock_not_held) (\<lambda>_. Inr l))"

text \<open>
  Where a thread is: \<open>Spin n\<close> is about to try for the \<open>n\<close>-th time, \<open>Maxed old\<close> has reached the maximum
  and read \<open>old\<close> last, \<open>Got\<close> has the lock and not yet stored its process id. \<open>Ret\<close> has returned.
\<close>

datatype spin_pc = Out | Spin nat | Maxed nat | Got | Ret SHF_LOCK_STATUS

abbreviation "Held \<equiv> Ret SHF_SPIN_LOCK_STATUS_LOCKED"

text \<open>
  One turn of the loop of \<open>shf_spin_lock\<close>, and the only one of \<open>shf_spin_lock_try\<close>. \<open>gone p t\<close> is the
  answer of \<open>stat\<close> that \<open>/proc/p/task/t\<close> does not exist.
\<close>

definition spin_turn :: "nat \<Rightarrow> nat \<Rightarrow> spin_lock \<Rightarrow> spin_pc \<times> spin_lock" where
  "spin_turn our_tid spin l =
     (let (old_tid, l) = compare_exchange l our_tid 0 in
      if old_tid = 0 then (Got, l)
      else if old_tid = our_tid then (Ret SHF_SPIN_LOCK_STATUS_LOCKED_ALREADY, l)
      else if spin + 1 = SHF_SPIN_LOCK_SPIN_MAX then (Maxed old_tid, l)
      else (Spin (spin + 1), l))"

definition try_turn :: "nat \<Rightarrow> spin_lock \<Rightarrow> spin_pc \<times> spin_lock" where
  "try_turn our_tid l =
     (let (old_tid, l) = compare_exchange l our_tid 0 in
      if old_tid = 0 then (Got, l)
      else if old_tid = our_tid then (Ret SHF_SPIN_LOCK_STATUS_LOCKED_ALREADY, l)
      else (Ret SHF_SPIN_LOCK_STATUS_FAILED, l))"

definition spin_maxed :: "(nat \<Rightarrow> nat \<Rightarrow> bool) \<Rightarrow> nat \<Rightarrow> spin_lock \<Rightarrow> spin_pc \<times> spin_lock" where
  "spin_maxed gone old_tid l =
     (if gone (sl_pid l) old_tid then (Spin 0, shf_spin_unlock_force l old_tid)
      else (Ret SHF_SPIN_LOCK_STATUS_FAILED, l))"

text \<open>The steps of a thread of process \<open>pid\<close> that calls the functions when it does not hold the lock.\<close>

inductive spin_thread :: "(nat \<Rightarrow> nat \<Rightarrow> bool) \<Rightarrow> nat \<Rightarrow> nat \<Rightarrow> spin_pc \<times> spin_lock \<Rightarrow> spin_pc \<times> spin_lock \<Rightarrow> bool"
  for gone pid tid where
  call: "spin_thread gone pid tid (Out, l) (Spin 0, l)"
| try_once: "spin_thread gone pid tid (Out, l) (try_turn tid l)"
| turn: "spin_thread gone pid tid (Spin n, l) (spin_turn tid n l)"
| maxed: "spin_thread gone pid tid (Maxed old, l) (spin_maxed gone old l)"
| got: "spin_thread gone pid tid (Got, l) (Held, l\<lparr>sl_pid := pid\<rparr>)"
| unlock: "shf_spin_unlock tid l = Inr l' \<Longrightarrow> spin_thread gone pid tid (Held, l) (Out, l')"
| failed: "r \<noteq> SHF_SPIN_LOCK_STATUS_LOCKED \<Longrightarrow> spin_thread gone pid tid (Ret r, l) (Out, l)"

type_synonym spin_conf = "(nat \<Rightarrow> spin_pc) \<times> spin_lock"

text \<open>Threads \<open>i\<close> with thread id \<open>tid i\<close> in process \<open>pid i\<close>; the system knows exactly these.\<close>

inductive spin_step :: "(nat \<Rightarrow> nat \<Rightarrow> bool) \<Rightarrow> (nat \<Rightarrow> nat) \<Rightarrow> (nat \<Rightarrow> nat) \<Rightarrow> spin_conf \<Rightarrow> spin_conf \<Rightarrow> bool"
  for gone pid tid where
  "spin_thread gone (pid i) (tid i) (pc i, l) (p, l') \<Longrightarrow> spin_step gone pid tid (pc, l) (pc(i := p), l')"

definition spin_start :: spin_conf where
  "spin_start = (\<lambda>_. Out, \<lparr>sl_lock = 0, sl_pid = 0\<rparr>)"

abbreviation spin_reach :: "(nat \<Rightarrow> nat \<Rightarrow> bool) \<Rightarrow> (nat \<Rightarrow> nat) \<Rightarrow> (nat \<Rightarrow> nat) \<Rightarrow> spin_conf \<Rightarrow> bool" where
  "spin_reach gone pid tid c \<equiv> (spin_step gone pid tid)\<^sup>*\<^sup>* spin_start c"

section \<open>Exclusion\<close>

definition spin_inv :: "(nat \<Rightarrow> nat) \<Rightarrow> spin_conf \<Rightarrow> bool" where
  "spin_inv tid = (\<lambda>(pc, l). \<forall>i. pc i = Got \<or> pc i = Held \<longrightarrow> sl_lock l = tid i)"

lemma turn_result:
  "spin_turn t n l = (p, l') \<Longrightarrow> sl_lock l = 0 \<and> p = Got \<and> l' = l\<lparr>sl_lock := t\<rparr> \<or> l' = l \<and> p \<noteq> Got \<and> p \<noteq> Held"
  "try_turn t l = (p, l') \<Longrightarrow> sl_lock l = 0 \<and> p = Got \<and> l' = l\<lparr>sl_lock := t\<rparr> \<or> l' = l \<and> p \<noteq> Got \<and> p \<noteq> Held"
  by (auto simp: spin_turn_def try_turn_def compare_exchange_def Let_def split: if_splits)

lemma spin_inv_step:
  assumes t: "inj tid" "0 \<notin> range tid" and inv: "spin_inv tid (pc, l)"
    and st: "spin_thread (\<lambda>_ _. False) (pid i) (tid i) (pc i, l) (p, l')"
  shows "spin_inv tid (pc(i := p), l')"
proof -
  have I: "pc j = Got \<or> pc j = Held \<Longrightarrow> sl_lock l = tid j" for j using inv unfolding spin_inv_def prod.case by blast
  have nz: "tid j \<noteq> 0" for j using t(2) by (metis rangeI)
  have free: "pc j \<noteq> Got \<and> pc j \<noteq> Held" if "sl_lock l = 0" for j using I [of j] nz [of j] that by fastforce
  have acquire: "spin_inv tid (pc(i := Got), l\<lparr>sl_lock := tid i\<rparr>)" if "sl_lock l = 0"
    using free [OF that] by (simp add: spin_inv_def)
  have neutral: "spin_inv tid (pc(i := p'), l'')" if "sl_lock l'' = sl_lock l" "p' \<noteq> Got" "p' \<noteq> Held" for p' l''
    using I that by (simp add: spin_inv_def)
  from st show ?thesis
  proof cases
    case try_once
    then show ?thesis using turn_result(2) [of "tid i" l p l'] acquire neutral by auto
  next
    case (turn n)
    then show ?thesis using turn_result(1) [of "tid i" n l p l'] acquire neutral by auto
  next
    case got
    then have "sl_lock l = tid i" using I [of i] by simp
    then show ?thesis using got I by (simp add: spin_inv_def)
  next
    case unlock
    then have l: "sl_lock l = tid i" using I [of i] by simp
    then have "pc j \<noteq> Got \<and> pc j \<noteq> Held" if "j \<noteq> i" for j using I [of j] that t(1) by (auto simp: inj_eq)
    then show ?thesis using unlock by (simp add: spin_inv_def)
  qed (use neutral in \<open>simp_all add: spin_maxed_def\<close>)
qed

lemma spin_inv_reach:
  assumes "inj tid" "0 \<notin> range tid" "spin_reach (\<lambda>_ _. False) pid tid c"
  shows "spin_inv tid c"
  using assms(3)
proof (induction rule: rtranclp_induct)
  case base
  show ?case by (simp add: spin_inv_def spin_start_def)
next
  case (step c d)
  from step.hyps(2) step.IH show ?case by cases (auto intro: spin_inv_step [OF assms(1,2)])
qed


section \<open>Properties of the spin lock\<close>

text \<open>
  C33. As long as no lock is taken by force, at most one thread holds the spin lock, whatever the
  interleaving of the steps of any number of threads.
\<close>

theorem spin_lock_exclusion:
  assumes "inj tid" "0 \<notin> range tid" "spin_reach (\<lambda>_ _. False) pid tid (pc, l)" "i \<noteq> j" "pc i = Held"
  shows "pc j \<noteq> Held \<and> sl_lock l = tid i"
proof -
  have I: "pc k = Got \<or> pc k = Held \<Longrightarrow> sl_lock l = tid k" for k
    using spin_inv_reach [OF assms(1-3)] by (auto simp: spin_inv_def)
  then show ?thesis using I [of i] I [of j] assms(1,4,5) by (auto simp: inj_eq)
qed

lemma spin_reach_step: "spin_reach gone pid tid (pc, l) \<Longrightarrow> spin_thread gone (pid i) (tid i) (pc i, l) (p, l')
    \<Longrightarrow> spin_reach gone pid tid (pc(i := p), l')"
  by (rule rtranclp.rtrancl_into_rtrancl) (auto intro: spin_step.intros)

definition demo_pid :: "nat \<Rightarrow> nat" where "demo_pid i = 100 + i"
definition demo_tid :: "nat \<Rightarrow> nat" where "demo_tid i = 1000 + i"

lemma demo_first:
  "spin_reach gone demo_pid demo_tid ((\<lambda>_. Out)(0 := Got), \<lparr>sl_lock = 1000, sl_pid = 0\<rparr>)"
proof -
  have "spin_reach gone demo_pid demo_tid (\<lambda>_. Out, \<lparr>sl_lock = 0, sl_pid = 0\<rparr>)" by (simp add: spin_start_def)
  from spin_reach_step [OF this, of 0 Got "\<lparr>sl_lock = 1000, sl_pid = 0\<rparr>"] show ?thesis
    using try_once [of gone "demo_pid 0" "demo_tid 0" "\<lparr>sl_lock = 0, sl_pid = 0\<rparr>"]
    by (simp add: try_turn_def compare_exchange_def demo_tid_def)
qed

theorem spin_lock_exclusion_witness:
  "\<exists>pc l. spin_reach (\<lambda>_ _. False) demo_pid demo_tid (pc, l) \<and> pc 0 = Held \<and> pc 1 \<noteq> Held \<and> sl_lock l = 1000"
proof -
  let ?pc = "(\<lambda>_. Out)(0 := Got, 0 := Held)" and ?l = "\<lparr>sl_lock = 1000, sl_pid = 100\<rparr>"
  have r: "spin_reach (\<lambda>_ _. False) demo_pid demo_tid (?pc, ?l)"
    using spin_reach_step [OF demo_first, of "\<lambda>_ _. False" 0 Held ?l] got [of _ "demo_pid 0" "demo_tid 0" "\<lparr>sl_lock = 1000, sl_pid = 0\<rparr>"]
    by (simp add: demo_pid_def)
  have "inj demo_tid" "0 \<notin> range demo_tid" by (auto simp: inj_def demo_tid_def)
  then show ?thesis using spin_lock_exclusion [OF _ _ r, of 0 1] r by (intro exI [of _ ?pc] exI [of _ ?l]) (simp add: demo_tid_def)
qed

lemma spin_long:
  assumes "spin_reach gone pid tid (pc, l)" "pc i = Spin 0" "sl_lock l \<noteq> 0" "sl_lock l \<noteq> tid i" "n < SHF_SPIN_LOCK_SPIN_MAX"
  shows "spin_reach gone pid tid (pc(i := Spin n), l)"
  using assms(5)
proof (induction n)
  case 0
  have "pc(i := Spin 0) = pc" using assms(2) by auto
  then show ?case using assms(1) by simp
next
  case (Suc n)
  have r: "spin_reach gone pid tid (pc(i := Spin n), l)" by (rule Suc.IH) (use Suc.prems in simp)
  have "spin_thread gone (pid i) (tid i) ((pc(i := Spin n)) i, l) (Spin (Suc n), l)"
    using turn [of gone "pid i" "tid i" n l] assms(3,4) Suc.prems by (simp add: spin_turn_def compare_exchange_def)
  from spin_reach_step [OF r this] show ?case by (simp only: fun_upd_upd)
qed

text \<open>
  C34. Taking the lock by force is not safe: the holder stores its process id only after it has got the
  lock. When it is delayed between the two, a waiting thread asks for the holder's thread under the
  process id of the holder before (here 0, no process at all), is told that there is none, and both
  have the lock, although the system answers truthfully and no thread has ended.
\<close>

theorem spin_lock_forced:
  "\<exists>pc l. spin_reach (\<lambda>p t. \<forall>i. \<not> (demo_pid i = p \<and> demo_tid i = t)) demo_pid demo_tid (pc, l) \<and> pc 0 = Held \<and> pc 1 = Held"
proof -
  define gone where "gone = (\<lambda>p t. \<forall>i. \<not> (demo_pid i = p \<and> demo_tid i = t))"
  let ?l = "\<lparr>sl_lock = 1000, sl_pid = 0\<rparr>"
  let ?pc = "\<lambda>p. (\<lambda>_. Out)(0 := Got, 1 := p)"
  have c1: "spin_reach gone demo_pid demo_tid (?pc (Spin 0), ?l)"
    using spin_reach_step [OF demo_first, of gone 1 "Spin 0" ?l] call [of gone "demo_pid 1" "demo_tid 1" ?l] by simp
  have "spin_reach gone demo_pid demo_tid ((?pc (Spin 0))(1 := Spin 999999), ?l)"
    by (rule spin_long [OF c1]) (simp_all add: demo_tid_def SHF_SPIN_LOCK_SPIN_MAX_def)
  from spin_reach_step [OF this, of 1 "Maxed 1000" ?l]
  have "spin_reach gone demo_pid demo_tid (?pc (Maxed 1000), ?l)"
    using turn [of gone "demo_pid 1" "demo_tid 1" 999999 ?l]
    by (simp add: spin_turn_def compare_exchange_def demo_tid_def SHF_SPIN_LOCK_SPIN_MAX_def)
  moreover have "gone 0 1000" by (simp add: gone_def demo_pid_def)
  then have "spin_thread gone (demo_pid 1) (demo_tid 1) (Maxed 1000, ?l) (Spin 0, \<lparr>sl_lock = 0, sl_pid = 0\<rparr>)"
    using maxed [of gone "demo_pid 1" "demo_tid 1" 1000 ?l]
    by (simp add: spin_maxed_def shf_spin_unlock_force_def compare_exchange_def)
  ultimately have "spin_reach gone demo_pid demo_tid (?pc (Spin 0), \<lparr>sl_lock = 0, sl_pid = 0\<rparr>)"
    using spin_reach_step [of gone demo_pid demo_tid "?pc (Maxed 1000)" ?l 1] by simp
  from spin_reach_step [OF this, of 1 Got "\<lparr>sl_lock = 1001, sl_pid = 0\<rparr>"]
  have "spin_reach gone demo_pid demo_tid (?pc Got, \<lparr>sl_lock = 1001, sl_pid = 0\<rparr>)"
    using turn [of gone "demo_pid 1" "demo_tid 1" 0 "\<lparr>sl_lock = 0, sl_pid = 0\<rparr>"]
    by (simp add: spin_turn_def compare_exchange_def demo_tid_def)
  from spin_reach_step [OF this, of 1 Held "\<lparr>sl_lock = 1001, sl_pid = 101\<rparr>"]
  have "spin_reach gone demo_pid demo_tid (?pc Held, \<lparr>sl_lock = 1001, sl_pid = 101\<rparr>)"
    using got [of gone "demo_pid 1" "demo_tid 1" "\<lparr>sl_lock = 1001, sl_pid = 0\<rparr>"] by (simp add: demo_pid_def)
  from spin_reach_step [OF this, of 0 Held "\<lparr>sl_lock = 1001, sl_pid = 100\<rparr>"]
  have "spin_reach gone demo_pid demo_tid ((?pc Held)(0 := Held), \<lparr>sl_lock = 1001, sl_pid = 100\<rparr>)"
    using got [of gone "demo_pid 0" "demo_tid 0" "\<lparr>sl_lock = 1001, sl_pid = 101\<rparr>"] by (simp add: demo_pid_def)
  then show ?thesis unfolding gone_def
    by (intro exI [of _ "(?pc Held)(0 := Held)"] exI [of _ "\<lparr>sl_lock = 1001, sl_pid = 100\<rparr>"]) simp
qed

end
