(* ===== verification/Shf_Tap.thy ===== *)
theory Shf_Tap
  imports Shf_LogShm
begin

text \<open>
  The test protocol writer \<open>tap.c\<close>. Its output functions are redirected into \<open>shf_log_fprintf\<close>, which
  ignores the stream, so the output is the sequence of texts passed to it; \<open>Shf_LogLine\<close> says what
  becomes of them. What \<open>printf\<close> makes of a format and its arguments, and whether \<open>malloc\<close> succeeds, are
  arguments of these definitions.
\<close>

section \<open>State\<close>

datatype tap_msg = Msg_null | Msg string | Msg_freed

datatype sig_handler = SIG_DFL | SIG_IGN | Sig_tap | Sig_user nat

definition TAP_FLAG_ON_FAILURE_EXIT :: "32 word" where "TAP_FLAG_ON_FAILURE_EXIT = 1"
definition TAP_FLAG_DEBUG :: "32 word" where "TAP_FLAG_DEBUG = 2"

text \<open>
  The static variables, the handlers that are installed, the process id and the texts that were
  printed. \<open>tap_once\<close> is the static of \<open>tap_init\<close>.
\<close>

record tap =
  no_plan :: bool
  skip_all :: bool
  have_plan :: bool
  test_count :: "32 word"
  e_tests :: "32 word"
  failures :: "32 word"
  todo_msg :: tap_msg
  todo :: bool
  test_died :: bool
  test_case_name :: "string option"
  tap_flags :: "32 word"
  test_pid :: nat
  tap_once :: bool
  tap_saved_sig_handler :: "nat \<Rightarrow> sig_handler"
  sig_handlers :: "nat \<Rightarrow> sig_handler"
  tap_pid :: nat
  tap_out :: "string list"

text \<open>A function returns, exits with a code, or frees a pointer twice.\<close>

datatype tap_stop = Tap_exit nat tap | Tap_double_free

section \<open>Printing\<close>

definition dec_int :: "int \<Rightarrow> string" where
  "dec_int i = (if i < 0 then CHR ''-'' # dec (nat (- i)) else dec (nat i))"

text \<open>\<open>%d\<close> of an \<open>unsigned int\<close>.\<close>

definition dec_word :: "32 word \<Rightarrow> string" where
  "dec_word w = dec_int (sint w)"

definition tap_print :: "string list \<Rightarrow> tap \<Rightarrow> tap" where
  "tap_print ps t = t\<lparr>tap_out := tap_out t @ ps\<rparr>"

definition todo_msg_fixed :: string where
  "todo_msg_fixed = ''libtap malloc issue''"

text \<open>\<open>signal\<close> returns the handler that was installed before.\<close>

definition tap_signal :: "nat \<Rightarrow> tap \<Rightarrow> tap" where
  "tap_signal sig t = t\<lparr>tap_saved_sig_handler := (tap_saved_sig_handler t)(sig := sig_handlers t sig),
     sig_handlers := (sig_handlers t)(sig := Sig_tap)\<rparr>"

definition SIGINT :: nat where "SIGINT = 2"
definition SIGTERM :: nat where "SIGTERM = 15"

definition tap_init :: "tap \<Rightarrow> tap" where
  "tap_init t =
     (let t = (if \<not> tap_once t then t\<lparr>test_pid := tap_pid t, tap_once := True\<rparr> else t)
      in if tap_flags t AND TAP_FLAG_DEBUG \<noteq> 0 then tap_signal SIGTERM (tap_signal SIGINT t) else t)"

definition tap_diag :: "string \<Rightarrow> tap \<Rightarrow> tap" where
  "tap_diag text t = tap_print [''# '', text, [newline]] (tap_init t)"

definition expected_tests :: "32 word \<Rightarrow> tap \<Rightarrow> tap" where
  "expected_tests tests t = (tap_print [''1..'' @ dec_word tests @ [newline]] t)\<lparr>e_tests := tests\<rparr>"

definition my_vasprintf :: "bool \<Rightarrow> string \<Rightarrow> string option" where
  "my_vasprintf mem text = (if mem then Some (take 1023 text) else None)"

section \<open>Results\<close>

text \<open>
  The kinds of comparison of \<open>_gen_result\<close>. The result of the comparison function and the two texts of
  the conversion function are given for \<open>Is_cmp\<close>.
\<close>

datatype tap_check = Ok int | Is int int | Is_eq string string | Is_cmp int string string
  | Is_strncmp string string nat | Is_strstr string string

fun strstr :: "string \<Rightarrow> string \<Rightarrow> bool" where
  "strstr [] t \<longleftrightarrow> t = []"
| "strstr (c # s) t \<longleftrightarrow> take (length t) (c # s) = t \<or> strstr s t"

fun check_ok :: "tap_check \<Rightarrow> bool" where
  "check_ok (Ok got) \<longleftrightarrow> take_bit 32 got \<noteq> 0"
| "check_ok (Is got expected) \<longleftrightarrow> got = expected"
| "check_ok (Is_eq got expected) \<longleftrightarrow> got = expected"
| "check_ok (Is_cmp r _ _) \<longleftrightarrow> r = 0"
| "check_ok (Is_strncmp got expected n) \<longleftrightarrow> take n got = take n expected"
| "check_ok (Is_strstr got expected) \<longleftrightarrow> strstr got expected"

fun check_diag :: "tap_check \<Rightarrow> string list" where
  "check_diag (Ok got) = []"
| "check_diag (Is got expected) = [''         got: '' @ dec_int got, ''    expected: '' @ dec_int expected]"
| "check_diag (Is_eq got expected) = [''         got: \"'' @ got @ ''\"'', ''    expected: \"'' @ expected @ ''\"'']"
| "check_diag (Is_cmp _ got expected) = [''         got: '' @ got, ''    expected: '' @ expected]"
| "check_diag (Is_strncmp got expected n) = [''         got: '' @ take n got, ''    expected: '' @ take n expected]"
| "check_diag (Is_strstr got expected) = [''                    got: \"'' @ got @ ''\"'', ''    expected to contain: \"'' @ expected @ ''\"'']"

definition isdigit :: "char \<Rightarrow> bool" where
  "isdigit c \<longleftrightarrow> 48 \<le> (of_char c :: nat) \<and> (of_char c :: nat) \<le> 57"

definition isspace :: "char \<Rightarrow> bool" where
  "isspace c \<longleftrightarrow> (of_char c :: nat) = 32 \<or> 9 \<le> (of_char c :: nat) \<and> (of_char c :: nat) \<le> 13"

definition name_is_digits :: "string \<Rightarrow> bool" where
  "name_is_digits s \<longleftrightarrow> list_all (\<lambda>c. isdigit c \<or> isspace c) s"

text \<open>The name, one character at a time, with a backslash before every number sign.\<close>

definition escaped :: "string \<Rightarrow> string list" where
  "escaped s = concat (map (\<lambda>c. (if c = CHR ''#'' then [[CHR 0x5C]] else []) @ [[c]]) s)"

definition todo_text :: "tap_msg \<Rightarrow> string" where
  "todo_text m = (case m of Msg s \<Rightarrow> s | _ \<Rightarrow> todo_msg_fixed)"

definition opt_list :: "bool \<Rightarrow> 'a list \<Rightarrow> 'a list" where
  "opt_list b xs = (if b then xs else [])"

text \<open>The texts of the result line, with the test counter already incremented.\<close>

definition result_texts :: "bool \<Rightarrow> string option \<Rightarrow> string option \<Rightarrow> tap \<Rightarrow> string list" where
  "result_texts ok test_name local_test_name t =
     opt_list (\<not> ok) [''not ''] @ [''ok '' @ dec_word (test_count t)]
     @ opt_list (test_case_name t \<noteq> None \<or> test_name \<noteq> None) ['' - '']
     @ (case test_case_name t of None \<Rightarrow> [] | Some n \<Rightarrow> [n])
     @ (if test_name \<noteq> None then opt_list (test_case_name t \<noteq> None) ['': '']
          @ (case local_test_name of Some s \<Rightarrow> escaped s | None \<Rightarrow> [todo_msg_fixed]) else [])
     @ opt_list (todo t) ['' # TODO '' @ todo_text (todo_msg t)] @ [[newline]]"

text \<open>The steps of \<open>_gen_result\<close>: the name, the counter of failures and the line, the comments on a failure.\<close>

definition name_check :: "string option \<Rightarrow> tap \<Rightarrow> tap" where
  "name_check local_test_name t = (case local_test_name of
     Some s \<Rightarrow> if name_is_digits s
       then tap_diag ''    Very confusing.'' (tap_diag (''    You named your test '' @ [CHR 0x27] @ s @ [CHR 0x27]
              @ ''.  You shouldn'' @ [CHR 0x27] @ ''t use numbers for your test names.'') t)
       else t
   | None \<Rightarrow> t)"

definition result_line :: "bool \<Rightarrow> string option \<Rightarrow> string option \<Rightarrow> tap \<Rightarrow> tap" where
  "result_line ok test_name local_test_name t =
     (let t = (if \<not> ok then t\<lparr>failures := failures t + 1\<rparr> else t);
          t = tap_print (result_texts ok test_name local_test_name t) t
      in if todo t \<and> \<not> ok then t\<lparr>failures := failures t - 1\<rparr> else t)"

definition failure_diag :: "tap_check \<Rightarrow> string \<Rightarrow> string \<Rightarrow> 32 word \<Rightarrow> tap \<Rightarrow> tap" where
  "failure_diag chk func file line t =
     fold tap_diag ((''    Failed '' @ (if todo t then ''(TODO) '' else []) @ ''test ('' @ file @ '':'' @ func
       @ ''() at line '' @ dec_word line @ '')'') # check_diag chk) t"

definition gen_result :: "bool \<Rightarrow> tap_check \<Rightarrow> string \<Rightarrow> string \<Rightarrow> 32 word \<Rightarrow> string option \<Rightarrow> tap \<Rightarrow> tap_stop + nat \<times> tap" where
  "gen_result mem chk func file line test_name t =
     (let ok = check_ok chk;
          t = t\<lparr>test_count := test_count t + 1\<rparr>;
          local_test_name = (case test_name of None \<Rightarrow> None | Some s \<Rightarrow> my_vasprintf mem s);
          t = name_check local_test_name t;
          t = result_line ok test_name local_test_name t;
          t = (if \<not> ok then failure_diag chk func file line t else t)
      in if \<not> ok \<and> tap_flags t AND TAP_FLAG_ON_FAILURE_EXIT \<noteq> 0 then Inl (Tap_exit (unat (test_count t)) t)
         else Inr (if ok then 1 else 0, t))"

section \<open>Plans and the other functions\<close>

definition plan_twice :: "string \<Rightarrow> tap \<Rightarrow> tap_stop" where
  "plan_twice text t = Tap_exit 255 ((tap_print [text] t)\<lparr>test_died := True\<rparr>)"

definition plan_no_plan :: "tap \<Rightarrow> tap_stop + tap" where
  "plan_no_plan t = (let t = tap_init t in
     if have_plan t then Inl (plan_twice (''You tried to plan twice!'' @ [newline]) t)
     else Inr (t\<lparr>have_plan := True, no_plan := True\<rparr>))"

definition plan_skip_all :: "string option \<Rightarrow> tap \<Rightarrow> tap" where
  "plan_skip_all reason t = (let t = (tap_init t)\<lparr>skip_all := True\<rparr> in
     tap_print ([''1..0''] @ (case reason of None \<Rightarrow> [] | Some r \<Rightarrow> ['' # Skip '' @ r]) @ [[newline]]) t)"

definition tap_plan :: "32 word \<Rightarrow> 32 word \<Rightarrow> tap \<Rightarrow> tap_stop + tap" where
  "tap_plan tests flags t = (let t = tap_init (t\<lparr>tap_flags := flags\<rparr>) in
     if have_plan t then Inl (plan_twice (''You tried to plan twice!'' @ [newline]) t)
     else if tests = 0 then Inl (plan_twice (''You said to run 0 tests!  You'' @ [CHR 0x27] @ ''ve got to run something.'' @ [newline]) t)
     else Inr (expected_tests tests (t\<lparr>have_plan := True\<rparr>)))"

definition plan_tests :: "32 word \<Rightarrow> tap \<Rightarrow> tap_stop + tap" where
  "plan_tests tests t = tap_plan tests 0 t"

definition skip_one :: "string option \<Rightarrow> tap \<Rightarrow> tap" where
  "skip_one skip_msg t = (let t = t\<lparr>test_count := test_count t + 1\<rparr> in
     tap_print [''ok '' @ dec_word (test_count t) @ '' # skip '' @ (case skip_msg of Some s \<Rightarrow> s | None \<Rightarrow> ''libtap():malloc() failed'') @ [newline]] t)"

definition tap_skip :: "bool \<Rightarrow> 32 word \<Rightarrow> string \<Rightarrow> tap \<Rightarrow> tap" where
  "tap_skip mem n text t = (skip_one (my_vasprintf mem text) ^^ unat n) t"

definition todo_start :: "bool \<Rightarrow> string \<Rightarrow> tap \<Rightarrow> tap" where
  "todo_start mem text t = t\<lparr>todo_msg := (case my_vasprintf mem text of Some s \<Rightarrow> Msg s | None \<Rightarrow> Msg_null), todo := True\<rparr>"

definition todo_end :: "tap \<Rightarrow> tap_stop + tap" where
  "todo_end t = (let t = t\<lparr>todo := False\<rparr> in
     case todo_msg t of
       Msg_null \<Rightarrow> Inr t
     | Msg s \<Rightarrow> Inr (t\<lparr>todo_msg := Msg_freed\<rparr>)
     | Msg_freed \<Rightarrow> Inl Tap_double_free)"

definition tap_set_test_case_name :: "string option \<Rightarrow> tap \<Rightarrow> tap" where
  "tap_set_test_case_name name t = t\<lparr>test_case_name := name\<rparr>"

definition tap_get_test_case_name :: "tap \<Rightarrow> string option" where
  "tap_get_test_case_name t = test_case_name t"

definition exit_status :: "tap \<Rightarrow> 32 word \<times> tap" where
  "exit_status t =
     (let t = (if tap_flags t AND TAP_FLAG_DEBUG \<noteq> 0 then tap_diag ''tap_debug: exit_status(): entering'' t else t) in
      if no_plan t \<or> \<not> have_plan t then (failures t, t)
      else if e_tests t < test_count t then (test_count t - e_tests t, t)
      else let r = failures t + e_tests t - test_count t in
           (r, if tap_flags t AND TAP_FLAG_DEBUG \<noteq> 0 then tap_diag (''tap_debug: exit_status(): returning '' @ dec (unat r)) t else t))"

text \<open>What \<open>atexit\<close> runs.\<close>

definition failed_diag :: "string \<Rightarrow> tap \<Rightarrow> tap" where
  "failed_diag tail t = (if failures t \<noteq> 0 then tap_diag (''Looks like you failed '' @ dec_word (failures t) @ '' tests of ''
     @ dec_word (test_count t) @ tail) t else t)"

definition tap_cleanup :: "tap \<Rightarrow> tap" where
  "tap_cleanup t =
     (if tap_pid t \<noteq> test_pid t then t
      else if \<not> no_plan t \<and> \<not> have_plan t \<and> \<not> skip_all t then
        tap_diag ''Looks like your test died before it could output anything.'' t
      else if test_died t then tap_diag (''Looks like your test died just after '' @ dec_word (test_count t) @ ''.'') t
      else let t = (if \<not> skip_all t \<and> (no_plan t \<or> \<not> have_plan t) then tap_print [''1..'' @ dec_word (test_count t) @ [newline]] t else t) in
        if (have_plan t \<and> \<not> no_plan t) \<and> e_tests t < test_count t then
          failed_diag '' run.'' (tap_diag (''Looks like you planned '' @ dec_word (e_tests t) @ '' tests but ran ''
            @ dec_word (test_count t - e_tests t) @ '' extra.'') t)
        else if (have_plan t \<or> \<not> no_plan t) \<and> test_count t < e_tests t then
          failed_diag '' run.'' (tap_diag (''Looks like you planned '' @ dec_word (e_tests t) @ '' tests but only ran ''
            @ dec_word (test_count t) @ ''.'') t)
        else failed_diag ''.'' t)"

text \<open>
  The signal handler. It calls the handler that was saved for signal 0, whatever signal came, since
  the name of the array stands for its first element; \<open>ptr\<close> is how \<open>%p\<close> prints a handler.
\<close>

definition tap_debug_sig_handler :: "(sig_handler \<Rightarrow> string) \<Rightarrow> nat \<Rightarrow> tap \<Rightarrow> tap_stop + sig_handler option \<times> tap" where
  "tap_debug_sig_handler ptr sig t =
     (let t = tap_diag (''tap_debug_sig_hander(sig='' @ dec sig @ ''):'') t in
      if tap_saved_sig_handler t sig = SIG_DFL then Inl (Tap_exit 1 (tap_diag ''    default handling: exiting with an error'' t))
      else if tap_saved_sig_handler t sig = SIG_IGN then Inr (None, tap_diag ''    signal ignored'' t)
      else let h = tap_saved_sig_handler t sig; t = tap_diag (''    forwarding signal to function at '' @ ptr h) t
           in Inr (Some (tap_saved_sig_handler t 0), t))"


section \<open>What printing leaves alone\<close>

definition same_counts :: "tap \<Rightarrow> tap \<Rightarrow> bool" where
  "same_counts t t' \<longleftrightarrow> no_plan t' = no_plan t \<and> skip_all t' = skip_all t \<and> have_plan t' = have_plan t
     \<and> test_count t' = test_count t \<and> e_tests t' = e_tests t \<and> failures t' = failures t \<and> todo_msg t' = todo_msg t
     \<and> todo t' = todo t \<and> test_died t' = test_died t \<and> test_case_name t' = test_case_name t \<and> tap_flags t' = tap_flags t
     \<and> tap_pid t' = tap_pid t \<and> (tap_once t \<longrightarrow> tap_once t' \<and> test_pid t' = test_pid t)"

lemma same_counts_refl [simp]: "same_counts t t"
  by (simp add: same_counts_def)

lemma same_counts_trans [trans]: "same_counts t t' \<Longrightarrow> same_counts t' t'' \<Longrightarrow> same_counts t t''"
  by (simp add: same_counts_def)

lemma same_counts_print [simp]: "same_counts t (tap_print ps t)"
  by (simp add: same_counts_def tap_print_def)

lemma same_counts_init [simp]: "same_counts t (tap_init t)"
  by (simp add: same_counts_def tap_init_def tap_signal_def Let_def)

lemma same_counts_diag [simp]: "same_counts t (tap_diag text t)"
  unfolding tap_diag_def by (rule same_counts_trans [OF same_counts_init same_counts_print])

lemma same_counts_diags [simp]: "same_counts t (fold tap_diag ds t)"
proof (induction ds arbitrary: t)
  case (Cons d ds)
  have "same_counts (tap_diag d t) (fold tap_diag ds (tap_diag d t))" by (rule Cons.IH)
  then show ?case using same_counts_trans [OF same_counts_diag] by simp
qed simp

lemma fields_of_diag [simp]:
  "test_count (tap_diag x t) = test_count t" "failures (tap_diag x t) = failures t" "todo (tap_diag x t) = todo t"
  "todo_msg (tap_diag x t) = todo_msg t" "tap_flags (tap_diag x t) = tap_flags t" "test_case_name (tap_diag x t) = test_case_name t"
  "e_tests (tap_diag x t) = e_tests t" "have_plan (tap_diag x t) = have_plan t" "no_plan (tap_diag x t) = no_plan t"
  "skip_all (tap_diag x t) = skip_all t" "test_died (tap_diag x t) = test_died t"
  using same_counts_diag [of t x] by (simp_all add: same_counts_def)

lemma fields_of_diags [simp]:
  "test_count (fold tap_diag ds t) = test_count t" "failures (fold tap_diag ds t) = failures t" "todo (fold tap_diag ds t) = todo t"
  "todo_msg (fold tap_diag ds t) = todo_msg t" "tap_flags (fold tap_diag ds t) = tap_flags t"
  "e_tests (fold tap_diag ds t) = e_tests t" "have_plan (fold tap_diag ds t) = have_plan t" "no_plan (fold tap_diag ds t) = no_plan t"
  "skip_all (fold tap_diag ds t) = skip_all t" "test_died (fold tap_diag ds t) = test_died t"
  using same_counts_diags [of t ds] by (simp_all add: same_counts_def)

lemma fields_of_print [simp]:
  "test_count (tap_print ps t) = test_count t" "failures (tap_print ps t) = failures t" "todo (tap_print ps t) = todo t"
  "todo_msg (tap_print ps t) = todo_msg t" "tap_flags (tap_print ps t) = tap_flags t" "test_case_name (tap_print ps t) = test_case_name t"
  "e_tests (tap_print ps t) = e_tests t" "have_plan (tap_print ps t) = have_plan t" "no_plan (tap_print ps t) = no_plan t"
  "skip_all (tap_print ps t) = skip_all t" "test_died (tap_print ps t) = test_died t"
  using same_counts_print [of t ps] by (simp_all add: same_counts_def)

lemma diag_prints [simp]: "length (tap_out (tap_diag x t)) = length (tap_out t) + 3"
  by (simp add: tap_diag_def tap_print_def tap_init_def tap_signal_def Let_def)

section \<open>Sequences of calls\<close>

datatype tap_call = Call_result bool tap_check string string "32 word" "string option" | Call_skip bool "32 word" string
  | Call_todo_start bool string | Call_todo_end | Call_diag string | Call_case_name "string option"

fun tap_do :: "tap_call \<Rightarrow> tap \<Rightarrow> tap_stop + tap" where
  "tap_do (Call_result mem chk func file line name) t = bindE (gen_result mem chk func file line name t) (\<lambda>(_, t). Inr t)"
| "tap_do (Call_skip mem n text) t = Inr (tap_skip mem n text t)"
| "tap_do (Call_todo_start mem text) t = Inr (todo_start mem text t)"
| "tap_do Call_todo_end t = todo_end t"
| "tap_do (Call_diag text) t = Inr (tap_diag text t)"
| "tap_do (Call_case_name name) t = Inr (tap_set_test_case_name name t)"

primrec tap_run :: "tap_call list \<Rightarrow> tap \<Rightarrow> tap_stop + tap" where
  "tap_run [] t = Inr t"
| "tap_run (c # cs) t = bindE (tap_do c t) (tap_run cs)"

text \<open>The tests a sequence reports, those of them that count as failed, and whether no message is freed twice.\<close>

fun call_tests :: "tap_call \<Rightarrow> nat" where
  "call_tests (Call_result _ _ _ _ _ _) = 1"
| "call_tests (Call_skip _ n _) = unat n"
| "call_tests _ = 0"

fun call_fails :: "bool \<Rightarrow> tap_call \<Rightarrow> nat" where
  "call_fails td (Call_result _ chk _ _ _ _) = of_bool (\<not> check_ok chk \<and> \<not> td)"
| "call_fails td _ = 0"

fun call_todo :: "bool \<Rightarrow> tap_call \<Rightarrow> bool" where
  "call_todo td (Call_todo_start _ _) = True"
| "call_todo td Call_todo_end = False"
| "call_todo td _ = td"

primrec tests_of :: "tap_call list \<Rightarrow> nat" where
  "tests_of [] = 0"
| "tests_of (c # cs) = call_tests c + tests_of cs"

primrec fails_of :: "bool \<Rightarrow> tap_call list \<Rightarrow> nat" where
  "fails_of td [] = 0"
| "fails_of td (c # cs) = call_fails td c + fails_of (call_todo td c) cs"

fun call_msg :: "tap_msg \<Rightarrow> tap_call \<Rightarrow> tap_msg" where
  "call_msg m (Call_todo_start mem text) = (if mem then Msg (take 1023 text) else Msg_null)"
| "call_msg m Call_todo_end = (if m = Msg_null then Msg_null else Msg_freed)"
| "call_msg m _ = m"

primrec calls_ok :: "tap_msg \<Rightarrow> tap_call list \<Rightarrow> bool" where
  "calls_ok m [] = True"
| "calls_ok m (c # cs) = ((c = Call_todo_end \<longrightarrow> m \<noteq> Msg_freed) \<and> calls_ok (call_msg m c) cs)"

lemma fails_le_tests: "fails_of td cs \<le> tests_of cs"
proof (induction cs arbitrary: td)
  case (Cons c cs)
  have "call_fails td c \<le> call_tests c" by (cases c) simp_all
  then show ?case using Cons.IH [of "call_todo td c"] by simp
qed simp

definition plan_same :: "tap \<Rightarrow> tap \<Rightarrow> bool" where
  "plan_same t t' \<longleftrightarrow> no_plan t' = no_plan t \<and> skip_all t' = skip_all t \<and> have_plan t' = have_plan t \<and> e_tests t' = e_tests t
     \<and> test_died t' = test_died t \<and> tap_flags t' = tap_flags t \<and> tap_pid t' = tap_pid t
     \<and> (tap_once t \<longrightarrow> tap_once t' \<and> test_pid t' = test_pid t)"

lemma plan_same_trans: "plan_same t t' \<Longrightarrow> plan_same t' t'' \<Longrightarrow> plan_same t t''"
  by (simp add: plan_same_def)

lemma plan_same_counts: "same_counts t t' \<Longrightarrow> plan_same t t'"
  by (simp add: plan_same_def same_counts_def)

lemma plan_same_skip: "plan_same t (skip_one m t)"
  by (simp add: plan_same_def skip_one_def tap_print_def Let_def)

lemma skip_ok:
  "test_count ((skip_one m ^^ n) t) = test_count t + of_nat n" "failures ((skip_one m ^^ n) t) = failures t"
  "todo ((skip_one m ^^ n) t) = todo t" "todo_msg ((skip_one m ^^ n) t) = todo_msg t" "plan_same t ((skip_one m ^^ n) t)"
  subgoal by (induction n) (simp_all add: skip_one_def Let_def)
  subgoal by (induction n) (simp_all add: skip_one_def Let_def)
  subgoal by (induction n) (simp_all add: skip_one_def Let_def)
  subgoal by (induction n) (simp_all add: skip_one_def Let_def)
  subgoal by (induction n) (auto simp: plan_same_def [of t t] intro: plan_same_trans [OF _ plan_same_skip])
  done

lemma same_counts_name: "same_counts t (name_check l t)"
  using same_counts_trans [OF same_counts_diag same_counts_diag]
  by (simp add: name_check_def split: option.split)

lemma same_counts_fail: "same_counts t (failure_diag chk func file line t)"
  unfolding failure_diag_def by (rule same_counts_diags)

lemma result_line_fields:
  "test_count (result_line ok n l t) = test_count t" "failures (result_line ok n l t) = failures t + of_bool (\<not> ok \<and> \<not> todo t)"
  "todo (result_line ok n l t) = todo t" "todo_msg (result_line ok n l t) = todo_msg t" "plan_same t (result_line ok n l t)"
  by (simp_all add: result_line_def Let_def plan_same_def tap_print_def)

lemma gen_result_ok:
  assumes "tap_flags t AND TAP_FLAG_ON_FAILURE_EXIT = 0"
  shows "\<exists>t'. gen_result mem chk func file line name t = Inr (if check_ok chk then 1 else 0, t')
     \<and> test_count t' = test_count t + 1 \<and> failures t' = failures t + of_bool (\<not> check_ok chk \<and> \<not> todo t)
     \<and> todo t' = todo t \<and> todo_msg t' = todo_msg t \<and> plan_same t t'"
proof -
  define l where "l = (case name of None \<Rightarrow> None | Some s \<Rightarrow> my_vasprintf mem s)"
  define t1 where "t1 = name_check l (t\<lparr>test_count := test_count t + 1\<rparr>)"
  define t2 where "t2 = result_line (check_ok chk) name l t1"
  define t3 where "t3 = (if \<not> check_ok chk then failure_diag chk func file line t2 else t2)"
  have 1: "same_counts (t\<lparr>test_count := test_count t + 1\<rparr>) t1" unfolding t1_def by (rule same_counts_name)
  have 3: "same_counts t2 t3" using same_counts_fail by (simp add: t3_def)
  note 2 = result_line_fields [where ok = "check_ok chk" and n = name and l = l and t = t1, folded t2_def]
  have p: "plan_same t t3"
    using plan_same_trans [OF plan_same_trans [OF plan_same_counts [OF 1] 2(5)] plan_same_counts [OF 3]] by (simp add: plan_same_def)
  then have "tap_flags t3 AND TAP_FLAG_ON_FAILURE_EXIT = 0" using assms by (simp add: plan_same_def)
  then have "gen_result mem chk func file line name t = Inr (if check_ok chk then 1 else 0, t3)"
    unfolding gen_result_def Let_def l_def [symmetric] t1_def [symmetric] t2_def [symmetric] t3_def [symmetric] by simp
  then show ?thesis using 1 2 3 p by (simp add: same_counts_def)
qed

lemma tap_do_ok:
  assumes "tap_flags t AND TAP_FLAG_ON_FAILURE_EXIT = 0" "c = Call_todo_end \<longrightarrow> todo_msg t \<noteq> Msg_freed"
  shows "\<exists>t'. tap_do c t = Inr t' \<and> test_count t' = test_count t + of_nat (call_tests c)
     \<and> failures t' = failures t + of_nat (call_fails (todo t) c) \<and> todo t' = call_todo (todo t) c \<and> todo_msg t' = call_msg (todo_msg t) c
     \<and> plan_same t t'"
proof (cases c)
  case (Call_result mem chk fn fl ln name)
  then show ?thesis using gen_result_ok [OF assms(1), of mem chk fn fl ln name] by auto
next
  case (Call_skip mem n tx)
  then show ?thesis using skip_ok [where n = "unat n" and t = t] by (simp add: tap_skip_def)
next
  case (Call_todo_start mem tx)
  then show ?thesis by (simp add: todo_start_def my_vasprintf_def plan_same_def)
next
  case Call_todo_end
  then show ?thesis using assms(2) by (cases "todo_msg t") (simp_all add: todo_end_def plan_same_def)
next
  case (Call_diag tx)
  then show ?thesis using plan_same_counts [OF same_counts_diag, of t tx] by simp
next
  case (Call_case_name n)
  then show ?thesis by (simp add: tap_set_test_case_name_def plan_same_def)
qed

lemma tap_run_ok:
  assumes "tap_flags t AND TAP_FLAG_ON_FAILURE_EXIT = 0" "calls_ok (todo_msg t) cs"
  shows "\<exists>t'. tap_run cs t = Inr t' \<and> test_count t' = test_count t + of_nat (tests_of cs)
     \<and> failures t' = failures t + of_nat (fails_of (todo t) cs) \<and> plan_same t t'"
  using assms
proof (induction cs arbitrary: t)
  case (Cons c cs)
  obtain t1 where t1: "tap_do c t = Inr t1" "test_count t1 = test_count t + of_nat (call_tests c)"
    "failures t1 = failures t + of_nat (call_fails (todo t) c)" "todo t1 = call_todo (todo t) c" "todo_msg t1 = call_msg (todo_msg t) c"
    "plan_same t t1"
    using tap_do_ok [of t c] Cons.prems by auto
  have "tap_flags t1 AND TAP_FLAG_ON_FAILURE_EXIT = 0" "calls_ok (todo_msg t1) cs"
    using Cons.prems t1 by (simp_all add: plan_same_def)
  then obtain t' where "tap_run cs t1 = Inr t'" "test_count t' = test_count t1 + of_nat (tests_of cs)"
    "failures t' = failures t1 + of_nat (fails_of (todo t1) cs)" "plan_same t1 t'"
    using Cons.IH by blast
  then show ?case using t1 plan_same_trans [OF t1(6)] by simp
qed (simp add: plan_same_def)


section \<open>Properties of the test protocol\<close>

text \<open>The static variables of process \<open>pid\<close> before any call.\<close>

definition tap_fresh :: "nat \<Rightarrow> tap" where
  "tap_fresh pid = \<lparr>no_plan = False, skip_all = False, have_plan = False, test_count = 0, e_tests = 0, failures = 0,
     todo_msg = Msg_null, todo = False, test_died = False, test_case_name = None, tap_flags = 0, test_pid = 0, tap_once = False,
     tap_saved_sig_handler = (\<lambda>_. SIG_DFL), sig_handlers = (\<lambda>_. SIG_DFL), tap_pid = pid, tap_out = []\<rparr>"

lemma planned:
  assumes "n \<noteq> 0"
  shows "plan_tests n (tap_fresh pid) = Inr ((tap_fresh pid)\<lparr>have_plan := True, e_tests := n, test_pid := pid, tap_once := True,
     tap_out := [''1..'' @ dec_word n @ [newline]]\<rparr>)"
  using assms by (simp add: plan_tests_def tap_plan_def tap_init_def tap_fresh_def expected_tests_def tap_print_def Let_def)

lemma planned_run:
  assumes "n \<noteq> 0" "calls_ok Msg_null cs"
  shows "\<exists>t t'. plan_tests n (tap_fresh pid) = Inr t \<and> tap_run cs t = Inr t' \<and> test_count t' = of_nat (tests_of cs)
     \<and> failures t' = of_nat (fails_of False cs) \<and> have_plan t' \<and> \<not> no_plan t' \<and> \<not> skip_all t' \<and> \<not> test_died t'
     \<and> tap_flags t' = 0 \<and> e_tests t' = n \<and> test_pid t' = pid \<and> tap_pid t' = pid"
proof -
  let ?t = "(tap_fresh pid)\<lparr>have_plan := True, e_tests := n, test_pid := pid, tap_once := True,
     tap_out := [''1..'' @ dec_word n @ [newline]]\<rparr>"
  obtain t' where t': "tap_run cs ?t = Inr t'" "test_count t' = test_count ?t + of_nat (tests_of cs)"
    "failures t' = failures ?t + of_nat (fails_of (todo ?t) cs)" "plan_same ?t t'"
    using tap_run_ok [of ?t cs] assms(2) by (auto simp: tap_fresh_def)
  then show ?thesis using planned [OF assms(1)] by (simp add: plan_same_def tap_fresh_def)
qed

lemma exit_word:
  fixes n :: "32 word"
  assumes "c < 4294967296" "f \<le> c"
  shows "n < of_nat c \<longleftrightarrow> unat n < c" "of_nat c < n \<longleftrightarrow> c < unat n"
    "unat n < c \<Longrightarrow> unat (of_nat c - n) = c - unat n"
    "c \<le> unat n \<Longrightarrow> unat (of_nat f + n - of_nat c) = f + unat n - c"
proof -
  have uc: "unat (of_nat c :: 32 word) = c" using assms(1) by (simp add: unat_of_nat)
  show lt: "n < of_nat c \<longleftrightarrow> unat n < c" "of_nat c < n \<longleftrightarrow> c < unat n" by (simp_all add: word_less_nat_alt uc)
  show "unat n < c \<Longrightarrow> unat (of_nat c - n) = c - unat n"
    using lt(1) by (subst unat_sub) (simp_all add: uc)
  show "unat (of_nat f + n - of_nat c) = f + unat n - c" if "c \<le> unat n"
  proof -
    have eq: "of_nat f + n - of_nat c = (of_nat (f + unat n - c) :: 32 word)" using that by (simp add: of_nat_diff)
    have "unat n < 4294967296" using unsigned_less [of n] by simp
    then have "f + unat n - c < 4294967296" using assms(2) that by simp
    then show ?thesis unfolding eq by (subst unat_of_nat) simp
  qed
qed

text \<open>
  C36. The exit status of a test program that plans \<open>n\<close> tests: the number of extra tests when it ran
  more, otherwise the failed tests plus those that were not run. It is 0 exactly when all planned
  tests and no others were run and none failed outside a todo block.
\<close>

theorem exit_status_verdict:
  assumes "n \<noteq> 0" "calls_ok Msg_null cs" "tests_of cs < 4294967296"
  shows "\<exists>t t'. plan_tests n (tap_fresh pid) = Inr t \<and> tap_run cs t = Inr t'
     \<and> unat (fst (exit_status t')) = (if unat n < tests_of cs then tests_of cs - unat n else fails_of False cs + unat n - tests_of cs)
     \<and> (fst (exit_status t') = 0 \<longleftrightarrow> tests_of cs = unat n \<and> fails_of False cs = 0)"
proof -
  obtain t t' where T: "plan_tests n (tap_fresh pid) = Inr t" "tap_run cs t = Inr t'" "test_count t' = of_nat (tests_of cs)"
    "failures t' = of_nat (fails_of False cs)" "have_plan t'" "\<not> no_plan t'" "tap_flags t' = 0" "e_tests t' = n"
    using planned_run [OF assms(1,2), of pid] by blast
  note E = exit_word [OF assms(3) fails_le_tests [of False cs], of n]
  have u: "unat (fst (exit_status t')) = (if unat n < tests_of cs then tests_of cs - unat n else fails_of False cs + unat n - tests_of cs)"
    using T E assms(3) by (simp add: exit_status_def Let_def unat_of_nat)
  moreover have "fst (exit_status t') = 0 \<longleftrightarrow> unat (fst (exit_status t')) = 0" by (simp add: unat_eq_0)
  ultimately show ?thesis using T(1,2) fails_le_tests [of False cs] by auto
qed

theorem exit_status_verdict_witness:
  "\<exists>t t'. plan_tests 2 (tap_fresh 7) = Inr t
     \<and> tap_run [Call_result True (Is 1 1) ''f'' ''a.c'' 3 None, Call_result True (Is 1 2) ''f'' ''a.c'' 4 (Some ''sum'')] t = Inr t'
     \<and> unat (fst (exit_status t')) = 1"
  using exit_status_verdict [of 2 "[Call_result True (Is 1 1) ''f'' ''a.c'' 3 None, Call_result True (Is 1 2) ''f'' ''a.c'' 4 (Some ''sum'')]" 7]
  by simp blast

text \<open>
  At exit the program comments on the run exactly when its exit status is not 0: \<open>_cleanup\<close> and
  \<open>exit_status\<close> agree on what a successful run is.
\<close>

theorem cleanup_agrees:
  assumes "n \<noteq> 0" "calls_ok Msg_null cs" "tests_of cs < 4294967296"
  shows "\<exists>t t'. plan_tests n (tap_fresh pid) = Inr t \<and> tap_run cs t = Inr t'
     \<and> (tap_out (tap_cleanup t') = tap_out t' \<longleftrightarrow> fst (exit_status t') = 0)"
proof -
  obtain t t' where T: "plan_tests n (tap_fresh pid) = Inr t" "tap_run cs t = Inr t'" "test_count t' = of_nat (tests_of cs)"
    "failures t' = of_nat (fails_of False cs)" "have_plan t'" "\<not> no_plan t'" "\<not> skip_all t'" "\<not> test_died t'" "tap_flags t' = 0"
    "e_tests t' = n" "test_pid t' = pid" "tap_pid t' = pid"
    using planned_run [OF assms(1,2), of pid] by blast
  note E = exit_word [OF assms(3) fails_le_tests [of False cs], of n]
  have noisy: "tap_out (failed_diag tail (tap_diag x t')) \<noteq> tap_out t'" for tail x
  proof -
    have "length (tap_out (failed_diag tail (tap_diag x t'))) \<noteq> length (tap_out t')" by (simp add: failed_diag_def)
    then show ?thesis by metis
  qed
  have noisy1: "tap_out (tap_diag x t') \<noteq> tap_out t'" for x
  proof -
    have "length (tap_out (tap_diag x t')) \<noteq> length (tap_out t')" by simp
    then show ?thesis by metis
  qed
  have "tap_out (tap_cleanup t') = tap_out t' \<longleftrightarrow> tests_of cs = unat n \<and> (of_nat (fails_of False cs) :: 32 word) = 0"
    using T noisy noisy1 E by (auto simp: tap_cleanup_def Let_def failed_diag_def)
  moreover have "(of_nat (fails_of False cs) :: 32 word) = 0 \<longleftrightarrow> fails_of False cs = 0"
    using fails_le_tests [of False cs] assms(3) by (simp add: unat_eq_0 [symmetric] unat_of_nat)
  moreover have "fst (exit_status t') = 0 \<longleftrightarrow> tests_of cs = unat n \<and> fails_of False cs = 0"
    using T E assms(3) fails_le_tests [of False cs] by (auto simp: exit_status_def Let_def unat_eq_0 [symmetric] unat_of_nat)
  ultimately have "tap_out (tap_cleanup t') = tap_out t' \<longleftrightarrow> fst (exit_status t') = 0" by simp
  then show ?thesis using T(1,2) by (intro exI [of _ t] exI [of _ t'] conjI)
qed

theorem cleanup_agrees_witness:
  "\<exists>t t'. plan_tests 1 (tap_fresh 7) = Inr t \<and> tap_run [Call_skip True 1 ''later''] t = Inr t'
     \<and> (tap_out (tap_cleanup t') = tap_out t' \<longleftrightarrow> fst (exit_status t') = 0)"
  using cleanup_agrees [of 1 "[Call_skip True 1 ''later'']" 7] by simp


text \<open>Numbers in decimal.\<close>

lemma digit_char: "d < 10 \<Longrightarrow> of_char (digit d) = (48 + d :: nat)"
  by (simp add: digit_def of_char_of)

lemma dec_digits: "c \<in> set (dec n) \<Longrightarrow> \<exists>d < 10. c = digit d"
proof (induction n rule: dec.induct)
  case (1 n)
  show ?case
  proof (cases "n < 10")
    case True
    then have "c = digit n" using "1.prems" by (simp add: dec.simps)
    then show ?thesis using True by blast
  next
    case False
    then have "c \<in> set (dec (n div 10)) \<or> c = digit (n mod 10)" using "1.prems" by (subst (asm) dec.simps) auto
    then show ?thesis
    proof
      assume "c \<in> set (dec (n div 10))"
      then show ?thesis by (rule "1.IH" [OF False])
    next
      assume "c = digit (n mod 10)"
      then show ?thesis by (intro exI [of _ "n mod 10"]) simp
    qed
  qed
qed

lemma dec_nonempty [simp]: "dec n \<noteq> []"
  by (subst dec.simps) simp

lemma length_dec: "n < 10 ^ Suc k \<Longrightarrow> length (dec n) \<le> Suc k"
proof (induction k arbitrary: n)
  case 0
  then show ?case by (subst dec.simps) simp
next
  case (Suc k)
  have "n div 10 < 10 ^ Suc k" using Suc.prems by (simp add: less_mult_imp_div_less)
  then show ?case using Suc.IH [of "n div 10"] by (subst dec.simps) simp
qed

lemma dec_plain: "c \<in> set (dec_word w) \<Longrightarrow> c \<noteq> newline \<and> c \<noteq> NUL"
proof -
  have "of_char newline = (10::nat)" "of_char NUL = (0::nat)" by (simp_all add: newline_def NUL_def)
  moreover assume "c \<in> set (dec_word w)"
  then have "c = CHR ''-'' \<or> (\<exists>d < 10. c = digit d)" using dec_digits by (auto simp: dec_word_def dec_int_def split: if_splits)
  moreover have "digit d \<noteq> newline" "digit d \<noteq> NUL" if "d < 10" for d using digit_char [OF that] calculation by auto
  ultimately show ?thesis by (auto simp: newline_def NUL_def)
qed

lemma length_dec_word: "length (dec_word w) \<le> 11"
proof -
  have "- (2 ^ 31) \<le> sint w" "sint w < 2 ^ 31" using sint_greater_eq [of w] sint_less [of w] by simp_all
  then have "nat (sint w) < 10 ^ Suc 9" "nat (- sint w) < 10 ^ Suc 9" by simp_all
  then have "length (dec (nat (sint w))) \<le> 10" "length (dec (nat (- sint w))) \<le> 10" using length_dec [of _ 9] by simp_all
  then show ?thesis by (simp add: dec_word_def dec_int_def)
qed

lemma dec_word_nonempty [simp]: "dec_word w \<noteq> []"
  by (simp add: dec_word_def dec_int_def)

section \<open>The line of a result\<close>

definition escape :: "string \<Rightarrow> string" where
  "escape s = concat (map (\<lambda>c. if c = CHR ''#'' then [CHR 0x5C, c] else [c]) s)"

lemma concat_escaped: "concat (escaped s) = escape s"
  by (induction s) (simp_all add: escaped_def escape_def)

lemma escaped_pieces: "newline \<notin> set s \<Longrightarrow> p \<in> set (escaped s) \<Longrightarrow> p \<noteq> [] \<and> last p \<noteq> newline"
  by (auto simp: escaped_def newline_def split: if_splits)

lemma length_escape: "length (escape s) \<le> 2 * length s"
  by (induction s) (simp_all add: escape_def)

lemma set_escape: "set (escape s) \<subseteq> insert (CHR 0x5C) (set s)"
  by (auto simp: escape_def split: if_splits)

lemma result_pieces:
  assumes "newline \<notin> set s" "NUL \<notin> set s" "length s \<le> 1023" "test_case_name t = None" "\<not> todo t"
  shows "line_pieces (result_texts True (Some s') (Some s) t)"
    "concat (result_texts True (Some s') (Some s) t) = ''ok '' @ dec_word (test_count t) @ '' - '' @ escape s @ [newline]"
proof -
  let ?n = "''ok '' @ dec_word (test_count t)"
  have ps: "result_texts True (Some s') (Some s) t = [?n, '' - ''] @ escaped s @ [[newline]]"
    using assms(4,5) by (simp add: result_texts_def opt_list_def)
  show c: "concat (result_texts True (Some s') (Some s) t) = ''ok '' @ dec_word (test_count t) @ '' - '' @ escape s @ [newline]"
    by (simp add: ps concat_escaped)
  have "last (dec_word (test_count t)) \<noteq> newline" using dec_plain [OF last_in_set [OF dec_word_nonempty]] by blast
  then have "last ?n \<noteq> newline" by simp
  moreover have "q \<noteq> [] \<and> last q \<noteq> newline" if "q \<in> set (escaped s)" for q using escaped_pieces [OF assms(1) that] .
  moreover have "length (concat (result_texts True (Some s') (Some s) t)) < SHF_LOG_BUFFER_SIZE"
    using length_dec_word [of "test_count t"] length_escape [of s] assms(3) unfolding c by (simp add: SHF_LOG_BUFFER_SIZE_def)
  moreover have "NUL \<notin> set (concat (result_texts True (Some s') (Some s) t))"
    using set_escape [of s] assms(2) dec_plain [of NUL "test_count t"] unfolding c by (auto simp: NUL_def newline_def)
  ultimately show "line_pieces (result_texts True (Some s') (Some s) t)"
    unfolding line_pieces_def ps by (auto simp: butlast_append newline_def)
qed

text \<open>
  A passed test with a name prints one line, \<open>ok\<close> with the next number and the name in which
  every number sign has got a backslash, and the log output function gets exactly this line, although
  the program hands the name over one character at a time.
\<close>

theorem passed_test_prints_line:
  assumes "check_ok chk" "test_case_name t = None" "\<not> todo t" "newline \<notin> set name" "NUL \<notin> set name" "length name \<le> 1023"
    "\<not> name_is_digits name" "log_ready stack [] lt"
  shows "\<exists>t' lt'. gen_result True chk func file line (Some name) t = Inr (1, t') \<and> tap_out t' = tap_out t @ drop (length (tap_out t)) (tap_out t')
     \<and> print_pieces stack (drop (length (tap_out t)) (tap_out t')) lt = Inr lt'
     \<and> log_out lt' = log_out lt @ [(log_output_indirect lt, ''ok '' @ dec_word (test_count t + 1) @ '' - '' @ escape name @ [newline])]"
proof -
  define t1 where "t1 = t\<lparr>test_count := test_count t + 1\<rparr>"
  have g: "gen_result True chk func file line (Some name) t = Inr (1, tap_print (result_texts True (Some name) (Some name) t1) t1)"
    using assms(1,3,6,7) by (simp add: gen_result_def my_vasprintf_def name_check_def result_line_def t1_def Let_def)
  have "test_case_name t1 = None" "\<not> todo t1" "tap_out t1 = tap_out t" "test_count t1 = test_count t + 1" using assms(2,3) by (simp_all add: t1_def)
  note P = result_pieces [OF assms(4-6) this(1,2), of name] and S = this
  obtain lt' where lt': "print_pieces stack (result_texts True (Some name) (Some name) t1) lt = Inr lt'"
    "same_output (printed (concat (result_texts True (Some name) (Some name) t1)) lt) lt'"
    using print_line [OF assms(8) P(1)] by blast
  have "marked f (concat (result_texts True (Some name) (Some name) t1)) = ''ok '' @ dec_word (test_count t + 1) @ '' - '' @ escape name @ [newline]" for f
    unfolding P(2) by (simp add: marked_def S)
  then show ?thesis using g lt' S(3) by (auto simp: tap_print_def same_output_def printed_def)
qed

theorem passed_test_prints_line_witness:
  "\<exists>t' lt'. gen_result True (Is_eq ''a'' ''a'') ''f'' ''x.c'' 9 (Some ''try #2'') (tap_fresh 7) = Inr (1, t')
     \<and> print_pieces (replicate SHF_LOG_BUFFER_SIZE NUL) (tap_out t') fresh_thread = Inr lt'
     \<and> log_out lt' = [(Output_stdout, ''ok 1 - try '' @ [CHR 0x5C] @ ''#2'' @ [newline])]"
proof -
  have "(char_of (49 :: nat) :: char) = CHR ''1''" by code_simp
  then have d: "dec_word 1 = ''1''" by (simp add: dec_word_def dec_int_def dec.simps digit_def)
  have "\<not> name_is_digits ''try #2''" by (simp add: name_is_digits_def isdigit_def isspace_def)
  from passed_test_prints_line [OF _ _ _ _ _ _ this fresh_ready, of "Is_eq ''a'' ''a''" "tap_fresh 7" "''f''" "''x.c''" 9]
  show ?thesis by (auto simp: tap_fresh_def newline_def NUL_def fresh_thread_def d escape_def)
qed

text \<open>
  \<open>todo_end\<close> frees the message and keeps the pointer: a second \<open>todo_end\<close> frees it again.
\<close>

theorem todo_end_twice: "tap_run [Call_todo_start True text, Call_todo_end, Call_todo_end] t = Inl Tap_double_free"
  by (simp add: todo_start_def todo_end_def my_vasprintf_def)

text \<open>
  In debug mode an interrupt does not end the program, as the handler means to: every comment, the
  first one of the handler included, installs and saves the handlers again, so the saved one is the
  handler itself, and what is called then is the one saved for signal 0, a null pointer.
\<close>

theorem interrupt_calls_null:
  assumes "n \<noteq> 0"
  shows "\<exists>t t'. tap_plan n TAP_FLAG_DEBUG (tap_fresh pid) = Inr t \<and> tap_debug_sig_handler ptr SIGINT t = Inr (Some SIG_DFL, t')"
  using assms
  by (simp add: tap_plan_def tap_init_def tap_signal_def tap_fresh_def expected_tests_def tap_print_def TAP_FLAG_DEBUG_def
      tap_debug_sig_handler_def tap_diag_def SIGINT_def SIGTERM_def Let_def)

theorem interrupt_calls_null_witness:
  "\<exists>t t'. tap_plan 3 TAP_FLAG_DEBUG (tap_fresh 7) = Inr t \<and> tap_debug_sig_handler (\<lambda>_. []) SIGINT t = Inr (Some SIG_DFL, t')"
  using interrupt_calls_null [of 3] by simp

end
