(* ===== verification/Spec2Isabelle.thy ===== *)
theory Spec2Isabelle
  imports Shf_Murmur Shf_Attach Shf_ShrinkRace Shf_Cpp Shf_QueueTest Shf_Programs Shf_Guard Shf_SpinLock Shf_Tap
begin

text \<open>
  SharedHashFile: a key,value store, queues and a log in files that several processes map into memory.

  The program. An instance is a folder of tab files. A key is hashed with MurmurHash3; the hash gives one
  of 256 windows, one of 2048 table indexes of the window, one of 512 rows and a tag. A window directs its
  table indexes to up to 2048 tables, each a file with a header, rows of 16 references and a data area that
  records are appended to. Processes map files as they need them, and notice by a field of the header that
  a file has grown or has been replaced. A table whose row is full is split (\<open>shf_tab_part\<close>); a table with
  too much garbage is copied into a new file (\<open>shf_tab_shrink\<close>). On top of the store lie reference counts,
  queues whose arrays are values of the store, races, and a log that many processes append to and one
  thread writes out. Every window, the queues and the log have a readers-writer lock.

  Theories, in the order in which they build on each other. Functions are those of \<open>src/src/shf.c\<close> unless
  another file is named.
  \<^item> \<open>Shf_Prelude\<close>: the C integer types, operations that may leave through a failed assertion
    (\<open>shf_error + 'a\<close>, \<open>bindE\<close>, \<open>assertE\<close>), lemmas on lists of indices.
  \<^item> \<open>Shf_Bytes\<close>: bytes of mapped memory and the accessors of \<open>shf.defines.h\<close>, with the laws they obey in
    the locale \<open>byte_memory\<close>, interpreted as \<open>bm\<close>.
  \<^item> \<open>Shf_Layout\<close>: the geometry and bit fields of \<open>shf.private.h\<close>. \<open>Shf_Murmur\<close>: \<open>murmurhash3.c\<close> on 64 bit words.
  \<^item> \<open>Shf_Tab\<close>: one table in memory: storing, reusing and deleting records, the invariant \<open>tab_ok\<close>, and \<open>slot\<close>,
    what a reference stands for. \<open>Shf_Shm\<close>: files, windows and the mappings of one process (\<open>shf\<close>), \<open>SHF_GET_TAB_MMAP\<close>,
    the invariant \<open>shf_ok\<close> and the abstraction \<open>kv\<close> from coordinates to tag, key and value; \<open>coherent\<close> says that the
    mappings of a process, this one or another, still lead to the current files.
  \<^item> \<open>Shf_Append\<close>: \<open>SHF_TAB_APPEND\<close> with the growth of a file. \<open>Shf_Part\<close>: \<open>SHF_TAB_REF_COPY\<close>, \<open>shf_tab_shrink\<close>,
    \<open>shf_tab_part\<close>. \<open>Shf_Kv\<close>: \<open>shf_put_key_val\<close>, \<open>shf_find_key_internal\<close>, the entry points.
  \<^item> \<open>Shf_Store\<close>: what each entry point returns and does to \<open>kv\<close>, attaching, and reference counts as the locale
    \<open>counter\<close>, interpreted as \<open>ref_count\<close>. \<open>Shf_Dict\<close>: the store as a dictionary, the locale \<open>key_store\<close> with its
    interpretation \<open>ks\<close>; callers inside the program rely on nothing else.
  \<^item> \<open>Shf_Queue\<close>, \<open>Shf_QueueSys\<close>: the queues in their arrays, for any number of processes; the locale
    \<open>handover_queue\<close> with its interpretation \<open>hq\<close>. \<open>Shf_Ipc\<close>, \<open>Shf_QueueStore\<close>: the arrays and parameters under
    their keys, with \<open>qd\<close>, a second interpretation of \<open>key_store\<close> with the checked deletion of \<open>shf_q_del\<close>.
  \<^item> \<open>Shf_Race\<close>: races. \<open>Shf_LogLine\<close>: lines and their pieces. \<open>Shf_LogShm\<close>: the log buffer, the threads that
    append and the log thread. \<open>Shf_LogStore\<close>: the log under its key.
  \<^item> \<open>Shf_Walk\<close>: \<open>shf_tab_copy_iterate\<close>. \<open>Shf_Api\<close>: all calls of the key and value interface in one datatype.
    \<open>Shf_Maps\<close>, \<open>Shf_Detach\<close>: the count of mappings through every operation, and \<open>shf_detach\<close>. \<open>Shf_Multi\<close>: any
    number of processes that make calls at the same time, one locked section at a time. \<open>Shf_Attach\<close>:
    \<open>shf_attach\<close> by several processes, step by step. \<open>Shf_ShrinkRace\<close>: what happens when a reader replaces a
    file that another one uses. \<open>Shf_Admin\<close>: settings, debug functions, the update callback, \<open>shf_del\<close>.
  \<^item> \<open>Shf_RwLock\<close>, \<open>Shf_SpinLock\<close>: the locks of \<open>shf.lock.h\<close>, one step per atomic instruction. \<open>Shf_Guard\<close>: threads
    that access memory while they have the readers-writer lock, and the refinement to one step per section.
  \<^item> \<open>Shf_Test\<close>: the functional test of \<open>test.9.shf.c\<close> for keys and values, line by line, with a small abstract
    machine that computes what the calls do to an instance with one record. \<open>Shf_Cpp\<close>: the class of
    \<open>SharedHashFile.cpp\<close>, its methods over the functions of the library, the life of an object from constructor
    to destructor, and the test of the class (\<open>test.a.shf.cpp\<close>). \<open>Shf_QueueTest\<close>: the loops of the queue test, which
    move all items and the numbers stored in them from queue to queue.
  \<^item> \<open>Shf_Programs\<close>: \<open>shf_backticks\<close>, \<open>main.shf.log.c\<close>, \<open>main.shf.monitor.c\<close>. \<open>Shf_Tap\<close>: \<open>tap.c\<close>.

  State. A \<open>shf\<close> holds the files (\<open>tab_file\<close>, \<open>inode\<close>, \<open>fsize\<close>), the window headers (\<open>wins\<close>), the mappings of
  one process (\<open>tabs\<close>) and the thread local variables. Replacing a file gives a new inode; the old one
  lives on for those that have it mapped. A second process is the same files with other mappings (\<open>joins\<close>,
  \<open>attached_to\<close>), and theorems about other processes quantify over all mappings that are coherent.
  Integers are natural numbers below the width of their C type, with \<open>u16\<close>, \<open>u32\<close>, \<open>u64\<close> and \<open>u32_sub\<close> where the
  code truncates, or words where it works on bits.

  What the lemmas show. Every operation keeps \<open>shf_ok\<close> and the mappings of all processes usable, and changes
  \<open>kv\<close> as it should; splitting and shrinking do not change \<open>kv\<close>. From this come the theorems on put, get, delete,
  update and add, on records read by another process, and on whole sequences of calls: none of them trips
  an assertion other than the one for a window that is full (\<open>calls_never_assert\<close>), and the process can
  detach afterwards (\<open>detach_after_calls\<close>). The same holds for any number of processes in any interleaving
  of their locked sections, as long as no reader shrinks a table (\<open>processes_never_assert\<close>); reference counts survive it as long as they only go up (\<open>additions_all_count\<close>), but not
  when one reaches zero (\<open>reference_lost\<close>). The queues keep their items and are FIFO, whoever works on them, and items
  carry data (\<open>queue_items_carry_data\<close>);
  the locks exclude each other and make progress; of what is appended to a log whose size is given nothing is lost
  until the log thread ends (\<open>log_loses_nothing\<close>). Of processes that attach together exactly one creates the instance
  (\<open>attach_together\<close>). An object of the C++ class gives back
  what it takes, once (\<open>object_gives_back_once\<close>), and the functional test of the repository passes on the model
  (\<open>test_key_val_passes\<close>). Where the code fails, a theorem
  shows how: an instance that others find before it is complete (\<open>attached_too_early\<close>), two readers that shrink one table
  (\<open>shrink_race_loses_records\<close>), byte tickets and thread numbers that wrap, a lock taken by force, a second free, a piece of a
  line that is lost.

  Bounds and fuel. \<open>put_loop\<close> has fuel \<open>2049\<close>: each round but the last takes a new table of the window, of which
  there are 2048, and the theorem \<open>put_returns_or_overflows\<close> shows that the fuel never runs out. Memory is
  bounded by \<open>shf_room n\<close>: \<open>n\<close> more bytes fit into every table below \<open>2 ^ 32\<close> even if it grows by the factor that
  is set. The walk of the test has fuel \<open>walk_fuel\<close>, one round for each table there can be. In fixed length
  mode the key and value together have fewer than 4 bytes or at least 8 (\<open>lens_ok\<close>): between these a deletion
  overwrites the record that follows. Arrays of the code with a bound are functions on numbers here; an access past
  \<open>shf->tabs[win]\<close> (\<open>get_tab_mmap\<close>) or past the value that holds the log (\<open>log_append_turn\<close>) is an error, with which
  the model ends, as is a read through a NULL pointer: what the program does from there on is not described.

  Not modelled, and why.
  \<^item> What runs under the lock of a window is one step (\<open>Shf_Multi\<close>); that the lock makes it so is shown in
    \<open>Shf_Guard\<close> for sections that respect the lock: what is read under the reader's lock changes nothing that is
    shared. That is a hypothesis of \<open>sections_atomic\<close>; \<open>readers_that_write\<close> shows that it is needed. The two calls that
    copy a value do not meet it when they shrink their table, which they do under the reader's lock: \<open>Shf_ShrinkRace\<close>
    takes such shrinks apart and shows what comes of them, and \<open>Shf_Multi\<close> ends at one, with the error
    \<open>Reader_shrinks\<close>. In the theories with one process (\<open>Shf_Store\<close>, \<open>Shf_Api\<close>) no other one calls meanwhile.
  \<^item> Paths, the start of child processes, the clock, debug output and syslog are
    calls of the system; what they return is an argument where it matters. \<open>printf\<close> formatting is left out:
    texts are arguments.
  \<^item> \<open>shf_q_size\<close> only prints, and \<open>shf_q_take_item\<close> is compiled out.
  \<^item> The macros of \<open>tap.h\<close> call \<open>tap.c\<close> with the text of their arguments. Of the test programs, what is not in
    \<open>Shf_Test\<close>, \<open>Shf_Cpp\<close> and \<open>Shf_QueueTest\<close> sets up, prints, measures time or starts child processes.
  \<^item> The queue operations work on the arrays that \<open>shf_q_new\<close> and \<open>shf_q_get\<close> find under their keys. The program uses
    them through pointers into the mapped tables; \<open>Shf_QueueStore\<close> shows that these point to the arrays when they are
    set. Nothing in the code keeps the tables where they are afterwards, and nothing is claimed for a process whose
    later puts move them.
\<close>

end
